(* ===== verification/Prelude.thy ===== *)
theory Prelude
  imports Main "HOL-Library.Word"
begin

text \<open>
  Shared vocabulary of the development: results of fallible Go functions, the outcome of a
  database statement, SQL-style updates and counts on a table (a list of rows), the 64-bit
  wrap-around and the truncating division of Go, and the generic lemmas on lists that the
  components share.
\<close>

named_theorems table_simps \<open>counting and updating rows of a table\<close>
named_theorems result_simps \<open>sequencing of fallible steps\<close>

unbundle bit_operations_syntax

section \<open>Fallible steps\<close>

text \<open>
  A Go function returning \<open>(T, error)\<close> is modelled by \<open>'e + 'a\<close>: \<open>Inl\<close> is the early
  \<open>return err\<close>.  \<open>bindE\<close> is the \<open>if err != nil { return err }\<close> between two steps.
\<close>

definition bindE :: "'e + 'a \<Rightarrow> ('a \<Rightarrow> 'e + 'b) \<Rightarrow> 'e + 'b" where
  "bindE r k = (case r of Inl e \<Rightarrow> Inl e | Inr v \<Rightarrow> k v)"

lemma bindE_Inl [simp, result_simps]: "bindE (Inl e) k = Inl e"
  by (simp add: bindE_def)

lemma bindE_Inr [simp, result_simps]: "bindE (Inr v) k = k v"
  by (simp add: bindE_def)

lemma bindE_eq_Inr [result_simps]:
  "bindE r k = Inr w \<longleftrightarrow> (\<exists>v. r = Inr v \<and> k v = Inr w)"
  by (cases r) auto

lemma bindE_split:
  "P (bindE r k) \<longleftrightarrow> (\<forall>e. r = Inl e \<longrightarrow> P (Inl e)) \<and> (\<forall>v. r = Inr v \<longrightarrow> P (k v))"
  by (cases r) auto

text \<open>
  The database is a service: whether a statement fails is not decided by this code.  A run of
  a function is given a fault script \<open>flt\<close> that says for each of its statements, numbered in
  program order, whether it fails and with which error.
\<close>

type_synonym 'e faults = "nat \<Rightarrow> 'e option"

definition run :: "'e faults \<Rightarrow> nat \<Rightarrow> 'a \<Rightarrow> 'e + 'a" where
  "run flt k v = (case flt k of None \<Rightarrow> Inr v | Some e \<Rightarrow> Inl e)"

definition no_faults :: "'e faults" where
  "no_faults = (\<lambda>_. None)"

lemma no_faults_app [simp]: "no_faults k = None"
  by (simp add: no_faults_def)

lemma run_no_faults [simp, result_simps]: "run no_faults k v = Inr v"
  by (simp add: run_def no_faults_def)

lemma run_eq_Inr [result_simps]: "run flt k v = Inr w \<longleftrightarrow> flt k = None \<and> v = w"
  by (auto simp: run_def split: option.splits)

text \<open>
  \<open>defer tx.Rollback\<close>: a transaction body that returns an error leaves the tables as they
  were; one that returns a value commits the tables it built.
\<close>

definition in_tx :: "'d \<Rightarrow> 'e + 'a \<times> 'd \<Rightarrow> ('e + 'a) \<times> 'd" where
  "in_tx d r = (case r of Inl e \<Rightarrow> (Inl e, d) | Inr (v, d') \<Rightarrow> (Inr v, d'))"

lemma in_tx_error [result_simps]: "fst (in_tx d r) = Inl e \<Longrightarrow> snd (in_tx d r) = d"
  by (auto simp: in_tx_def split: sum.splits prod.splits)

lemma in_tx_Inl [simp]: "in_tx d (Inl e) = (Inl e, d)"
  by (simp add: in_tx_def)

lemma in_tx_Inr [simp]: "in_tx d (Inr (v, d')) = (Inr v, d')"
  by (simp add: in_tx_def)

lemma in_tx_cases:
  "in_tx d r = (Inr v, d') \<longleftrightarrow> r = Inr (v, d')"
  by (auto simp: in_tx_def split: sum.splits prod.splits)

text \<open>The statements of a function called after \<open>n\<close> others.\<close>

definition after :: "nat \<Rightarrow> 'e faults \<Rightarrow> 'e faults" where
  "after n flt = (\<lambda>k. flt (n + k))"

lemma after_no_faults [simp, result_simps]: "after n no_faults = no_faults"
  by (simp add: after_def no_faults_def)

section \<open>Tables\<close>

text \<open>
  \<open>SELECT COUNT(*) ... WHERE p\<close>, \<open>SELECT EXISTS(... WHERE p)\<close>, \<open>SUM(f) ... WHERE p\<close>,
  \<open>UPDATE ... SET f WHERE p\<close> and \<open>DELETE ... WHERE p\<close> over a table given as a list of rows.
\<close>

definition count_where :: "('r \<Rightarrow> bool) \<Rightarrow> 'r list \<Rightarrow> nat" where
  "count_where p rows = length (filter p rows)"

definition sum_where :: "('r \<Rightarrow> bool) \<Rightarrow> ('r \<Rightarrow> int) \<Rightarrow> 'r list \<Rightarrow> int" where
  "sum_where p f rows = sum_list (map f (filter p rows))"

definition upd_where :: "('r \<Rightarrow> bool) \<Rightarrow> ('r \<Rightarrow> 'r) \<Rightarrow> 'r list \<Rightarrow> 'r list" where
  "upd_where p f rows = map (\<lambda>r. if p r then f r else r) rows"

lemma count_where_Nil [simp, table_simps]: "count_where p [] = 0"
  by (simp add: count_where_def)

lemma count_where_Cons [simp, table_simps]:
  "count_where p (r # rows) = (if p r then Suc (count_where p rows) else count_where p rows)"
  by (simp add: count_where_def)

lemma count_where_append [table_simps]:
  "count_where p (xs @ ys) = count_where p xs + count_where p ys"
  by (simp add: count_where_def)

lemma count_where_0 [table_simps]: "count_where p rows = 0 \<longleftrightarrow> (\<forall>r\<in>set rows. \<not> p r)"
  by (auto simp: count_where_def filter_empty_conv)

lemma count_where_mono:
  "(\<And>r. r \<in> set rows \<Longrightarrow> p r \<Longrightarrow> q r) \<Longrightarrow> count_where p rows \<le> count_where q rows"
  by (induction rows) auto

lemma count_where_cong:
  "(\<And>r. r \<in> set rows \<Longrightarrow> p r = q r) \<Longrightarrow> count_where p rows = count_where q rows"
  by (induction rows) auto

lemma upd_where_Nil [simp, table_simps]: "upd_where p f [] = []"
  by (simp add: upd_where_def)

lemma upd_where_Cons [simp, table_simps]:
  "upd_where p f (r # rows) = (if p r then f r else r) # upd_where p f rows"
  by (simp add: upd_where_def)

lemma length_upd_where [simp, table_simps]: "length (upd_where p f rows) = length rows"
  by (simp add: upd_where_def)

lemma set_upd_where:
  "r \<in> set (upd_where p f rows) \<longleftrightarrow>
     (\<exists>r0\<in>set rows. r = (if p r0 then f r0 else r0))"
  by (auto simp: upd_where_def image_iff)

lemma upd_where_none: "(\<And>r. r \<in> set rows \<Longrightarrow> \<not> p r) \<Longrightarrow> upd_where p f rows = rows"
  by (induction rows) auto

lemma map_upd_where:
  "(\<And>r. r \<in> set rows \<Longrightarrow> p r \<Longrightarrow> g (f r) = g r) \<Longrightarrow> map g (upd_where p f rows) = map g rows"
  by (induction rows) auto

lemma count_where_upd_le:
  assumes "\<And>r. r \<in> set rows \<Longrightarrow> p r \<Longrightarrow> q (f r) \<Longrightarrow> q r"
  shows "count_where q (upd_where p f rows) \<le> count_where q rows"
  using assms by (induction rows) (auto simp: le_Suc_eq)

lemma count_where_upd_eq:
  assumes "\<And>r. r \<in> set rows \<Longrightarrow> p r \<Longrightarrow> q (f r) = q r"
  shows "count_where q (upd_where p f rows) = count_where q rows"
  using assms by (induction rows) auto

lemma count_where_distinct_key:
  assumes "distinct (map key rows)"
  shows "count_where (\<lambda>r. key r = k) rows \<le> 1"
  using assms
proof (induction rows)
  case Nil
  then show ?case by simp
next
  case (Cons r rows)
  then show ?case
  proof (cases "key r = k")
    case True
    with Cons.prems have "count_where (\<lambda>r. key r = k) rows = 0"
      by (auto simp: count_where_0 image_iff)
    with True show ?thesis by simp
  qed simp
qed

lemma count_where_upd_one:
  assumes "distinct (map key rows)" and "\<And>r. p r \<Longrightarrow> key r = k"
  shows "count_where q (upd_where p f rows) \<le> Suc (count_where q rows)"
  using assms(1)
proof (induction rows)
  case Nil
  then show ?case by simp
next
  case (Cons r rows)
  show ?case
  proof (cases "p r")
    case True
    have "upd_where p f rows = rows"
    proof (rule upd_where_none)
      fix r' assume r': "r' \<in> set rows"
      show "\<not> p r'"
      proof
        assume "p r'"
        then have "key r' = key r" using assms(2) True by auto
        with r' Cons.prems show False by (simp add: rev_image_eqI)
      qed
    qed
    then show ?thesis by auto
  next
    case False
    with Cons show ?thesis by auto
  qed
qed

lemma sum_where_Nil [simp, table_simps]: "sum_where p f [] = 0"
  by (simp add: sum_where_def)

lemma sum_where_Cons [simp, table_simps]:
  "sum_where p f (r # rows) = (if p r then f r else 0) + sum_where p f rows"
  by (simp add: sum_where_def)

lemma sum_where_append [table_simps]:
  "sum_where p f (xs @ ys) = sum_where p f xs + sum_where p f ys"
  by (simp add: sum_where_def)

lemma sum_where_nonneg:
  "(\<And>r. r \<in> set rows \<Longrightarrow> p r \<Longrightarrow> 0 \<le> f r) \<Longrightarrow> 0 \<le> sum_where p f rows"
  by (induction rows) auto

section \<open>Machine integers of Go\<close>

text \<open>
  \<open>int\<close> and \<open>int64\<close> are 64-bit two's complement.  Where a value can leave that range the
  model wraps it explicitly with \<open>wrap64\<close>; \<open>quot\<close> is Go's division, which truncates
  towards zero.
\<close>

definition wrap64 :: "int \<Rightarrow> int" where
  "wrap64 x = (x + 2 ^ 63) mod 2 ^ 64 - 2 ^ 63"

definition in64 :: "int \<Rightarrow> bool" where
  "in64 x \<longleftrightarrow> - (2 ^ 63) \<le> x \<and> x < 2 ^ 63"

definition quot :: "int \<Rightarrow> int \<Rightarrow> int" where
  "quot a b = sgn a * sgn b * (\<bar>a\<bar> div \<bar>b\<bar>)"

lemma wrap64_id [simp]: "in64 x \<Longrightarrow> wrap64 x = x"
  by (simp add: wrap64_def in64_def)

lemma in64_wrap64 [simp]: "in64 (wrap64 x)"
  using pos_mod_bound [of "2 ^ 64" "x + 2 ^ 63"] pos_mod_sign [of "2 ^ 64" "x + 2 ^ 63"]
  by (simp add: wrap64_def in64_def)

lemma quot_nonneg [simp]: "0 \<le> a \<Longrightarrow> 0 < b \<Longrightarrow> quot a b = a div b"
  by (cases "a = 0") (auto simp: quot_def)

section \<open>Lists\<close>

text \<open>Looking a row up by its key.\<close>

lemma find_by_key: "distinct (map f xs) \<Longrightarrow> x \<in> set xs \<Longrightarrow> find (\<lambda>y. f y = f x) xs = Some x"
  by (induction xs) (auto simp: image_iff)

lemma find_Some_mem: "find p xs = Some x \<Longrightarrow> x \<in> set xs \<and> p x"
  by (induction xs) (auto split: if_splits)

lemma notin_imageD: "k \<notin> f ` A \<Longrightarrow> x \<in> A \<Longrightarrow> f x \<noteq> k"
  by blast

lemma take_drop_nth_split:
  "i < length xs \<Longrightarrow> xs = take i xs @ xs ! i # drop (Suc i) xs"
  by (simp add: id_take_nth_drop)

lemma sum_list_filter_le:
  fixes f :: "'a \<Rightarrow> int"
  assumes "\<And>x. x \<in> set xs \<Longrightarrow> 0 \<le> f x"
  shows "sum_list (map f (filter p xs)) \<le> sum_list (map f xs)"
  using assms by (induction xs) (auto intro: add_increasing)

end
