(* ===== verification/Jobs.thy ===== *)
theory Jobs
  imports Go_Strings
begin

text \<open>
  The job store: \<open>shared/jobs/model.go\<close> (statuses, the \<open>Job\<close> row), \<open>identity.go\<close> (one live
  row per user and hash) and the row operations of \<open>postgres.go\<close>.  The table \<open>jobs\<close> is a list
  of rows; each SQL statement of the source is one definition, with the unique index of
  \<open>schema.sql\<close> written out.  Times are nanoseconds, \<open>progress\<close> is in tenths of a percent.
\<close>

section \<open>Statuses\<close>

datatype status = StatusPending | StatusQueued | StatusDownloading | StatusProcessing
  | StatusPublishing | StatusSeeding | StatusComplete | StatusFailed | StatusEvicted

datatype source = SourceTorrent | SourceUsenet | SourceHoster | SourceHDEncode | SourceScenerls
  | SourceTelegram | SourceCrossSeed | SourceYtdlp

fun status_name :: "status \<Rightarrow> string" where
  "status_name StatusPending = ''pending''"
| "status_name StatusQueued = ''queued''"
| "status_name StatusDownloading = ''downloading''"
| "status_name StatusProcessing = ''processing''"
| "status_name StatusPublishing = ''publishing''"
| "status_name StatusSeeding = ''seeding''"
| "status_name StatusComplete = ''complete''"
| "status_name StatusFailed = ''failed''"
| "status_name StatusEvicted = ''evicted''"

definition active_statuses :: "status list" where
  "active_statuses = [StatusPending, StatusQueued, StatusDownloading, StatusProcessing,
     StatusPublishing, StatusSeeding]"

definition status_active :: "status \<Rightarrow> bool" where
  "status_active s = list_ex (\<lambda>a. s = a) active_statuses"

definition concurrency_statuses :: "status list" where
  "concurrency_statuses = [StatusPending, StatusDownloading, StatusProcessing, StatusPublishing]"

definition downloading_statuses :: "status list" where
  "downloading_statuses = [StatusPending, StatusDownloading, StatusProcessing, StatusPublishing]"

definition budget_statuses :: "status list" where
  "budget_statuses = [StatusPending, StatusDownloading, StatusProcessing, StatusPublishing,
     StatusSeeding]"

definition viewable_statuses :: "status list" where
  "viewable_statuses = [StatusPending, StatusQueued, StatusDownloading, StatusProcessing,
     StatusPublishing, StatusSeeding, StatusComplete]"

text \<open>\<open>sqlInList\<close> renders a status list as the SQL operand of \<open>IN\<close>.\<close>

definition sql_in_list :: "status list \<Rightarrow> string" where
  "sql_in_list ss =
     fst (foldl (\<lambda>(out, i) s.
        ((if 0 < i then out @ '','' else out) @ [CHR 0x27] @ status_name s @ [CHR 0x27], Suc i))
       (''('', 0::nat) ss) @ '')''"

lemmas status_list_defs = active_statuses_def concurrency_statuses_def downloading_statuses_def
  budget_statuses_def viewable_statuses_def

lemma status_name_inj: "status_name s = status_name t \<Longrightarrow> s = t"
  by (cases s; cases t) simp_all

lemma status_active_iff:
  "status_active s \<longleftrightarrow> s \<notin> {StatusComplete, StatusFailed, StatusEvicted}"
  by (cases s) (simp_all add: status_active_def active_statuses_def)

section \<open>Rows\<close>

record file_rec =
  file_index :: nat
  file_name :: string
  file_bytes :: int
  file_key :: string
  file_enc :: bool

record job =
  jid :: string
  user_id :: string
  info_hash :: string
  jname :: string
  magnet :: string
  source :: source
  status :: status
  seed :: bool
  budget_gated :: bool
  input_key :: string
  jerror :: string
  files :: "file_rec list"
  selected_idxs :: "int list"
  imdb_id :: string
  season :: int
  episode :: int
  file_size :: int
  max_bytes :: int
  priority :: int
  progress :: int
  speed :: int
  node :: string
  created_at :: int
  updated_at :: int
  access_count :: int
  last_accessed :: "int option"

text \<open>
  \<open>Job.StreamURLs\<close> is filled per response and is no column; it is left out.  The last two fields
  are the columns \<open>access_count\<close> and \<open>last_accessed_at\<close>, which only \<open>views.go\<close> reads and writes.
\<close>

fun consumes_download_slot :: "job option \<Rightarrow> bool" where
  "consumes_download_slot None = False"
| "consumes_download_slot (Some j) =
     (if seed j then False
      else (case status j of
          StatusPending \<Rightarrow> True | StatusDownloading \<Rightarrow> True
        | StatusProcessing \<Rightarrow> True | StatusPublishing \<Rightarrow> True
        | _ \<Rightarrow> False))"

definition file_sizes :: "job \<Rightarrow> int list" where
  "file_sizes j = map file_bytes (files j)"

text \<open>\<open>seed=false AND status IN concurrencyStates\<close>, the condition of the slot queries.\<close>

definition holds_slot :: "job \<Rightarrow> bool" where
  "holds_slot j \<longleftrightarrow> \<not> seed j \<and> status j \<in> set concurrency_statuses"

lemma consumes_slot_iff: "consumes_download_slot (Some j) = holds_slot j"
  by (cases "status j") (simp_all add: holds_slot_def concurrency_statuses_def)

section \<open>Errors and the database\<close>

datatype db_error = DBError string | UniqueViolation | ErrNotFound | ErrQueueFull | UUIDError

record db =
  jobs_t :: "job list"

text \<open>\<open>hasLiveUserIdentity\<close>, and the predicate of the partial unique index on live rows.\<close>

definition has_live_user_identity :: "job \<Rightarrow> bool" where
  "has_live_user_identity j \<longleftrightarrow> user_id j \<noteq> '''' \<and> user_id j \<noteq> ''system'' \<and> user_id j \<noteq> ''prewarm''
     \<and> info_hash j \<noteq> '''' \<and> \<not> seed j \<and> status j \<noteq> StatusFailed \<and> status j \<noteq> StatusEvicted"

definition same_live_key :: "job \<Rightarrow> job \<Rightarrow> bool" where
  "same_live_key a b \<longleftrightarrow> has_live_user_identity a \<and> has_live_user_identity b
     \<and> user_id a = user_id b \<and> to_lower (info_hash a) = to_lower (info_hash b)"

definition live_conflict :: "job list \<Rightarrow> job \<Rightarrow> bool" where
  "live_conflict rows j = list_ex (\<lambda>r. jid r \<noteq> jid j \<and> same_live_key r j) rows"

section \<open>Creating rows\<close>

definition prepare_create :: "(db_error + string) \<Rightarrow> int \<Rightarrow> job \<Rightarrow> db_error + job" where
  "prepare_create uuid now j =
     (let j1 = j\<lparr>info_hash := to_lower (trim_space (info_hash j))\<rparr> in
      bindE (if jid j1 = '''' then bindE uuid (\<lambda>u. Inr (j1\<lparr>jid := u\<rparr>)) else Inr j1) (\<lambda>j2.
      Inr (j2\<lparr>created_at := now, updated_at := now\<rparr>)))"

text \<open>
  \<open>INSERT ... ON CONFLICT (user_id, lower(info_hash)) WHERE ... DO NOTHING\<close>: a duplicate primary
  key is an error, a live row of the same user and hash makes the insert a no-op.  The columns
  the statement does not name take their defaults.
\<close>

definition new_row :: "job \<Rightarrow> job" where
  "new_row j = j\<lparr>progress := 0, speed := 0, access_count := 0, last_accessed := None\<rparr>"

definition insert_job :: "db_error faults \<Rightarrow> nat \<Rightarrow> db \<Rightarrow> job \<Rightarrow> db_error + bool \<times> db" where
  "insert_job flt k d j =
     bindE (run flt k ()) (\<lambda>_.
       if live_conflict (jobs_t d) j then Inr (False, d)
       else if list_ex (\<lambda>r. jid r = jid j) (jobs_t d) then Inl UniqueViolation
       else Inr (True, d\<lparr>jobs_t := jobs_t d @ [new_row j]\<rparr>))"

text \<open>\<open>liveAccountJobTx\<close>: the account's live row for this hash, if any.\<close>

definition live_account_job :: "db \<Rightarrow> job \<Rightarrow> job option" where
  "live_account_job d j =
     (if seed j \<or> user_id j = '''' \<or> user_id j = ''system'' \<or> user_id j = ''prewarm'' \<or> info_hash j = ''''
      then None
      else find (\<lambda>r. user_id r = user_id j \<and> to_lower (info_hash r) = to_lower (info_hash j)
          \<and> \<not> seed r \<and> status r \<notin> {StatusFailed, StatusEvicted}) (jobs_t d))"

definition lock_admission :: "db_error faults \<Rightarrow> nat \<Rightarrow> bool \<Rightarrow> db_error + unit" where
  "lock_admission flt k global =
     bindE (if global then run flt k () else Inr ()) (\<lambda>_. run flt (Suc k) ())"

definition create_once ::
  "db_error faults \<Rightarrow> (db_error + string) \<Rightarrow> int \<Rightarrow> db \<Rightarrow> job \<Rightarrow> (db_error + bool \<times> job) \<times> db" where
  "create_once flt uuid now d j0 =
     (case prepare_create uuid now j0 of Inl e \<Rightarrow> (Inl e, d) | Inr j \<Rightarrow>
      if \<not> has_live_user_identity j
      then in_tx d (bindE (insert_job flt 0 d j) (\<lambda>(c, d'). Inr ((c, j), d')))
      else in_tx d
       (bindE (run flt 1 ()) (\<lambda>_.
        bindE (lock_admission flt 2 False) (\<lambda>_.
        bindE (insert_job flt 4 d j) (\<lambda>(created, d1).
        bindE (if created then Inr j
               else bindE (run flt 5 (live_account_job d1 j)) (\<lambda>ex.
                 case ex of None \<Rightarrow> Inl ErrNotFound | Some e \<Rightarrow> Inr e)) (\<lambda>j'.
        bindE (run flt 6 ()) (\<lambda>_.
        Inr ((created, j'), d1))))))))"

section \<open>Row operations of \<open>postgres.go\<close>\<close>

text \<open>\<open>ORDER BY created_at DESC, id DESC LIMIT 1\<close>: the row with the greatest key.\<close>

fun newest :: "job list \<Rightarrow> job option" where
  "newest [] = None"
| "newest (j # js) = (case newest js of
      None \<Rightarrow> Some j
    | Some b \<Rightarrow> if created_at b > created_at j \<or> (created_at b = created_at j \<and> jid b > jid j)
               then Some b else Some j)"

definition not_found :: "'a option \<Rightarrow> db_error + 'a" where
  "not_found r = (case r of None \<Rightarrow> Inl ErrNotFound | Some v \<Rightarrow> Inr v)"

definition get_job :: "db_error faults \<Rightarrow> nat \<Rightarrow> db \<Rightarrow> string \<Rightarrow> db_error + job" where
  "get_job flt k d i = bindE (run flt k (find (\<lambda>j. jid j = i) (jobs_t d))) not_found"

definition get_by_user_info_hash :: "db_error faults \<Rightarrow> db \<Rightarrow> string \<Rightarrow> string \<Rightarrow> db_error + job" where
  "get_by_user_info_hash flt d u h =
     bindE (run flt 0 (newest (filter (\<lambda>j. user_id j = u \<and> to_lower (info_hash j) = to_lower h
        \<and> \<not> seed j \<and> status j \<notin> {StatusFailed, StatusEvicted}) (jobs_t d)))) not_found"

definition get_reusable_by_info_hash :: "db_error faults \<Rightarrow> db \<Rightarrow> string \<Rightarrow> db_error + job" where
  "get_reusable_by_info_hash flt d h =
     bindE (run flt 0 (newest (filter (\<lambda>j. to_lower (info_hash j) = to_lower h
        \<and> \<not> seed j \<and> status j \<notin> {StatusFailed, StatusEvicted}) (jobs_t d)))) not_found"

definition list_by_info_hash :: "db \<Rightarrow> string \<Rightarrow> job list" where
  "list_by_info_hash d h = filter (\<lambda>j. to_lower (info_hash j) = to_lower h) (jobs_t d)"

text \<open>\<open>Update\<close> writes every column but \<open>created_at\<close>, \<open>progress\<close>, \<open>dl_speed\<close> and the access columns.\<close>

definition updated_row :: "int \<Rightarrow> job \<Rightarrow> job \<Rightarrow> job" where
  "updated_row now j r =
     j\<lparr>created_at := created_at r, progress := progress r, speed := speed r,
       access_count := access_count r, last_accessed := last_accessed r, updated_at := now\<rparr>"

definition update_job :: "db_error faults \<Rightarrow> nat \<Rightarrow> int \<Rightarrow> db \<Rightarrow> job \<Rightarrow> (db_error + unit) \<times> db" where
  "update_job flt k now d j = in_tx d
     (bindE (run flt k ()) (\<lambda>_.
      if \<not> list_ex (\<lambda>r. jid r = jid j) (jobs_t d) then Inl ErrNotFound
      else if live_conflict (jobs_t d) j then Inl UniqueViolation
      else Inr ((), d\<lparr>jobs_t := upd_where (\<lambda>r. jid r = jid j) (updated_row now j) (jobs_t d)\<rparr>)))"

definition requeue :: "db_error faults \<Rightarrow> int \<Rightarrow> db \<Rightarrow> string \<Rightarrow> (db_error + unit) \<times> db" where
  "requeue flt now d i = in_tx d
     (bindE (run flt 0 ()) (\<lambda>_.
      case find (\<lambda>r. jid r = i) (jobs_t d) of None \<Rightarrow> Inl ErrNotFound
      | Some r \<Rightarrow>
         if live_conflict (jobs_t d) (r\<lparr>status := StatusPending\<rparr>) then Inl UniqueViolation
         else Inr ((), d\<lparr>jobs_t := upd_where (\<lambda>r. jid r = i)
            (\<lambda>r. r\<lparr>status := StatusPending, jerror := '''', created_at := now, updated_at := now\<rparr>)
            (jobs_t d)\<rparr>)))"

text \<open>
  The statements of \<open>Delete\<close>, which run outside a transaction: the row goes, then the other rows
  of its hash are counted. The result carries the hash when none is left.
\<close>

definition delete_row :: "db_error faults \<Rightarrow> db \<Rightarrow> string \<Rightarrow> (db_error + string option) \<times> db" where
  "delete_row flt d i =
     (case run flt 0 (find (\<lambda>r. jid r = i) (jobs_t d)) of Inl e \<Rightarrow> (Inl e, d)
      | Inr None \<Rightarrow> (Inr None, d)
      | Inr (Some r) \<Rightarrow>
         let d' = d\<lparr>jobs_t := filter (\<lambda>x. jid x \<noteq> i) (jobs_t d)\<rparr> in
         (case run flt 1 (count_where (\<lambda>x. info_hash x = info_hash r) (jobs_t d')) of
            Inl e \<Rightarrow> (Inl e, d')
          | Inr n \<Rightarrow> (Inr (if n = 0 then Some (info_hash r) else None), d')))"

definition set_progress ::
  "db_error faults \<Rightarrow> db \<Rightarrow> string \<Rightarrow> int \<Rightarrow> int \<Rightarrow> (db_error + unit) \<times> db" where
  "set_progress flt d i pct sp = in_tx d
     (bindE (run flt 0 ()) (\<lambda>_.
      Inr ((), d\<lparr>jobs_t := upd_where (\<lambda>r. jid r = i) (\<lambda>r. r\<lparr>progress := pct, speed := sp\<rparr>)
        (jobs_t d)\<rparr>)))"

definition set_imdb :: "db_error faults \<Rightarrow> db \<Rightarrow> string \<Rightarrow> string \<Rightarrow> (db_error + unit) \<times> db" where
  "set_imdb flt d h v =
     (if h = [] \<or> v = [] then (Inr (), d)
      else in_tx d (bindE (run flt 0 ()) (\<lambda>_.
        Inr ((), d\<lparr>jobs_t := upd_where (\<lambda>r. info_hash r = h \<and> imdb_id r = []) (\<lambda>r. r\<lparr>imdb_id := v\<rparr>) (jobs_t d)\<rparr>))))"

text \<open>\<open>ActiveCount\<close>, \<open>DownloadingCount\<close> and \<open>BudgetUsed\<close>.\<close>

definition active_count :: "db \<Rightarrow> string \<Rightarrow> nat" where
  "active_count d u = count_where (\<lambda>j. user_id j = u \<and> \<not> seed j
     \<and> status j \<in> set concurrency_statuses) (jobs_t d)"

definition downloading_count :: "db \<Rightarrow> string \<Rightarrow> nat" where
  "downloading_count d u = count_where (\<lambda>j. user_id j = u \<and> \<not> seed j
     \<and> status j \<in> set downloading_statuses) (jobs_t d)"

definition budget_used :: "db \<Rightarrow> int" where
  "budget_used d = sum_where (\<lambda>j. status j \<in> set budget_statuses)
     (\<lambda>j. if file_size j > 0 then file_size j else 5000000000) (jobs_t d)"

section \<open>Progress reports\<close>

text \<open>
  \<open>ProgressReporter\<close>: the closure's state is the last tenth of a percent, the last byte count
  and the last report time.  It yields the report (tenths, bytes per second) it writes, or none.
\<close>

record reporter =
  last_pct :: int
  last_bytes :: int
  last_t :: int

definition progress_refresh :: int where
  "progress_refresh = 2 * 1000000000"

definition new_reporter :: "int \<Rightarrow> reporter" where
  "new_reporter now = \<lparr>last_pct = -1, last_bytes = 0, last_t = now\<rparr>"

definition report :: "int \<Rightarrow> int \<Rightarrow> int \<Rightarrow> reporter \<Rightarrow> reporter \<times> (int \<times> int) option" where
  "report now current tot r =
     (if tot \<le> 0 then (r, None)
      else let pct = quot (wrap64 (current * 1000)) tot in
        if pct = last_pct r \<and> now - last_t r < progress_refresh then (r, None)
        else let sp = (if now - last_t r > 0
                       then quot ((current - last_bytes r) * 1000000000) (now - last_t r) else 0)
             in (\<lparr>last_pct = pct, last_bytes = current, last_t = now\<rparr>, Some (pct, sp)))"

section \<open>The store's invariant\<close>

text \<open>
  What the primary key, the unique index and the lower-casing of \<open>prepareCreate\<close> keep: ids are
  distinct, hashes are lower case, and no two rows share a live user identity.
\<close>

definition store_ok :: "db \<Rightarrow> bool" where
  "store_ok d \<longleftrightarrow> distinct (map jid (jobs_t d))
     \<and> (\<forall>j\<in>set (jobs_t d). to_lower (info_hash j) = info_hash j)
     \<and> (\<forall>a\<in>set (jobs_t d). \<forall>b\<in>set (jobs_t d). same_live_key a b \<longrightarrow> jid a = jid b)"

lemma store_okD:
  assumes "store_ok d"
  shows "distinct (map jid (jobs_t d))"
    and "j \<in> set (jobs_t d) \<Longrightarrow> to_lower (info_hash j) = info_hash j"
    and "a \<in> set (jobs_t d) \<Longrightarrow> b \<in> set (jobs_t d) \<Longrightarrow> same_live_key a b \<Longrightarrow> jid a = jid b"
  using assms by (auto simp: store_ok_def)

lemma jid_unique:
  assumes "store_ok d" "a \<in> set (jobs_t d)" "b \<in> set (jobs_t d)" "jid a = jid b"
  shows "a = b"
  using store_okD(1) [OF assms(1)] assms(2-) by (simp add: distinct_map inj_on_def)

lemma same_live_key_sym: "same_live_key a b = same_live_key b a"
  by (auto simp: same_live_key_def)

lemma same_live_key_cong:
  assumes "user_id a = user_id a'" "info_hash a = info_hash a'" "seed a = seed a'"
    "status a = status a'"
  shows "same_live_key a b = same_live_key a' b" "same_live_key b a = same_live_key b a'"
  using assms by (auto simp: same_live_key_def has_live_user_identity_def)

lemma prepare_create_lower:
  "prepare_create uuid now j0 = Inr j \<Longrightarrow> to_lower (info_hash j) = info_hash j"
  by (auto simp: prepare_create_def Let_def bindE_eq_Inr split: if_splits)

lemma prepare_create_frame:
  assumes "prepare_create uuid now j0 = Inr j"
  shows "user_id j = user_id j0 \<and> seed j = seed j0 \<and> budget_gated j = budget_gated j0
     \<and> status j = status j0 \<and> created_at j = now \<and> priority j = priority j0"
  using assms by (auto simp: prepare_create_def Let_def bindE_eq_Inr split: if_splits)

lemma insert_job_cases:
  assumes "insert_job flt k d j = Inr (created, d')"
  shows "\<not> created \<and> d' = d \<and> live_conflict (jobs_t d) j
    \<or> created \<and> d' = d\<lparr>jobs_t := jobs_t d @ [new_row j]\<rparr>
      \<and> \<not> live_conflict (jobs_t d) j \<and> jid j \<notin> jid ` set (jobs_t d)"
  using assms
  by (auto simp: insert_job_def bindE_eq_Inr list_ex_iff split: if_splits)

lemma insert_job_ok:
  assumes "insert_job flt k d j = Inr (created, d')" "store_ok d"
    "to_lower (info_hash j) = info_hash j"
  shows "store_ok d'"
proof -
  let ?r = "new_row j"
  consider "d' = d"
    | "d' = d\<lparr>jobs_t := jobs_t d @ [?r]\<rparr>" "\<not> live_conflict (jobs_t d) j"
      "jid j \<notin> jid ` set (jobs_t d)"
    using insert_job_cases [OF assms(1)] by blast
  then show ?thesis
  proof cases
    case 1
    with assms(2) show ?thesis by simp
  next
    case 2
    have cong: "same_live_key ?r b = same_live_key j b" "same_live_key b ?r = same_live_key b j"
      for b by (rule same_live_key_cong; simp add: new_row_def)+
    have no: "\<not> same_live_key a j" if "a \<in> set (jobs_t d)" for a
      using 2(2,3) that unfolding live_conflict_def list_ex_iff image_iff by metis
    then have no': "\<not> same_live_key j a" if "a \<in> set (jobs_t d)" for a
      using that same_live_key_sym by blast
    show ?thesis
      using 2 assms(2,3) no no' unfolding store_ok_def
      by (auto simp: cong) (auto simp: new_row_def)
  qed
qed

lemma live_account_job_Some:
  assumes "live_account_job d j = Some e"
  shows "e \<in> set (jobs_t d)" "user_id e = user_id j"
    "to_lower (info_hash e) = to_lower (info_hash j)" "has_live_user_identity e"
proof -
  have f: "find (\<lambda>r. user_id r = user_id j \<and> to_lower (info_hash r) = to_lower (info_hash j)
          \<and> \<not> seed r \<and> status r \<notin> {StatusFailed, StatusEvicted}) (jobs_t d) = Some e"
    and u: "user_id j \<noteq> ''''" "user_id j \<noteq> ''system''" "user_id j \<noteq> ''prewarm''" "info_hash j \<noteq> ''''"
    using assms by (auto simp: live_account_job_def split: if_splits)
  note m = find_Some_mem [OF f]
  from m show "e \<in> set (jobs_t d)" "user_id e = user_id j"
    "to_lower (info_hash e) = to_lower (info_hash j)" by auto
  from m have "info_hash e \<noteq> ''''" using u(4) by (metis to_lower_eq_Nil)
  with m u show "has_live_user_identity e"
    by (auto simp: has_live_user_identity_def)
qed

lemma live_account_job_None:
  assumes "live_account_job d j = None" "has_live_user_identity j"
  shows "\<not> live_conflict (jobs_t d) j"
  using assms
  by (auto simp: live_account_job_def live_conflict_def list_ex_iff same_live_key_def
      has_live_user_identity_def find_None_iff split: if_splits)

end
