(* ===== verification/Job_Blobs.thy ===== *)
theory Job_Blobs
  imports Jobs "HOL-Library.Multiset"
begin

text \<open>
  The content-addressed cache's tables: \<open>shared/jobs/blobs.go\<close> (blobs and their references) and
  \<open>views.go\<close> (who watched what, the cached sizes and the eviction candidates), with the object
  store as a list of objects.
\<close>

section \<open>Tables\<close>

record blob =
  content_key :: string
  blob_size :: int
  encrypted :: bool

record blob_ref =
  ref_hash :: string
  ref_index :: nat
  ref_key :: string

record user_cairn =
  uc_hash :: string
  uc_created :: int

record stored_object =
  okey :: string
  osize :: int
  omod :: int

record cache =
  cdb :: db
  blobs_t :: "blob list"
  refs_t :: "blob_ref list"
  views_t :: "(string \<times> string) list"
  user_cairns_t :: "user_cairn list"
  archives_t :: "string list"
  objects :: "stored_object list"

definition storage_key :: "string \<Rightarrow> string" where
  "storage_key ck = ''blobs/'' @ ck"

definition referenced :: "cache \<Rightarrow> string \<Rightarrow> bool" where
  "referenced c ck \<longleftrightarrow> ck \<in> ref_key ` set (refs_t c)"

section \<open>Blobs and references\<close>

definition lookup_blob :: "cache \<Rightarrow> string \<Rightarrow> blob option" where
  "lookup_blob c ck = find (\<lambda>b. content_key b = ck) (blobs_t c)"

definition add_blob_ref ::
  "db_error faults \<Rightarrow> cache \<Rightarrow> string \<Rightarrow> nat \<Rightarrow> string \<Rightarrow> int \<Rightarrow> bool \<Rightarrow> (db_error + unit) \<times> cache" where
  "add_blob_ref flt c h idx ck sz enc = in_tx c
     (bindE (run flt 0 ()) (\<lambda>_.
      bindE (run flt 1 ()) (\<lambda>_.
      let c1 = (if list_ex (\<lambda>b. content_key b = ck) (blobs_t c) then c
                else c\<lparr>blobs_t := blobs_t c @ [\<lparr>content_key = ck, blob_size = sz, encrypted = enc\<rparr>]\<rparr>) in
      bindE (run flt 2 ()) (\<lambda>_.
      let same = (\<lambda>r. ref_hash r = h \<and> ref_index r = idx);
          c2 = (if list_ex same (refs_t c1)
                then c1\<lparr>refs_t := upd_where same (\<lambda>r. r\<lparr>ref_key := ck\<rparr>) (refs_t c1)\<rparr>
                else c1\<lparr>refs_t := refs_t c1 @ [\<lparr>ref_hash = h, ref_index = idx, ref_key = ck\<rparr>]\<rparr>) in
      bindE (run flt 3 ()) (\<lambda>_. Inr ((), c2))))))"

text \<open>
  \<open>DropBlobRefs\<close> is one statement with a data-modifying \<open>WITH\<close>.  PostgreSQL runs both parts on
  the same snapshot: the \<open>NOT EXISTS\<close> looks at \<open>blob_refs\<close> as it was before the \<open>DELETE\<close>.
\<close>

definition drop_blob_refs :: "db_error faults \<Rightarrow> cache \<Rightarrow> string \<Rightarrow> (db_error + string list) \<times> cache" where
  "drop_blob_refs flt c h = in_tx c
     (bindE (run flt 0 ()) (\<lambda>_.
      let removed = filter (\<lambda>r. ref_hash r = h) (refs_t c);
          orphaned = filter (\<lambda>ck. \<not> list_ex (\<lambda>b. ref_key b = ck) (refs_t c))
                       (remdups (map ref_key removed))
      in Inr (orphaned, c\<lparr>refs_t := filter (\<lambda>r. ref_hash r \<noteq> h) (refs_t c)\<rparr>)))"

definition drop_dangling_refs :: "db_error faults \<Rightarrow> cache \<Rightarrow> (db_error + int) \<times> cache" where
  "drop_dangling_refs flt c = in_tx c
     (bindE (run flt 0 ()) (\<lambda>_.
      let dangling = (\<lambda>r. \<not> list_ex (\<lambda>j. info_hash j = ref_hash r) (jobs_t (cdb c))) in
      Inr (int (count_where dangling (refs_t c)),
        c\<lparr>refs_t := filter (\<lambda>r. \<not> dangling r) (refs_t c)\<rparr>)))"

definition delete_blob :: "cache \<Rightarrow> string \<Rightarrow> cache" where
  "delete_blob c ck = c\<lparr>blobs_t := filter (\<lambda>b. content_key b \<noteq> ck) (blobs_t c)\<rparr>"

definition referenced_keys :: "cache \<Rightarrow> string list" where
  "referenced_keys c = remdups (map ref_key (refs_t c))"

text \<open>\<open>LIMIT\<close> without an order: the first rows of the table.\<close>

definition orphaned_blobs :: "cache \<Rightarrow> nat \<Rightarrow> blob list" where
  "orphaned_blobs c limit =
     take limit (filter (\<lambda>b. \<not> list_ex (\<lambda>r. ref_key r = content_key b) (refs_t c)) (blobs_t c))"

text \<open>\<open>Postgres.Delete\<close> drops the references with the last row of a hash and ignores what that returns.\<close>

definition delete_job :: "db_error faults \<Rightarrow> cache \<Rightarrow> string \<Rightarrow> (db_error + unit) \<times> cache" where
  "delete_job flt c i =
     (case delete_row flt (cdb c) i of
        (Inl e, d') \<Rightarrow> (Inl e, c\<lparr>cdb := d'\<rparr>)
      | (Inr None, d') \<Rightarrow> (Inr (), c\<lparr>cdb := d'\<rparr>)
      | (Inr (Some h), d') \<Rightarrow> (Inr (), snd (drop_blob_refs (after 2 flt) (c\<lparr>cdb := d'\<rparr>) h)))"

lemma orphaned_blobs_unreferenced: "b \<in> set (orphaned_blobs c n) \<Longrightarrow> \<not> referenced c (content_key b)"
  unfolding orphaned_blobs_def referenced_def
  by (drule in_set_takeD) (auto simp: list_ex_iff)

lemma referenced_keys_iff: "ck \<in> set (referenced_keys c) \<longleftrightarrow> referenced c ck"
  by (auto simp: referenced_keys_def referenced_def)

lemma referenced_delete_blob [simp]: "referenced (delete_blob c ck) k = referenced c k"
  by (simp add: delete_blob_def referenced_def)

section \<open>Views and cached sizes\<close>

definition viewable :: "string \<Rightarrow> job \<Rightarrow> bool" where
  "viewable h j \<longleftrightarrow> info_hash j = h \<and> status j \<in> set viewable_statuses"

text \<open>The error of the second statement is ignored by the code; \<open>flt 1\<close> only makes it a no-op.\<close>

definition record_view ::
  "db_error faults \<Rightarrow> int \<Rightarrow> cache \<Rightarrow> string \<Rightarrow> string \<Rightarrow> (db_error + bool) \<times> cache" where
  "record_view flt now c h u =
     (case flt 0 of Some e \<Rightarrow> (Inl e, c) | None \<Rightarrow>
      let new_viewer = (h, u) \<notin> set (views_t c);
          c1 = (if new_viewer then c\<lparr>views_t := views_t c @ [(h, u)]\<rparr> else c);
          touch = (\<lambda>r. r\<lparr>last_accessed := Some now, updated_at := now,
             access_count := access_count r + (if new_viewer then 1 else 0)\<rparr>);
          c2 = (if flt 1 = None
                then c1\<lparr>cdb := (cdb c1)\<lparr>jobs_t := upd_where (viewable h) touch (jobs_t (cdb c1))\<rparr>\<rparr>
                else c1)
      in (Inr new_viewer, c2))"

text \<open>\<open>MAX(...)\<close> and \<open>MIN(...)\<close> of a group, which is never empty.\<close>

fun max_of :: "'a::linorder list \<Rightarrow> 'a" where
  "max_of [x] = x"
| "max_of (x # xs) = max x (max_of xs)"
| "max_of [] = undefined"

fun min_of :: "'a::linorder list \<Rightarrow> 'a" where
  "min_of [x] = x"
| "min_of (x # xs) = min x (min_of xs)"
| "min_of [] = undefined"

text \<open>\<open>SELECT SUM(max_size) FROM (SELECT MAX(file_size) ... WHERE p GROUP BY info_hash)\<close>.\<close>

definition sum_max_sizes :: "(job \<Rightarrow> bool) \<Rightarrow> job list \<Rightarrow> int" where
  "sum_max_sizes p rows =
     (let sel = filter p rows in
      sum_list (map (\<lambda>h. max_of (map file_size (filter (\<lambda>j. info_hash j = h) sel)))
        (remdups (map info_hash sel))))"

definition get_total_cached_size :: "cache \<Rightarrow> string \<Rightarrow> int" where
  "get_total_cached_size c n = sum_max_sizes (\<lambda>j. status j = StatusComplete \<and> node j = n) (jobs_t (cdb c))"

definition get_total_cached_size_all :: "cache \<Rightarrow> int" where
  "get_total_cached_size_all c = sum_max_sizes (\<lambda>j. status j = StatusComplete) (jobs_t (cdb c))"

definition get_inflight_size :: "cache \<Rightarrow> string \<Rightarrow> int" where
  "get_inflight_size c n =
     sum_max_sizes (\<lambda>j. status j \<in> set downloading_statuses \<and> node j = n) (jobs_t (cdb c))"

lemma max_of_ge: "x \<in> set xs \<Longrightarrow> x \<le> max_of xs"
  by (induction xs rule: max_of.induct) (auto simp: le_max_iff_disj)

lemma max_of_mem: "xs \<noteq> [] \<Longrightarrow> max_of xs \<in> set xs"
  by (induction xs rule: max_of.induct) (auto simp: max_def)

section \<open>Eviction candidates\<close>

record candidate =
  c_id :: string
  c_hash :: string
  c_name :: string
  c_size :: int
  c_access :: int
  c_days :: int
  c_prewarm :: bool

text \<open>
  \<open>CAST(EXTRACT(EPOCH FROM ...) / 86400 AS INTEGER)\<close> rounds to the nearest day, halves away from
  zero; the argument is in nanoseconds.
\<close>

definition day_ns :: int where
  "day_ns = 86400 * 1000000000"

definition round_days :: "int \<Rightarrow> int" where
  "round_days x = (if 0 \<le> x then (x + day_ns div 2) div day_ns else - ((- x + day_ns div 2) div day_ns))"

definition pinned_by_cairn :: "cache \<Rightarrow> int \<Rightarrow> string \<Rightarrow> bool" where
  "pinned_by_cairn c now h \<longleftrightarrow>
     list_ex (\<lambda>u. uc_hash u = h \<and> uc_created u > now - day_ns) (user_cairns_t c)
     \<and> \<not> list_ex (\<lambda>a. a = h) (archives_t c)"

definition candidate_of :: "int \<Rightarrow> job list \<Rightarrow> string \<Rightarrow> candidate" where
  "candidate_of now sel h =
     (let g = filter (\<lambda>j. info_hash j = h) sel in
      \<lparr>c_id = min_of (map jid g), c_hash = h, c_name = max_of (map jname g),
       c_size = max_of (map file_size g), c_access = sum_list (map access_count g),
       c_days = round_days (now - max_of (map (\<lambda>j. case last_accessed j of Some t \<Rightarrow> t | None \<Rightarrow> created_at j) g)),
       c_prewarm = list_ex (\<lambda>j. user_id j = ''prewarm'') g\<rparr>)"

text \<open>The \<open>ORDER BY\<close>: watched less before watched more, then longer idle, then bigger.\<close>

datatype evict_key = EvictKey int int int

fun evict_less_eq :: "evict_key \<Rightarrow> evict_key \<Rightarrow> bool" where
  "evict_less_eq (EvictKey r d s) (EvictKey r' d' s') \<longleftrightarrow>
     r < r' \<or> r = r' \<and> (d > d' \<or> d = d' \<and> s \<ge> s')"

instantiation evict_key :: linorder
begin

definition less_eq_evict_key :: "evict_key \<Rightarrow> evict_key \<Rightarrow> bool" where
  "less_eq_evict_key = evict_less_eq"

definition less_evict_key :: "evict_key \<Rightarrow> evict_key \<Rightarrow> bool" where
  "less_evict_key a b \<longleftrightarrow> evict_less_eq a b \<and> \<not> evict_less_eq b a"

instance
proof
  fix x y z :: evict_key
  show "x < y \<longleftrightarrow> x \<le> y \<and> \<not> y \<le> x" by (simp add: less_eq_evict_key_def less_evict_key_def)
  show "x \<le> x" by (cases x) (simp add: less_eq_evict_key_def)
  show "x \<le> y \<Longrightarrow> y \<le> z \<Longrightarrow> x \<le> z"
    by (cases x; cases y; cases z) (auto simp: less_eq_evict_key_def)
  show "x \<le> y \<Longrightarrow> y \<le> x \<Longrightarrow> x = y" by (cases x; cases y) (auto simp: less_eq_evict_key_def)
  show "x \<le> y \<or> y \<le> x" by (cases x; cases y) (auto simp: less_eq_evict_key_def)
qed

end

definition evict_key :: "candidate \<Rightarrow> evict_key" where
  "evict_key c = EvictKey (if c_access c = 0 then 0 else if c_access c < 10 then 1 else 2) (c_days c) (c_size c)"

definition get_eviction_candidates :: "int \<Rightarrow> cache \<Rightarrow> string \<Rightarrow> candidate list" where
  "get_eviction_candidates now c n =
     (let sel = filter (\<lambda>j. status j = StatusComplete \<and> node j = n \<and> \<not> pinned_by_cairn c now (info_hash j))
        (jobs_t (cdb c)) in
      sort_key evict_key (map (candidate_of now sel) (remdups (map info_hash sel))))"

lemma candidate_hashes:
  "set (map c_hash (get_eviction_candidates now c n)) =
     info_hash ` {j \<in> set (jobs_t (cdb c)). status j = StatusComplete \<and> node j = n
        \<and> \<not> pinned_by_cairn c now (info_hash j)}"
  by (force simp: get_eviction_candidates_def candidate_of_def Let_def image_iff)

lemma candidates_distinct: "distinct (map c_hash (get_eviction_candidates now c n))"
proof -
  let ?sel = "filter (\<lambda>j. status j = StatusComplete \<and> node j = n \<and> \<not> pinned_by_cairn c now (info_hash j))
      (jobs_t (cdb c))"
  let ?hs = "remdups (map info_hash ?sel)"
  have "mset (map c_hash (get_eviction_candidates now c n)) = mset (map c_hash (map (candidate_of now ?sel) ?hs))"
    by (simp only: get_eviction_candidates_def Let_def mset_map mset_sort)
  also have "map c_hash (map (candidate_of now ?sel) ?hs) = ?hs"
    by (simp add: o_def candidate_of_def Let_def)
  finally have eq: "mset (map c_hash (get_eviction_candidates now c n)) = mset ?hs" .
  show ?thesis
    by (rule mset_eq_imp_distinct_iff [OF eq, THEN iffD2]) (rule distinct_remdups)
qed

section \<open>Properties\<close>

text \<open>
  \<open>DropBlobRefs\<close> never reports a blob as orphaned: the rows it deletes are still in the
  snapshot its \<open>NOT EXISTS\<close> reads, so the list it returns is always empty and only the
  references of the hash go away.
\<close>

theorem drop_blob_refs_no_orphans:
  "drop_blob_refs no_faults c h = (Inr [], c\<lparr>refs_t := filter (\<lambda>r. ref_hash r \<noteq> h) (refs_t c)\<rparr>)"
proof -
  have "filter (\<lambda>ck. \<not> list_ex (\<lambda>b. ref_key b = ck) (refs_t c))
      (remdups (map ref_key (filter (\<lambda>r. ref_hash r = h) (refs_t c)))) = []"
    by (auto simp: filter_empty_conv list_ex_iff)
  then show ?thesis by (simp add: drop_blob_refs_def Let_def)
qed

text \<open>
  The eviction candidates of a node are exactly the hashes of its complete rows that no
  recent, not yet archived cairn pins, each once, in the order of the query.
\<close>

theorem eviction_candidates_exact:
  "distinct (map c_hash (get_eviction_candidates now c n))
   \<and> sorted (map evict_key (get_eviction_candidates now c n))
   \<and> set (map c_hash (get_eviction_candidates now c n)) =
       info_hash ` {j \<in> set (jobs_t (cdb c)). status j = StatusComplete \<and> node j = n
          \<and> \<not> pinned_by_cairn c now (info_hash j)}"
  using candidates_distinct candidate_hashes
  by (simp add: get_eviction_candidates_def Let_def)

end
