(* ===== verification/Cluster.thy ===== *)
theory Cluster
  imports Job_Blobs
begin

text \<open>
  Placement of a job on a node: \<open>shared/cluster/dispatch.go\<close> with the configuration helpers of
  \<open>shared/env\<close> and the free-space reports of \<open>shared/nodestatus\<close>. The environment is a function from
  names to values, empty when unset. \<open>ParseFloat\<close> and the multiplication that follows it are one
  parameter, \<open>cl_float\<close>, since they round as floats do; so is the answer of \<open>statfs\<close>.
\<close>

section \<open>Environment\<close>

type_synonym environ = "string \<Rightarrow> string"

definition env_get :: "environ \<Rightarrow> string \<Rightarrow> string \<Rightarrow> string" where
  "env_get ev k dflt = (if ev k \<noteq> [] then ev k else dflt)"

definition env_int :: "environ \<Rightarrow> string \<Rightarrow> int \<Rightarrow> int" where
  "env_int ev k dflt = (if ev k \<noteq> [] then let (n, ok) = parse_int (ev k) in if ok then n else dflt else dflt)"

section \<open>Node status\<close>

record node_row =
  nr_node :: string
  nr_free :: int
  nr_total :: int
  nr_min :: int
  nr_updated :: int

record status_store =
  st_rows :: "node_row list option"
  st_max_age :: int

definition new_status_store :: "int \<Rightarrow> status_store" where
  "new_status_store max_age = \<lparr>st_rows = None, st_max_age = (if max_age \<le> 0 then 180 else max_age)\<rparr>"

definition fresh :: "int \<Rightarrow> int \<Rightarrow> bool" where
  "fresh age max_age \<longleftrightarrow> age \<ge> 0 \<and> age \<le> max_age"

definition report_node :: "db_error faults \<Rightarrow> int \<Rightarrow> status_store \<Rightarrow> string \<Rightarrow> int \<Rightarrow> int \<Rightarrow> int
    \<Rightarrow> (db_error + unit) \<times> status_store" where
  "report_node flt now s n free tot min_free =
     (case st_rows s of None \<Rightarrow> (Inr (), s)
      | Some rows \<Rightarrow> in_tx s (bindE (run flt 0 ()) (\<lambda>_.
          let row = \<lparr>nr_node = n, nr_free = free, nr_total = tot, nr_min = min_free, nr_updated = now\<rparr> in
          Inr ((), s\<lparr>st_rows := Some (if list_ex (\<lambda>r. nr_node r = n) rows
                                     then upd_where (\<lambda>r. nr_node r = n) (\<lambda>_. row) rows
                                     else rows @ [row])\<rparr>))))"

text \<open>\<open>Free\<close> and \<open>MinFree\<close> read one column of the node's row; \<open>fails\<close> is an error of the query.\<close>

definition fresh_row :: "bool \<Rightarrow> int \<Rightarrow> status_store \<Rightarrow> string \<Rightarrow> node_row option" where
  "fresh_row fails now s n =
     (case st_rows s of None \<Rightarrow> None
      | Some rows \<Rightarrow> if fails then None
          else case find (\<lambda>r. nr_node r = n) rows of None \<Rightarrow> None
          | Some r \<Rightarrow> if fresh (now - nr_updated r) (st_max_age s) then Some r else None)"

definition status_free :: "bool \<Rightarrow> int \<Rightarrow> status_store \<Rightarrow> string \<Rightarrow> int option" where
  "status_free fails now s n = map_option nr_free (fresh_row fails now s n)"

definition status_min_free :: "bool \<Rightarrow> int \<Rightarrow> status_store \<Rightarrow> string \<Rightarrow> int option" where
  "status_min_free fails now s n = map_option nr_min (fresh_row fails now s n)"

definition other_has_room :: "bool \<Rightarrow> int \<Rightarrow> status_store \<Rightarrow> string \<Rightarrow> int \<Rightarrow> bool" where
  "other_has_room fails now s self min_free =
     (case st_rows s of None \<Rightarrow> False
      | Some rows \<Rightarrow> min_free > 0 \<and> \<not> fails \<and> count_where (\<lambda>r. nr_node r \<noteq> self \<and> nr_free r \<ge> min_free
          \<and> now - nr_updated r \<le> st_max_age s) rows > 0)"

section \<open>Configuration of the cluster\<close>

text \<open>The interfaces \<open>Statuser\<close> and \<open>Sizer\<close>: \<open>None\<close> is "not known" or a failed query.\<close>

record statuser =
  su_free :: "string \<Rightarrow> int option"
  su_min :: "string \<Rightarrow> int option"

record sizer =
  sz_cached :: "string \<Rightarrow> int option"
  sz_inflight :: "string \<Rightarrow> int option"

record cluster =
  cl_env :: environ
  cl_float :: "string \<Rightarrow> int \<Rightarrow> int"
  cl_status :: "statuser option"
  cl_disk :: "int option"

definition node_statuser :: "(string \<Rightarrow> bool) \<Rightarrow> (string \<Rightarrow> bool) \<Rightarrow> int \<Rightarrow> status_store \<Rightarrow> statuser" where
  "node_statuser ff fm now s =
     \<lparr>su_free = (\<lambda>n. status_free (ff n) now s n), su_min = (\<lambda>n. status_min_free (fm n) now s n)\<rparr>"

definition pg_sizer :: "(string \<Rightarrow> bool) \<Rightarrow> (string \<Rightarrow> bool) \<Rightarrow> cache \<Rightarrow> sizer" where
  "pg_sizer fc fi c = \<lparr>sz_cached = (\<lambda>n. if fc n then None else Some (get_total_cached_size c n)),
     sz_inflight = (\<lambda>n. if fi n then None else Some (get_inflight_size c n))\<rparr>"

record node_cap =
  nc_id :: string
  nc_cap :: int

definition parse_cap :: "(string \<Rightarrow> int \<Rightarrow> int) \<Rightarrow> string \<Rightarrow> int" where
  "parse_cap fl s0 =
     (let s = to_upper (trim_space s0);
          (mult, t) = (if has_suffix s ''TB'' then (1000000000000, trim_suffix s ''TB'')
            else if has_suffix s ''GB'' then (1000000000, trim_suffix s ''GB'')
            else if has_suffix s ''T'' then (1000000000000, trim_suffix s ''T'')
            else if has_suffix s ''G'' then (1000000000, trim_suffix s ''G'')
            else (1, s))
      in fl (trim_space t) mult)"

definition overflow_nodes :: "cluster \<Rightarrow> node_cap list" where
  "overflow_nodes cl =
     (let raw = env_get (cl_env cl) ''CLUSTER_NODES'' [] in
      if raw = [] then
        (let n = env_get (cl_env cl) ''NODE2_ID'' [] in if n \<noteq> [] then [\<lparr>nc_id = n, nc_cap = 0\<rparr>] else [])
      else concat (map (\<lambda>part. let (i0, cap_str, _) = cut (trim_space part) '':''; i = trim_space i0 in
             if i \<noteq> [] then [\<lparr>nc_id = i, nc_cap = parse_cap (cl_float cl) cap_str\<rparr>] else [])
           (split_byte (CHR '','') raw)))"

definition primary_node :: "cluster \<Rightarrow> string" where
  "primary_node cl = env_get (cl_env cl) ''PRIMARY_NODE_ID'' []"

fun portable :: "source \<Rightarrow> bool" where
  "portable SourceTorrent = True"
| "portable SourceUsenet = True"
| "portable SourceHoster = True"
| "portable SourceYtdlp = True"
| "portable SourceScenerls = True"
| "portable SourceHDEncode = True"
| "portable SourceTelegram = True"
| "portable _ = False"

section \<open>Choosing a node\<close>

definition ordered_nodes :: "cluster \<Rightarrow> string list" where
  "ordered_nodes cl =
     primary_node cl # filter (\<lambda>n. n \<noteq> primary_node cl) (map nc_id (overflow_nodes cl))"

text \<open>The free space a node reports, less what is in flight towards it, and the floor it must keep.\<close>

definition eff_free :: "statuser \<Rightarrow> sizer \<Rightarrow> string \<Rightarrow> int option" where
  "eff_free su sz n =
     (case su_free su n of None \<Rightarrow> None
      | Some free \<Rightarrow> (case sz_inflight sz n of None \<Rightarrow> None | Some reserved \<Rightarrow> Some (free - reserved)))"

definition node_floor :: "cluster \<Rightarrow> statuser \<Rightarrow> string \<Rightarrow> int" where
  "node_floor cl su n =
     (case su_min su n of Some f \<Rightarrow> f | None \<Rightarrow> env_int (cl_env cl) ''STORE_MIN_FREE_BYTES'' 0)"

text \<open>The loop over the nodes, with the best one seen so far.\<close>

fun free_loop :: "cluster \<Rightarrow> statuser \<Rightarrow> sizer \<Rightarrow> int \<Rightarrow> (string \<times> int) option \<Rightarrow> string list \<Rightarrow> string option" where
  "free_loop cl su sz hint best [] = map_option fst best"
| "free_loop cl su sz hint best (i # ids) =
     (case eff_free su sz i of None \<Rightarrow> free_loop cl su sz hint best ids
      | Some eff \<Rightarrow>
          if eff - hint \<ge> node_floor cl su i then Some i
          else free_loop cl su sz hint
            (case best of None \<Rightarrow> Some (i, eff) | Some (_, b) \<Rightarrow> if eff > b then Some (i, eff) else best) ids)"

definition target_by_free :: "cluster \<Rightarrow> sizer \<Rightarrow> int \<Rightarrow> string option" where
  "target_by_free cl sz hint =
     (case cl_status cl of None \<Rightarrow> None | Some su \<Rightarrow> free_loop cl su sz hint None (ordered_nodes cl))"

definition node_used :: "sizer \<Rightarrow> string \<Rightarrow> int option" where
  "node_used sz n =
     (case sz_cached sz n of None \<Rightarrow> None
      | Some cached \<Rightarrow> (case sz_inflight sz n of None \<Rightarrow> None | Some inflight \<Rightarrow> Some (cached + inflight)))"

definition disk_above_floor :: "cluster \<Rightarrow> bool" where
  "disk_above_floor cl =
     (let min_free = env_int (cl_env cl) ''STORE_MIN_FREE_BYTES'' 0 in
      if min_free \<le> 0 then True
      else case cl_disk cl of None \<Rightarrow> True | Some free \<Rightarrow> free \<ge> min_free)"

definition local_has_room :: "cluster \<Rightarrow> sizer \<Rightarrow> int \<Rightarrow> int \<Rightarrow> bool" where
  "local_has_room cl sz cap1 hint =
     (if \<not> disk_above_floor cl then False
      else case node_used sz (primary_node cl) of None \<Rightarrow> True | Some used \<Rightarrow> used + hint < cap1)"

definition cap_fits :: "sizer \<Rightarrow> int \<Rightarrow> node_cap \<Rightarrow> bool" where
  "cap_fits sz hint n \<longleftrightarrow>
     (case node_used sz (nc_id n) of None \<Rightarrow> False | Some used \<Rightarrow> nc_cap n \<le> 0 \<or> used + hint < nc_cap n)"

definition target_by_cap :: "cluster \<Rightarrow> sizer \<Rightarrow> int \<Rightarrow> string" where
  "target_by_cap cl sz hint =
     (let nodes = overflow_nodes cl; cap1 = env_int (cl_env cl) ''EVICTION_CAP_BYTES'' 0 in
      if nodes = [] then primary_node cl
      else if cap1 \<le> 0 then primary_node cl
      else if local_has_room cl sz cap1 hint then primary_node cl
      else case find (\<lambda>n. nc_id n \<noteq> primary_node cl \<and> cap_fits sz hint n) nodes of
             Some n \<Rightarrow> nc_id n | None \<Rightarrow> primary_node cl)"

definition target_node :: "cluster \<Rightarrow> sizer \<Rightarrow> source \<Rightarrow> int \<Rightarrow> string" where
  "target_node cl sz src hint =
     (if \<not> portable src then primary_node cl
      else case target_by_free cl sz hint of Some n \<Rightarrow> n | None \<Rightarrow> target_by_cap cl sz hint)"

section \<open>Assigning a job\<close>

text \<open>
  \<open>Assign\<close> stamps the node, writes the row and announces the job; the error of the write is
  ignored. The event is the \<open>events.Assigned\<close> message.
\<close>

record assigned =
  as_job :: string
  as_hash :: string
  as_magnet :: string
  as_source :: source
  as_bytes :: int
  as_node :: string

definition assign_node :: "cluster \<Rightarrow> sizer \<Rightarrow> job \<Rightarrow> string" where
  "assign_node cl sz j =
     (if input_key j \<noteq> [] then primary_node cl else target_node cl sz (source j) (max_bytes j))"

definition assign :: "cluster \<Rightarrow> sizer \<Rightarrow> db_error faults \<Rightarrow> nat \<Rightarrow> int \<Rightarrow> db \<Rightarrow> job \<Rightarrow> assigned \<times> db" where
  "assign cl sz flt k now d j =
     (let j1 = j\<lparr>node := assign_node cl sz j\<rparr> in
      (\<lparr>as_job = jid j1, as_hash = info_hash j1, as_magnet = magnet j1, as_source = source j1,
        as_bytes = max_bytes j1, as_node = node j1\<rparr>, snd (update_job flt k now d j1)))"

section \<open>What the choice guarantees\<close>

definition has_room :: "cluster \<Rightarrow> statuser \<Rightarrow> sizer \<Rightarrow> int \<Rightarrow> string \<Rightarrow> bool" where
  "has_room cl su sz hint n \<longleftrightarrow> (case eff_free su sz n of None \<Rightarrow> False | Some e \<Rightarrow> e - hint \<ge> node_floor cl su n)"

lemma free_loop_room:
  "find (has_room cl su sz hint) ids = Some n \<Longrightarrow> free_loop cl su sz hint best ids = Some n"
  by (induction ids arbitrary: best) (auto simp: has_room_def split: option.splits if_splits)

text \<open>Without room anywhere the loop keeps the best of what it started with and what it saw.\<close>

lemma free_loop_best:
  assumes "\<forall>i\<in>set ids. \<not> has_room cl su sz hint i"
    and "\<forall>n b. best = Some (n, b) \<longrightarrow> eff_free su sz n = Some b"
  shows "case free_loop cl su sz hint best ids of
      None \<Rightarrow> best = None \<and> (\<forall>i\<in>set ids. eff_free su sz i = None)
    | Some n \<Rightarrow> (n \<in> set ids \<or> n \<in> fst ` set_option best) \<and> (\<exists>e. eff_free su sz n = Some e
        \<and> (\<forall>i\<in>set ids. \<forall>e'. eff_free su sz i = Some e' \<longrightarrow> e' \<le> e) \<and> (\<forall>m b. best = Some (m, b) \<longrightarrow> b \<le> e))"
  using assms
proof (induction ids arbitrary: best)
  case (Cons i ids)
  show ?case
  proof (cases "eff_free su sz i")
    case None
    moreover have "\<forall>i\<in>set ids. \<not> has_room cl su sz hint i" using Cons.prems(1) by simp
    note Cons.IH [OF this Cons.prems(2)]
    ultimately show ?thesis by (simp split: option.splits)
  next
    case (Some eff)
    then have r: "\<not> eff - hint \<ge> node_floor cl su i" using Cons.prems(1) by (auto simp: has_room_def)
    define best' where "best' = (case best of None \<Rightarrow> Some (i, eff) | Some (_, b) \<Rightarrow> if eff > b then Some (i, eff) else best)"
    have b': "\<forall>n b. best' = Some (n, b) \<longrightarrow> eff_free su sz n = Some b"
      using Some Cons.prems(2) by (auto simp: best'_def split: option.splits if_splits)
    have ne: "best' \<noteq> None" "\<forall>m b. best' = Some (m, b) \<longrightarrow> eff \<le> b"
      "\<forall>m b m' b'. best = Some (m, b) \<longrightarrow> best' = Some (m', b') \<longrightarrow> b \<le> b'"
      "fst ` set_option best' \<subseteq> insert i (fst ` set_option best)"
      by (auto simp: best'_def split: option.splits if_splits)
    have l: "free_loop cl su sz hint best (i # ids) = free_loop cl su sz hint best' ids"
      using Some r by (simp add: best'_def)
    from Cons.IH [of best'] Cons.prems(1) b' obtain n e where
      n: "free_loop cl su sz hint best' ids = Some n" "n \<in> set ids \<or> n \<in> fst ` set_option best'"
      "eff_free su sz n = Some e" "\<forall>i\<in>set ids. \<forall>e'. eff_free su sz i = Some e' \<longrightarrow> e' \<le> e"
      "\<forall>m b. best' = Some (m, b) \<longrightarrow> b \<le> e"
      using ne(1) by (auto split: option.splits)
    obtain m b where mb: "best' = Some (m, b)" using ne(1) by (cases best') auto
    have be: "b \<le> e" using n(5) mb by simp
    moreover have "eff \<le> b" using ne(2) mb by simp
    ultimately have "eff \<le> e" by simp
    moreover have "b' \<le> e" if "best = Some (m', b')" for m' b'
    proof -
      have "b' \<le> b" using ne(3) that mb by simp
      with be show ?thesis by simp
    qed
    moreover have "n \<in> set (i # ids) \<or> n \<in> fst ` set_option best" using n(2) ne(4) by auto
    ultimately show ?thesis unfolding l n(1) option.case using n(3,4) Some by simp
  qed
next
  case Nil
  then show ?case by (cases best) auto
qed

lemma overflow_room:
  assumes "find (\<lambda>n. nc_id n \<noteq> primary_node cl \<and> cap_fits sz hint n) (overflow_nodes cl) = Some n"
  shows "n \<in> set (overflow_nodes cl) \<and> nc_id n \<noteq> primary_node cl \<and> cap_fits sz hint n"
  using assms by (auto simp: find_Some_iff)

lemma target_by_cap_cases:
  "target_by_cap cl sz hint = primary_node cl
   \<or> (\<exists>n\<in>set (overflow_nodes cl). target_by_cap cl sz hint = nc_id n \<and> cap_fits sz hint n
        \<and> \<not> local_has_room cl sz (env_int (cl_env cl) ''EVICTION_CAP_BYTES'' 0) hint)"
proof (cases "find (\<lambda>n. nc_id n \<noteq> primary_node cl \<and> cap_fits sz hint n) (overflow_nodes cl)")
  case (Some n)
  with overflow_room [OF Some] show ?thesis by (auto simp: target_by_cap_def Let_def)
qed (simp add: target_by_cap_def Let_def)

lemma free_loop_mem:
  "set_option (free_loop cl su sz hint best ids) \<subseteq> set ids \<union> fst ` set_option best"
proof (induction ids arbitrary: best)
  case (Cons i ids)
  from Cons.IH [of best] Cons.IH [of "Some (i, the (eff_free su sz i))"] show ?case
    by (cases "eff_free su sz i"; cases best) (auto split: if_splits)
next
  case Nil
  then show ?case by (cases best) auto
qed

lemma target_by_free_mem: "target_by_free cl sz hint = Some n \<Longrightarrow> n \<in> set (ordered_nodes cl)"
  using free_loop_mem [of cl _ sz hint None "ordered_nodes cl"]
  by (auto simp: target_by_free_def split: option.splits)

lemma target_by_cap_mem: "target_by_cap cl sz hint \<in> set (ordered_nodes cl)"
  using target_by_cap_cases [of cl sz hint] by (auto simp: ordered_nodes_def)

text \<open>A job is always placed on a configured node.\<close>

lemma assign_node_configured: "assign_node cl sz j \<in> set (ordered_nodes cl)"
  using target_by_free_mem target_by_cap_mem [of cl sz "max_bytes j"]
  by (auto simp: assign_node_def target_node_def ordered_nodes_def split: option.splits)

section \<open>Properties\<close>

text \<open>
  When some node reports its free space, a portable job goes to the first node of the
  configured order that keeps its floor after taking the job; if none does, to a reporting node
  with the most space left. It never goes to a node that does not report.
\<close>

theorem target_node_by_free_space:
  assumes "portable src" and "cl_status cl = Some su" and "i \<in> set (ordered_nodes cl)" and "eff_free su sz i \<noteq> None"
  shows "case find (has_room cl su sz hint) (ordered_nodes cl) of
      Some n \<Rightarrow> target_node cl sz src hint = n
    | None \<Rightarrow> target_node cl sz src hint \<in> set (ordered_nodes cl)
        \<and> (\<exists>e. eff_free su sz (target_node cl sz src hint) = Some e
             \<and> (\<forall>j\<in>set (ordered_nodes cl). \<forall>e'. eff_free su sz j = Some e' \<longrightarrow> e' \<le> e))"
proof (cases "find (has_room cl su sz hint) (ordered_nodes cl)")
  case None
  then have "\<forall>j\<in>set (ordered_nodes cl). \<not> has_room cl su sz hint j" by (auto simp: find_None_iff)
  from free_loop_best [OF this, where best = None] assms(3,4) obtain n e where
    "free_loop cl su sz hint None (ordered_nodes cl) = Some n" "n \<in> set (ordered_nodes cl)"
    "eff_free su sz n = Some e" "\<forall>j\<in>set (ordered_nodes cl). \<forall>e'. eff_free su sz j = Some e' \<longrightarrow> e' \<le> e"
    by (auto split: option.splits)
  with None assms(1,2) show ?thesis by (simp add: target_node_def target_by_free_def)
qed (use assms in \<open>simp add: target_node_def target_by_free_def free_loop_room\<close>)

definition sample_cluster :: cluster where
  "sample_cluster = \<lparr>cl_env = (\<lambda>k. if k = ''CLUSTER_NODES'' then ''box2:2T'' else if k = ''PRIMARY_NODE_ID'' then ''box1'' else []),
     cl_float = (\<lambda>_ m. 2 * m), cl_status = Some \<lparr>su_free = (\<lambda>n. if n = ''box1'' then Some 5 else Some 90), su_min = (\<lambda>_. None)\<rparr>,
     cl_disk = None\<rparr>"

definition sample_sizer :: sizer where
  "sample_sizer = \<lparr>sz_cached = (\<lambda>_. Some 0), sz_inflight = (\<lambda>_. Some 0)\<rparr>"

lemma sample_cluster_nodes: "ordered_nodes sample_cluster = [''box1'', ''box2'']"
  by code_simp

theorem target_node_by_free_space_witness:
  "target_node sample_cluster sample_sizer SourceTorrent 10 = ''box2''"
proof -
  define su where "su = the (cl_status sample_cluster)"
  have "cl_status sample_cluster = Some su" "''box1'' \<in> set (ordered_nodes sample_cluster)"
    "eff_free su sample_sizer ''box1'' \<noteq> None" "portable SourceTorrent"
    unfolding su_def sample_cluster_nodes by (simp_all add: sample_cluster_def sample_sizer_def eff_free_def)
  note t = target_node_by_free_space [OF this(4,1,2,3), of 10]
  have "find (has_room sample_cluster su sample_sizer 10) (ordered_nodes sample_cluster) = Some ''box2''"
    unfolding su_def sample_cluster_nodes by code_simp
  with t show ?thesis by simp
qed

text \<open>
  Without reports a job leaves the primary node only for an overflow node whose known usage
  plus the job stays below its cap, and only when the primary has no room; a job with a staged
  input never leaves the primary.
\<close>

theorem target_node_by_caps:
  assumes "target_by_free cl sz (max_bytes j) = None" and "assign_node cl sz j \<noteq> primary_node cl"
  shows "input_key j = [] \<and> portable (source j)
    \<and> \<not> local_has_room cl sz (env_int (cl_env cl) ''EVICTION_CAP_BYTES'' 0) (max_bytes j)
    \<and> (\<exists>n\<in>set (overflow_nodes cl). nc_id n = assign_node cl sz j
         \<and> (\<exists>used. node_used sz (nc_id n) = Some used \<and> (nc_cap n \<le> 0 \<or> used + max_bytes j < nc_cap n)))"
  using assms target_by_cap_cases [of cl sz "max_bytes j"]
  by (auto simp: assign_node_def target_node_def cap_fits_def split: if_splits option.splits)

definition capped_cluster :: cluster where
  "capped_cluster = sample_cluster\<lparr>cl_status := None, cl_env := (\<lambda>k. if k = ''EVICTION_CAP_BYTES'' then ''7''
     else cl_env sample_cluster k)\<rparr>"

definition sized_job :: job where
  "sized_job = \<lparr>jid = ''j'', user_id = ''u'', info_hash = ''h'', jname = [], magnet = [], source = SourceTorrent,
     status = StatusPending, seed = False, budget_gated = False, input_key = [], jerror = [], files = [],
     selected_idxs = [], imdb_id = [], season = 0, episode = 0, file_size = 0, max_bytes = 8, priority = 0,
     progress = 0, speed = 0, node = [], created_at = 0, updated_at = 0, access_count = 0, last_accessed = None\<rparr>"

theorem target_node_by_caps_witness:
  "assign_node capped_cluster sample_sizer sized_job = ''box2''
   \<and> \<not> local_has_room capped_cluster sample_sizer (env_int (cl_env capped_cluster) ''EVICTION_CAP_BYTES'' 0) 8"
proof -
  have a: "target_by_free capped_cluster sample_sizer (max_bytes sized_job) = None"
    "assign_node capped_cluster sample_sizer sized_job = ''box2''"
    "primary_node capped_cluster = ''box1''"
    by code_simp+
  have "assign_node capped_cluster sample_sizer sized_job \<noteq> primary_node capped_cluster" using a(2,3) by simp
  from target_node_by_caps [OF a(1) this] a(2) show ?thesis by (simp add: sized_job_def)
qed

end
