(* ===== verification/Job_Queue.thy ===== *)
theory Job_Queue
  imports Jobs
begin

text \<open>
  Admission to the download queue: \<open>shared/jobs/queue.go\<close>, \<open>queue_identity.go\<close> and
  \<open>queue_state.go\<close>.  Advisory locks make each transaction atomic against the others, so a
  transaction is one function from the tables it finds to the tables it leaves; a statement may
  fail according to the fault script, numbered in program order.
\<close>

section \<open>Queries of the admission transaction\<close>

datatype admission = AdmissionAdmitted | AdmissionQueued | AdmissionExisting

definition initial_budget_headroom :: int where
  "initial_budget_headroom = 1000000000"

definition promote_budget_headroom :: int where
  "promote_budget_headroom = 5000000000"

definition normalize_concurrent :: "int \<Rightarrow> int" where
  "normalize_concurrent n = (if n < 1 then 1 else n)"

definition queued_count :: "db \<Rightarrow> string \<Rightarrow> string \<Rightarrow> int" where
  "queued_count d u exclude =
     int (count_where (\<lambda>j. user_id j = u \<and> status j = StatusQueued \<and> jid j \<noteq> exclude) (jobs_t d))"

definition inflight_count :: "db \<Rightarrow> string \<Rightarrow> int" where
  "inflight_count d u =
     int (count_where (\<lambda>j. user_id j = u \<and> \<not> seed j \<and> status j \<in> set concurrency_statuses) (jobs_t d))"

definition budget_queue_exists :: "db \<Rightarrow> string \<Rightarrow> bool" where
  "budget_queue_exists d exclude =
     list_ex (\<lambda>j. status j = StatusQueued \<and> budget_gated j \<and> jid j \<noteq> exclude) (jobs_t d)"

definition active_hash :: "db \<Rightarrow> string \<Rightarrow> string \<Rightarrow> bool" where
  "active_hash d h exclude =
     list_ex (\<lambda>j. to_lower (info_hash j) = to_lower h \<and> jid j \<noteq> exclude \<and> \<not> seed j
       \<and> status j \<in> set concurrency_statuses) (jobs_t d)"

text \<open>
  The middle of \<open>Admit\<close> and of \<open>Readmit\<close>, the same statements in both: the counts and whether
  the job must queue.  \<open>k\<close> is the number of the first statement.
\<close>

definition must_queue_tx ::
  "db_error faults \<Rightarrow> nat \<Rightarrow> db \<Rightarrow> string \<Rightarrow> job \<Rightarrow> int \<Rightarrow> int \<Rightarrow> db_error + int \<times> bool" where
  "must_queue_tx flt k d exclude j max_concurrent budget =
      (bindE (run flt k (queued_count d (user_id j) exclude)) (\<lambda>queued.
       bindE (run flt (k + 1) (inflight_count d (user_id j))) (\<lambda>inflight.
       bindE (run flt (k + 2) (active_hash d (info_hash j) (jid j))) (\<lambda>same_hash_active.
       let must_queue = queued > 0 \<or> inflight \<ge> normalize_concurrent max_concurrent \<or> same_hash_active in
       if budget_gated j then
         bindE (run flt (k + 3) (budget_queue_exists d exclude)) (\<lambda>budget_queued.
         bindE (run flt (k + 4) (budget_used d)) (\<lambda>used.
         Inr (queued, must_queue \<or> budget_queued \<or> budget - used < initial_budget_headroom)))
       else Inr (queued, must_queue)))))"

section \<open>\<open>Admit\<close>\<close>

definition admit ::
  "db_error faults \<Rightarrow> (db_error + string) \<Rightarrow> int \<Rightarrow> db \<Rightarrow> job \<Rightarrow> int \<Rightarrow> int \<Rightarrow> int
     \<Rightarrow> (db_error + admission \<times> job) \<times> db" where
  "admit flt uuid now d j0 max_concurrent max_queued budget =
     (case prepare_create uuid now j0 of Inl e \<Rightarrow> (Inl e, d) | Inr j \<Rightarrow> in_tx d
      (bindE (run flt 1 ()) (\<lambda>_.
       bindE (lock_admission flt 2 (budget_gated j)) (\<lambda>_.
       bindE (run flt 4 ()) (\<lambda>_.
       bindE (run flt 5 (live_account_job d j)) (\<lambda>existing.
       case existing of Some e \<Rightarrow> Inr ((AdmissionExisting, e), d) | None \<Rightarrow>
       bindE (must_queue_tx flt 6 d '''' j max_concurrent budget) (\<lambda>(queued, must_queue).
       if must_queue \<and> max_queued > 0 \<and> queued \<ge> max_queued then Inl ErrQueueFull
       else let j1 = j\<lparr>status := if must_queue then StatusQueued else StatusPending\<rparr> in
       bindE (insert_job flt 11 d j1) (\<lambda>(created, d1).
       if \<not> created then
         bindE (run flt 12 (live_account_job d1 j1)) (\<lambda>ex.
         case ex of None \<Rightarrow> Inl ErrNotFound | Some e \<Rightarrow> Inr ((AdmissionExisting, e), d))
       else
         bindE (run flt 13 ()) (\<lambda>_.
         Inr ((if status j1 = StatusQueued then AdmissionQueued else AdmissionAdmitted, j1), d1))))))))))"

section \<open>\<open>Readmit\<close>\<close>

definition readmitted_row :: "status \<Rightarrow> int \<Rightarrow> job \<Rightarrow> job" where
  "readmitted_row st now j = j\<lparr>status := st, jerror := '''', node := '''', progress := 0, speed := 0,
     created_at := now, updated_at := now\<rparr>"

text \<open>
  \<open>d0\<close> is the table read before the transaction (it only decides which locks are taken),
  \<open>d\<close> the table the transaction sees.
\<close>

definition readmit ::
  "db_error faults \<Rightarrow> int \<Rightarrow> db \<Rightarrow> db \<Rightarrow> string \<Rightarrow> int \<Rightarrow> int \<Rightarrow> int
     \<Rightarrow> (db_error + admission \<times> job) \<times> db" where
  "readmit flt now d0 d i max_concurrent max_queued budget =
     (case get_job flt 0 d0 i of Inl e \<Rightarrow> (Inl e, d) | Inr current \<Rightarrow> in_tx d
      (bindE (run flt 1 ()) (\<lambda>_.
       bindE (lock_admission flt 2 (budget_gated current)) (\<lambda>_.
       bindE (run flt 4 ()) (\<lambda>_.
       bindE (get_job flt 5 d i) (\<lambda>j.
       if status j \<noteq> StatusFailed \<and> status j \<noteq> StatusEvicted \<and> status j \<noteq> StatusComplete
       then Inr ((AdmissionExisting, j), d)
       else bindE (run flt 6 (live_account_job d j)) (\<lambda>existing.
       if existing \<noteq> None \<and> jid (the existing) \<noteq> jid j
       then Inr ((AdmissionExisting, the existing), d)
       else
       bindE (must_queue_tx flt 7 d (jid j) j max_concurrent budget) (\<lambda>(queued, must_queue).
       if must_queue \<and> max_queued > 0 \<and> queued \<ge> max_queued then Inl ErrQueueFull
       else let j1 = readmitted_row (if must_queue then StatusQueued else StatusPending) now j in
       bindE (run flt 12 ()) (\<lambda>_.
       if live_conflict (jobs_t d) j1 then Inl UniqueViolation else
       bindE (run flt 13 ()) (\<lambda>_.
       Inr ((if status j1 = StatusQueued then AdmissionQueued else AdmissionAdmitted, j1),
         d\<lparr>jobs_t := upd_where (\<lambda>r. jid r = i) (readmitted_row (status j1) now) (jobs_t d)\<rparr>)))))))))))"

section \<open>\<open>PromoteQueued\<close>\<close>

text \<open>The order of the queue, as the \<open>older\<close> query writes it.\<close>

definition queue_before :: "job \<Rightarrow> job \<Rightarrow> bool" where
  "queue_before q j \<longleftrightarrow> priority q > priority j \<or> (priority q = priority j \<and>
     (created_at q < created_at j \<or> (created_at q = created_at j \<and> jid q < jid j)))"

text \<open>An older queued row counts only if no other row downloads its hash.\<close>

definition older_exists :: "db \<Rightarrow> job \<Rightarrow> bool" where
  "older_exists d j = list_ex (\<lambda>q. user_id q = user_id j \<and> status q = StatusQueued \<and> jid q \<noteq> jid j
     \<and> queue_before q j
     \<and> \<not> list_ex (\<lambda>a. jid a \<noteq> jid q \<and> info_hash a = info_hash q \<and> \<not> seed a
          \<and> status a \<in> set concurrency_statuses) (jobs_t d)) (jobs_t d)"

definition same_hash_busy :: "db \<Rightarrow> job \<Rightarrow> bool" where
  "same_hash_busy d j = list_ex (\<lambda>a. jid a \<noteq> jid j \<and> info_hash a = info_hash j \<and> \<not> seed a
     \<and> status a \<in> set concurrency_statuses) (jobs_t d)"

definition promoted_row :: "int \<Rightarrow> job \<Rightarrow> job" where
  "promoted_row now j = j\<lparr>status := StatusPending, node := '''', updated_at := now\<rparr>"

definition promote_queued ::
  "db_error faults \<Rightarrow> int \<Rightarrow> db \<Rightarrow> db \<Rightarrow> string \<Rightarrow> int \<Rightarrow> int
     \<Rightarrow> (db_error + job option) \<times> db" where
  "promote_queued flt now d0 d i max_concurrent budget =
     (case get_job flt 0 d0 i of
        Inl ErrNotFound \<Rightarrow> (Inr None, d)
      | Inl e \<Rightarrow> (Inl e, d)
      | Inr current \<Rightarrow>
        if status current \<noteq> StatusQueued then (Inr None, d) else in_tx d
      (bindE (run flt 1 ()) (\<lambda>_.
       bindE (lock_admission flt 2 (budget_gated current)) (\<lambda>_.
       bindE (run flt 4 ()) (\<lambda>_.
       case get_job flt 5 d i of
         Inl ErrNotFound \<Rightarrow> Inr (None, d)
       | Inl e \<Rightarrow> Inl e
       | Inr j \<Rightarrow>
       if status j \<noteq> StatusQueued then Inr (None, d) else
       bindE (run flt 6 (inflight_count d (user_id j))) (\<lambda>inflight.
       if inflight \<ge> normalize_concurrent max_concurrent then Inr (None, d) else
       bindE (run flt 7 (older_exists d j)) (\<lambda>older.
       if older then Inr (None, d) else
       bindE (run flt 8 (same_hash_busy d j)) (\<lambda>busy.
       if busy then Inr (None, d) else
       bindE (if budget_gated j then run flt 9 (budget - budget_used d < promote_budget_headroom)
              else Inr False) (\<lambda>no_budget.
       if no_budget then Inr (None, d) else
       bindE (run flt 10 ()) (\<lambda>_.
       bindE (run flt 11 ()) (\<lambda>_.
       Inr (Some (promoted_row now j),
         d\<lparr>jobs_t := upd_where (\<lambda>r. jid r = i \<and> status r = StatusQueued) (promoted_row now)
           (jobs_t d)\<rparr>))))))))))))"

section \<open>\<open>SetQueuedPriority\<close> and \<open>FailQueued\<close>\<close>

definition set_queued_priority ::
  "db_error faults \<Rightarrow> int \<Rightarrow> db \<Rightarrow> string \<Rightarrow> int \<Rightarrow> (db_error + bool) \<times> db" where
  "set_queued_priority flt now d i p = in_tx d (bindE (run flt 0 ()) (\<lambda>_.
     let sel = (\<lambda>r. jid r = i \<and> status r = StatusQueued \<and> priority r \<noteq> p) in
     Inr (0 < count_where sel (jobs_t d),
       d\<lparr>jobs_t := upd_where sel (\<lambda>r. r\<lparr>priority := p, updated_at := now\<rparr>) (jobs_t d)\<rparr>)))"

definition fail_queued ::
  "db_error faults \<Rightarrow> int \<Rightarrow> db \<Rightarrow> string \<Rightarrow> string \<Rightarrow> (db_error + bool) \<times> db" where
  "fail_queued flt now d i reason = in_tx d (bindE (run flt 0 ()) (\<lambda>_.
     let sel = (\<lambda>r. jid r = i \<and> status r = StatusQueued) in
     Inr (0 < count_where sel (jobs_t d),
       d\<lparr>jobs_t := upd_where sel (\<lambda>r. r\<lparr>status := StatusFailed, jerror := reason, updated_at := now\<rparr>)
         (jobs_t d)\<rparr>)))"

section \<open>What each transaction may do\<close>

text \<open>
  The decision both \<open>Admit\<close> and \<open>Readmit\<close> take once the account's own live row is ruled out:
  queue behind older work, a full plan, a busy hash or an exhausted budget.
\<close>

definition must_queue :: "db \<Rightarrow> string \<Rightarrow> job \<Rightarrow> int \<Rightarrow> int \<Rightarrow> bool" where
  "must_queue d exclude j max_concurrent budget \<longleftrightarrow>
     queued_count d (user_id j) exclude > 0
     \<or> inflight_count d (user_id j) \<ge> normalize_concurrent max_concurrent
     \<or> active_hash d (info_hash j) (jid j)
     \<or> (budget_gated j \<and> (budget_queue_exists d exclude
          \<or> budget - budget_used d < initial_budget_headroom))"

definition admitted_status :: "bool \<Rightarrow> status" where
  "admitted_status q = (if q then StatusQueued else StatusPending)"

definition admission_of :: "bool \<Rightarrow> admission" where
  "admission_of q = (if q then AdmissionQueued else AdmissionAdmitted)"

lemma admitted_status_simps [simp]:
  "admitted_status True = StatusQueued" "admitted_status False = StatusPending"
  "admitted_status q = StatusQueued \<longleftrightarrow> q"
  by (simp_all add: admitted_status_def)

lemma must_queue_tx_Inr:
  "must_queue_tx flt k d x j mc b = Inr (queued, m) \<Longrightarrow>
     queued = queued_count d (user_id j) x \<and> m = must_queue d x j mc b"
  by (auto simp: must_queue_tx_def must_queue_def bindE_eq_Inr run_eq_Inr Let_def split: if_splits)

lemma must_queue_tx_no_faults [simp]:
  "must_queue_tx no_faults k d x j mc b = Inr (queued_count d (user_id j) x, must_queue d x j mc b)"
  by (auto simp: must_queue_tx_def must_queue_def Let_def)

lemma lock_admission_no_faults [simp]: "lock_admission no_faults k g = Inr ()"
  by (simp add: lock_admission_def)

lemma admit_effect:
  assumes "admit flt uuid now d j0 mc mq b = (res, d')"
  shows "d' = d \<or> (\<exists>j. prepare_create uuid now j0 = Inr j \<and> live_account_job d j = None
     \<and> (let q = must_queue d '''' j mc b; j1 = j\<lparr>status := admitted_status q\<rparr> in
          insert_job flt 11 d j1 = Inr (True, d') \<and> res = Inr (admission_of q, j1)
          \<and> (q \<longrightarrow> mq > 0 \<longrightarrow> queued_count d (user_id j) '''' < mq)))"
proof (cases "prepare_create uuid now j0")
  case (Inl e)
  with assms show ?thesis by (simp add: admit_def)
next
  case (Inr j)
  show ?thesis
  proof (cases res)
    case (Inl e)
    with assms Inr show ?thesis
      by (auto simp: admit_def in_tx_def split: sum.splits prod.splits)
  next
    case res: (Inr v)
    from assms Inr res show ?thesis
      by (auto simp: admit_def in_tx_cases bindE_eq_Inr run_eq_Inr admission_of_def
          admitted_status_def Let_def dest!: must_queue_tx_Inr split: if_splits option.splits)
  qed
qed

lemma get_job_Inr: "get_job flt k d i = Inr j \<Longrightarrow> j \<in> set (jobs_t d) \<and> jid j = i"
  by (auto simp: get_job_def bindE_eq_Inr run_eq_Inr not_found_def dest: find_Some_mem
      split: option.splits)

lemma readmit_effect:
  assumes "readmit flt now d0 d i mc mq b = (res, d')"
  shows "d' = d \<or> (\<exists>r. r \<in> set (jobs_t d) \<and> jid r = i
     \<and> status r \<in> {StatusFailed, StatusEvicted, StatusComplete}
     \<and> (let q = must_queue d i r mc b; r1 = readmitted_row (admitted_status q) now r in
          \<not> live_conflict (jobs_t d) r1
          \<and> d' = d\<lparr>jobs_t := upd_where (\<lambda>r. jid r = i) (readmitted_row (admitted_status q) now) (jobs_t d)\<rparr>
          \<and> res = Inr (admission_of q, r1)
          \<and> (q \<longrightarrow> mq > 0 \<longrightarrow> queued_count d (user_id r) i < mq)))"
proof (cases "get_job flt 0 d0 i")
  case (Inl e)
  with assms show ?thesis by (simp add: readmit_def)
next
  case (Inr current)
  show ?thesis
  proof (cases res)
    case (Inl e)
    with assms Inr show ?thesis
      by (auto simp: readmit_def in_tx_def split: sum.splits prod.splits)
  next
    case res: (Inr v)
    from assms Inr res obtain j where j: "get_job flt 5 d i = Inr j"
      by (auto simp: readmit_def in_tx_cases bindE_eq_Inr)
    then have jm: "j \<in> set (jobs_t d)" "jid j = i"
      using get_job_Inr by blast+
    let ?q = "must_queue d i j mc b"
    let ?r1 = "readmitted_row (admitted_status ?q) now j"
    have "d' = d \<or> status j \<in> {StatusFailed, StatusEvicted, StatusComplete}
        \<and> \<not> live_conflict (jobs_t d) ?r1
        \<and> d' = d\<lparr>jobs_t := upd_where (\<lambda>r. jid r = i) (readmitted_row (admitted_status ?q) now) (jobs_t d)\<rparr>
        \<and> res = Inr (admission_of ?q, ?r1)
        \<and> (?q \<longrightarrow> mq > 0 \<longrightarrow> queued_count d (user_id j) i < mq)"
      using assms Inr res j jm(2)
      by (auto simp: readmit_def in_tx_cases bindE_eq_Inr run_eq_Inr admission_of_def
          admitted_status_def Let_def readmitted_row_def dest!: must_queue_tx_Inr split: if_splits)
    with jm show ?thesis by (auto simp: Let_def)
  qed
qed

lemma promote_effect:
  assumes "promote_queued flt now d0 d i mc b = (res, d')"
  shows "d' = d \<or> (\<exists>r. r \<in> set (jobs_t d) \<and> jid r = i \<and> status r = StatusQueued
     \<and> inflight_count d (user_id r) < normalize_concurrent mc
     \<and> \<not> older_exists d r \<and> \<not> same_hash_busy d r
     \<and> (budget_gated r \<longrightarrow> promote_budget_headroom \<le> b - budget_used d)
     \<and> d' = d\<lparr>jobs_t := upd_where (\<lambda>r. jid r = i \<and> status r = StatusQueued) (promoted_row now) (jobs_t d)\<rparr>
     \<and> res = Inr (Some (promoted_row now r)))"
proof (cases "\<exists>c. get_job flt 0 d0 i = Inr c \<and> status c = StatusQueued")
  case False
  with assms show ?thesis
    by (auto simp: promote_queued_def split: sum.splits db_error.splits if_splits)
next
  case True
  then obtain c where c: "get_job flt 0 d0 i = Inr c" "status c = StatusQueued" by blast
  show ?thesis
  proof (cases res)
    case (Inl e)
    with assms c show ?thesis
      by (auto simp: promote_queued_def in_tx_def split: sum.splits prod.splits)
  next
    case res: (Inr v)
    from assms c res show ?thesis
      by (auto simp: promote_queued_def in_tx_cases bindE_eq_Inr run_eq_Inr not_le
          dest: get_job_Inr split: if_splits sum.splits db_error.splits)
  qed
qed

lemma promoted_Some:
  assumes "promote_queued flt now d0 d i mc b = (Inr (Some j'), d')"
  shows "\<exists>r. r \<in> set (jobs_t d) \<and> jid r = i \<and> status r = StatusQueued
     \<and> inflight_count d (user_id r) < normalize_concurrent mc
     \<and> \<not> older_exists d r \<and> \<not> same_hash_busy d r
     \<and> (budget_gated r \<longrightarrow> promote_budget_headroom \<le> b - budget_used d) \<and> j' = promoted_row now r
     \<and> d' = d\<lparr>jobs_t := upd_where (\<lambda>r. jid r = i \<and> status r = StatusQueued) (promoted_row now) (jobs_t d)\<rparr>"
proof (cases "\<exists>c. get_job flt 0 d0 i = Inr c \<and> status c = StatusQueued")
  case False
  with assms show ?thesis
    by (auto simp: promote_queued_def split: sum.splits db_error.splits if_splits)
next
  case True
  then obtain c where c: "get_job flt 0 d0 i = Inr c" "status c = StatusQueued" by blast
  from assms c show ?thesis
    by (auto simp: promote_queued_def in_tx_cases bindE_eq_Inr run_eq_Inr not_le
        dest: get_job_Inr split: if_splits sum.splits db_error.splits)
qed

section \<open>The queue's invariant\<close>

definition slots :: "db \<Rightarrow> string \<Rightarrow> nat" where
  "slots d u = count_where (\<lambda>j. user_id j = u \<and> holds_slot j) (jobs_t d)"

definition hash_slots :: "db \<Rightarrow> string \<Rightarrow> nat" where
  "hash_slots d h = count_where (\<lambda>j. info_hash j = h \<and> holds_slot j) (jobs_t d)"

text \<open>
  The invariant with a slack: an account may hold \<open>n\<close> slots over its limit, a hash \<open>m\<close> over its
  one. The queue itself keeps the invariant without slack.
\<close>

definition queue_within :: "(string \<Rightarrow> nat) \<Rightarrow> (string \<Rightarrow> nat) \<Rightarrow> (string \<Rightarrow> int) \<Rightarrow> db \<Rightarrow> bool" where
  "queue_within n m lim d \<longleftrightarrow> store_ok d
     \<and> (\<forall>u. int (slots d u) \<le> normalize_concurrent (lim u) + int (n u))
     \<and> (\<forall>h. hash_slots d h \<le> 1 + m h)"

abbreviation queue_ok :: "(string \<Rightarrow> int) \<Rightarrow> db \<Rightarrow> bool" where
  "queue_ok \<equiv> queue_within (\<lambda>_. 0) (\<lambda>_. 0)"

lemma queue_ok_def: "queue_ok lim d \<longleftrightarrow> store_ok d
    \<and> (\<forall>u. int (slots d u) \<le> normalize_concurrent (lim u)) \<and> (\<forall>h. hash_slots d h \<le> 1)"
  by (simp add: queue_within_def)

lemma inflight_slots: "inflight_count d u = int (slots d u)"
  unfolding inflight_count_def slots_def holds_slot_def by simp

lemma queue_withinD:
  assumes "queue_within n m lim d"
  shows "store_ok d" "int (slots d u) \<le> normalize_concurrent (lim u) + int (n u)" "hash_slots d h \<le> 1 + m h"
  using assms by (auto simp: queue_within_def)

lemma queue_okD:
  assumes "queue_ok lim d"
  shows "store_ok d" "int (slots d u) \<le> normalize_concurrent (lim u)" "hash_slots d h \<le> 1"
  using assms by (auto simp: queue_ok_def)

lemma normalize_concurrent_pos: "1 \<le> normalize_concurrent x"
  by (simp add: normalize_concurrent_def)

text \<open>Appending a row keeps the invariant if the row claims no slot, or the slot and the hash are free.\<close>

lemma queue_ok_append:
  assumes "queue_within n m lim d" and "store_ok (d\<lparr>jobs_t := jobs_t d @ [r]\<rparr>)"
    and "holds_slot r \<Longrightarrow> int (slots d (user_id r)) < normalize_concurrent (lim (user_id r))"
    and "holds_slot r \<Longrightarrow> hash_slots d (info_hash r) = 0"
  shows "queue_within n m lim (d\<lparr>jobs_t := jobs_t d @ [r]\<rparr>)"
proof -
  note w = queue_withinD [OF assms(1)]
  have "int (slots (d\<lparr>jobs_t := jobs_t d @ [r]\<rparr>) u) \<le> normalize_concurrent (lim u) + int (n u)" for u
    using w(2) [of u] assms(3) by (auto simp: slots_def table_simps)
  moreover have "hash_slots (d\<lparr>jobs_t := jobs_t d @ [r]\<rparr>) h \<le> 1 + m h" for h
  proof (cases "info_hash r = h \<and> holds_slot r")
    case True
    then have "count_where (\<lambda>j. info_hash j = h \<and> holds_slot j) (jobs_t d) = 0"
      using assms(4) by (simp add: hash_slots_def)
    with True show ?thesis by (simp add: hash_slots_def count_where_append)
  next
    case False
    with w(3) [of h] show ?thesis by (auto simp: hash_slots_def count_where_append)
  qed
  ultimately show ?thesis using assms(2) by (simp add: queue_within_def)
qed

lemma store_ok_update:
  assumes ok: "store_ok d" and sel: "\<And>x. sel x \<Longrightarrow> jid x = i"
    and f: "\<And>x. x \<in> set (jobs_t d) \<Longrightarrow> sel x \<Longrightarrow> jid (f x) = jid x \<and> info_hash (f x) = info_hash x"
    and live: "\<And>x. x \<in> set (jobs_t d) \<Longrightarrow> sel x \<Longrightarrow> \<not> live_conflict (jobs_t d) (f x)"
  shows "store_ok (d\<lparr>jobs_t := upd_where sel f (jobs_t d)\<rparr>)"
proof -
  have "map jid (upd_where sel f (jobs_t d)) = map jid (jobs_t d)"
    by (rule map_upd_where) (simp add: f)
  moreover have "to_lower (info_hash x) = info_hash x" if "x \<in> set (upd_where sel f (jobs_t d))" for x
    using that store_okD(2) [OF ok] by (auto simp: set_upd_where f split: if_splits)
  moreover have "jid a = jid b"
    if "a \<in> set (upd_where sel f (jobs_t d))" "b \<in> set (upd_where sel f (jobs_t d))"
      "same_live_key a b" for a b
  proof -
    from that(1) obtain a0 where a: "a0 \<in> set (jobs_t d)" "a = (if sel a0 then f a0 else a0)"
      by (auto simp: set_upd_where)
    from that(2) obtain b0 where b: "b0 \<in> set (jobs_t d)" "b = (if sel b0 then f b0 else b0)"
      by (auto simp: set_upd_where)
    consider "sel a0" "sel b0" | "sel a0" "\<not> sel b0" | "\<not> sel a0" "sel b0"
      | "\<not> sel a0" "\<not> sel b0" by blast
    then show ?thesis
    proof cases
      case 1
      with a b sel f show ?thesis by simp
    next
      case 2
      with a b that(3) live [OF a(1)] sel show ?thesis
        unfolding live_conflict_def list_ex_iff by (metis f same_live_key_sym)
    next
      case 3
      with a b that(3) live [OF b(1)] sel show ?thesis
        unfolding live_conflict_def list_ex_iff by (metis f)
    next
      case 4
      with a b that(3) store_okD(3) [OF ok] show ?thesis by simp
    qed
  qed
  ultimately show ?thesis
    using store_okD(1) [OF ok] by (simp add: store_ok_def)
qed

text \<open>
  An update of the row with one id keeps the invariant if it takes no other live key and, where
  it makes the row claim a slot, the user's slot and the hash are free.
\<close>

lemma upd_count_gain:
  assumes "distinct (map jid rows)" and sel: "\<And>x. sel x \<Longrightarrow> jid x = i"
    and gain: "\<And>x. x \<in> set rows \<Longrightarrow> sel x \<Longrightarrow> q (f x) \<Longrightarrow> \<not> q x \<Longrightarrow> Suc (count_where q rows) \<le> n"
    and le: "count_where q rows \<le> n"
  shows "count_where q (upd_where sel f rows) \<le> n"
proof (cases "\<exists>x\<in>set rows. sel x \<and> q (f x) \<and> \<not> q x")
  case True
  then have "Suc (count_where q rows) \<le> n" using gain by blast
  moreover have "count_where q (upd_where sel f rows) \<le> Suc (count_where q rows)"
    by (rule count_where_upd_one [where key = jid and k = i]) (use assms in auto)
  ultimately show ?thesis by simp
next
  case False
  then have "count_where q (upd_where sel f rows) \<le> count_where q rows"
    by (intro count_where_upd_le) blast
  with le show ?thesis by simp
qed

lemma queue_ok_update:
  assumes ok: "queue_within n m lim d" and sel: "\<And>x. sel x \<Longrightarrow> jid x = i"
    and f: "\<And>x. x \<in> set (jobs_t d) \<Longrightarrow> sel x \<Longrightarrow> jid (f x) = jid x \<and> info_hash (f x) = info_hash x
        \<and> (holds_slot (f x) \<longrightarrow> user_id (f x) = user_id x)"
    and live: "\<And>x. x \<in> set (jobs_t d) \<Longrightarrow> sel x \<Longrightarrow> \<not> live_conflict (jobs_t d) (f x)"
    and gain: "\<And>x. x \<in> set (jobs_t d) \<Longrightarrow> sel x \<Longrightarrow> holds_slot (f x) \<Longrightarrow> \<not> holds_slot x \<Longrightarrow>
        int (slots d (user_id x)) < normalize_concurrent (lim (user_id x)) \<and> hash_slots d (info_hash x) = 0"
  shows "queue_within n m lim (d\<lparr>jobs_t := upd_where sel f (jobs_t d)\<rparr>)"
  unfolding queue_within_def
proof (intro conjI allI)
  note dist = store_okD(1) [OF queue_withinD(1) [OF ok]]
  show "store_ok (d\<lparr>jobs_t := upd_where sel f (jobs_t d)\<rparr>)"
    by (rule store_ok_update [OF queue_withinD(1) [OF ok] sel]) (use f live in auto)
  fix u
  have "count_where (\<lambda>j. user_id j = u \<and> holds_slot j) (upd_where sel f (jobs_t d))
      \<le> nat (normalize_concurrent (lim u) + int (n u))"
  proof (rule upd_count_gain [OF dist sel])
    fix x assume "x \<in> set (jobs_t d)" "sel x" "user_id (f x) = u \<and> holds_slot (f x)"
      "\<not> (user_id x = u \<and> holds_slot x)"
    with gain [of x] f show "Suc (count_where (\<lambda>j. user_id j = u \<and> holds_slot j) (jobs_t d))
        \<le> nat (normalize_concurrent (lim u) + int (n u))"
      by (auto simp: slots_def)
  qed (use queue_withinD(2) [OF ok, of u] in \<open>simp_all add: slots_def\<close>)
  with normalize_concurrent_pos [of "lim u"]
  show "int (slots (d\<lparr>jobs_t := upd_where sel f (jobs_t d)\<rparr>) u) \<le> normalize_concurrent (lim u) + int (n u)"
    by (simp add: slots_def)
next
  note dist = store_okD(1) [OF queue_withinD(1) [OF ok]]
  fix h
  have "count_where (\<lambda>j. info_hash j = h \<and> holds_slot j) (upd_where sel f (jobs_t d)) \<le> 1 + m h"
  proof (rule upd_count_gain [OF dist sel])
    fix x assume "x \<in> set (jobs_t d)" "sel x" "info_hash (f x) = h \<and> holds_slot (f x)"
      "\<not> (info_hash x = h \<and> holds_slot x)"
    with gain [of x] f show "Suc (count_where (\<lambda>j. info_hash j = h \<and> holds_slot j) (jobs_t d)) \<le> 1 + m h"
      by (auto simp: hash_slots_def)
  qed (use queue_withinD(3) [OF ok, of h] in \<open>simp_all add: hash_slots_def\<close>)
  then show "hash_slots (d\<lparr>jobs_t := upd_where sel f (jobs_t d)\<rparr>) h \<le> 1 + m h"
    by (simp add: hash_slots_def)
qed

lemma not_active_hash_slots:
  assumes "store_ok d" "\<not> active_hash d (info_hash j) (jid j)"
    and "to_lower (info_hash j) = info_hash j" and "\<And>r. r \<in> set (jobs_t d) \<Longrightarrow> jid r = jid j \<Longrightarrow> \<not> holds_slot r"
  shows "hash_slots d (info_hash j) = 0"
  using assms store_okD(2) [OF assms(1)]
  by (auto simp: active_hash_def hash_slots_def count_where_0 list_ex_iff holds_slot_def)

lemma not_busy_hash_slots:
  assumes "\<not> same_hash_busy d j" "\<And>r. r \<in> set (jobs_t d) \<Longrightarrow> jid r = jid j \<Longrightarrow> \<not> holds_slot r"
  shows "hash_slots d (info_hash j) = 0"
  using assms by (auto simp: same_hash_busy_def hash_slots_def count_where_0 list_ex_iff holds_slot_def)

lemma holds_slot_pending: "status j \<in> {StatusQueued, StatusFailed, StatusEvicted, StatusComplete} \<Longrightarrow> \<not> holds_slot j"
  by (auto simp: holds_slot_def concurrency_statuses_def)

section \<open>Each operation keeps the invariant\<close>

lemma admit_queue_ok:
  assumes eq: "admit flt uuid now d j0 (lim (user_id j0)) mq b = (res, d')" and ok: "queue_within n m lim d"
  shows "queue_within n m lim d'"
proof -
  note e = admit_effect [OF eq]
  show ?thesis
  proof (cases "d' = d")
    case False
    with e obtain j where j: "prepare_create uuid now j0 = Inr j"
      and ins: "insert_job flt 11 d (j\<lparr>status := admitted_status (must_queue d '''' j (lim (user_id j0)) b)\<rparr>) = Inr (True, d')"
      by (auto simp: Let_def)
    let ?q = "must_queue d '''' j (lim (user_id j0)) b"
    let ?r = "new_row (j\<lparr>status := admitted_status ?q\<rparr>)"
    have u: "user_id j = user_id j0" using prepare_create_frame [OF j] by simp
    have lo: "to_lower (info_hash j) = info_hash j" by (rule prepare_create_lower [OF j])
    have d': "d' = d\<lparr>jobs_t := jobs_t d @ [?r]\<rparr>" and new: "jid j \<notin> jid ` set (jobs_t d)"
      using insert_job_cases [OF ins] by auto
    have "store_ok d'" by (rule insert_job_ok [OF ins queue_withinD(1) [OF ok]]) (simp add: lo)
    moreover have "\<not> ?q" if "holds_slot ?r"
      using that by (cases ?q) (auto simp: holds_slot_def concurrency_statuses_def new_row_def)
    moreover have "hash_slots d (info_hash j) = 0" if "\<not> active_hash d (info_hash j) (jid j)"
      using queue_withinD(1) [OF ok] that lo
    proof (rule not_active_hash_slots)
      fix r assume "r \<in> set (jobs_t d)" "jid r = jid j"
      with new show "\<not> holds_slot r" by (metis image_eqI)
    qed
    ultimately show ?thesis
      unfolding d' using u
      by (intro queue_ok_append [OF ok]) (auto simp: must_queue_def inflight_slots new_row_def)
  qed (use ok in simp)
qed

lemma live_conflict_same_key:
  assumes "store_ok d" "x \<in> set (jobs_t d)"
    and "jid y = jid x" "has_live_user_identity y \<Longrightarrow> same_live_key y x"
  shows "\<not> live_conflict (jobs_t d) y"
proof
  assume "live_conflict (jobs_t d) y"
  then obtain r where r: "r \<in> set (jobs_t d)" "jid r \<noteq> jid y" "same_live_key r y"
    by (auto simp: live_conflict_def list_ex_iff)
  then have "same_live_key r x" using assms(4) by (auto simp: same_live_key_def)
  with r assms(3) store_okD(3) [OF assms(1) r(1) assms(2)] show False by simp
qed

lemma readmit_queue_ok:
  assumes eq: "readmit flt now d0 d i mc mq b = (res, d')" and ok: "queue_within n m lim d"
    and mc: "\<And>r. r \<in> set (jobs_t d) \<Longrightarrow> jid r = i \<Longrightarrow> mc = lim (user_id r)"
  shows "queue_within n m lim d'"
proof (cases "d' = d")
  case False
  note st = queue_withinD(1) [OF ok]
  from readmit_effect [OF eq] False obtain r where r: "r \<in> set (jobs_t d)" "jid r = i"
    and s: "status r \<in> {StatusFailed, StatusEvicted, StatusComplete}"
    and nc: "\<not> live_conflict (jobs_t d) (readmitted_row (admitted_status (must_queue d i r mc b)) now r)"
    and d': "d' = d\<lparr>jobs_t := upd_where (\<lambda>r. jid r = i)
        (readmitted_row (admitted_status (must_queue d i r mc b)) now) (jobs_t d)\<rparr>"
    by (auto simp: Let_def)
  have only: "x = r" if "x \<in> set (jobs_t d)" "jid x = i" for x
    using jid_unique [OF st that(1) r(1)] that(2) r(2) by simp
  have free: "\<not> holds_slot r" using s holds_slot_pending by auto
  have hs: "hash_slots d (info_hash r) = 0" if "\<not> active_hash d (info_hash r) i"
  proof (rule not_active_hash_slots [OF st])
    show "\<not> active_hash d (info_hash r) (jid r)" using that r(2) by simp
    show "to_lower (info_hash r) = info_hash r" by (rule store_okD(2) [OF st r(1)])
    fix x assume "x \<in> set (jobs_t d)" "jid x = jid r"
    then show "\<not> holds_slot x" using only [of x] r(2) free by simp
  qed
  show ?thesis
    unfolding d'
  proof (rule queue_ok_update [OF ok, where i = i])
    fix x assume "x \<in> set (jobs_t d)" "jid x = i"
    with only nc show "\<not> live_conflict (jobs_t d) (readmitted_row (admitted_status (must_queue d i r mc b)) now x)"
      by simp
  next
    fix x assume x: "x \<in> set (jobs_t d)" "jid x = i"
      and h: "holds_slot (readmitted_row (admitted_status (must_queue d i r mc b)) now x)"
    have "\<not> must_queue d i r mc b"
      using h by (cases "must_queue d i r mc b")
        (auto simp: readmitted_row_def holds_slot_def concurrency_statuses_def)
    with hs only [OF x] mc [OF r] r(2)
    show "int (slots d (user_id x)) < normalize_concurrent (lim (user_id x)) \<and> hash_slots d (info_hash x) = 0"
      by (auto simp: must_queue_def inflight_slots)
  qed (simp_all add: readmitted_row_def)
qed (use ok in simp)

lemma promote_queue_ok:
  assumes eq: "promote_queued flt now d0 d i mc b = (res, d')" and ok: "queue_within n m lim d"
    and mc: "\<And>r. r \<in> set (jobs_t d) \<Longrightarrow> jid r = i \<Longrightarrow> status r = StatusQueued \<Longrightarrow> mc = lim (user_id r)"
  shows "queue_within n m lim d'"
proof (cases "d' = d")
  case False
  note st = queue_withinD(1) [OF ok]
  from promote_effect [OF eq] False obtain r where r: "r \<in> set (jobs_t d)" "jid r = i"
    and s: "status r = StatusQueued" "inflight_count d (user_id r) < normalize_concurrent mc"
      "\<not> same_hash_busy d r"
    and d': "d' = d\<lparr>jobs_t := upd_where (\<lambda>r. jid r = i \<and> status r = StatusQueued) (promoted_row now) (jobs_t d)\<rparr>"
    by auto
  have only: "x = r" if "x \<in> set (jobs_t d)" "jid x = i" for x
    using jid_unique [OF st that(1) r(1)] that(2) r(2) by simp
  have "hash_slots d (info_hash r) = 0"
  proof (rule not_busy_hash_slots [OF s(3)])
    fix x assume "x \<in> set (jobs_t d)" "jid x = jid r"
    then show "\<not> holds_slot x" using only [of x] r(2) s(1) holds_slot_pending by simp
  qed
  then show ?thesis
    unfolding d'
  proof (intro queue_ok_update [OF ok, where i = i])
    fix x assume x: "x \<in> set (jobs_t d)" "jid x = i \<and> status x = StatusQueued"
    show "\<not> live_conflict (jobs_t d) (promoted_row now x)"
      by (rule live_conflict_same_key [OF st x(1)])
        (use x(2) in \<open>auto simp: promoted_row_def same_live_key_def has_live_user_identity_def\<close>)
  next
    fix x assume x: "x \<in> set (jobs_t d)" "jid x = i \<and> status x = StatusQueued"
    with only [of x] s(2) mc [OF r s(1)] \<open>hash_slots d (info_hash r) = 0\<close>
    show "int (slots d (user_id x)) < normalize_concurrent (lim (user_id x)) \<and> hash_slots d (info_hash x) = 0"
      by (simp add: inflight_slots)
  qed (simp_all add: promoted_row_def)
qed (use ok in simp)

lemma set_queued_priority_ok:
  assumes "set_queued_priority flt now d i p = (res, d')" and ok: "queue_within n m lim d"
  shows "queue_within n m lim d'"
proof (cases "flt 0")
  case None
  note st = queue_withinD(1) [OF ok]
  from assms(1) None have d': "d' = d\<lparr>jobs_t := upd_where
      (\<lambda>r. jid r = i \<and> status r = StatusQueued \<and> priority r \<noteq> p)
      (\<lambda>r. r\<lparr>priority := p, updated_at := now\<rparr>) (jobs_t d)\<rparr>"
    by (auto simp: set_queued_priority_def run_def Let_def)
  show ?thesis
    unfolding d'
  proof (rule queue_ok_update [OF ok, where i = i])
    fix x assume x: "x \<in> set (jobs_t d)" "jid x = i \<and> status x = StatusQueued \<and> priority x \<noteq> p"
    show "\<not> live_conflict (jobs_t d) (x\<lparr>priority := p, updated_at := now\<rparr>)"
      by (rule live_conflict_same_key [OF st x(1)])
        (auto simp: same_live_key_def has_live_user_identity_def)
  qed (auto simp: holds_slot_def)
qed (use assms in \<open>auto simp: set_queued_priority_def run_def\<close>)

lemma fail_queued_ok:
  assumes "fail_queued flt now d i reason = (res, d')" and ok: "queue_within n m lim d"
  shows "queue_within n m lim d'"
proof (cases "flt 0")
  case None
  note st = queue_withinD(1) [OF ok]
  from assms(1) None have d': "d' = d\<lparr>jobs_t := upd_where (\<lambda>r. jid r = i \<and> status r = StatusQueued)
      (\<lambda>r. r\<lparr>status := StatusFailed, jerror := reason, updated_at := now\<rparr>) (jobs_t d)\<rparr>"
    by (auto simp: fail_queued_def run_def Let_def)
  show ?thesis
    unfolding d'
  proof (rule queue_ok_update [OF ok, where i = i])
    fix x assume x: "x \<in> set (jobs_t d)" "jid x = i \<and> status x = StatusQueued"
    show "\<not> live_conflict (jobs_t d) (x\<lparr>status := StatusFailed, jerror := reason, updated_at := now\<rparr>)"
      by (rule live_conflict_same_key [OF st x(1)])
        (auto simp: same_live_key_def has_live_user_identity_def)
  qed (auto simp: holds_slot_def concurrency_statuses_def)
qed (use assms in \<open>auto simp: fail_queued_def run_def\<close>)

text \<open>
  The usual write of an ingest worker or a handler keeps the row's hash, changes its owner only when
  the row holds no slot, and never claims a slot anew. A worker that writes back a row it read
  before another transaction took the row's slot away makes the other kind (\<open>keeps_hash\<close> without
  \<open>worker_write\<close>); the counted runs below have it as a step of its own.
\<close>

definition keeps_hash :: "db \<Rightarrow> job \<Rightarrow> bool" where
  "keeps_hash d j \<longleftrightarrow> (\<forall>r\<in>set (jobs_t d). jid r = jid j \<longrightarrow> info_hash r = info_hash j)"

definition worker_write :: "db \<Rightarrow> job \<Rightarrow> bool" where
  "worker_write d j \<longleftrightarrow> (\<forall>r\<in>set (jobs_t d). jid r = jid j \<longrightarrow>
     info_hash r = info_hash j \<and> (holds_slot j \<longrightarrow> user_id r = user_id j \<and> holds_slot r))"

lemma update_job_effect:
  assumes "update_job flt k now d j = (res, d')" and "d' \<noteq> d"
  shows "\<not> live_conflict (jobs_t d) j"
    and "d' = d\<lparr>jobs_t := upd_where (\<lambda>r. jid r = jid j) (updated_row now j) (jobs_t d)\<rparr>"
    and "\<not> live_conflict (jobs_t d) (updated_row now j x)"
proof -
  show nc: "\<not> live_conflict (jobs_t d) j"
    and "d' = d\<lparr>jobs_t := upd_where (\<lambda>r. jid r = jid j) (updated_row now j) (jobs_t d)\<rparr>"
    using assms by (auto simp: update_job_def in_tx_def run_def split: if_splits option.splits)
  have "same_live_key r (updated_row now j x) = same_live_key r j" for r
    by (auto simp: updated_row_def same_live_key_def has_live_user_identity_def)
  with nc show "\<not> live_conflict (jobs_t d) (updated_row now j x)"
    by (simp add: live_conflict_def) (simp add: updated_row_def)
qed

lemma update_job_ok:
  assumes "update_job flt k now d j = (res, d')" and w: "worker_write d j" and ok: "queue_within n m lim d"
  shows "queue_within n m lim d'"
proof (cases "d' = d")
  case False
  note e = update_job_effect [OF assms(1) False]
  show ?thesis
    unfolding e(2)
  proof (rule queue_ok_update [OF ok, where i = "jid j"])
    show "\<not> live_conflict (jobs_t d) (updated_row now j x)" for x by (rule e(3))
  qed (use w in \<open>auto simp: worker_write_def updated_row_def holds_slot_def\<close>)
qed (use ok in simp)

lemma set_progress_ok:
  assumes "set_progress flt d i pct sp = (res, d')" and ok: "queue_within n m lim d"
  shows "queue_within n m lim d'"
proof (cases "flt 0")
  case None
  note st = queue_withinD(1) [OF ok]
  from assms(1) None have d': "d' = d\<lparr>jobs_t := upd_where (\<lambda>r. jid r = i)
      (\<lambda>r. r\<lparr>progress := pct, speed := sp\<rparr>) (jobs_t d)\<rparr>"
    by (auto simp: set_progress_def run_def)
  show ?thesis
    unfolding d'
  proof (rule queue_ok_update [OF ok, where i = i])
    fix x assume x: "x \<in> set (jobs_t d)" "jid x = i"
    show "\<not> live_conflict (jobs_t d) (x\<lparr>progress := pct, speed := sp\<rparr>)"
      by (rule live_conflict_same_key [OF st x(1)])
        (auto simp: same_live_key_def has_live_user_identity_def)
  qed (auto simp: holds_slot_def)
qed (use assms in \<open>auto simp: set_progress_def run_def\<close>)

text \<open>An update that leaves id, owner, hash, status and seed flag alone changes nothing for the queue.\<close>

lemma queue_ok_relabel:
  assumes ok: "queue_within n m lim d"
    and f: "\<And>x. jid (f x) = jid x \<and> user_id (f x) = user_id x \<and> info_hash (f x) = info_hash x
      \<and> seed (f x) = seed x \<and> status (f x) = status x"
  shows "queue_within n m lim (d\<lparr>jobs_t := upd_where sel f (jobs_t d)\<rparr>)"
proof -
  have count: "count_where q (upd_where sel f rows) = count_where q rows" if "\<And>x. q (f x) = q x" for q and rows :: "job list"
    using that by (induction rows) (auto simp: upd_where_def count_where_def)
  have h: "holds_slot (f x) = holds_slot x" for x using f [of x] by (simp add: holds_slot_def)
  have k: "same_live_key (if sel a then f a else a) (if sel b then f b else b) = same_live_key a b" for a b
    using f [of a] f [of b] by (auto simp: same_live_key_def has_live_user_identity_def)
  define g where "g = (\<lambda>x. if sel x then f x else x)"
  have g: "upd_where sel f (jobs_t d) = map g (jobs_t d)" "jid \<circ> g = jid" "jid (g x) = jid x" "info_hash (g x) = info_hash x"
    "same_live_key (g a) (g b) = same_live_key a b" for x a b
    using f k by (auto simp: g_def upd_where_def)
  have "store_ok (d\<lparr>jobs_t := upd_where sel f (jobs_t d)\<rparr>)"
    using store_okD [OF queue_withinD(1) [OF ok]] by (simp add: store_ok_def g)
  then show ?thesis
    using ok f by (simp add: queue_within_def slots_def hash_slots_def count h)
qed

lemma set_imdb_ok: "set_imdb flt d h v = (res, d') \<Longrightarrow> queue_within n m lim d \<Longrightarrow> queue_within n m lim d'"
  by (auto simp: set_imdb_def in_tx_def run_def split: if_splits option.splits intro!: queue_ok_relabel)

lemma create_once_effect:
  assumes "create_once flt uuid now d j0 = (res, d')" "d' \<noteq> d"
  obtains j k where "prepare_create uuid now j0 = Inr j" "insert_job flt k d j = Inr (True, d')"
proof (cases "prepare_create uuid now j0")
  case (Inr j)
  have "\<exists>k c. insert_job flt k d j = Inr (c, d')"
    using assms Inr
    by (cases res) (auto simp: create_once_def in_tx_cases in_tx_def bindE_eq_Inr
        split: if_splits sum.splits prod.splits option.splits)
  then obtain k c where k: "insert_job flt k d j = Inr (c, d')" by blast
  with insert_job_cases [OF k] assms(2) Inr that show thesis by auto
qed (use assms in \<open>simp add: create_once_def\<close>)

lemma create_once_ok:
  assumes eq: "create_once flt uuid now d j0 = (res, d')" and "\<not> holds_slot j0" and ok: "queue_within n m lim d"
  shows "queue_within n m lim d'"
proof (cases "d' = d")
  case False
  with eq obtain j k where j: "prepare_create uuid now j0 = Inr j"
    and ins: "insert_job flt k d j = Inr (True, d')" by (rule create_once_effect)
  have d': "d' = d\<lparr>jobs_t := jobs_t d @ [new_row j]\<rparr>"
    using insert_job_cases [OF ins] by auto
  have "\<not> holds_slot (new_row j)"
    using assms(2) prepare_create_frame [OF j] by (simp add: holds_slot_def new_row_def)
  then show ?thesis
    using insert_job_ok [OF ins queue_withinD(1) [OF ok] prepare_create_lower [OF j]]
    unfolding d' by (intro queue_ok_append [OF ok]) auto
qed (use ok in simp)

lemma queue_ok_filter:
  assumes "queue_within n m lim d"
  shows "queue_within n m lim (d\<lparr>jobs_t := filter p (jobs_t d)\<rparr>)"
proof -
  have le: "count_where q (filter p xs) \<le> count_where q xs" for q and xs :: "job list"
    by (induction xs) auto
  note st = queue_withinD(1) [OF assms]
  have "store_ok (d\<lparr>jobs_t := filter p (jobs_t d)\<rparr>)"
    using store_okD [OF st] by (auto simp: store_ok_def distinct_map_filter)
  moreover have "int (slots (d\<lparr>jobs_t := filter p (jobs_t d)\<rparr>) u) \<le> normalize_concurrent (lim u) + int (n u)" for u
    using queue_withinD(2) [OF assms, of u] le [of "\<lambda>j. user_id j = u \<and> holds_slot j" "jobs_t d"]
    by (simp add: slots_def)
  moreover have "hash_slots (d\<lparr>jobs_t := filter p (jobs_t d)\<rparr>) h \<le> 1 + m h" for h
    using queue_withinD(3) [OF assms, of h] le [of "\<lambda>j. info_hash j = h \<and> holds_slot j" "jobs_t d"]
    by (simp add: hash_slots_def)
  ultimately show ?thesis by (simp add: queue_within_def)
qed

lemma delete_row_effect:
  "delete_row flt d i = (res, d') \<Longrightarrow> d' = d \<or> d' = d\<lparr>jobs_t := filter (\<lambda>x. jid x \<noteq> i) (jobs_t d)\<rparr>"
  by (auto simp: delete_row_def run_def Let_def split: option.splits sum.splits)

lemma delete_row_ok: "delete_row flt d i = (res, d') \<Longrightarrow> queue_within n m lim d \<Longrightarrow> queue_within n m lim d'"
  using delete_row_effect queue_ok_filter by blast

section \<open>The queue as a state machine\<close>

text \<open>
  One step is one transaction: an admission, a readmission, a promotion (each called with the
  owner's plan limit, \<open>lim\<close>), a row created without a slot (a cache hit), the write of a worker
  or a handler, one of the scheduler's and reporter's updates, a catalogue number put on the rows of a hash, or a deletion.
\<close>

inductive queue_step :: "(string \<Rightarrow> int) \<Rightarrow> db \<Rightarrow> db \<Rightarrow> bool" for lim where
  admit: "admit flt uuid now d j (lim (user_id j)) mq b = (res, d') \<Longrightarrow> queue_step lim d d'"
| readmit: "readmit flt now d0 d i mc mq b = (res, d') \<Longrightarrow>
    (\<And>r. r \<in> set (jobs_t d) \<Longrightarrow> jid r = i \<Longrightarrow> mc = lim (user_id r)) \<Longrightarrow> queue_step lim d d'"
| promote: "promote_queued flt now d0 d i mc b = (res, d') \<Longrightarrow>
    (\<And>r. r \<in> set (jobs_t d) \<Longrightarrow> jid r = i \<Longrightarrow> status r = StatusQueued \<Longrightarrow> mc = lim (user_id r)) \<Longrightarrow>
    queue_step lim d d'"
| create: "create_once flt uuid now d j = (res, d') \<Longrightarrow> \<not> holds_slot j \<Longrightarrow> queue_step lim d d'"
| worker: "update_job flt k now d j = (res, d') \<Longrightarrow> worker_write d j \<Longrightarrow> queue_step lim d d'"
| priority: "set_queued_priority flt now d i p = (res, d') \<Longrightarrow> queue_step lim d d'"
| fail: "fail_queued flt now d i reason = (res, d') \<Longrightarrow> queue_step lim d d'"
| progress: "set_progress flt d i pct sp = (res, d') \<Longrightarrow> queue_step lim d d'"
| remove: "delete_row flt d i = (res, d') \<Longrightarrow> queue_step lim d d'"
| label: "set_imdb flt d h v = (res, d') \<Longrightarrow> queue_step lim d d'"

inductive queue_reach :: "(string \<Rightarrow> int) \<Rightarrow> db \<Rightarrow> bool" for lim where
  start: "queue_reach lim \<lparr>jobs_t = []\<rparr>"
| step: "queue_reach lim d \<Longrightarrow> queue_step lim d d' \<Longrightarrow> queue_reach lim d'"

lemma queue_step_within: "queue_step lim d d' \<Longrightarrow> queue_within n m lim d \<Longrightarrow> queue_within n m lim d'"
proof (induction rule: queue_step.induct)
  case (admit flt uuid now d j mq b res d')
  then show ?case by (rule admit_queue_ok)
next
  case (readmit flt now d0 d i mc mq b res d')
  then show ?case using readmit_queue_ok by blast
next
  case (promote flt now d0 d i mc b res d')
  then show ?case using promote_queue_ok by blast
next
  case (create flt uuid now d j res d')
  then show ?case by (rule create_once_ok)
next
  case (worker flt k now d j res d')
  then show ?case by (rule update_job_ok)
next
  case (priority flt now d i p res d')
  then show ?case by (rule set_queued_priority_ok)
next
  case (fail flt now d i reason res d')
  then show ?case by (rule fail_queued_ok)
next
  case (progress flt d i pct sp res d')
  then show ?case by (rule set_progress_ok)
next
  case (remove flt d i res d')
  then show ?case by (rule delete_row_ok)
next
  case (label flt d h v res d')
  then show ?case by (rule set_imdb_ok)
qed

lemmas queue_step_ok = queue_step_within [where n = "\<lambda>_. 0" and m = "\<lambda>_. 0"]

lemma queue_ok_init: "queue_ok lim \<lparr>jobs_t = []\<rparr>"
  by (auto simp: queue_ok_def store_ok_def slots_def hash_slots_def normalize_concurrent_def)

lemma queue_reach_ok: "queue_reach lim d \<Longrightarrow> queue_ok lim d"
  by (induction rule: queue_reach.induct) (auto intro: queue_ok_init queue_step_ok)

section \<open>Runs with stale claims\<close>

text \<open>
  A write of a stale row can claim a slot that another transaction has given away meanwhile
  (\<open>ingest/cmd/process.go\<close> marks the row it read before it waited for its gate as downloading,
  though it may have been completed or cancelled since). A counted run takes any steps of the queue and any such
  writes, and counts the writes for each account and each hash.
\<close>

inductive queue_run :: "(string \<Rightarrow> int) \<Rightarrow> (string \<Rightarrow> nat) \<Rightarrow> (string \<Rightarrow> nat) \<Rightarrow> db \<Rightarrow> bool" for lim where
  start: "queue_run lim (\<lambda>_. 0) (\<lambda>_. 0) \<lparr>jobs_t = []\<rparr>"
| step: "queue_run lim n m d \<Longrightarrow> queue_step lim d d' \<Longrightarrow> queue_run lim n m d'"
| claim: "queue_run lim n m d \<Longrightarrow> update_job flt k now d j = (Inr (), d') \<Longrightarrow> keeps_hash d j \<Longrightarrow> \<not> worker_write d j
    \<Longrightarrow> queue_run lim (n(user_id j := Suc (n (user_id j)))) (m(info_hash j := Suc (m (info_hash j)))) d'"

lemma queue_reach_run: "queue_reach lim d \<Longrightarrow> queue_run lim (\<lambda>_. 0) (\<lambda>_. 0) d"
  by (induction rule: queue_reach.induct) (auto intro: queue_run.intros)

text \<open>One write adds at most one slot, to the account and the hash of the row it writes.\<close>

lemma count_where_upd_grow:
  assumes "distinct (map jid rows)" and "\<And>x. sel x \<Longrightarrow> jid x = i" and "\<And>x. q (f x) \<Longrightarrow> c"
  shows "count_where q (upd_where sel f rows) \<le> count_where q rows + (if c then 1 else 0)"
proof (cases c)
  case True
  have "count_where q (upd_where sel f rows) \<le> Suc (count_where q rows)"
    by (rule count_where_upd_one [where key = jid and k = i]) (use assms in auto)
  with True show ?thesis by simp
next
  case False
  then have "count_where q (upd_where sel f rows) \<le> count_where q rows"
    using assms(3) by (intro count_where_upd_le) blast
  then show ?thesis by simp
qed

lemma stale_claim_within:
  assumes up: "update_job flt k now d j = (res, d')" and kh: "keeps_hash d j" and ok: "queue_within n m lim d"
  shows "queue_within (n(user_id j := Suc (n (user_id j)))) (m(info_hash j := Suc (m (info_hash j)))) lim d'"
proof (cases "d' = d")
  case True
  show ?thesis
    unfolding queue_within_def True
  proof (intro conjI allI)
    note w = queue_withinD [OF ok]
    show "store_ok d" by (rule w(1))
    show "int (slots d u) \<le> normalize_concurrent (lim u) + int ((n(user_id j := Suc (n (user_id j)))) u)" for u
      using w(2) [of u] by (cases "u = user_id j") simp_all
    show "hash_slots d h \<le> 1 + (m(info_hash j := Suc (m (info_hash j)))) h" for h
      using w(3) [of h] by (cases "h = info_hash j") simp_all
  qed
next
  case False
  note e = update_job_effect [OF up False]
  note w = queue_withinD [OF ok]
  note dist = store_okD(1) [OF w(1)]
  have s: "store_ok d'"
    unfolding e(2)
  proof (rule store_ok_update [OF w(1), where i = "jid j"])
    show "\<not> live_conflict (jobs_t d) (updated_row now j x)" for x by (rule e(3))
  qed (use kh in \<open>auto simp: keeps_hash_def updated_row_def\<close>)
  have u: "slots d' u \<le> slots d u + (if u = user_id j then 1 else 0)" for u
  proof -
    have "count_where (\<lambda>x. user_id x = u \<and> holds_slot x) (upd_where (\<lambda>r. jid r = jid j) (updated_row now j) (jobs_t d))
        \<le> slots d u + (if u = user_id j then 1 else 0)"
      unfolding slots_def by (rule count_where_upd_grow [OF dist]) (auto simp: updated_row_def)
    then show ?thesis unfolding e(2) by (simp add: slots_def)
  qed
  have h: "hash_slots d' h \<le> hash_slots d h + (if h = info_hash j then 1 else 0)" for h
  proof -
    have "count_where (\<lambda>x. info_hash x = h \<and> holds_slot x) (upd_where (\<lambda>r. jid r = jid j) (updated_row now j) (jobs_t d))
        \<le> hash_slots d h + (if h = info_hash j then 1 else 0)"
      unfolding hash_slots_def by (rule count_where_upd_grow [OF dist]) (auto simp: updated_row_def)
    then show ?thesis unfolding e(2) by (simp add: hash_slots_def)
  qed
  show ?thesis
    unfolding queue_within_def
  proof (intro conjI allI)
    show "store_ok d'" by (rule s)
    show "int (slots d' u) \<le> normalize_concurrent (lim u) + int ((n(user_id j := Suc (n (user_id j)))) u)" for u
      using w(2) [of u] u [of u] by (cases "u = user_id j") simp_all
    show "hash_slots d' h \<le> 1 + (m(info_hash j := Suc (m (info_hash j)))) h" for h
      using w(3) [of h] h [of h] by (cases "h = info_hash j") simp_all
  qed
qed

lemma queue_run_within: "queue_run lim n m d \<Longrightarrow> queue_within n m lim d"
proof (induction rule: queue_run.induct)
  case start
  show ?case by (rule queue_ok_init)
next
  case (step n m d d')
  then show ?case using queue_step_within by blast
next
  case (claim n m d flt k now j d')
  then show ?case using stale_claim_within by blast
qed

section \<open>Properties\<close>

text \<open>
  C1: in every table the queue's operations can produce, whatever fails and however the
  transactions interleave with the workers' writes, an account has at most as many jobs in flight
  as the plan allows (at least one) plus the number of writes that claimed one of its slots anew
  from a stale row, and at most one row of a hash consumes a download slot, plus the number of such
  writes for the hash. Where no write was stale the limits are exact: the plan's limit, and no two
  rows downloading one hash. A write is taken to keep the hash of the row it writes.
\<close>

theorem queue_slots_bounded:
  assumes "queue_run lim n m d"
  shows "inflight_count d u \<le> normalize_concurrent (lim u) + int (n u) \<and>
    count_where (\<lambda>j. consumes_download_slot (Some j) \<and> to_lower (info_hash j) = h) (jobs_t d) \<le> 1 + m h"
proof (intro conjI)
  note w = queue_withinD [OF queue_run_within [OF assms]]
  show "inflight_count d u \<le> normalize_concurrent (lim u) + int (n u)"
    using w(2) by (simp add: inflight_slots)
  have "count_where (\<lambda>j. consumes_download_slot (Some j) \<and> to_lower (info_hash j) = h) (jobs_t d) = hash_slots d h"
    unfolding hash_slots_def
    by (rule count_where_cong) (use store_okD(2) [OF w(1)] consumes_slot_iff in auto)
  with w(3) show "count_where (\<lambda>j. consumes_download_slot (Some j) \<and> to_lower (info_hash j) = h) (jobs_t d) \<le> 1 + m h"
    by simp
qed

definition sample_job :: job where
  "sample_job = \<lparr>jid = ''j1'', user_id = ''u'', info_hash = ''AB'', jname = ''film'', magnet = [],
     source = SourceTorrent, status = StatusComplete, seed = False, budget_gated = True, input_key = [],
     jerror = [], files = [], selected_idxs = [], imdb_id = [], season = 0, episode = 0,
     file_size = 7, max_bytes = 9, priority = 1, progress = 0, speed = 0, node = [],
     created_at = 0, updated_at = 0,
     access_count = 0, last_accessed = None\<rparr>"

lemmas queue_eval = admit_def prepare_create_def must_queue_tx_def insert_job_def live_account_job_def
  live_conflict_def same_live_key_def has_live_user_identity_def queued_count_def inflight_count_def
  active_hash_def budget_queue_exists_def budget_used_def normalize_concurrent_def
  initial_budget_headroom_def concurrency_statuses_def budget_statuses_def sample_job_def Let_def
  to_lower_def trim_space_def trim_left_def trim_right_def is_space_def lower_char_def in_range_def
  code_of_def char_of_def bit_0 new_row_def

definition sample_db :: db where
  "sample_db = snd (admit no_faults (Inl UUIDError) 5 \<lparr>jobs_t = []\<rparr> sample_job 1 100 2000000000)"

lemma sample_db_eq: "sample_db = \<lparr>jobs_t =
    [sample_job\<lparr>info_hash := ''ab'', status := StatusPending, created_at := 5, updated_at := 5\<rparr>]\<rparr>"
  by (simp add: sample_db_def queue_eval)

lemma sample_reach: "queue_reach (\<lambda>_. 1) sample_db"
proof (rule queue_reach.step [OF queue_reach.start queue_step.admit])
  show "admit no_faults (Inl UUIDError) 5 \<lparr>jobs_t = []\<rparr> sample_job ((\<lambda>_. 1) (user_id sample_job))
      100 2000000000 = (fst (admit no_faults (Inl UUIDError) 5 \<lparr>jobs_t = []\<rparr> sample_job 1 100 2000000000), sample_db)"
    by (simp add: sample_db_def)
qed

text \<open>
  A run in which the bound is attained: the worker's job is completed, the freed slot is taken by
  a second job, and the worker then marks the row it had read as downloading.
\<close>

definition second_job :: job where
  "second_job = sample_job\<lparr>jid := ''j2'', info_hash := ''cd''\<rparr>"

definition first_row :: job where
  "first_row = sample_job\<lparr>info_hash := ''ab'', status := StatusPending, created_at := 5, updated_at := 5\<rparr>"

definition done_db :: db where
  "done_db = snd (update_job no_faults 0 6 sample_db (first_row\<lparr>status := StatusComplete\<rparr>))"

definition refilled_db :: db where
  "refilled_db = snd (admit no_faults (Inl UUIDError) 7 done_db second_job 1 100 2000000000)"

definition stale_db :: db where
  "stale_db = snd (update_job no_faults 0 8 refilled_db (first_row\<lparr>status := StatusDownloading\<rparr>))"

lemmas stale_eval = queue_eval update_job_def updated_row_def first_row_def second_job_def

lemma done_db_eq: "done_db = \<lparr>jobs_t = [first_row\<lparr>status := StatusComplete, updated_at := 6\<rparr>]\<rparr>"
  by (simp add: done_db_def sample_db_eq stale_eval)

lemma refilled_db_eq: "refilled_db = \<lparr>jobs_t = [first_row\<lparr>status := StatusComplete, updated_at := 6\<rparr>,
    second_job\<lparr>status := StatusPending, created_at := 7, updated_at := 7\<rparr>]\<rparr>"
  by (simp add: refilled_db_def done_db_eq stale_eval)

lemma stale_db_eq: "stale_db = \<lparr>jobs_t = [first_row\<lparr>status := StatusDownloading, updated_at := 8\<rparr>,
    second_job\<lparr>status := StatusPending, created_at := 7, updated_at := 7\<rparr>]\<rparr>"
  by (simp add: stale_db_def refilled_db_eq stale_eval)

lemma stale_run: "queue_run (\<lambda>_. 1) ((\<lambda>_. 0)(''u'' := Suc 0)) ((\<lambda>_. 0)(''ab'' := Suc 0)) stale_db"
proof -
  have u: "user_id (first_row\<lparr>status := s\<rparr>) = ''u''" "info_hash (first_row\<lparr>status := s\<rparr>) = ''ab''" for s
    by (simp_all add: first_row_def sample_job_def)
  have "queue_run (\<lambda>_. 1) (\<lambda>_. 0) (\<lambda>_. 0) sample_db" by (rule queue_reach_run [OF sample_reach])
  moreover have "queue_step (\<lambda>_. 1) sample_db done_db"
    unfolding done_db_def
    by (rule queue_step.worker [OF prod.collapse [symmetric]])
      (simp add: worker_write_def sample_db_eq first_row_def sample_job_def holds_slot_def concurrency_statuses_def)
  moreover have "queue_step (\<lambda>_. 1) done_db refilled_db"
    unfolding refilled_db_def
    by (rule queue_step.admit [where lim = "\<lambda>_. 1", OF prod.collapse [symmetric]])
  ultimately have r: "queue_run (\<lambda>_. 1) (\<lambda>_. 0) (\<lambda>_. 0) refilled_db" by (blast intro: queue_run.step)
  have e: "update_job no_faults 0 8 refilled_db (first_row\<lparr>status := StatusDownloading\<rparr>) = (Inr (), stale_db)"
    by (simp add: stale_db_eq refilled_db_eq stale_eval)
  have k: "keeps_hash refilled_db (first_row\<lparr>status := StatusDownloading\<rparr>)"
      "\<not> worker_write refilled_db (first_row\<lparr>status := StatusDownloading\<rparr>)"
    by (simp_all add: keeps_hash_def worker_write_def refilled_db_eq first_row_def second_job_def sample_job_def holds_slot_def
        concurrency_statuses_def)
  from queue_run.claim [OF r e k] show ?thesis by (simp add: u)
qed

theorem queue_slots_bounded_witness:
  "inflight_count sample_db ''u'' \<le> normalize_concurrent 1 \<and> inflight_count sample_db ''u'' = 1 \<and>
   inflight_count stale_db ''u'' \<le> normalize_concurrent 1 + 1 \<and> inflight_count stale_db ''u'' = 2"
proof -
  have "inflight_count sample_db ''u'' \<le> normalize_concurrent ((\<lambda>_. 1) ''u'') + int ((\<lambda>_. 0) ''u'')"
    using queue_slots_bounded [OF queue_reach_run [OF sample_reach], of "''u''" "''ab''"] by (rule conjunct1)
  moreover have "inflight_count stale_db ''u'' \<le> normalize_concurrent ((\<lambda>_. 1) ''u'') + int (((\<lambda>_. 0)(''u'' := Suc 0)) ''u'')"
    using queue_slots_bounded [OF stale_run, of "''u''" "''ab''"] by (rule conjunct1)
  ultimately show ?thesis by (simp add: sample_db_eq stale_db_eq stale_eval)
qed

text \<open>
  C32: the complete behaviour of \<open>Admit\<close> when no statement fails: a replay returns the account's
  live row and changes nothing, even when the queue is full; otherwise the job queues behind
  older work, a full plan, a busy hash or a short budget, is refused when the queue is full, and
  else becomes a new pending or queued row.
\<close>

theorem admit_spec:
  assumes "prepare_create uuid now j0 = Inr j" and "jid j \<notin> jid ` set (jobs_t d)"
  shows "admit no_faults uuid now d j0 mc mq b =
    (case live_account_job d j of
       Some e \<Rightarrow> (Inr (AdmissionExisting, e), d)
     | None \<Rightarrow>
       let q = must_queue d '''' j mc b; j1 = j\<lparr>status := admitted_status q\<rparr> in
       if q \<and> mq > 0 \<and> queued_count d (user_id j) '''' \<ge> mq then (Inl ErrQueueFull, d)
       else (Inr (admission_of q, j1),
             \<lparr>jobs_t = jobs_t d @ [new_row j1]\<rparr>))"
proof (cases "live_account_job d j")
  case (Some e)
  with assms show ?thesis by (simp add: admit_def)
next
  case None
  let ?q = "must_queue d '''' j mc b"
  let ?j1 = "j\<lparr>status := admitted_status ?q\<rparr>"
  have "live_account_job d ?j1 = live_account_job d j"
    by (simp add: live_account_job_def)
  with None have "live_account_job d ?j1 = None" by simp
  have nc: "\<not> live_conflict (jobs_t d) ?j1"
  proof (cases "has_live_user_identity ?j1")
    case True
    with \<open>live_account_job d ?j1 = None\<close> show ?thesis by (rule live_account_job_None)
  next
    case False
    then show ?thesis by (simp add: live_conflict_def same_live_key_def list_ex_iff)
  qed
  have dup: "\<not> list_ex (\<lambda>r. jid r = jid ?j1) (jobs_t d)"
    using assms(2) by (auto simp: list_ex_iff dest: notin_imageD)
  have st: "(if ?q then StatusQueued else StatusPending) = admitted_status ?q"
    by (simp add: admitted_status_def)
  have "insert_job no_faults 11 d ?j1 = Inr (True, \<lparr>jobs_t = jobs_t d @ [new_row ?j1]\<rparr>)"
    using nc dup by (simp add: insert_job_def)
  with None assms(1) show ?thesis
    by (simp add: admit_def Let_def st admission_of_def)
qed

theorem admit_spec_witness:
  "admit no_faults (Inl UUIDError) 5 \<lparr>jobs_t = []\<rparr> sample_job 1 100 2000000000 =
     (Inr (AdmissionAdmitted, sample_job\<lparr>info_hash := ''ab'', status := StatusPending, created_at := 5, updated_at := 5\<rparr>),
      sample_db)"
proof -
  let ?j = "sample_job\<lparr>info_hash := ''ab'', created_at := 5, updated_at := 5\<rparr>"
  have p: "prepare_create (Inl UUIDError) 5 sample_job = Inr ?j"
    by (simp add: queue_eval)
  show ?thesis
    by (subst admit_spec [OF p]) (simp_all add: sample_db_eq must_queue_def admission_of_def queue_eval)
qed

text \<open>
  Whichever statement fails, a transaction that returns an error has changed nothing, and
  so has one that reports an existing row or promotes nothing.
\<close>

theorem failed_transactions_change_nothing:
  "(snd (admit flt uuid now d j mc mq b) = d
      \<or> (\<exists>q j'. fst (admit flt uuid now d j mc mq b) = Inr (admission_of q, j')))
   \<and> (snd (readmit flt now d0 d i mc mq b) = d
      \<or> (\<exists>q j'. fst (readmit flt now d0 d i mc mq b) = Inr (admission_of q, j')))
   \<and> (snd (promote_queued flt now d0 d i mc b) = d
      \<or> (\<exists>j'. fst (promote_queued flt now d0 d i mc b) = Inr (Some j')))"
proof (intro conjI)
  obtain res d' where "admit flt uuid now d j mc mq b = (res, d')" by fastforce
  with admit_effect [OF this] show "snd (admit flt uuid now d j mc mq b) = d
      \<or> (\<exists>q j'. fst (admit flt uuid now d j mc mq b) = Inr (admission_of q, j'))"
    unfolding Let_def by auto
next
  obtain res d' where "readmit flt now d0 d i mc mq b = (res, d')" by fastforce
  with readmit_effect [OF this] show "snd (readmit flt now d0 d i mc mq b) = d
      \<or> (\<exists>q j'. fst (readmit flt now d0 d i mc mq b) = Inr (admission_of q, j'))"
    unfolding Let_def by auto
next
  obtain res d' where "promote_queued flt now d0 d i mc b = (res, d')" by fastforce
  with promote_effect [OF this] show "snd (promote_queued flt now d0 d i mc b) = d
      \<or> (\<exists>j'. fst (promote_queued flt now d0 d i mc b) = Inr (Some j'))"
    by auto
qed

text \<open>
  C27: promotion is fair: a job leaves the queue only when its user has a free slot, no other row
  downloads its hash, the budget leaves the promotion headroom, and every queued job of the same
  user that stands before it (higher priority, then earlier, then smaller id) waits for a hash
  that another row is downloading.
\<close>

theorem promote_fifo:
  assumes "promote_queued flt now d0 d i mc b = (Inr (Some j'), d')"
  shows "\<exists>r\<in>set (jobs_t d). jid r = i \<and> status r = StatusQueued \<and> j' = promoted_row now r
     \<and> inflight_count d (user_id r) < normalize_concurrent mc \<and> \<not> same_hash_busy d r
     \<and> (budget_gated r \<longrightarrow> promote_budget_headroom \<le> b - budget_used d)
     \<and> (\<forall>q\<in>set (jobs_t d). user_id q = user_id r \<and> status q = StatusQueued \<and> jid q \<noteq> i
          \<and> queue_before q r \<longrightarrow> same_hash_busy d q)"
proof -
  have *: "\<exists>r. r \<in> set (jobs_t d) \<and> jid r = i \<and> status r = StatusQueued
     \<and> inflight_count d (user_id r) < normalize_concurrent mc
     \<and> \<not> older_exists d r \<and> \<not> same_hash_busy d r
     \<and> (budget_gated r \<longrightarrow> promote_budget_headroom \<le> b - budget_used d) \<and> j' = promoted_row now r"
    using promoted_Some [OF assms] by blast
  then obtain r where r: "r \<in> set (jobs_t d)" "jid r = i" "status r = StatusQueued"
     "inflight_count d (user_id r) < normalize_concurrent mc" "\<not> older_exists d r"
     "\<not> same_hash_busy d r" "budget_gated r \<longrightarrow> promote_budget_headroom \<le> b - budget_used d"
     "j' = promoted_row now r"
    by blast
  then have "\<forall>q\<in>set (jobs_t d). user_id q = user_id r \<and> status q = StatusQueued \<and> jid q \<noteq> i
      \<and> queue_before q r \<longrightarrow> same_hash_busy d q"
    by (auto simp: older_exists_def same_hash_busy_def list_ex_iff)
  with r show ?thesis by blast
qed

definition queued_db :: db where
  "queued_db = \<lparr>jobs_t = [sample_job\<lparr>status := StatusQueued\<rparr>]\<rparr>"

theorem promote_fifo_witness:
  "\<exists>r\<in>set (jobs_t queued_db). jid r = ''j1'' \<and> status r = StatusQueued
     \<and> promoted_row 9 (sample_job\<lparr>status := StatusQueued\<rparr>) = promoted_row 9 r"
proof -
  have "promote_queued no_faults 9 queued_db queued_db ''j1'' 1 6000000000 =
     (Inr (Some (promoted_row 9 (sample_job\<lparr>status := StatusQueued\<rparr>))),
      \<lparr>jobs_t = [promoted_row 9 (sample_job\<lparr>status := StatusQueued\<rparr>)]\<rparr>)"
    by (simp add: promote_queued_def queued_db_def get_job_def not_found_def older_exists_def
        same_hash_busy_def promote_budget_headroom_def queue_eval)
  from promote_fifo [OF this] show ?thesis by blast
qed

end
