(* ===== verification/Wallet.thy ===== *)
theory Wallet
  imports Prelude
begin

text \<open>
  The prepaid wallet of \<open>shared/auth/wallet.go\<close>: a balance per user, an append-only ledger whose
  references are unique, and the two transactions that move money, \<open>move\<close> (behind \<open>Credit\<close> and
  \<open>Debit\<close>) and \<open>WalletBuyPlan\<close>, which also rewrites the user's plan. The first statement of both
  locks the wallet row, so the transactions of a user run one after the other. The row of a user has
  the columns of \<open>auth.User\<close> (\<open>shared/auth/user.go\<close>) and the two referral columns. Times are whole
  seconds, a zero or NULL time is \<open>None\<close>; the audit log is written and never read here, and is not
  modelled.
\<close>

section \<open>Rows\<close>

record user =
  u_id :: string
  email :: string
  api_key :: string
  u_plan :: string
  subscription_id :: string
  license_key :: string
  recurrence :: string
  expires_at :: int
  paused_at :: "int option"
  remaining_days :: int
  pause_count :: int
  last_paused_at :: "int option"
  banned :: bool
  ban_reason :: string
  u_created :: int
  u_updated :: int
  seed_slot_packs :: int
  seed_slot_sub :: string
  system_indexer_enabled :: bool
  totp_enabled :: bool
  usenet_streaming :: bool
  referral_code :: string
  referred_by :: string

definition is_paused :: "user \<Rightarrow> bool" where
  "is_paused u \<longleftrightarrow> paused_at u \<noteq> None"

record wallet_row =
  w_user :: string
  w_balance :: int

record ledger_row =
  l_user :: string
  l_delta :: int
  l_reason :: string
  l_ref :: string
  l_after :: int
  l_created :: int

record sale =
  sale_id :: string
  sale_user :: string
  sale_cents :: int
  sale_currency :: string

record referral =
  referrer :: string
  referee :: string
  ref_paid :: bool

record auth_db =
  wallets :: "wallet_row list"
  ledger :: "ledger_row list"
  users :: "user list"
  sales :: "sale list"
  referrals :: "referral list"
  deleted_emails :: "string list"

datatype auth_error = AuthDBError string | AuthNotFound | AuthRefused string

section \<open>Statements\<close>

definition balance_of :: "auth_db \<Rightarrow> string \<Rightarrow> int" where
  "balance_of d u = (case find (\<lambda>w. w_user w = u) (wallets d) of Some w \<Rightarrow> w_balance w | None \<Rightarrow> 0)"

text \<open>\<open>INSERT INTO wallets (user_id) ... ON CONFLICT DO UPDATE SET balance_cents = wallets.balance_cents\<close>.\<close>

definition ensure_wallet :: "auth_db \<Rightarrow> string \<Rightarrow> auth_db" where
  "ensure_wallet d u = (if list_ex (\<lambda>w. w_user w = u) (wallets d) then d
     else d\<lparr>wallets := wallets d @ [\<lparr>w_user = u, w_balance = 0\<rparr>]\<rparr>)"

definition has_ref :: "auth_db \<Rightarrow> string \<Rightarrow> bool" where
  "has_ref d r = list_ex (\<lambda>l. l_ref l = r) (ledger d)"

definition set_balance :: "auth_db \<Rightarrow> string \<Rightarrow> int \<Rightarrow> auth_db" where
  "set_balance d u b = d\<lparr>wallets := upd_where (\<lambda>w. w_user w = u) (\<lambda>w. w\<lparr>w_balance := b\<rparr>) (wallets d)\<rparr>"

definition add_entry :: "auth_db \<Rightarrow> ledger_row \<Rightarrow> auth_db" where
  "add_entry d l = d\<lparr>ledger := ledger d @ [l]\<rparr>"

section \<open>Operations\<close>

definition wallet_balance :: "auth_error faults \<Rightarrow> auth_db \<Rightarrow> string \<Rightarrow> auth_error + int" where
  "wallet_balance flt d u = run flt 0 (balance_of d u)"

definition move :: "auth_error faults \<Rightarrow> int \<Rightarrow> auth_db \<Rightarrow> string \<Rightarrow> int \<Rightarrow> string \<Rightarrow> string \<Rightarrow> bool
    \<Rightarrow> (auth_error + bool) \<times> auth_db" where
  "move flt now d u delta reason ref guard = in_tx d
     (bindE (run flt 0 ()) (\<lambda>_.
      bindE (run flt 1 (balance_of d u)) (\<lambda>bal.
      let d1 = ensure_wallet d u; new_bal = wrap64 (bal + delta) in
      if guard \<and> new_bal < 0 then Inr (False, d) else
      bindE (run flt 2 (has_ref d1 ref)) (\<lambda>dup.
      if dup then bindE (run flt 3 ()) (\<lambda>_. Inr (True, d1)) else
      let d2 = add_entry d1 \<lparr>l_user = u, l_delta = delta, l_reason = reason, l_ref = ref,
                              l_after = new_bal, l_created = now\<rparr> in
      bindE (run flt 3 ()) (\<lambda>_.
      bindE (run flt 4 ()) (\<lambda>_. Inr (True, set_balance d2 u new_bal)))))))"

definition credit :: "auth_error faults \<Rightarrow> int \<Rightarrow> auth_db \<Rightarrow> string \<Rightarrow> int \<Rightarrow> string \<Rightarrow> string
    \<Rightarrow> (auth_error + unit) \<times> auth_db" where
  "credit flt now d u cents reason ref =
     (case move flt now d u cents reason ref False of
        (Inl e, d') \<Rightarrow> (Inl e, d') | (Inr _, d') \<Rightarrow> (Inr (), d'))"

definition debit :: "auth_error faults \<Rightarrow> int \<Rightarrow> auth_db \<Rightarrow> string \<Rightarrow> int \<Rightarrow> string \<Rightarrow> string
    \<Rightarrow> (auth_error + bool) \<times> auth_db" where
  "debit flt now d u cents reason ref = move flt now d u (wrap64 (- cents)) reason ref True"

record purchase =
  b_cents :: int
  b_reason :: string
  b_ref :: string
  b_plan :: string
  b_sub :: string
  b_license :: string
  b_recurrence :: string
  b_expires :: int

text \<open>The columns that \<open>UpdatePlan\<close> and \<open>WalletBuyPlan\<close> set.\<close>

definition planned_row :: "int \<Rightarrow> string \<Rightarrow> string \<Rightarrow> string \<Rightarrow> string \<Rightarrow> int \<Rightarrow> user \<Rightarrow> user" where
  "planned_row now pid sub lic recur ex u =
     u\<lparr>u_plan := pid, subscription_id := sub, license_key := lic, recurrence := recur, expires_at := ex,
       paused_at := None, remaining_days := 0, pause_count := 0, u_updated := now\<rparr>"

definition set_plan :: "int \<Rightarrow> string \<Rightarrow> string \<Rightarrow> string \<Rightarrow> string \<Rightarrow> string \<Rightarrow> int \<Rightarrow> auth_db \<Rightarrow> auth_db" where
  "set_plan now u pid sub lic recur ex d =
     d\<lparr>users := upd_where (\<lambda>r. u_id r = u) (planned_row now pid sub lic recur ex) (users d)\<rparr>"

definition wallet_buy_plan :: "auth_error faults \<Rightarrow> int \<Rightarrow> auth_db \<Rightarrow> string \<Rightarrow> purchase
    \<Rightarrow> (auth_error + bool \<times> bool) \<times> auth_db" where
  "wallet_buy_plan flt now d u b = in_tx d
     (bindE (run flt 0 ()) (\<lambda>_.
      bindE (run flt 1 (balance_of d u)) (\<lambda>bal.
      let d1 = ensure_wallet d u; new_bal = wrap64 (bal - b_cents b) in
      if new_bal < 0 then Inr ((False, False), d) else
      bindE (run flt 2 (has_ref d1 (b_ref b))) (\<lambda>dup.
      if dup then bindE (run flt 3 ()) (\<lambda>_. Inr ((True, False), d1)) else
      let d2 = add_entry d1 \<lparr>l_user = u, l_delta = wrap64 (- b_cents b), l_reason = b_reason b, l_ref = b_ref b,
                              l_after = new_bal, l_created = now\<rparr> in
      bindE (run flt 3 ()) (\<lambda>_.
      bindE (run flt 4 ()) (\<lambda>_.
      bindE (run flt 5 ()) (\<lambda>_.
      Inr ((True, True), set_plan now u (b_plan b) (b_sub b) (b_license b) (b_recurrence b) (b_expires b)
             (set_balance d2 u new_bal)))))))))"

definition wallet_recurring_due :: "int \<Rightarrow> auth_db \<Rightarrow> user list" where
  "wallet_recurring_due now d = filter (\<lambda>u. take 7 (subscription_id u) = ''wallet:'' \<and> u_plan u \<noteq> ''free''
     \<and> recurrence u \<notin> {''lifetime'', []} \<and> expires_at u < now + 86400) (users d)"

text \<open>Newest first; a stable sort stands for the unspecified order of equal times.\<close>

definition wallet_history :: "auth_db \<Rightarrow> string \<Rightarrow> int \<Rightarrow> ledger_row list" where
  "wallet_history d u limit =
     take (nat (if limit \<le> 0 \<or> limit > 200 then 50 else limit))
       (sort_key (\<lambda>l. - l_created l) (filter (\<lambda>l. l_user l = u) (ledger d)))"

section \<open>The ledger invariant\<close>

text \<open>The sum of a user's ledger entries.\<close>

definition ledger_sum :: "auth_db \<Rightarrow> string \<Rightarrow> int" where
  "ledger_sum d u = sum_where (\<lambda>l. l_user l = u) l_delta (ledger d)"

text \<open>
  One wallet per user, no reference booked twice, every balance the (64-bit) sum of its ledger, and
  every entry records the balance it left behind.
\<close>

definition wallet_ok :: "auth_db \<Rightarrow> bool" where
  "wallet_ok d \<longleftrightarrow> distinct (map w_user (wallets d)) \<and> distinct (map l_ref (ledger d))
     \<and> (\<forall>u. balance_of d u = wrap64 (ledger_sum d u))"

lemma wrap64_add [simp]: "wrap64 (wrap64 a + b) = wrap64 (a + b)" "wrap64 (a + wrap64 b) = wrap64 (a + b)"
  unfolding wrap64_def by (simp_all add: mod_simps algebra_simps)

lemma find_upd_where_key:
  assumes "\<And>r. key (f r) = key r"
  shows "find (\<lambda>r. key r = k) (upd_where (\<lambda>r. key r = k') f rs) =
     (if k = k' then map_option f (find (\<lambda>r. key r = k) rs) else find (\<lambda>r. key r = k) rs)"
  using assms by (induction rs) auto

lemma find_append: "find p (xs @ ys) = (case find p xs of None \<Rightarrow> find p ys | Some x \<Rightarrow> Some x)"
  by (induction xs) auto

lemma find_None_ex: "find p xs = None \<longleftrightarrow> \<not> list_ex p xs"
  by (induction xs) auto

lemma ensure_wallet_simps [simp]:
  "ledger (ensure_wallet d u) = ledger d" "users (ensure_wallet d u) = users d"
  "sales (ensure_wallet d u) = sales d" "referrals (ensure_wallet d u) = referrals d"
  "balance_of (ensure_wallet d u) v = balance_of d v"
  by (auto simp: ensure_wallet_def balance_of_def find_append find_None_ex list_ex_iff
      dest!: find_Some_mem split: option.splits)

lemma ensure_wallet_member [simp]: "list_ex (\<lambda>w. w_user w = u) (wallets (ensure_wallet d u))"
  by (simp add: ensure_wallet_def)

lemma ensure_wallet_distinct:
  "distinct (map w_user (wallets d)) \<Longrightarrow> distinct (map w_user (wallets (ensure_wallet d u)))"
  by (auto simp: ensure_wallet_def list_ex_iff)

lemma balance_of_set:
  assumes "list_ex (\<lambda>w. w_user w = u) (wallets d)"
  shows "balance_of (set_balance d u b) v = (if v = u then b else balance_of d v)"
proof (cases "v = u")
  case True
  have "find (\<lambda>w. w_user w = u) (wallets d) \<noteq> None" using assms by (simp add: find_None_ex)
  with True show ?thesis by (auto simp: balance_of_def set_balance_def find_upd_where_key)
next
  case False
  then show ?thesis by (auto simp: balance_of_def set_balance_def find_upd_where_key split: option.splits)
qed

text \<open>Booking a delta: what both transactions do when the reference is new.\<close>

definition book :: "auth_db \<Rightarrow> ledger_row \<Rightarrow> auth_db" where
  "book d l = set_balance (add_entry (ensure_wallet d (l_user l)) l) (l_user l) (l_after l)"

lemma book_simps [simp]:
  "ledger (book d l) = ledger d @ [l]" "users (book d l) = users d"
  "sales (book d l) = sales d" "referrals (book d l) = referrals d"
  "balance_of (book d l) v = (if v = l_user l then l_after l else balance_of d v)"
proof -
  show "balance_of (book d l) v = (if v = l_user l then l_after l else balance_of d v)"
  proof -
    have "list_ex (\<lambda>w. w_user w = l_user l) (wallets (add_entry (ensure_wallet d (l_user l)) l))"
      by (simp add: add_entry_def)
    moreover have "balance_of (add_entry (ensure_wallet d (l_user l)) l) v = balance_of d v"
      using ensure_wallet_simps(5) [of d "l_user l" v] by (simp add: add_entry_def balance_of_def)
    ultimately show ?thesis unfolding book_def by (simp add: balance_of_set)
  qed
qed (simp_all add: book_def set_balance_def add_entry_def)

lemma wallet_ok_ensure: "wallet_ok d \<Longrightarrow> wallet_ok (ensure_wallet d u)"
  by (simp add: wallet_ok_def ensure_wallet_distinct ledger_sum_def)

lemma wallet_ok_book:
  assumes "wallet_ok d" and "\<not> has_ref d (l_ref l)" and "l_after l = wrap64 (balance_of d (l_user l) + l_delta l)"
  shows "wallet_ok (book d l)"
  unfolding wallet_ok_def
proof (intro conjI allI)
  show "distinct (map w_user (wallets (book d l)))"
    using ensure_wallet_distinct [of d "l_user l"] assms(1)
    by (simp add: book_def set_balance_def add_entry_def wallet_ok_def map_upd_where)
  show "distinct (map l_ref (ledger (book d l)))"
    using assms(1,2) by (auto simp: wallet_ok_def has_ref_def list_ex_iff)
  show "balance_of (book d l) u = wrap64 (ledger_sum (book d l) u)" for u
    using assms(1,3) by (simp add: wallet_ok_def ledger_sum_def sum_where_append)
qed

lemma wallet_ok_set_plan [simp]: "wallet_ok (set_plan now u pid sub lic recur ex d) = wallet_ok d"
  by (simp add: wallet_ok_def set_plan_def balance_of_def ledger_sum_def)

section \<open>What the transactions do\<close>

text \<open>Every way \<open>move\<close> can end, and likewise for \<open>WalletBuyPlan\<close>.\<close>

definition move_entry :: "int \<Rightarrow> auth_db \<Rightarrow> string \<Rightarrow> int \<Rightarrow> string \<Rightarrow> string \<Rightarrow> ledger_row" where
  "move_entry now d u delta reason ref = \<lparr>l_user = u, l_delta = delta, l_reason = reason, l_ref = ref,
     l_after = wrap64 (balance_of d u + delta), l_created = now\<rparr>"

lemma move_entry_simps [simp]:
  "l_user (move_entry now d u delta reason ref) = u" "l_delta (move_entry now d u delta reason ref) = delta"
  "l_ref (move_entry now d u delta reason ref) = ref"
  "l_after (move_entry now d u delta reason ref) = wrap64 (balance_of d u + delta)"
  by (simp_all add: move_entry_def)

lemma has_ref_ensure [simp]: "has_ref (ensure_wallet d u) r = has_ref d r"
  by (simp add: has_ref_def)

lemma move_cases:
  assumes m: "m = move flt now d u delta reason ref guard"
  shows "(\<exists>e. m = (Inl e, d) \<and> flt \<noteq> no_faults)
   \<or> m = (Inr False, d) \<and> guard \<and> wrap64 (balance_of d u + delta) < 0
   \<or> m = (Inr True, ensure_wallet d u) \<and> has_ref d ref \<and> \<not> (guard \<and> wrap64 (balance_of d u + delta) < 0)
   \<or> m = (Inr True, book d (move_entry now d u delta reason ref)) \<and> \<not> has_ref d ref
       \<and> \<not> (guard \<and> wrap64 (balance_of d u + delta) < 0)"
proof (cases "flt 0 = None \<and> flt 1 = None")
  case False
  then show ?thesis by (cases "flt 0"; cases "flt 1") (auto simp: m move_def run_def no_faults_def)
next
  case True
  then have r: "m = in_tx d (if guard \<and> wrap64 (balance_of d u + delta) < 0 then Inr (False, d) else
      bindE (run flt 2 (has_ref d ref)) (\<lambda>dup.
      if dup then bindE (run flt 3 ()) (\<lambda>_. Inr (True, ensure_wallet d u)) else
      bindE (run flt 3 ()) (\<lambda>_.
      bindE (run flt 4 ()) (\<lambda>_. Inr (True, book d (move_entry now d u delta reason ref))))))"
    by (simp add: m move_def run_def Let_def book_def move_entry_def cong: if_cong option.case_cong)
  show ?thesis
    unfolding r
    by (cases "has_ref d ref"; cases "flt 2"; cases "flt 3"; cases "flt 4") (auto simp: run_def no_faults_def)
qed

definition buy_entry :: "int \<Rightarrow> auth_db \<Rightarrow> string \<Rightarrow> purchase \<Rightarrow> ledger_row" where
  "buy_entry now d u b = \<lparr>l_user = u, l_delta = wrap64 (- b_cents b), l_reason = b_reason b, l_ref = b_ref b,
     l_after = wrap64 (balance_of d u - b_cents b), l_created = now\<rparr>"

definition bought :: "int \<Rightarrow> auth_db \<Rightarrow> string \<Rightarrow> purchase \<Rightarrow> auth_db" where
  "bought now d u b = set_plan now u (b_plan b) (b_sub b) (b_license b) (b_recurrence b) (b_expires b)
     (book d (buy_entry now d u b))"

lemma buy_cases:
  assumes m: "m = wallet_buy_plan flt now d u b"
  shows "(\<exists>e. m = (Inl e, d) \<and> flt \<noteq> no_faults)
   \<or> m = (Inr (False, False), d) \<and> wrap64 (balance_of d u - b_cents b) < 0
   \<or> m = (Inr (True, False), ensure_wallet d u) \<and> has_ref d (b_ref b) \<and> 0 \<le> wrap64 (balance_of d u - b_cents b)
   \<or> m = (Inr (True, True), bought now d u b) \<and> \<not> has_ref d (b_ref b) \<and> 0 \<le> wrap64 (balance_of d u - b_cents b)"
proof (cases "flt 0 = None \<and> flt 1 = None")
  case False
  then show ?thesis by (cases "flt 0"; cases "flt 1") (auto simp: m wallet_buy_plan_def run_def no_faults_def)
next
  case True
  then have r: "m = in_tx d (if wrap64 (balance_of d u - b_cents b) < 0 then Inr ((False, False), d) else
      bindE (run flt 2 (has_ref d (b_ref b))) (\<lambda>dup.
      if dup then bindE (run flt 3 ()) (\<lambda>_. Inr ((True, False), ensure_wallet d u)) else
      bindE (run flt 3 ()) (\<lambda>_. bindE (run flt 4 ()) (\<lambda>_.
      bindE (run flt 5 ()) (\<lambda>_. Inr ((True, True), bought now d u b))))))"
    by (simp add: m wallet_buy_plan_def run_def Let_def book_def buy_entry_def bought_def cong: if_cong option.case_cong)
  show ?thesis
    unfolding r
    by (cases "has_ref d (b_ref b)"; cases "flt 2"; cases "flt 3"; cases "flt 4"; cases "flt 5")
      (auto simp: run_def no_faults_def not_less)
qed

lemma buy_entry_simps [simp]:
  "l_user (buy_entry now d u b) = u" "l_delta (buy_entry now d u b) = wrap64 (- b_cents b)"
  "l_ref (buy_entry now d u b) = b_ref b" "l_after (buy_entry now d u b) = wrap64 (balance_of d u - b_cents b)"
  by (simp_all add: buy_entry_def)

lemma set_plan_money [simp]:
  "balance_of (set_plan now u pid sub lic recur ex d) v = balance_of d v"
  "ledger (set_plan now u pid sub lic recur ex d) = ledger d"
  "wallets (set_plan now u pid sub lic recur ex d) = wallets d"
  by (simp_all add: set_plan_def balance_of_def)

section \<open>The wallet as a state machine\<close>

text \<open>Any wallet operation of any user, at any time, with any statement failing.\<close>

inductive wallet_step :: "auth_db \<Rightarrow> auth_db \<Rightarrow> bool" where
  step_credit: "credit flt now d u cents reason ref = (r, d') \<Longrightarrow> wallet_step d d'"
| step_debit: "debit flt now d u cents reason ref = (r, d') \<Longrightarrow> wallet_step d d'"
| step_buy: "wallet_buy_plan flt now d u b = (r, d') \<Longrightarrow> wallet_step d d'"

inductive_cases wallet_stepE: "wallet_step d d'"

abbreviation wallet_reach :: "auth_db \<Rightarrow> auth_db \<Rightarrow> bool" where
  "wallet_reach \<equiv> wallet_step\<^sup>*\<^sup>*"

lemma move_ok:
  assumes "wallet_ok d" and "move flt now d u delta reason ref guard = (r, d')"
  shows "wallet_ok d'"
  using move_cases [OF refl, of flt now d u delta reason ref guard] assms
  by (auto simp: wallet_ok_ensure intro!: wallet_ok_book)

lemma buy_ok:
  assumes "wallet_ok d" and "wallet_buy_plan flt now d u b = (r, d')"
  shows "wallet_ok d'"
proof -
  have "wallet_ok (bought now d u b)" if "\<not> has_ref d (b_ref b)"
    using that assms(1) by (auto simp: bought_def intro!: wallet_ok_book)
  then show ?thesis
    using buy_cases [OF refl, of flt now d u b] assms by (auto simp: wallet_ok_ensure)
qed

lemma wallet_step_ok: "wallet_step d d' \<Longrightarrow> wallet_ok d \<Longrightarrow> wallet_ok d'"
  by (erule wallet_stepE)
    (auto simp: credit_def debit_def intro: move_ok buy_ok split: prod.splits sum.splits)

section \<open>Properties\<close>

text \<open>
  C17: money is conserved: starting from an empty ledger, after any sequence of credits, debits and
  purchases, whatever statements fail, every balance is the sum of the user's ledger entries, no
  reference is booked twice and no user has two wallets.
\<close>

theorem wallet_ledger_conserved:
  assumes "wallet_reach d d'" and "wallets d = []" and "ledger d = []"
  shows "(\<forall>u. balance_of d' u = wrap64 (sum_list (map l_delta (filter (\<lambda>l. l_user l = u) (ledger d')))))
    \<and> distinct (map l_ref (ledger d')) \<and> distinct (map w_user (wallets d'))"
proof -
  have "wallet_ok d" using assms(2,3) by (simp add: wallet_ok_def balance_of_def ledger_sum_def wrap64_def)
  with assms(1) have "wallet_ok d'" by (induction rule: rtranclp_induct) (auto intro: wallet_step_ok)
  then show ?thesis by (simp add: wallet_ok_def ledger_sum_def sum_where_def)
qed

definition empty_auth :: auth_db where
  "empty_auth = \<lparr>wallets = [], ledger = [], users = [], sales = [], referrals = [], deleted_emails = []\<rparr>"

definition sample_auth :: auth_db where
  "sample_auth = snd (credit no_faults 5 empty_auth ''ann'' 500 ''topup'' ''r1'')"

theorem wallet_ledger_conserved_witness:
  "balance_of sample_auth ''ann'' = wrap64 (sum_list (map l_delta (filter (\<lambda>l. l_user l = ''ann'') (ledger sample_auth))))"
proof -
  have "credit no_faults 5 empty_auth ''ann'' 500 ''topup'' ''r1'' = (Inr (), sample_auth)"
    using move_cases [OF refl, of no_faults 5 empty_auth "''ann''" 500 "''topup''" "''r1''" False]
    by (auto simp: sample_auth_def credit_def)
  then have "wallet_reach empty_auth sample_auth" by (intro r_into_rtranclp step_credit)
  from wallet_ledger_conserved [OF this] show ?thesis by (simp add: empty_auth_def)
qed

text \<open>
  A debit is a guarded withdrawal: on a healthy connection it answers whether the balance covers
  it; if so, and the reference is new, exactly that amount leaves the user's wallet and nobody
  else's, and a replayed reference or a refusal moves no money.
\<close>

theorem debit_spec:
  assumes "0 \<le> cents" and "0 \<le> balance_of d u" and "in64 (balance_of d u)" and "in64 cents"
  shows "fst (debit no_faults now d u cents reason ref) = Inr (cents \<le> balance_of d u)
    \<and> balance_of (snd (debit no_faults now d u cents reason ref)) v
        = balance_of d v - (if v = u \<and> cents \<le> balance_of d u \<and> \<not> has_ref d ref then cents else 0)"
proof -
  have "in64 (- cents)" "in64 (balance_of d u - cents)" using assms by (auto simp: in64_def)
  then have [simp]: "wrap64 (- cents) = - cents" "wrap64 (balance_of d u - cents) = balance_of d u - cents" by simp_all
  show ?thesis
    using move_cases [OF refl, of no_faults now d u "- cents" reason ref True] by (auto simp: debit_def)
qed

theorem debit_spec_witness: "fst (debit no_faults 9 sample_auth ''ann'' 501 ''plan'' ''r2'') = Inr False"
proof -
  have b: "balance_of sample_auth ''ann'' = 500"
    using move_cases [OF refl, of no_faults 5 empty_auth "''ann''" 500 "''topup''" "''r1''" False]
    by (auto simp: sample_auth_def credit_def empty_auth_def has_ref_def balance_of_def [of "\<lparr>wallets = _, ledger = _, users = _, sales = _, referrals = _, deleted_emails = _\<rparr>"] wrap64_def)
  show ?thesis using debit_spec [of 501 sample_auth "''ann''" 9 "''plan''" "''r2''"] by (simp add: b in64_def)
qed

text \<open>
  A purchase is charged once, but its replay is answered from the balance that is left: when an
  applied purchase is retried with the same reference nothing is moved, yet the retry reports an
  insufficient balance unless the wallet could pay a second time.
\<close>

theorem wallet_buy_replay:
  assumes "wallet_buy_plan flt now d u b = (Inr (True, True), d1)"
    and "0 \<le> b_cents b" and "in64 (b_cents b)" and "0 \<le> balance_of d1 u" and "in64 (balance_of d1 u)"
  shows "fst (wallet_buy_plan no_faults later d1 u b) = Inr (b_cents b \<le> balance_of d1 u, False)
    \<and> (\<forall>v. balance_of (snd (wallet_buy_plan no_faults later d1 u b)) v = balance_of d1 v)
    \<and> ledger (snd (wallet_buy_plan no_faults later d1 u b)) = ledger d1"
proof -
  have "d1 = bought now d u b" using buy_cases [OF refl, of flt now d u b] assms(1) by auto
  then have ref: "has_ref d1 (b_ref b)" by (simp add: has_ref_def bought_def)
  have "in64 (balance_of d1 u - b_cents b)" using assms(2-5) by (auto simp: in64_def)
  then have "wrap64 (balance_of d1 u - b_cents b) = balance_of d1 u - b_cents b" by simp
  then show ?thesis using buy_cases [OF refl, of no_faults later d1 u b] ref by auto
qed

definition sample_purchase :: purchase where
  "sample_purchase = \<lparr>b_cents = 299, b_reason = ''plan:starter:monthly'', b_ref = ''wallet:buy:k'', b_plan = ''starter'',
     b_sub = [], b_license = ''wallet:buy:k'', b_recurrence = ''monthly'', b_expires = 35\<rparr>"

theorem wallet_buy_replay_witness:
  "fst (wallet_buy_plan no_faults 6 sample_auth ''ann'' sample_purchase) = Inr (True, True)
   \<and> fst (wallet_buy_plan no_faults 7 (snd (wallet_buy_plan no_faults 6 sample_auth ''ann'' sample_purchase))
        ''ann'' sample_purchase) = Inr (False, False)"
proof -
  define d1 where "d1 = snd (wallet_buy_plan no_faults 6 sample_auth ''ann'' sample_purchase)"
  have s: "balance_of sample_auth ''ann'' = 500" "map l_ref (ledger sample_auth) = [''r1'']"
    using move_cases [OF refl, of no_faults 5 empty_auth "''ann''" 500 "''topup''" "''r1''" False]
    by (auto simp: sample_auth_def credit_def empty_auth_def has_ref_def wrap64_def balance_of_def
        [of "\<lparr>wallets = _, ledger = _, users = _, sales = _, referrals = _, deleted_emails = _\<rparr>"])
  have "\<not> has_ref sample_auth ''wallet:buy:k''"
  proof
    assume "has_ref sample_auth ''wallet:buy:k''"
    then have "''wallet:buy:k'' \<in> set (map l_ref (ledger sample_auth))" by (auto simp: has_ref_def list_ex_iff intro!: image_eqI)
    then show False by (simp add: s)
  qed
  then have b: "wallet_buy_plan no_faults 6 sample_auth ''ann'' sample_purchase = (Inr (True, True), d1)"
    and d1: "d1 = bought 6 sample_auth ''ann'' sample_purchase"
    using buy_cases [OF refl, of no_faults 6 sample_auth "''ann''" sample_purchase] s
    by (auto simp: sample_purchase_def wrap64_def d1_def)
  have "balance_of d1 ''ann'' = 201" by (simp add: d1 bought_def s sample_purchase_def wrap64_def)
  moreover have "b_cents sample_purchase = 299" by (simp add: sample_purchase_def)
  ultimately show ?thesis using wallet_buy_replay [OF b, of 7] b by (simp add: in64_def)
qed

end
