(* ===== verification/Plans.thy ===== *)
theory Plans
  imports Go_Strings
begin

text \<open>
  The plan catalogue and its prices: \<open>shared/plans/plans.go\<close> and \<open>shared/plans/pricing.go\<close>.
  The package's mutable switches (\<open>LifetimeEnabled\<close>, \<open>BlackFridayActive\<close>,
  \<open>DayPlansEnabled\<close>) are the record \<open>switches\<close>, an argument of the functions that read
  them. Go maps with string or integer keys are association lists with distinct keys, read by
  \<open>map_of\<close>; prices and byte counts are far below the 64-bit range and are \<open>int\<close>.
\<close>

section \<open>Plans\<close>

record plan =
  plan_id :: string
  plan_name :: string
  day_prices :: "(int \<times> int) list"
  monthly_price :: int
  monthly_full_price :: int
  yearly_price :: int
  yearly_full_price :: int
  lifetime_price :: int
  lifetime_full_price :: int
  max_concurrent :: int
  cold_pulls_per_hour :: int
  max_download_mbps :: int
  max_torrent_bytes :: int
  monthly_ingest_bytes :: int
  cached_streams :: int
  seed_slots :: int
  plan_priority :: int
  features :: "string list"
  badge :: string
  system_usenet :: bool
  has_rss :: bool

definition free_plan :: plan where
  "free_plan = \<lparr>plan_id = ''free'', plan_name = ''Free'', day_prices = [],
     monthly_price = 0, monthly_full_price = 0, yearly_price = 0, yearly_full_price = 0,
     lifetime_price = 0, lifetime_full_price = 0, max_concurrent = 1, cold_pulls_per_hour = 15,
     max_download_mbps = 250, max_torrent_bytes = 50000000000, monthly_ingest_bytes = 500000000000,
     cached_streams = - 1, seed_slots = 0, plan_priority = 0,
     features = [''1 concurrent download'',
       ''50 GB max torrent'',
       ''3-day trial'',
       ''WebDAV'',
       ''Shared cache'',
       ''Stremio addon'',
       ''Referral credits''],
     badge = [], system_usenet = False, has_rss = False\<rparr>"

definition starter_plan :: plan where
  "starter_plan = \<lparr>plan_id = ''starter'', plan_name = ''Starter'', day_prices = [(7, 149), (15, 249)],
     monthly_price = 299, monthly_full_price = 0, yearly_price = 2870, yearly_full_price = 0,
     lifetime_price = 8900, lifetime_full_price = 0, max_concurrent = 2, cold_pulls_per_hour = 40,
     max_download_mbps = 500, max_torrent_bytes = 100000000000, monthly_ingest_bytes = 2000000000000,
     cached_streams = - 1, seed_slots = 3, plan_priority = 1,
     features = [''2 concurrent downloads'',
       ''100 GB max torrent'',
       ''Cairn permanent archive'',
       ''Hoster link support'',
       ''Private-tracker seeding'',
       ''BYOK Usenet'',
       ''BYOK Real-Debrid'',
       ''BYOK Premiumize'',
       ''BYOK TorBox'',
       ''Library import (RD, AllDebrid, TorBox, Offcloud)'',
       ''WebDAV'',
       ''Shared cache'',
       ''Stremio addon'',
       ''Referral credits''],
     badge = [], system_usenet = False, has_rss = False\<rparr>"

definition standard_plan :: plan where
  "standard_plan = \<lparr>plan_id = ''standard'', plan_name = ''Standard'', day_prices = [(7, 299), (15, 499)],
     monthly_price = 599, monthly_full_price = 0, yearly_price = 5750, yearly_full_price = 0,
     lifetime_price = 16900, lifetime_full_price = 0, max_concurrent = 4, cold_pulls_per_hour = 80,
     max_download_mbps = 1000, max_torrent_bytes = 250000000000, monthly_ingest_bytes = 4000000000000,
     cached_streams = - 1, seed_slots = 5, plan_priority = 2,
     features = [''4 concurrent downloads'',
       ''250 GB max torrent'',
       ''Cairn permanent archive'',
       ''Hoster link support'',
       ''Private-tracker seeding'',
       ''Usenet (included)'',
       ''BYOK Real-Debrid'',
       ''BYOK Premiumize'',
       ''BYOK TorBox'',
       ''Library import (RD, AllDebrid, TorBox, Offcloud)'',
       ''RSS auto-download'',
       ''WebDAV'',
       ''Shared cache'',
       ''Stremio addon'',
       ''Priority queue'',
       ''Referral credits''],
     badge = ''Best value'', system_usenet = True, has_rss = True\<rparr>"

definition pro_plan :: plan where
  "pro_plan = \<lparr>plan_id = ''pro'', plan_name = ''Pro'', day_prices = [(7, 599), (15, 999)],
     monthly_price = 1199, monthly_full_price = 0, yearly_price = 11500, yearly_full_price = 0,
     lifetime_price = 32900, lifetime_full_price = 0, max_concurrent = 8, cold_pulls_per_hour = 200,
     max_download_mbps = 2500, max_torrent_bytes = 1000000000000, monthly_ingest_bytes = 8000000000000,
     cached_streams = - 1, seed_slots = 10, plan_priority = 3,
     features = [''8 concurrent downloads'',
       ''1 TB max torrent'',
       ''Cairn permanent archive'',
       ''Hoster link support'',
       ''Private-tracker seeding'',
       ''Usenet (included)'',
       ''BYOK Real-Debrid'',
       ''BYOK Premiumize'',
       ''BYOK TorBox'',
       ''Library import (RD, AllDebrid, TorBox, Offcloud)'',
       ''RSS auto-download'',
       ''WebDAV'',
       ''Shared cache'',
       ''Stremio addon'',
       ''Priority queue'',
       ''Referral credits''],
     badge = [], system_usenet = True, has_rss = True\<rparr>"

definition all_plans :: "(string \<times> plan) list" where
  "all_plans = [(''free'', free_plan), (''starter'', starter_plan), (''standard'', standard_plan), (''pro'', pro_plan)]"

definition get_plan :: "string \<Rightarrow> plan option" where
  "get_plan i = map_of all_plans i"

section \<open>Products\<close>

definition seed_slot_product :: string where "seed_slot_product = ''torrin-seed-slots''"

definition topup_product :: string where "topup_product = ''torrin-topup''"

definition by_gumroad_product :: "(string \<times> string) list" where
  "by_gumroad_product =
    [(''torrin-starter-7d'', ''starter''),
     (''torrin-starter-15d'', ''starter''),
     (''torrin-standard-7d'', ''standard''),
     (''torrin-standard-15d'', ''standard''),
     (''torrin-pro-7d'', ''pro''),
     (''torrin-pro-15d'', ''pro''),
     (''torrin-starter-monthly'', ''starter''),
     (''torrin-standard-monthly'', ''standard''),
     (''torrin-pro-monthly'', ''pro''),
     (''torrin-starter-yearly'', ''starter''),
     (''torrin-standard-yearly'', ''standard''),
     (''torrin-pro-yearly'', ''pro''),
     (''torrin-starter-lifetime'', ''starter''),
     (''torrin-standard-lifetime'', ''standard''),
     (''torrin-pro-lifetime'', ''pro'')]"

definition days_from_product :: "string \<Rightarrow> int" where
  "days_from_product permalink =
     (if has_suffix permalink ''7d'' then 7 else if has_suffix permalink ''15d'' then 15 else 0)"

definition recurrence_from_product :: "string \<Rightarrow> string" where
  "recurrence_from_product permalink =
     (if days_from_product permalink > 0 then ''days''
      else if has_suffix permalink ''lifetime'' then ''lifetime''
      else if has_suffix permalink ''yearly'' then ''yearly'' else ''monthly'')"

section \<open>Prices\<close>

record switches =
  lifetime_enabled :: bool
  black_friday :: bool
  day_plans_enabled :: bool

definition black_friday_monthly :: "(string \<times> int) list" where
  "black_friday_monthly = [(''starter'', 224), (''standard'', 449), (''pro'', 899)]"

definition black_friday_yearly :: "(string \<times> int) list" where
  "black_friday_yearly = [(''starter'', 2149), (''standard'', 4299), (''pro'', 8599)]"

definition black_friday_lifetime :: "(string \<times> int) list" where
  "black_friday_lifetime = [(''starter'', 5900), (''standard'', 10900), (''pro'', 21500)]"

text \<open>2026-08-22 00:00 UTC, in seconds since the epoch.\<close>

definition lifetime_bump_date :: int where "lifetime_bump_date = 1787356800"

definition pre_bump_lifetime :: "(string \<times> int) list" where
  "pre_bump_lifetime = [(''starter'', 5382), (''standard'', 10782), (''pro'', 21582)]"

text \<open>The two results \<open>(price, ok)\<close> of the code are an option; it returns 0 beside \<open>false\<close>.\<close>

definition sale_or :: "switches \<Rightarrow> (string \<times> int) list \<Rightarrow> string \<Rightarrow> int \<Rightarrow> int" where
  "sale_or sw sale pid p =
     (if black_friday sw then (case map_of sale pid of Some q \<Rightarrow> q | None \<Rightarrow> p) else p)"

definition price_cents :: "switches \<Rightarrow> string \<Rightarrow> string \<Rightarrow> int \<Rightarrow> int option" where
  "price_cents sw pid period days =
     (case map_of all_plans pid of None \<Rightarrow> None
      | Some p \<Rightarrow>
          if period = ''lifetime'' then Some (sale_or sw black_friday_lifetime pid (lifetime_price p))
          else if period = ''yearly'' then Some (sale_or sw black_friday_yearly pid (yearly_price p))
          else if period = ''days'' then map_of (day_prices p) days
          else Some (sale_or sw black_friday_monthly pid (monthly_price p)))"

definition price_cents_at :: "switches \<Rightarrow> string \<Rightarrow> string \<Rightarrow> int \<Rightarrow> int \<Rightarrow> int option" where
  "price_cents_at sw pid period days when =
     (if period = ''lifetime'' \<and> when < lifetime_bump_date then
        (case map_of pre_bump_lifetime pid of Some p \<Rightarrow> Some p | None \<Rightarrow> price_cents sw pid period days)
      else price_cents sw pid period days)"

definition validate_price :: "string \<Rightarrow> string \<Rightarrow> int \<Rightarrow> bool" where
  "validate_price pid period cents =
     (case map_of all_plans pid of None \<Rightarrow> False
      | Some p \<Rightarrow>
          if period = ''lifetime'' then lifetime_price p \<le> cents
          else if period = ''yearly'' then yearly_price p \<le> cents
          else if period = ''days'' then list_ex (\<lambda>(_, q). q \<le> cents) (day_prices p)
          else monthly_price p \<le> cents)"

definition listed_plan :: "switches \<Rightarrow> string \<Rightarrow> plan \<Rightarrow> plan" where
  "listed_plan sw pid p0 =
     (let p1 = (if day_plans_enabled sw then p0 else p0\<lparr>day_prices := []\<rparr>);
          p2 = (if \<not> black_friday sw then p1 else
                 (let a = (case map_of black_friday_monthly pid of
                        Some q \<Rightarrow> if monthly_price p1 > 0 then p1\<lparr>monthly_full_price := monthly_price p1, monthly_price := q\<rparr> else p1
                      | None \<Rightarrow> p1);
                      b = (case map_of black_friday_yearly pid of
                        Some q \<Rightarrow> if yearly_price a > 0 then a\<lparr>yearly_full_price := yearly_price a, yearly_price := q\<rparr> else a
                      | None \<Rightarrow> a)
                  in (case map_of black_friday_lifetime pid of
                        Some q \<Rightarrow> if lifetime_price b > 0 then b\<lparr>lifetime_full_price := lifetime_price b, lifetime_price := q\<rparr> else b
                      | None \<Rightarrow> b)))
      in if lifetime_enabled sw then p2 else p2\<lparr>lifetime_price := 0, lifetime_full_price := 0\<rparr>)"

definition listed :: "switches \<Rightarrow> (string \<times> plan) list" where
  "listed sw = map (\<lambda>(pid, p). (pid, listed_plan sw pid p)) all_plans"

section \<open>Entitlements\<close>

definition can_byok :: "string \<Rightarrow> bool" where
  "can_byok pid \<longleftrightarrow> pid \<noteq> [] \<and> pid \<noteq> ''free''"

definition indexer_policy :: "plan \<Rightarrow> bool \<Rightarrow> bool \<times> bool" where
  "indexer_policy p system_on = (can_byok (plan_id p), system_usenet p \<and> system_on)"

section \<open>Reading the catalogue\<close>

lemma find_plan: "map_of all_plans pid = Some p \<Longrightarrow>
  (pid = ''free'' \<and> p = free_plan) \<or> (pid = ''starter'' \<and> p = starter_plan)
  \<or> (pid = ''standard'' \<and> p = standard_plan) \<or> (pid = ''pro'' \<and> p = pro_plan)"
  by (auto simp: all_plans_def split: if_splits)

lemma all_plans_simps [simp]:
  "map_of all_plans ''free'' = Some free_plan" "map_of all_plans ''starter'' = Some starter_plan"
  "map_of all_plans ''standard'' = Some standard_plan" "map_of all_plans ''pro'' = Some pro_plan"
  by (simp_all add: all_plans_def)

lemma plan_prices [simp]:
  "monthly_price free_plan = 0" "yearly_price free_plan = 0" "lifetime_price free_plan = 0"
  "day_prices free_plan = []" "plan_id free_plan = ''free''" "plan_priority free_plan = 0"
  "monthly_price starter_plan = 299" "yearly_price starter_plan = 2870" "lifetime_price starter_plan = 8900"
  "day_prices starter_plan = [(7, 149), (15, 249)]" "plan_id starter_plan = ''starter''" "plan_priority starter_plan = 1"
  "monthly_price standard_plan = 599" "yearly_price standard_plan = 5750" "lifetime_price standard_plan = 16900"
  "day_prices standard_plan = [(7, 299), (15, 499)]" "plan_id standard_plan = ''standard''" "plan_priority standard_plan = 2"
  "monthly_price pro_plan = 1199" "yearly_price pro_plan = 11500" "lifetime_price pro_plan = 32900"
  "day_prices pro_plan = [(7, 599), (15, 999)]" "plan_id pro_plan = ''pro''" "plan_priority pro_plan = 3"
  by (simp_all only: free_plan_def starter_plan_def standard_plan_def pro_plan_def plan.select_convs)

lemmas sale_defs = sale_or_def black_friday_monthly_def black_friday_yearly_def black_friday_lifetime_def

lemma listed_iff:
  "map_of (listed sw) pid = Some q \<longleftrightarrow> (\<exists>p. map_of all_plans pid = Some p \<and> q = listed_plan sw pid p)"
proof -
  have "map_of (map (\<lambda>(i, p). (i, listed_plan sw i p)) ps) pid = Some q
      \<longleftrightarrow> (\<exists>p. map_of ps pid = Some p \<and> q = listed_plan sw pid p)" for ps
    by (induction ps) auto
  then show ?thesis by (simp only: listed_def)
qed

text \<open>The free plan is the only one without a price, and every paid price is positive.\<close>

lemma paid_plan_prices:
  assumes "map_of all_plans pid = Some p" and "pid \<noteq> ''free''"
  shows "0 < monthly_price p" "0 < yearly_price p" "0 < lifetime_price p" "plan_id p = pid"
    "map fst (day_prices p) = [7, 15]" "0 < plan_priority p"
  using find_plan [OF assms(1)] assms(2) by auto

section \<open>Properties\<close>

text \<open>
  The price list and the checkout agree: whatever the switches, the monthly, yearly, day and
  (while it is on sale) lifetime prices that \<open>Listed\<close> shows are the ones \<open>PriceCents\<close> charges.
\<close>

theorem listed_prices_are_charged:
  assumes "map_of (listed sw) pid = Some p"
  shows "price_cents sw pid ''monthly'' n = Some (monthly_price p)
    \<and> price_cents sw pid ''yearly'' n = Some (yearly_price p)
    \<and> (lifetime_enabled sw \<longrightarrow> price_cents sw pid ''lifetime'' n = Some (lifetime_price p))
    \<and> (day_plans_enabled sw \<longrightarrow> price_cents sw pid ''days'' n = map_of (day_prices p) n)"
proof -
  obtain q where q: "map_of all_plans pid = Some q" and p: "p = listed_plan sw pid q"
    using assms by (auto simp: listed_iff)
  show ?thesis
    using find_plan [OF q]
    by (elim disjE conjE) (simp_all add: p listed_plan_def price_cents_def sale_defs Let_def)
qed

theorem listed_prices_are_charged_witness:
  "price_cents \<lparr>lifetime_enabled = True, black_friday = True, day_plans_enabled = True\<rparr> ''pro'' ''yearly'' 0
     = Some (yearly_price (listed_plan \<lparr>lifetime_enabled = True, black_friday = True, day_plans_enabled = True\<rparr>
         ''pro'' pro_plan))"
proof -
  let ?sw = "\<lparr>lifetime_enabled = True, black_friday = True, day_plans_enabled = True\<rparr>"
  have "map_of (listed ?sw) ''pro'' = Some (listed_plan ?sw ''pro'' pro_plan)" by (simp add: listed_iff)
  from listed_prices_are_charged [OF this] show ?thesis by blast
qed

text \<open>The name of the product that sells an offer; an offer is a period and a number of days.\<close>

definition offers :: "(string \<times> int) list" where
  "offers = [(''days'', 7), (''days'', 15), (''monthly'', 0), (''yearly'', 0), (''lifetime'', 0)]"

definition product_link :: "string \<Rightarrow> string \<Rightarrow> int \<Rightarrow> string" where
  "product_link pid period days =
     ''torrin-'' @ pid @ ''-'' @ (if period = ''days'' then (if days = 7 then ''7d'' else ''15d'') else period)"

lemma product_table: "by_gumroad_product = map (\<lambda>(o', pid). (product_link pid (fst o') (snd o'), pid))
    (List.product [(''days'', 7), (''days'', 15)] [''starter''] @ List.product [(''days'', 7), (''days'', 15)] [''standard'']
     @ List.product [(''days'', 7), (''days'', 15)] [''pro''] @ List.product [(''monthly'', 0)] [''starter'', ''standard'', ''pro'']
     @ List.product [(''yearly'', 0)] [''starter'', ''standard'', ''pro'']
     @ List.product [(''lifetime'', 0)] [''starter'', ''standard'', ''pro''])"
  by (simp add: by_gumroad_product_def product_link_def)

text \<open>
  Product links parse back: the link of an offer is in the product table with its plan, reads
  back as the offer's period and days, and the checkout has a positive price for it that the webhook
  accepts.
\<close>

theorem product_links_roundtrip:
  assumes "map_of all_plans pid = Some p" and "pid \<noteq> ''free''" and "(period, days) \<in> set offers"
  shows "map_of by_gumroad_product (product_link pid period days) = Some pid
    \<and> recurrence_from_product (product_link pid period days) = period
    \<and> days_from_product (product_link pid period days) = days
    \<and> (\<exists>c>0. price_cents sw pid period days = Some c \<and> (black_friday sw \<or> validate_price pid period c))"
proof -
  have o': "(period, days) = (''days'', 7) \<or> (period, days) = (''days'', 15) \<or> (period, days) = (''monthly'', 0)
      \<or> (period, days) = (''yearly'', 0) \<or> (period, days) = (''lifetime'', 0)"
    using assms(3) by (auto simp: offers_def)
  have pid: "pid = ''starter'' \<or> pid = ''standard'' \<or> pid = ''pro''"
    using find_plan [OF assms(1)] assms(2) by auto
  have "map_of by_gumroad_product (product_link pid period days) = Some pid"
    using o' pid by (elim disjE; simp add: product_link_def by_gumroad_product_def)
  moreover have "recurrence_from_product (product_link pid period days) = period
      \<and> days_from_product (product_link pid period days) = days"
    using o' pid by (elim disjE; simp add: product_link_def recurrence_from_product_def days_from_product_def has_suffix_def)
  moreover have "\<exists>c>0. price_cents sw pid period days = Some c \<and> (black_friday sw \<or> validate_price pid period c)"
    using o' pid by (elim disjE; simp add: price_cents_def validate_price_def sale_defs)
  ultimately show ?thesis by blast
qed

theorem product_links_roundtrip_witness:
  "map_of by_gumroad_product (product_link ''pro'' ''days'' 15) = Some ''pro''"
  using product_links_roundtrip [of "''pro''" pro_plan "''days''" 15] by (simp add: offers_def)

text \<open>
  The webhook's price check and the checkout disagree exactly during the sale: the price charged
  for an offer passes \<open>ValidatePrice\<close> unless Black Friday is on, the plan is paid and the offer is
  not a day plan.
\<close>

theorem sale_prices_rejected:
  assumes "price_cents sw pid period days = Some c"
  shows "validate_price pid period c \<longleftrightarrow> \<not> black_friday sw \<or> pid = ''free'' \<or> period = ''days''"
proof -
  obtain p where p: "map_of all_plans pid = Some p"
    using assms by (auto simp: price_cents_def split: option.splits)
  show ?thesis
    using find_plan [OF p] assms
    by (elim disjE conjE)
      (auto simp: price_cents_def validate_price_def sale_defs split: if_splits)
qed

theorem sale_prices_rejected_witness:
  "\<not> validate_price ''starter'' ''monthly'' 224"
proof -
  let ?sw = "\<lparr>lifetime_enabled = True, black_friday = True, day_plans_enabled = True\<rparr>"
  have "price_cents ?sw ''starter'' ''monthly'' 0 = Some 224"
    by (simp add: price_cents_def sale_defs)
  from sale_prices_rejected [OF this] show ?thesis by simp
qed

end
