(* ===== verification/Billing.thy ===== *)
theory Billing
  imports Wallet Plans
begin

text \<open>
  Accounts and billing: the user table of \<open>shared/auth\<close> (\<open>store.go\<close>, \<open>users.go\<close>, \<open>account.go\<close>,
  \<open>billing.go\<close>), the plan grants of \<open>shared/billing/common.go\<close>, and the sale webhooks of
  \<open>gumroad.go\<close> and \<open>bitcart.go\<close> after their signature check. Times are whole seconds, and a
  function reads the clock once. The identifiers and keys that \<open>CreateUser\<close> draws, the list of
  disposable mail domains (a third-party package) and the clock come in a record \<open>env\<close>.
\<close>

record env =
  e_now :: int
  e_id :: string
  e_key :: string
  e_code :: string
  e_burner :: "string \<Rightarrow> bool"
  e_switches :: switches

abbreviation day :: int where "day \<equiv> 86400"

section \<open>Users\<close>

definition normalize_email :: "string \<Rightarrow> string" where
  "normalize_email raw =
     (let e = to_lower (trim_space raw) in
      case last_index_of e ''@'' of None \<Rightarrow> e
      | Some a \<Rightarrow>
          if a < 1 \<or> a = length e - 1 then e
          else let local0 = take a e; domain0 = drop (Suc a) e;
                   local1 = (case index_byte local0 (CHR ''+'') of Some i \<Rightarrow> take i local0 | None \<Rightarrow> local0);
                   domain = (if domain0 = ''googlemail.com'' then ''gmail.com'' else domain0);
                   local2 = (if domain = ''gmail.com'' then filter (\<lambda>c. c \<noteq> CHR ''.'') local1 else local1)
               in local2 @ ''@'' @ domain)"

definition get_by_id :: "auth_error faults \<Rightarrow> nat \<Rightarrow> auth_db \<Rightarrow> string \<Rightarrow> auth_error + user" where
  "get_by_id flt k d i = bindE (run flt k (find (\<lambda>u. u_id u = i) (users d)))
     (\<lambda>r. case r of None \<Rightarrow> Inl AuthNotFound | Some u \<Rightarrow> Inr u)"

definition get_by_email :: "auth_error faults \<Rightarrow> nat \<Rightarrow> auth_db \<Rightarrow> string \<Rightarrow> auth_error + user" where
  "get_by_email flt k d e = bindE (run flt k (find (\<lambda>u. email u = e) (users d)))
     (\<lambda>r. case r of None \<Rightarrow> Inl AuthNotFound | Some u \<Rightarrow> Inr u)"

text \<open>\<open>ORDER BY updated_at DESC LIMIT 1\<close>.\<close>

definition get_by_subscription :: "auth_error faults \<Rightarrow> nat \<Rightarrow> auth_db \<Rightarrow> string \<Rightarrow> auth_error + user" where
  "get_by_subscription flt k d sub =
     bindE (run flt k (sort_key (\<lambda>u. - u_updated u) (filter (\<lambda>u. subscription_id u = sub) (users d))))
     (\<lambda>r. case r of [] \<Rightarrow> Inl AuthNotFound | u # _ \<Rightarrow> Inr u)"

definition update_plan :: "auth_error faults \<Rightarrow> nat \<Rightarrow> int \<Rightarrow> auth_db \<Rightarrow> string \<Rightarrow> string \<Rightarrow> string \<Rightarrow> string
    \<Rightarrow> string \<Rightarrow> int \<Rightarrow> (auth_error + unit) \<times> auth_db" where
  "update_plan flt k now d u pid sub lic recur ex =
     (case run flt k () of Inl e \<Rightarrow> (Inl e, d) | Inr _ \<Rightarrow> (Inr (), set_plan now u pid sub lic recur ex d))"

definition set_seed_slots :: "auth_error faults \<Rightarrow> nat \<Rightarrow> int \<Rightarrow> auth_db \<Rightarrow> string \<Rightarrow> int \<Rightarrow> string
    \<Rightarrow> (auth_error + unit) \<times> auth_db" where
  "set_seed_slots flt k now d i packs sub =
     (case run flt k () of Inl e \<Rightarrow> (Inl e, d) | Inr _ \<Rightarrow> (Inr (),
        d\<lparr>users := upd_where (\<lambda>u. u_id u = i)
           (\<lambda>u. u\<lparr>seed_slot_packs := packs, seed_slot_sub := sub, u_updated := now\<rparr>) (users d)\<rparr>))"

definition clear_seed_slots_by_sub :: "auth_error faults \<Rightarrow> nat \<Rightarrow> int \<Rightarrow> auth_db \<Rightarrow> string
    \<Rightarrow> (auth_error + unit) \<times> auth_db" where
  "clear_seed_slots_by_sub flt k now d sub =
     (if sub = [] then (Inr (), d) else
      case run flt k () of Inl e \<Rightarrow> (Inl e, d) | Inr _ \<Rightarrow> (Inr (),
        d\<lparr>users := upd_where (\<lambda>u. seed_slot_sub u = sub)
           (\<lambda>u. u\<lparr>seed_slot_packs := 0, seed_slot_sub := [], u_updated := now\<rparr>) (users d)\<rparr>))"

text \<open>A failed lookup counts as "not deleted".\<close>

definition is_email_deleted :: "auth_error faults \<Rightarrow> nat \<Rightarrow> auth_db \<Rightarrow> string \<Rightarrow> bool" where
  "is_email_deleted flt k d e =
     (case run flt k (e \<in> set (deleted_emails d)) of Inl _ \<Rightarrow> False | Inr b \<Rightarrow> b)"

definition new_user :: "env \<Rightarrow> string \<Rightarrow> string \<Rightarrow> user" where
  "new_user ev e referrer_id =
     \<lparr>u_id = e_id ev, email = e, api_key = e_key ev, u_plan = ''free'', subscription_id = [],
      license_key = [], recurrence = [], expires_at = e_now ev + 3 * day, paused_at = None,
      remaining_days = 0, pause_count = 0, last_paused_at = None, banned = False, ban_reason = [],
      u_created = e_now ev, u_updated = e_now ev, seed_slot_packs = 0, seed_slot_sub = [],
      system_indexer_enabled = True, totp_enabled = False, usenet_streaming = False,
      referral_code = e_code ev, referred_by = referrer_id\<rparr>"

text \<open>
  The inserted row; the \<open>User\<close> returned beside it lacks the column default of
  \<open>system_indexer_enabled\<close>.
\<close>

definition create_user :: "auth_error faults \<Rightarrow> env \<Rightarrow> auth_db \<Rightarrow> string \<Rightarrow> string
    \<Rightarrow> (auth_error + user) \<times> auth_db" where
  "create_user flt ev d raw code =
     (let e = normalize_email raw in
      if is_email_deleted flt 0 d e then (Inl (AuthRefused ''account previously deleted''), d)
      else if e_burner ev e then (Inl (AuthRefused ''disposable email addresses are not allowed''), d)
      else let ref = (if code = [] then [] else
                case run flt 1 (find (\<lambda>u. referral_code u = code) (users d)) of
                  Inr (Some r) \<Rightarrow> u_id r | _ \<Rightarrow> []);
               u = new_user ev e ref
           in (case run flt 2 () of Inl er \<Rightarrow> (Inl er, d) | Inr _ \<Rightarrow>
               if list_ex (\<lambda>r. u_id r = u_id u \<or> email r = email u \<or> api_key r = api_key u) (users d)
               then (Inl (AuthDBError ''unique violation''), d)
               else let d1 = d\<lparr>users := users d @ [u]\<rparr> in
                 (Inr (u\<lparr>system_indexer_enabled := False\<rparr>),
                  if ref \<noteq> [] \<and> flt 3 = None
                         then d1\<lparr>referrals := referrals d1 @ [\<lparr>referrer = ref, referee = u_id u, ref_paid = False\<rparr>]\<rparr>
                         else d1)))"

section \<open>Pausing a subscription\<close>

text \<open>\<open>math.Ceil(time.Until(x).Hours() / 24)\<close>, exact on whole seconds.\<close>

definition ceil_days :: "int \<Rightarrow> int" where
  "ceil_days secs = - ((- secs) div day)"

definition pause_sub :: "auth_error faults \<Rightarrow> int \<Rightarrow> auth_db \<Rightarrow> string \<Rightarrow> (auth_error + int) \<times> auth_db" where
  "pause_sub flt now d i =
     (case get_by_id flt 0 d i of Inl e \<Rightarrow> (Inl e, d) | Inr u \<Rightarrow>
      if u_plan u = ''free'' \<or> recurrence u = ''lifetime'' then (Inl (AuthRefused ''cannot pause this plan''), d)
      else if is_paused u then (Inr (remaining_days u), d)
      else if pause_count u \<ge> 3 then (Inl (AuthRefused ''pause limit reached (3 per billing cycle)''), d)
      else if (case last_paused_at u of None \<Rightarrow> False | Some t \<Rightarrow> now - t < day)
        then (Inl (AuthRefused ''can only pause once every 24 hours''), d)
      else let remaining = max 1 (ceil_days (expires_at u - now)) in
        (case run flt 1 () of Inl e \<Rightarrow> (Inl e, d) | Inr _ \<Rightarrow> (Inr remaining,
           d\<lparr>users := upd_where (\<lambda>r. u_id r = i) (\<lambda>r. r\<lparr>paused_at := Some now, remaining_days := remaining,
              pause_count := pause_count r + 1, last_paused_at := Some now, u_updated := now\<rparr>) (users d)\<rparr>)))"

definition resume_sub :: "auth_error faults \<Rightarrow> int \<Rightarrow> auth_db \<Rightarrow> string \<Rightarrow> (auth_error + int) \<times> auth_db" where
  "resume_sub flt now d i =
     (case get_by_id flt 0 d i of Inl e \<Rightarrow> (Inl e, d) | Inr u \<Rightarrow>
      if \<not> is_paused u then (Inr (expires_at u), d)
      else let ex = now + remaining_days u * day in
        (case run flt 1 () of Inl e \<Rightarrow> (Inl e, d) | Inr _ \<Rightarrow> (Inr ex,
           d\<lparr>users := upd_where (\<lambda>r. u_id r = i) (\<lambda>r. r\<lparr>expires_at := ex, paused_at := None,
              remaining_days := 0, u_updated := now\<rparr>) (users d)\<rparr>)))"

section \<open>Subscriptions, sales and referrals\<close>

definition downgrade :: "auth_error faults \<Rightarrow> int \<Rightarrow> auth_db \<Rightarrow> string \<Rightarrow> (auth_error + unit) \<times> auth_db" where
  "downgrade flt now d sub =
     (case run flt 1 () of Inl e \<Rightarrow> (Inl e, d) | Inr _ \<Rightarrow> (Inr (),
        d\<lparr>users := upd_where (\<lambda>u. subscription_id u = sub)
           (\<lambda>u. u\<lparr>u_plan := ''free'', subscription_id := [], recurrence := [], paused_at := None,
                   remaining_days := 0, expires_at := now + day, u_updated := now\<rparr>) (users d)\<rparr>))"

definition has_processed_sale :: "auth_error faults \<Rightarrow> nat \<Rightarrow> auth_db \<Rightarrow> string \<Rightarrow> bool" where
  "has_processed_sale flt k d i =
     (case run flt k (list_ex (\<lambda>s. sale_id s = i) (sales d)) of Inl _ \<Rightarrow> False | Inr b \<Rightarrow> b)"

definition record_processed_sale :: "auth_error faults \<Rightarrow> nat \<Rightarrow> auth_db \<Rightarrow> string \<Rightarrow> string \<Rightarrow> int \<Rightarrow> string \<Rightarrow> auth_db" where
  "record_processed_sale flt k d i u cents cur =
     (if flt k \<noteq> None \<or> list_ex (\<lambda>s. sale_id s = i) (sales d) then d
      else d\<lparr>sales := sales d @ [\<lparr>sale_id = i, sale_user = u, sale_cents = cents, sale_currency = cur\<rparr>]\<rparr>)"

definition get_referrer_id :: "auth_error faults \<Rightarrow> nat \<Rightarrow> auth_db \<Rightarrow> string \<Rightarrow> string" where
  "get_referrer_id flt k d i =
     (case run flt k (find (\<lambda>u. u_id u = i) (users d)) of Inr (Some u) \<Rightarrow> referred_by u | _ \<Rightarrow> [])"

definition mark_referral_paid :: "auth_error faults \<Rightarrow> nat \<Rightarrow> auth_db \<Rightarrow> string \<Rightarrow> auth_db" where
  "mark_referral_paid flt k d i =
     (if flt k \<noteq> None then d else
      d\<lparr>referrals := upd_where (\<lambda>r. referee r = i \<and> \<not> ref_paid r) (\<lambda>r. r\<lparr>ref_paid := True\<rparr>) (referrals d)\<rparr>)"

definition referral_days_per_payment :: int where "referral_days_per_payment = 7"

definition referral_max_days :: int where "referral_max_days = 30"

definition rewarded_expiry :: "int \<Rightarrow> int \<Rightarrow> int" where
  "rewarded_expiry now ex =
     (let current = (if ex > now then ex else now);
          new_expiry = current + referral_days_per_payment * day;
          max_expiry = now + referral_max_days * day
      in if new_expiry > max_expiry then max_expiry else new_expiry)"

definition apply_referral_reward :: "auth_error faults \<Rightarrow> nat \<Rightarrow> int \<Rightarrow> auth_db \<Rightarrow> string \<Rightarrow> auth_db" where
  "apply_referral_reward flt k now d i =
     (case get_by_id flt k d i of Inl e \<Rightarrow> d | Inr user \<Rightarrow>
      if flt (Suc k) \<noteq> None then d else
      d\<lparr>users := upd_where (\<lambda>u. u_id u = i)
         (\<lambda>u. u\<lparr>expires_at := rewarded_expiry now (expires_at user), u_updated := now\<rparr>) (users d)\<rparr>)"

definition credit_referral :: "auth_error faults \<Rightarrow> int \<Rightarrow> auth_db \<Rightarrow> string \<Rightarrow> auth_db" where
  "credit_referral flt now d i =
     (let r = get_referrer_id flt 0 d i in
      if r = [] then d else apply_referral_reward flt 2 now (mark_referral_paid flt 1 d i) r)"

section \<open>Granting plans\<close>

definition lifetime_expiry :: int where "lifetime_expiry = 4102358400"

definition crypto_expiry :: "int \<Rightarrow> string \<Rightarrow> int \<Rightarrow> int" where
  "crypto_expiry now period days =
     (if period = ''lifetime'' then lifetime_expiry
      else if period = ''yearly'' then now + 365 * day
      else if period = ''days'' then now + (if days \<le> 0 then 7 else days) * day
      else now + 35 * day)"

definition plan_expiry :: "int \<Rightarrow> user \<Rightarrow> string \<Rightarrow> int \<Rightarrow> int" where
  "plan_expiry now u period days =
     (let ex = crypto_expiry now period days in
      if expires_at u > now \<and> \<not> is_paused u \<and> u_plan u \<noteq> ''free'' \<and> period \<noteq> ''lifetime''
      then ex + (expires_at u - now) else ex)"

definition grant_plan :: "auth_error faults \<Rightarrow> nat \<Rightarrow> int \<Rightarrow> auth_db \<Rightarrow> user \<Rightarrow> string \<Rightarrow> string \<Rightarrow> string
    \<Rightarrow> string \<Rightarrow> int \<Rightarrow> (auth_error + unit) \<times> auth_db" where
  "grant_plan flt k now d u pid period sub lic days =
     update_plan flt k now d (u_id u) pid sub lic period (plan_expiry now u period days)"

definition apply_crypto_plan :: "auth_error faults \<Rightarrow> env \<Rightarrow> auth_db \<Rightarrow> user \<Rightarrow> string \<Rightarrow> string \<Rightarrow> string \<Rightarrow> int
    \<Rightarrow> auth_db" where
  "apply_crypto_plan flt ev d u event_id pid period days =
     (case grant_plan flt 0 (e_now ev) d u pid period [] event_id days of
        (Inl e, d1) \<Rightarrow> d1
      | (Inr _, d1) \<Rightarrow>
          let cents = (case price_cents (e_switches ev) pid period days of Some c \<Rightarrow> c | None \<Rightarrow> 0);
              d2 = record_processed_sale flt 1 d1 event_id (u_id u) cents ''USD''
          in if period = ''monthly'' \<or> period = ''yearly'' then credit_referral (after 2 flt) (e_now ev) d2 (u_id u)
             else d2)"

definition get_or_create_user :: "auth_error faults \<Rightarrow> env \<Rightarrow> auth_db \<Rightarrow> string
    \<Rightarrow> (auth_error + user \<times> bool) \<times> auth_db" where
  "get_or_create_user flt ev d e =
     (case get_by_email flt 0 d e of Inr u \<Rightarrow> (Inr (u, False), d)
      | Inl _ \<Rightarrow> (case create_user (after 1 flt) ev d e [] of
          (Inl er, d1) \<Rightarrow> (Inl er, d1) | (Inr u, d1) \<Rightarrow> (Inr (u, True), d1)))"

definition resolve_sale_user :: "auth_error faults \<Rightarrow> env \<Rightarrow> auth_db \<Rightarrow> string \<Rightarrow> string
    \<Rightarrow> (auth_error + user \<times> bool) \<times> auth_db" where
  "resolve_sale_user flt ev d e sub =
     (case if sub = [] then Inl AuthNotFound else get_by_subscription flt 0 d sub of
        Inr u \<Rightarrow> (Inr (u, False), d)
      | Inl _ \<Rightarrow> get_or_create_user (after 1 flt) ev d e)"

text \<open>\<open>fmt.Sscanf(s, "%d", &n)\<close>: leading blanks, a sign, then a run of
  digits and underscores, which \<open>ParseInt\<close> must accept; 0 when it fails.\<close>

definition scan_int :: "string \<Rightarrow> int" where
  "scan_int s =
     (let t = dropWhile is_space s;
          sign = takeWhile (\<lambda>c. c = CHR ''-'' \<or> c = CHR ''+'') (take 1 t);
          (v, ok) = parse_int (sign @ takeWhile (\<lambda>c. is_digit c \<or> c = CHR ''_'') (drop (length sign) t))
      in if ok then v else 0)"

definition topup_ref :: "string \<Rightarrow> string \<Rightarrow> string option" where
  "topup_ref reason ref = (if ref = [] then None else Some (reason @ '':'' @ ref))"

definition credit_wallet :: "auth_error faults \<Rightarrow> int \<Rightarrow> auth_db \<Rightarrow> string \<Rightarrow> string \<Rightarrow> string \<Rightarrow> string \<Rightarrow> auth_db" where
  "credit_wallet flt now d u credits reason ref =
     (case topup_ref reason ref of None \<Rightarrow> d
      | Some full \<Rightarrow> if scan_int credits \<le> 0 then d else snd (credit flt now d u (scan_int credits) reason full))"

definition buy_plan_from_wallet :: "auth_error faults \<Rightarrow> env \<Rightarrow> auth_db \<Rightarrow> user \<Rightarrow> string \<Rightarrow> string \<Rightarrow> bool \<Rightarrow> string
    \<Rightarrow> (auth_error + bool) \<times> auth_db" where
  "buy_plan_from_wallet flt ev d u pid period recurring key =
     (case price_cents (e_switches ev) pid period 0 of
        None \<Rightarrow> (Inr False, d)
      | Some cents \<Rightarrow>
        if cents \<le> 0 then (Inr False, d)
        else let ref = (if key \<noteq> [] then ''wallet:buy:'' @ key else ''wallet:'' @ e_id ev);
                 sub = (if recurring \<and> period \<noteq> ''lifetime'' then ''wallet:'' @ u_id u else [])
             in (case wallet_buy_plan flt (e_now ev) d (u_id u)
                   \<lparr>b_cents = cents, b_reason = ''plan:'' @ pid @ '':'' @ period, b_ref = ref, b_plan = pid, b_sub = sub,
                    b_license = ref, b_recurrence = period, b_expires = plan_expiry (e_now ev) u period 0\<rparr> of
                 (Inl e, d1) \<Rightarrow> (Inl e, d1)
               | (Inr (False, _), d1) \<Rightarrow> (Inr False, d1)
               | (Inr (True, applied), d1) \<Rightarrow> (Inr True,
                   if applied \<and> (period = ''monthly'' \<or> period = ''yearly'')
                   then credit_referral (after 6 flt) (e_now ev) d1 (u_id u) else d1)))"

text \<open>One renewal per due user, each with the identifier drawn for it.\<close>

definition renew_wallet_plans :: "(nat \<Rightarrow> auth_error faults) \<Rightarrow> (nat \<Rightarrow> env) \<Rightarrow> bool \<Rightarrow> auth_db \<Rightarrow> auth_db" where
  "renew_wallet_plans flts evs list_fails d =
     (if list_fails then d else
      fold (\<lambda>(n, u) d'. snd (buy_plan_from_wallet (flts n) (evs n) d' u (u_plan u) (recurrence u) True []))
        (enumerate 0 (wallet_recurring_due (e_now (evs 0)) d)) d)"

section \<open>Webhooks\<close>

text \<open>The form of a Gumroad ping: \<open>v.Get\<close> gives the empty string for a missing key.\<close>

type_synonym form = "string \<Rightarrow> string"

definition sale_expiry :: "int \<Rightarrow> string \<Rightarrow> string \<Rightarrow> string \<Rightarrow> int \<times> string" where
  "sale_expiry now period permalink recur =
     (let recur' = (if period = ''lifetime'' then ''lifetime'' else if period = ''days'' then ''days'' else recur);
          days = (if period = ''days'' then days_from_product permalink else 0)
      in (crypto_expiry now period days, recur'))"

definition handle_seed_slots :: "auth_error faults \<Rightarrow> env \<Rightarrow> form \<Rightarrow> auth_db \<Rightarrow> auth_db" where
  "handle_seed_slots flt ev v d =
     (case get_or_create_user flt ev d (v ''email'') of
        (Inl e, d1) \<Rightarrow> d1
      | (Inr (u, _), d1) \<Rightarrow>
          let q = fst (parse_int (v ''quantity'')); packs = (if q < 1 then 1 else if q > 2 then 2 else q)
          in snd (set_seed_slots flt 4 (e_now ev) d1 (u_id u) packs (v ''subscription_id'')))"

definition handle_plan_sale :: "auth_error faults \<Rightarrow> env \<Rightarrow> form \<Rightarrow> string \<Rightarrow> auth_db \<Rightarrow> auth_db" where
  "handle_plan_sale flt ev v pid d =
     (let permalink = v ''permalink''; period = recurrence_from_product permalink;
          price = fst (parse_int (v ''price''))
      in if price > 0 \<and> \<not> validate_price pid period price then d
      else case resolve_sale_user flt ev d (v ''email'') (v ''subscription_id'') of
        (Inl e, d1) \<Rightarrow> d1
      | (Inr (u, _), d1) \<Rightarrow>
        let recur0 = (if v ''recurrence'' = [] then period else v ''recurrence'');
            (ex0, recur) = sale_expiry (e_now ev) period permalink recur0;
            ex = (if expires_at u > e_now ev \<and> \<not> is_paused u \<and> u_plan u \<noteq> ''free'' \<and> period \<noteq> ''lifetime''
                  then ex0 + (expires_at u - e_now ev) else ex0)
        in (case update_plan flt 4 (e_now ev) d1 (u_id u) pid (v ''subscription_id'') (v ''license_key'') recur ex of
              (Inl e, d2) \<Rightarrow> d2
            | (Inr _, d2) \<Rightarrow>
              let d3 = (if v ''sale_id'' = [] then d2
                        else record_processed_sale flt 5 d2 (v ''sale_id'') (u_id u) price (v ''currency''))
              in if recur = ''monthly'' \<or> recur = ''yearly''
                 then credit_referral (after 6 flt) (e_now ev) d3 (u_id u) else d3))"

definition handle_sale :: "auth_error faults \<Rightarrow> env \<Rightarrow> form \<Rightarrow> auth_db \<Rightarrow> auth_db" where
  "handle_sale flt ev v d =
     (if v ''email'' = [] then d
      else if v ''sale_id'' \<noteq> [] \<and> has_processed_sale flt 0 d (v ''sale_id'') then d
      else if v ''permalink'' = seed_slot_product then
        (let d1 = handle_seed_slots (after 1 flt) ev v d in
         if v ''sale_id'' = [] then d1
         else record_processed_sale flt 6 d1 (v ''sale_id'') [] (fst (parse_int (v ''price''))) (v ''currency''))
      else if v ''permalink'' = topup_product then
        (case resolve_sale_user (after 1 flt) ev d (v ''email'') (v ''subscription_id'') of
           (Inl e, d1) \<Rightarrow> d1
         | (Inr (u, _), d1) \<Rightarrow>
             credit_wallet (after 5 flt) (e_now ev) d1 (u_id u) (v ''price'') ''topup:gumroad'' (v ''sale_id''))
      else case map_of by_gumroad_product (v ''permalink'') of
             None \<Rightarrow> d
           | Some pid \<Rightarrow> handle_plan_sale (after 1 flt) ev v pid d)"

definition handle_dispute :: "auth_error faults \<Rightarrow> env \<Rightarrow> form \<Rightarrow> auth_db \<Rightarrow> auth_db" where
  "handle_dispute flt ev v d =
     (if v ''email'' = [] then d else
      case get_by_email flt 0 d (v ''email'') of
        Inl _ \<Rightarrow> d
      | Inr u \<Rightarrow> snd (update_plan flt 1 (e_now ev) d (u_id u) ''free'' [] [] [] 1577836800))"

definition handle_event :: "auth_error faults \<Rightarrow> env \<Rightarrow> form \<Rightarrow> auth_db \<Rightarrow> auth_db" where
  "handle_event flt ev v d =
     (let d1 = (if v ''disputed'' = ''true'' then handle_dispute flt ev v d else d);
          event = v ''resource_name''
      in if event = ''sale'' \<or> event = ''subscription_restarted'' then handle_sale (after 2 flt) ev v d1
         else if (event = ''subscription_ended'' \<or> event = ''refund'') \<and> v ''subscription_id'' \<noteq> [] then
           snd (clear_seed_slots_by_sub flt 4 (e_now ev)
             (snd (downgrade (after 2 flt) (e_now ev) d1 (v ''subscription_id''))) (v ''subscription_id''))
         else d1)"

record invoice =
  inv_id :: string
  inv_status :: string
  inv_store :: string
  inv_meta :: "string \<Rightarrow> string"

definition activate :: "auth_error faults \<Rightarrow> env \<Rightarrow> invoice \<Rightarrow> auth_db \<Rightarrow> auth_db" where
  "activate flt ev iv d =
     (let m = inv_meta iv in
      if m ''email'' = [] then d
      else case get_or_create_user flt ev d (m ''email'') of
        (Inl e, d1) \<Rightarrow> d1
      | (Inr (u, _), d1) \<Rightarrow>
        if m ''type'' = ''topup''
        then credit_wallet (after 4 flt) (e_now ev) d1 (u_id u) (m ''credits'') ''topup:crypto'' (inv_id iv)
        else if m ''plan'' = [] then d1
        else (case get_plan (m ''plan'') of None \<Rightarrow> d1
          | Some _ \<Rightarrow>
            if has_processed_sale flt 4 d1 (inv_id iv) then d1
            else apply_crypto_plan (after 5 flt) ev d1 u (inv_id iv) (m ''plan'') (m ''period'') (scan_int (m ''days''))))"

text \<open>The webhook body only names an invoice: status, store and contents are the ones fetched from the server.\<close>

definition bitcart_webhook :: "auth_error faults \<Rightarrow> env \<Rightarrow> string \<Rightarrow> invoice option \<Rightarrow> auth_db \<Rightarrow> nat \<times> auth_db" where
  "bitcart_webhook flt ev store_id fetched d =
     (case fetched of None \<Rightarrow> (502, d)
      | Some iv \<Rightarrow>
          if inv_status iv \<noteq> ''complete'' then (200, d)
          else if inv_store iv \<noteq> [] \<and> inv_store iv \<noteq> store_id then (200, d)
          else (200, activate flt ev iv d))"

section \<open>Lemmas\<close>

lemma get_by_id_Inr: "get_by_id flt k d i = Inr u \<longleftrightarrow> flt k = None \<and> find (\<lambda>u. u_id u = i) (users d) = Some u"
  by (auto simp: get_by_id_def run_def split: option.splits)

lemma get_by_email_no_faults: "get_by_email no_faults k d e =
    (case find (\<lambda>u. email u = e) (users d) of None \<Rightarrow> Inl AuthNotFound | Some u \<Rightarrow> Inr u)"
  by (simp add: get_by_email_def)

lemma ceil_days_bounds: "x \<le> ceil_days x * day" "ceil_days x * day < x + day"
  by (simp_all add: ceil_days_def)

lemma crypto_expiry_later: "period \<noteq> ''lifetime'' \<Longrightarrow> now + 7 * day \<le> crypto_expiry now period 0"
  by (simp add: crypto_expiry_def)

text \<open>The row of a user after an update of the rows with that user's id.\<close>

lemma find_user_upd:
  assumes "find (\<lambda>u. u_id u = i) us = Some u" and "\<And>r. u_id (f r) = u_id r"
  shows "find (\<lambda>u. u_id u = i) (upd_where (\<lambda>r. u_id r = i) f us) = Some (f u)"
  using find_upd_where_key [of u_id f i i us] assms by simp

section \<open>Properties\<close>

text \<open>
  C35: pausing and resuming never loses paid time and gains less than a day: the account's row after the
  resume is that before the pause, no longer paused, with the pause counted, no banked days and a new expiry, the one returned, and
  the time left on it at the resume is at least the time left at the pause, rounded up to days. An
  expired plan is not refused and comes back with a day.
\<close>

theorem pause_resume_keeps_time:
  assumes "pause_sub flt now d i = (Inr r, d1)" and "find (\<lambda>u. u_id u = i) (users d) = Some u"
    and "\<not> is_paused u" and "resume_sub flt' later d1 i = (Inr ex, d2)"
  shows "find (\<lambda>u. u_id u = i) (users d2) = Some (u\<lparr>expires_at := ex, paused_at := None, remaining_days := 0,
        pause_count := pause_count u + 1, last_paused_at := Some now, u_updated := later\<rparr>)
    \<and> expires_at u - now \<le> ex - later
    \<and> (if expires_at u \<le> now then ex - later = day else ex - later < expires_at u - now + day)"
proof -
  let ?n = "max 1 (ceil_days (expires_at u - now))"
  let ?f = "\<lambda>r. r\<lparr>paused_at := Some now, remaining_days := ?n, pause_count := pause_count r + 1,
      last_paused_at := Some now, u_updated := now\<rparr>"
  have d1: "users d1 = upd_where (\<lambda>r. u_id r = i) ?f (users d)"
    using assms(1-3) by (auto simp: pause_sub_def get_by_id_def run_def Let_def split: option.splits if_splits sum.splits)
  let ?g = "\<lambda>r. r\<lparr>expires_at := ex, paused_at := None, remaining_days := 0, u_updated := later\<rparr>"
  have f1: "find (\<lambda>u. u_id u = i) (users d1) = Some (?f u)"
    unfolding d1 by (rule find_user_upd [OF assms(2)]) simp
  then have ex: "ex = later + ?n * day" and d2: "users d2 = upd_where (\<lambda>r. u_id r = i) ?g (users d1)"
    using assms(4) by (auto simp: resume_sub_def get_by_id_def run_def Let_def is_paused_def split: option.splits if_splits sum.splits)
  have "find (\<lambda>u. u_id u = i) (users d2) = Some (?g (?f u))"
    unfolding d2 by (rule find_user_upd [OF f1]) simp
  then have row: "find (\<lambda>u. u_id u = i) (users d2) = Some (u\<lparr>expires_at := ex, paused_at := None, remaining_days := 0,
        pause_count := pause_count u + 1, last_paused_at := Some now, u_updated := later\<rparr>)" by simp
  show ?thesis
  proof (cases "expires_at u \<le> now")
    case True
    then have "ceil_days (expires_at u - now) \<le> 0"
      using ceil_days_bounds(2) [of "expires_at u - now"] by linarith
    then have "?n = 1" by simp
    with ex True row show ?thesis by simp
  next
    case False
    then have "1 \<le> ceil_days (expires_at u - now)"
      using ceil_days_bounds(1) [of "expires_at u - now"] by linarith
    then have "?n = ceil_days (expires_at u - now)" by simp
    with ex False row ceil_days_bounds [of "expires_at u - now"] show ?thesis by simp
  qed
qed

definition sample_user :: user where
  "sample_user = \<lparr>u_id = ''u1'', email = ''ann@x.org'', api_key = ''k1'', u_plan = ''pro'', subscription_id = [],
     license_key = [], recurrence = ''yearly'', expires_at = 100 * day, paused_at = None, remaining_days = 0,
     pause_count = 0, last_paused_at = None, banned = False, ban_reason = [], u_created = 0, u_updated = 0,
     seed_slot_packs = 0, seed_slot_sub = [], system_indexer_enabled = True, totp_enabled = False,
     usenet_streaming = False, referral_code = ''c1'', referred_by = []\<rparr>"

definition billing_db :: auth_db where
  "billing_db = empty_auth\<lparr>users := [sample_user, sample_user\<lparr>u_id := ''u2'', email := ''bob@x.org'',
     api_key := ''k2'', referral_code := ''c2'', referred_by := ''u1''\<rparr>]\<rparr>"

lemmas billing_eval = billing_db_def sample_user_def empty_auth_def get_by_id_def is_paused_def Let_def

theorem pause_resume_keeps_time_witness:
  "\<exists>row. find (\<lambda>u. u_id u = ''u1'') (users (snd (resume_sub no_faults 500 (snd (pause_sub no_faults 40 billing_db ''u1'')) ''u1''))) = Some row
     \<and> \<not> is_paused row \<and> 100 * day - 40 \<le> expires_at row - 500"
proof -
  let ?p = "pause_sub no_faults 40 billing_db ''u1''"
  have p: "?p = (Inr 100, snd ?p)" by (simp add: pause_sub_def billing_eval ceil_days_def)
  have f: "find (\<lambda>u. u_id u = ''u1'') (users billing_db) = Some sample_user" "\<not> is_paused sample_user"
    "expires_at sample_user = 100 * day"
    by (simp_all add: billing_eval)
  let ?r = "resume_sub no_faults 500 (snd ?p) ''u1''"
  have r: "?r = (Inr (500 + 100 * day), snd ?r)"
    by (simp add: resume_sub_def pause_sub_def billing_eval ceil_days_def)
  from pause_resume_keeps_time [OF p f(1,2) r] show ?thesis by (auto simp: f(3) is_paused_def)
qed

text \<open>
  The referral reward is capped from above and not from below: a referrer whose plan runs for
  more than thirty days is cut back to thirty when a referred user pays.
\<close>

theorem referral_reward_cuts_long_plans:
  assumes "find (\<lambda>u. u_id u = buyer) (users d) = Some b" and "referred_by b = i" and "i \<noteq> []"
    and "find (\<lambda>u. u_id u = i) (users d) = Some a" and "now + 30 * day < expires_at a"
  shows "\<exists>a'. find (\<lambda>u. u_id u = i) (users (credit_referral no_faults now d buyer)) = Some a'
     \<and> expires_at a' = now + 30 * day \<and> expires_at a' < expires_at a"
proof -
  have r: "rewarded_expiry now (expires_at a) = now + 30 * day"
    using assms(5) by (simp add: rewarded_expiry_def referral_max_days_def referral_days_per_payment_def Let_def)
  let ?d = "mark_referral_paid no_faults 1 d buyer"
  have u: "users (mark_referral_paid no_faults k d buyer) = users d" for k by (simp add: mark_referral_paid_def)
  have c: "credit_referral no_faults now d buyer = apply_referral_reward no_faults 2 now ?d i"
    using assms(1-3) by (simp add: credit_referral_def get_referrer_id_def Let_def)
  let ?f = "\<lambda>u. u\<lparr>expires_at := rewarded_expiry now (expires_at a), u_updated := now\<rparr>"
  have "users (credit_referral no_faults now d buyer) = upd_where (\<lambda>u. u_id u = i) ?f (users d)"
    unfolding c apply_referral_reward_def get_by_id_def using assms(4) by (simp add: u)
  then have "find (\<lambda>u. u_id u = i) (users (credit_referral no_faults now d buyer)) = Some (?f a)"
    using find_user_upd [OF assms(4), of ?f] by simp
  with r assms(5) show ?thesis by auto
qed

theorem referral_reward_cuts_long_plans_witness:
  "\<exists>a'. find (\<lambda>u. u_id u = ''u1'') (users (credit_referral no_faults 0 billing_db ''u2'')) = Some a'
     \<and> expires_at a' = 30 * day \<and> expires_at a' < 100 * day"
proof -
  have "find (\<lambda>u. u_id u = ''u1'') (users billing_db) = Some sample_user" "expires_at sample_user = 100 * day"
    by (simp_all add: billing_eval)
  then show ?thesis
    using referral_reward_cuts_long_plans [of "''u2''" billing_db "sample_user\<lparr>u_id := ''u2'', email := ''bob@x.org'',
     api_key := ''k2'', referral_code := ''c2'', referred_by := ''u1''\<rparr>" "''u1''" sample_user 0]
    by (simp add: billing_db_def) (simp add: sample_user_def)
qed

text \<open>
  Buying a plan adds its time to what is left, but only while the clock runs: a customer with an
  active paid plan keeps the remaining seconds on top of the new period, while the days banked by a
  paused plan are erased by the purchase.
\<close>

theorem purchase_keeps_running_time_only:
  assumes "find (\<lambda>u. u_id u = i) (users d) = Some u" and "u_plan u \<noteq> ''free''" and "now < expires_at u"
    and "period \<noteq> ''lifetime''" and "grant_plan no_faults k now d u pid period sub lic days = (r, d')"
  shows "\<exists>u'. find (\<lambda>u. u_id u = i) (users d') = Some u' \<and> remaining_days u' = 0 \<and> paused_at u' = None
    \<and> expires_at u' = crypto_expiry now period days + (if is_paused u then 0 else expires_at u - now)"
proof -
  have i: "u_id u = i" using find_Some_mem [OF assms(1)] by simp
  let ?f = "planned_row now pid sub lic period (plan_expiry now u period days)"
  have "users d' = upd_where (\<lambda>r. u_id r = i) ?f (users d)"
    using assms(5) by (auto simp: grant_plan_def update_plan_def set_plan_def i)
  then have "find (\<lambda>u. u_id u = i) (users d') = Some (?f u)"
    using find_user_upd [OF assms(1), of ?f] by (simp add: planned_row_def)
  then show ?thesis using assms(2-4) by (auto simp: planned_row_def plan_expiry_def Let_def)
qed

theorem purchase_keeps_running_time_only_witness:
  "\<exists>u'. find (\<lambda>u. u_id u = ''u1'') (users (snd (grant_plan no_faults 0 (40 * day) billing_db sample_user
      ''pro'' ''yearly'' [] [] 0))) = Some u' \<and> expires_at u' = 465 * day"
proof -
  have s: "find (\<lambda>u. u_id u = ''u1'') (users billing_db) = Some sample_user" "u_plan sample_user \<noteq> ''free''"
    "40 * day < expires_at sample_user" "expires_at sample_user = 100 * day" "\<not> is_paused sample_user"
    by (simp_all add: billing_eval)
  obtain r d' where g: "grant_plan no_faults 0 (40 * day) billing_db sample_user ''pro'' ''yearly'' [] [] 0 = (r, d')"
    by fastforce
  from purchase_keeps_running_time_only [OF s(1-3) _ g] g show ?thesis
    by (auto simp: s crypto_expiry_def)
qed

text \<open>
  Webhooks look accounts up by the address as typed while accounts are stored under the
  normalised one: a sale for an existing account whose address was typed differently (capitals, a
  plus tag, dots at gmail) changes nothing: the payment is dropped.
\<close>

theorem sale_lost_for_unnormalized_email:
  assumes "find (\<lambda>u. email u = v ''email'') (users d) = None"
    and "a \<in> set (users d)" and "email a = normalize_email (v ''email'')"
    and "\<forall>u\<in>set (users d). subscription_id u \<noteq> v ''subscription_id'' \<or> v ''subscription_id'' = []"
    and "v ''permalink'' \<noteq> seed_slot_product"
  shows "handle_sale no_faults ev v d = d"
proof -
  let ?e = "v ''email''"
  have c: "fst (create_user no_faults ev d ?e []) \<in> range Inl \<and> snd (create_user no_faults ev d ?e []) = d"
    using assms(2,3) by (auto simp: create_user_def Let_def new_user_def list_ex_iff)
  have g: "\<exists>er. get_or_create_user no_faults ev d ?e = (Inl er, d)"
    using c assms(1) by (auto simp: get_or_create_user_def get_by_email_no_faults split: prod.splits sum.splits)
  have "\<exists>er. resolve_sale_user no_faults ev d ?e (v ''subscription_id'') = (Inl er, d)"
  proof (cases "v ''subscription_id'' = []")
    case False
    then have "filter (\<lambda>u. subscription_id u = v ''subscription_id'') (users d) = []"
      using assms(4) by (auto simp: filter_empty_conv)
    with g False show ?thesis by (simp add: resolve_sale_user_def get_by_subscription_def)
  qed (use g in \<open>simp add: resolve_sale_user_def\<close>)
  then show ?thesis
    using assms(5) by (auto simp: handle_sale_def handle_plan_sale_def Let_def split: option.splits)
qed

definition lost_sale :: form where
  "lost_sale k = (if k = ''email'' then ''Ann@X.org'' else if k = ''permalink'' then ''torrin-pro-yearly''
     else if k = ''sale_id'' then ''s1'' else if k = ''price'' then ''11500'' else [])"

theorem sale_lost_for_unnormalized_email_witness:
  "handle_sale no_faults \<lparr>e_now = 5, e_id = ''n'', e_key = ''nk'', e_code = ''nc'', e_burner = \<lambda>_. False,
     e_switches = \<lparr>lifetime_enabled = True, black_friday = False, day_plans_enabled = True\<rparr>\<rparr> lost_sale billing_db
   = billing_db"
proof (rule sale_lost_for_unnormalized_email)
  show "sample_user \<in> set (users billing_db)" by (simp add: billing_db_def)
  show "email sample_user = normalize_email (lost_sale ''email'')"
    by (code_simp)
  show "find (\<lambda>u. email u = lost_sale ''email'') (users billing_db) = None"
    by (simp add: lost_sale_def billing_db_def sample_user_def)
qed (simp_all add: lost_sale_def seed_slot_product_def)

end
