(* ===== verification/Scheduler.thy ===== *)
theory Scheduler
  imports Cluster Job_Queue Billing "HOL-Library.Product_Lexorder"
begin

text \<open>
  The queue scheduler of \<open>api/cmd/workers.go\<close> and the slot tracker of \<open>api/internal/middleware/slots.go\<close>
  over the tables of \<open>shared/auth\<close> it consults. A pass of the scheduler runs against a database that
  others change: a \<open>visit\<close> holds, for one candidate, the accounts as they are then, the clock, the
  faults of its statements, and what the others do before its first statement, while it waits for
  the admission lock, and between the promotion and the assignment.
\<close>

section \<open>Accounts\<close>

record account_db =
  ac_auth :: auth_db
  ac_cairns :: "(string \<times> string) list"
  ac_creds :: "string list"
  ac_providers :: "(string \<times> bool) list"
  ac_usage :: "(string \<times> string \<times> int) list"

text \<open>\<open>month\<close> is the current month as \<open>ingestMonth\<close> formats it; months compare as strings.\<close>

definition add_ingest_usage :: "auth_error faults \<Rightarrow> string \<Rightarrow> account_db \<Rightarrow> string \<Rightarrow> int
    \<Rightarrow> (auth_error + unit) \<times> account_db" where
  "add_ingest_usage flt month ac u n =
     (if n \<le> 0 \<or> u = [] then (Inr (), ac)
      else in_tx ac (bindE (run flt 0 ()) (\<lambda>_.
        let same = (\<lambda>(u', m, _). u' = u \<and> m = month) in
        Inr ((), ac\<lparr>ac_usage := if list_ex same (ac_usage ac)
             then upd_where same (\<lambda>(u', m, b). (u', m, b + n)) (ac_usage ac)
             else ac_usage ac @ [(u, month, n)]\<rparr>))))"

definition monthly_ingest_bytes :: "auth_error faults \<Rightarrow> nat \<Rightarrow> string \<Rightarrow> account_db \<Rightarrow> string \<Rightarrow> auth_error + int" where
  "monthly_ingest_bytes flt k month ac u =
     run flt k (sum_where (\<lambda>(u', m, _). u' = u \<and> m = month) (\<lambda>(_, _, b). b) (ac_usage ac))"

definition monthly_quota_exceeded :: "auth_error faults \<Rightarrow> nat \<Rightarrow> string \<Rightarrow> string \<Rightarrow> account_db \<Rightarrow> string \<Rightarrow> int
    \<Rightarrow> auth_error + bool" where
  "monthly_quota_exceeded flt k enforce month ac u cap =
     (if cap \<le> 0 \<or> enforce = [] \<or> month < enforce then Inr False
      else bindE (monthly_ingest_bytes flt k month ac u) (\<lambda>used. Inr (used \<ge> cap)))"

text \<open>A failed query of \<open>HasUserCairn\<close> leaves its result \<open>false\<close>.\<close>

definition has_user_cairn :: "auth_error faults \<Rightarrow> nat \<Rightarrow> account_db \<Rightarrow> string \<Rightarrow> string \<Rightarrow> bool" where
  "has_user_cairn flt k ac u h \<longleftrightarrow> flt k = None \<and> (u, h) \<in> set (ac_cairns ac)"

definition get_usenet_creds :: "auth_error faults \<Rightarrow> nat \<Rightarrow> account_db \<Rightarrow> string \<Rightarrow> auth_error + unit" where
  "get_usenet_creds flt k ac u =
     bindE (run flt k ()) (\<lambda>_. if u \<in> set (ac_creds ac) then Inr ()
       else Inl (AuthRefused ''no usenet credentials configured''))"

definition enabled_usenet_providers :: "auth_error faults \<Rightarrow> nat \<Rightarrow> account_db \<Rightarrow> string
    \<Rightarrow> auth_error + (string \<times> bool) list" where
  "enabled_usenet_providers flt k ac u = run flt k (filter (\<lambda>(u', on). u' = u \<and> on) (ac_providers ac))"

section \<open>Who may run a queued job\<close>

definition has_usenet_creds :: "auth_error faults \<Rightarrow> nat \<Rightarrow> account_db \<Rightarrow> string \<Rightarrow> bool" where
  "has_usenet_creds flt k ac u =
     (case get_usenet_creds flt k ac u of Inr _ \<Rightarrow> True
      | Inl _ \<Rightarrow> (case enabled_usenet_providers flt (Suc k) ac u of Inl _ \<Rightarrow> False | Inr ps \<Rightarrow> length ps > 0))"

definition plan_for_user :: "user \<Rightarrow> plan" where
  "plan_for_user u = (case get_plan (u_plan u) of None \<Rightarrow> free_plan | Some p \<Rightarrow> p)"

definition usenet_job_entitled :: "plan \<Rightarrow> bool \<Rightarrow> bool \<Rightarrow> bool" where
  "usenet_job_entitled p has_cairn has_creds \<longleftrightarrow>
     has_cairn \<or> (has_creds \<and> can_byok (plan_id p)) \<or> system_usenet p"

definition queued_source_entitled :: "auth_error faults \<Rightarrow> nat \<Rightarrow> account_db \<Rightarrow> user \<Rightarrow> plan \<Rightarrow> job \<Rightarrow> bool" where
  "queued_source_entitled flt k ac u p j =
     (if source j \<in> {SourceHoster, SourceHDEncode, SourceScenerls} then plan_id p \<noteq> ''free''
      else if source j = SourceUsenet then
        (let has_cairn = has_user_cairn flt k ac (u_id u) (info_hash j) in
         usenet_job_entitled p has_cairn (has_usenet_creds flt (Suc k) ac (u_id u)))
      else True)"

record visit =
  vi_acct :: account_db
  vi_now :: int
  vi_month :: string
  vi_enforce :: string
  vi_aflt :: "auth_error faults"
  vi_jflt :: "db_error faults"
  vi_cluster :: cluster
  vi_sizer :: "db \<Rightarrow> sizer"
  vi_before :: "db \<Rightarrow> db"
  vi_lock :: "db \<Rightarrow> db"
  vi_mid :: "db \<Rightarrow> db"

definition eligible_user :: "visit \<Rightarrow> job \<Rightarrow> (user \<times> plan) option" where
  "eligible_user v j =
     (case get_by_id (vi_aflt v) 0 (ac_auth (vi_acct v)) (user_id j) of Inl _ \<Rightarrow> None
      | Inr u \<Rightarrow>
        if banned u \<or> is_paused u \<or> vi_now v > expires_at u then None
        else let p = plan_for_user u in
          (case monthly_quota_exceeded (vi_aflt v) 1 (vi_enforce v) (vi_month v) (vi_acct v) (u_id u)
                  (Plans.monthly_ingest_bytes p) of
             Inl _ \<Rightarrow> None | Inr over \<Rightarrow> if over then None else Some (u, p)))"

section \<open>A pass over the queue\<close>

text \<open>\<open>ListByStatus\<close>: highest priority first, then oldest, then smallest id.\<close>

definition list_by_status :: "db \<Rightarrow> status \<Rightarrow> job list" where
  "list_by_status d s =
     sort_key (\<lambda>j. (- priority j, created_at j, jid j)) (filter (\<lambda>j. status j = s) (jobs_t d))"

datatype bus_event = JobFailed string string | JobAssigned assigned

definition unsupported_reason :: string where
  "unsupported_reason = ''your current plan no longer supports this download source''"

text \<open>The loop body of \<open>drain\<close>: what it publishes and the table it leaves.\<close>

definition drain_one :: "int \<Rightarrow> visit \<Rightarrow> job \<Rightarrow> db \<Rightarrow> bus_event list \<times> db" where
  "drain_one budget v c d =
     (let d1 = vi_before v d in
      case eligible_user v c of None \<Rightarrow> ([], d1)
      | Some (u, p) \<Rightarrow>
        if \<not> queued_source_entitled (vi_aflt v) 2 (vi_acct v) u p c then
          (case fail_queued (vi_jflt v) (vi_now v) d1 (jid c) unsupported_reason of
             (Inr True, d2) \<Rightarrow> ([JobFailed (jid c) unsupported_reason], d2)
           | (_, d2) \<Rightarrow> ([], d2))
        else (case promote_queued (vi_jflt v) (vi_now v) d1 (vi_lock v d1) (jid c) (max_concurrent p) budget of
             (Inr (Some j), d2) \<Rightarrow>
               let d3 = vi_mid v d2; (a, d4) = assign (vi_cluster v) (vi_sizer v d3) (vi_jflt v) 12 (vi_now v) d3 j
               in ([JobAssigned a], d4)
           | (_, d2) \<Rightarrow> ([], d2)))"

fun drain_loop :: "int \<Rightarrow> (nat \<Rightarrow> visit) \<Rightarrow> nat \<Rightarrow> job list \<Rightarrow> db \<Rightarrow> bus_event list \<times> db" where
  "drain_loop budget vs k [] d = ([], d)"
| "drain_loop budget vs k (c # cs) d =
     (let (ev, d1) = drain_one budget (vs k) c d; (evs, d2) = drain_loop budget vs (Suc k) cs d1
      in (ev @ evs, d2))"

text \<open>\<open>refreshPriorities\<close>: whether a row changed, and the table.\<close>

definition refresh_one :: "visit \<Rightarrow> job \<Rightarrow> db \<Rightarrow> bool \<times> db" where
  "refresh_one v j d =
     (let d1 = vi_before v d in
      case get_by_id (vi_aflt v) 0 (ac_auth (vi_acct v)) (user_id j) of Inl _ \<Rightarrow> (False, d1)
      | Inr u \<Rightarrow>
          let p = plan_priority (plan_for_user u) in
          if priority j = p then (False, d1)
          else case set_queued_priority (vi_jflt v) (vi_now v) d1 (jid j) p of
                 (Inr upd, d') \<Rightarrow> (upd, d') | (Inl _, d') \<Rightarrow> (False, d'))"

fun refresh_priorities :: "(nat \<Rightarrow> visit) \<Rightarrow> nat \<Rightarrow> job list \<Rightarrow> db \<Rightarrow> bool \<times> db" where
  "refresh_priorities vs k [] d = (False, d)"
| "refresh_priorities vs k (j # js) d =
     (let (changed, d1) = refresh_one (vs k) j d; (rest, d2) = refresh_priorities vs (Suc k) js d1
      in (changed \<or> rest, d2))"

text \<open>\<open>l1\<close> and \<open>l2\<close> say whether the two listings fail; \<open>rv\<close> and \<open>dv\<close> are the visits of the two loops.\<close>

definition drain :: "int \<Rightarrow> bool \<Rightarrow> bool \<Rightarrow> (nat \<Rightarrow> visit) \<Rightarrow> (nat \<Rightarrow> visit) \<Rightarrow> db \<Rightarrow> bus_event list \<times> db" where
  "drain budget l1 l2 rv dv d =
     (if l1 then ([], d)
      else let queued = list_by_status d StatusQueued; (changed, d1) = refresh_priorities rv 0 queued d in
        if \<not> changed then drain_loop budget dv 0 queued d1
        else if l2 then ([], d1)
        else drain_loop budget dv 0 (list_by_status d1 StatusQueued) d1)"

section \<open>The wake signal\<close>

text \<open>A channel of capacity one: a wake while one is pending is dropped; a pass empties it first.\<close>

definition wake :: "nat \<Rightarrow> nat" where
  "wake pending = (if pending < 1 then pending + 1 else pending)"

section \<open>The slot tracker\<close>

text \<open>
  \<open>SlotTracker.Admit\<close> and \<open>Readmit\<close> on the PostgreSQL repository (the fallback for other
  repositories serves unit tests). The result carries whether the scheduler is woken.
\<close>

record slot_tracker =
  sl_budget :: int
  sl_max_queued :: int

definition new_slot_tracker :: slot_tracker where
  "new_slot_tracker = \<lparr>sl_budget = 0, sl_max_queued = 100\<rparr>"

definition configure_slots :: "slot_tracker \<Rightarrow> int \<Rightarrow> int \<Rightarrow> slot_tracker" where
  "configure_slots st b mq = st\<lparr>sl_budget := b, sl_max_queued := if mq > 0 then mq else sl_max_queued st\<rparr>"

definition slot_admit :: "db_error faults \<Rightarrow> (db_error + string) \<Rightarrow> int \<Rightarrow> slot_tracker \<Rightarrow> db \<Rightarrow> job \<Rightarrow> plan \<Rightarrow> bool
    \<Rightarrow> (db_error + admission \<times> job) \<times> bool \<times> db" where
  "slot_admit flt uuid now st d j p gated =
     (let j1 = j\<lparr>budget_gated := gated, max_bytes := max_torrent_bytes p, priority := plan_priority p\<rparr>;
          (res, d') = admit flt uuid now d j1 (max_concurrent p) (sl_max_queued st) (sl_budget st)
      in (res, (case res of Inr (a, _) \<Rightarrow> a = AdmissionQueued | Inl _ \<Rightarrow> False), d'))"

definition slot_readmit :: "db_error faults \<Rightarrow> int \<Rightarrow> slot_tracker \<Rightarrow> db \<Rightarrow> db \<Rightarrow> string \<Rightarrow> plan
    \<Rightarrow> (db_error + admission \<times> job) \<times> bool \<times> db" where
  "slot_readmit flt now st d0 d i p =
     (let (res, d') = readmit flt now d0 d i (max_concurrent p) (sl_max_queued st) (sl_budget st)
      in (res, (case res of Inr (a, _) \<Rightarrow> a = AdmissionQueued | Inl _ \<Rightarrow> False), d'))"

section \<open>A pass is a sequence of steps of the queue\<close>

text \<open>
  Ids are UUIDs: \<open>own\<close> gives the account each id is issued to. Rows handed over to the system
  account are not queued.
\<close>

definition owned :: "(string \<Rightarrow> string) \<Rightarrow> db \<Rightarrow> bool" where
  "owned own d \<longleftrightarrow> (\<forall>r\<in>set (jobs_t d). status r = StatusQueued \<longrightarrow> user_id r = own (jid r))"

definition sound :: "(string \<Rightarrow> nat) \<Rightarrow> (string \<Rightarrow> nat) \<Rightarrow> (string \<Rightarrow> int) \<Rightarrow> (string \<Rightarrow> string) \<Rightarrow> db \<Rightarrow> bool" where
  "sound n m lim own d \<longleftrightarrow> queue_within n m lim d \<and> owned own d"

text \<open>
  What the others may do: they keep the table within the limits and the slack \<open>n\<close>, \<open>m\<close> (every step of the
  queue does, with any slack; the writes of stale rows use the slack up), and nobody takes a promoted
  row's slot away before \<open>Assign\<close> has written it.
\<close>

definition keeps_claims :: "db \<Rightarrow> db \<Rightarrow> bool" where
  "keeps_claims d d' \<longleftrightarrow> (\<forall>r\<in>set (jobs_t d). \<forall>r'\<in>set (jobs_t d'). jid r' = jid r \<longrightarrow>
     info_hash r' = info_hash r \<and> (holds_slot r \<longrightarrow> user_id r' = user_id r \<and> holds_slot r'))"

definition well_behaved :: "(string \<Rightarrow> nat) \<Rightarrow> (string \<Rightarrow> nat) \<Rightarrow> (string \<Rightarrow> int) \<Rightarrow> (string \<Rightarrow> string) \<Rightarrow> visit \<Rightarrow> bool" where
  "well_behaved n m lim own v \<longleftrightarrow>
     (\<forall>d. sound n m lim own d \<longrightarrow> sound n m lim own (vi_before v d) \<and> sound n m lim own (vi_lock v d)
        \<and> sound n m lim own (vi_mid v d) \<and> keeps_claims d (vi_mid v d))
   \<and> (\<forall>u\<in>set (users (ac_auth (vi_acct v))). max_concurrent (plan_for_user u) = lim (u_id u))"

lemma owned_upd:
  assumes "owned own d" and "\<And>r. r \<in> set (jobs_t d) \<Longrightarrow> sel r \<Longrightarrow> status (f r) = StatusQueued \<Longrightarrow>
      status r = StatusQueued \<and> user_id (f r) = user_id r \<and> jid (f r) = jid r"
  shows "owned own (d\<lparr>jobs_t := upd_where sel f (jobs_t d)\<rparr>)"
  using assms by (fastforce simp: owned_def upd_where_def)

lemma soundD: "sound n m lim own d \<Longrightarrow> queue_within n m lim d" "sound n m lim own d \<Longrightarrow> owned own d"
  by (simp_all add: sound_def)

lemma eligible_user_Some:
  assumes "eligible_user v c = Some (u, p)"
  shows "u \<in> set (users (ac_auth (vi_acct v)))" "u_id u = user_id c" "p = plan_for_user u"
    "\<not> banned u" "\<not> is_paused u" "vi_now v \<le> expires_at u"
  using assms find_Some_mem [of "\<lambda>u. u_id u = user_id c" "users (ac_auth (vi_acct v))"]
  by (auto simp: eligible_user_def get_by_id_Inr Let_def split: sum.splits if_splits)

lemma fail_queued_sound:
  assumes "fail_queued flt now d i reason = (res, d')" and "sound n m lim own d"
  shows "sound n m lim own d'"
proof -
  have "owned own d'"
    using assms by (auto simp: fail_queued_def run_def sound_def Let_def split: option.splits intro!: owned_upd)
  then show ?thesis
    using assms queue_step_within [OF queue_step.fail] by (auto simp: sound_def)
qed

lemma set_queued_priority_sound:
  assumes "set_queued_priority flt now d i p = (res, d')" and "sound n m lim own d"
  shows "sound n m lim own d'"
proof -
  have "owned own d'"
    using assms by (auto simp: set_queued_priority_def run_def sound_def Let_def split: option.splits intro!: owned_upd)
  then show ?thesis
    using assms queue_step_within [OF queue_step.priority] by (auto simp: sound_def)
qed

lemma promote_sound:
  assumes p: "promote_queued flt now d0 d (jid c) mc b = (res, d')" and s: "sound n m lim own d"
    and c: "user_id c = own (jid c)" "mc = lim (user_id c)"
  shows "sound n m lim own d'"
proof -
  have "owned own d'"
    using promote_effect [OF p] soundD(2) [OF s]
    by (auto simp: promoted_row_def intro!: owned_upd)
  moreover have "queue_step lim d d'"
  proof (rule queue_step.promote [OF p])
    fix r assume "r \<in> set (jobs_t d)" "jid r = jid c" "status r = StatusQueued"
    with soundD(2) [OF s] c show "mc = lim (user_id r)" by (auto simp: owned_def)
  qed
  ultimately show ?thesis using queue_step_within soundD(1) [OF s] by (auto simp: sound_def)
qed

lemma promoted_holds:
  assumes "promote_queued flt now d0 d i mc b = (Inr (Some j), d')"
  shows "j \<in> set (jobs_t d') \<and> status j = StatusPending \<and> jid j = i"
  using promoted_Some [OF assms]
  by (force simp: promoted_row_def upd_where_def)

lemma update_job_mem:
  "update_job flt k now d j = (res, d') \<Longrightarrow>
     d' = d \<or> d' = d\<lparr>jobs_t := upd_where (\<lambda>r. jid r = jid j) (updated_row now j) (jobs_t d)\<rparr>"
  by (auto simp: update_job_def in_tx_def run_def split: if_splits option.splits)

text \<open>The write of \<open>Assign\<close> is a worker's write if the promoted row still holds its slot.\<close>

lemma assign_sound:
  assumes "j \<in> set (jobs_t d0)" and j: "status j = StatusPending" and k: "keeps_claims d0 d" and s: "sound n m lim own d"
  shows "sound n m lim own (snd (assign cl sz flt k now d j))"
proof -
  let ?j = "j\<lparr>node := assign_node cl sz j\<rparr>"
  obtain res d' where u: "update_job flt k now d ?j = (res, d')" by fastforce
  have "worker_write d ?j"
    using assms(1,2) k by (fastforce simp: worker_write_def keeps_claims_def holds_slot_def)
  then have "queue_within n m lim d'"
    using queue_step_within [OF queue_step.worker [OF u]] soundD(1) [OF s] by blast
  moreover have "owned own d'"
    using update_job_mem [OF u] soundD(2) [OF s] j by (auto simp: updated_row_def intro!: owned_upd)
  ultimately show ?thesis by (simp add: assign_def sound_def Let_def u)
qed

lemma drain_one_sound:
  assumes v: "well_behaved n m lim own v" and s: "sound n m lim own d" and c: "user_id c = own (jid c)"
  shows "sound n m lim own (snd (drain_one budget v c d))"
proof -
  let ?d1 = "vi_before v d"
  have s1: "sound n m lim own ?d1" and s2: "sound n m lim own (vi_lock v ?d1)"
    and mid: "\<And>e. sound n m lim own e \<Longrightarrow> sound n m lim own (vi_mid v e) \<and> keeps_claims e (vi_mid v e)"
    using v s by (auto simp: well_behaved_def)
  show ?thesis
  proof (cases "eligible_user v c")
    case None
    with s1 show ?thesis by (simp add: drain_one_def)
  next
    case (Some up)
    obtain u p where up: "up = (u, p)" by (cases up)
    note e = eligible_user_Some [OF Some [unfolded up]]
    have lim: "max_concurrent p = lim (user_id c)" using v e(1,2,3) by (auto simp: well_behaved_def)
    show ?thesis
    proof (cases "queued_source_entitled (vi_aflt v) 2 (vi_acct v) u p c")
      case False
      obtain res d2 where f: "fail_queued (vi_jflt v) (vi_now v) ?d1 (jid c) unsupported_reason = (res, d2)" by fastforce
      with Some up False fail_queued_sound [OF f s1] show ?thesis
        by (auto simp: drain_one_def split: sum.splits bool.splits)
    next
      case True
      obtain res d2 where p: "promote_queued (vi_jflt v) (vi_now v) ?d1 (vi_lock v ?d1) (jid c) (max_concurrent p) budget = (res, d2)"
        by fastforce
      note s3 = promote_sound [where c = c, OF p s2 c lim]
      show ?thesis
      proof (cases "\<exists>j. res = Inr (Some j)")
        case False
        with Some up True p s3 show ?thesis by (auto simp: drain_one_def split: sum.splits option.splits)
      next
        case True2: True
        then obtain j where "res = Inr (Some j)" by blast
        with p have "promote_queued (vi_jflt v) (vi_now v) ?d1 (vi_lock v ?d1) (jid c) (max_concurrent p) budget
            = (Inr (Some j), d2)" by simp
        note h = promoted_holds [OF this]
        have "sound n m lim own (snd (assign (vi_cluster v) (vi_sizer v (vi_mid v d2)) (vi_jflt v) 12 (vi_now v) (vi_mid v d2) j))"
          using assign_sound [of j d2] h mid [OF s3] by blast
        with Some up True p \<open>res = Inr (Some j)\<close> show ?thesis
          by (simp add: drain_one_def Let_def case_prod_beta)
      qed
    qed
  qed
qed

lemma drain_loop_sound:
  assumes "\<And>k. well_behaved n m lim own (vs k)" and "sound n m lim own d" and "\<forall>c\<in>set cs. user_id c = own (jid c)"
  shows "sound n m lim own (snd (drain_loop budget vs k cs d))"
  using assms(2,3)
proof (induction cs arbitrary: k d)
  case (Cons c cs)
  then have "sound n m lim own (snd (drain_one budget (vs k) c d))"
    using drain_one_sound [OF assms(1)] by simp
  from Cons.IH [OF this] Cons.prems(2) show ?case by (simp add: Let_def case_prod_beta)
qed simp

lemma refresh_one_sound:
  assumes "well_behaved n m lim own v" and "sound n m lim own d"
  shows "sound n m lim own (snd (refresh_one v j d))"
proof -
  have "sound n m lim own (vi_before v d)" using assms by (auto simp: well_behaved_def)
  with set_queued_priority_sound [OF _ this] show ?thesis
    by (auto simp: refresh_one_def Let_def split: sum.splits prod.splits)
qed

lemma refresh_priorities_sound:
  assumes "\<And>k. well_behaved n m lim own (vs k)" and "sound n m lim own d"
  shows "sound n m lim own (snd (refresh_priorities vs k js d))"
  using assms(2)
proof (induction js arbitrary: k d)
  case (Cons j js)
  from Cons.IH [OF refresh_one_sound [OF assms(1) Cons.prems]] show ?case
    by (simp add: Let_def case_prod_beta)
qed simp

lemma list_by_status_mem: "j \<in> set (list_by_status d s) \<longleftrightarrow> j \<in> set (jobs_t d) \<and> status j = s"
  by (auto simp: list_by_status_def)

lemma queued_owned: "sound n m lim own d \<Longrightarrow> \<forall>c\<in>set (list_by_status d StatusQueued). user_id c = own (jid c)"
  by (auto simp: list_by_status_mem sound_def owned_def)

lemma drain_sound:
  assumes "\<And>k. well_behaved n m lim own (rv k)" and "\<And>k. well_behaved n m lim own (dv k)" and "sound n m lim own d"
  shows "sound n m lim own (snd (drain budget l1 l2 rv dv d))"
proof -
  obtain ch d1 where r: "refresh_priorities rv 0 (list_by_status d StatusQueued) d = (ch, d1)" by fastforce
  have s1: "sound n m lim own d1" using refresh_priorities_sound [where vs = rv and k = 0 and js = "list_by_status d StatusQueued", OF assms(1,3)]
    by (simp add: r)
  have "sound n m lim own (snd (drain_loop budget dv 0 (list_by_status d StatusQueued) d1))"
    by (rule drain_loop_sound [OF assms(2) s1 queued_owned [OF assms(3)]])
  moreover have "sound n m lim own (snd (drain_loop budget dv 0 (list_by_status d1 StatusQueued) d1))"
    by (rule drain_loop_sound [OF assms(2) s1 queued_owned [OF s1]])
  moreover note s1 assms(3)
  ultimately show ?thesis
    by (cases l1; cases l2; cases ch) (simp_all add: drain_def r)
qed

section \<open>What a pass publishes\<close>

definition justified :: "visit \<Rightarrow> job \<Rightarrow> bus_event \<Rightarrow> bool" where
  "justified v c e \<longleftrightarrow> (\<exists>u p. eligible_user v c = Some (u, p) \<and> u \<in> set (users (ac_auth (vi_acct v)))
     \<and> u_id u = user_id c \<and> \<not> banned u \<and> \<not> is_paused u \<and> vi_now v \<le> expires_at u
     \<and> (case e of
          JobAssigned a \<Rightarrow> as_job a = jid c \<and> queued_source_entitled (vi_aflt v) 2 (vi_acct v) u p c
            \<and> as_node a \<in> set (ordered_nodes (vi_cluster v))
        | JobFailed i r \<Rightarrow> i = jid c \<and> \<not> queued_source_entitled (vi_aflt v) 2 (vi_acct v) u p c))"

lemma drain_one_justified: "e \<in> set (fst (drain_one budget v c d)) \<Longrightarrow> justified v c e"
proof -
  assume e: "e \<in> set (fst (drain_one budget v c d))"
  then obtain u p where up: "eligible_user v c = Some (u, p)"
    by (auto simp: drain_one_def Let_def split: option.splits)
  note el = eligible_user_Some [OF up]
  have j: "jid j = jid c" if "promote_queued flt now d0 d1 (jid c) mc b = (Inr (Some j), d2)" for flt now d0 d1 mc b j d2
    using promoted_holds [OF that] by simp
  show ?thesis
  proof (cases "queued_source_entitled (vi_aflt v) 2 (vi_acct v) u p c")
    case False
    with e up el show ?thesis
      by (auto simp: drain_one_def justified_def Let_def split: sum.splits bool.splits prod.splits)
  next
    case True
    obtain res d2 where p: "promote_queued (vi_jflt v) (vi_now v) (vi_before v d) (vi_lock v (vi_before v d))
        (jid c) (max_concurrent p) budget = (res, d2)" by fastforce
    with e up True obtain j where r: "res = Inr (Some j)"
      by (auto simp: drain_one_def Let_def split: sum.splits option.splits)
    with e up True p have "e = JobAssigned (fst (assign (vi_cluster v) (vi_sizer v (vi_mid v d2)) (vi_jflt v) 12
        (vi_now v) (vi_mid v d2) j))"
      by (simp add: drain_one_def Let_def case_prod_beta)
    with up True el j [OF p [unfolded r]] show ?thesis
      by (auto simp: justified_def assign_def Let_def assign_node_configured)
  qed
qed

lemma drain_loop_justified:
  "e \<in> set (fst (drain_loop budget vs k cs d)) \<Longrightarrow> \<exists>n. \<exists>c\<in>set cs. justified (vs n) c e"
proof (induction cs arbitrary: k d)
  case (Cons c cs)
  obtain ev d1 where o: "drain_one budget (vs k) c d = (ev, d1)" by fastforce
  with Cons.prems consider "e \<in> set ev" | "e \<in> set (fst (drain_loop budget vs (Suc k) cs d1))"
    by (auto simp: Let_def case_prod_beta)
  then show ?case
  proof cases
    case 1
    with drain_one_justified [of e budget "vs k" c d] o show ?thesis by auto
  next
    case 2
    from Cons.IH [OF this] show ?thesis by auto
  qed
qed simp

section \<open>Properties\<close>

text \<open>
  C26: the scheduler adds no excess: a pass that starts within the limits (an account has at most
  its plan's jobs in flight, a hash at most one row), with some slack for writes of stale rows, ends
  within them, whatever statement fails and whatever the workers, the API and other replicas commit
  between its statements, as long as they keep the limits with that slack themselves and nobody
  takes the slot of a row just promoted before its node is written. Without slack it is the plan's
  limit and one row for each hash.
\<close>

theorem drain_keeps_limits:
  assumes "queue_within n m lim d" and "owned own d"
    and "\<And>k. well_behaved n m lim own (rv k)" and "\<And>k. well_behaved n m lim own (dv k)"
  shows "queue_within n m lim (snd (drain budget l1 l2 rv dv d))
    \<and> inflight_count (snd (drain budget l1 l2 rv dv d)) u \<le> normalize_concurrent (lim u) + int (n u)
    \<and> hash_slots (snd (drain budget l1 l2 rv dv d)) h \<le> 1 + m h"
proof -
  have "sound n m lim own (snd (drain budget l1 l2 rv dv d))"
    using drain_sound [OF assms(3,4)] assms(1,2) by (simp add: sound_def)
  then have r: "queue_within n m lim (snd (drain budget l1 l2 rv dv d))" by (rule soundD)
  from queue_withinD(2,3) [OF r] r show ?thesis by (simp add: inflight_slots)
qed

lemma promotes_iff:
  fixes v :: visit and d :: db
  defines "d1 \<equiv> vi_lock v (vi_before v d)"
  assumes "vi_jflt v = no_faults" and "eligible_user v c = Some (u, p)"
    and "queued_source_entitled (vi_aflt v) 2 (vi_acct v) u p c"
    and "r0 \<in> set (jobs_t (vi_before v d))" and "jid r0 = jid c" and "status r0 = StatusQueued"
    and "r \<in> set (jobs_t d1)" and "jid r = jid c" and "status r = StatusQueued"
    and "distinct (map jid (jobs_t (vi_before v d)))" and "distinct (map jid (jobs_t d1))"
  shows "fst (drain_one budget v c d) \<noteq> [] \<longleftrightarrow>
     inflight_count d1 (user_id r) < normalize_concurrent (max_concurrent p)
     \<and> \<not> older_exists d1 r \<and> \<not> same_hash_busy d1 r
     \<and> (budget_gated r \<longrightarrow> promote_budget_headroom \<le> budget - budget_used d1)"
proof -
  have g: "get_job no_faults k e (jid c) = Inr x" if "x \<in> set (jobs_t e)" "jid x = jid c" "distinct (map jid (jobs_t e))" for k e x
    using find_by_key [OF that(3,1)] that(2) by (simp add: get_job_def not_found_def)
  have "fst (drain_one budget v c d) \<noteq> [] \<longleftrightarrow>
     (\<exists>j. fst (promote_queued no_faults (vi_now v) (vi_before v d) d1 (jid c) (max_concurrent p) budget) = Inr (Some j))"
    using assms(2-4) unfolding drain_one_def d1_def
    by (auto simp: Let_def case_prod_beta split: sum.splits option.splits prod.splits)
  also have "\<dots> \<longleftrightarrow> inflight_count d1 (user_id r) < normalize_concurrent (max_concurrent p)
     \<and> \<not> older_exists d1 r \<and> \<not> same_hash_busy d1 r
     \<and> (budget_gated r \<longrightarrow> promote_budget_headroom \<le> budget - budget_used d1)"
    using g [OF assms(5,6,11)] g [OF assms(8,9,12)] assms(7,10)
    by (auto simp: promote_queued_def not_le not_less)
  finally show ?thesis .
qed

text \<open>
  Every job a pass announces was queued, belongs to an existing, unbanned, unpaused, unexpired account
  within its quota whose plan allows the source, and goes to a configured node; every job it fails
  belongs to such an account whose plan, as far as the queries answered, does not allow the source.
\<close>

theorem drain_events_justified:
  "\<forall>e\<in>set (fst (drain budget l1 l2 rv dv d)). \<exists>k c. status c = StatusQueued \<and> justified (dv k) c e"
proof
  fix e
  assume e: "e \<in> set (fst (drain budget l1 l2 rv dv d))"
  obtain ch d1 where "refresh_priorities rv 0 (list_by_status d StatusQueued) d = (ch, d1)" by fastforce
  with e obtain x where "e \<in> set (fst (drain_loop budget dv 0 (list_by_status x StatusQueued) d1))"
    by (auto simp: drain_def split: if_splits)
  from drain_loop_justified [OF this] show "\<exists>k c. status c = StatusQueued \<and> justified (dv k) c e"
    using list_by_status_mem by blast
qed

text \<open>
  The scheduler is work-conserving: when no statement fails, an eligible candidate with an
  entitled source whose row is queued is promoted and announced exactly if its account has a free
  slot, nothing in front of it could run, no row downloads its hash, and the budget has headroom.
\<close>

theorem drain_one_promotes_iff:
  fixes v :: visit and d :: db
  defines "d1 \<equiv> vi_lock v (vi_before v d)"
  assumes "vi_jflt v = no_faults" and "eligible_user v c = Some (u, p)"
    and "queued_source_entitled (vi_aflt v) 2 (vi_acct v) u p c"
    and "r0 \<in> set (jobs_t (vi_before v d))" and "jid r0 = jid c" and "status r0 = StatusQueued"
    and "r \<in> set (jobs_t d1)" and "jid r = jid c" and "status r = StatusQueued"
    and "distinct (map jid (jobs_t (vi_before v d)))" and "distinct (map jid (jobs_t d1))"
  shows "fst (drain_one budget v c d) \<noteq> [] \<longleftrightarrow>
     inflight_count d1 (user_id r) < normalize_concurrent (max_concurrent p)
     \<and> \<not> older_exists d1 r \<and> \<not> same_hash_busy d1 r
     \<and> (budget_gated r \<longrightarrow> promote_budget_headroom \<le> budget - budget_used d1)"
  using assms(2-) unfolding d1_def by (rule promotes_iff)

text \<open>
  A queued row of a user on the starter plan, who has a Usenet provider of their own, and a pass in
  which nobody else acts.
\<close>

definition queue_user :: user where
  "queue_user = sample_user\<lparr>u_id := ''u'', u_plan := ''starter''\<rparr>"

definition queue_accounts :: account_db where
  "queue_accounts = \<lparr>ac_auth = empty_auth\<lparr>users := [queue_user]\<rparr>, ac_cairns = [], ac_creds = [],
     ac_providers = [(''u'', True)], ac_usage = []\<rparr>"

definition quiet_visit :: visit where
  "quiet_visit = \<lparr>vi_acct = queue_accounts, vi_now = 7, vi_month = ''2026-01'', vi_enforce = [],
     vi_aflt = no_faults, vi_jflt = no_faults, vi_cluster = sample_cluster, vi_sizer = (\<lambda>_. sample_sizer),
     vi_before = (\<lambda>d. d), vi_lock = (\<lambda>d. d), vi_mid = (\<lambda>d. d)\<rparr>"

definition waiting_db :: db where
  "waiting_db = snd (admit no_faults (Inl UUIDError) 5 \<lparr>jobs_t = []\<rparr> (sample_job\<lparr>source := SourceUsenet\<rparr>) 2 100 0)"

definition waiting_job :: job where
  "waiting_job = sample_job\<lparr>source := SourceUsenet, info_hash := ''ab'', status := StatusQueued, created_at := 5, updated_at := 5\<rparr>"

lemma waiting_db_eq: "waiting_db = \<lparr>jobs_t = [waiting_job]\<rparr>"
  by (simp add: waiting_db_def waiting_job_def queue_eval)

lemma queue_user_plan: "max_concurrent (plan_for_user queue_user) = 2" "can_byok (plan_id (plan_for_user queue_user))"
  "\<not> system_usenet (plan_for_user queue_user)"
  by code_simp+

lemma quiet_eligible: "eligible_user quiet_visit waiting_job = Some (queue_user, plan_for_user queue_user)"
  by (simp add: eligible_user_def quiet_visit_def queue_accounts_def waiting_job_def sample_job_def get_by_id_def
      empty_auth_def queue_user_def sample_user_def is_paused_def monthly_quota_exceeded_def Let_def)

lemma quiet_entitled: "queued_source_entitled no_faults 2 queue_accounts queue_user (plan_for_user queue_user) waiting_job"
  using queue_user_plan
  by (simp add: queued_source_entitled_def usenet_job_entitled_def has_usenet_creds_def get_usenet_creds_def
      enabled_usenet_providers_def queue_accounts_def queue_user_def waiting_job_def Let_def)

lemma keeps_claims_refl:
  assumes "sound n m lim own d"
  shows "keeps_claims d d"
proof -
  note st = queue_withinD(1) [OF soundD(1) [OF assms]]
  show ?thesis using jid_unique [OF st] unfolding keeps_claims_def by blast
qed

lemma quiet_well_behaved: "well_behaved n m (\<lambda>_. 2) (\<lambda>_. ''u'') quiet_visit"
  using queue_user_plan(1) by (simp add: well_behaved_def quiet_visit_def queue_accounts_def keeps_claims_refl)

lemma waiting_sound: "queue_ok (\<lambda>_. 2) waiting_db" "owned (\<lambda>_. ''u'') waiting_db"
proof -
  have "queue_reach (\<lambda>_. 2) waiting_db"
    by (rule queue_reach.step [OF queue_reach.start queue_step.admit])
      (simp add: waiting_db_def prod_eq_iff)
  then show "queue_ok (\<lambda>_. 2) waiting_db" by (rule queue_reach_ok)
  show "owned (\<lambda>_. ''u'') waiting_db"
    by (simp add: owned_def waiting_db_eq waiting_job_def sample_job_def)
qed

theorem drain_keeps_limits_witness:
  "inflight_count (snd (drain 10000000000 False False (\<lambda>_. quiet_visit) (\<lambda>_. quiet_visit) waiting_db)) ''u''
     \<le> normalize_concurrent 2"
  using drain_keeps_limits [OF waiting_sound quiet_well_behaved quiet_well_behaved, where u = "''u''"] by simp

lemma quiet_promotes:
  "fst (drain_one 10000000000 quiet_visit waiting_job waiting_db) \<noteq> []"
proof -
  have q: "vi_jflt quiet_visit = no_faults" "vi_aflt quiet_visit = no_faults" "vi_acct quiet_visit = queue_accounts"
    "vi_before quiet_visit waiting_db = waiting_db" "vi_lock quiet_visit waiting_db = waiting_db"
    by (simp_all add: quiet_visit_def)
  have m: "waiting_job \<in> set (jobs_t waiting_db)" "status waiting_job = StatusQueued" "distinct (map jid (jobs_t waiting_db))"
    by (simp_all add: waiting_db_eq waiting_job_def)
  have "inflight_count waiting_db (user_id waiting_job) < normalize_concurrent (max_concurrent (plan_for_user queue_user))
     \<and> \<not> older_exists waiting_db waiting_job \<and> \<not> same_hash_busy waiting_db waiting_job
     \<and> promote_budget_headroom \<le> 10000000000 - budget_used waiting_db"
    unfolding queue_user_plan(1) by (simp add: waiting_db_eq waiting_job_def older_exists_def same_hash_busy_def
        promote_budget_headroom_def queue_eval)
  with promotes_iff [of quiet_visit waiting_job queue_user "plan_for_user queue_user" waiting_job waiting_db waiting_job 10000000000]
  show ?thesis using quiet_eligible quiet_entitled m by (simp add: q)
qed

lemma quiet_drain: "fst (drain 10000000000 False False (\<lambda>_. quiet_visit\<lparr>vi_aflt := \<lambda>_. Some (AuthDBError [])\<rparr>) (\<lambda>_. quiet_visit) waiting_db) \<noteq> []"
proof -
  have l: "list_by_status waiting_db StatusQueued = [waiting_job]"
    by (simp add: list_by_status_def waiting_db_eq waiting_job_def)
  have "refresh_priorities (\<lambda>_. quiet_visit\<lparr>vi_aflt := \<lambda>_. Some (AuthDBError [])\<rparr>) 0 [waiting_job] waiting_db = (False, waiting_db)"
    by (simp add: refresh_one_def get_by_id_def run_def quiet_visit_def)
  with quiet_promotes show ?thesis by (simp add: drain_def l Let_def split: prod.split)
qed

theorem drain_events_justified_witness:
  "\<exists>e k c. e \<in> set (fst (drain 10000000000 False False (\<lambda>_. quiet_visit\<lparr>vi_aflt := \<lambda>_. Some (AuthDBError [])\<rparr>) (\<lambda>_. quiet_visit) waiting_db))
     \<and> status c = StatusQueued \<and> justified ((\<lambda>_. quiet_visit) (k::nat)) c e"
  using drain_events_justified [of 10000000000 False False "\<lambda>_. quiet_visit\<lparr>vi_aflt := \<lambda>_. Some (AuthDBError [])\<rparr>" "\<lambda>_. quiet_visit" waiting_db]
    hd_in_set [OF quiet_drain] by blast

theorem drain_one_promotes_iff_witness:
  "fst (drain_one 10000000000 quiet_visit waiting_job waiting_db) \<noteq> []"
proof -
  have q: "vi_jflt quiet_visit = no_faults" "vi_aflt quiet_visit = no_faults" "vi_acct quiet_visit = queue_accounts"
    "vi_before quiet_visit waiting_db = waiting_db" "vi_lock quiet_visit waiting_db = waiting_db"
    by (simp_all add: quiet_visit_def)
  have m: "waiting_job \<in> set (jobs_t waiting_db)" "status waiting_job = StatusQueued" "distinct (map jid (jobs_t waiting_db))"
    by (simp_all add: waiting_db_eq waiting_job_def)
  have "inflight_count waiting_db (user_id waiting_job) < normalize_concurrent (max_concurrent (plan_for_user queue_user))
     \<and> \<not> older_exists waiting_db waiting_job \<and> \<not> same_hash_busy waiting_db waiting_job
     \<and> promote_budget_headroom \<le> 10000000000 - budget_used waiting_db"
    unfolding queue_user_plan(1) by (simp add: waiting_db_eq waiting_job_def older_exists_def same_hash_busy_def
        promote_budget_headroom_def queue_eval)
  with drain_one_promotes_iff [of quiet_visit waiting_job queue_user "plan_for_user queue_user" waiting_job waiting_db waiting_job 10000000000]
  show ?thesis using quiet_eligible quiet_entitled m by (simp add: q)
qed

text \<open>
  When the account database fails after the quota check, the scheduler takes the failed
  queries for "no": a job whose account is entitled through its own Usenet access is failed for good.
\<close>

theorem drain_fails_job_on_query_error:
  assumes "eligible_user v c = Some (u, p)" and "source c = SourceUsenet" and "\<not> system_usenet p"
    and "queued_source_entitled no_faults 2 (vi_acct v) u p c"
    and "\<And>k. 2 \<le> k \<Longrightarrow> vi_aflt v k \<noteq> None" and "vi_jflt v = no_faults"
    and "r \<in> set (jobs_t (vi_before v d))" and "jid r = jid c" and "status r = StatusQueued"
  shows "fst (drain_one budget v c d) = [JobFailed (jid c) unsupported_reason]
    \<and> (\<exists>r'\<in>set (jobs_t (snd (drain_one budget v c d))). jid r' = jid c \<and> status r' = StatusFailed)"
proof -
  have "vi_aflt v 2 \<noteq> None" "vi_aflt v 3 \<noteq> None" "vi_aflt v 4 \<noteq> None" using assms(5) by simp_all
  then have n: "\<not> queued_source_entitled (vi_aflt v) 2 (vi_acct v) u p c"
    using assms(2,3)
    by (auto simp: queued_source_entitled_def usenet_job_entitled_def has_user_cairn_def has_usenet_creds_def
        get_usenet_creds_def enabled_usenet_providers_def run_def numeral_eq_Suc split: option.splits)
  have "0 < count_where (\<lambda>x. jid x = jid c \<and> status x = StatusQueued) (jobs_t (vi_before v d))"
    using assms(7-9) count_where_0 [of "\<lambda>x. jid x = jid c \<and> status x = StatusQueued" "jobs_t (vi_before v d)"]
    by (auto intro: Suc_leI)
  with n assms(1,6) have o: "drain_one budget v c d = ([JobFailed (jid c) unsupported_reason],
      (vi_before v d)\<lparr>jobs_t := upd_where (\<lambda>x. jid x = jid c \<and> status x = StatusQueued)
         (\<lambda>x. x\<lparr>status := StatusFailed, jerror := unsupported_reason, updated_at := vi_now v\<rparr>) (jobs_t (vi_before v d))\<rparr>)"
    by (simp add: drain_one_def fail_queued_def Let_def)
  moreover have "r\<lparr>status := StatusFailed, jerror := unsupported_reason, updated_at := vi_now v\<rparr>
      \<in> set (upd_where (\<lambda>x. jid x = jid c \<and> status x = StatusQueued)
         (\<lambda>x. x\<lparr>status := StatusFailed, jerror := unsupported_reason, updated_at := vi_now v\<rparr>) (jobs_t (vi_before v d)))"
    unfolding upd_where_def set_map by (rule image_eqI [OF _ assms(7)]) (simp add: assms(8,9))
  then have "\<exists>r'\<in>set (upd_where (\<lambda>x. jid x = jid c \<and> status x = StatusQueued)
         (\<lambda>x. x\<lparr>status := StatusFailed, jerror := unsupported_reason, updated_at := vi_now v\<rparr>) (jobs_t (vi_before v d))).
      jid r' = jid c \<and> status r' = StatusFailed"
    by (rule bexI [rotated]) (simp add: assms(8))
  ultimately show ?thesis by simp
qed

theorem drain_fails_job_on_query_error_witness:
  "fst (drain_one 10000000000 (quiet_visit\<lparr>vi_aflt := \<lambda>k. if k < 2 then None else Some (AuthDBError ''down'')\<rparr>)
      waiting_job waiting_db) = [JobFailed ''j1'' unsupported_reason]"
proof -
  let ?v = "quiet_visit\<lparr>vi_aflt := \<lambda>k. if k < 2 then None else Some (AuthDBError ''down'')\<rparr>"
  have e: "eligible_user ?v waiting_job = Some (queue_user, plan_for_user queue_user)"
    by (simp add: eligible_user_def quiet_visit_def queue_accounts_def waiting_job_def sample_job_def get_by_id_def
        empty_auth_def queue_user_def sample_user_def is_paused_def monthly_quota_exceeded_def Let_def run_def)
  have s: "source waiting_job = SourceUsenet" "jid waiting_job = ''j1''" "vi_acct ?v = queue_accounts" "vi_jflt ?v = no_faults"
    "waiting_job \<in> set (jobs_t (vi_before ?v waiting_db))" "status waiting_job = StatusQueued"
    by (simp_all add: waiting_job_def sample_job_def quiet_visit_def waiting_db_eq)
  from drain_fails_job_on_query_error [OF e s(1) queue_user_plan(3) _ _ s(4,5) refl s(6)] quiet_entitled s(2,3)
  show ?thesis by simp
qed

end
