(* ===== verification/Bytes.thy ===== *)
theory Bytes
  imports Go_Strings
begin

text \<open>
  Byte slices as lists of \<open>8 word\<close>: little-endian fields (\<open>encoding/binary\<close>), the bytes of a
  string and back, and the CRC-32 of \<open>hash/crc32\<close> (IEEE), all as the standard library defines them.
\<close>

section \<open>Little-endian fields\<close>

type_synonym byte = "8 word"

primrec le :: "nat \<Rightarrow> nat \<Rightarrow> byte list" where
  "le 0 v = []"
| "le (Suc n) v = word_of_nat v # le n (v div 256)"

primrec unle :: "byte list \<Rightarrow> nat" where
  "unle [] = 0"
| "unle (b # bs) = unat b + 256 * unle bs"

abbreviation le16 :: "nat \<Rightarrow> byte list" where "le16 \<equiv> le 2"
abbreviation le32 :: "nat \<Rightarrow> byte list" where "le32 \<equiv> le 4"
abbreviation le64 :: "nat \<Rightarrow> byte list" where "le64 \<equiv> le 8"

lemma length_le [simp]: "length (le n v) = n"
  by (induction n arbitrary: v) auto

lemma unat_byte [simp]: "unat (word_of_nat v :: byte) = v mod 256"
  by (simp add: unat_of_nat)

lemma unle_le [simp]: "unle (le n v) = v mod 256 ^ n"
  by (induction n arbitrary: v) (simp_all add: mod_mult2_eq)

definition byte_of :: "char \<Rightarrow> byte" where
  "byte_of c = word_of_nat (of_char c)"

definition bytes_of :: "string \<Rightarrow> byte list" where
  "bytes_of s = map byte_of s"

lemma length_bytes_of [simp]: "length (bytes_of s) = length s"
  by (simp add: bytes_of_def)

lemma byte_of_inverse [simp]: "char_of (unat (byte_of c)) = c"
  by (simp add: byte_of_def)

lemma bytes_of_inverse [simp]: "map (\<lambda>b. char_of (unat b)) (bytes_of s) = s"
  by (simp add: bytes_of_def comp_def)

definition string_of :: "byte list \<Rightarrow> string" where
  "string_of bs = map (\<lambda>b. char_of (unat b)) bs"

lemma string_of_bytes_of [simp]: "string_of (bytes_of s) = s"
  by (simp add: string_of_def)

lemma length_string_of [simp]: "length (string_of bs) = length bs"
  by (simp add: string_of_def)

lemma string_of_append [simp]: "string_of (xs @ ys) = string_of xs @ string_of ys"
  by (simp add: string_of_def)

lemma bytes_of_append [simp]: "bytes_of (xs @ ys) = bytes_of xs @ bytes_of ys"
  by (simp add: bytes_of_def)

section \<open>CRC-32\<close>

definition crc_bit :: "32 word \<Rightarrow> 32 word" where
  "crc_bit c = (if c AND 1 = 1 then drop_bit 1 c XOR 0xEDB88320 else drop_bit 1 c)"

definition crc_byte :: "32 word \<Rightarrow> byte \<Rightarrow> 32 word" where
  "crc_byte c b = (crc_bit ^^ 8) (c XOR ucast b)"

definition crc32 :: "byte list \<Rightarrow> 32 word" where
  "crc32 bs = NOT (foldl crc_byte (NOT 0) bs)"

end
