(* ===== verification/Blob_Store.thy ===== *)
theory Blob_Store
  imports Job_Blobs Bytes
begin

text \<open>
  Content keys (\<open>shared/blob/key.go\<close>), the uploader that stores a file under its content key
  (\<open>shared/blobstore/blobstore.go\<close>), the manifest of a release (\<open>shared/manifest\<close>) and the file
  kinds of \<open>shared/video\<close>. SHA-256 is a parameter \<open>sha\<close>; a file is its bytes, or nothing when it
  cannot be opened.
\<close>

section \<open>Content keys\<close>

definition sample_size :: nat where
  "sample_size = 2 ^ 20"

definition be64 :: "int \<Rightarrow> byte list" where
  "be64 n = rev (le64 (nat (n mod 2 ^ 64)))"

definition sha_name :: "(byte list \<Rightarrow> byte list) \<Rightarrow> byte list \<Rightarrow> string" where
  "sha_name sha bs = ''b_'' @ hex_encode (map unat (sha bs))"

definition content_key_of :: "(byte list \<Rightarrow> byte list) \<Rightarrow> byte list option \<Rightarrow> int \<Rightarrow> string option" where
  "content_key_of sha f sz =
     (case f of None \<Rightarrow> None
      | Some bs \<Rightarrow>
        if sz \<le> 2 * int sample_size then Some (sha_name sha (be64 sz @ bs))
        else if length bs < sample_size then None
        else let tl = drop (nat (sz - int sample_size)) bs in
          if length tl < sample_size then None
          else Some (sha_name sha (be64 sz @ take sample_size bs @ take sample_size tl)))"

section \<open>Storing a file\<close>

datatype store_error = OpenFailed | StoreFailed | IndexFailed db_error

text \<open>Which calls to the store and the disk fail.\<close>

record put_faults =
  pf_head :: bool
  pf_put :: bool
  pf_crc :: bool

definition no_put_faults :: put_faults where
  "no_put_faults = \<lparr>pf_head = False, pf_put = False, pf_crc = False\<rparr>"

text \<open>
  \<open>Uploader.Put\<close> (with \<open>upload\<close> and \<open>crcFile\<close>). The result is the checksum, whether the blob is
  encrypted and whether it was written; statement 0 is \<open>LookupBlob\<close>, the transaction of
  \<open>AddBlobRef\<close> follows. \<open>cipher\<close> is the configured cipher, if any, given by the size of a ciphertext
  (none when the library refuses the plaintext's size); the store is \<open>objects\<close>.
\<close>

definition put_object :: "string \<Rightarrow> int \<Rightarrow> int \<Rightarrow> cache \<Rightarrow> cache" where
  "put_object k sz now c =
     c\<lparr>objects := filter (\<lambda>x. okey x \<noteq> k) (objects c) @ [\<lparr>okey = k, osize = sz, omod = now\<rparr>]\<rparr>"

definition upload :: "put_faults \<Rightarrow> (int \<Rightarrow> int option) option \<Rightarrow> int \<Rightarrow> cache \<Rightarrow> string \<Rightarrow> byte list option
    \<Rightarrow> (store_error + 32 word) \<times> cache" where
  "upload pf cipher now c key file =
     (case file of None \<Rightarrow> (Inl OpenFailed, c)
      | Some bs \<Rightarrow>
        (case (case cipher of None \<Rightarrow> Some (int (length bs)) | Some esize \<Rightarrow> esize (int (length bs))) of
           None \<Rightarrow> (Inl StoreFailed, c)
         | Some sz \<Rightarrow> if pf_put pf then (Inl StoreFailed, c)
             else (Inr (crc32 bs), put_object key sz now c)))"

definition crc_file :: "put_faults \<Rightarrow> byte list option \<Rightarrow> store_error + 32 word" where
  "crc_file pf file = (case file of None \<Rightarrow> Inl OpenFailed
     | Some bs \<Rightarrow> if pf_crc pf then Inl OpenFailed else Inr (crc32 bs))"

definition blob_put :: "db_error faults \<Rightarrow> put_faults \<Rightarrow> (int \<Rightarrow> int option) option \<Rightarrow> int \<Rightarrow> cache \<Rightarrow> string \<Rightarrow> nat
    \<Rightarrow> byte list option \<Rightarrow> string \<Rightarrow> string \<Rightarrow> int \<Rightarrow> (store_error + 32 word \<times> bool \<times> bool) \<times> cache" where
  "blob_put flt pf cipher now c h idx file ck key sz =
     (let existing = (case flt 0 of Some _ \<Rightarrow> None | None \<Rightarrow> lookup_blob c ck);
          reuse = (existing \<noteq> None \<and> \<not> pf_head pf \<and> key \<in> okey ` set (objects c));
          enc = (if reuse then encrypted (the existing) else cipher \<noteq> None) in
      case (if reuse then (crc_file pf file, c) else upload pf cipher now c key file) of
        (Inl e, c1) \<Rightarrow> (Inl e, c1)
      | (Inr crc, c1) \<Rightarrow>
          (case add_blob_ref (after 1 flt) c1 h idx ck sz enc of
             (Inl e, c2) \<Rightarrow> (Inl (IndexFailed e), c2)
           | (Inr _, c2) \<Rightarrow> (Inr (crc, enc, \<not> reuse), c2)))"

section \<open>File kinds\<close>

text \<open>\<open>filepath.Ext\<close>: from the last dot of the last element.\<close>

definition file_ext :: "string \<Rightarrow> string" where
  "file_ext n =
     (let base = takeWhile (\<lambda>c. c \<noteq> CHR ''/'') (rev n) in
      if CHR ''.'' \<in> set base then CHR ''.'' # rev (takeWhile (\<lambda>c. c \<noteq> CHR ''.'') base) else [])"

definition video_exts :: "string list" where
  "video_exts = [''.mkv'', ''.mp4'', ''.avi'', ''.mov'', ''.wmv'', ''.ts'', ''.webm'', ''.m4v'', ''.flv'']"

definition is_video :: "string \<Rightarrow> bool" where
  "is_video n \<longleftrightarrow> to_lower (file_ext n) \<in> set video_exts"

definition content_type :: "string \<Rightarrow> string" where
  "content_type n =
     (let e = to_lower (file_ext n) in
      if e = ''.mkv'' then ''video/x-matroska''
      else if e = ''.mp4'' \<or> e = ''.m4v'' then ''video/mp4''
      else if e = ''.avi'' then ''video/x-msvideo''
      else if e = ''.webm'' then ''video/webm''
      else ''application/octet-stream'')"

section \<open>Manifests\<close>

record man_file =
  mf_name :: string
  mf_url :: string
  mf_size :: int
  mf_crc :: "32 word"
  mf_enc :: bool

record manifest =
  mn_hash :: string
  mn_name :: string
  mn_files :: "man_file list"

definition manifest_path :: "string \<Rightarrow> string" where
  "manifest_path h = h @ ''/manifest.json''"

definition zip_key :: "string \<Rightarrow> string" where
  "zip_key h = h @ ''/all.zip''"

definition zip_hash :: "string \<Rightarrow> string \<times> bool" where
  "zip_hash k = (if has_suffix k ''/all.zip'' then (trim_suffix k ''/all.zip'', True) else (k, False))"

definition file_path :: "string \<Rightarrow> nat \<Rightarrow> string \<Rightarrow> string" where
  "file_path h i n = h @ ''/file_'' @ show_nat i @ ''/'' @ map (\<lambda>c. if c = CHR '' '' then CHR ''_'' else c) n"

definition resolve_key :: "string \<Rightarrow> nat \<Rightarrow> string \<Rightarrow> string \<Rightarrow> string" where
  "resolve_key h i stored n = (if stored \<noteq> [] then stored else file_path h i n)"

text \<open>The row's file list that \<open>Meta\<close> and \<open>complete\<close> build: indices are positions in the manifest.\<close>

definition job_files :: "man_file list \<Rightarrow> file_rec list" where
  "job_files fs = map (\<lambda>(i, f). \<lparr>file_index = i, file_name = mf_name f, file_bytes = mf_size f,
     file_key = mf_url f, file_enc = mf_enc f\<rparr>) (enumerate 0 fs)"

definition manifest_meta :: "manifest option \<Rightarrow> string \<times> int \<times> file_rec list" where
  "manifest_meta m = (case m of None \<Rightarrow> ([], 0, [])
     | Some m \<Rightarrow> if mn_files m = [] then ([], 0, [])
         else (mn_name m, sum_list (map mf_size (mn_files m)), job_files (mn_files m)))"

text \<open>\<open>mans\<close> gives the manifest a store returns for a hash.\<close>

definition manifest_playable :: "(string \<Rightarrow> manifest option) \<Rightarrow> cache \<Rightarrow> string \<Rightarrow> bool" where
  "manifest_playable mans c h =
     (case manifest_meta (mans h) of (_, _, fs) \<Rightarrow>
        fs \<noteq> [] \<and> resolve_key h 0 (file_key (hd fs)) (file_name (hd fs)) \<in> okey ` set (objects c))"

definition stream_query :: "string \<Rightarrow> bool \<Rightarrow> string" where
  "stream_query h enc = (if length h = 40 then ''&ih='' @ h else []) @ (if enc then ''&enc=1'' else [])"

section \<open>Facts about keys and uploads\<close>

lemma zip_hash_key [simp]: "zip_hash (zip_key h) = (h, True)"
  by (simp add: zip_hash_def zip_key_def)

lemma job_files_keys: "map file_key (job_files fs) = map mf_url fs"
  by (rule nth_equalityI) (simp_all add: job_files_def nth_enumerate_eq)

lemma length_job_files [simp]: "length (job_files fs) = length fs"
  by (simp add: job_files_def)

lemma content_key_sampled:
  assumes "2 * int sample_size < sz"
  shows "content_key_of sha (Some bs) sz =
     (let tl = drop (nat (sz - int sample_size)) bs in
      if length bs < sample_size \<or> length tl < sample_size then None
      else Some (sha_name sha (be64 sz @ take sample_size bs @ take sample_size tl)))"
  using assms by (simp add: content_key_of_def Let_def)

lemma add_blob_ref_Inr:
  assumes "add_blob_ref flt c h idx ck sz enc = (Inr (), c1)"
  shows "\<lparr>ref_hash = h, ref_index = idx, ref_key = ck\<rparr> \<in> set (refs_t c1)
    \<and> (\<exists>b\<in>set (blobs_t c1). content_key b = ck) \<and> cdb c1 = cdb c \<and> objects c1 = objects c
    \<and> set (blobs_t c) \<subseteq> set (blobs_t c1)
    \<and> (\<forall>r\<in>set (refs_t c). ref_hash r \<noteq> h \<or> ref_index r \<noteq> idx \<longrightarrow> r \<in> set (refs_t c1))"
proof -
  let ?same = "\<lambda>r. ref_hash r = h \<and> ref_index r = idx"
  let ?c1 = "if list_ex (\<lambda>b. content_key b = ck) (blobs_t c) then c
    else c\<lparr>blobs_t := blobs_t c @ [\<lparr>content_key = ck, blob_size = sz, encrypted = enc\<rparr>]\<rparr>"
  let ?new = "\<lparr>ref_hash = h, ref_index = idx, ref_key = ck\<rparr>"
  have refs: "refs_t ?c1 = refs_t c" "cdb ?c1 = cdb c" "objects ?c1 = objects c" by simp_all
  have c1: "c1 = (if list_ex ?same (refs_t ?c1) then ?c1\<lparr>refs_t := upd_where ?same (\<lambda>r. r\<lparr>ref_key := ck\<rparr>) (refs_t ?c1)\<rparr>
      else ?c1\<lparr>refs_t := refs_t ?c1 @ [?new]\<rparr>)"
    using assms by (simp add: add_blob_ref_def in_tx_cases bindE_eq_Inr run_eq_Inr Let_def)
  have "?new \<in> set (upd_where ?same (\<lambda>r. r\<lparr>ref_key := ck\<rparr>) (refs_t c))" if "list_ex ?same (refs_t c)"
    using that by (force simp: list_ex_iff upd_where_def intro!: image_eqI)
  moreover have "r \<in> set (upd_where ?same (\<lambda>r. r\<lparr>ref_key := ck\<rparr>) (refs_t c))"
    if "r \<in> set (refs_t c)" "ref_hash r \<noteq> h \<or> ref_index r \<noteq> idx" for r
    using that by (force simp: upd_where_def)
  ultimately show ?thesis unfolding c1 refs by (auto simp: list_ex_iff)
qed

lemma put_object_simps [simp]:
  "cdb (put_object k sz now c) = cdb c" "blobs_t (put_object k sz now c) = blobs_t c"
  "refs_t (put_object k sz now c) = refs_t c" "okey ` set (objects (put_object k sz now c)) = insert k (okey ` set (objects c))"
  by (auto simp: put_object_def)

lemma upload_Inr:
  "upload pf cipher now c key file = (Inr crc, c1) \<Longrightarrow>
     \<exists>bs sz. file = Some bs \<and> crc = crc32 bs \<and> c1 = put_object key sz now c"
  by (auto simp: upload_def split: option.splits if_splits)

text \<open>A successful \<open>Put\<close>: the object is there and the reference row names its content.\<close>

lemma blob_put_Inr:
  assumes "blob_put flt pf cipher now c h idx file ck key sz = (Inr (crc, enc, wrote), c2)"
  shows "\<exists>bs. file = Some bs \<and> crc = crc32 bs" (is ?A)
    and "okey ` set (objects c2) = insert key (okey ` set (objects c))" (is ?B)
    and "\<lparr>ref_hash = h, ref_index = idx, ref_key = ck\<rparr> \<in> set (refs_t c2)" (is ?C)
    and "\<exists>b\<in>set (blobs_t c2). content_key b = ck" (is ?D)
    and "cdb c2 = cdb c" (is ?E) and "set (blobs_t c) \<subseteq> set (blobs_t c2)" (is ?F)
    and "\<And>r. r \<in> set (refs_t c) \<Longrightarrow> ref_hash r \<noteq> h \<or> ref_index r \<noteq> idx \<Longrightarrow> r \<in> set (refs_t c2)"
proof -
  define reuse where "reuse \<longleftrightarrow> (case flt 0 of Some _ \<Rightarrow> None | None \<Rightarrow> lookup_blob c ck) \<noteq> None \<and> \<not> pf_head pf
    \<and> key \<in> okey ` set (objects c)"
  obtain c1 e where st: "(if reuse then (crc_file pf file, c) else upload pf cipher now c key file) = (Inr crc, c1)"
    and add0: "add_blob_ref (after 1 flt) c1 h idx ck sz e = (Inr (), c2)" "e = enc"
    using assms unfolding blob_put_def Let_def reuse_def [symmetric]
    by (simp split: sum.splits prod.splits)
  note add = add0(1) [unfolded add0(2)]
  have "reuse \<Longrightarrow> key \<in> okey ` set (objects c)" by (simp add: reuse_def)
  note st = st this
  obtain bs where c1: "file = Some bs" "crc = crc32 bs" "okey ` set (objects c1) = insert key (okey ` set (objects c))"
      "cdb c1 = cdb c" "blobs_t c1 = blobs_t c" "refs_t c1 = refs_t c"
    using st by (cases reuse) (auto simp: crc_file_def insert_absorb dest!: upload_Inr split: option.splits if_splits)
  note r = add_blob_ref_Inr [OF add]
  show ?A ?B ?C ?D ?E ?F using c1 r by auto
  fix x assume "x \<in> set (refs_t c)" "ref_hash x \<noteq> h \<or> ref_index x \<noteq> idx"
  then show "x \<in> set (refs_t c2)" using c1 r by simp
qed

section \<open>Properties\<close>

text \<open>
  The content key of a file over two MiB covers its size and its first and last MiB only. A
  repaired download of the same size that differs in between gets the key of the damaged one, so
  storing it writes nothing and the damaged object stays, whatever the hash function.
\<close>

theorem repaired_file_not_stored:
  assumes "length old = length new" and "2 * sample_size < length new"
    and "take sample_size old = take sample_size new"
    and "drop (length new - sample_size) old = drop (length new - sample_size) new"
    and "content_key_of sha (Some old) (int (length old)) = Some ck"
    and "b \<in> set (blobs_t c)" and "content_key b = ck" and "storage_key ck \<in> okey ` set (objects c)"
  shows "content_key_of sha (Some new) (int (length new)) = Some ck
    \<and> (\<exists>enc c1. blob_put no_faults no_put_faults cipher now c h idx (Some new) ck (storage_key ck)
         (int (length new)) = (Inr (crc32 new, enc, False), c1) \<and> objects c1 = objects c)"
proof -
  have n: "nat (int (length new) - int sample_size) = length new - sample_size" using assms(2) by simp
  have "content_key_of sha (Some new) (int (length new)) = Some ck"
    using assms(1-5) by (simp add: content_key_sampled n)
  moreover have "lookup_blob c ck \<noteq> None"
    using assms(6,7) by (auto simp: lookup_blob_def find_None_iff)
  then obtain b' where "lookup_blob c ck = Some b'" by blast
  moreover have "\<exists>c1. add_blob_ref (after 1 no_faults) c h idx ck sz e = (Inr (), c1)" for sz e
    by (auto simp: add_blob_ref_def Let_def)
  then obtain c1 where "add_blob_ref (after 1 no_faults) c h idx ck (int (length new)) (encrypted b') = (Inr (), c1)"
    by blast
  moreover from this have "objects c1 = objects c" using add_blob_ref_Inr by blast
  ultimately show ?thesis using assms(8) by (auto simp: blob_put_def crc_file_def no_put_faults_def Let_def)
qed

text \<open>A damaged and a repaired file: they differ in one byte right after the first MiB.\<close>

definition damaged_file :: "byte list" where
  "damaged_file = replicate (3 * sample_size) 0"

definition repaired_file :: "byte list" where
  "repaired_file = damaged_file[sample_size := 1]"

definition damaged_cache :: cache where
  "damaged_cache = \<lparr>cdb = \<lparr>jobs_t = []\<rparr>, blobs_t = [\<lparr>content_key = ''b_'', blob_size = 3, encrypted = False\<rparr>],
     refs_t = [], views_t = [], user_cairns_t = [], archives_t = [],
     objects = [\<lparr>okey = ''blobs/b_'', osize = 3, omod = 0\<rparr>]\<rparr>"

theorem repaired_file_not_stored_witness:
  "damaged_file \<noteq> repaired_file \<and> (\<exists>enc c1. blob_put no_faults no_put_faults None 9
     damaged_cache ''h'' 0 (Some repaired_file) ''b_'' (storage_key ''b_'') (int (length repaired_file))
       = (Inr (crc32 repaired_file, enc, False), c1) \<and> objects c1 = objects damaged_cache)"
proof -
  have pos: "0 < sample_size" by (simp add: sample_size_def)
  have ne: "damaged_file \<noteq> repaired_file"
  proof -
    have "damaged_file ! sample_size \<noteq> repaired_file ! sample_size"
      using pos by (simp add: damaged_file_def repaired_file_def)
    then show ?thesis by metis
  qed
  have l: "length damaged_file = 3 * sample_size" "length repaired_file = 3 * sample_size"
    by (simp_all add: damaged_file_def repaired_file_def)
  have t: "take sample_size damaged_file = take sample_size repaired_file"
    "drop (length repaired_file - sample_size) damaged_file = drop (length repaired_file - sample_size) repaired_file"
    using pos by (simp_all add: l repaired_file_def)
  have k: "content_key_of (\<lambda>_. []) (Some damaged_file) (int (length damaged_file)) = Some ''b_''"
    using pos by (simp add: content_key_sampled l sha_name_def Let_def nat_diff_distrib nat_mult_distrib)
  have m: "hd (blobs_t damaged_cache) \<in> set (blobs_t damaged_cache)" "content_key (hd (blobs_t damaged_cache)) = ''b_''"
    "storage_key ''b_'' \<in> okey ` set (objects damaged_cache)"
    by (simp_all add: damaged_cache_def storage_key_def)
  from repaired_file_not_stored [OF _ _ t k m, where cipher = None and now = 9 and h = "''h''" and idx = 0] ne pos show ?thesis
    by (simp add: l)
qed

end
