(* ===== verification/Go_Url.thy ===== *)
theory Go_Url
  imports Go_Strings
begin

text \<open>
  What the services use of Go's \<open>net/url\<close>: escaping and unescaping of path segments and query values,
  and the values of a query string.
\<close>

section \<open>Escaping\<close>

definition unreserved :: "char \<Rightarrow> bool" where
  "unreserved c \<longleftrightarrow> is_digit c \<or> in_range 65 90 c \<or> in_range 97 122 c \<or> c \<in> set ''-_.~''"

definition path_safe :: "char \<Rightarrow> bool" where
  "path_safe c \<longleftrightarrow> unreserved c \<or> c \<in> set ''$&+:=@''"

definition hex_upper :: "nat \<Rightarrow> char" where
  "hex_upper n = ''0123456789ABCDEF'' ! n"

definition percent :: "char \<Rightarrow> string" where
  "percent c = [CHR ''%'', hex_upper (code_of c div 16), hex_upper (code_of c mod 16)]"

definition escape_with :: "(char \<Rightarrow> bool) \<Rightarrow> string \<Rightarrow> string" where
  "escape_with ok s = concat (map (\<lambda>c. if ok c then [c] else percent c) s)"

abbreviation path_escape :: "string \<Rightarrow> string" where
  "path_escape \<equiv> escape_with path_safe"

definition query_escape :: "string \<Rightarrow> string" where
  "query_escape s = concat (map (\<lambda>c. if unreserved c then [c] else if c = CHR '' '' then ''+'' else percent c) s)"

text \<open>\<open>PathUnescape\<close>, and \<open>QueryUnescape\<close> when \<open>pl\<close> is set; \<open>None\<close> is the escape error.\<close>

fun unescape :: "bool \<Rightarrow> string \<Rightarrow> string option" where
  "unescape pl [] = Some []"
| "unescape pl (c # cs) =
     (if c = CHR ''%'' then
        (case cs of
           a # b # r \<Rightarrow> if is_hex a \<and> is_hex b
             then map_option ((#) (char_of (hex_val a * 16 + hex_val b))) (unescape pl r) else None
         | _ \<Rightarrow> None)
      else map_option ((#) (if pl \<and> c = CHR ''+'' then CHR '' '' else c)) (unescape pl cs))"

text \<open>\<open>URL.Query\<close> drops what it cannot parse; \<open>Get\<close> takes the first value of a key.\<close>

definition query_pair :: "string \<Rightarrow> (string \<times> string) option" where
  "query_pair p =
     (if p = [] \<or> CHR '';'' \<in> set p then None
      else case cut p ''='' of (k, v, _) \<Rightarrow>
        (case (unescape True k, unescape True v) of (Some k', Some v') \<Rightarrow> Some (k', v') | _ \<Rightarrow> None))"

definition parse_query :: "string \<Rightarrow> (string \<times> string) list" where
  "parse_query s = List.map_filter query_pair (split_byte (CHR ''&'') s)"

definition q_get :: "(string \<times> string) list \<Rightarrow> string \<Rightarrow> string" where
  "q_get q k = (case map_of q k of None \<Rightarrow> [] | Some v \<Rightarrow> v)"

section \<open>Escaping and back\<close>

lemma hex_upper_is_hex: "n < 16 \<Longrightarrow> is_hex (hex_upper n) \<and> hex_val (hex_upper n) = n"
proof -
  assume "n < 16"
  then have "n \<in> set [0..<16]" by simp
  moreover have "\<forall>n\<in>set [0..<16]. is_hex (hex_upper n) \<and> hex_val (hex_upper n) = n"
    by (simp add: upt_rec hex_upper_def is_hex_def hex_val_def is_digit_def in_range_def
        code_of_def nth_Cons')
  ultimately show ?thesis by blast
qed

lemma code_of_div16: "code_of c div 16 < 16"
  by (rule less_mult_imp_div_less) simp

lemma unescape_percent: "unescape pl (percent c @ s) = map_option ((#) c) (unescape pl s)"
proof -
  show ?thesis
    using code_of_div16 [of c] hex_upper_is_hex [of "code_of c div 16"] hex_upper_is_hex [of "code_of c mod 16"]
    by (simp add: percent_def code_of_def)
qed

lemma unescape_plain: "CHR ''%'' \<notin> set s \<Longrightarrow> \<not> pl \<or> CHR ''+'' \<notin> set s \<Longrightarrow> unescape pl s = Some s"
  by (induction s) auto

lemma escape_with_Nil [simp]: "escape_with ok [] = []"
  by (simp add: escape_with_def)

lemma escape_with_Cons: "escape_with ok (c # s) = (if ok c then [c] else percent c) @ escape_with ok s"
  by (simp add: escape_with_def)

lemma unescape_escape_with: "\<not> ok (CHR ''%'') \<Longrightarrow> unescape False (escape_with ok s) = Some s"
proof (induction s)
  case (Cons c s)
  then show ?case by (cases "ok c") (auto simp: escape_with_Cons unescape_percent)
qed simp

lemma unescape_query_escape: "unescape True (query_escape s) = Some s"
proof (induction s)
  case (Cons c s)
  have u: "\<not> unreserved (CHR ''%'')" "\<not> unreserved (CHR ''+'')"
    by (simp_all add: unreserved_def is_digit_def in_range_def code_of_def)
  have e: "query_escape (c # s) = (if unreserved c then [c] else if c = CHR '' '' then ''+'' else percent c) @ query_escape s"
    by (simp add: query_escape_def)
  show ?case using Cons u by (auto simp: e unescape_percent)
qed (simp add: query_escape_def)

lemma unescape_percent_SomeE:
  assumes "unescape pl (CHR ''%'' # cs) = Some t"
  obtains a b r t' where "cs = a # b # r" "unescape pl r = Some t'" "length t = Suc (length t')"
  using assms by (auto split: list.splits if_splits)

lemma unescape_length: "unescape pl s = Some t \<Longrightarrow> length t + (if CHR ''%'' \<in> set s then 2 else 0) \<le> length s"
proof (induction s arbitrary: t rule: length_induct)
  case (1 s)
  show ?case
  proof (cases s)
    case Nil
    with 1 show ?thesis by simp
  next
    case (Cons c cs)
    show ?thesis
    proof (cases "c = CHR ''%''")
      case True
      with 1(2) Cons obtain a b r t' where r: "cs = a # b # r" "unescape pl r = Some t'" "length t = Suc (length t')"
        using unescape_percent_SomeE by metis
      then have "length r < length s" using Cons by simp
      with 1(1) r(2) have "length t' + (if CHR ''%'' \<in> set r then 2 else 0) \<le> length r" by blast
      with r Cons True show ?thesis by simp
    next
      case False
      with 1(2) Cons obtain t' where t': "unescape pl cs = Some t'" "length t = Suc (length t')" by auto
      have "length cs < length s" using Cons by simp
      with 1(1) t'(1) have "length t' + (if CHR ''%'' \<in> set cs then 2 else 0) \<le> length cs" by blast
      with t' False Cons show ?thesis by simp
    qed
  qed
qed

lemma hex_upper_unreserved: "n < 16 \<Longrightarrow> unreserved (hex_upper n)"
  using hex_upper_is_hex [of n] by (auto simp: is_hex_def unreserved_def in_range_def)

lemma percent_bytes: "x \<in> set (percent c) \<Longrightarrow> x = CHR ''%'' \<or> unreserved x"
proof -
  assume "x \<in> set (percent c)"
  then show ?thesis using code_of_div16 [of c] by (auto simp: percent_def intro: hex_upper_unreserved)
qed

lemma escape_with_bytes: "x \<in> set (escape_with ok s) \<Longrightarrow> ok x \<or> x = CHR ''%'' \<or> unreserved x"
  by (induction s) (auto simp: escape_with_Cons dest!: percent_bytes split: if_splits)

lemma query_escape_bytes: "x \<in> set (query_escape s) \<Longrightarrow> x = CHR ''+'' \<or> x = CHR ''%'' \<or> unreserved x"
  by (induction s) (auto simp: query_escape_def dest!: percent_bytes split: if_splits)

lemma unreserved_not: "\<not> unreserved (CHR ''?'')" "\<not> unreserved (CHR ''&'')" "\<not> unreserved (CHR ''='')" "\<not> unreserved (CHR '';'')"
    "\<not> unreserved (CHR ''%'')" "\<not> unreserved (CHR ''+'')"
  by (simp_all add: unreserved_def is_digit_def in_range_def code_of_def)

end
