(* ===== verification/Magnet.thy ===== *)
theory Magnet
  imports Go_Url
begin

text \<open>
  Magnet links and info hashes: \<open>shared/magnet\<close>, and \<open>cleanMagnet\<close> and \<open>extractInfoHash\<close> of
  \<open>api/internal/handlers/helpers.go\<close>. Base32 is decoded as a number written in two bases. Only
  strings of 32 bytes are decoded, and only results of 20 bytes are used, so padding and line breaks,
  which shorten the result, are refused here. The entity table of \<open>html.UnescapeString\<close> is a parameter.
\<close>

section \<open>Numbers in a base\<close>

definition of_digits :: "nat \<Rightarrow> nat list \<Rightarrow> nat" where
  "of_digits b ds = foldl (\<lambda>n d. n * b + d) 0 ds"

fun to_digits :: "nat \<Rightarrow> nat \<Rightarrow> nat \<Rightarrow> nat list" where
  "to_digits b 0 v = []"
| "to_digits b (Suc n) v = to_digits b n (v div b) @ [v mod b]"

lemma length_to_digits [simp]: "length (to_digits b n v) = n"
  by (induction n arbitrary: v) auto

lemma to_digits_less: "0 < b \<Longrightarrow> d \<in> set (to_digits b n v) \<Longrightarrow> d < b"
  by (induction n arbitrary: v) auto

lemma of_digits_snoc [simp]: "of_digits b (ds @ [d]) = of_digits b ds * b + d"
  by (simp add: of_digits_def)

lemma of_to_digits: "0 < b \<Longrightarrow> of_digits b (to_digits b n v) = v mod b ^ n"
proof (induction n arbitrary: v)
  case 0
  then show ?case by (simp add: of_digits_def)
next
  case (Suc n)
  then show ?case by (simp add: mod_mult2_eq mult.commute)
qed

lemma to_of_digits: "\<forall>d\<in>set ds. d < b \<Longrightarrow> to_digits b (length ds) (of_digits b ds) = ds"
proof (induction ds rule: rev_induct)
  case (snoc d ds)
  then have "d < b" by simp
  then have "(of_digits b ds * b + d) div b = of_digits b ds" "(of_digits b ds * b + d) mod b = d"
    by simp_all
  with snoc show ?case by simp
qed simp

lemma of_digits_less: "0 < b \<Longrightarrow> \<forall>d\<in>set ds. d < b \<Longrightarrow> of_digits b ds < b ^ length ds"
  using to_of_digits [of ds b] of_to_digits [of b "length ds" "of_digits b ds"]
  by (metis mod_less_divisor zero_less_power)

section \<open>Hashes\<close>

definition b32_val :: "char \<Rightarrow> nat option" where
  "b32_val c = (if in_range 65 90 c then Some (code_of c - 65) else if in_range 50 55 c then Some (code_of c - 24) else None)"

definition b32_char :: "nat \<Rightarrow> char" where
  "b32_char d = (if d < 26 then char_of (d + 65) else char_of (d + 24))"

definition base32_decode :: "string \<Rightarrow> nat list option" where
  "base32_decode s =
     (if length s mod 8 \<noteq> 0 \<or> list_ex (\<lambda>c. b32_val c = None) s then None
      else Some (to_digits 256 (5 * (length s div 8)) (of_digits 32 (map (\<lambda>c. the (b32_val c)) s))))"

definition base32_encode :: "nat list \<Rightarrow> string" where
  "base32_encode bs = map b32_char (to_digits 32 (8 * (length bs div 5)) (of_digits 256 bs))"

definition valid_hash :: "string \<Rightarrow> bool" where
  "valid_hash s \<longleftrightarrow> length s = 40 \<and> hex_decode s \<noteq> None"

definition normalize_hash :: "string \<Rightarrow> string" where
  "normalize_hash s =
     (let h = trim_space s in
      if length h = 40 then (let l = to_lower h in if valid_hash l then l else [])
      else if length h = 32 then
        (case base32_decode (to_upper h) of Some b \<Rightarrow> if length b = 20 then hex_encode b else [] | None \<Rightarrow> [])
      else [])"

definition marker :: string where
  "marker = ''xt=urn:btih:''"

definition magnet_hash :: "string \<Rightarrow> string" where
  "magnet_hash m =
     (let s = trim_space m; h = normalize_hash s in
      if h \<noteq> [] then h
      else case index_of s marker of None \<Rightarrow> []
      | Some i \<Rightarrow> let r = drop (i + length marker) s in
          normalize_hash (case index_of r ''&'' of None \<Rightarrow> r | Some e \<Rightarrow> take e r))"

definition build_magnet :: "string \<Rightarrow> string \<Rightarrow> string" where
  "build_magnet h n = ''magnet:?xt=urn:btih:'' @ to_lower h @ (if n \<noteq> [] then ''&dn='' @ query_escape n else [])"

definition find_magnet :: "string \<Rightarrow> string" where
  "find_magnet t =
     (case index_of t ''magnet:?'' of None \<Rightarrow> []
      | Some i \<Rightarrow> takeWhile (\<lambda>c. c \<notin> {CHR '' '', CHR 0x09, CHR 0x0D, CHR 0x0A, CHR 0x22, CHR 0x27, CHR ''<'', CHR ''>''}) (drop i t))"

definition clean_magnet :: "(string \<Rightarrow> string) \<Rightarrow> string \<Rightarrow> string" where
  "clean_magnet html m0 =
     (let m1 = (case unescape True m0 of Some d \<Rightarrow> d | None \<Rightarrow> m0); m = html m1; h = trim_space m in
      if valid_hash h then build_magnet h [] else m)"

definition extract_info_hash :: "(string \<Rightarrow> string) \<Rightarrow> string \<Rightarrow> string" where
  "extract_info_hash html m = magnet_hash (clean_magnet html m)"

section \<open>Facts\<close>

definition lower_hex :: "char \<Rightarrow> bool" where
  "lower_hex c \<longleftrightarrow> is_digit c \<or> in_range 97 102 c"

lemma hex_decode_iff: "hex_decode s \<noteq> None \<longleftrightarrow> even (length s) \<and> list_all is_hex s"
  by (induction s rule: hex_decode.induct) auto

lemma valid_hash_iff: "valid_hash s \<longleftrightarrow> length s = 40 \<and> list_all is_hex s"
  using hex_decode_iff [of s] by (auto simp: valid_hash_def)

lemma lower_char_hex: "is_hex (lower_char c) \<Longrightarrow> lower_hex (lower_char c)"
  using lower_char_not_upper [of c] by (auto simp: is_hex_def lower_hex_def in_range_def)

lemma hex_digit_lower: "n < 16 \<Longrightarrow> lower_hex (hex_digit n)"
proof -
  assume "n < 16"
  then have "n \<in> set [0..<16]" by simp
  moreover have "\<forall>n\<in>set [0..<16]. lower_hex (hex_digit n)"
    by (simp add: upt_rec hex_digit_def lower_hex_def is_digit_def in_range_def code_of_def nth_Cons')
  ultimately show ?thesis by blast
qed

lemma hex_encode_lower: "\<forall>b\<in>set bs. b < 256 \<Longrightarrow> list_all lower_hex (hex_encode bs) \<and> length (hex_encode bs) = 2 * length bs"
proof (induction bs)
  case (Cons b bs)
  then have "b div 16 < 16" by auto
  with Cons hex_digit_lower show ?case by simp
qed simp

lemma lower_hex_is_hex: "lower_hex c \<Longrightarrow> is_hex c"
  by (auto simp: lower_hex_def is_hex_def)

lemma lower_hex_lower: "lower_hex c \<Longrightarrow> lower_char c = c"
  by (auto simp: lower_hex_def is_digit_def lower_char_def in_range_def)

lemma lower_hex_upper: "lower_hex c \<Longrightarrow> lower_char (upper_char c) = c"
  by (auto simp: lower_hex_def is_digit_def lower_char_def upper_char_def in_range_def code_of_def)

lemma code_of_upper: "code_of (upper_char c) = (if in_range 97 122 c then code_of c - 32 else code_of c)"
  by (simp add: upper_char_def code_of_def less_imp_diff_less)

lemma lower_hex_plain: "lower_hex c \<Longrightarrow> \<not> is_space c \<and> \<not> is_space (upper_char c) \<and> c \<noteq> CHR ''&'' \<and> upper_char c \<noteq> CHR ''&''"
proof -
  assume "lower_hex c"
  then have "48 \<le> code_of c \<and> code_of c \<le> 57 \<or> 97 \<le> code_of c \<and> code_of c \<le> 102"
    by (auto simp: lower_hex_def is_digit_def in_range_def)
  moreover have "code_of (CHR ''&'') = 38" by (simp add: code_of_def)
  ultimately have "48 \<le> code_of c" "48 \<le> code_of (upper_char c)" "code_of (CHR ''&'') < 48"
    by (auto simp: code_of_upper in_range_def)
  then show ?thesis by (auto simp: is_space_def in_range_def)
qed

lemma decoded_bytes: "base32_decode s = Some bs \<Longrightarrow> \<forall>b\<in>set bs. b < 256"
  by (auto simp: base32_decode_def split: if_splits dest: to_digits_less [rotated])

definition canonical :: "string \<Rightarrow> bool" where
  "canonical h \<longleftrightarrow> length h = 40 \<and> list_all lower_hex h"

lemma normalize_hash_canonical: "normalize_hash s = [] \<or> canonical (normalize_hash s)"
proof -
  let ?h = "trim_space s"
  consider (hex) "length ?h = 40" | (b32) "length ?h = 32" | (other) "length ?h \<noteq> 40" "length ?h \<noteq> 32" by blast
  then show ?thesis
  proof cases
    case hex
    have "list_all lower_hex (to_lower ?h)" if "valid_hash (to_lower ?h)"
      using that lower_char_hex by (auto simp: valid_hash_iff to_lower_def list_all_iff)
    with hex show ?thesis by (simp add: normalize_hash_def canonical_def Let_def)
  next
    case b32
    then show ?thesis
      using hex_encode_lower decoded_bytes [of "to_upper ?h"]
      by (auto simp: normalize_hash_def canonical_def Let_def split: option.splits)
  next
    case other
    then show ?thesis by (simp add: normalize_hash_def Let_def)
  qed
qed

lemma trim_space_id: "s \<noteq> [] \<Longrightarrow> \<not> is_space (hd s) \<Longrightarrow> \<not> is_space (last s) \<Longrightarrow> trim_space s = s"
  by (cases s) (auto simp: trim_space_def trim_left_def trim_right_id)

lemma trim_space_none: "\<forall>c\<in>set s. \<not> is_space c \<Longrightarrow> trim_space s = s"
  by (cases "s = []") (simp add: trim_space_def trim_left_def trim_right_def, simp add: trim_space_id)

lemma normalize_hash_long: "40 < length (trim_space s) \<Longrightarrow> normalize_hash s = []"
  by (simp add: normalize_hash_def Let_def)

lemma magnet_hash_link:
  assumes "\<forall>c\<in>set h. \<not> is_space c \<and> c \<noteq> CHR ''&''" and "\<forall>c\<in>set r. \<not> is_space c" and "r = [] \<or> hd r = CHR ''&''"
    and "length h = 32 \<or> length h = 40"
  shows "magnet_hash (''magnet:?'' @ marker @ h @ r) = normalize_hash h"
proof -
  let ?s = "''magnet:?'' @ marker @ h @ r"
  have "\<forall>c\<in>set ?s. \<not> is_space c"
    using assms(1,2) by (auto simp: marker_def is_space_def in_range_def code_of_def)
  then have t: "trim_space ?s = ?s" by (rule trim_space_none)
  have "40 < length ?s" using assms(4) by (auto simp: marker_def)
  then have n: "normalize_hash ?s = []" by (intro normalize_hash_long) (simp only: t)
  have i: "index_of ?s marker = Some 8" by (simp add: marker_def has_prefix_def)
  have d: "drop (8 + length marker) ?s = h @ r" by (simp add: marker_def)
  have e: "(case index_of (h @ r) ''&'' of None \<Rightarrow> h @ r | Some e \<Rightarrow> take e (h @ r)) = h"
  proof (cases r)
    case Nil
    have "index_of h ''&'' = None" using assms(1) by (induction h) (auto simp: has_prefix_def)
    with Nil show ?thesis by simp
  next
    case (Cons c r')
    then have "index_of (h @ r) ''&'' = Some (length h)" using assms(1,3) index_of_single [of "CHR ''&''" h r'] by auto
    then show ?thesis by simp
  qed
  show ?thesis
    using d e by (simp only: magnet_hash_def Let_def t n i option.case if_False not_True_eq_False simp_thms)
qed

lemma code_of_lower: "code_of (lower_char c) = (if in_range 65 90 c then code_of c + 32 else code_of c)"
  by (simp add: lower_char_def in_range_def)

lemma char_by_code: "code_of a = code_of b \<Longrightarrow> a = b"
  by (simp add: code_of_def)

lemma b32_char_facts:
  assumes "d < 32"
  shows "b32_val (b32_char d) = Some d" "upper_char (b32_char d) = b32_char d"
    "upper_char (lower_char (b32_char d)) = b32_char d"
    "\<not> is_space (b32_char d) \<and> b32_char d \<noteq> CHR ''&''"
    "\<not> is_space (lower_char (b32_char d)) \<and> lower_char (b32_char d) \<noteq> CHR ''&''"
proof -
  let ?c = "b32_char d"
  have c: "code_of ?c = (if d < 26 then d + 65 else d + 24)" using assms by (simp add: b32_char_def)
  have amp: "code_of (CHR ''&'') = 38" by (simp add: code_of_def)
  have l: "code_of (lower_char ?c) = (if d < 26 then d + 97 else d + 24)"
    using assms by (simp add: code_of_lower in_range_def c)
  show "b32_val ?c = Some d" using assms by (simp add: b32_val_def in_range_def c)
  show "upper_char ?c = ?c" using assms by (simp add: upper_char_def in_range_def c)
  show "upper_char (lower_char ?c) = ?c"
    using assms by (intro char_by_code) (simp add: code_of_upper in_range_def l c)
  show "\<not> is_space ?c \<and> ?c \<noteq> CHR ''&''"
    using assms c amp by (auto simp: is_space_def in_range_def split: if_splits)
  show "\<not> is_space (lower_char ?c) \<and> lower_char ?c \<noteq> CHR ''&''"
    using assms l amp by (auto simp: is_space_def in_range_def split: if_splits)
qed

lemma base32_encode_chars:
  assumes "c \<in> set (base32_encode bs)"
  obtains d where "d < 32" "c = b32_char d"
proof -
  from assms obtain d where d: "d \<in> set (to_digits 32 (8 * (length bs div 5)) (of_digits 256 bs))" "c = b32_char d"
    by (auto simp: base32_encode_def)
  then show ?thesis using that to_digits_less [of 32 d] by auto
qed

lemma base32_decode_encode:
  assumes "length bs = 20" and "\<forall>b\<in>set bs. b < 256"
  shows "base32_decode (base32_encode bs) = Some bs \<and> length (base32_encode bs) = 32"
proof -
  let ?ds = "to_digits 32 32 (of_digits 256 bs)"
  have e: "base32_encode bs = map b32_char ?ds" using assms(1) by (simp add: base32_encode_def)
  have small: "\<forall>d\<in>set ?ds. d < 32" using to_digits_less [of 32] by auto
  then have v: "map (\<lambda>c. the (b32_val c)) (map b32_char ?ds) = ?ds"
    using b32_char_facts by (auto intro!: map_idI)
  have "of_digits 256 bs < 256 ^ 20" using of_digits_less [of 256 bs] assms by simp
  moreover have "(256::nat) ^ 20 = 32 ^ 32" by simp
  ultimately have "of_digits 256 bs < 32 ^ 32" by simp
  then have "of_digits 32 ?ds = of_digits 256 bs" using of_to_digits [of 32 32 "of_digits 256 bs"] by (simp del: power_numeral)
  moreover have "to_digits 256 20 (of_digits 256 bs) = bs" using to_of_digits [of bs 256] assms by simp
  moreover have "\<not> list_ex (\<lambda>c. b32_val c = None) (map b32_char ?ds)"
    using small b32_char_facts by (auto simp: list_ex_iff)
  ultimately show ?thesis using v by (simp add: base32_decode_def e del: map_map)
qed

section \<open>Properties\<close>

text \<open>
  C38: whatever the link, the extracted hash is empty or exactly forty lower-case hexadecimal digits,
  so every hash a submission is filed under has one form.
\<close>

theorem extracted_hash_type:
  "extract_info_hash html m = [] \<or>
     (length (extract_info_hash html m) = 40 \<and> list_all lower_hex (extract_info_hash html m)
      \<and> to_lower (extract_info_hash html m) = extract_info_hash html m)"
proof -
  have c: "canonical h \<Longrightarrow> to_lower h = h" for h
    using lower_hex_lower by (auto simp: canonical_def to_lower_def list_all_iff intro!: map_idI)
  have "extract_info_hash html m = [] \<or> canonical (extract_info_hash html m)"
    unfolding extract_info_hash_def magnet_hash_def Let_def
    using normalize_hash_canonical by (auto split: option.splits)
  then show ?thesis using c by (auto simp: canonical_def)
qed

definition hash_form :: "nat list \<Rightarrow> string \<Rightarrow> bool" where
  "hash_form bs h \<longleftrightarrow> h \<in> {hex_encode bs, to_upper (hex_encode bs), base32_encode bs, to_lower (base32_encode bs)}"

lemma normalize_forms:
  assumes "length bs = 20" and "\<forall>b\<in>set bs. b < 256" and "hash_form bs h"
  shows "normalize_hash h = hex_encode bs \<and> (\<forall>c\<in>set h. \<not> is_space c \<and> c \<noteq> CHR ''&'') \<and> (length h = 32 \<or> length h = 40)"
proof -
  let ?x = "hex_encode bs" and ?b = "base32_encode bs"
  have x: "list_all lower_hex ?x" "length ?x = 40" using hex_encode_lower [OF assms(2)] assms(1) by simp_all
  note b = base32_decode_encode [OF assms(1,2)]
  have low: "to_lower ?x = ?x" "to_lower (to_upper ?x) = ?x" "valid_hash ?x"
    using x lower_hex_lower lower_hex_upper lower_hex_is_hex
    by (auto simp: to_lower_def to_upper_def list_all_iff valid_hash_iff intro!: map_idI)
  have up: "to_upper ?b = ?b" "to_upper (to_lower ?b) = ?b"
    using b32_char_facts by (auto simp: to_lower_def to_upper_def intro!: map_idI elim!: base32_encode_chars)
  have plain: "\<forall>c\<in>set h. \<not> is_space c \<and> c \<noteq> CHR ''&''"
  proof
    fix c assume "c \<in> set h"
    then have "c \<in> set ?x \<or> c \<in> upper_char ` set ?x \<or> c \<in> set ?b \<or> c \<in> lower_char ` set ?b"
      using assms(3) by (auto simp: hash_form_def to_lower_def to_upper_def)
    moreover have hx: "lower_hex y" if "y \<in> set ?x" for y using x(1) that by (simp add: list_all_iff)
    moreover have hb: "\<exists>d<32. y = b32_char d" if "y \<in> set ?b" for y using that by (auto elim: base32_encode_chars)
    ultimately consider y where "lower_hex y" "c = y \<or> c = upper_char y" | d where "d < 32" "c = b32_char d \<or> c = lower_char (b32_char d)"
      by blast
    then show "\<not> is_space c \<and> c \<noteq> CHR ''&''"
    proof cases
      case 1
      then show ?thesis using lower_hex_plain [of y] by auto
    next
      case 2
      then show ?thesis using b32_char_facts(4,5) [of d] by auto
    qed
  qed
  then have t: "trim_space h = h" by (intro trim_space_none) blast
  have n40: "normalize_hash g = to_lower g" if "trim_space g = g" "length g = 40" "valid_hash (to_lower g)" for g
    using that by (simp add: normalize_hash_def Let_def)
  have n32: "normalize_hash g = ?x" if "trim_space g = g" "length g = 32" "to_upper g = ?b" for g
    using that b assms(1) by (simp add: normalize_hash_def Let_def)
  consider "h = ?x" | "h = to_upper ?x" | "h = ?b" | "h = to_lower ?b" using assms(3) by (auto simp: hash_form_def)
  then have "normalize_hash h = ?x"
  proof cases
    case 1
    then show ?thesis using n40 [OF t] x(2) low by simp
  next
    case 2
    then show ?thesis using n40 [OF t] x(2) low by (simp add: to_upper_def [of ?x])
  next
    case 3
    then show ?thesis using n32 [OF t] b up by simp
  next
    case 4
    then show ?thesis using n32 [OF t] b up by simp
  qed
  moreover have "length h = 32 \<or> length h = 40"
    using assms(3) b x(2) by (auto simp: hash_form_def to_upper_def)
  ultimately show ?thesis using plain by simp
qed

text \<open>
  Every way to write an info hash is filed under one string: for twenty bytes, the bare hash in
  hexadecimal or base32, in either case, and a magnet link with any of them and any encoded
  parameters behind it, all give the forty lower-case hexadecimal digits of the bytes. A link built
  from such a hash and a name gives the hash back.
\<close>

theorem hash_forms_agree:
  assumes "length bs = 20" and "\<forall>b\<in>set bs. b < 256" and "hash_form bs h"
    and "r = [] \<or> (hd r = CHR ''&'' \<and> (\<forall>c\<in>set r. \<not> is_space c))"
  shows "magnet_hash h = hex_encode bs \<and> magnet_hash (''magnet:?'' @ marker @ h @ r) = hex_encode bs
    \<and> magnet_hash (build_magnet (hex_encode bs) n) = hex_encode bs"
proof -
  note f = normalize_forms [OF assms(1-3)]
  have "hex_encode bs \<noteq> []" using assms(1) by (cases bs) simp_all
  then have "magnet_hash h = hex_encode bs"
    using f trim_space_none [of h] by (simp add: magnet_hash_def normalize_hash_def)
  moreover have "magnet_hash (''magnet:?'' @ marker @ h @ r) = hex_encode bs"
  proof -
    have "\<forall>c\<in>set r. \<not> is_space c" "r = [] \<or> hd r = CHR ''&''" using assms(4) by auto
    with f have "magnet_hash (''magnet:?'' @ marker @ h @ r) = normalize_hash h"
      by (intro magnet_hash_link) blast+
    with f show ?thesis by (simp only:)
  qed
  moreover have "magnet_hash (build_magnet (hex_encode bs) n) = hex_encode bs"
  proof -
    have "hash_form bs (hex_encode bs)" by (simp add: hash_form_def)
    note g = normalize_forms [OF assms(1,2) this]
    let ?r = "if n \<noteq> [] then ''&dn='' @ query_escape n else []"
    have amp: "\<not> is_space (CHR ''+'')" "\<not> is_space (CHR ''%'')" "\<not> is_space (CHR ''&'')" "\<not> is_space (CHR ''d'')"
      "\<not> is_space (CHR ''n'')" "\<not> is_space (CHR ''='')" by (simp_all add: is_space_def in_range_def code_of_def)
    have "\<not> is_space c" if "unreserved c" for c
    proof -
      have "code_of (CHR ''-'') = 45" "code_of (CHR ''_'') = 95" "code_of (CHR ''.'') = 46" "code_of (CHR ''~'') = 126"
        by (simp_all add: code_of_def)
      then have "45 \<le> code_of c" using that by (auto simp: unreserved_def is_digit_def in_range_def)
      then show ?thesis by (simp add: is_space_def in_range_def)
    qed
    with amp have "\<forall>c\<in>set ?r. \<not> is_space c" by (auto dest!: query_escape_bytes)
    moreover have "to_lower (hex_encode bs) = hex_encode bs"
      using hex_encode_lower [OF assms(2)] lower_hex_lower by (auto simp: to_lower_def list_all_iff intro!: map_idI)
    ultimately show ?thesis
      using g magnet_hash_link [of "hex_encode bs" ?r] by (simp add: build_magnet_def marker_def)
  qed
  ultimately show ?thesis by simp
qed

theorem hash_forms_agree_witness:
  "magnet_hash (''magnet:?'' @ marker @ to_lower (base32_encode (replicate 20 7)) @ ''&dn=film'') = hex_encode (replicate 20 7)"
proof -
  have "hash_form (replicate 20 7) (to_lower (base32_encode (replicate 20 7)))" by (simp add: hash_form_def)
  moreover have "\<forall>c\<in>set ''&dn=film''. \<not> is_space c" by (simp add: is_space_def in_range_def code_of_def)
  ultimately show ?thesis
    using hash_forms_agree [of "replicate 20 7" "to_lower (base32_encode (replicate 20 7))" "''&dn=film''"] by simp
qed

end
