(* ===== verification/Torrent_File.thy ===== *)
theory Torrent_File
  imports Prelude "HOL-Library.Multiset"
begin

text \<open>
  \<open>SubsetBySize\<close> of \<open>shared/torrentfile\<close>: whether the sizes of a torrent's files, with their
  multiplicities, are among those of another. The API and the torrent runner both decide by it.
\<close>

fun subset_by_size :: "int list \<Rightarrow> int list \<Rightarrow> bool" where
  "subset_by_size [] have = True"
| "subset_by_size (s # want) have = (s \<in> set have \<and> subset_by_size want (remove1 s have))"

definition subset_sizes :: "int list \<Rightarrow> int list \<Rightarrow> bool" where
  "subset_sizes want have \<longleftrightarrow> want \<noteq> [] \<and> subset_by_size want have"

lemma subset_by_size_mset: "subset_by_size want have \<longleftrightarrow> mset want \<subseteq># mset have"
  by (induction want arbitrary: "have") (auto simp: insert_subset_eq_iff)

lemma subset_sizes_iff: "subset_sizes want have \<longleftrightarrow> want \<noteq> [] \<and> mset want \<subseteq># mset have"
  by (simp add: subset_sizes_def subset_by_size_mset)

end
