(* ===== verification/Submit.thy ===== *)
theory Submit
  imports Scheduler Blob_Store Magnet Torrent_File
begin

text \<open>
  The submissions of the API, \<open>api/internal/handlers\<close>: magnets and links (\<open>jobs.go\<close>), NZB files
  (\<open>usenet.go\<close>), torrent files and private seeds (\<open>seed.go\<close>), retries and rechecks. A handler runs
  against a table others write: \<open>rq_others k\<close> is what they do before its operation number \<open>k\<close>, and
  \<open>rq_flt k\<close> the failing statements of that operation. What the handler asks of other services is part
  of the request's environment. A reply carries the status code and the job shown.
\<close>

section \<open>Requests and replies\<close>

datatype reply = Shown int job | Refused int string | Deleted

datatype api_event = EvAssigned assigned | EvRehydrate string string string string | EvDeleted job

record req_env =
  rq_flt :: "nat \<Rightarrow> db_error faults"
  rq_others :: "nat \<Rightarrow> db \<Rightarrow> db"
  rq_uuid :: "db_error + string"
  rq_now :: int
  rq_slots :: slot_tracker
  rq_cluster :: cluster
  rq_sizer :: "db \<Rightarrow> sizer"
  rq_mans :: "string \<Rightarrow> manifest option option"
  rq_has :: "string \<Rightarrow> bool"
  rq_users :: bool
  rq_archived :: bool
  rq_byos :: "(string \<times> file_rec list) option"
  rq_over :: bool
  rq_put_fails :: bool

text \<open>\<open>&jobs.Job{...}\<close>: the fields not named are zero; the status of a new job is set on admission.\<close>

definition blank_job :: job where
  "blank_job = \<lparr>jid = [], user_id = [], info_hash = [], jname = [], magnet = [], source = SourceTorrent, status = StatusPending,
     seed = False, budget_gated = False, input_key = [], jerror = [], files = [], selected_idxs = [], imdb_id = [], season = 0,
     episode = 0, file_size = 0, max_bytes = 0, priority = 0, progress = 0, speed = 0, node = [], created_at = 0, updated_at = 0,
     access_count = 0, last_accessed = None\<rparr>"

definition user_job_for_hash :: "job list \<Rightarrow> string \<Rightarrow> job option" where
  "user_job_for_hash sibs u =
     find (\<lambda>j. user_id j = u \<and> \<not> seed j \<and> status j \<noteq> StatusFailed \<and> status j \<noteq> StatusEvicted) sibs"

definition reusable_job_for_hash :: "job list \<Rightarrow> job option" where
  "reusable_job_for_hash sibs = find (\<lambda>j. \<not> seed j \<and> status j \<noteq> StatusFailed \<and> status j \<noteq> StatusEvicted) sibs"

definition recently_failed :: "job list \<Rightarrow> string \<Rightarrow> int \<Rightarrow> job option" where
  "recently_failed sibs u cutoff = find (\<lambda>j. user_id j = u \<and> status j = StatusFailed \<and> updated_at j > cutoff) sibs"

text \<open>Half an hour, in nanoseconds as the times of the rows.\<close>

definition usenet_fail_cooldown :: int where
  "usenet_fail_cooldown = 30 * 60 * 1000000000"

definition write_queue_error :: "slot_tracker \<Rightarrow> db_error \<Rightarrow> reply" where
  "write_queue_error st e =
     (if e = ErrQueueFull
      then Refused 429 (''download queue full ('' @ show_int (sl_max_queued st) @ ''/'' @ show_int (sl_max_queued st) @ '')'')
      else Refused 500 ''could not queue this download'')"

definition admission_status :: "admission \<Rightarrow> int" where
  "admission_status a = (if a = AdmissionExisting then 200 else 202)"

definition listed_siblings :: "req_env \<Rightarrow> nat \<Rightarrow> db \<Rightarrow> string \<Rightarrow> job list" where
  "listed_siblings e k d h = (if rq_flt e k 0 = None then list_by_info_hash d h else [])"

definition playable :: "req_env \<Rightarrow> string \<Rightarrow> bool" where
  "playable e h =
     (case rq_mans e h of None \<Rightarrow> False
      | Some m \<Rightarrow> (case manifest_meta m of (_, _, fs) \<Rightarrow>
          fs \<noteq> [] \<and> rq_has e (resolve_key h 0 (file_key (hd fs)) (file_name (hd fs)))))"

text \<open>\<open>Slots.Admit\<close> and \<open>assign\<close>: operations \<open>k\<close> and \<open>k + 1\<close>.\<close>

definition assign_job :: "req_env \<Rightarrow> nat \<Rightarrow> db \<Rightarrow> job \<Rightarrow> job \<times> api_event list \<times> db" where
  "assign_job e k d j =
     (let d1 = rq_others e k d in
      case assign (rq_cluster e) (rq_sizer e d1) (rq_flt e k) 0 (rq_now e) d1 j of
        (a, d2) \<Rightarrow> (j\<lparr>node := as_node a, updated_at := rq_now e\<rparr>, [EvAssigned a], d2))"

definition grab :: "req_env \<Rightarrow> nat \<Rightarrow> db \<Rightarrow> job \<Rightarrow> plan \<Rightarrow> bool \<Rightarrow> (reply + admission \<times> job) \<times> api_event list \<times> db" where
  "grab e k d j p gated =
     (case slot_admit (rq_flt e k) (rq_uuid e) (rq_now e) (rq_slots e) (rq_others e k d) j p gated of
        (Inl err, _, d1) \<Rightarrow> (Inl (write_queue_error (rq_slots e) err), [], d1)
      | (Inr (a, j1), _, d1) \<Rightarrow>
          if a = AdmissionAdmitted
          then (case assign_job e (Suc k) d1 j1 of (j2, evs, d2) \<Rightarrow> (Inr (a, j2), evs, d2))
          else (Inr (a, j1), [], d1))"

definition shown :: "(reply + admission \<times> job) \<times> api_event list \<times> db \<Rightarrow> reply \<times> api_event list \<times> db" where
  "shown out = (case out of (Inl r, evs, d) \<Rightarrow> (r, evs, d) | (Inr (a, j), evs, d) \<Rightarrow> (Shown (admission_status a) j, evs, d))"

section \<open>Answers without a download\<close>

definition build_cached_job :: "req_env \<Rightarrow> nat \<Rightarrow> db \<Rightarrow> string \<Rightarrow> string \<Rightarrow> string \<Rightarrow> source \<Rightarrow> job option \<times> db" where
  "build_cached_job e k d h m u src =
     (let d1 = rq_others e k d in
      case rq_mans e h of
        Some (Some mn) \<Rightarrow>
          (case create_once (rq_flt e k) (rq_uuid e) (rq_now e) d1
               (blank_job\<lparr>user_id := u, info_hash := h, jname := mn_name mn, magnet := m, source := src, status := StatusComplete,
                  files := job_files (mn_files mn), file_size := sum_list (map mf_size (mn_files mn))\<rparr>) of
             (Inl _, d2) \<Rightarrow> (None, d2)
           | (Inr (_, j), d2) \<Rightarrow> (Some j, d2))
      | _ \<Rightarrow> (None, d1))"

definition serve_from_byos :: "req_env \<Rightarrow> nat \<Rightarrow> db \<Rightarrow> string \<Rightarrow> string \<Rightarrow> string \<Rightarrow> source
    \<Rightarrow> (reply \<times> api_event list \<times> db) option" where
  "serve_from_byos e k d u h m src =
     (case rq_byos e of None \<Rightarrow> None
      | Some (nm, fs) \<Rightarrow> if \<not> rq_users e then None else
          (case create_once (rq_flt e k) (rq_uuid e) (rq_now e) (rq_others e k d)
               (blank_job\<lparr>user_id := u, info_hash := h, magnet := m, jname := nm, source := src, status := StatusComplete,
                  files := fs, file_size := sum_list (map file_bytes fs)\<rparr>) of
             (Inl _, d1) \<Rightarrow> Some (Refused 500 ''could not restore from your storage'', [], d1)
           | (Inr (created, j), d1) \<Rightarrow>
               Some (Shown 200 j, if created then [EvRehydrate (jid j) u h (node j)] else [], d1)))"

text \<open>The link to a row of another account: an active one is admitted, a complete one is copied.\<close>

definition link_job :: "req_env \<Rightarrow> nat \<Rightarrow> db \<Rightarrow> job \<Rightarrow> plan \<Rightarrow> bool \<Rightarrow> reply \<times> api_event list \<times> db" where
  "link_job e k d linked p gated =
     (if status_active (status linked) then shown (grab e k d linked p gated)
      else case create_once (rq_flt e k) (rq_uuid e) (rq_now e) (rq_others e k d) linked of
          (Inl _, d1) \<Rightarrow> (Refused 500 ''could not start this download'', [], d1)
        | (Inr (_, j), d1) \<Rightarrow> (Shown 200 j, [], d1))"

section \<open>Magnets and links\<close>

definition submit_magnet :: "req_env \<Rightarrow> string \<Rightarrow> plan \<Rightarrow> string \<Rightarrow> string \<Rightarrow> string \<Rightarrow> source \<Rightarrow> bool \<Rightarrow> db
    \<Rightarrow> reply \<times> api_event list \<times> db" where
  "submit_magnet e u p h m nm src gated d =
     (let d0 = rq_others e 0 d; sibs = listed_siblings e 0 d0 h in
      case user_job_for_hash sibs u of
        Some j \<Rightarrow> (Shown 200 j, [], d0)
      | None \<Rightarrow>
        if playable e h
        then (case build_cached_job e 1 d0 h m u src of
                (None, d1) \<Rightarrow> (Refused 500 ''could not read from cache'', [], d1)
              | (Some j, d1) \<Rightarrow> (Shown 200 j, [], d1))
        else case reusable_job_for_hash sibs of
          Some ex \<Rightarrow> link_job e 1 d0 (blank_job\<lparr>user_id := u, info_hash := h, jname := jname ex, magnet := m, source := src,
              status := status ex, files := files ex, file_size := file_size ex, node := node ex\<rparr>) p gated
        | None \<Rightarrow>
          if rq_users e \<and> rq_archived e
          then shown (grab e 1 d0 (blank_job\<lparr>user_id := u, info_hash := h, magnet := m, jname := nm, source := SourceUsenet,
              max_bytes := max_torrent_bytes p, priority := plan_priority p\<rparr>) p gated)
          else case serve_from_byos e 1 d0 u h m src of Some out \<Rightarrow> out
          | None \<Rightarrow>
            if rq_users e \<and> rq_over e then (Refused 429 ''monthly download limit reached, resets on the 1st'', [], d0)
            else shown (grab e 1 d0 (blank_job\<lparr>user_id := u, info_hash := h, magnet := m, jname := nm, source := src,
              max_bytes := max_torrent_bytes p, priority := plan_priority p\<rparr>) p gated))"

text \<open>
  \<open>ingestText\<close>: \<open>blocked\<close> is the verdict of the safety screen, \<open>host\<close> what \<open>url.Parse\<close> gives for the
  host name, \<open>sha20\<close> and \<open>sha1\<close> the keys of a canonical URL, \<open>title\<close> the looked-up release title.
\<close>

definition is_web_url :: "string \<Rightarrow> bool" where
  "is_web_url s = (let t = to_lower (trim_space s) in has_prefix t ''http://'' \<or> has_prefix t ''https://'')"

definition release_source_for :: "(string \<Rightarrow> string option) \<Rightarrow> string \<Rightarrow> source option" where
  "release_source_for host url =
     (case host url of None \<Rightarrow> None
      | Some h0 \<Rightarrow> let h = trim_prefix (to_lower h0) ''www.'' in
          if has_suffix h ''hdencode.org'' then Some SourceHDEncode
          else if has_suffix h ''scene-rls.net'' then Some SourceScenerls else None)"

definition ingest_text :: "(string \<Rightarrow> bool) \<Rightarrow> (string \<Rightarrow> string option) \<Rightarrow> (string \<Rightarrow> string) \<Rightarrow> (string \<Rightarrow> string)
    \<Rightarrow> (string \<Rightarrow> string) \<Rightarrow> (string \<Rightarrow> string) \<Rightarrow> req_env \<Rightarrow> string \<Rightarrow> plan \<Rightarrow> string \<Rightarrow> db \<Rightarrow> reply \<times> api_event list \<times> db" where
  "ingest_text blocked host sha20 sha1 title html e u p inp d =
     (if blocked inp then (Refused 403 ''content blocked by safety policy'', [], d)
      else if is_web_url inp
      then (case release_source_for host inp of
              Some src \<Rightarrow>
                if plan_id p = ''free''
                then (Refused 403 ''grabbing from release sites requires a paid plan'', [], d)
                else submit_magnet e u p (sha20 inp) inp (title inp) src False d
            | None \<Rightarrow> submit_magnet e u p (sha1 inp) inp [] SourceYtdlp True d)
      else let h = extract_info_hash html inp in
        if h = [] then (Refused 400 ''cannot extract infohash'', [], d)
        else submit_magnet e u p h inp [] SourceTorrent True d)"

definition is_hoster_url :: "string \<Rightarrow> bool" where
  "is_hoster_url u \<longleftrightarrow> has_prefix u ''http://'' \<or> has_prefix u ''https://''"

definition submit_hoster :: "(string \<Rightarrow> bool) \<Rightarrow> (string \<Rightarrow> string) \<Rightarrow> req_env \<Rightarrow> string \<Rightarrow> plan \<Rightarrow> string \<Rightarrow> db
    \<Rightarrow> reply \<times> api_event list \<times> db" where
  "submit_hoster blocked sha20 e u p url d =
     (if url = [] then (Refused 400 ''url required'', [], d)
      else if \<not> is_hoster_url url then (Refused 400 ''invalid url'', [], d)
      else if blocked url then (Refused 403 ''content blocked by safety policy'', [], d)
      else if plan_id p = ''free'' then (Refused 403 ''hoster links require a paid plan'', [], d)
      else submit_magnet e u p (sha20 url) url [] SourceHoster False d)"

section \<open>NZB files\<close>

text \<open>
  What \<open>nzb.ParseBytes\<close> and the account tables say: the content hash, the name and size, whether
  the file parses and has files, the safety verdict, the hash a stable link was mapped to before, a
  deletion mark, and whether the user has a provider. \<open>nzb_explicit\<close> is a grab the user asked for.
\<close>

record nzb_in =
  nzb_ok :: bool
  nzb_hash :: string
  nzb_name :: string
  nzb_size :: int
  nzb_blocked :: bool
  nzb_linked :: bool
  nzb_prior :: string
  nzb_tombstoned :: bool
  nzb_provider :: bool
  nzb_explicit :: bool
  nzb_imdb :: string
  nzb_hint :: string

definition usenet_entitled :: "bool \<Rightarrow> plan \<Rightarrow> bool" where
  "usenet_entitled own p \<longleftrightarrow> (own \<and> can_byok (plan_id p)) \<or> system_usenet p"

definition tombstone_blocks :: "bool \<Rightarrow> bool \<Rightarrow> bool" where
  "tombstone_blocks explicit tombstoned \<longleftrightarrow> \<not> explicit \<and> tombstoned"

definition nzb_key :: "nzb_in \<Rightarrow> string" where
  "nzb_key n = (if nzb_linked n \<and> nzb_prior n \<noteq> [] then nzb_prior n else nzb_hash n)"

definition nzb_title :: "nzb_in \<Rightarrow> string" where
  "nzb_title n = (if nzb_hint n \<noteq> [] then nzb_hint n else if nzb_name n \<noteq> [] then nzb_name n else ''usenet download'')"

definition ingest_nzb :: "req_env \<Rightarrow> string \<Rightarrow> plan \<Rightarrow> nzb_in \<Rightarrow> db \<Rightarrow> reply \<times> api_event list \<times> db" where
  "ingest_nzb e u p n d =
     (if \<not> usenet_entitled (nzb_provider n) p
      then (Refused 403 ''usenet needs your own provider, add NNTP credentials in settings, or upgrade to a plan that includes usenet'', [], d)
      else if \<not> nzb_ok n then (Refused 400 ''invalid nzb file'', [], d)
      else if nzb_blocked n then (Refused 403 ''content blocked by safety policy'', [], d)
      else let h = nzb_key n; d0 = rq_others e 0 d; sibs = listed_siblings e 0 d0 h in
      case user_job_for_hash sibs u of
        Some j \<Rightarrow> (Shown 200 j, [], d0)
      | None \<Rightarrow>
        if rq_users e \<and> tombstone_blocks (nzb_explicit n) (nzb_tombstoned n)
        then (Refused 409 ''you removed this download, search for it again to re-add'', [], d0)
        else case recently_failed sibs u (rq_now e - usenet_fail_cooldown) of
          Some j \<Rightarrow> (Refused 409 (if jerror j = [] then ''this release failed recently, try again later'' else jerror j), [], d0)
        | None \<Rightarrow>
        if max_torrent_bytes p > 0 \<and> nzb_size n > max_torrent_bytes p
        then (Refused 400 (''nzb too large ('' @ show_int (quot (nzb_size n) 1000000000) @ ''GB, max ''
          @ show_int (quot (max_torrent_bytes p) 1000000000) @ ''GB)''), [], d0)
        else if playable e h
        then (case build_cached_job e 1 d0 h [] u SourceUsenet of
                (None, d1) \<Rightarrow> (Refused 500 ''could not read from cache'', [], d1)
              | (Some j, d1) \<Rightarrow>
                  let j1 = j\<lparr>jname := nzb_title n\<rparr> in
                  if nzb_imdb n = [] then (Shown 200 j1, [], d1)
                  else (Shown 200 (j1\<lparr>imdb_id := nzb_imdb n\<rparr>), [], snd (set_imdb (rq_flt e 2) (rq_others e 2 d1) h (nzb_imdb n))))
        else case reusable_job_for_hash sibs of
          Some ex \<Rightarrow> link_job e 1 d0 (blank_job\<lparr>user_id := u, info_hash := h, jname := jname ex, source := SourceUsenet,
              status := status ex, files := files ex, file_size := file_size ex, node := node ex, imdb_id := imdb_id ex\<rparr>) p True
        | None \<Rightarrow>
          if rq_over e then (Refused 429 ''monthly download limit reached, resets on the 1st'', [], d0)
          else if rq_put_fails e then (Refused 500 ''failed to store nzb'', [], d0)
          else shown (grab e 1 d0 (blank_job\<lparr>user_id := u, info_hash := h, jname := nzb_title n, file_size := nzb_size n,
              source := SourceUsenet, imdb_id := nzb_imdb n, max_bytes := max_torrent_bytes p, priority := plan_priority p\<rparr>) p True))"

section \<open>Torrent files and private seeds\<close>

text \<open>
  The parsed torrent file, whether the account may seed (\<open>seedingAllowed\<close>), the seed slots bought,
  and the engines: \<open>ti_seed\<close> for the seed engine, \<open>ti_login\<close> and \<open>ti_added\<close> for what it answers.
\<close>

record torrent_in =
  ti_ok :: bool
  ti_hash :: string
  ti_name :: string
  ti_size :: int
  ti_private :: bool
  ti_files :: "(string \<times> int) list"
  ti_key :: string
  ti_allowed :: bool
  ti_plan :: string
  ti_packs :: int
  ti_engine :: bool
  ti_seed :: bool
  ti_login :: bool
  ti_added :: bool

definition seeding_allowed :: "bool \<Rightarrow> (string \<Rightarrow> bool) \<Rightarrow> user option \<Rightarrow> bool" where
  "seeding_allowed enabled allow u =
     (if enabled then True else case u of None \<Rightarrow> False | Some v \<Rightarrow> email v \<noteq> [] \<and> allow (to_lower (email v)))"

definition seed_cap :: "plan \<Rightarrow> int \<Rightarrow> int" where
  "seed_cap p packs = seed_slots p + (if packs > 2 then 2 else packs) * 10"

definition seed_usage :: "req_env \<Rightarrow> nat \<Rightarrow> db \<Rightarrow> string \<Rightarrow> int" where
  "seed_usage e k d u =
     (if rq_flt e k 0 \<noteq> None then 0
      else int (count_where (\<lambda>j. user_id j = u \<and> seed j \<and> status_active (status j)) (jobs_t d)))"

definition seed_gate :: "req_env \<Rightarrow> nat \<Rightarrow> db \<Rightarrow> string \<Rightarrow> plan \<Rightarrow> torrent_in \<Rightarrow> (int \<times> string) option" where
  "seed_gate e k d u p t =
     (if \<not> ti_seed t then Some (503, ''seed engine unavailable'')
      else if ti_plan t = ''free'' then Some (403, ''seeding private trackers requires a paid plan'')
      else if max_torrent_bytes p > 0 \<and> ti_size t > max_torrent_bytes p then Some (413, ''torrent exceeds your plan size limit'')
      else let used = seed_usage e k d u; limit = seed_cap p (ti_packs t) in
        if used \<ge> limit
        then Some (429, ''seed limit reached ('' @ show_int used @ ''/'' @ show_int limit @ ''), free a seed or add slots'')
        else None)"

definition match_cross_seed :: "req_env \<Rightarrow> nat \<Rightarrow> db \<Rightarrow> torrent_in \<Rightarrow> bool" where
  "match_cross_seed e k d t \<longleftrightarrow> rq_flt e k 0 = None \<and>
     list_ex (\<lambda>j. status j = StatusSeeding \<and> info_hash j \<noteq> ti_hash t \<and> subset_sizes (map snd (ti_files t)) (file_sizes j)) (jobs_t d)"

definition stage_cross_seed :: "req_env \<Rightarrow> nat \<Rightarrow> db \<Rightarrow> string \<Rightarrow> plan \<Rightarrow> torrent_in \<Rightarrow> job option \<times> api_event list \<times> db" where
  "stage_cross_seed e k d u p t =
     (if rq_put_fails e then (None, [], d)
      else case create_once (rq_flt e k) (rq_uuid e) (rq_now e) (rq_others e k d)
          (blank_job\<lparr>user_id := u, info_hash := ti_hash t, jname := ti_name t, file_size := ti_size t, source := SourceCrossSeed,
             status := StatusPending, seed := True,
             files := map (\<lambda>(i, f). \<lparr>file_index = i, file_name = fst f, file_bytes = snd f, file_key = [], file_enc = False\<rparr>)
                 (enumerate 0 (ti_files t)),
             max_bytes := max_torrent_bytes p, priority := plan_priority p\<rparr>) of
          (Inl _, d1) \<Rightarrow> (None, [], d1)
        | (Inr (_, j), d1) \<Rightarrow> (case assign_job e (Suc k) d1 j of (j1, evs, d2) \<Rightarrow> (Some j1, evs, d2)))"

text \<open>\<open>GetByInfoHash\<close>: the newest row of the hash, of any account.\<close>

definition create_seed_job :: "req_env \<Rightarrow> nat \<Rightarrow> db \<Rightarrow> string \<Rightarrow> plan \<Rightarrow> torrent_in \<Rightarrow> job option \<times> api_event list \<times> db" where
  "create_seed_job e k d u p t =
     (let d1 = rq_others e k d in
      if match_cross_seed e k d1 t then stage_cross_seed e (Suc k) d1 u p t
      else let d2 = rq_others e (Suc k) d1;
             ex = (if rq_flt e (Suc k) 0 = None then newest (list_by_info_hash d2 (ti_hash t)) else None) in
        if (case ex of Some j \<Rightarrow> user_id j = u \<and> status j \<noteq> StatusFailed | None \<Rightarrow> False) then (ex, [], d2)
        else if \<not> ti_login t \<or> \<not> ti_added t then (None, [], d2)
        else case create_once (rq_flt e (k + 2)) (rq_uuid e) (rq_now e) (rq_others e (k + 2) d2)
            (blank_job\<lparr>user_id := u, info_hash := ti_hash t, jname := ti_name t, file_size := ti_size t, source := SourceTorrent,
               status := StatusDownloading, seed := True, max_bytes := max_torrent_bytes p, priority := plan_priority p\<rparr>) of
            (Inl _, d3) \<Rightarrow> (None, [], d3)
          | (Inr (_, j), d3) \<Rightarrow> (Some j, [], d3))"

text \<open>\<open>ingestTorrent\<close>; the flag of the result says whether the staged file is deleted again.\<close>

definition ingest_torrent :: "req_env \<Rightarrow> string \<Rightarrow> plan \<Rightarrow> torrent_in \<Rightarrow> db \<Rightarrow> (reply \<times> api_event list \<times> db) \<times> bool" where
  "ingest_torrent e u p t d =
     (if \<not> ti_ok t then ((Refused 400 ''invalid torrent file'', [], d), False)
      else if ti_private t then
        (if \<not> ti_allowed t then ((Refused 400 ''private torrents aren't supported yet'', [], d), False)
         else let d0 = rq_others e 0 d in
         case seed_gate e 0 d0 u p t of
           Some (code, msg) \<Rightarrow> ((Refused code msg, [], d0), False)
         | None \<Rightarrow> (case create_seed_job e 1 d0 u p t of
              (None, evs, d1) \<Rightarrow> ((Refused 502 ''failed to add seed'', evs, d1), False)
            | (Some j, evs, d1) \<Rightarrow> ((Shown 202 j, evs, d1), False)))
      else if \<not> ti_engine t then ((Refused 503 ''torrent engine unavailable'', [], d), False)
      else if max_torrent_bytes p > 0 \<and> ti_size t > max_torrent_bytes p
      then ((Refused 413 ''torrent exceeds your plan size limit'', [], d), False)
      else let d0 = rq_others e 0 d in
      case user_job_for_hash (listed_siblings e 0 d0 (ti_hash t)) u of
        Some j \<Rightarrow> ((Shown 200 j, [], d0), False)
      | None \<Rightarrow>
        if rq_over e then ((Refused 429 ''monthly download limit reached, resets on the 1st'', [], d0), False)
        else if rq_put_fails e then ((Refused 500 ''failed to stage torrent'', [], d0), False)
        else case grab e 1 d0 (blank_job\<lparr>user_id := u, info_hash := ti_hash t, jname := ti_name t, file_size := ti_size t,
               source := SourceTorrent, input_key := ti_key t, max_bytes := max_torrent_bytes p, priority := plan_priority p\<rparr>) p False of
            (Inl r, evs, d1) \<Rightarrow> ((r, evs, d1), True)
          | (Inr (a, j), evs, d1) \<Rightarrow> ((Shown (admission_status a) j, evs, d1), a = AdmissionExisting))"

section \<open>Retry and recheck\<close>

definition requeue_job :: "req_env \<Rightarrow> string \<Rightarrow> plan \<Rightarrow> db \<Rightarrow> reply \<times> api_event list \<times> db" where
  "requeue_job e i p d =
     (case slot_readmit (rq_flt e 1) (rq_now e) (rq_slots e) d (rq_others e 1 d) i p of
        (Inl err, _, d1) \<Rightarrow> (write_queue_error (rq_slots e) err, [], d1)
      | (Inr (a, j), _, d1) \<Rightarrow>
          if a = AdmissionAdmitted
          then (case assign_job e 2 d1 j of (j1, evs, d2) \<Rightarrow> (Shown (admission_status a) j1, evs, d2))
          else (Shown (admission_status a) j, [], d1))"

definition own_job :: "req_env \<Rightarrow> string \<Rightarrow> db \<Rightarrow> string \<Rightarrow> job option" where
  "own_job e u d i = (case get_job (rq_flt e 0) 0 d i of Inl _ \<Rightarrow> None | Inr j \<Rightarrow> if user_id j = u then Some j else None)"

definition retry_job :: "req_env \<Rightarrow> string \<Rightarrow> plan \<Rightarrow> string \<Rightarrow> db \<Rightarrow> reply \<times> api_event list \<times> db" where
  "retry_job e u p i d =
     (let d0 = rq_others e 0 d in
      case own_job e u d0 i of None \<Rightarrow> (Refused 404 ''job not found'', [], d0)
      | Some j \<Rightarrow>
          if status j \<noteq> StatusFailed \<and> status j \<noteq> StatusEvicted
          then (Refused 409 ''only failed or evicted jobs can be retried'', [], d0)
          else requeue_job e i p d0)"

definition recheck_job :: "req_env \<Rightarrow> string \<Rightarrow> plan \<Rightarrow> string \<Rightarrow> db \<Rightarrow> reply \<times> api_event list \<times> db" where
  "recheck_job e u p i d =
     (let d0 = rq_others e 0 d in
      case own_job e u d0 i of None \<Rightarrow> (Refused 404 ''job not found'', [], d0)
      | Some j \<Rightarrow>
          if status j \<noteq> StatusComplete then (Refused 409 ''only completed downloads can be rechecked'', [], d0)
          else if source j \<noteq> SourceTorrent \<and> source j \<noteq> SourceUsenet
          then (Refused 400 ''recheck is only available for torrent and usenet downloads'', [], d0)
          else requeue_job e i p d0)"

section \<open>What an admission leaves in the table\<close>

lemma admit_Admitted:
  assumes "admit flt uuid now d j0 mc mq b = (Inr (AdmissionAdmitted, j1), d')"
  shows "new_row j1 \<in> set (jobs_t d') \<and> status j1 = StatusPending"
proof (cases "prepare_create uuid now j0")
  case (Inl e)
  with assms show ?thesis by (simp add: admit_def)
next
  case (Inr j)
  have "\<exists>k. insert_job flt k d j1 = Inr (True, d') \<and> status j1 = StatusPending"
    using assms Inr
    by (auto simp: admit_def in_tx_cases bindE_eq_Inr run_eq_Inr Let_def split: if_splits option.splits)
  then show ?thesis using insert_job_cases by fastforce
qed

lemma readmit_Admitted:
  assumes "readmit flt now d0 d i mc mq b = (Inr (AdmissionAdmitted, j1), d')"
  shows "j1 \<in> set (jobs_t d') \<and> status j1 = StatusPending"
proof (cases "get_job flt 0 d0 i")
  case (Inl e)
  with assms show ?thesis by (simp add: readmit_def)
next
  case (Inr c)
  have "\<exists>j. get_job flt 5 d i = Inr j \<and> j1 = readmitted_row StatusPending now j
      \<and> d' = d\<lparr>jobs_t := upd_where (\<lambda>r. jid r = i) (readmitted_row StatusPending now) (jobs_t d)\<rparr>"
    using assms Inr
    by (auto simp: readmit_def in_tx_cases bindE_eq_Inr run_eq_Inr Let_def readmitted_row_def split: if_splits)
  then obtain j where j: "get_job flt 5 d i = Inr j" "j1 = readmitted_row StatusPending now j"
    "d' = d\<lparr>jobs_t := upd_where (\<lambda>r. jid r = i) (readmitted_row StatusPending now) (jobs_t d)\<rparr>" by blast
  from j(1) have "j \<in> set (jobs_t d)" "jid j = i"
    by (auto simp: get_job_def bindE_eq_Inr run_eq_Inr not_found_def find_Some_iff split: option.splits)
  then show ?thesis using j(2,3) by (auto simp: upd_where_def readmitted_row_def)
qed

lemma create_seed_row:
  assumes "create_once flt uuid now d j0 = (Inr (c, j), d')" and "seed j0"
  shows "new_row j \<in> set (jobs_t d') \<and> seed j"
proof (cases "prepare_create uuid now j0")
  case (Inl e)
  with assms show ?thesis by (simp add: create_once_def)
next
  case (Inr j1)
  then have s: "seed j1" using prepare_create_frame assms(2) by blast
  with assms(1) Inr have i: "j = j1" "insert_job flt 0 d j1 = Inr (c, d')"
    by (auto simp: create_once_def has_live_user_identity_def in_tx_cases in_tx_def bindE_eq_Inr split: sum.splits)
  have "\<not> live_conflict (jobs_t d) j1" using s
    by (auto simp: live_conflict_def list_ex_iff same_live_key_def has_live_user_identity_def)
  with insert_job_cases [OF i(2)] s i(1) show ?thesis by auto
qed

section \<open>A handler's writes are steps of the queue\<close>

definition stable :: "db \<Rightarrow> db \<Rightarrow> bool" where
  "stable d d' \<longleftrightarrow> keeps_claims d d' \<and> (\<forall>r\<in>set (jobs_t d). \<forall>r'\<in>set (jobs_t d'). jid r' = jid r \<longrightarrow> user_id r' = user_id r)"

text \<open>
  What the others may do between two operations of a handler: any steps of the queue that do not
  undo a claim or hand a row over.
\<close>

definition polite :: "(string \<Rightarrow> int) \<Rightarrow> req_env \<Rightarrow> bool" where
  "polite lim e \<longleftrightarrow> (\<forall>k d. (queue_step lim)\<^sup>*\<^sup>* d (rq_others e k d) \<and> (queue_ok lim d \<longrightarrow> stable d (rq_others e k d)))"

lemma politeD: "polite lim e \<Longrightarrow> (queue_step lim)\<^sup>*\<^sup>* d (rq_others e k d)" "polite lim e \<Longrightarrow> queue_ok lim d \<Longrightarrow> stable d (rq_others e k d)"
  by (simp_all add: polite_def)

lemma steps_ok: "(queue_step lim)\<^sup>*\<^sup>* d d' \<Longrightarrow> queue_ok lim d \<Longrightarrow> queue_ok lim d'"
  by (induction rule: rtranclp_induct) (auto intro: queue_step_ok)

lemma other_then_step:
  assumes "polite lim e" and "queue_step lim (rq_others e k d) d'"
  shows "(queue_step lim)\<^sup>*\<^sup>* d d'"
  using politeD(1) [OF assms(1), of d k] assms(2) by (rule rtranclp.rtrancl_into_rtrancl)

lemma assign_job_steps:
  assumes p: "polite lim e" "queue_ok lim d" and r: "r \<in> set (jobs_t d)" "jid r = jid j" "info_hash r = info_hash j" "user_id r = user_id j"
    and h: "holds_slot j \<Longrightarrow> holds_slot r" and a: "assign_job e k d j = (j', evs, d')"
  shows "(queue_step lim)\<^sup>*\<^sup>* d d'"
proof -
  let ?d1 = "rq_others e k d" and ?j = "j\<lparr>node := assign_node (rq_cluster e) (rq_sizer e (rq_others e k d)) j\<rparr>"
  obtain res d2 where u: "update_job (rq_flt e k) 0 (rq_now e) ?d1 ?j = (res, d2)" by fastforce
  have "d' = d2" using a by (simp add: assign_job_def assign_def Let_def u)
  moreover have "worker_write ?d1 ?j"
    unfolding worker_write_def
  proof (intro ballI impI)
    fix x assume "x \<in> set (jobs_t ?d1)" "jid x = jid ?j"
    with politeD(2) [OF p, of k] r have "info_hash x = info_hash r \<and> (holds_slot r \<longrightarrow> user_id x = user_id r \<and> holds_slot x)"
      by (auto simp: stable_def keeps_claims_def)
    then show "info_hash x = info_hash ?j \<and> (holds_slot ?j \<longrightarrow> user_id x = user_id ?j \<and> holds_slot x)"
      using r h by (auto simp: holds_slot_def)
  qed
  ultimately show ?thesis using other_then_step [OF p(1) queue_step.worker [OF u]] by simp
qed

lemma grab_steps:
  assumes p: "polite lim e" and ok: "queue_ok lim d" and u: "max_concurrent pl = lim (user_id j)" and g: "grab e k d j pl gated = (res, evs, d')"
  shows "(queue_step lim)\<^sup>*\<^sup>* d d'"
proof -
  let ?j = "j\<lparr>budget_gated := gated, max_bytes := max_torrent_bytes pl, priority := plan_priority pl\<rparr>"
  let ?d0 = "rq_others e k d"
  obtain ar d1 where a: "admit (rq_flt e k) (rq_uuid e) (rq_now e) ?d0 ?j (max_concurrent pl)
      (sl_max_queued (rq_slots e)) (sl_budget (rq_slots e)) = (ar, d1)" by fastforce
  then have "admit (rq_flt e k) (rq_uuid e) (rq_now e) ?d0 ?j (lim (user_id ?j))
      (sl_max_queued (rq_slots e)) (sl_budget (rq_slots e)) = (ar, d1)" using u by simp
  then have s: "queue_step lim ?d0 d1" by (rule queue_step.admit)
  note s1 = other_then_step [OF p s]
  show ?thesis
  proof (cases "\<exists>j1. ar = Inr (AdmissionAdmitted, j1)")
    case False
    then have "d' = d1" using g a by (auto simp: grab_def slot_admit_def Let_def split: sum.splits prod.splits if_splits)
    with s1 show ?thesis by simp
  next
    case True
    then obtain j1 where j1: "ar = Inr (AdmissionAdmitted, j1)" by blast
    note m = admit_Admitted [OF a [unfolded j1]]
    obtain j2 evs2 d2 where as: "assign_job e (Suc k) d1 j1 = (j2, evs2, d2)" by (cases "assign_job e (Suc k) d1 j1") auto
    have "(queue_step lim)\<^sup>*\<^sup>* d1 d2"
      by (rule assign_job_steps [OF p steps_ok [OF s1 ok] _ _ _ _ _ as, of "new_row j1"])
        (use m in \<open>simp_all add: new_row_def holds_slot_def\<close>)
    moreover have "d' = d2" using g a j1 as by (simp add: grab_def slot_admit_def Let_def)
    ultimately show ?thesis using s1 by simp
  qed
qed

abbreviation table :: "'a \<times> 'b \<times> db \<Rightarrow> db" where
  "table out \<equiv> snd (snd out)"

lemma table_shown [simp]: "table (shown out) = table out"
  by (simp add: shown_def split: sum.splits prod.splits)

lemma grab_table_steps:
  assumes "polite lim e" and "queue_ok lim d" and "max_concurrent pl = lim (user_id j)"
  shows "(queue_step lim)\<^sup>*\<^sup>* d (table (grab e k d j pl gated))"
  by (rule grab_steps [OF assms prod.collapse [symmetric, THEN trans, OF arg_cong2 [where f = Pair, OF refl prod.collapse [symmetric]]]])

lemma create_steps:
  assumes "polite lim e" and "\<not> holds_slot j"
  shows "(queue_step lim)\<^sup>*\<^sup>* d (snd (create_once flt uuid now (rq_others e k d) j))"
  by (rule other_then_step [OF assms(1) queue_step.create [OF prod.collapse [symmetric] assms(2)]])

lemma no_slot_rows:
  "\<not> holds_slot (j\<lparr>status := StatusComplete, files := fs, file_size := n\<rparr>)"
  "\<not> status_active (status j) \<Longrightarrow> \<not> holds_slot j" "seed j \<Longrightarrow> \<not> holds_slot j"
  by (auto simp: holds_slot_def concurrency_statuses_def status_active_def active_statuses_def)

lemma build_cached_job_steps:
  assumes "polite lim e"
  shows "(queue_step lim)\<^sup>*\<^sup>* d (snd (build_cached_job e k d h m u src))"
proof -
  have "snd (build_cached_job e k d h m u src) = rq_others e k d
    \<or> (\<exists>j. \<not> holds_slot j \<and> snd (build_cached_job e k d h m u src) = snd (create_once (rq_flt e k) (rq_uuid e) (rq_now e) (rq_others e k d) j))"
  proof (cases "\<exists>mn. rq_mans e h = Some (Some mn)")
    case True
    then obtain mn where m: "rq_mans e h = Some (Some mn)" by blast
    let ?j = "blank_job\<lparr>user_id := u, info_hash := h, jname := mn_name mn, magnet := m, source := src, status := StatusComplete,
       files := job_files (mn_files mn), file_size := sum_list (map mf_size (mn_files mn))\<rparr>"
    have "snd (build_cached_job e k d h m u src) = snd (create_once (rq_flt e k) (rq_uuid e) (rq_now e) (rq_others e k d) ?j)"
      using m by (simp add: build_cached_job_def Let_def split: sum.splits prod.splits)
    moreover have "\<not> holds_slot ?j" by (rule no_slot_rows(1))
    ultimately show ?thesis by blast
  qed (auto simp: build_cached_job_def Let_def split: option.splits)
  then show ?thesis using politeD(1) [OF assms] create_steps [OF assms] by metis
qed

lemma serve_from_byos_steps:
  assumes p: "polite lim e" and s: "serve_from_byos e k d u h m src = Some out"
  shows "(queue_step lim)\<^sup>*\<^sup>* d (table out)"
proof -
  obtain nm fs where b: "rq_byos e = Some (nm, fs)" "rq_users e"
    using s by (auto simp: serve_from_byos_def split: option.splits if_splits)
  let ?j = "blank_job\<lparr>user_id := u, info_hash := h, magnet := m, jname := nm, source := src, status := StatusComplete,
     files := fs, file_size := sum_list (map file_bytes fs)\<rparr>"
  have "table out = snd (create_once (rq_flt e k) (rq_uuid e) (rq_now e) (rq_others e k d) ?j)"
    using s b by (auto simp: serve_from_byos_def split: sum.splits prod.splits)
  then show ?thesis using create_steps [OF p no_slot_rows(1)] by (simp only:)
qed

lemma link_job_steps:
  assumes p: "polite lim e" and ok: "queue_ok lim d" and u: "max_concurrent pl = lim (user_id j)"
  shows "(queue_step lim)\<^sup>*\<^sup>* d (table (link_job e k d j pl gated))"
proof (cases "status_active (status j)")
  case True
  then show ?thesis using grab_table_steps [where j = j, OF p ok u] by (simp add: link_job_def)
next
  case False
  have "table (link_job e k d j pl gated) = snd (create_once (rq_flt e k) (rq_uuid e) (rq_now e) (rq_others e k d) j)"
    using False by (simp add: link_job_def split: sum.splits prod.splits)
  then show ?thesis using create_steps [OF p no_slot_rows(2) [OF False]] by (simp only:)
qed

lemma submit_magnet_steps:
  assumes p: "polite lim e" and ok: "queue_ok lim d" and u: "max_concurrent pl = lim u"
  shows "(queue_step lim)\<^sup>*\<^sup>* d (table (submit_magnet e u pl h m nm src gated d))"
proof -
  let ?d0 = "rq_others e 0 d"
  have ok0: "queue_ok lim ?d0" using steps_ok [OF politeD(1) [OF p] ok] .
  note g = grab_table_steps [OF p ok0, of pl] and b = build_cached_job_steps [OF p, of ?d0 1 h m u src]
    and l = link_job_steps [OF p ok0, of pl] and y = serve_from_byos_steps [OF p, of 1 ?d0 u h m src]
  have "(queue_step lim)\<^sup>*\<^sup>* ?d0 (table (submit_magnet e u pl h m nm src gated d))"
    using u b y by (auto simp: submit_magnet_def Let_def split: option.splits prod.splits intro!: g l)
  then show ?thesis using politeD(1) [OF p, of d 0] by (rule rtranclp_trans [rotated])
qed

lemma set_imdb_steps:
  assumes "polite lim e"
  shows "(queue_step lim)\<^sup>*\<^sup>* d (snd (set_imdb flt (rq_others e k d) h v))"
  by (rule other_then_step [OF assms queue_step.label [OF prod.collapse [symmetric]]])

lemma ingest_nzb_steps:
  assumes p: "polite lim e" and ok: "queue_ok lim d" and u: "max_concurrent pl = lim u"
  shows "(queue_step lim)\<^sup>*\<^sup>* d (table (ingest_nzb e u pl n d))"
proof -
  let ?d0 = "rq_others e 0 d" and ?h = "nzb_key n"
  have ok0: "queue_ok lim ?d0" using steps_ok [OF politeD(1) [OF p] ok] .
  note g = grab_table_steps [OF p ok0, of pl] and b = build_cached_job_steps [OF p, of ?d0 1 ?h "[]" u SourceUsenet]
    and l = link_job_steps [OF p ok0, of pl]
  have i: "(queue_step lim)\<^sup>*\<^sup>* ?d0 (snd (set_imdb (rq_flt e 2) (rq_others e 2 (snd (build_cached_job e 1 ?d0 ?h [] u SourceUsenet))) ?h (nzb_imdb n)))"
    using b set_imdb_steps [OF p] by (rule rtranclp_trans)
  have "table (ingest_nzb e u pl n d) = d \<or> (queue_step lim)\<^sup>*\<^sup>* ?d0 (table (ingest_nzb e u pl n d))"
    using u b i by (auto simp: ingest_nzb_def Let_def split: option.splits prod.splits intro!: g l)
  then show ?thesis using politeD(1) [OF p, of d 0] by (auto intro: rtranclp_trans)
qed

lemma stage_cross_seed_steps:
  assumes p: "polite lim e" and ok: "queue_ok lim d"
  shows "(queue_step lim)\<^sup>*\<^sup>* d (table (stage_cross_seed e k d u pl t))"
proof (cases "rq_put_fails e")
  case False
  let ?j = "blank_job\<lparr>user_id := u, info_hash := ti_hash t, jname := ti_name t, file_size := ti_size t, source := SourceCrossSeed,
     status := StatusPending, seed := True,
     files := map (\<lambda>(i, f). \<lparr>file_index = i, file_name = fst f, file_bytes = snd f, file_key = [], file_enc = False\<rparr>)
         (enumerate 0 (ti_files t)),
     max_bytes := max_torrent_bytes pl, priority := plan_priority pl\<rparr>"
  obtain r d1 where c: "create_once (rq_flt e k) (rq_uuid e) (rq_now e) (rq_others e k d) ?j = (r, d1)" by fastforce
  have s1: "(queue_step lim)\<^sup>*\<^sup>* d d1"
    using create_steps [OF p no_slot_rows(3), of ?j d "rq_flt e k" "rq_uuid e" "rq_now e" k] by (simp add: c)
  show ?thesis
  proof (cases r)
    case (Inl x)
    with s1 False c show ?thesis by (simp add: stage_cross_seed_def)
  next
    case (Inr v)
    obtain cr j where v: "v = (cr, j)" by (cases v)
    have m: "new_row j \<in> set (jobs_t d1) \<and> seed j"
      by (rule create_seed_row [OF c [unfolded Inr v]]) simp
    obtain j2 evs d2 where a: "assign_job e (Suc k) d1 j = (j2, evs, d2)" by (cases "assign_job e (Suc k) d1 j") auto
    have "(queue_step lim)\<^sup>*\<^sup>* d1 d2"
      by (rule assign_job_steps [OF p steps_ok [OF s1 ok] _ _ _ _ _ a, of "new_row j"])
        (use m in \<open>simp_all add: new_row_def holds_slot_def\<close>)
    with s1 False c Inr v a show ?thesis by (simp add: stage_cross_seed_def)
  qed
qed (simp add: stage_cross_seed_def)

lemma create_seed_job_steps:
  assumes p: "polite lim e" and ok: "queue_ok lim d"
  shows "(queue_step lim)\<^sup>*\<^sup>* d (table (create_seed_job e k d u pl t))"
proof -
  let ?d1 = "rq_others e k d" and ?d2 = "rq_others e (Suc k) (rq_others e k d)"
  let ?j = "blank_job\<lparr>user_id := u, info_hash := ti_hash t, jname := ti_name t, file_size := ti_size t, source := SourceTorrent,
     status := StatusDownloading, seed := True, max_bytes := max_torrent_bytes pl, priority := plan_priority pl\<rparr>"
  have s: "(queue_step lim)\<^sup>*\<^sup>* d ?d1" "(queue_step lim)\<^sup>*\<^sup>* ?d1 ?d2" using politeD(1) [OF p] by blast+
  have c: "(queue_step lim)\<^sup>*\<^sup>* ?d2 (snd (create_once (rq_flt e (k + 2)) (rq_uuid e) (rq_now e) (rq_others e (k + 2) ?d2) ?j))"
    by (rule create_steps [OF p no_slot_rows(3)]) simp
  have "table (create_seed_job e k d u pl t) \<in> {table (stage_cross_seed e (Suc k) ?d1 u pl t), ?d2,
      snd (create_once (rq_flt e (k + 2)) (rq_uuid e) (rq_now e) (rq_others e (k + 2) ?d2) ?j)}"
    by (simp add: create_seed_job_def Let_def split: sum.splits prod.splits)
  then show ?thesis
    using s c stage_cross_seed_steps [OF p steps_ok [OF s(1) ok], of "Suc k" u pl t] by (auto intro: rtranclp_trans)
qed

lemma ingest_torrent_steps:
  assumes p: "polite lim e" and ok: "queue_ok lim d" and u: "max_concurrent pl = lim u"
  shows "(queue_step lim)\<^sup>*\<^sup>* d (table (fst (ingest_torrent e u pl t d)))"
proof -
  let ?d0 = "rq_others e 0 d"
  let ?j = "blank_job\<lparr>user_id := u, info_hash := ti_hash t, jname := ti_name t, file_size := ti_size t,
     source := SourceTorrent, input_key := ti_key t, max_bytes := max_torrent_bytes pl, priority := plan_priority pl\<rparr>"
  have s: "(queue_step lim)\<^sup>*\<^sup>* d ?d0" using politeD(1) [OF p] .
  have g: "(queue_step lim)\<^sup>*\<^sup>* ?d0 (table (grab e 1 ?d0 ?j pl False))"
    by (rule grab_table_steps [OF p steps_ok [OF s ok]]) (simp add: u)
  define G where "G = grab e 1 ?d0 ?j pl False"
  define C where "C = create_seed_job e 1 ?d0 u pl t"
  have "table (fst (ingest_torrent e u pl t d)) \<in> {d, ?d0, table C, table G}"
    unfolding ingest_torrent_def Let_def G_def [symmetric] C_def [symmetric]
    by (cases C; cases G) (simp split: option.split sum.split prod.split)
  then show ?thesis
    using s g create_seed_job_steps [OF p steps_ok [OF s ok], of 1 u pl t] by (auto simp: G_def C_def intro: rtranclp_trans)
qed

lemma own_job_Some: "own_job e u d i = Some j \<Longrightarrow> j \<in> set (jobs_t d) \<and> jid j = i \<and> user_id j = u"
  by (auto simp: own_job_def get_job_def bindE_eq_Inr run_eq_Inr not_found_def find_Some_iff split: sum.splits option.splits if_splits)

lemma requeue_job_steps:
  assumes p: "polite lim e" and ok: "queue_ok lim d" and u: "max_concurrent pl = lim u" and j: "j \<in> set (jobs_t d)" "jid j = i" "user_id j = u"
  shows "(queue_step lim)\<^sup>*\<^sup>* d (table (requeue_job e i pl d))"
proof -
  let ?d0 = "rq_others e 1 d"
  obtain ar d1 where a: "readmit (rq_flt e 1) (rq_now e) d ?d0 i (max_concurrent pl) (sl_max_queued (rq_slots e)) (sl_budget (rq_slots e))
      = (ar, d1)" by fastforce
  have "queue_step lim ?d0 d1"
  proof (rule queue_step.readmit [OF a])
    fix r assume "r \<in> set (jobs_t ?d0)" "jid r = i"
    with politeD(2) [OF p ok, of 1] j have "user_id r = u" by (auto simp: stable_def)
    with u show "max_concurrent pl = lim (user_id r)" by simp
  qed
  note s1 = other_then_step [OF p this]
  show ?thesis
  proof (cases "\<exists>j1. ar = Inr (AdmissionAdmitted, j1)")
    case False
    then have "table (requeue_job e i pl d) = d1"
      using a by (auto simp: requeue_job_def slot_readmit_def split: sum.splits)
    with s1 show ?thesis by simp
  next
    case True
    then obtain j1 where j1: "ar = Inr (AdmissionAdmitted, j1)" by blast
    note m = readmit_Admitted [OF a [unfolded j1]]
    obtain j2 evs d2 where as: "assign_job e 2 d1 j1 = (j2, evs, d2)" by (cases "assign_job e 2 d1 j1") auto
    have "(queue_step lim)\<^sup>*\<^sup>* d1 d2"
      by (rule assign_job_steps [OF p steps_ok [OF s1 ok] _ _ _ _ _ as, of j1]) (use m in simp_all)
    moreover have "table (requeue_job e i pl d) = d2" using a j1 as by (simp add: requeue_job_def slot_readmit_def)
    ultimately show ?thesis using s1 by simp
  qed
qed

section \<open>What a reply leaves behind\<close>

definition holds_row :: "db \<Rightarrow> string \<Rightarrow> string \<Rightarrow> string \<Rightarrow> bool" where
  "holds_row d u h i \<longleftrightarrow> (\<exists>r\<in>set (jobs_t d). jid r = i \<and> user_id r = u \<and> info_hash r = h \<and> has_live_user_identity r)"

definition account :: "string \<Rightarrow> bool" where
  "account u \<longleftrightarrow> u \<noteq> [] \<and> u \<noteq> ''system'' \<and> u \<noteq> ''prewarm''"

definition filed_hash :: "string \<Rightarrow> bool" where
  "filed_hash h \<longleftrightarrow> h \<noteq> [] \<and> to_lower (trim_space h) = h"

lemma live_row: "account (user_id j) \<Longrightarrow> info_hash j \<noteq> [] \<Longrightarrow> \<not> seed j \<Longrightarrow> status j \<noteq> StatusFailed \<Longrightarrow> status j \<noteq> StatusEvicted \<Longrightarrow>
    has_live_user_identity j"
  by (simp add: account_def has_live_user_identity_def)

lemma prepared:
  assumes "prepare_create uuid now j0 = Inr j" and "filed_hash (info_hash j0)"
  shows "user_id j = user_id j0" "info_hash j = info_hash j0" "seed j = seed j0" "status j = status j0"
  using assms by (auto simp: prepare_create_def Let_def bindE_eq_Inr filed_hash_def split: if_splits)

lemma inserted_row:
  assumes "insert_job flt k d j = Inr (True, d')" and "has_live_user_identity j"
  shows "holds_row d' (user_id j) (info_hash j) (jid j)"
  using insert_job_cases [OF assms(1)] assms(2)
  by (auto simp: holds_row_def new_row_def has_live_user_identity_def)

lemma existing_row:
  assumes "live_account_job d j = Some x" and "\<forall>r\<in>set (jobs_t d). to_lower (info_hash r) = info_hash r"
    and "to_lower (info_hash j) = info_hash j"
  shows "holds_row d (user_id j) (info_hash j) (jid x)"
  using live_account_job_Some [OF assms(1)] assms(2,3) by (auto simp: holds_row_def)

lemma store_lower: "store_ok d \<Longrightarrow> \<forall>r\<in>set (jobs_t d). to_lower (info_hash r) = info_hash r"
  using store_okD(2) by blast

lemma admit_row:
  assumes "admit flt uuid now d j0 mc mq b = (Inr (a, j1), d')" and "store_ok d"
    and "account (user_id j0)" "filed_hash (info_hash j0)" "\<not> seed j0"
  shows "holds_row d' (user_id j0) (info_hash j0) (jid j1)
    \<and> (a \<noteq> AdmissionExisting \<longrightarrow> user_id j1 = user_id j0 \<and> info_hash j1 = info_hash j0 \<and> has_live_user_identity j1)"
proof (cases "prepare_create uuid now j0")
  case (Inl e)
  with assms(1) show ?thesis by (simp add: admit_def)
next
  case (Inr j)
  note p = prepared [OF Inr assms(4)]
  have low: "to_lower (info_hash j) = info_hash j" using prepare_create_lower [OF Inr] .
  define P where "P q \<longleftrightarrow> (a \<noteq> AdmissionExisting \<and> j1 = j\<lparr>status := q\<rparr> \<and> insert_job flt 11 d (j\<lparr>status := q\<rparr>) = Inr (True, d'))
      \<or> (a = AdmissionExisting \<and> d' = d \<and> (\<exists>d1. insert_job flt 11 d (j\<lparr>status := q\<rparr>) = Inr (False, d1)
          \<and> live_account_job d1 (j\<lparr>status := q\<rparr>) = Some j1))" for q
  have "(a = AdmissionExisting \<and> live_account_job d j = Some j1 \<and> d' = d) \<or> P StatusQueued \<or> P StatusPending"
    using assms(1) Inr unfolding P_def
    by (auto simp: admit_def in_tx_cases bindE_eq_Inr run_eq_Inr Let_def split: if_splits option.splits)
  then consider "a = AdmissionExisting" "live_account_job d j = Some j1" "d' = d"
    | q where "a = AdmissionExisting" "live_account_job d (j\<lparr>status := q\<rparr>) = Some j1" "d' = d"
    | q where "a \<noteq> AdmissionExisting" "q = StatusQueued \<or> q = StatusPending" "j1 = j\<lparr>status := q\<rparr>" "insert_job flt 11 d j1 = Inr (True, d')"
    unfolding P_def using insert_job_cases by metis
  then show ?thesis
  proof cases
    case 1
    then show ?thesis using existing_row [OF 1(2) store_lower [OF assms(2)] low] p by simp
  next
    case 2
    then show ?thesis using existing_row [OF 2(2) store_lower [OF assms(2)]] low p by simp
  next
    case 3
    have "has_live_user_identity j1"
      by (rule live_row) (use 3(2,3) p assms(3-5) in \<open>auto simp: filed_hash_def\<close>)
    with inserted_row [OF 3(4)] 3 p show ?thesis by simp
  qed
qed

lemma create_once_row:
  assumes "create_once flt uuid now d j0 = (Inr (c, j1), d')" and "store_ok d"
    and "account (user_id j0)" "filed_hash (info_hash j0)" "\<not> seed j0" "status j0 \<noteq> StatusFailed" "status j0 \<noteq> StatusEvicted"
  shows "holds_row d' (user_id j0) (info_hash j0) (jid j1)"
proof (cases "prepare_create uuid now j0")
  case (Inl e)
  with assms(1) show ?thesis by (simp add: create_once_def)
next
  case (Inr j)
  note p = prepared [OF Inr assms(4)]
  have low: "to_lower (info_hash j) = info_hash j" using prepare_create_lower [OF Inr] .
  have live: "has_live_user_identity j"
    by (rule live_row) (use p assms(3-7) in \<open>auto simp: filed_hash_def\<close>)
  have "(\<exists>k. insert_job flt k d j = Inr (True, d') \<and> j1 = j)
     \<or> (\<exists>k. insert_job flt k d j = Inr (False, d') \<and> live_account_job d' j = Some j1)"
    using assms(1) Inr live
    by (auto simp: create_once_def in_tx_cases bindE_eq_Inr run_eq_Inr split: if_splits option.splits)
  then consider k where "insert_job flt k d j = Inr (True, d')" "j1 = j"
    | k where "insert_job flt k d j = Inr (False, d')" "live_account_job d' j = Some j1"
    by blast
  then show ?thesis
  proof cases
    case 1
    then show ?thesis using inserted_row [OF 1(1) live] p by simp
  next
    case 2
    then have "d' = d" using insert_job_cases [OF 2(1)] by simp
    then show ?thesis using existing_row [OF 2(2)] store_lower [OF assms(2)] low p by simp
  qed
qed

lemma assign_row:
  assumes "rq_others e = (\<lambda>_ d. d)" and "assign_job e k d j = (j', evs, d')" and "holds_row d u h (jid j)"
    and "user_id j = u" "info_hash j = h" "has_live_user_identity j"
  shows "holds_row d' u h (jid j')"
proof -
  let ?j = "j\<lparr>node := assign_node (rq_cluster e) (rq_sizer e d) j\<rparr>"
  obtain res d2 where up: "update_job (rq_flt e k) 0 (rq_now e) d ?j = (res, d2)" by fastforce
  have e: "jid j' = jid j" "d' = d2" using assms(1,2) up by (auto simp: assign_job_def assign_def Let_def)
  from update_job_mem [OF up] show ?thesis
  proof
    assume "d2 = d"
    with assms(3) e show ?thesis by simp
  next
    assume d2: "d2 = d\<lparr>jobs_t := upd_where (\<lambda>r. jid r = jid ?j) (updated_row (rq_now e) ?j) (jobs_t d)\<rparr>"
    from assms(3) obtain r where r: "r \<in> set (jobs_t d)" "jid r = jid j" by (auto simp: holds_row_def)
    let ?r = "updated_row (rq_now e) ?j r"
    have "?r \<in> set (jobs_t d2)" unfolding d2 using r by (auto simp: upd_where_def intro!: image_eqI [where x = r])
    moreover have "jid ?r = jid j \<and> user_id ?r = u \<and> info_hash ?r = h \<and> has_live_user_identity ?r"
      using assms(4-6) by (simp add: updated_row_def has_live_user_identity_def)
    ultimately show ?thesis using e by (auto simp: holds_row_def)
  qed
qed

lemma grab_row:
  assumes o: "rq_others e = (\<lambda>_ d. d)" and g: "grab e k d j pl gated = (Inr (a, j'), evs, d')" and st: "store_ok d"
    and j: "account (user_id j)" "filed_hash (info_hash j)" "\<not> seed j"
  shows "holds_row d' (user_id j) (info_hash j) (jid j')"
proof -
  let ?j = "j\<lparr>budget_gated := gated, max_bytes := max_torrent_bytes pl, priority := plan_priority pl\<rparr>"
  obtain ar d1 where ad: "admit (rq_flt e k) (rq_uuid e) (rq_now e) d ?j (max_concurrent pl)
      (sl_max_queued (rq_slots e)) (sl_budget (rq_slots e)) = (ar, d1)" by fastforce
  then obtain j1 where j1: "ar = Inr (a, j1)"
    using g o by (auto simp: grab_def slot_admit_def Let_def split: sum.splits prod.splits if_splits)
  have ajs: "account (user_id ?j)" "filed_hash (info_hash ?j)" "\<not> seed ?j" using j by simp_all
  note row = admit_row [OF ad [unfolded j1] st ajs]
  show ?thesis
  proof (cases "a = AdmissionAdmitted")
    case True
    obtain j2 evs2 d2 where as: "assign_job e (Suc k) d1 j1 = (j2, evs2, d2)" by (cases "assign_job e (Suc k) d1 j1") auto
    have "j' = j2" "d' = d2" using g o ad j1 True as by (simp_all add: grab_def slot_admit_def Let_def)
    with assign_row [OF o as] row True show ?thesis by simp
  next
    case False
    then have "j' = j1" "d' = d1" using g o ad j1 by (simp_all add: grab_def slot_admit_def Let_def)
    with row show ?thesis by simp
  qed
qed

lemma shown_grab_row:
  assumes "rq_others e = (\<lambda>_ d. d)" and "shown (grab e k d j pl gated) = (Shown c j', evs, d')" and "store_ok d"
    and "account (user_id j)" "filed_hash (info_hash j)" "\<not> seed j"
  shows "holds_row d' (user_id j) (info_hash j) (jid j')"
proof -
  obtain r evs1 d1 where g: "grab e k d j pl gated = (r, evs1, d1)" by (cases "grab e k d j pl gated") auto
  then obtain a where "r = Inr (a, j')" "d1 = d'"
    using assms(2) by (cases r) (auto simp: shown_def write_queue_error_def grab_def split: if_splits sum.splits prod.splits)
  with grab_row [OF assms(1) _ assms(3-6)] g show ?thesis by blast
qed

lemma link_row:
  assumes "rq_others e = (\<lambda>_ d. d)" and "link_job e k d j pl gated = (Shown c j', evs, d')" and "store_ok d"
    and "account (user_id j)" "filed_hash (info_hash j)" "\<not> seed j" "status j \<noteq> StatusFailed" "status j \<noteq> StatusEvicted"
  shows "holds_row d' (user_id j) (info_hash j) (jid j')"
proof (cases "status_active (status j)")
  case True
  with assms shown_grab_row [where j = j] show ?thesis by (auto simp: link_job_def)
next
  case False
  obtain r d1 where c: "create_once (rq_flt e k) (rq_uuid e) (rq_now e) d j = (r, d1)" by fastforce
  with False assms(1,2) obtain cr where "r = Inr (cr, j')" "d1 = d'"
    by (cases r) (auto simp: link_job_def split: prod.splits)
  with create_once_row [OF _ assms(3-8)] c show ?thesis by blast
qed

lemma build_row:
  assumes "rq_others e = (\<lambda>_ d. d)" and "build_cached_job e k d h m u src = (Some j', d')" and "store_ok d"
    and "account u" "filed_hash h"
  shows "holds_row d' u h (jid j')"
proof -
  obtain mn where m: "rq_mans e h = Some (Some mn)"
    using assms(2) by (auto simp: build_cached_job_def Let_def split: option.splits)
  let ?j = "blank_job\<lparr>user_id := u, info_hash := h, jname := mn_name mn, magnet := m, source := src, status := StatusComplete,
     files := job_files (mn_files mn), file_size := sum_list (map mf_size (mn_files mn))\<rparr>"
  obtain r d1 where c: "create_once (rq_flt e k) (rq_uuid e) (rq_now e) d ?j = (r, d1)" by fastforce
  with assms(1,2) m obtain cr where "r = Inr (cr, j')" "d1 = d'"
    by (cases r) (auto simp: build_cached_job_def Let_def split: prod.splits)
  with create_once_row [where ?j0.0 = ?j, OF _ assms(3)] c assms(4,5) show ?thesis by (simp add: blank_job_def)
qed

lemma byos_row:
  assumes "rq_others e = (\<lambda>_ d. d)" and "serve_from_byos e k d u h m src = Some (Shown c j', evs, d')" and "store_ok d"
    and "account u" "filed_hash h"
  shows "holds_row d' u h (jid j')"
proof -
  obtain nm fs where b: "rq_byos e = Some (nm, fs)" "rq_users e"
    using assms(2) by (auto simp: serve_from_byos_def split: option.splits if_splits)
  let ?j = "blank_job\<lparr>user_id := u, info_hash := h, magnet := m, jname := nm, source := src, status := StatusComplete,
     files := fs, file_size := sum_list (map file_bytes fs)\<rparr>"
  obtain r d1 where c: "create_once (rq_flt e k) (rq_uuid e) (rq_now e) d ?j = (r, d1)" by fastforce
  with assms(1,2) b obtain cr where "r = Inr (cr, j')" "d1 = d'"
    by (cases r) (auto simp: serve_from_byos_def split: prod.splits)
  with create_once_row [where ?j0.0 = ?j, OF _ assms(3)] c assms(4,5) show ?thesis by (simp add: blank_job_def)
qed

lemma user_job_Some:
  assumes "user_job_for_hash sibs u = Some j"
  shows "j \<in> set sibs" "user_id j = u" "\<not> seed j" "status j \<noteq> StatusFailed" "status j \<noteq> StatusEvicted"
  using find_Some_mem [OF assms [unfolded user_job_for_hash_def]] by simp_all

lemma listed_mem: "j \<in> set (listed_siblings e k d h) \<Longrightarrow> j \<in> set (jobs_t d) \<and> to_lower (info_hash j) = to_lower h"
  by (simp add: listed_siblings_def list_by_info_hash_def split: if_splits)

lemma listed_existing:
  assumes "user_job_for_hash (listed_siblings e k d h) u = Some j" and "store_ok d" and "account u" "filed_hash h"
  shows "holds_row d u h (jid j)"
proof -
  have j: "j \<in> set (jobs_t d)" "to_lower (info_hash j) = to_lower h" "user_id j = u" "\<not> seed j" "status j \<noteq> StatusFailed"
    "status j \<noteq> StatusEvicted"
    using user_job_Some [OF assms(1)] listed_mem [of j] by blast+
  have "to_lower h = h" using assms(4) by (metis filed_hash_def to_lower_idem)
  then have "info_hash j = h" using j(1,2) store_lower [OF assms(2)] by simp
  moreover have "h \<noteq> []" using assms(4) by (simp add: filed_hash_def)
  ultimately have "has_live_user_identity j" using j assms(3) by (intro live_row) simp_all
  with j(1,3) \<open>info_hash j = h\<close> show ?thesis by (auto simp: holds_row_def)
qed

lemma submit_row:
  assumes o: "rq_others e = (\<lambda>_ d. d)" and s: "submit_magnet e u pl h m nm src gated d = (Shown c j, evs, d')"
    and st: "store_ok d" and u: "account u" "filed_hash h"
  shows "holds_row d' u h (jid j)"
proof (cases "user_job_for_hash (listed_siblings e 0 d h) u")
  case (Some x)
  with s o have "j = x" "d' = d" by (simp_all add: submit_magnet_def Let_def)
  with listed_existing [OF Some st u] show ?thesis by simp
next
  case None
  note s1 = s [unfolded submit_magnet_def Let_def, simplified o None option.case]
  show ?thesis
  proof (cases "playable e h")
    case True
    obtain r d1 where b: "build_cached_job e 1 d h m u src = (r, d1)" by fastforce
    with s1 True have "r = Some j" "d1 = d'" by (auto split: option.splits)
    with build_row [OF o _ st u] b show ?thesis by blast
  next
    case play: False
    show ?thesis
    proof (cases "reusable_job_for_hash (listed_siblings e 0 d h)")
      case (Some ex)
      have "\<not> seed ex \<and> status ex \<noteq> StatusFailed \<and> status ex \<noteq> StatusEvicted"
        using find_Some_mem [OF Some [unfolded reusable_job_for_hash_def]] by simp
      moreover have "link_job e 1 d (blank_job\<lparr>user_id := u, info_hash := h, jname := jname ex, magnet := m, source := src,
          status := status ex, files := files ex, file_size := file_size ex, node := node ex\<rparr>) pl gated = (Shown c j, evs, d')"
        using s1 play Some by simp
      ultimately show ?thesis using link_row [OF o _ st] u by (fastforce simp: blank_job_def)
    next
      case None2: None
      show ?thesis
      proof (cases "rq_users e \<and> rq_archived e")
        case True
        with s1 play None2 have "shown (grab e 1 d (blank_job\<lparr>user_id := u, info_hash := h, magnet := m, jname := nm, source := SourceUsenet,
              max_bytes := max_torrent_bytes pl, priority := plan_priority pl\<rparr>) pl gated) = (Shown c j, evs, d')" by simp
        from shown_grab_row [OF o this st] u show ?thesis by (simp add: blank_job_def)
      next
        case False
        show ?thesis
        proof (cases "serve_from_byos e 1 d u h m src")
          case (Some out)
          with s1 play None2 False have "serve_from_byos e 1 d u h m src = Some (Shown c j, evs, d')" by auto
          from byos_row [OF o this st u] show ?thesis .
        next
          case None
          with s1 play None2 False have "shown (grab e 1 d (blank_job\<lparr>user_id := u, info_hash := h, magnet := m, jname := nm, source := src,
              max_bytes := max_torrent_bytes pl, priority := plan_priority pl\<rparr>) pl gated) = (Shown c j, evs, d')"
            by (auto split: if_splits)
          from shown_grab_row [OF o this st] u show ?thesis by (simp add: blank_job_def)
        qed
      qed
    qed
  qed
qed

section \<open>Properties\<close>

datatype api_request =
    SubmitMagnet string string string source bool
  | SubmitNZB nzb_in
  | SubmitTorrent torrent_in
  | RetryJob string
  | RecheckJob string

definition handle :: "req_env \<Rightarrow> string \<Rightarrow> plan \<Rightarrow> api_request \<Rightarrow> db \<Rightarrow> reply \<times> api_event list \<times> db" where
  "handle e u p r d =
     (case r of SubmitMagnet h m nm src gated \<Rightarrow> submit_magnet e u p h m nm src gated d
      | SubmitNZB n \<Rightarrow> ingest_nzb e u p n d
      | SubmitTorrent t \<Rightarrow> fst (ingest_torrent e u p t d)
      | RetryJob i \<Rightarrow> retry_job e u p i d
      | RecheckJob i \<Rightarrow> recheck_job e u p i d)"

text \<open>
  C3: every submission, retry and recheck refines the queue: whatever statement fails and whatever
  steps the other processes take in between, short of undoing the handler's claim, what the handler
  does to the table is a sequence of steps of the queue. So the limits, the one download per hash and
  the one live row per account and hash of the queue hold under any traffic on the API.
\<close>

theorem submissions_refine_queue:
  assumes "polite lim e" and "queue_ok lim d" and "max_concurrent p = lim u"
  shows "(queue_step lim)\<^sup>*\<^sup>* d (table (handle e u p r d))"
proof -
  note o = politeD(1) [OF assms(1), of d 0]
  note ok0 = steps_ok [OF o assms(2)]
  have requeue: "(queue_step lim)\<^sup>*\<^sup>* d (table (requeue_job e i p (rq_others e 0 d)))"
    if "own_job e u (rq_others e 0 d) i = Some j" for i j
    using own_job_Some [OF that] by (intro rtranclp_trans [OF o] requeue_job_steps [OF assms(1) ok0 assms(3)]) auto
  show ?thesis
  proof (cases r)
    case (SubmitMagnet h m nm src gated)
    then show ?thesis using submit_magnet_steps [OF assms] by (simp add: handle_def)
  next
    case (SubmitNZB n)
    then show ?thesis using ingest_nzb_steps [OF assms] by (simp add: handle_def)
  next
    case (SubmitTorrent t)
    then show ?thesis using ingest_torrent_steps [OF assms] by (simp add: handle_def)
  next
    case (RetryJob i)
    then show ?thesis using requeue [of i] o
      by (auto simp: handle_def retry_job_def Let_def split: option.split)
  next
    case (RecheckJob i)
    then show ?thesis using requeue [of i] o
      by (auto simp: handle_def recheck_job_def Let_def split: option.split)
  qed
qed

lemma polite_alone: "rq_others e = (\<lambda>_ d. d) \<Longrightarrow> polite lim e"
  by (auto simp: polite_def stable_def keeps_claims_def dest: jid_unique [OF queue_okD(1)])

definition sample_env :: "manifest option option \<Rightarrow> req_env" where
  "sample_env m = \<lparr>rq_flt = (\<lambda>_. no_faults), rq_others = (\<lambda>_ d. d), rq_uuid = Inr ''j9'', rq_now = 5,
     rq_slots = new_slot_tracker, rq_cluster = sample_cluster, rq_sizer = (\<lambda>_. sample_sizer), rq_mans = (\<lambda>_. m),
     rq_has = (\<lambda>_. True), rq_users = True, rq_archived = False, rq_byos = None, rq_over = False, rq_put_fails = False\<rparr>"

theorem submissions_refine_queue_witness:
  "(queue_step (\<lambda>_. max_concurrent free_plan))\<^sup>*\<^sup>* \<lparr>jobs_t = []\<rparr>
     (table (handle (sample_env None) ''u1'' free_plan (SubmitMagnet ''ab'' ''magnet:'' ''film'' SourceTorrent True) \<lparr>jobs_t = []\<rparr>))"
  by (rule submissions_refine_queue [OF polite_alone queue_ok_init]) (simp_all add: sample_env_def)

text \<open>
  C13: submitting is idempotent: once a submission of a hash has shown the account a job, on whichever
  path (its own row, the cache, another account's row, an archive, its storage, a new download),
  another submission of the hash shows the account's row of that id, changes nothing and announces
  nothing, whatever plan, name or source it comes with.
\<close>

theorem resubmission_shows_same_job:
  assumes "queue_ok lim d" and "max_concurrent p = lim u" and "account u" and "filed_hash h"
    and "rq_others e = (\<lambda>_ d. d)" and "submit_magnet e u p h m nm src gated d = (Shown c j, evs, d1)"
    and "rq_others e2 = (\<lambda>_ d. d)" and "rq_flt e2 0 0 = None"
  shows "\<exists>r\<in>set (jobs_t d1). jid r = jid j \<and> user_id r = u \<and> info_hash r = h \<and>
    submit_magnet e2 u p2 h m2 nm2 src2 gated2 d1 = (Shown 200 r, [], d1)"
proof -
  from submit_magnet_steps [OF polite_alone [OF assms(5)] assms(1,2)] assms(6) have "(queue_step lim)\<^sup>*\<^sup>* d d1"
    by (metis snd_conv)
  then have ok1: "store_ok d1" using steps_ok assms(1) queue_okD(1) by blast
  from submit_row [OF assms(5,6) queue_okD(1) [OF assms(1)] assms(3,4)] obtain r where
    r: "r \<in> set (jobs_t d1)" "jid r = jid j" "user_id r = u" "info_hash r = h" "has_live_user_identity r"
    by (auto simp: holds_row_def)
  have "r \<in> set (listed_siblings e2 0 d1 h)" using r assms(8) by (simp add: listed_siblings_def list_by_info_hash_def)
  moreover have "user_id r = u \<and> \<not> seed r \<and> status r \<noteq> StatusFailed \<and> status r \<noteq> StatusEvicted"
    using r(3,5) by (simp add: has_live_user_identity_def)
  ultimately have "user_job_for_hash (listed_siblings e2 0 d1 h) u \<noteq> None"
    unfolding user_job_for_hash_def find_None_iff by blast
  then obtain x where x: "user_job_for_hash (listed_siblings e2 0 d1 h) u = Some x" by blast
  have "x \<in> set (jobs_t d1)" using user_job_Some(1) [OF x] listed_mem by blast
  moreover from listed_existing [OF x ok1 assms(3,4)] obtain y where
    y: "y \<in> set (jobs_t d1)" "jid y = jid x" "user_id y = u" "info_hash y = h" "has_live_user_identity y"
    by (auto simp: holds_row_def)
  moreover have "jid y = jid r" using store_okD(3) [OF ok1 y(1) r(1)] y r by (simp add: same_live_key_def)
  ultimately have "x = r" using jid_unique [OF ok1] r by metis
  moreover have "submit_magnet e2 u p2 h m2 nm2 src2 gated2 d1 = (Shown 200 x, [], d1)"
    using x assms(7) by (simp add: submit_magnet_def Let_def)
  ultimately show ?thesis using r by blast
qed

definition film_manifest :: manifest where
  "film_manifest = \<lparr>mn_hash = ''ab'', mn_name = ''film'',
     mn_files = [\<lparr>mf_name = ''film.mkv'', mf_url = ''blobs/b1'', mf_size = 4, mf_crc = 0, mf_enc = False\<rparr>]\<rparr>"

theorem resubmission_shows_same_job_witness:
  "\<exists>j d1. submit_magnet (sample_env (Some (Some film_manifest))) ''u1'' free_plan ''ab'' ''magnet:'' ''film'' SourceTorrent True \<lparr>jobs_t = []\<rparr>
      = (Shown 200 j, [], d1) \<and> jid j = ''j9'' \<and>
    (\<exists>r\<in>set (jobs_t d1). jid r = jid j \<and> user_id r = ''u1'' \<and> info_hash r = ''ab'' \<and>
      submit_magnet (sample_env None) ''u1'' pro_plan ''ab'' [] [] SourceUsenet False d1 = (Shown 200 r, [], d1))"
proof -
  let ?e = "sample_env (Some (Some film_manifest))"
  have "trim_space ''ab'' = ''ab'' \<and> to_lower ''ab'' = ''ab''" by code_simp
  then have h: "filed_hash ''ab''" "to_lower (trim_space ''ab'') = ''ab''" by (simp_all add: filed_hash_def)
  have o: "rq_others ?e = (\<lambda>_ d. d)" "rq_others (sample_env None) = (\<lambda>_ d. d)" "rq_flt (sample_env None) 0 0 = None"
    by (simp_all add: sample_env_def no_faults_def)
  have "\<exists>j d1. submit_magnet ?e ''u1'' free_plan ''ab'' ''magnet:'' ''film'' SourceTorrent True \<lparr>jobs_t = []\<rparr> = (Shown 200 j, [], d1)
      \<and> jid j = ''j9''"
    using h(2) by (simp add: submit_magnet_def Let_def o listed_siblings_def list_by_info_hash_def user_job_for_hash_def playable_def
        manifest_meta_def build_cached_job_def create_once_def prepare_create_def bindE_def sample_env_def film_manifest_def
        blank_job_def job_files_def has_live_user_identity_def run_def no_faults_def lock_admission_def insert_job_def
        live_conflict_def in_tx_def resolve_key_def)
  then obtain j d1 where s: "submit_magnet ?e ''u1'' free_plan ''ab'' ''magnet:'' ''film'' SourceTorrent True \<lparr>jobs_t = []\<rparr> = (Shown 200 j, [], d1)"
    "jid j = ''j9''" by blast
  have "account ''u1''" by (simp add: account_def)
  from resubmission_shows_same_job [where lim = "\<lambda>_. max_concurrent free_plan", OF queue_ok_init refl this h(1) o(1) s(1) o(2,3)]
  show ?thesis using s by blast
qed

end
