(* ===== verification/Eviction.thy ===== *)
theory Eviction
  imports Job_Blobs
begin

text \<open>
  Cache eviction, \<open>shared/eviction/\<close>: the time-to-live verdicts and the daily run
  (\<open>eviction.go\<close>), blob garbage collection, reconciliation of stray objects (\<open>reconcile.go\<close>) and
  the disk watch (\<open>watermark.go\<close>).  What the database and the object store answer is an
  \<open>outcomes\<close> record; within one run an operation on one key has one outcome.
\<close>

section \<open>Policy and verdicts\<close>

record policy =
  never_accessed_ttl :: int
  standard_ttl :: int
  popular_ttl :: int
  prewarm_cold_ttl :: int
  storage_cap_bytes :: int
  budget_grace_days :: int

definition default_policy :: policy where
  "default_policy = \<lparr>never_accessed_ttl = 7, standard_ttl = 14, popular_ttl = 45,
     prewarm_cold_ttl = 14, storage_cap_bytes = 300000000000, budget_grace_days = 3\<rparr>"

definition large_file_bytes :: int where
  "large_file_bytes = 50000000000"

text \<open>The verdict's reason, with the numbers its message carries.\<close>

datatype reason = LargeFile int int | ColdPrewarm int | NeverAccessed int | FewAccesses int int
  | PopularIdle int int

definition ttl_verdict :: "policy \<Rightarrow> candidate \<Rightarrow> reason option" where
  "ttl_verdict p c =
     (if c_size c > large_file_bytes then
        (if c_days c \<ge> popular_ttl p then Some (LargeFile (quot (c_size c) 1000000000) (c_days c)) else None)
      else if c_prewarm c \<and> c_access c = 0 then
        (if c_days c \<ge> prewarm_cold_ttl p then Some (ColdPrewarm (c_days c)) else None)
      else if c_access c = 0 \<and> c_days c \<ge> never_accessed_ttl p then Some (NeverAccessed (c_days c))
      else if c_access c > 0 \<and> c_access c < 10 \<and> c_days c \<ge> standard_ttl p
        then Some (FewAccesses (c_access c) (c_days c))
      else if c_access c \<ge> 10 \<and> c_days c \<ge> popular_ttl p then Some (PopularIdle (c_access c) (c_days c))
      else None)"

definition order_for_reclaim :: "candidate list \<Rightarrow> candidate list" where
  "order_for_reclaim cs =
     (let cold = (\<lambda>c. c_prewarm c \<and> c_access c = 0); large = (\<lambda>c. c_size c > large_file_bytes) in
      filter cold cs @ filter (\<lambda>c. \<not> cold c \<and> \<not> large c) cs @ filter (\<lambda>c. \<not> cold c \<and> large c) cs)"

section \<open>Evicting one hash\<close>

text \<open>
  \<open>prefix_outcome p\<close> is \<open>None\<close> when \<open>DeletePrefix\<close> succeeds, else which of the keys it had already
  deleted when it failed. The outcomes hold for one run: a call that fails for a key fails for it each
  time the run makes it; runs one after the other have outcomes of their own.
\<close>

record outcomes =
  obj_fails :: "string \<Rightarrow> bool"
  prefix_outcome :: "string \<Rightarrow> (string \<Rightarrow> bool) option"
  list_hash_fails :: "string \<Rightarrow> bool"
  drop_refs_fault :: "string \<Rightarrow> db_error option"
  blob_row_fails :: "string \<Rightarrow> bool"
  update_fails :: "string \<Rightarrow> bool"
  orphans_fail :: bool
  candidates_fail :: bool
  dangling_fault :: "db_error option"
  refs_query_fails :: bool
  list_objs_fails :: bool
  total_fails :: bool

definition all_ok :: outcomes where
  "all_ok = \<lparr>obj_fails = (\<lambda>_. False), prefix_outcome = (\<lambda>_. None), list_hash_fails = (\<lambda>_. False),
     drop_refs_fault = (\<lambda>_. None), blob_row_fails = (\<lambda>_. False), update_fails = (\<lambda>_. False),
     orphans_fail = False, candidates_fail = False, dangling_fault = None, refs_query_fails = False,
     list_objs_fails = False, total_fails = False\<rparr>"

datatype evict_error = ErrSeeding | StoreError

definition delete_object :: "cache \<Rightarrow> string \<Rightarrow> cache" where
  "delete_object c k = c\<lparr>objects := filter (\<lambda>x. okey x \<noteq> k) (objects c)\<rparr>"

definition delete_prefix :: "outcomes \<Rightarrow> cache \<Rightarrow> string \<Rightarrow> bool \<times> cache" where
  "delete_prefix oc c p = (case prefix_outcome oc p of
      None \<Rightarrow> (True, c\<lparr>objects := filter (\<lambda>x. \<not> has_prefix (okey x) p) (objects c)\<rparr>)
    | Some gone \<Rightarrow> (False, c\<lparr>objects := filter (\<lambda>x. \<not> (has_prefix (okey x) p \<and> gone (okey x))) (objects c)\<rparr>))"

text \<open>\<open>repo.DeleteBlob\<close> with its error ignored.\<close>

definition delete_blob_row :: "outcomes \<Rightarrow> cache \<Rightarrow> string \<Rightarrow> cache" where
  "delete_blob_row oc c ck = (if blob_row_fails oc ck then c else delete_blob c ck)"

text \<open>One turn of the loops that delete a blob's object and then its row.\<close>

definition collect_blob :: "outcomes \<Rightarrow> string \<Rightarrow> cache \<Rightarrow> bool \<times> cache" where
  "collect_blob oc ck c =
     (if obj_fails oc (storage_key ck) then (False, c)
      else (True, delete_blob_row oc (delete_object c (storage_key ck)) ck))"

definition purge_blobs :: "outcomes \<Rightarrow> cache \<Rightarrow> string \<Rightarrow> cache" where
  "purge_blobs oc c h =
     (case drop_blob_refs (\<lambda>_. drop_refs_fault oc h) c h of
        (Inl e, c1) \<Rightarrow> c1
      | (Inr orphaned, c1) \<Rightarrow> fold (\<lambda>ck c. snd (collect_blob oc ck c)) orphaned c1)"

definition mark_evicted :: "outcomes \<Rightarrow> int \<Rightarrow> string \<Rightarrow> job \<Rightarrow> cache \<Rightarrow> cache" where
  "mark_evicted oc now nd sib c =
     (if node sib \<noteq> nd then c
      else c\<lparr>cdb := snd (update_job (\<lambda>_. if update_fails oc (jid sib) then Some (DBError []) else None) 0 now
             (cdb c) (sib\<lparr>status := StatusEvicted, jerror := ''content evicted from cache''\<rparr>))\<rparr>)"

text \<open>The error of \<open>ListByInfoHash\<close> is ignored: the siblings are then none.\<close>

definition evict :: "outcomes \<Rightarrow> int \<Rightarrow> string \<Rightarrow> cache \<Rightarrow> string \<Rightarrow> (evict_error + unit) \<times> cache" where
  "evict oc now nd c h =
     (let siblings = (if list_hash_fails oc h then [] else list_by_info_hash (cdb c) h) in
      if list_ex (\<lambda>s. status s = StatusSeeding) siblings then (Inl ErrSeeding, c)
      else let (ok, c1) = delete_prefix oc c (h @ ''/'') in
        if \<not> ok then (Inl StoreError, c1)
        else (Inr (), fold (mark_evicted oc now nd) siblings (purge_blobs oc c1 h)))"

section \<open>Garbage collection\<close>

text \<open>One batch: the number of blobs deleted, the bytes freed, and the cache left.\<close>

fun gc_batch :: "outcomes \<Rightarrow> blob list \<Rightarrow> cache \<Rightarrow> nat \<times> int \<times> cache" where
  "gc_batch oc [] c = (0, 0, c)"
| "gc_batch oc (b # bs) c =
     (let (ok, c1) = collect_blob oc (content_key b) c; (n, fr, c2) = gc_batch oc bs c1
      in if ok then (Suc n, blob_size b + fr, c2) else (n, fr, c2))"

text \<open>The loop need not end, so it takes fuel; \<open>None\<close> is running out of it.\<close>

fun run_gc :: "nat \<Rightarrow> outcomes \<Rightarrow> cache \<Rightarrow> (nat \<times> int \<times> cache) option" where
  "run_gc 0 oc c = None"
| "run_gc (Suc fuel) oc c =
     (if orphans_fail oc then Some (0, 0, c)
      else case orphaned_blobs c 500 of [] \<Rightarrow> Some (0, 0, c)
      | orphans \<Rightarrow>
         let (n, fr, c1) = gc_batch oc orphans c in
         if n = 0 then Some (0, fr, c1)
         else map_option (\<lambda>(m, fr', c2). (n + m, fr + fr', c2)) (run_gc fuel oc c1))"

section \<open>Reconciliation\<close>

text \<open>\<open>path.Base\<close>: the last element of a slash-separated path.\<close>

definition path_base :: "string \<Rightarrow> string" where
  "path_base p =
     (if p = [] then ''.''
      else let q = trim_right (\<lambda>ch. ch = CHR ''/'') p in
        if q = [] then ''/'' else last (split_byte (CHR ''/'') q))"

definition reconcile_grace :: int where
  "reconcile_grace = 24 * 3600 * 1000000000"

fun reconcile_objs :: "outcomes \<Rightarrow> int \<Rightarrow> string list \<Rightarrow> stored_object list \<Rightarrow> cache \<Rightarrow> nat \<times> cache" where
  "reconcile_objs oc cutoff refs [] c = (0, c)"
| "reconcile_objs oc cutoff refs (x # xs) c =
     (let ck = path_base (okey x) in
      if ck \<in> set refs then reconcile_objs oc cutoff refs xs c
      else if omod x > cutoff then reconcile_objs oc cutoff refs xs c
      else if obj_fails oc (okey x) then reconcile_objs oc cutoff refs xs c
      else let (n, c') = reconcile_objs oc cutoff refs xs (delete_blob_row oc (delete_object c (okey x)) ck)
           in (Suc n, c'))"

definition run_reconcile :: "outcomes \<Rightarrow> int \<Rightarrow> cache \<Rightarrow> nat \<times> cache" where
  "run_reconcile oc now c =
     (if refs_query_fails oc \<or> list_objs_fails oc then (0, c)
      else reconcile_objs oc (now - reconcile_grace) (referenced_keys c)
             (filter (\<lambda>x. has_prefix (okey x) ''blobs/'') (objects c)) c)"

section \<open>The budget pass and the daily run\<close>

fun budget_loop :: "outcomes \<Rightarrow> int \<Rightarrow> string \<Rightarrow> policy \<Rightarrow> candidate list \<Rightarrow> int
    \<Rightarrow> nat \<times> int \<times> cache \<Rightarrow> nat \<times> int \<times> cache" where
  "budget_loop oc now nd p [] tot (n, fr, c) = (n, fr, c)"
| "budget_loop oc now nd p (x # xs) tot (n, fr, c) =
     (if tot \<le> storage_cap_bytes p then (n, fr, c)
      else if c_days x < budget_grace_days p then budget_loop oc now nd p xs tot (n, fr, c)
      else case evict oc now nd c (c_hash x) of
             (Inl e, c1) \<Rightarrow> budget_loop oc now nd p xs tot (n, fr, c1)
           | (Inr _, c1) \<Rightarrow> budget_loop oc now nd p xs (tot - c_size x) (Suc n, fr + c_size x, c1))"

text \<open>Both query errors are ignored here: the total is then 0, the candidates none.\<close>

definition budget_pass :: "outcomes \<Rightarrow> int \<Rightarrow> string \<Rightarrow> policy \<Rightarrow> nat \<times> int \<times> cache \<Rightarrow> nat \<times> int \<times> cache" where
  "budget_pass oc now nd p st =
     (let c = snd (snd st); tot = (if total_fails oc then 0 else get_total_cached_size c nd) in
      if tot \<le> storage_cap_bytes p then st
      else budget_loop oc now nd p
             (order_for_reclaim (if candidates_fail oc then [] else get_eviction_candidates now c nd)) tot st)"

fun ttl_loop :: "outcomes \<Rightarrow> int \<Rightarrow> string \<Rightarrow> policy \<Rightarrow> candidate list
    \<Rightarrow> nat \<times> int \<times> cache \<Rightarrow> nat \<times> int \<times> cache" where
  "ttl_loop oc now nd p [] (n, fr, c) = (n, fr, c)"
| "ttl_loop oc now nd p (x # xs) (n, fr, c) =
     (case ttl_verdict p x of None \<Rightarrow> ttl_loop oc now nd p xs (n, fr, c)
      | Some r \<Rightarrow> (case evict oc now nd c (c_hash x) of
          (Inl e, c1) \<Rightarrow> ttl_loop oc now nd p xs (n, fr, c1)
        | (Inr _, c1) \<Rightarrow> ttl_loop oc now nd p xs (Suc n, fr + c_size x, c1)))"

definition run_daily :: "nat \<Rightarrow> outcomes \<Rightarrow> int \<Rightarrow> string \<Rightarrow> bool \<Rightarrow> policy \<Rightarrow> cache
    \<Rightarrow> (nat \<times> int \<times> cache) option" where
  "run_daily fuel oc now nd skip_gc p c =
     (if candidates_fail oc then Some (0, 0, c)
      else
       let (n, fr, c1) = ttl_loop oc now nd p (get_eviction_candidates now c nd) (0, 0, c);
           c2 = snd (drop_dangling_refs (\<lambda>_. dangling_fault oc) c1) in
       case (if skip_gc then Some c2 else map_option (\<lambda>(_, _, c). c) (run_gc fuel oc c2)) of
         None \<Rightarrow> None
       | Some c3 \<Rightarrow> let c4 = snd (run_reconcile oc now c3) in
           Some (budget_pass oc now nd p (n, fr, c4)))"

section \<open>The disk watch\<close>

text \<open>
  \<open>stat\<close> is the file system's answer (\<open>diskfree.Stat\<close>): the free bytes in a given state of the
  cache, or none when it cannot tell.
\<close>

fun reclaim_loop :: "outcomes \<Rightarrow> int \<Rightarrow> string \<Rightarrow> policy \<Rightarrow> (cache \<Rightarrow> int option) \<Rightarrow> int \<Rightarrow> int
    \<Rightarrow> candidate list \<Rightarrow> nat \<times> int \<times> cache \<Rightarrow> nat \<times> int \<times> cache" where
  "reclaim_loop oc now nd p stat target need [] (n, fr, c) = (n, fr, c)"
| "reclaim_loop oc now nd p stat target need (x # xs) (n, fr, c) =
     (if fr \<ge> need then (n, fr, c)
      else if (case stat c of Some f \<Rightarrow> f \<ge> target | None \<Rightarrow> False) then (n, fr, c)
      else if c_days x < budget_grace_days p then reclaim_loop oc now nd p stat target need xs (n, fr, c)
      else case evict oc now nd c (c_hash x) of
             (Inl e, c1) \<Rightarrow> reclaim_loop oc now nd p stat target need xs (n, fr, c1)
           | (Inr _, c1) \<Rightarrow> reclaim_loop oc now nd p stat target need xs (Suc n, fr + c_size x, c1))"

definition reclaim_to_free :: "nat \<Rightarrow> outcomes \<Rightarrow> int \<Rightarrow> string \<Rightarrow> policy \<Rightarrow> (cache \<Rightarrow> int option) \<Rightarrow> int
    \<Rightarrow> cache \<Rightarrow> (nat \<times> int \<times> cache) option" where
  "reclaim_to_free fuel oc now nd p stat target c =
     (case run_gc fuel oc c of None \<Rightarrow> None
      | Some (_, _, c1) \<Rightarrow>
        (case stat c1 of None \<Rightarrow> Some (0, 0, c1)
         | Some free \<Rightarrow>
           if free \<ge> target \<or> candidates_fail oc then Some (0, 0, c1)
           else Some (reclaim_loop oc now nd p stat target (target - free)
                  (order_for_reclaim (get_eviction_candidates now c1 nd)) (0, 0, c1))))"

text \<open>
  \<open>StartDiskWatch\<close>: \<open>None\<close> when the watch is not started, else the effective low-water mark; and
  one tick of the watch.
\<close>

definition disk_watch_target :: "string \<Rightarrow> int \<Rightarrow> int \<Rightarrow> int \<Rightarrow> int option" where
  "disk_watch_target path min_free reclaim_to interval =
     (if path = [] \<or> min_free \<le> 0 \<or> interval \<le> 0 then None
      else Some (if reclaim_to < min_free then min_free else reclaim_to))"

definition disk_watch_tick :: "nat \<Rightarrow> outcomes \<Rightarrow> int \<Rightarrow> string \<Rightarrow> policy \<Rightarrow> (cache \<Rightarrow> int option) \<Rightarrow> int \<Rightarrow> int
    \<Rightarrow> bool option \<Rightarrow> cache \<Rightarrow> cache option" where
  "disk_watch_tick fuel oc now nd p stat min_free reclaim_to fleet_has_room c =
     (case stat c of None \<Rightarrow> Some c
      | Some free \<Rightarrow>
        if free \<ge> min_free then Some c
        else if fleet_has_room = Some True then Some c
        else map_option (\<lambda>(_, _, c'). c') (reclaim_to_free fuel oc now nd p stat reclaim_to c))"

section \<open>What eviction keeps\<close>

text \<open>\<open>keeps ks c c'\<close>: the references of the tables agree and every object with a key in \<open>ks\<close> survives.\<close>

definition keeps :: "(string \<Rightarrow> bool) \<Rightarrow> cache \<Rightarrow> cache \<Rightarrow> bool" where
  "keeps ks c c' \<longleftrightarrow> refs_t c' = refs_t c \<and> cdb c' = cdb c
     \<and> (\<forall>x\<in>set (objects c). ks (okey x) \<longrightarrow> x \<in> set (objects c'))"

lemma keeps_refl [simp]: "keeps ks c c"
  by (simp add: keeps_def)

lemma keeps_trans: "keeps ks a b \<Longrightarrow> keeps ks b c \<Longrightarrow> keeps ks a c"
  by (simp add: keeps_def)

lemma referenced_keeps: "keeps ks c c' \<Longrightarrow> referenced c' ck = referenced c ck"
  by (simp add: keeps_def referenced_def)

lemma delete_row_keeps: "\<not> ks k \<Longrightarrow> keeps ks c (delete_blob_row oc (delete_object c k) ck)"
  by (auto simp: keeps_def delete_blob_row_def delete_blob_def delete_object_def)

lemma collect_blob_keeps: "\<not> ks (storage_key ck) \<Longrightarrow> keeps ks c (snd (collect_blob oc ck c))"
  by (simp add: collect_blob_def delete_row_keeps)

lemma gc_batch_cache:
  "snd (snd (gc_batch oc (b # bs) c)) = snd (snd (gc_batch oc bs (snd (collect_blob oc (content_key b) c))))"
  by (simp add: Let_def split: prod.splits)

lemma gc_batch_keeps:
  "(\<And>b. b \<in> set bs \<Longrightarrow> \<not> ks (storage_key (content_key b))) \<Longrightarrow> keeps ks c (snd (snd (gc_batch oc bs c)))"
proof (induction bs arbitrary: c)
  case (Cons b bs)
  have "keeps ks c (snd (collect_blob oc (content_key b) c))"
    using Cons.prems by (intro collect_blob_keeps) simp
  moreover have "keeps ks c1 (snd (snd (gc_batch oc bs c1)))" for c1
    using Cons.prems by (intro Cons.IH) simp
  ultimately have "keeps ks c (snd (snd (gc_batch oc bs (snd (collect_blob oc (content_key b) c)))))"
    using keeps_trans by blast
  then show ?case by (simp only: gc_batch_cache)
qed simp

text \<open>The keys of referenced blobs.\<close>

definition ref_keys :: "cache \<Rightarrow> string \<Rightarrow> bool" where
  "ref_keys c k \<longleftrightarrow> (\<exists>ck. referenced c ck \<and> k = storage_key ck)"

lemma ref_keys_keeps: "keeps ks c c' \<Longrightarrow> ref_keys c' = ref_keys c"
  by (simp add: ref_keys_def fun_eq_iff referenced_keeps)

lemma storage_key_inj [simp]: "storage_key a = storage_key b \<longleftrightarrow> a = b"
  by (simp add: storage_key_def)

lemma run_gc_keeps: "run_gc fuel oc c = Some (n, fr, c') \<Longrightarrow> keeps (ref_keys c) c c'"
proof (induction fuel arbitrary: c n fr c')
  case (Suc fuel)
  show ?case
  proof (cases "orphans_fail oc \<or> orphaned_blobs c 500 = []")
    case True
    with Suc.prems show ?thesis by (auto split: if_splits)
  next
    case False
    obtain m fr1 c1 where b: "gc_batch oc (orphaned_blobs c 500) c = (m, fr1, c1)"
      by (cases "gc_batch oc (orphaned_blobs c 500) c") auto
    have "\<not> ref_keys c (storage_key (content_key x))" if "x \<in> set (orphaned_blobs c 500)" for x
      using orphaned_blobs_unreferenced [OF that] by (auto simp: ref_keys_def)
    then have k1: "keeps (ref_keys c) c c1"
      using gc_batch_keeps [of "orphaned_blobs c 500" "ref_keys c" c oc] b by simp
    have step: "keeps (ref_keys c) c1 c2" if "run_gc fuel oc c1 = Some (m', fr', c2)" for m' fr' c2
      using Suc.IH [OF that] ref_keys_keeps [OF k1] by simp
    have "c' = c1 \<or> (\<exists>m' fr'. run_gc fuel oc c1 = Some (m', fr', c'))"
      using Suc.prems False b by (auto simp: Let_def split: if_splits list.splits)
    with k1 step show ?thesis using keeps_trans by blast
  qed
qed simp

lemma reconcile_objs_keeps:
  "keeps (\<lambda>k. path_base k \<in> set refs) c (snd (reconcile_objs oc cutoff refs xs c))"
proof (induction xs arbitrary: c)
  case (Cons x xs)
  show ?case
  proof (cases "path_base (okey x) \<in> set refs \<or> omod x > cutoff \<or> obj_fails oc (okey x)")
    case True
    then show ?thesis using Cons.IH by (auto simp: Let_def)
  next
    case False
    have "keeps (\<lambda>k. path_base k \<in> set refs) c (delete_blob_row oc (delete_object c (okey x)) (path_base (okey x)))"
      by (rule delete_row_keeps) (use False in simp)
    then show ?thesis using False Cons.IH
      by (auto simp: Let_def split: prod.splits intro: keeps_trans) (metis keeps_trans snd_conv)
  qed
qed simp

lemma path_base_storage_key:
  assumes "CHR ''/'' \<notin> set ck" "ck \<noteq> []"
  shows "path_base (storage_key ck) = ck"
proof -
  have ns: "split_byte (CHR ''/'') ck = [ck]" if "CHR ''/'' \<notin> set ck" for ck :: string
    using that by (induction ck) auto
  have "last (storage_key ck) \<noteq> CHR ''/''"
    using assms by (simp add: storage_key_def) (metis last_in_set)
  then have "trim_right (\<lambda>ch. ch = CHR ''/'') (storage_key ck) = storage_key ck"
    by (intro trim_right_id) (simp_all add: storage_key_def)
  then show ?thesis
    using ns [OF assms(1)] by (simp add: path_base_def storage_key_def)
qed

section \<open>Termination of the collector\<close>

lemma gc_batch_rows:
  assumes "gc_batch oc bs c = (n, fr, c')" and "\<And>ck. \<not> blob_row_fails oc ck"
    and "distinct (map content_key bs)"
  shows "set (blobs_t c') = {b \<in> set (blobs_t c). content_key b \<notin>
     content_key ` {x \<in> set bs. \<not> obj_fails oc (storage_key (content_key x))}}
   \<and> n = length (filter (\<lambda>x. \<not> obj_fails oc (storage_key (content_key x))) bs)
   \<and> length (blobs_t c') \<le> length (blobs_t c) \<and> refs_t c' = refs_t c"
  using assms(1,3)
proof (induction bs arbitrary: c n fr)
  case (Cons b bs)
  obtain ok c1 where c1: "collect_blob oc (content_key b) c = (ok, c1)" by fastforce
  obtain m fr1 where m: "gc_batch oc bs c1 = (m, fr1, c')" "n = (if ok then Suc m else m)"
    using Cons.prems(1) c1 by (auto simp: Let_def split: prod.splits if_splits)
  have ok: "ok \<longleftrightarrow> \<not> obj_fails oc (storage_key (content_key b))"
    and rows: "blobs_t c1 = (if ok then filter (\<lambda>x. content_key x \<noteq> content_key b) (blobs_t c) else blobs_t c)"
    and refs: "refs_t c1 = refs_t c"
    using c1 assms(2)
    by (auto simp: collect_blob_def delete_blob_row_def delete_blob_def delete_object_def split: if_splits)
  note IH = Cons.IH [OF m(1)]
  have "length (blobs_t c1) \<le> length (blobs_t c)" by (simp add: rows)
  then show ?case
    using IH Cons.prems(2) ok m(2) refs by (auto simp: rows)
qed simp

lemma fewer_blobs:
  assumes "set bs' = {b \<in> set bs. content_key b \<notin> K}" "length bs' \<le> length bs" "x \<in> set bs" "content_key x \<in> K"
  shows "card (set bs') < card (set bs)"
  using assms by (intro psubset_card_mono) auto

definition blobs_ok :: "cache \<Rightarrow> bool" where
  "blobs_ok c \<longleftrightarrow> distinct (map content_key (blobs_t c))"

lemma orphans_distinct: "blobs_ok c \<Longrightarrow> distinct (map content_key (orphaned_blobs c n))"
  unfolding orphaned_blobs_def blobs_ok_def
  by (metis distinct_map_filter distinct_take take_map)

lemma gc_batch_blobs_ok:
  "blobs_ok c \<Longrightarrow> blobs_ok (snd (snd (gc_batch oc bs c)))"
proof (induction bs arbitrary: c)
  case (Cons b bs)
  have "blobs_ok (snd (collect_blob oc (content_key b) c))"
    using Cons.prems
    by (auto simp: blobs_ok_def collect_blob_def delete_blob_row_def delete_blob_def delete_object_def
        distinct_map_filter)
  then show ?case unfolding gc_batch_cache by (rule Cons.IH)
qed simp

lemma run_gc_enough:
  assumes "blobs_ok c" "\<And>ck. \<not> blob_row_fails oc ck" "card (set (blobs_t c)) < fuel"
  shows "\<exists>n fr c'. run_gc fuel oc c = Some (n, fr, c')
     \<and> (orphans_fail oc \<or> (\<forall>b\<in>set (orphaned_blobs c' 500). obj_fails oc (storage_key (content_key b))))"
  using assms(1,3)
proof (induction fuel arbitrary: c)
  case (Suc fuel)
  show ?case
  proof (cases "orphans_fail oc \<or> orphaned_blobs c 500 = []")
    case True
    then show ?thesis by auto
  next
    case False
    let ?os = "orphaned_blobs c 500"
    obtain m fr1 c1 where b: "gc_batch oc ?os c = (m, fr1, c1)"
      by (cases "gc_batch oc ?os c") auto
    note r = gc_batch_rows [OF b assms(2) orphans_distinct [OF Suc.prems(1)]]
    have gc: "run_gc (Suc fuel) oc c = (if m = 0 then Some (0, fr1, c1)
        else map_option (\<lambda>(m', fr', c2). (m + m', fr1 + fr', c2)) (run_gc fuel oc c1))"
      using False b by (auto simp: Let_def split: list.splits)
    show ?thesis
    proof (cases "m = 0")
      case True
      then have all: "\<forall>x\<in>set ?os. obj_fails oc (storage_key (content_key x))"
        using r by (auto simp: filter_empty_conv)
      have "gc_batch oc bs c = (0, 0, c)"
        if "\<forall>x\<in>set bs. obj_fails oc (storage_key (content_key x))" for bs
        using that by (induction bs) (auto simp: collect_blob_def)
      with all b have "c1 = c" by force
      with all gc True show ?thesis by auto
    next
      case False
      then obtain x where x: "x \<in> set ?os" "\<not> obj_fails oc (storage_key (content_key x))"
        using r by (auto simp: length_0_conv filter_empty_conv)
      then have "x \<in> set (blobs_t c)" unfolding orphaned_blobs_def
        by (meson filter_is_subset in_set_takeD subsetD)
      with r x have "card (set (blobs_t c1)) < card (set (blobs_t c))"
        by (intro fewer_blobs [where x = x]) auto
      moreover have "blobs_ok c1" using gc_batch_blobs_ok [OF Suc.prems(1), of oc ?os] b by simp
      ultimately have "\<exists>n fr c'. run_gc fuel oc c1 = Some (n, fr, c')
          \<and> (orphans_fail oc \<or> (\<forall>b\<in>set (orphaned_blobs c' 500). obj_fails oc (storage_key (content_key b))))"
        using Suc.prems(2) by (intro Suc.IH) auto
      then show ?thesis using gc False by auto
    qed
  qed
qed simp

section \<open>Properties\<close>

text \<open>The order in which space is reclaimed: cold prewarmed titles, then small files, then large ones.\<close>

definition reclaim_tier :: "candidate \<Rightarrow> nat" where
  "reclaim_tier c = (if c_prewarm c \<and> c_access c = 0 then 0 else if c_size c > large_file_bytes then 2 else 1)"

text \<open>
  \<open>orderForReclaim\<close> is the stable sort of the candidates by tier: nothing is lost or invented,
  and inside a tier the order of the query is kept.
\<close>

theorem order_for_reclaim_stable_sort: "order_for_reclaim cs = sort_key reclaim_tier cs"
proof (rule sym, rule properties_for_sort_key)
  let ?cold = "\<lambda>c. c_prewarm c \<and> c_access c = 0" and ?large = "\<lambda>c. c_size c > large_file_bytes"
  have tiers: "order_for_reclaim cs = filter (\<lambda>c. reclaim_tier c = 0) cs
      @ filter (\<lambda>c. reclaim_tier c = 1) cs @ filter (\<lambda>c. reclaim_tier c = 2) cs"
    unfolding order_for_reclaim_def Let_def reclaim_tier_def
    by (intro arg_cong2 [where f = "(@)"] filter_cong refl) auto
  have three: "reclaim_tier c = 0 \<or> reclaim_tier c = 1 \<or> reclaim_tier c = 2" for c
    by (simp add: reclaim_tier_def)
  have "mset (filter (\<lambda>c. reclaim_tier c = 0) xs @ filter (\<lambda>c. reclaim_tier c = 1) xs
      @ filter (\<lambda>c. reclaim_tier c = 2) xs) = mset xs" for xs
    by (induction xs) (use three in force)+
  then show "mset (order_for_reclaim cs) = mset cs" by (simp only: tiers)
  show "sorted (map reclaim_tier (order_for_reclaim cs))"
  proof -
    have same: "sorted (map reclaim_tier (filter (\<lambda>c. reclaim_tier c = k) xs))" for k xs
      by (induction xs) auto
    show ?thesis by (auto simp: tiers sorted_append same)
  qed
  fix k
  assume "k \<in> set (order_for_reclaim cs)"
  have only: "filter (\<lambda>c. v = reclaim_tier c) (filter (\<lambda>c. reclaim_tier c = j) xs)
      = (if j = v then filter (\<lambda>c. v = reclaim_tier c) xs else [])" for v j xs
    by (auto simp: filter_empty_conv intro!: filter_cong)
  show "filter (\<lambda>c. reclaim_tier k = reclaim_tier c) (order_for_reclaim cs) =
      filter (\<lambda>c. reclaim_tier k = reclaim_tier c) cs"
    unfolding tiers filter_append only using three [of k] by auto
qed

lemma gc_reconcile_keep:
  assumes "run_gc fuel oc c = Some (n, fr, c1)" and "referenced c ck"
    and "ck \<noteq> []" and "CHR ''/'' \<notin> set ck" and "x \<in> set (objects c)" and "okey x = storage_key ck"
  shows "x \<in> set (objects (snd (run_reconcile oc now c1)))
     \<and> refs_t (snd (run_reconcile oc now c1)) = refs_t c \<and> cdb (snd (run_reconcile oc now c1)) = cdb c"
proof -
  have k1: "keeps (ref_keys c) c c1" by (rule run_gc_keeps [OF assms(1)])
  then have x1: "x \<in> set (objects c1)" and r1: "referenced c1 ck"
    using assms(2,5,6) by (auto simp: keeps_def ref_keys_def referenced_def)
  have k2: "keeps (\<lambda>k. path_base k \<in> set (referenced_keys c1)) c1 (snd (run_reconcile oc now c1))"
    unfolding run_reconcile_def using reconcile_objs_keeps by (auto split: if_splits)
  have "path_base (okey x) \<in> set (referenced_keys c1)"
    using r1 assms(3,4,6) by (simp add: path_base_storage_key referenced_keys_iff)
  with k1 k2 x1 show ?thesis by (simp add: keeps_def)
qed

text \<open>
  C5: garbage collection followed by reconciliation never touches referenced content: whatever
  fails, the object of every referenced blob survives, and references and rows stay as they were.
\<close>

theorem gc_reconcile_keep_referenced:
  assumes "run_gc fuel oc c = Some (n, fr, c1)" and "referenced c ck"
    and "ck \<noteq> []" and "CHR ''/'' \<notin> set ck" and "x \<in> set (objects c)" and "okey x = storage_key ck"
  shows "x \<in> set (objects (snd (run_reconcile oc now c1)))
     \<and> refs_t (snd (run_reconcile oc now c1)) = refs_t c \<and> cdb (snd (run_reconcile oc now c1)) = cdb c"
  using assms by (rule gc_reconcile_keep)

definition sample_cache :: cache where
  "sample_cache = \<lparr>cdb = \<lparr>jobs_t = []\<rparr>,
     blobs_t = [\<lparr>content_key = ''b1'', blob_size = 4, encrypted = False\<rparr>,
                \<lparr>content_key = ''b2'', blob_size = 6, encrypted = False\<rparr>],
     refs_t = [\<lparr>ref_hash = ''h'', ref_index = 0, ref_key = ''b1''\<rparr>], views_t = [],
     user_cairns_t = [], archives_t = [],
     objects = [\<lparr>okey = ''blobs/b1'', osize = 4, omod = 0\<rparr>, \<lparr>okey = ''blobs/b2'', osize = 6, omod = 0\<rparr>]\<rparr>"

lemmas gc_eval = sample_cache_def orphaned_blobs_def collect_blob_def all_ok_def storage_key_def
  delete_blob_row_def delete_blob_def delete_object_def

lemma sample_gc: "run_gc 2 all_ok sample_cache = Some (1, 6, sample_cache\<lparr>
     blobs_t := [\<lparr>content_key = ''b1'', blob_size = 4, encrypted = False\<rparr>],
     objects := [\<lparr>okey = ''blobs/b1'', osize = 4, omod = 0\<rparr>]\<rparr>)"
  by (simp add: gc_eval numeral_2_eq_2)

theorem gc_reconcile_keep_referenced_witness:
  "\<exists>c1. run_gc 2 all_ok sample_cache = Some (1, 6, c1)
     \<and> \<lparr>okey = ''blobs/b1'', osize = 4, omod = 0\<rparr> \<in> set (objects (snd (run_reconcile all_ok 99 c1)))"
proof -
  let ?x = "\<lparr>okey = ''blobs/b1'', osize = 4, omod = 0\<rparr>"
  have h: "referenced sample_cache ''b1''" "?x \<in> set (objects sample_cache)" "okey ?x = storage_key ''b1''"
    by (simp_all add: referenced_def sample_cache_def storage_key_def)
  show ?thesis
    using gc_reconcile_keep_referenced [OF sample_gc h(1) _ _ h(2,3), of 99] sample_gc by simp
qed

text \<open>
  C34: if deleting blob rows never fails, collection ends within one round per blob, and then every
  orphan left in the next batch is one whose object could not be deleted.
\<close>

theorem gc_terminates:
  assumes "distinct (map content_key (blobs_t c))" and "\<And>ck. \<not> blob_row_fails oc ck"
  shows "\<exists>n fr c'. run_gc (Suc (length (blobs_t c))) oc c = Some (n, fr, c')
     \<and> (orphans_fail oc \<or> (\<forall>b\<in>set (orphaned_blobs c' 500). obj_fails oc (storage_key (content_key b))))"
  using assms card_length [of "blobs_t c"] by (intro run_gc_enough) (auto simp: blobs_ok_def)

theorem gc_terminates_witness:
  "\<exists>n fr c'. run_gc 3 all_ok sample_cache = Some (n, fr, c')"
proof -
  have d: "distinct (map content_key (blobs_t sample_cache))" by (simp add: sample_cache_def)
  have o: "\<And>ck. \<not> blob_row_fails all_ok ck" by (simp add: all_ok_def)
  have "length (blobs_t sample_cache) = 2" by (simp add: sample_cache_def)
  with gc_terminates [OF d o] show ?thesis by (auto simp: numeral_3_eq_3 numeral_2_eq_2)
qed

text \<open>
  The row deletion's error is ignored and the blob still counts as deleted, so while rows
  cannot be deleted and some orphan exists the loop makes no progress and never ends.
\<close>

theorem gc_diverges_on_row_errors:
  assumes "\<And>ck. blob_row_fails oc ck" and "\<And>k. \<not> obj_fails oc k" and "\<not> orphans_fail oc"
    and "orphaned_blobs c 500 \<noteq> []"
  shows "run_gc fuel oc c = None"
  using assms(4)
proof (induction fuel arbitrary: c)
  case (Suc fuel)
  have batch: "blobs_t (snd (snd (gc_batch oc bs c))) = blobs_t c \<and> refs_t (snd (snd (gc_batch oc bs c))) = refs_t c
      \<and> fst (gc_batch oc bs c) = length bs" for bs c
  proof (induction bs arbitrary: c)
    case (Cons b bs)
    let ?c = "delete_object c (storage_key (content_key b))"
    show ?case
      using Cons.IH [of ?c] assms(1,2)
      by (auto simp: collect_blob_def delete_blob_row_def delete_object_def Let_def split: prod.splits)
  qed simp
  obtain m fr1 c1 where b: "gc_batch oc (orphaned_blobs c 500) c = (m, fr1, c1)"
    by (cases "gc_batch oc (orphaned_blobs c 500) c") auto
  with batch [of "orphaned_blobs c 500" c] Suc.prems
  have "m \<noteq> 0" "orphaned_blobs c1 500 = orphaned_blobs c 500" by (auto simp: orphaned_blobs_def)
  with Suc.IH [of c1] Suc.prems b assms(3) show ?case
    by (auto simp: Let_def split: list.splits)
qed simp

theorem gc_diverges_on_row_errors_witness:
  "run_gc 7 (all_ok\<lparr>blob_row_fails := \<lambda>_. True\<rparr>) sample_cache = None"
  by (rule gc_diverges_on_row_errors) (simp_all add: gc_eval)

text \<open>
  A hash with a seeding sibling is left alone, provided the sibling query answers.
\<close>

theorem evict_spares_seeding:
  assumes "s \<in> set (jobs_t (cdb c))" "to_lower (info_hash s) = to_lower h" "status s = StatusSeeding"
    and "\<not> list_hash_fails oc h"
  shows "evict oc now nd c h = (Inl ErrSeeding, c)"
  using assms by (auto simp: evict_def list_by_info_hash_def list_ex_iff Let_def)

definition seeding_cache :: cache where
  "seeding_cache = sample_cache\<lparr>cdb := \<lparr>jobs_t = [\<lparr>jid = ''j'', user_id = ''u'', info_hash = ''h'',
     jname = [], magnet = [], source = SourceTorrent, status = StatusSeeding, seed = False,
     budget_gated = True, input_key = [], jerror = [], files = [], selected_idxs = [], imdb_id = [],
     season = 0, episode = 0, file_size = 7, max_bytes = 9, priority = 1, progress = 0, speed = 0,
     node = [], created_at = 0, updated_at = 0, access_count = 0, last_accessed = None\<rparr>]\<rparr>,
     objects := [\<lparr>okey = ''h/film.mkv'', osize = 4, omod = 0\<rparr>]\<rparr>"

theorem evict_spares_seeding_witness:
  "evict all_ok 5 [] seeding_cache ''h'' = (Inl ErrSeeding, seeding_cache)"
  by (rule evict_spares_seeding [where s = "hd (jobs_t (cdb seeding_cache))"])
    (simp_all add: seeding_cache_def all_ok_def)

text \<open>
  When the sibling query fails its error is dropped, and \<open>evict\<close> deletes the files of a hash
  that is still seeding and reports success.
\<close>

theorem evict_drops_seeding_on_query_error:
  "fst (evict (all_ok\<lparr>list_hash_fails := \<lambda>_. True\<rparr>) 5 [] seeding_cache ''h'') = Inr ()
   \<and> objects (snd (evict (all_ok\<lparr>list_hash_fails := \<lambda>_. True\<rparr>) 5 [] seeding_cache ''h'')) = []"
  by (simp add: evict_def delete_prefix_def all_ok_def seeding_cache_def sample_cache_def
      purge_blobs_def drop_blob_refs_def run_def has_prefix_def Let_def in_tx_def)

text \<open>
  The budget pass stops as soon as it is below the cap: the last candidate it evicts was past
  the grace period and was evicted while the total was still above the cap.
\<close>

theorem budget_loop_minimal:
  "case budget_loop oc now nd p xs tot (n, fr, c) of (n', fr', c') \<Rightarrow>
     (n' = n \<and> fr' = fr) \<or> (\<exists>x\<in>set xs. budget_grace_days p \<le> c_days x
        \<and> storage_cap_bytes p < tot - (fr' - fr) + c_size x)"
proof (induction xs arbitrary: tot n fr c)
  case (Cons x xs)
  obtain r c1 where e: "evict oc now nd c (c_hash x) = (r, c1)" by fastforce
  show ?case
    using Cons.IH [where tot = tot and c = c and fr = fr and n = n]
      Cons.IH [where tot = tot and c = c1 and fr = fr and n = n]
      Cons.IH [where tot = "tot - c_size x" and c = c1 and fr = "fr + c_size x" and n = "Suc n"]
    by (auto simp: e not_le not_less split: prod.splits sum.splits)
qed simp

end
