(* ===== verification/Evict_Nodes.thy ===== *)
theory Evict_Nodes
  imports Eviction Cluster
begin

text \<open>
  Eviction on several nodes. Every node runs its own evictor over its own store, while the tables of
  jobs, blobs and references are shared (\<open>evictor/cmd/main.go\<close>, \<open>shared/eviction\<close>): what the
  collector removes, and what evicting a hash on one node does to the copy on another.
\<close>

section \<open>The evictor's configuration\<close>

definition no_cap :: int where
  "no_cap = 2 ^ 62"

definition policy_from_env :: "environ \<Rightarrow> policy" where
  "policy_from_env ev =
     (let c = env_int ev ''EVICTION_CAP_BYTES'' 0 in
      \<lparr>never_accessed_ttl = env_int ev ''EVICTION_NEVER_TTL'' (never_accessed_ttl default_policy),
       standard_ttl = env_int ev ''EVICTION_STANDARD_TTL'' (standard_ttl default_policy),
       popular_ttl = env_int ev ''EVICTION_POPULAR_TTL'' (popular_ttl default_policy),
       prewarm_cold_ttl = env_int ev ''EVICTION_PREWARM_TTL'' (prewarm_cold_ttl default_policy),
       storage_cap_bytes = (if c > 0 then c else no_cap),
       budget_grace_days = env_int ev ''EVICTION_BUDGET_GRACE'' (budget_grace_days default_policy)\<rparr>)"

text \<open>\<open>statfs\<close> answers the free and total bytes, or nothing.\<close>

definition report_once :: "db_error faults \<Rightarrow> int \<Rightarrow> (int \<times> int) option \<Rightarrow> status_store \<Rightarrow> string \<Rightarrow> int \<Rightarrow> status_store" where
  "report_once flt now stat s nd min_free =
     (case stat of None \<Rightarrow> s | Some (free, tot) \<Rightarrow> snd (report_node flt now s nd free tot min_free))"

section \<open>What the collector removes\<close>

definition collects :: "cache \<Rightarrow> cache \<Rightarrow> bool" where
  "collects c c' \<longleftrightarrow> refs_t c' = refs_t c \<and> set (objects c') \<subseteq> set (objects c) \<and> set (blobs_t c') \<subseteq> set (blobs_t c)
     \<and> (\<forall>b\<in>set (blobs_t c). b \<in> set (blobs_t c') \<or> storage_key (content_key b) \<notin> okey ` set (objects c'))"

lemma collects_refl [simp]: "collects c c"
  by (simp add: collects_def)

lemma collects_trans: "collects a b \<Longrightarrow> collects b c \<Longrightarrow> collects a c"
  unfolding collects_def by (metis image_mono in_mono subset_trans)

lemma collect_blob_collects: "collects c (snd (collect_blob oc ck c))"
  by (auto simp: collects_def collect_blob_def delete_blob_row_def delete_blob_def delete_object_def)

lemma gc_batch_collects: "collects c (snd (snd (gc_batch oc bs c)))"
proof (induction bs arbitrary: c)
  case (Cons b bs)
  show ?case
    unfolding gc_batch_cache by (rule collects_trans [OF collect_blob_collects Cons.IH])
qed simp

lemma run_gc_collects: "run_gc fuel oc c = Some (n, fr, c') \<Longrightarrow> collects c c'"
proof (induction fuel arbitrary: c n fr c')
  case (Suc fuel)
  show ?case
  proof (cases "orphans_fail oc \<or> orphaned_blobs c 500 = []")
    case True
    with Suc.prems show ?thesis by (auto split: if_splits)
  next
    case False
    obtain m fr1 c1 where b: "gc_batch oc (orphaned_blobs c 500) c = (m, fr1, c1)"
      by (cases "gc_batch oc (orphaned_blobs c 500) c") auto
    then have k1: "collects c c1" using gc_batch_collects [of c oc "orphaned_blobs c 500"] by simp
    have "c' = c1 \<or> (\<exists>m' fr'. run_gc fuel oc c1 = Some (m', fr', c'))"
      using Suc.prems False b by (auto simp: Let_def split: if_splits list.splits)
    with k1 Suc.IH show ?thesis using collects_trans by blast
  qed
qed simp

lemma orphaned_blobs_Nil:
  assumes "orphaned_blobs c n = []" and "0 < n" and "b \<in> set (blobs_t c)"
  shows "referenced c (content_key b)"
  using assms by (auto simp: orphaned_blobs_def referenced_def filter_empty_conv list_ex_iff image_iff) metis

text \<open>With a working store and database one pass removes every unreferenced blob.\<close>

lemma run_gc_removes_orphans:
  assumes "blobs_ok c" and "b \<in> set (blobs_t c)" and "\<not> referenced c (content_key b)"
  shows "\<exists>n fr c'. run_gc (Suc (length (blobs_t c))) all_ok c = Some (n, fr, c')
     \<and> storage_key (content_key b) \<notin> okey ` set (objects c') \<and> cdb c' = cdb c"
proof -
  have "card (set (blobs_t c)) < Suc (length (blobs_t c))" by (simp add: card_length le_imp_less_Suc)
  from run_gc_enough [OF assms(1) _ this, of all_ok] obtain n fr c' where
    g: "run_gc (Suc (length (blobs_t c))) all_ok c = Some (n, fr, c')"
    and e: "\<forall>x\<in>set (orphaned_blobs c' 500). obj_fails all_ok (storage_key (content_key x))"
    by (auto simp: all_ok_def)
  have "orphaned_blobs c' 500 = []"
    using e by (cases "orphaned_blobs c' 500") (auto simp: all_ok_def)
  then have "b \<notin> set (blobs_t c')"
    using orphaned_blobs_Nil [of c' 500 b] assms(3) run_gc_collects [OF g]
    by (auto simp: collects_def referenced_def)
  with run_gc_collects [OF g] assms(2) run_gc_keeps [OF g] g show ?thesis
    by (auto simp: collects_def keeps_def)
qed

section \<open>Evicting one of two copies\<close>

lemma drop_blob_refs_cache:
  "snd (drop_blob_refs (\<lambda>_. None) c h) = c\<lparr>refs_t := filter (\<lambda>r. ref_hash r \<noteq> h) (refs_t c)\<rparr>"
  by (simp add: drop_blob_refs_def run_def Let_def)

lemma purge_blobs_frame:
  assumes "drop_refs_fault oc h = None"
  shows "refs_t (purge_blobs oc c h) = filter (\<lambda>r. ref_hash r \<noteq> h) (refs_t c)"
    and "cdb (purge_blobs oc c h) = cdb c" and "blobs_t (purge_blobs oc c h) = blobs_t c"
proof -
  have n: "fst (drop_blob_refs (\<lambda>_. None) c h) = Inr []"
    by (auto simp: drop_blob_refs_def run_def Let_def list_ex_iff filter_empty_conv)
  then have "purge_blobs oc c h = snd (drop_blob_refs (\<lambda>_. None) c h)"
    by (cases "drop_blob_refs (\<lambda>_. None) c h") (simp add: purge_blobs_def assms)
  then show "refs_t (purge_blobs oc c h) = filter (\<lambda>r. ref_hash r \<noteq> h) (refs_t c)"
    "cdb (purge_blobs oc c h) = cdb c" "blobs_t (purge_blobs oc c h) = blobs_t c"
    by (simp_all add: drop_blob_refs_cache)
qed

lemma mark_evicted_frame:
  "refs_t (mark_evicted oc now nd s c) = refs_t c" "blobs_t (mark_evicted oc now nd s c) = blobs_t c"
  by (simp_all add: mark_evicted_def)

lemma mark_evicted_other:
  assumes "j \<in> set (jobs_t (cdb c))" and "node s = nd \<longrightarrow> jid s \<noteq> jid j"
  shows "j \<in> set (jobs_t (cdb (mark_evicted oc now nd s c)))"
proof (cases "node s = nd")
  case True
  have "j \<in> set (upd_where (\<lambda>r. jid r = jid s) f (jobs_t (cdb c)))" for f
    using assms True by (force simp: upd_where_def)
  with assms(1) show ?thesis
    by (auto simp: mark_evicted_def update_job_def in_tx_def run_def split: if_splits option.splits)
qed (use assms in \<open>simp add: mark_evicted_def\<close>)

lemma fold_mark_evicted:
  "refs_t (fold (mark_evicted oc now nd) ss c) = refs_t c"
  "blobs_t (fold (mark_evicted oc now nd) ss c) = blobs_t c"
  by (induction ss arbitrary: c) (simp_all add: mark_evicted_frame)

lemma fold_mark_evicted_other:
  assumes "j \<in> set (jobs_t (cdb c))" and "\<And>s. s \<in> set ss \<Longrightarrow> node s = nd \<Longrightarrow> jid s \<noteq> jid j"
  shows "j \<in> set (jobs_t (cdb (fold (mark_evicted oc now nd) ss c)))"
  using assms
proof (induction ss arbitrary: c)
  case (Cons s ss)
  have "j \<in> set (jobs_t (cdb (mark_evicted oc now nd s c)))"
    using Cons.prems by (intro mark_evicted_other) auto
  then show ?case using Cons.prems(2) by (simp add: Cons.IH)
qed simp

lemma delete_prefix_frame:
  "delete_prefix oc c p = (ok, c1) \<Longrightarrow> cdb c1 = cdb c \<and> refs_t c1 = refs_t c \<and> blobs_t c1 = blobs_t c"
  by (auto simp: delete_prefix_def split: option.splits)

lemma evict_effect:
  assumes "evict oc now nd c h = (Inr (), c1)" and "drop_refs_fault oc h = None"
    and "distinct (map jid (jobs_t (cdb c)))"
  shows "refs_t c1 = filter (\<lambda>r. ref_hash r \<noteq> h) (refs_t c) \<and> blobs_t c1 = blobs_t c
    \<and> (\<forall>j\<in>set (jobs_t (cdb c)). node j \<noteq> nd \<longrightarrow> j \<in> set (jobs_t (cdb c1)))"
proof -
  let ?ss = "if list_hash_fails oc h then [] else list_by_info_hash (cdb c) h"
  obtain c0 where d: "delete_prefix oc c (h @ ''/'') = (True, c0)"
    and c1: "c1 = fold (mark_evicted oc now nd) ?ss (purge_blobs oc c0 h)"
    using assms(1) by (auto simp: evict_def Let_def split: if_splits prod.splits)
  note f = delete_prefix_frame [OF d]
  have "j \<in> set (jobs_t (cdb c1))" if j: "j \<in> set (jobs_t (cdb c))" "node j \<noteq> nd" for j
    unfolding c1
  proof (rule fold_mark_evicted_other)
    show "j \<in> set (jobs_t (cdb (purge_blobs oc c0 h)))"
      using j(1) f by (simp add: purge_blobs_frame [OF assms(2)])
    fix s assume "s \<in> set ?ss" "node s = nd"
    then have "s \<in> set (jobs_t (cdb c))" by (auto simp: list_by_info_hash_def split: if_splits)
    with j \<open>node s = nd\<close> assms(3) show "jid s \<noteq> jid j" by (auto simp: distinct_map inj_on_def)
  qed
  then show ?thesis using f by (simp add: c1 fold_mark_evicted purge_blobs_frame [OF assms(2)])
qed

section \<open>Properties\<close>

text \<open>
  C37: evicting a hash on one node loses the copy on another: the references are shared, so they go
  for both, the row on the other node stays complete, and the next collection there deletes the
  object it is served from.
\<close>

theorem evict_loses_other_nodes_copy:
  assumes "evict oc now nd c h = (Inr (), c1)" and "drop_refs_fault oc h = None"
    and "distinct (map jid (jobs_t (cdb c)))" and "blobs_ok c"
    and "j \<in> set (jobs_t (cdb c))" and "status j = StatusComplete" and "node j \<noteq> nd"
    and "b \<in> set (blobs_t c)" and "\<forall>r\<in>set (refs_t c). ref_key r = content_key b \<longrightarrow> ref_hash r = h"
  shows "\<exists>n fr c2. run_gc (Suc (length (blobs_t c))) all_ok (c1\<lparr>objects := os\<rparr>) = Some (n, fr, c2)
    \<and> j \<in> set (jobs_t (cdb c2)) \<and> storage_key (content_key b) \<notin> okey ` set (objects c2)"
proof -
  note e = evict_effect [OF assms(1-3)]
  let ?c = "c1\<lparr>objects := os\<rparr>"
  have "blobs_ok ?c" "b \<in> set (blobs_t ?c)" "\<not> referenced ?c (content_key b)" "length (blobs_t ?c) = length (blobs_t c)"
    using e assms(4,8,9) by (auto simp: blobs_ok_def referenced_def)
  with run_gc_removes_orphans [of ?c b] e assms(5,7) show ?thesis by auto
qed

definition copy_on :: "string \<Rightarrow> string \<Rightarrow> job" where
  "copy_on i nd = sized_job\<lparr>jid := i, user_id := i, status := StatusComplete, node := nd\<rparr>"

definition two_nodes :: cache where
  "two_nodes = \<lparr>cdb = \<lparr>jobs_t = [copy_on ''j1'' ''box1'', copy_on ''j2'' ''box2'']\<rparr>,
     blobs_t = [\<lparr>content_key = ''k'', blob_size = 4, encrypted = False\<rparr>],
     refs_t = [\<lparr>ref_hash = ''h'', ref_index = 0, ref_key = ''k''\<rparr>],
     views_t = [], user_cairns_t = [], archives_t = [], objects = []\<rparr>"

theorem evict_loses_other_nodes_copy_witness:
  "\<exists>n fr c2. run_gc 2 all_ok ((snd (evict all_ok 5 ''box1'' two_nodes ''h''))
        \<lparr>objects := [\<lparr>okey = ''blobs/k'', osize = 4, omod = 0\<rparr>]\<rparr>) = Some (n, fr, c2)
    \<and> copy_on ''j2'' ''box2'' \<in> set (jobs_t (cdb c2)) \<and> ''blobs/k'' \<notin> okey ` set (objects c2)"
proof -
  have e: "evict all_ok 5 ''box1'' two_nodes ''h'' = (Inr (), snd (evict all_ok 5 ''box1'' two_nodes ''h''))"
    by (simp add: evict_def delete_prefix_def list_by_info_hash_def two_nodes_def copy_on_def sized_job_def all_ok_def Let_def)
  have h: "drop_refs_fault all_ok ''h'' = None" "distinct (map jid (jobs_t (cdb two_nodes)))" "blobs_ok two_nodes"
    "copy_on ''j2'' ''box2'' \<in> set (jobs_t (cdb two_nodes))" "status (copy_on ''j2'' ''box2'') = StatusComplete"
    "node (copy_on ''j2'' ''box2'') \<noteq> ''box1''" "hd (blobs_t two_nodes) \<in> set (blobs_t two_nodes)"
    "\<forall>r\<in>set (refs_t two_nodes). ref_key r = content_key (hd (blobs_t two_nodes)) \<longrightarrow> ref_hash r = ''h''"
    "Suc (length (blobs_t two_nodes)) = 2" "content_key (hd (blobs_t two_nodes)) = ''k''"
    by (simp_all add: two_nodes_def copy_on_def all_ok_def blobs_ok_def)
  from evict_loses_other_nodes_copy [OF e h(1-8)] show ?thesis
    unfolding h(9,10) by (simp add: storage_key_def)
qed

end
