(* ===== verification/Publish.thy ===== *)
theory Publish
  imports Complex_Main Blob_Store Job_Queue Evict_Nodes
begin

text \<open>
  Publishing a download: the failure classes of \<open>shared/failure\<close>, the publisher of
  \<open>ingest/internal/publish/publish.go\<close> and the job updates of \<open>ingest/internal/jobrun\<close>. The media
  probe, the runtime source and the target node are parameters; durations are rationals. Between
  two statements on the job table other processes may commit: \<open>others k\<close> is what they do before the
  statement numbered \<open>k\<close>.
\<close>

section \<open>Failures\<close>

record failure =
  fcode :: string
  fmsg :: string

text \<open>A \<open>Failure\<close>, a failure or error with context (\<open>%w\<close>), or another error.\<close>

datatype go_error = Fail failure | Wrapped string go_error | OtherError string

fun as_failure :: "go_error \<Rightarrow> failure option" where
  "as_failure (Fail f) = Some f"
| "as_failure (Wrapped _ e) = as_failure e"
| "as_failure (OtherError _) = None"

definition fail_wrap :: "failure \<Rightarrow> string \<Rightarrow> go_error" where
  "fail_wrap f ctx = Wrapped ctx (Fail f)"

definition blocked_failure :: failure where
  "blocked_failure = \<lparr>fcode = ''blocked'', fmsg = ''blocked by content policy''\<rparr>"

definition engine_down :: failure where
  "engine_down = \<lparr>fcode = ''engine_down'', fmsg = ''download engine unavailable, please retry''\<rparr>"

definition add_failed :: failure where
  "add_failed = \<lparr>fcode = ''add_failed'', fmsg = [CHR ''c'', CHR ''o'', CHR ''u'', CHR ''l'', CHR ''d'', CHR ''n'', CHR 0x27]
     @ ''t start this download, please retry''\<rparr>"

definition no_sources :: failure where
  "no_sources = \<lparr>fcode = ''no_sources'', fmsg = ''no working sources for this release right now''\<rparr>"

definition generic_failure :: failure where
  "generic_failure = \<lparr>fcode = ''generic'', fmsg = ''download failed, please retry''\<rparr>"

definition failure_message :: "go_error option \<Rightarrow> string" where
  "failure_message err = (case err of None \<Rightarrow> []
     | Some e \<Rightarrow> (case as_failure e of Some f \<Rightarrow> fmsg f | None \<Rightarrow> fmsg generic_failure))"

section \<open>The publisher\<close>

record pub_file =
  pf_name :: string
  pf_path :: string
  pf_size :: int

record media =
  m_width :: int
  m_height :: int
  m_duration :: rat

text \<open>\<open>mediainfo.Playable\<close>.\<close>

definition media_playable :: "media option \<Rightarrow> bool" where
  "media_playable m = (case m of None \<Rightarrow> False | Some i \<Rightarrow> m_width i > 0 \<and> m_height i > 0)"

text \<open>
  A store is named by its node, or \<open>None\<close> for the worker's own. \<open>p_runtime\<close> answers the expected
  minutes of a title, none on an error; \<open>p_probe\<close> is \<open>ffprobe\<close>, none on an error.
\<close>

record publisher =
  p_node :: string
  p_nodes :: "string list"
  p_cipher :: "(int \<Rightarrow> int option) option"
  p_verify :: bool
  p_usage :: bool
  p_runtime :: "(string \<Rightarrow> int option) option"
  p_target :: "(source \<Rightarrow> int \<Rightarrow> string) option"
  p_probe :: "byte list option \<Rightarrow> media option"
  p_sha :: "byte list \<Rightarrow> byte list"

record world =
  w_cache :: cache
  w_objs :: "string option \<Rightarrow> stored_object list"
  w_mans :: "string option \<Rightarrow> string \<Rightarrow> manifest option option"
  w_disk :: "string \<Rightarrow> byte list option"
  w_usage :: "(string \<times> int) list"
  w_tallied :: bool

text \<open>What fails in a run: the usage record, the statements, the stores, the manifest's upload.\<close>

record pub_faults =
  f_usage :: bool
  f_db :: "db_error faults"
  f_blob :: "nat \<Rightarrow> db_error faults"
  f_put :: "nat \<Rightarrow> put_faults"
  f_manifest :: bool

definition no_pub_faults :: pub_faults where
  "no_pub_faults = \<lparr>f_usage = False, f_db = no_faults, f_blob = (\<lambda>_. no_faults), f_put = (\<lambda>_. no_put_faults),
     f_manifest = False\<rparr>"

definition store_for :: "publisher \<Rightarrow> string \<Rightarrow> string option" where
  "store_for p n = (if n \<in> set (p_nodes p) then Some n else None)"

definition remote :: "publisher \<Rightarrow> bool" where
  "remote p \<longleftrightarrow> 0 < length (p_nodes p)"

text \<open>An operation on the tables and one store.\<close>

definition on_store :: "string option \<Rightarrow> (cache \<Rightarrow> 'a \<times> cache) \<Rightarrow> world \<Rightarrow> 'a \<times> world" where
  "on_store s f w = (case f (w_cache w\<lparr>objects := w_objs w s\<rparr>) of
     (r, c) \<Rightarrow> (r, w\<lparr>w_cache := c, w_objs := (w_objs w)(s := objects c)\<rparr>))"

definition meter_bytes :: "publisher \<Rightarrow> bool \<Rightarrow> string \<Rightarrow> bool \<Rightarrow> int \<Rightarrow> world \<Rightarrow> world" where
  "meter_bytes p usage_fails u sd n w =
     (if \<not> p_usage p \<or> u = [] \<or> u = ''prewarm'' \<or> sd \<or> n \<le> 0 then w
      else if usage_fails then w else w\<lparr>w_usage := w_usage w @ [(u, n)]\<rparr>)"

definition meter_download :: "publisher \<Rightarrow> bool \<Rightarrow> job \<Rightarrow> pub_file list \<Rightarrow> world \<Rightarrow> world" where
  "meter_download p uf j fs w =
     meter_bytes p uf (user_id j) (seed j) (sum_list (map pf_size fs)) (w\<lparr>w_tallied := True\<rparr>)"

definition remove_file :: "string \<Rightarrow> world \<Rightarrow> world" where
  "remove_file path w = w\<lparr>w_disk := (w_disk w)(path := None)\<rparr>"

definition min_video_size :: int where
  "min_video_size = 1000000"

fun usable_files :: "job \<Rightarrow> pub_file list \<Rightarrow> world \<Rightarrow> pub_file list \<times> world" where
  "usable_files j [] w = ([], w)"
| "usable_files j (f # fs) w =
     (if pf_size f < min_video_size
      then usable_files j fs (if seed j then w else remove_file (pf_path f) w)
      else (case usable_files j fs w of (kept, w') \<Rightarrow> (f # kept, w')))"

text \<open>The state of the loop over the files.\<close>

record pub_acc =
  pa_files :: "man_file list"
  pa_total :: int
  pa_dur :: rat
  pa_wrote :: bool

definition no_acc :: pub_acc where
  "no_acc = \<lparr>pa_files = [], pa_total = 0, pa_dur = 0, pa_wrote = False\<rparr>"

text \<open>The probe's verdict on a file: skip it, or go on with the duration it adds.\<close>

definition probe_file :: "publisher \<Rightarrow> pub_file \<Rightarrow> world \<Rightarrow> rat option" where
  "probe_file p f w =
     (if is_video (pf_name f)
      then let info = p_probe p (w_disk w (pf_path f)) in
        if \<not> media_playable info then (if p_verify p then None else Some 0)
        else Some (m_duration (the info))
      else Some 0)"

definition store_file :: "publisher \<Rightarrow> pub_faults \<Rightarrow> int \<Rightarrow> string option \<Rightarrow> job \<Rightarrow> nat \<Rightarrow> pub_file \<Rightarrow> world
    \<Rightarrow> (go_error + man_file \<times> bool) \<times> world" where
  "store_file p flt now s j i f w =
     (case content_key_of (p_sha p) (w_disk w (pf_path f)) (pf_size f) of
        None \<Rightarrow> (Inl (OtherError ''content key''), w)
      | Some ck \<Rightarrow>
        (case on_store s (\<lambda>c. blob_put (f_blob flt i) (f_put flt i) (p_cipher p) now c (info_hash j) i
             (w_disk w (pf_path f)) ck (storage_key ck) (pf_size f)) w of
           (Inl e, w1) \<Rightarrow> (Inl (OtherError ''put''), w1)
         | (Inr (crc, enc, wrote), w1) \<Rightarrow>
             (Inr (\<lparr>mf_name = pf_name f, mf_url = storage_key ck, mf_size = pf_size f, mf_crc = crc, mf_enc = enc\<rparr>, wrote),
              if seed j then w1 else remove_file (pf_path f) w1)))"

fun publish_files :: "publisher \<Rightarrow> pub_faults \<Rightarrow> int \<Rightarrow> string option \<Rightarrow> job \<Rightarrow> nat \<Rightarrow> pub_file list \<Rightarrow> pub_acc \<Rightarrow> world
    \<Rightarrow> (go_error + pub_acc) \<times> world" where
  "publish_files p flt now s j i [] a w = (Inr a, w)"
| "publish_files p flt now s j i (f # fs) a w =
     (case probe_file p f w of
        None \<Rightarrow> publish_files p flt now s j (Suc i) fs a (if seed j then w else remove_file (pf_path f) w)
      | Some d \<Rightarrow>
        (case store_file p flt now s j i f w of
           (Inl e, w1) \<Rightarrow> (Inl e, w1)
         | (Inr (mf, wrote), w1) \<Rightarrow>
             publish_files p flt now s j (Suc i) fs
               \<lparr>pa_files = pa_files a @ [mf], pa_total = pa_total a + pf_size f,
                pa_dur = max (pa_dur a) d, pa_wrote = pa_wrote a \<or> wrote\<rparr> w1))"

section \<open>The runtime gate\<close>

text \<open>The source computes in \<open>float64\<close>; its rounding is left out.\<close>

definition runtime_mismatch :: "rat \<Rightarrow> int \<Rightarrow> bool" where
  "runtime_mismatch dur expected =
     (let got = dur / 60; e = rat_of_int expected in got < e * (7 / 10) \<or> got > e * (145 / 100))"

definition check_runtime :: "publisher \<Rightarrow> job \<Rightarrow> rat \<Rightarrow> go_error option" where
  "check_runtime p j dur =
     (case p_runtime p of None \<Rightarrow> None
      | Some rt \<Rightarrow>
        if imdb_id j = [] \<or> season j > 0 \<or> episode j > 0 \<or> dur \<le> 0 then None
        else (case rt (imdb_id j) of None \<Rightarrow> None
          | Some expected \<Rightarrow>
            if expected \<le> 0 then None
            else if runtime_mismatch dur expected
            then Some (Fail \<lparr>fcode = ''wrong_content'', fmsg = ''runtime '' @ show_int \<lfloor>dur / 60\<rfloor>
              @ '' min doesn'' @ [CHR 0x27] @ ''t match this title (~'' @ show_int expected
              @ '' min), likely a mislabeled release''\<rparr>)
            else None))"

section \<open>Completing the rows of a release\<close>

text \<open>What \<open>complete\<close> makes of a sibling it does not skip.\<close>

definition completes :: "string \<Rightarrow> job \<Rightarrow> bool" where
  "completes nd r \<longleftrightarrow> status r \<notin> {StatusFailed, StatusEvicted}
     \<and> (node r = nd \<or> status r = StatusQueued \<and> \<not> seed r)"

definition completed :: "string \<Rightarrow> string \<Rightarrow> file_rec list \<Rightarrow> int \<Rightarrow> job \<Rightarrow> job" where
  "completed nd nm fs tot r =
     r\<lparr>node := nd, status := StatusComplete, jerror := [], jname := nm, files := fs, file_size := tot\<rparr>"

fun complete_loop :: "db_error faults \<Rightarrow> (nat \<Rightarrow> db \<Rightarrow> db) \<Rightarrow> nat \<Rightarrow> int \<Rightarrow> string \<Rightarrow> string \<Rightarrow> file_rec list \<Rightarrow> int
    \<Rightarrow> job list \<Rightarrow> db \<Rightarrow> (db_error + unit) \<times> db" where
  "complete_loop flt others k now nd nm fs tot [] d = (Inr (), d)"
| "complete_loop flt others k now nd nm fs tot (r # rs) d =
     (if completes nd r
      then (case update_job flt k now (others k d) (completed nd nm fs tot r) of
              (Inl e, d1) \<Rightarrow> (Inl e, d1)
            | (Inr _, d1) \<Rightarrow> complete_loop flt others (Suc k) now nd nm fs tot rs d1)
      else complete_loop flt others k now nd nm fs tot rs d)"

definition complete :: "db_error faults \<Rightarrow> (nat \<Rightarrow> db \<Rightarrow> db) \<Rightarrow> nat \<Rightarrow> int \<Rightarrow> string \<Rightarrow> string \<Rightarrow> string \<Rightarrow> man_file list
    \<Rightarrow> int \<Rightarrow> db \<Rightarrow> (db_error + unit) \<times> db" where
  "complete flt others k now nd h nm mfs tot d0 =
     (let d = others k d0 in
      case run flt k (list_by_info_hash d h) of
        Inl e \<Rightarrow> (Inl e, d)
      | Inr sibs \<Rightarrow> complete_loop flt others (Suc k) now nd nm (job_files mfs) tot sibs d)"

text \<open>An operation on the job table.\<close>

definition on_db :: "(db \<Rightarrow> 'a \<times> db) \<Rightarrow> world \<Rightarrow> 'a \<times> world" where
  "on_db f w = (case f (cdb (w_cache w)) of (r, d) \<Rightarrow> (r, w\<lparr>w_cache := w_cache w\<lparr>cdb := d\<rparr>\<rparr>))"

definition complete_from_cache :: "publisher \<Rightarrow> db_error faults \<Rightarrow> bool \<Rightarrow> (nat \<Rightarrow> db \<Rightarrow> db) \<Rightarrow> int \<Rightarrow> string \<Rightarrow> string
    \<Rightarrow> world \<Rightarrow> bool \<times> go_error option \<times> world" where
  "complete_from_cache p flt get_fails others now nd h w =
     (case (if get_fails then None else w_mans w (store_for p nd) h) of
        None \<Rightarrow> (False, None, w)
      | Some None \<Rightarrow> (False, Some (OtherError ''manifest''), w)
      | Some (Some man) \<Rightarrow>
        (case on_db (complete flt others 0 now nd h (mn_name man) (mn_files man)
               (sum_list (map mf_size (mn_files man)))) w of
           (Inl e, w1) \<Rightarrow> (True, Some (OtherError ''update''), w1)
         | (Inr _, w1) \<Rightarrow> (True, None, w1)))"

definition refresh_dirs :: "string \<Rightarrow> string \<Rightarrow> bool \<Rightarrow> string list" where
  "refresh_dirs nd h wrote =
     (let prefix = (if nd = [] then ''box1'' else nd) in
      [h, prefix @ ''/'' @ h] @ (if wrote then [''blobs'', prefix @ ''/blobs''] else []))"

section \<open>Publish\<close>

text \<open>A worker's write of its job row, errors ignored.\<close>

definition write_job :: "db_error faults \<Rightarrow> (nat \<Rightarrow> db \<Rightarrow> db) \<Rightarrow> nat \<Rightarrow> int \<Rightarrow> job \<Rightarrow> world \<Rightarrow> world" where
  "write_job flt others k now j w = snd (on_db (\<lambda>d. update_job flt k now (others k d) j) w)"

text \<open>The node a release goes to.\<close>

definition publish_node :: "publisher \<Rightarrow> job \<Rightarrow> int \<Rightarrow> string" where
  "publish_node p j tot =
     (if \<not> remote p then p_node p
      else (case p_target p of None \<Rightarrow> node j
        | Some t \<Rightarrow> let n = t (source j) tot in if n \<noteq> [] then n else node j))"

definition incomplete :: "string \<Rightarrow> go_error" where
  "incomplete m = Fail \<lparr>fcode = ''incomplete'', fmsg = m\<rparr>"

text \<open>
  \<open>Publish\<close>; the job comes back as the caller's struct is left. Statement \<open>k\<close> writes the row,
  \<open>k + 1\<close> lists the siblings. The call to the caches is a notification and left out.
\<close>

definition publish :: "publisher \<Rightarrow> pub_faults \<Rightarrow> (nat \<Rightarrow> db \<Rightarrow> db) \<Rightarrow> nat \<Rightarrow> int \<Rightarrow> job \<Rightarrow> pub_file list \<Rightarrow> world
    \<Rightarrow> (go_error + unit) \<times> job \<times> world" where
  "publish p flt others k now j0 fs0 w0 =
     (case usable_files j0 fs0 (meter_download p (f_usage flt) j0 fs0 w0) of (fs, w1) \<Rightarrow>
      if fs = [] then (Inl (incomplete ''no valid files, likely a corrupt or partial download''), j0, w1)
      else
      let j = j0\<lparr>status := StatusPublishing, node := publish_node p j0 (sum_list (map pf_size fs))\<rparr>;
          w2 = write_job (f_db flt) others k now j w1;
          s = store_for p (node j) in
      (case publish_files p flt now s j 0 fs no_acc w2 of
         (Inl e, w3) \<Rightarrow> (Inl e, j, w3)
       | (Inr a, w3) \<Rightarrow>
         if pa_files a = [] then (Inl (incomplete ''no playable files, likely a corrupt or partial download''), j, w3)
         else (case check_runtime p j (pa_dur a) of
           Some e \<Rightarrow> (Inl e, j, w3)
         | None \<Rightarrow>
           let nm = (if jname j = [] then pf_name (hd fs) else jname j);
               man = \<lparr>mn_hash = info_hash j, mn_name = nm, mn_files = pa_files a\<rparr> in
           if f_manifest flt then (Inl (OtherError ''put''), j, w3)
           else let w4 = w3\<lparr>w_mans := (w_mans w3)(s := (w_mans w3 s)(info_hash j := Some (Some man)))\<rparr> in
             (case on_db (complete (f_db flt) others (Suc k) now (node j) (info_hash j) nm (pa_files a) (pa_total a)) w4 of
                (Inl e, w5) \<Rightarrow> (Inl (OtherError ''update''), j, w5)
              | (Inr _, w5) \<Rightarrow> (Inr (), j, w5)))))"

section \<open>Running a job\<close>

datatype job_event = JobComplete string string string | JobFailed string string

definition fails_sibling :: "job \<Rightarrow> job \<Rightarrow> bool" where
  "fails_sibling j r \<longleftrightarrow> jid r \<noteq> jid j \<and> status r \<noteq> StatusQueued \<and> status_active (status r) \<and> node r = node j"

fun fail_loop :: "db_error faults \<Rightarrow> (nat \<Rightarrow> db \<Rightarrow> db) \<Rightarrow> nat \<Rightarrow> int \<Rightarrow> job \<Rightarrow> string \<Rightarrow> job list \<Rightarrow> db \<Rightarrow> db" where
  "fail_loop flt others k now j msg [] d = d"
| "fail_loop flt others k now j msg (r # rs) d =
     (if fails_sibling j r
      then fail_loop flt others (Suc k) now j msg rs
             (snd (update_job flt k now (others k d) (r\<lparr>status := StatusFailed, jerror := msg\<rparr>)))
      else fail_loop flt others k now j msg rs d)"

definition fail_active_siblings :: "db_error faults \<Rightarrow> (nat \<Rightarrow> db \<Rightarrow> db) \<Rightarrow> nat \<Rightarrow> int \<Rightarrow> job \<Rightarrow> string \<Rightarrow> db \<Rightarrow> db" where
  "fail_active_siblings flt others k now j msg d0 =
     (let d = others k d0 in
      case run flt k (list_by_info_hash d (info_hash j)) of
        Inl e \<Rightarrow> d
      | Inr sibs \<Rightarrow> fail_loop flt others (Suc k) now j msg sibs d)"

definition fail_job :: "db_error faults \<Rightarrow> (nat \<Rightarrow> db \<Rightarrow> db) \<Rightarrow> nat \<Rightarrow> int \<Rightarrow> job \<Rightarrow> go_error option \<Rightarrow> db
    \<Rightarrow> job_event \<times> db" where
  "fail_job flt others k now j err d =
     (let msg = failure_message err; j' = j\<lparr>status := StatusFailed, jerror := msg\<rparr>;
          d1 = snd (update_job flt k now (others k d) j') in
      (JobFailed (jid j) msg, fail_active_siblings flt others (Suc k) now j' msg d1))"

definition complete_job :: "publisher \<Rightarrow> pub_faults \<Rightarrow> (nat \<Rightarrow> db \<Rightarrow> db) \<Rightarrow> nat \<Rightarrow> int \<Rightarrow> job \<Rightarrow> pub_file list \<Rightarrow> world
    \<Rightarrow> (go_error + job_event) \<times> job \<times> world" where
  "complete_job p flt others k now j fs w =
     (let j1 = j\<lparr>status := StatusProcessing\<rparr>; w1 = write_job (f_db flt) others k now j1 w in
      case publish p flt others (Suc k) now j1 fs w1 of
        (Inl e, j2, w2) \<Rightarrow> (Inl e, j2, w2)
      | (Inr _, j2, w2) \<Rightarrow> (Inr (JobComplete (jid j2) (info_hash j2) (node j2)), j2, w2))"

section \<open>Stores and tables\<close>

lemma add_blob_ref_cdb [simp]: "cdb (snd (add_blob_ref flt c h i ck sz e)) = cdb c"
  by (auto simp: add_blob_ref_def in_tx_def bindE_def run_def Let_def split: option.splits)

lemma snd_case_sum: "snd (case x of (Inl e, c) \<Rightarrow> (f e, c) | (Inr v, c) \<Rightarrow> (g v, c)) = snd x"
  by (cases x; cases "fst x") auto

lemma upload_cdb [simp]: "cdb (snd (upload pf ci now c key f)) = cdb c"
  by (auto simp: upload_def split: option.splits)

lemma blob_put_cdb [simp]: "cdb (snd (blob_put flt pf ci now c h i f ck key sz)) = cdb c"
proof -
  have "cdb (snd (case x of (Inl e, c1) \<Rightarrow> (Inl e, c1) | (Inr crc, c1) \<Rightarrow>
      (case add_blob_ref flt c1 h i ck sz enc of (Inl e, c2) \<Rightarrow> (Inl (IndexFailed e), c2)
       | (Inr _, c2) \<Rightarrow> (Inr (crc, enc, wr), c2)))) = cdb (snd x)"
    for x :: "(store_error + 32 word) \<times> cache" and flt enc and wr :: bool
    by (cases x; cases "fst x") (auto simp: snd_case_sum)
  then show ?thesis unfolding blob_put_def Let_def by simp
qed

lemma on_store_cdb:
  assumes "\<And>c. cdb (snd (f c)) = cdb c"
  shows "cdb (w_cache (snd (on_store s f w))) = cdb (w_cache w)"
  using assms [of "w_cache w\<lparr>objects := w_objs w s\<rparr>"] by (auto simp: on_store_def split: prod.splits)

lemma store_file_cdb [simp]: "cdb (w_cache (snd (store_file p flt now s j i f w))) = cdb (w_cache w)"
proof (cases "content_key_of (p_sha p) (w_disk w (pf_path f)) (pf_size f)")
  case (Some ck)
  let ?p = "on_store s (\<lambda>c. blob_put (f_blob flt i) (f_put flt i) (p_cipher p) now c (info_hash j) i
      (w_disk w (pf_path f)) ck (storage_key ck) (pf_size f)) w"
  have "cdb (w_cache (snd ?p)) = cdb (w_cache w)" by (rule on_store_cdb) simp
  with Some show ?thesis
    by (cases ?p; cases "fst ?p") (auto simp: store_file_def remove_file_def)
qed (simp add: store_file_def)

lemma remove_file_cache [simp]: "w_cache (remove_file path w) = w_cache w" "w_objs (remove_file path w) = w_objs w"
  "w_mans (remove_file path w) = w_mans w"
  by (simp_all add: remove_file_def)

lemma publish_files_cdb [simp]: "cdb (w_cache (snd (publish_files p flt now s j i fs a w))) = cdb (w_cache w)"
proof (induction fs arbitrary: i a w)
  case (Cons f fs)
  obtain r w1 where r: "store_file p flt now s j i f w = (r, w1)" "cdb (w_cache w1) = cdb (w_cache w)"
    using store_file_cdb [of p flt now s j i f w] by (cases "store_file p flt now s j i f w") auto
  show ?case
    by (cases "probe_file p f w"; cases r) (simp_all add: r Cons.IH split: prod.split)
qed simp

lemma usable_files_frame:
  "usable_files j fs w = (kept, w') \<Longrightarrow> w_cache w' = w_cache w \<and> w_objs w' = w_objs w \<and> w_mans w' = w_mans w"
  by (induction fs arbitrary: w kept) (auto split: if_splits prod.splits)

lemma meter_frame [simp]: "w_cache (meter_download p uf j fs w) = w_cache w" "w_objs (meter_download p uf j fs w) = w_objs w"
  "w_mans (meter_download p uf j fs w) = w_mans w" "w_disk (meter_download p uf j fs w) = w_disk w"
  by (simp_all add: meter_download_def meter_bytes_def)

section \<open>A worker's writes are steps of the queue\<close>

text \<open>
  Ids are UUIDs: \<open>hs\<close> gives the hash each id is issued to. While a worker has a job nobody else
  takes the row's slot away; the row itself may be deleted.
\<close>

definition issued :: "(string \<Rightarrow> string) \<Rightarrow> db \<Rightarrow> bool" where
  "issued hs d \<longleftrightarrow> (\<forall>r\<in>set (jobs_t d). info_hash r = hs (jid r))"

definition claimed :: "job \<Rightarrow> db \<Rightarrow> bool" where
  "claimed j d \<longleftrightarrow> (\<forall>r\<in>set (jobs_t d). jid r = jid j \<longrightarrow> seed j \<or> user_id r = user_id j \<and> holds_slot r)"

definition cooperative :: "(string \<Rightarrow> int) \<Rightarrow> (string \<Rightarrow> string) \<Rightarrow> job \<Rightarrow> (nat \<Rightarrow> db \<Rightarrow> db) \<Rightarrow> bool" where
  "cooperative lims hs j others \<longleftrightarrow> (\<forall>k d. issued hs d \<longrightarrow>
     (queue_step lims)\<^sup>*\<^sup>* d (others k d) \<and> issued hs (others k d) \<and> (claimed j d \<longrightarrow> claimed j (others k d)))"

lemma cooperativeD:
  assumes "cooperative lims hs j others" "issued hs d"
  shows "(queue_step lims)\<^sup>*\<^sup>* d (others k d)" "issued hs (others k d)" "claimed j d \<Longrightarrow> claimed j (others k d)"
  using assms by (auto simp: cooperative_def)

lemma update_job_snd:
  "snd (update_job flt k now d j) = d \<or>
   snd (update_job flt k now d j) = d\<lparr>jobs_t := upd_where (\<lambda>r. jid r = jid j) (updated_row now j) (jobs_t d)\<rparr>"
  by (auto simp: update_job_def in_tx_def run_def split: option.splits)

lemma updated_row_simps [simp]: "jid (updated_row now j r) = jid j" "info_hash (updated_row now j r) = info_hash j"
  "user_id (updated_row now j r) = user_id j" "holds_slot (updated_row now j r) = holds_slot j"
  by (simp_all add: updated_row_def holds_slot_def)

lemma update_job_issued:
  assumes "issued hs d" "info_hash j = hs (jid j)"
  shows "issued hs (snd (update_job flt k now d j))"
  using update_job_snd [of flt k now d j] assms by (auto simp: issued_def upd_where_def)

text \<open>One write, after what the others did.\<close>

lemma update_refines:
  assumes "cooperative lims hs j0 others" "issued hs d" "info_hash j = hs (jid j)"
    and "holds_slot j \<Longrightarrow> jid j = jid j0 \<and> user_id j = user_id j0 \<and> \<not> seed j0 \<and> claimed j0 d"
  shows "(queue_step lims)\<^sup>*\<^sup>* d (snd (update_job flt k now (others k d) j))"
    and "issued hs (snd (update_job flt k now (others k d) j))"
proof -
  note o = cooperativeD [OF assms(1,2), of k]
  have "info_hash r = info_hash j" if "r \<in> set (jobs_t (others k d))" "jid r = jid j" for r
    using o(2) that assms(3) by (simp add: issued_def)
  moreover have "user_id r = user_id j \<and> holds_slot r"
    if "r \<in> set (jobs_t (others k d))" "jid r = jid j" "holds_slot j" for r
  proof -
    have c: "jid j = jid j0" "user_id j = user_id j0" "\<not> seed j0" "claimed j0 (others k d)"
      using assms(4) [OF that(3)] o(3) by blast+
    have "jid r = jid j0" using that(2) c(1) by (rule trans)
    with c(3,4) that(1) have "user_id r = user_id j0 \<and> holds_slot r" unfolding claimed_def by blast
    with c(2) show ?thesis by (metis)
  qed
  ultimately have "worker_write (others k d) j" by (simp add: worker_write_def)
  then have "queue_step lims (others k d) (snd (update_job flt k now (others k d) j))"
    by (intro queue_step.worker [OF prod.collapse [symmetric]])
  with o(1) show "(queue_step lims)\<^sup>*\<^sup>* d (snd (update_job flt k now (others k d) j))" by simp
  show "issued hs (snd (update_job flt k now (others k d) j))"
    by (rule update_job_issued [OF o(2) assms(3)])
qed

lemma update_claimed:
  assumes "cooperative lims hs j0 others" "issued hs d" "claimed j0 d"
    and "jid j = jid j0" "user_id j = user_id j0" "seed j0 \<or> holds_slot j"
  shows "claimed j0 (snd (update_job flt k now (others k d) j))"
  using update_job_snd [of flt k now "others k d" j] cooperativeD(3) [OF assms(1,2,3), of k] assms(4-)
  by (auto simp: claimed_def upd_where_def)

lemma complete_loop_refines:
  assumes "cooperative lims hs j0 others" "issued hs d" "\<forall>r\<in>set rs. info_hash r = hs (jid r)"
  shows "(queue_step lims)\<^sup>*\<^sup>* d (snd (complete_loop flt others k now nd nm fs tot rs d))
    \<and> issued hs (snd (complete_loop flt others k now nd nm fs tot rs d))"
  using assms(2,3)
proof (induction rs arbitrary: d k)
  case (Cons r rs)
  show ?case
  proof (cases "completes nd r")
    case True
    let ?u = "update_job flt k now (others k d) (completed nd nm fs tot r)"
    have "(queue_step lims)\<^sup>*\<^sup>* d (snd ?u) \<and> issued hs (snd ?u)"
      using update_refines [OF assms(1) Cons.prems(1), of "completed nd nm fs tot r" flt k now] Cons.prems(2)
      by (simp add: completed_def holds_slot_def concurrency_statuses_def)
    moreover have "(queue_step lims)\<^sup>*\<^sup>* (snd ?u) (snd (complete_loop flt others (Suc k) now nd nm fs tot rs (snd ?u)))
        \<and> issued hs (snd (complete_loop flt others (Suc k) now nd nm fs tot rs (snd ?u)))"
      using Cons.IH [of "snd ?u" "Suc k"] Cons.prems calculation by simp
    ultimately show ?thesis using True by (auto split: prod.splits sum.splits intro: rtranclp_trans)
  next
    case False
    with Cons show ?thesis by simp
  qed
qed simp

lemma listed: "r \<in> set (list_by_info_hash d h) \<Longrightarrow> r \<in> set (jobs_t d)"
  by (simp add: list_by_info_hash_def)

lemma complete_refines:
  assumes "cooperative lims hs j0 others" "issued hs d"
  shows "(queue_step lims)\<^sup>*\<^sup>* d (snd (complete flt others k now nd h nm mfs tot d))
    \<and> issued hs (snd (complete flt others k now nd h nm mfs tot d))"
proof -
  note o = cooperativeD [OF assms, of k]
  have "\<forall>r\<in>set (list_by_info_hash (others k d) h). info_hash r = hs (jid r)"
    using o(2) listed by (auto simp: issued_def)
  from complete_loop_refines [OF assms(1) o(2) this] o show ?thesis
    by (auto simp: complete_def Let_def run_def intro: rtranclp_trans split: sum.splits option.splits)
qed

lemma fail_loop_refines:
  assumes "cooperative lims hs j0 others" "issued hs d" "\<forall>r\<in>set rs. info_hash r = hs (jid r)"
  shows "(queue_step lims)\<^sup>*\<^sup>* d (fail_loop flt others k now j msg rs d)"
  using assms(2,3)
proof (induction rs arbitrary: d k)
  case (Cons r rs)
  let ?f = "r\<lparr>status := StatusFailed, jerror := msg\<rparr>"
  have "(queue_step lims)\<^sup>*\<^sup>* d (snd (update_job flt k now (others k d) ?f))
      \<and> issued hs (snd (update_job flt k now (others k d) ?f))"
    using update_refines [OF assms(1) Cons.prems(1), of ?f flt k now] Cons.prems(2)
    by (simp add: holds_slot_def concurrency_statuses_def)
  with Cons.IH [of _ "Suc k"] Cons show ?case by (auto intro: rtranclp_trans)
qed simp

lemma fail_job_refines:
  assumes "cooperative lims hs j0 others" "issued hs d" "info_hash j = hs (jid j)"
  shows "(queue_step lims)\<^sup>*\<^sup>* d (snd (fail_job flt others k now j err d))"
proof -
  let ?j = "j\<lparr>status := StatusFailed, jerror := failure_message err\<rparr>"
  let ?d = "snd (update_job flt k now (others k d) ?j)"
  have u: "(queue_step lims)\<^sup>*\<^sup>* d ?d" "issued hs ?d"
    using update_refines [OF assms(1,2), of ?j flt k now] assms(3)
    by (simp_all add: holds_slot_def concurrency_statuses_def)
  note o = cooperativeD [OF assms(1) u(2), of "Suc k"]
  have "\<forall>r\<in>set (list_by_info_hash (others (Suc k) ?d) h). info_hash r = hs (jid r)" for h
    using o(2) listed by (auto simp: issued_def)
  from fail_loop_refines [OF assms(1) o(2) this] u(1) o(1) show ?thesis
    by (auto simp: fail_job_def fail_active_siblings_def Let_def run_def intro: rtranclp_trans
        split: sum.splits option.splits)
qed

lemma on_db_cdb [simp]: "cdb (w_cache (snd (on_db f w))) = snd (f (cdb (w_cache w)))"
  by (simp add: on_db_def split: prod.split)

lemma on_db_fst [simp]: "fst (on_db f w) = fst (f (cdb (w_cache w)))"
  by (simp add: on_db_def split: prod.split)

lemma write_job_cdb [simp]:
  "cdb (w_cache (write_job flt others k now j w)) = snd (update_job flt k now (others k (cdb (w_cache w))) j)"
  by (simp add: write_job_def)

text \<open>The tables at the end of \<open>Publish\<close>: as the row's write left them, or completed.\<close>

lemma publish_cdb:
  assumes "publish p flt others k now j0 fs0 w0 = (r, j, w)"
  obtains "cdb (w_cache w) = cdb (w_cache w0)" "j = j0" "\<exists>e. r = Inl e"
  | fs where "j = j0\<lparr>status := StatusPublishing, node := publish_node p j0 (sum_list (map pf_size fs))\<rparr>"
    "fst (usable_files j0 fs0 (meter_download p (f_usage flt) j0 fs0 w0)) = fs"
    "\<exists>e. r = Inl e"
    "cdb (w_cache w) = snd (update_job (f_db flt) k now (others k (cdb (w_cache w0))) j)"
  | fs nm mfs tot where "j = j0\<lparr>status := StatusPublishing, node := publish_node p j0 (sum_list (map pf_size fs))\<rparr>"
    "fst (usable_files j0 fs0 (meter_download p (f_usage flt) j0 fs0 w0)) = fs"
    "cdb (w_cache w) = snd (complete (f_db flt) others (Suc k) now (node j) (info_hash j) nm mfs tot
       (snd (update_job (f_db flt) k now (others k (cdb (w_cache w0))) j)))"
proof -
  obtain fs w1 where u: "usable_files j0 fs0 (meter_download p (f_usage flt) j0 fs0 w0) = (fs, w1)" by fastforce
  have w1: "cdb (w_cache w1) = cdb (w_cache w0)" using usable_files_frame [OF u] by simp
  show thesis
  proof (cases "fs = []")
    case True
    with assms u w1 show thesis by (intro that(1)) (auto simp: publish_def)
  next
    case False
    let ?j = "j0\<lparr>status := StatusPublishing, node := publish_node p j0 (sum_list (map pf_size fs))\<rparr>"
    let ?w2 = "write_job (f_db flt) others k now ?j w1"
    obtain r3 w3 where pf: "publish_files p flt now (store_for p (node ?j)) ?j 0 fs no_acc ?w2 = (r3, w3)" by fastforce
    have w3: "cdb (w_cache w3) = snd (update_job (f_db flt) k now (others k (cdb (w_cache w0))) ?j)"
      using arg_cong [OF pf, of "\<lambda>x. cdb (w_cache (snd x))"] w1 by simp
    note body = assms [unfolded publish_def Let_def u prod.case if_not_P [OF False] pf]
    have j: "j = ?j" using body by (auto split: sum.splits if_splits option.splits prod.splits)
    show thesis
    proof (cases "cdb (w_cache w) = cdb (w_cache w3) \<and> (\<exists>e. r = Inl e)")
      case True
      with j u w3 show thesis by (intro that(2) [of fs]) auto
    next
      case False
      then obtain a where a: "r3 = Inr a"
        using body by (cases r3) auto
      let ?c = "\<lambda>nm. on_db (complete (f_db flt) others (Suc k) now (node ?j) (info_hash ?j) nm (pa_files a) (pa_total a))
          (w3\<lparr>w_mans := (w_mans w3)(store_for p (node ?j) := (w_mans w3 (store_for p (node ?j)))
             (info_hash ?j := Some (Some \<lparr>mn_hash = info_hash ?j, mn_name = nm, mn_files = pa_files a\<rparr>)))\<rparr>)"
      have "\<exists>nm x. ?c nm = (x, w)"
        using body False unfolding a by (auto split: if_splits option.splits prod.splits sum.splits)
      then obtain nm x where c: "?c nm = (x, w)" by blast
      have "cdb (w_cache w) = cdb (w_cache (snd (?c nm)))" by (simp only: c snd_conv)
      also have "\<dots> = snd (complete (f_db flt) others (Suc k) now (node ?j) (info_hash ?j) nm
          (pa_files a) (pa_total a) (cdb (w_cache w3)))" by simp
      finally have "cdb (w_cache w) = snd (complete (f_db flt) others (Suc k) now (node ?j) (info_hash ?j) nm
          (pa_files a) (pa_total a) (cdb (w_cache w3)))" .
      with j u w3 show thesis by (intro that(3) [of fs nm "pa_files a" "pa_total a"]) auto
    qed
  qed
qed

text \<open>The row of a job the worker was given: id, owner, hash and seeding are those of \<open>j0\<close>.\<close>

definition same_row :: "job \<Rightarrow> job \<Rightarrow> bool" where
  "same_row j0 j \<longleftrightarrow> jid j = jid j0 \<and> user_id j = user_id j0 \<and> info_hash j = info_hash j0 \<and> seed j = seed j0"

lemma publish_refines:
  assumes co: "cooperative lims hs j0 others" "issued hs (cdb (w_cache w0))" "claimed j0 (cdb (w_cache w0))"
    and j: "same_row j0 j" "info_hash j0 = hs (jid j0)" and pub: "publish p flt others k now j fs0 w0 = (r, j', w)"
  shows "(queue_step lims)\<^sup>*\<^sup>* (cdb (w_cache w0)) (cdb (w_cache w)) \<and> issued hs (cdb (w_cache w)) \<and> same_row j0 j'"
proof -
  have up: "(queue_step lims)\<^sup>*\<^sup>* (cdb (w_cache w0)) (snd (update_job (f_db flt) k now (others k (cdb (w_cache w0))) x))"
      "issued hs (snd (update_job (f_db flt) k now (others k (cdb (w_cache w0))) x))"
    if "same_row j0 x" for x
    using update_refines [OF co(1,2), of x "f_db flt" k now] that j co(3)
    by (auto simp: same_row_def holds_slot_def)
  from pub show ?thesis
  proof (rule publish_cdb)
    assume "cdb (w_cache w) = cdb (w_cache w0)" "j' = j"
    with co j show ?thesis by simp
  next
    fix fs
    assume "j' = j\<lparr>status := StatusPublishing, node := publish_node p j (sum_list (map pf_size fs))\<rparr>"
      and d: "cdb (w_cache w) = snd (update_job (f_db flt) k now (others k (cdb (w_cache w0))) j')"
    then have "same_row j0 j'" using j by (simp add: same_row_def)
    with up [OF this] d show ?thesis by simp
  next
    fix fs nm mfs tot
    assume "j' = j\<lparr>status := StatusPublishing, node := publish_node p j (sum_list (map pf_size fs))\<rparr>"
      and d: "cdb (w_cache w) = snd (complete (f_db flt) others (Suc k) now (node j') (info_hash j') nm mfs tot
         (snd (update_job (f_db flt) k now (others k (cdb (w_cache w0))) j')))"
    then have s: "same_row j0 j'" using j by (simp add: same_row_def)
    from complete_refines [OF co(1) up(2) [OF s]] up(1) [OF s] d s show ?thesis
      by (auto intro: rtranclp_trans)
  qed
qed

lemma complete_job_refines:
  assumes co: "cooperative lims hs j others" "issued hs (cdb (w_cache w0))" "claimed j (cdb (w_cache w0))"
    and j: "info_hash j = hs (jid j)" and run: "complete_job p flt others k now j fs0 w0 = (r, j', w)"
  shows "(queue_step lims)\<^sup>*\<^sup>* (cdb (w_cache w0)) (cdb (w_cache w)) \<and> issued hs (cdb (w_cache w)) \<and> same_row j j'"
proof -
  let ?j = "j\<lparr>status := StatusProcessing\<rparr>"
  let ?w = "write_job (f_db flt) others k now ?j w0"
  have up: "(queue_step lims)\<^sup>*\<^sup>* (cdb (w_cache w0)) (cdb (w_cache ?w))" "issued hs (cdb (w_cache ?w))"
    using update_refines [OF co(1,2), of ?j "f_db flt" k now] j co(3) by (auto simp: holds_slot_def)
  have cl: "claimed j (cdb (w_cache ?w))"
    using update_claimed [OF co, of ?j "f_db flt" k now] by (auto simp: holds_slot_def concurrency_statuses_def)
  obtain r' where "publish p flt others (Suc k) now ?j fs0 ?w = (r', j', w)"
    using run by (auto simp: complete_job_def Let_def split: prod.splits sum.splits)
  from publish_refines [OF co(1) up(2) cl _ j this] up(1) show ?thesis
    by (auto simp: same_row_def intro: rtranclp_trans)
qed

section \<open>Running a download to its end\<close>

text \<open>The tail shared by the runners: complete the job, or fail it with its siblings.\<close>

definition finish_job :: "publisher \<Rightarrow> pub_faults \<Rightarrow> (nat \<Rightarrow> db \<Rightarrow> db) \<Rightarrow> (nat \<Rightarrow> db \<Rightarrow> db) \<Rightarrow> int \<Rightarrow> job \<Rightarrow> pub_file list \<Rightarrow> world
    \<Rightarrow> job_event \<times> world" where
  "finish_job p flt others others' now j fs w =
     (case complete_job p flt others 0 now j fs w of
        (Inr e, j', w') \<Rightarrow> (e, w')
      | (Inl err, j', w') \<Rightarrow> on_db (fail_job (f_db flt) others' 0 now j' (Some err)) w')"

lemma cooperative_same_row: "cooperative lims hs j others \<Longrightarrow> same_row j j' \<Longrightarrow> cooperative lims hs j' others"
  by (simp add: cooperative_def claimed_def same_row_def)

lemma finish_job_refines:
  assumes co: "cooperative lims hs j others" "cooperative lims hs j others'"
    and "issued hs (cdb (w_cache w0))" "claimed j (cdb (w_cache w0))" and "info_hash j = hs (jid j)"
  shows "(queue_step lims)\<^sup>*\<^sup>* (cdb (w_cache w0)) (cdb (w_cache (snd (finish_job p flt others others' now j fs w0))))"
proof -
  obtain r j' w where run: "complete_job p flt others 0 now j fs w0 = (r, j', w)" using prod_cases3 by blast
  note c = complete_job_refines [OF co(1) assms(3-5) run]
  have "(queue_step lims)\<^sup>*\<^sup>* (cdb (w_cache w)) (snd (fail_job (f_db flt) others' 0 now j' e (cdb (w_cache w))))" for e
    using fail_job_refines [OF cooperative_same_row [OF co(2)], of j' "cdb (w_cache w)"] c assms(5)
    by (simp add: same_row_def)
  with c run show ?thesis
    by (cases r) (auto simp: finish_job_def intro: rtranclp_trans)
qed

section \<open>What a publication leaves\<close>

lemma slash_not_hex: "\<forall>b\<in>set bs. b < 256 \<Longrightarrow> CHR ''/'' \<notin> set (hex_encode bs)"
proof (induction bs)
  case (Cons b bs)
  have "hex_digit n \<noteq> CHR ''/''" if "n < 16" for n
    using hex_digit_is_hex [OF that] by (auto simp: is_hex_def is_digit_def in_range_def code_of_def)
  with Cons show ?case by (auto simp: div_less_iff_less_mult less_mult_imp_div_less eq_commute [of "CHR ''/''"])
qed simp

lemma sha_name_wf: "sha_name sha bs \<noteq> []" "CHR ''/'' \<notin> set (sha_name sha bs)"
proof -
  have "\<forall>b\<in>set (map unat (sha bs)). b < 256"
  proof
    fix b assume "b \<in> set (map unat (sha bs))"
    then obtain x :: byte where "b = unat x" by auto
    then show "b < 256" using unsigned_less [of x] by simp
  qed
  from slash_not_hex [OF this] show "sha_name sha bs \<noteq> []" "CHR ''/'' \<notin> set (sha_name sha bs)"
    by (simp_all add: sha_name_def)
qed

lemma content_key_wf: "content_key_of sha f sz = Some ck \<Longrightarrow> ck \<noteq> [] \<and> CHR ''/'' \<notin> set ck"
  by (auto simp: content_key_of_def Let_def sha_name_wf split: option.splits if_splits)

text \<open>A file of the manifest is stored: its object is there and a reference of the release names it.\<close>

definition file_stored :: "string \<Rightarrow> nat \<Rightarrow> string option \<Rightarrow> world \<Rightarrow> man_file \<Rightarrow> bool" where
  "file_stored h n s w mf \<longleftrightarrow> (\<exists>ck idx. mf_url mf = storage_key ck \<and> ck \<noteq> [] \<and> CHR ''/'' \<notin> set ck \<and> idx < n
     \<and> \<lparr>ref_hash = h, ref_index = idx, ref_key = ck\<rparr> \<in> set (refs_t (w_cache w))
     \<and> storage_key ck \<in> okey ` set (w_objs w s))"

lemma file_stored_cong:
  "refs_t (w_cache w') = refs_t (w_cache w) \<Longrightarrow> w_objs w' s = w_objs w s \<Longrightarrow> file_stored h n s w' mf = file_stored h n s w mf"
  by (simp add: file_stored_def)

lemma store_file_Inr:
  assumes "store_file p flt now s j i f w = (Inr (mf, wrote), w1)"
  shows "file_stored (info_hash j) (Suc i) s w1 mf"
    and "file_stored (info_hash j) i s w mf0 \<Longrightarrow> file_stored (info_hash j) (Suc i) s w1 mf0"
proof -
  obtain ck where ck: "content_key_of (p_sha p) (w_disk w (pf_path f)) (pf_size f) = Some ck"
    using assms by (cases "content_key_of (p_sha p) (w_disk w (pf_path f)) (pf_size f)") (auto simp: store_file_def)
  define put where "put = (\<lambda>c. blob_put (f_blob flt i) (f_put flt i) (p_cipher p) now c (info_hash j) i
    (w_disk w (pf_path f)) ck (storage_key ck) (pf_size f))"
  obtain r c2 where put: "put (w_cache w\<lparr>objects := w_objs w s\<rparr>) = (r, c2)" by fastforce
  have st: "on_store s put w = (r, w\<lparr>w_cache := c2, w_objs := (w_objs w)(s := objects c2)\<rparr>)"
    by (simp add: on_store_def put)
  obtain crc enc where r: "r = Inr (crc, enc, wrote)" and mf: "mf_url mf = storage_key ck"
    and w1: "w_cache w1 = c2" "w_objs w1 s = objects c2"
    using assms st by (auto simp: store_file_def ck put_def split: sum.splits)
  note b = blob_put_Inr [OF put [unfolded put_def r]]
  from b(2,3) w1 mf content_key_wf [OF ck] show "file_stored (info_hash j) (Suc i) s w1 mf"
    unfolding file_stored_def by auto
  assume "file_stored (info_hash j) i s w mf0"
  then obtain ck0 idx where "mf_url mf0 = storage_key ck0" "ck0 \<noteq> []" "CHR ''/'' \<notin> set ck0" "idx < i"
      "\<lparr>ref_hash = info_hash j, ref_index = idx, ref_key = ck0\<rparr> \<in> set (refs_t (w_cache w))"
      "storage_key ck0 \<in> okey ` set (w_objs w s)"
    by (auto simp: file_stored_def)
  moreover from this have "\<lparr>ref_hash = info_hash j, ref_index = idx, ref_key = ck0\<rparr> \<in> set (refs_t c2)"
    by (intro b(7)) auto
  ultimately show "file_stored (info_hash j) (Suc i) s w1 mf0"
    unfolding file_stored_def w1 b(2) using less_SucI by (intro exI [of _ ck0] exI [of _ idx]) simp
qed

lemma publish_files_stored:
  "publish_files p flt now s j i fs a w = (Inr a', w') \<Longrightarrow> \<forall>mf\<in>set (pa_files a). file_stored (info_hash j) i s w mf \<Longrightarrow>
     \<forall>mf\<in>set (pa_files a'). file_stored (info_hash j) (i + length fs) s w' mf"
proof (induction fs arbitrary: i a w)
  case (Cons f fs)
  have grow: "file_stored (info_hash j) (Suc i) s w mf" if "file_stored (info_hash j) i s w mf" for mf
    using that less_SucI unfolding file_stored_def by blast
  show ?case
  proof (cases "probe_file p f w")
    case None
    have "file_stored (info_hash j) (Suc i) s (if seed j then w else remove_file (pf_path f) w) mf"
      if "mf \<in> set (pa_files a)" for mf
      using grow [of mf] Cons.prems(2) that file_stored_cong [of "remove_file (pf_path f) w" w] by simp
    with Cons.IH [of "Suc i" a] Cons.prems(1) None show ?thesis by simp
  next
    case (Some d)
    then obtain mf wrote w1 where st: "store_file p flt now s j i f w = (Inr (mf, wrote), w1)"
      using Cons.prems(1) by (auto split: sum.splits prod.splits)
    from store_file_Inr [OF st] Cons.prems(2) Cons.IH [of "Suc i"] Cons.prems(1) Some show ?thesis
      by (auto simp: st)
  qed
qed simp

text \<open>Publish on success: the manifest written, and the world its files were stored in.\<close>

lemma publish_Inr:
  assumes "publish p flt others k now j0 fs0 w0 = (Inr (), j, w)"
  obtains a nm fs w2 w3 where
    "publish_files p flt now (store_for p (node j)) j 0 fs no_acc w2 = (Inr a, w3)" "pa_files a \<noteq> []"
    "w_mans w (store_for p (node j)) (info_hash j) = Some (Some \<lparr>mn_hash = info_hash j, mn_name = nm, mn_files = pa_files a\<rparr>)"
    "refs_t (w_cache w) = refs_t (w_cache w3)" "w_objs w = w_objs w3"
proof -
  obtain fs w1 where u: "usable_files j0 fs0 (meter_download p (f_usage flt) j0 fs0 w0) = (fs, w1)" by fastforce
  have ne: "fs \<noteq> []" using assms by (auto simp: publish_def u)
  let ?j = "j0\<lparr>status := StatusPublishing, node := publish_node p j0 (sum_list (map pf_size fs))\<rparr>"
  let ?w2 = "write_job (f_db flt) others k now ?j w1"
  let ?s = "store_for p (node ?j)"
  obtain r3 w3 where pf: "publish_files p flt now ?s ?j 0 fs no_acc ?w2 = (r3, w3)" by fastforce
  note body = assms [unfolded publish_def Let_def u prod.case if_not_P [OF ne] pf]
  have j: "j = ?j" using body by (auto split: sum.splits if_splits option.splits prod.splits)
  obtain a where a: "r3 = Inr a" using body by (cases r3) auto
  let ?nm = "if jname ?j = [] then pf_name (hd fs) else jname ?j"
  let ?w4 = "w3\<lparr>w_mans := (w_mans w3)(?s := (w_mans w3 ?s)(info_hash ?j :=
     Some (Some \<lparr>mn_hash = info_hash ?j, mn_name = ?nm, mn_files = pa_files a\<rparr>)))\<rparr>"
  let ?c = "on_db (complete (f_db flt) others (Suc k) now (node ?j) (info_hash ?j) ?nm (pa_files a) (pa_total a)) ?w4"
  have ne: "pa_files a \<noteq> []" and c: "snd ?c = w"
    using body unfolding a by (auto split: if_splits option.splits prod.splits sum.splits)
  have m: "w_mans w = w_mans ?w4" "refs_t (w_cache w) = refs_t (w_cache w3)" "w_objs w = w_objs w3"
    unfolding c [symmetric] by (simp_all add: on_db_def split: prod.split)
  show thesis
  proof (rule that [OF _ ne _ m(2,3)])
    show "publish_files p flt now (store_for p (node j)) j 0 fs no_acc ?w2 = (Inr a, w3)"
      using pf unfolding a j .
    show "w_mans w (store_for p (node j)) (info_hash j)
        = Some (Some \<lparr>mn_hash = info_hash j, mn_name = ?nm, mn_files = pa_files a\<rparr>)"
      unfolding m(1) j by simp
  qed
qed

section \<open>Completing every row\<close>

lemma completed_simps [simp]: "jid (completed nd nm fs tot r) = jid r"
  "info_hash (completed nd nm fs tot r) = info_hash r" "status (completed nd nm fs tot r) = StatusComplete"
  by (simp_all add: completed_def)

lemma completed_key:
  "completes nd r \<Longrightarrow> jid (completed nd nm fs tot r) = jid r"
  "has_live_user_identity (completed nd nm fs tot r) \<Longrightarrow> completes nd r \<Longrightarrow> same_live_key (completed nd nm fs tot r) r"
  by (auto simp: completed_def completes_def same_live_key_def has_live_user_identity_def)

text \<open>One write of a row that was read: it succeeds and rewrites that row only.\<close>

definition keeps_key :: "(job \<Rightarrow> job) \<Rightarrow> job \<Rightarrow> bool" where
  "keeps_key g r \<longleftrightarrow> jid (g r) = jid r \<and> info_hash (g r) = info_hash r
     \<and> (has_live_user_identity (g r) \<longrightarrow> same_live_key (g r) r)"

definition rewrite :: "int \<Rightarrow> (job \<Rightarrow> job) \<Rightarrow> (job \<Rightarrow> bool) \<Rightarrow> db \<Rightarrow> db" where
  "rewrite now g sel d = d\<lparr>jobs_t := map (\<lambda>x. if sel x then updated_row now (g x) x else x) (jobs_t d)\<rparr>"

lemma update_one:
  assumes "store_ok d" "r \<in> set (jobs_t d)" "keeps_key g r"
  shows "update_job no_faults k now d (g r) = (Inr (), rewrite now g (\<lambda>x. jid x = jid r) d)"
    and "store_ok (rewrite now g (\<lambda>x. jid x = jid r) d)"
proof -
  have g: "jid (g r) = jid r" "info_hash (g r) = info_hash r" using assms(3) by (auto simp: keeps_key_def)
  have live: "\<not> live_conflict (jobs_t d) (g r)"
    by (rule live_conflict_same_key [OF assms(1,2)]) (use assms(3) in \<open>auto simp: keeps_key_def\<close>)
  have eq: "rewrite now g (\<lambda>x. jid x = jid r) d = d\<lparr>jobs_t := upd_where (\<lambda>x. jid x = jid r) (updated_row now (g r)) (jobs_t d)\<rparr>"
    unfolding rewrite_def upd_where_def using jid_unique [OF assms(1) _ assms(2)]
    by (intro arg_cong [where f = "\<lambda>l. d\<lparr>jobs_t := l\<rparr>"] map_cong) auto
  have "list_ex (\<lambda>x. jid x = jid r) (jobs_t d)" using assms(2) by (auto simp: list_ex_iff)
  then show "update_job no_faults k now d (g r) = (Inr (), rewrite now g (\<lambda>x. jid x = jid r) d)"
    using live by (simp add: update_job_def eq g)
  have c: "live_conflict (jobs_t d) (updated_row now (g r) x) = live_conflict (jobs_t d) (g r)" for x
    by (simp add: live_conflict_def same_live_key_def has_live_user_identity_def updated_row_def)
  show "store_ok (rewrite now g (\<lambda>x. jid x = jid r) d)"
    unfolding eq
    by (rule store_ok_update [OF assms(1), where i = "jid r"])
      (use jid_unique [OF assms(1) _ assms(2)] live in \<open>auto simp: c g\<close>)
qed

lemma keeps_key_completed: "completes nd r \<Longrightarrow> keeps_key (completed nd nm fs tot) r"
  using completed_key by (simp add: keeps_key_def)

text \<open>The rest of a list of rows is still in the table after one of them was rewritten.\<close>

lemma rewrite_rest:
  assumes "set (r # rs) \<subseteq> set (jobs_t d)" "distinct (map jid (r # rs))"
  shows "set rs \<subseteq> set (jobs_t (rewrite now g (\<lambda>x. jid x = jid r) d))"
proof
  fix x assume "x \<in> set rs"
  with assms have "x \<in> set (jobs_t d)" "jid x \<noteq> jid r" by (auto simp: image_iff)
  then show "x \<in> set (jobs_t (rewrite now g (\<lambda>x. jid x = jid r) d))"
    by (auto simp: rewrite_def intro!: rev_image_eqI)
qed

lemma rewrite_rewrite:
  assumes "\<And>x. jid (g x) = jid x" and "jid r \<notin> jid ` {y\<in>set rs. P y}"
  shows "rewrite now g (\<lambda>x. \<exists>y\<in>set rs. P y \<and> jid y = jid x) (rewrite now g (\<lambda>x. jid x = jid r) d)
    = rewrite now g (\<lambda>x. jid x = jid r \<or> (\<exists>y\<in>set rs. P y \<and> jid y = jid x)) d"
proof -
  have "jid y \<noteq> jid r" if "y \<in> set rs" "P y" for y
  proof
    assume "jid y = jid r"
    then have "jid r \<in> jid ` {y \<in> set rs. P y}" using that by (intro rev_image_eqI [of y]) auto
    with assms(2) show False by contradiction
  qed
  then show ?thesis
    using assms(1) by (auto simp: rewrite_def comp_def intro!: arg_cong [where f = "\<lambda>l. d\<lparr>jobs_t := l\<rparr>"] map_cong)
qed

lemma complete_loop_exact:
  assumes "store_ok d" "set rs \<subseteq> set (jobs_t d)" "distinct (map jid rs)"
  shows "complete_loop no_faults (\<lambda>_ d. d) k now nd nm fs tot rs d =
    (Inr (), rewrite now (completed nd nm fs tot) (\<lambda>x. \<exists>r\<in>set rs. completes nd r \<and> jid r = jid x) d)"
  using assms
proof (induction rs arbitrary: d k)
  case Nil
  then show ?case by (simp add: rewrite_def)
next
  case (Cons r rs)
  show ?case
  proof (cases "completes nd r")
    case False
    with Cons show ?thesis by simp
  next
    case True
    define d' where "d' = rewrite now (completed nd nm fs tot) (\<lambda>x. jid x = jid r) d"
    have "r \<in> set (jobs_t d)" using Cons.prems(2) by simp
    note one = update_one [where now = now, OF Cons.prems(1) this keeps_key_completed [OF True, of nm fs tot], folded d'_def]
    have "set rs \<subseteq> set (jobs_t d')" unfolding d'_def by (rule rewrite_rest [OF Cons.prems(2,3)])
    note IH = Cons.IH [OF one(2) this, of "Suc k"]
    have "complete_loop no_faults (\<lambda>_ d. d) k now nd nm fs tot (r # rs) d =
        complete_loop no_faults (\<lambda>_ d. d) (Suc k) now nd nm fs tot rs d'"
      unfolding complete_loop.simps if_P [OF True] one(1) by simp
    also have "\<dots> = (Inr (), rewrite now (completed nd nm fs tot) (\<lambda>x. \<exists>y\<in>set rs. completes nd y \<and> jid y = jid x) d')"
      using Cons.prems(3) by (intro IH) simp
    also have "rewrite now (completed nd nm fs tot) (\<lambda>x. \<exists>y\<in>set rs. completes nd y \<and> jid y = jid x) d' =
        rewrite now (completed nd nm fs tot) (\<lambda>x. \<exists>y\<in>set (r # rs). completes nd y \<and> jid y = jid x) d"
      unfolding d'_def by (subst rewrite_rewrite) (use Cons.prems(3) True in \<open>auto simp: eq_commute\<close>)
    finally show ?thesis .
  qed
qed

definition failed_row :: "string \<Rightarrow> job \<Rightarrow> job" where
  "failed_row msg r = r\<lparr>status := StatusFailed, jerror := msg\<rparr>"

lemma failed_row_simps [simp]: "jid (failed_row msg r) = jid r" "status (failed_row msg r) = StatusFailed"
  by (simp_all add: failed_row_def)

lemma keeps_key_failed: "keeps_key (failed_row msg) r"
  by (simp add: keeps_key_def failed_row_def has_live_user_identity_def)

lemma fail_loop_exact:
  assumes "store_ok d" "set rs \<subseteq> set (jobs_t d)" "distinct (map jid rs)"
  shows "fail_loop no_faults (\<lambda>_ d. d) k now j msg rs d =
    rewrite now (failed_row msg) (\<lambda>x. \<exists>r\<in>set rs. fails_sibling j r \<and> jid r = jid x) d"
  using assms
proof (induction rs arbitrary: d k)
  case Nil
  then show ?case by (simp add: rewrite_def)
next
  case (Cons r rs)
  show ?case
  proof (cases "fails_sibling j r")
    case False
    with Cons show ?thesis by simp
  next
    case True
    define d' where "d' = rewrite now (failed_row msg) (\<lambda>x. jid x = jid r) d"
    have "r \<in> set (jobs_t d)" using Cons.prems(2) by simp
    note one = update_one [where now = now, OF Cons.prems(1) this keeps_key_failed [of msg], folded d'_def]
    have "set rs \<subseteq> set (jobs_t d')" unfolding d'_def by (rule rewrite_rest [OF Cons.prems(2,3)])
    note IH = Cons.IH [OF one(2) this, of "Suc k"]
    have "fail_loop no_faults (\<lambda>_ d. d) k now j msg (r # rs) d = fail_loop no_faults (\<lambda>_ d. d) (Suc k) now j msg rs d'"
      unfolding fail_loop.simps if_P [OF True] failed_row_def [symmetric] one(1) by simp
    also have "\<dots> = rewrite now (failed_row msg) (\<lambda>x. \<exists>y\<in>set rs. fails_sibling j y \<and> jid y = jid x) d'"
      using Cons.prems(3) by (intro IH) simp
    also have "\<dots> = rewrite now (failed_row msg) (\<lambda>x. \<exists>y\<in>set (r # rs). fails_sibling j y \<and> jid y = jid x) d"
      unfolding d'_def by (subst rewrite_rewrite) (use Cons.prems(3) True in \<open>auto simp: eq_commute\<close>)
    finally show ?thesis .
  qed
qed

text \<open>Without failures, failing a job fails its row and the active rows of its hash on its node.\<close>

lemma fail_job_fails:
  assumes st: "store_ok d" and j: "j \<in> set (jobs_t d)" and r: "r \<in> set (jobs_t d)"
    "to_lower (info_hash r) = to_lower (info_hash j)" "r = j \<or> fails_sibling j r"
  shows "\<exists>r'\<in>set (jobs_t (snd (fail_job no_faults (\<lambda>_ d. d) 0 now j err d))). jid r' = jid r \<and> status r' = StatusFailed"
proof -
  define m where "m = failure_message err"
  define d2 where "d2 = rewrite now (failed_row m) (\<lambda>x. jid x = jid j) d"
  note one = update_one [where now = now, OF st j keeps_key_failed [of m], folded d2_def]
  define hit where "hit x \<longleftrightarrow> (\<exists>r\<in>set (list_by_info_hash d2 (info_hash j)). fails_sibling (failed_row m j) r \<and> jid r = jid x)" for x :: job
  have "distinct (map jid (list_by_info_hash d2 (info_hash j)))"
    using store_okD(1) [OF one(2)] by (simp add: list_by_info_hash_def distinct_map_filter)
  from fail_loop_exact [OF one(2) _ this]
  have fj: "snd (fail_job no_faults (\<lambda>_ d. d) 0 now j err d) = rewrite now (failed_row m) hit d2"
    by (simp add: fail_job_def fail_active_siblings_def Let_def m_def [symmetric] failed_row_def [symmetric] one(1)
        subset_iff listed) (simp add: failed_row_def hit_def [abs_def])
  have in2: "(if hit x then updated_row now (failed_row m x) x else x) \<in> set (jobs_t (rewrite now (failed_row m) hit d2))"
    if "x \<in> set (jobs_t d2)" for x
    using that by (auto simp: rewrite_def)
  show ?thesis unfolding fj
  proof (cases "r = j")
    case True
    let ?x = "updated_row now (failed_row m j) j"
    have "?x \<in> set (jobs_t d2)" using j unfolding d2_def rewrite_def by force
    moreover have "\<not> hit ?x" by (auto simp: fails_sibling_def hit_def)
    ultimately have "?x \<in> set (jobs_t (rewrite now (failed_row m) hit d2))" using in2 by fastforce
    then show "\<exists>r'\<in>set (jobs_t (rewrite now (failed_row m) hit d2)). jid r' = jid r \<and> status r' = StatusFailed"
      using True by (intro bexI [of _ ?x]) (simp_all add: updated_row_def)
  next
    case False
    then have f: "jid r \<noteq> jid j" "fails_sibling (failed_row m j) r"
      using r(3) by (auto simp: fails_sibling_def failed_row_def)
    then have r2: "r \<in> set (jobs_t d2)" using r(1) by (force simp: d2_def rewrite_def)
    then have "hit r" using f r(2) by (auto simp: hit_def list_by_info_hash_def)
    then show "\<exists>r'\<in>set (jobs_t (rewrite now (failed_row m) hit d2)). jid r' = jid r \<and> status r' = StatusFailed"
      using in2 [OF r2] by (intro bexI [of _ "updated_row now (failed_row m r) r"]) (simp_all add: updated_row_def)
  qed
qed

lemma complete_rows:
  assumes "store_ok d"
  shows "complete no_faults (\<lambda>_ d. d) k now nd h nm mfs tot d = (Inr (), d\<lparr>jobs_t :=
    map (\<lambda>r. if to_lower (info_hash r) = to_lower h \<and> completes nd r
          then updated_row now (completed nd nm (job_files mfs) tot r) r else r) (jobs_t d)\<rparr>)"
proof -
  have d: "distinct (map jid (jobs_t d))" by (rule store_okD(1) [OF assms])
  have "(\<exists>r\<in>set (list_by_info_hash d h). completes nd r \<and> jid r = jid x)
      \<longleftrightarrow> to_lower (info_hash x) = to_lower h \<and> completes nd x" if "x \<in> set (jobs_t d)" for x
    using jid_unique [OF assms _ that] that by (auto simp: list_by_info_hash_def)
  then have "rewrite now (completed nd nm (job_files mfs) tot) (\<lambda>x. \<exists>r\<in>set (list_by_info_hash d h). completes nd r \<and> jid r = jid x) d
      = d\<lparr>jobs_t := map (\<lambda>r. if to_lower (info_hash r) = to_lower h \<and> completes nd r
          then updated_row now (completed nd nm (job_files mfs) tot r) r else r) (jobs_t d)\<rparr>"
    by (auto simp: rewrite_def intro!: arg_cong [where f = "\<lambda>l. d\<lparr>jobs_t := l\<rparr>"] map_cong)
  moreover have "distinct (map jid (list_by_info_hash d h))"
    using d by (simp add: list_by_info_hash_def distinct_map_filter)
  ultimately show ?thesis
    using complete_loop_exact [OF assms, of "list_by_info_hash d h"]
    by (simp add: complete_def list_by_info_hash_def)
qed

section \<open>A worker with one finished file\<close>

definition sample_row :: job where
  "sample_row = sample_job\<lparr>info_hash := ''ab'', status := StatusPending, created_at := 5, updated_at := 5\<rparr>"

definition sample_publisher :: publisher where
  "sample_publisher = \<lparr>p_node = [], p_nodes = [], p_cipher = None, p_verify = True, p_usage = False,
     p_runtime = None, p_target = None, p_probe = (\<lambda>_. None), p_sha = (\<lambda>_. [])\<rparr>"

definition sample_world :: world where
  "sample_world = \<lparr>w_cache = \<lparr>cdb = \<lparr>jobs_t = [sample_row]\<rparr>,
     blobs_t = [], refs_t = [], views_t = [], user_cairns_t = [], archives_t = [], objects = []\<rparr>, w_objs = (\<lambda>_. []),
     w_mans = (\<lambda>_ _. None), w_disk = (\<lambda>_. Some [1, 2]), w_usage = [], w_tallied = False\<rparr>"

definition sample_file :: pub_file where
  "sample_file = \<lparr>pf_name = ''a.bin'', pf_path = ''p'', pf_size = 1500000\<rparr>"

lemma blob_put_ok: "\<exists>r c1. blob_put no_faults no_put_faults None now c h idx (Some bs) ck key sz = (Inr r, c1)"
proof -
  define next_c where "next_c c e = snd (add_blob_ref (after 1 no_faults) c h idx ck sz e)" for c e
  have "\<exists>c2. add_blob_ref (after 1 no_faults) c h idx ck sz e = (Inr (), c2)" for c e
    by (auto simp: add_blob_ref_def Let_def)
  then have add: "add_blob_ref (after 1 no_faults) c h idx ck sz e = (Inr (), next_c c e)" for c e
    unfolding next_c_def by (metis snd_conv)
  have up: "upload no_put_faults None now c key (Some bs) = (Inr (crc32 bs), put_object key (int (length bs)) now c)"
      "crc_file no_put_faults (Some bs) = Inr (crc32 bs)"
    by (simp_all add: upload_def crc_file_def no_put_faults_def)
  have "\<not> isl (fst (blob_put no_faults no_put_faults None now c h idx (Some bs) ck key sz))"
    unfolding blob_put_def Let_def up add by (simp split: if_split)
  then show ?thesis
    by (cases "blob_put no_faults no_put_faults None now c h idx (Some bs) ck key sz";
        cases "fst (blob_put no_faults no_put_faults None now c h idx (Some bs) ck key sz)") auto
qed

lemma store_file_ok:
  assumes "w_disk w (pf_path f) = Some bs" "pf_size f \<le> 2 * int sample_size" "p_cipher p = None"
  shows "\<exists>mf wr w1. store_file p no_pub_faults now s j i f w = (Inr (mf, wr), w1) \<and> cdb (w_cache w1) = cdb (w_cache w)"
proof -
  obtain ck where ck: "content_key_of (p_sha p) (Some bs) (pf_size f) = Some ck"
    using assms(2) by (simp add: content_key_of_def)
  obtain r c1 where b: "blob_put no_faults no_put_faults None now (w_cache w\<lparr>objects := w_objs w s\<rparr>) (info_hash j) i (Some bs)
      ck (storage_key ck) (pf_size f) = (Inr r, c1)"
    using blob_put_ok by blast
  have "\<exists>mf wr w1. store_file p no_pub_faults now s j i f w = (Inr (mf, wr), w1)"
    by (cases r) (simp add: store_file_def assms(1,3) ck on_store_def no_pub_faults_def b)
  then obtain mf wr w1 where st: "store_file p no_pub_faults now s j i f w = (Inr (mf, wr), w1)" by blast
  then have "cdb (w_cache w1) = cdb (w_cache w)"
    using store_file_cdb [of p no_pub_faults now s j i f w] by (simp only: snd_conv)
  with st show ?thesis by blast
qed

lemma sample_not_video: "\<not> is_video (pf_name sample_file)"
  by (simp add: sample_file_def is_video_def file_ext_def video_exts_def to_lower_def lower_char_def in_range_def code_of_def)

lemma sample_ok: "store_ok (rewrite now (\<lambda>x. x\<lparr>status := st, node := nd\<rparr>) (\<lambda>x. jid x = ''j1'') \<lparr>jobs_t = [sample_row]\<rparr>)"
  by (simp add: store_ok_def rewrite_def updated_row_def sample_row_def sample_job_def to_lower_def lower_char_def
      in_range_def code_of_def)

lemma sample_publish:
  "\<exists>j w. publish sample_publisher no_pub_faults (\<lambda>_ d. d) 0 9 sample_row [sample_file] sample_world = (Inr (), j, w)
    \<and> node j = [] \<and> info_hash j = ''ab''"
proof -
  let ?j = "sample_row\<lparr>status := StatusPublishing, node := []\<rparr>"
  let ?w1 = "sample_world\<lparr>w_tallied := True\<rparr>"
  let ?w2 = "write_job no_faults (\<lambda>_ d. d) 0 9 ?j ?w1"
  let ?d = "rewrite 9 (\<lambda>x. x\<lparr>status := StatusPublishing, node := []\<rparr>) (\<lambda>x. jid x = ''j1'') \<lparr>jobs_t = [sample_row]\<rparr>"
  have cdb2: "cdb (w_cache ?w2) = ?d"
    by (simp add: update_job_def sample_world_def live_conflict_def sample_row_def sample_job_def rewrite_def updated_row_def)
  have u: "usable_files sample_row [sample_file] (meter_download sample_publisher False sample_row [sample_file] sample_world)
      = ([sample_file], ?w1)"
    by (simp add: meter_download_def meter_bytes_def sample_publisher_def sample_file_def min_video_size_def)
  have disk: "w_disk ?w2 (pf_path sample_file) = Some [1, 2]"
    by (simp add: write_job_def on_db_def sample_world_def split: prod.split)
  have size: "pf_size sample_file \<le> 2 * int sample_size" by (simp add: sample_file_def sample_size_def)
  have ci: "p_cipher sample_publisher = None" by (simp add: sample_publisher_def)
  from store_file_ok [of ?w2 sample_file, OF disk size ci] obtain mf wr w3 where st:
      "store_file sample_publisher no_pub_faults 9 None ?j 0 sample_file ?w2 = (Inr (mf, wr), w3)"
      and cdb3: "cdb (w_cache w3) = ?d" unfolding cdb2 by blast
  let ?run = "publish_files sample_publisher no_pub_faults 9 None ?j 0 [sample_file] no_acc ?w2"
  have files: "?run = (Inr \<lparr>pa_files = [mf], pa_total = 1500000, pa_dur = 0, pa_wrote = wr\<rparr>, w3)"
    using st by (simp add: probe_file_def sample_not_video no_acc_def) (simp add: sample_file_def)
  have node: "publish_node sample_publisher sample_row n = []" "store_for sample_publisher [] = None"
      "check_runtime sample_publisher x y = None" for n x y
    by (simp_all add: publish_node_def remote_def store_for_def check_runtime_def sample_publisher_def)
  have name: "jname sample_row \<noteq> []" by (simp add: sample_row_def sample_job_def)
  have nf: "f_usage no_pub_faults = False" "f_db no_pub_faults = no_faults" "f_manifest no_pub_faults = False"
    by (simp_all add: no_pub_faults_def)
  have comp: "fst (complete no_faults (\<lambda>_ d. d) (Suc 0) 9 [] h nm mfs tot ?d) = Inr ()" for h nm mfs tot
    unfolding complete_rows [OF sample_ok] by simp
  have on_db: "(case on_db f w of (Inl e, w1) \<Rightarrow> A e w1 | (Inr v, w1) \<Rightarrow> B v w1) = B v (snd (on_db f w))"
    if "fst (f (cdb (w_cache w))) = Inr v" for f :: "db \<Rightarrow> ('x + 'y) \<times> db" and w v and A B :: "_ \<Rightarrow> world \<Rightarrow> 'z"
    using that by (cases "f (cdb (w_cache w))") (simp add: on_db_def)
  let ?pub = "publish sample_publisher no_pub_faults (\<lambda>_ d. d) 0 9 sample_row [sample_file] sample_world"
  have "fst ?pub = Inr () \<and> fst (snd ?pub) = ?j"
    by (simp add: publish_def Let_def nf u node files on_db comp cdb3 name del: publish_files.simps usable_files.simps)
  then show ?thesis by (cases ?pub) (auto simp: sample_row_def)
qed

section \<open>Properties\<close>

text \<open>
  What may happen to a store and its tables after a release is published, as far as the release
  keeps its references: collections and reconciliations that start then, with any failures, the
  eviction of another release (its hash is not the word \<open>blobs\<close>, the prefix of the content
  objects), the files another publication stores, failed or not, and any change of the
  tables that keeps the references of the release \<open>h\<close>.
\<close>

inductive store_step :: "string \<Rightarrow> cache \<Rightarrow> cache \<Rightarrow> bool" for h where
  collect: "run_gc fuel oc c = Some (n, fr, c') \<Longrightarrow> store_step h c c'"
| reconcile: "run_reconcile oc t c = (n, c') \<Longrightarrow> store_step h c c'"
| evict: "evict oc t nd c g = (r, c') \<Longrightarrow> g \<noteq> h \<Longrightarrow> g \<noteq> ''blobs'' \<Longrightarrow> store_step h c c'"
| put: "blob_put flt pf cipher t c g idx file ck key sz = (r, c') \<Longrightarrow> g \<noteq> h \<Longrightarrow> store_step h c c'"
| tables: "{r \<in> set (refs_t c). ref_hash r = h} \<subseteq> set (refs_t c') \<Longrightarrow> objects c' = objects c \<Longrightarrow> store_step h c c'"

definition content_held :: "string \<Rightarrow> string \<Rightarrow> cache \<Rightarrow> bool" where
  "content_held h ck c \<longleftrightarrow> (\<exists>idx. \<lparr>ref_hash = h, ref_index = idx, ref_key = ck\<rparr> \<in> set (refs_t c))
     \<and> storage_key ck \<in> okey ` set (objects c)"

lemma content_held_referenced: "content_held h ck c \<Longrightarrow> referenced c ck"
  by (force simp: content_held_def referenced_def)

lemma content_held_keeps: "keeps ks c c' \<Longrightarrow> ks (storage_key ck) \<Longrightarrow> content_held h ck c \<Longrightarrow> content_held h ck c'"
  by (force simp: content_held_def keeps_def)

lemma content_held_grow:
  assumes "content_held h ck c" and "{r \<in> set (refs_t c). ref_hash r = h} \<subseteq> set (refs_t c')"
    and "storage_key ck \<in> okey ` set (objects c) \<Longrightarrow> storage_key ck \<in> okey ` set (objects c')"
  shows "content_held h ck c'"
  using assms by (auto simp: content_held_def)

lemma content_prefix:
  assumes "CHR ''/'' \<notin> set ck" and "has_prefix (storage_key ck) (g @ ''/'')"
  shows "g = ''blobs''"
proof -
  obtain q where "''blobs'' @ CHR ''/'' # ck = g @ CHR ''/'' # q"
    using assms(2) by (auto simp: has_prefix_iff storage_key_def)
  then consider us where "''blobs'' = g @ us" "us @ CHR ''/'' # ck = CHR ''/'' # q"
    | us where "''blobs'' @ us = g" "CHR ''/'' # ck = us @ CHR ''/'' # q"
    by (auto simp only: append_eq_append_conv2)
  then show ?thesis
  proof cases
    case 1
    have "us = []"
    proof (rule ccontr)
      assume "us \<noteq> []"
      with 1(2) have "CHR ''/'' \<in> set us" by (cases us) auto
      then have "CHR ''/'' \<in> set ''blobs''" unfolding 1(1) by simp
      then show False by simp
    qed
    with 1(1) show ?thesis by simp
  next
    case 2
    with assms(1) show ?thesis by (cases us) auto
  qed
qed

lemma evict_held:
  assumes "evict oc t nd c g = (r, c')" and "g \<noteq> h" "g \<noteq> ''blobs''" and "CHR ''/'' \<notin> set ck" and "content_held h ck c"
  shows "content_held h ck c'"
proof -
  obtain ok c0 where d: "delete_prefix oc c (g @ ''/'') = (ok, c0)" by fastforce
  have o: "storage_key ck \<in> okey ` set (objects c) \<Longrightarrow> storage_key ck \<in> okey ` set (objects c0)"
    using d content_prefix [OF assms(4), of g] assms(3) by (force simp: delete_prefix_def split: option.splits)
  have h0: "content_held h ck c0"
    by (rule content_held_grow [OF assms(5) _ o]) (use delete_prefix_frame [OF d] in auto)
  have none: "filter (\<lambda>k. \<not> list_ex (\<lambda>b. ref_key b = k) (refs_t c0)) (remdups (map ref_key (filter (\<lambda>r. ref_hash r = g) (refs_t c0)))) = []"
    by (auto simp: filter_empty_conv list_ex_iff)
  have p: "refs_t (purge_blobs oc c0 g) \<in> {refs_t c0, filter (\<lambda>r. ref_hash r \<noteq> g) (refs_t c0)}"
      "objects (purge_blobs oc c0 g) = objects c0"
    by (cases "drop_refs_fault oc g", simp_all add: purge_blobs_def drop_blob_refs_def in_tx_def run_def Let_def none)+
  have "content_held h ck (purge_blobs oc c0 g)"
    by (rule content_held_grow [OF h0]) (use p assms(2) in auto)
  moreover have "objects (fold (mark_evicted oc t nd) ss x) = objects x" for ss x
    by (induction ss arbitrary: x) (simp_all add: mark_evicted_def)
  ultimately have f: "content_held h ck (fold (mark_evicted oc t nd) ss (purge_blobs oc c0 g))" for ss
    by (simp add: content_held_def fold_mark_evicted)
  with assms(1,5) h0 d f [of "[]"] show ?thesis by (auto simp: evict_def Let_def split: if_splits)
qed

lemma put_held:
  assumes "blob_put flt pf cipher t c g idx file k key sz = (r, c')" and "g \<noteq> h" and "content_held h ck c"
  shows "content_held h ck c'"
proof -
  have up: "refs_t (snd (upload pf cipher t c key file)) = refs_t c
      \<and> okey ` set (objects c) \<subseteq> okey ` set (objects (snd (upload pf cipher t c key file)))"
    by (auto simp: upload_def put_object_def split: option.splits)
  have add: "{x \<in> set (refs_t c1). ref_hash x = h} \<subseteq> set (refs_t c2) \<and> objects c2 = objects c1"
    if "add_blob_ref f c1 g idx k sz e = (q, c2)" for f c1 e q c2
  proof (cases q)
    case (Inl err)
    with that have "c2 = c1" by (auto simp: add_blob_ref_def in_tx_def split: sum.splits prod.splits)
    then show ?thesis by auto
  next
    case (Inr u)
    with add_blob_ref_Inr [of f c1 g idx k sz e c2] that assms(2) show ?thesis by auto
  qed
  obtain c1 where c1: "refs_t c1 = refs_t c" "okey ` set (objects c) \<subseteq> okey ` set (objects c1)"
    and c': "c' = c1 \<or> (\<exists>f e q. add_blob_ref f c1 g idx k sz e = (q, c'))"
  proof -
    define reuse where "reuse \<longleftrightarrow> (case flt 0 of Some _ \<Rightarrow> None | None \<Rightarrow> lookup_blob c k) \<noteq> None \<and> \<not> pf_head pf
      \<and> key \<in> okey ` set (objects c)"
    let ?x = "if reuse then (crc_file pf file, c) else upload pf cipher t c key file"
    have "c' = snd ?x \<or> (\<exists>f e q. add_blob_ref f (snd ?x) g idx k sz e = (q, c'))"
      using assms(1) unfolding blob_put_def Let_def reuse_def [symmetric]
      by (cases ?x; cases "fst ?x") (auto split: sum.splits prod.splits)
    with up show thesis by (intro that [of "snd ?x"]) auto
  qed
  have "{x \<in> set (refs_t c). ref_hash x = h} \<subseteq> set (refs_t c') \<and> okey ` set (objects c) \<subseteq> okey ` set (objects c')"
    using c'
  proof (elim disjE exE)
    fix f e q assume "add_blob_ref f c1 g idx k sz e = (q, c')"
    from add [OF this] c1 show ?thesis by (simp only:)
  qed (use c1 in auto)
  then show ?thesis by (intro content_held_grow [OF assms(3)]) auto
qed

lemma store_step_held:
  assumes "store_step h c c'" and "ck \<noteq> []" "CHR ''/'' \<notin> set ck" and "content_held h ck c"
  shows "content_held h ck c'"
  using assms(1)
proof cases
  case (collect fuel oc n fr)
  from content_held_keeps [OF run_gc_keeps [OF collect] _ assms(4)] content_held_referenced [OF assms(4)]
  show ?thesis by (auto simp: ref_keys_def)
next
  case (reconcile oc t n)
  have "keeps (\<lambda>k. path_base k \<in> set (referenced_keys c)) c c'"
    using reconcile reconcile_objs_keeps [of "referenced_keys c" c oc "t - reconcile_grace"]
    by (auto simp: run_reconcile_def split: if_splits) (metis snd_conv)
  moreover have "path_base (storage_key ck) \<in> set (referenced_keys c)"
    using content_held_referenced [OF assms(4)] assms(2,3) by (simp add: path_base_storage_key referenced_keys_iff)
  ultimately show ?thesis using content_held_keeps assms(4) by blast
next
  case (evict oc t nd g r)
  then show ?thesis using evict_held assms(3,4) by blast
next
  case (put flt pf cipher t g idx bs ck' key sz r)
  then show ?thesis using put_held assms(4) by blast
next
  case tables
  from tables(2) show ?thesis by (intro content_held_grow [OF assms(4) tables(1)]) simp
qed

lemma store_steps_held:
  "(store_step h)\<^sup>*\<^sup>* c c' \<Longrightarrow> ck \<noteq> [] \<Longrightarrow> CHR ''/'' \<notin> set ck \<Longrightarrow> content_held h ck c \<Longrightarrow> content_held h ck c'"
  by (induction rule: rtranclp_induct) (auto intro: store_step_held)

text \<open>
  C4: after a successful publication the store of the job's node holds the manifest of the
  release and every file it lists, and no sequence of collections and reconciliations that start
  after it, in any order and with any failures, mixed with evictions and publications of other
  releases and any changes of the tables that keep the release's references, removes one of those
  files. A collector already at work during the publication is another matter: it can delete
  content it had found unreferenced before.
\<close>

theorem published_content_safe:
  assumes "publish p flt others k now j0 fs0 w0 = (Inr (), j, w)" and "s = store_for p (node j)"
  shows "\<exists>man. w_mans w s (info_hash j) = Some (Some man) \<and> mn_files man \<noteq> [] \<and>
    (\<forall>mf\<in>set (mn_files man). \<forall>c. (store_step (info_hash j))\<^sup>*\<^sup>* (w_cache w\<lparr>objects := w_objs w s\<rparr>) c \<longrightarrow>
       mf_url mf \<in> okey ` set (objects c))"
proof -
  obtain a nm fs w2 w3 where pf: "publish_files p flt now s j 0 fs no_acc w2 = (Inr a, w3)" "pa_files a \<noteq> []"
    and m: "w_mans w s (info_hash j) = Some (Some \<lparr>mn_hash = info_hash j, mn_name = nm, mn_files = pa_files a\<rparr>)"
    and w: "refs_t (w_cache w) = refs_t (w_cache w3)" "w_objs w = w_objs w3"
    by (rule publish_Inr [OF assms(1), folded assms(2)])
  have st: "\<forall>mf\<in>set (pa_files a). file_stored (info_hash j) (0 + length fs) s w3 mf"
    by (rule publish_files_stored [OF pf(1)]) (simp add: no_acc_def)
  have "mf_url mf \<in> okey ` set (objects c)" if "mf \<in> set (pa_files a)"
    and steps: "(store_step (info_hash j))\<^sup>*\<^sup>* (w_cache w\<lparr>objects := w_objs w s\<rparr>) c" for mf c
  proof -
    from st that(1) have "file_stored (info_hash j) (0 + length fs) s w3 mf" by blast
    then obtain ck idx where r: "mf_url mf = storage_key ck" "ck \<noteq> []" "CHR ''/'' \<notin> set ck"
        "\<lparr>ref_hash = info_hash j, ref_index = idx, ref_key = ck\<rparr> \<in> set (refs_t (w_cache w))"
        "storage_key ck \<in> okey ` set (w_objs w s)"
      unfolding file_stored_def w by blast
    have "content_held (info_hash j) ck (w_cache w\<lparr>objects := w_objs w s\<rparr>)"
      using r(4,5) by (auto simp: content_held_def)
    from store_steps_held [OF steps r(2,3) this] r(1) show ?thesis by (simp add: content_held_def)
  qed
  with m pf(2) show ?thesis by auto
qed

theorem published_content_safe_witness:
  "\<exists>j w man. publish sample_publisher no_pub_faults (\<lambda>_ d. d) 0 9 sample_row [sample_file] sample_world = (Inr (), j, w)
    \<and> w_mans w None ''ab'' = Some (Some man) \<and> mn_files man \<noteq> []
    \<and> (\<forall>n fr c1. run_gc 5 all_ok (w_cache w\<lparr>objects := w_objs w None\<rparr>) = Some (n, fr, c1) \<longrightarrow>
        mf_url (hd (mn_files man)) \<in> okey ` set (objects (snd (run_reconcile all_ok 99 c1))))"
proof -
  obtain j w where p: "publish sample_publisher no_pub_faults (\<lambda>_ d. d) 0 9 sample_row [sample_file] sample_world = (Inr (), j, w)"
      and n: "node j = []" "info_hash j = ''ab''"
    using sample_publish by blast
  have "None = store_for sample_publisher (node j)" by (simp add: n store_for_def sample_publisher_def)
  from published_content_safe [OF p this, unfolded n] obtain man where m: "w_mans w None ''ab'' = Some (Some man)"
    and ne: "mn_files man \<noteq> []" and ex: "\<forall>mf\<in>set (mn_files man). \<forall>c.
      (store_step ''ab'')\<^sup>*\<^sup>* (w_cache w\<lparr>objects := w_objs w None\<rparr>) c \<longrightarrow> mf_url mf \<in> okey ` set (objects c)"
    by (elim exE conjE)
  have "mf_url (hd (mn_files man)) \<in> okey ` set (objects (snd (run_reconcile all_ok 99 c1)))"
    if "run_gc 5 all_ok (w_cache w\<lparr>objects := w_objs w None\<rparr>) = Some (n, fr, c1)" for n fr c1
  proof -
    have "(store_step ''ab'')\<^sup>*\<^sup>* (w_cache w\<lparr>objects := w_objs w None\<rparr>) (snd (run_reconcile all_ok 99 c1))"
      using store_step.collect [OF that] store_step.reconcile [OF prod.collapse [of "run_reconcile all_ok 99 c1", symmetric]]
      by (meson rtranclp.rtrancl_refl rtranclp.rtrancl_into_rtrancl)
    with ex hd_in_set [OF ne] show ?thesis by blast
  qed
  with p m ne show ?thesis by blast
qed

text \<open>
  Without failures, completing a release rewrites exactly its live rows on the node and its
  queued download rows: they become complete with the published name, files and size, and every
  other row stays as it was.
\<close>

theorem complete_exact:
  assumes "store_ok d"
  shows "complete no_faults (\<lambda>_ d. d) k now nd h nm mfs tot d = (Inr (), d\<lparr>jobs_t :=
    map (\<lambda>r. if to_lower (info_hash r) = to_lower h \<and> completes nd r
          then updated_row now (completed nd nm (job_files mfs) tot r) r else r) (jobs_t d)\<rparr>)"
  using assms by (rule complete_rows)

theorem complete_exact_witness:
  "complete no_faults (\<lambda>_ d. d) 0 9 ''box'' ''AB'' ''film'' [] 7 \<lparr>jobs_t = [sample_row\<lparr>node := ''box''\<rparr>]\<rparr>
    = (Inr (), \<lparr>jobs_t = [updated_row 9 (completed ''box'' ''film'' [] 7 sample_row) sample_row]\<rparr>)"
proof -
  have "store_ok \<lparr>jobs_t = [sample_row\<lparr>node := ''box''\<rparr>]\<rparr>"
    by (simp add: store_ok_def sample_row_def sample_job_def to_lower_def lower_char_def in_range_def code_of_def)
  from complete_exact [OF this, of 0 9 "''box''" "''AB''" "''film''" "[]" 7] show ?thesis
    by (simp add: completes_def sample_row_def sample_job_def job_files_def completed_def updated_row_def
        to_lower_def lower_char_def in_range_def code_of_def char_of_def bit_0)
qed

text \<open>
  C2: a worker's run, from the claimed row to the published or failed release, is a sequence of
  steps of the abstract queue, whatever statement fails, while the others commit steps of the queue
  between its statements and leave the row, unless they delete it, its slot: the run never claims a
  slot anew. Where others take the slot away first, a later write of the run can claim it anew
  (counted in C1).
\<close>

theorem worker_refines_queue:
  assumes "cooperative lims hs j others" "cooperative lims hs j others'"
    and "issued hs (cdb (w_cache w0))" "claimed j (cdb (w_cache w0))" and "info_hash j = hs (jid j)"
  shows "(queue_step lims)\<^sup>*\<^sup>* (cdb (w_cache w0)) (cdb (w_cache (snd (finish_job p flt others others' now j fs w0))))"
  using assms by (rule finish_job_refines)

theorem worker_refines_queue_witness:
  "(queue_step (\<lambda>_. 1))\<^sup>*\<^sup>* \<lparr>jobs_t = [sample_row]\<rparr>
     (cdb (w_cache (snd (finish_job sample_publisher no_pub_faults (\<lambda>_ d. d) (\<lambda>_ d. d) 9 sample_row [sample_file] sample_world))))"
proof -
  have co: "cooperative (\<lambda>_. 1) (\<lambda>_. ''ab'') sample_row (\<lambda>_ d. d)" by (simp add: cooperative_def)
  have "issued (\<lambda>_. ''ab'') (cdb (w_cache sample_world))" "claimed sample_row (cdb (w_cache sample_world))"
      "info_hash sample_row = ''ab''"
    by (simp_all add: issued_def claimed_def sample_world_def sample_row_def sample_job_def holds_slot_def concurrency_statuses_def)
  from worker_refines_queue [OF co co this, of sample_publisher no_pub_faults 9 "[sample_file]"] show ?thesis
    by (simp add: sample_world_def)
qed

text \<open>
  When a user deletes the first listed row of a release between the worker's listing and its
  write, completing the release stops with an error, and the worker then fails its own row and every
  other active row of the node, although the content has been published.
\<close>

theorem deleted_sibling_fails_release:
  assumes ok: "store_ok d" and list: "list_by_info_hash d h = r1 # rs" and sel: "completes nd r1"
    and others: "others = (\<lambda>k x. if k = 1 then snd (delete_row no_faults x (jid r1)) else x)"
    and j: "j \<in> set rs" "to_lower (info_hash j) = to_lower h"
  shows "\<exists>d'. complete no_faults others 0 now nd h nm mfs tot d = (Inl ErrNotFound, d') \<and>
    (\<forall>r\<in>set rs. r = j \<or> fails_sibling j r \<longrightarrow>
       (\<exists>r'\<in>set (jobs_t (snd (fail_job no_faults (\<lambda>_ d. d) 0 now j err d'))). jid r' = jid r \<and> status r' = StatusFailed))"
proof -
  define d1 where "d1 = d\<lparr>jobs_t := filter (\<lambda>x. jid x \<noteq> jid r1) (jobs_t d)\<rparr>"
  have r1: "r1 \<in> set (jobs_t d)" using list listed by (metis list.set_intros(1))
  have dist: "distinct (map jid (r1 # rs))"
    using store_okD(1) [OF ok] unfolding list [symmetric] by (simp add: list_by_info_hash_def distinct_map_filter)
  have "find (\<lambda>r. jid r = jid r1) (jobs_t d) = Some r1"
    by (rule find_by_key [OF store_okD(1) [OF ok] r1])
  then have del: "snd (delete_row no_faults d (jid r1)) = d1"
    by (simp add: delete_row_def d1_def Let_def)
  have "update_job no_faults 1 now d1 (completed nd nm (job_files mfs) tot r1) = (Inl ErrNotFound, d1)"
    by (simp add: update_job_def d1_def list_ex_iff)
  then have comp: "complete no_faults others 0 now nd h nm mfs tot d = (Inl ErrNotFound, d1)"
    using list sel by (simp add: complete_def others del)
  have st1: "store_ok d1" using ok by (auto simp: store_ok_def d1_def distinct_map_filter)
  have in1: "x \<in> set (jobs_t d1)" if "x \<in> set rs" for x
    using that listed [of x d h] dist by (auto simp: list d1_def image_iff)
  have "\<exists>r'\<in>set (jobs_t (snd (fail_job no_faults (\<lambda>_ d. d) 0 now j err d1))). jid r' = jid r \<and> status r' = StatusFailed"
    if r: "r \<in> set rs" "r = j \<or> fails_sibling j r" for r
  proof (rule fail_job_fails [OF st1 in1 [OF j(1)] in1 [OF r(1)] _ r(2)])
    have "r \<in> set (list_by_info_hash d h)" using r(1) list by simp
    then show "to_lower (info_hash r) = to_lower (info_hash j)" using j(2) by (simp add: list_by_info_hash_def)
  qed
  with comp show ?thesis by blast
qed

lemma gc_batch_deletes:
  "b \<in> set bs \<Longrightarrow> \<not> obj_fails oc (storage_key (content_key b)) \<Longrightarrow>
     storage_key (content_key b) \<notin> okey ` set (objects (snd (snd (gc_batch oc bs c))))"
proof (induction bs arbitrary: c)
  case (Cons x bs)
  have "set (objects (snd (snd (gc_batch oc bs c')))) \<subseteq> set (objects c')" for c'
    using gc_batch_collects [of c' oc bs] by (simp add: collects_def)
  moreover have "storage_key (content_key x) \<notin> okey ` set (objects (snd (collect_blob oc (content_key x) c)))"
    if "\<not> obj_fails oc (storage_key (content_key x))"
    using that by (auto simp: collect_blob_def delete_blob_row_def delete_blob_def delete_object_def)
  ultimately show ?case using Cons.prems Cons.IH unfolding gc_batch_cache
    by (cases "b = x") (blast, simp)
qed simp

lemma blob_put_reuse:
  assumes "b \<in> set (blobs_t c)" "key \<in> okey ` set (objects c)"
  shows "\<exists>enc c1. blob_put no_faults no_put_faults cipher now c h idx (Some bs) (content_key b) key sz
      = (Inr (crc32 bs, enc, False), c1) \<and> objects c1 = objects c
        \<and> \<lparr>ref_hash = h, ref_index = idx, ref_key = content_key b\<rparr> \<in> set (refs_t c1)"
proof -
  have "lookup_blob c (content_key b) \<noteq> None"
    using assms(1) by (auto simp: lookup_blob_def find_None_iff)
  then obtain b' where b': "lookup_blob c (content_key b) = Some b'" by blast
  have "\<exists>c1. add_blob_ref (after 1 no_faults) c h idx ck sz e = (Inr (), c1)" for ck e
    by (auto simp: add_blob_ref_def Let_def)
  then obtain c1 where a: "add_blob_ref (after 1 no_faults) c h idx (content_key b) sz (encrypted b') = (Inr (), c1)" by blast
  then have "objects c1 = objects c" "\<lparr>ref_hash = h, ref_index = idx, ref_key = content_key b\<rparr> \<in> set (refs_t c1)"
    using add_blob_ref_Inr [OF a] by blast+
  then show ?thesis using a b' assms(2) by (auto simp: blob_put_def crc_file_def no_put_faults_def Let_def)
qed

text \<open>The first row waits in the queue; the second is the download being published.\<close>

definition two_rows :: "job list" where
  "two_rows = [sample_row\<lparr>jid := ''j0'', user_id := ''v'', status := StatusQueued\<rparr>, sample_row\<lparr>status := StatusPublishing\<rparr>]"

theorem deleted_sibling_fails_release_witness:
  "\<exists>d'. complete no_faults (\<lambda>k x. if k = 1 then snd (delete_row no_faults x ''j0'') else x) 0 9 [] ''ab'' ''film'' [] 7 \<lparr>jobs_t = two_rows\<rparr>
      = (Inl ErrNotFound, d') \<and>
    (\<exists>r'\<in>set (jobs_t (snd (fail_job no_faults (\<lambda>_ d. d) 0 9 (two_rows ! 1) None d'))). jid r' = ''j1'' \<and> status r' = StatusFailed)"
proof -
  note ev = two_rows_def sample_row_def sample_job_def to_lower_def lower_char_def in_range_def code_of_def
  have "store_ok \<lparr>jobs_t = two_rows\<rparr>"
    by (simp add: store_ok_def ev same_live_key_def)
  moreover have "list_by_info_hash \<lparr>jobs_t = two_rows\<rparr> ''ab'' = hd two_rows # [two_rows ! 1]"
    by (simp add: list_by_info_hash_def ev)
  moreover have "completes [] (hd two_rows)" by (simp add: completes_def ev)
  moreover have "(\<lambda>k x. if k = 1 then snd (delete_row no_faults x ''j0'') else x)
      = (\<lambda>k x. if k = 1 then snd (delete_row no_faults x (jid (hd two_rows))) else x)"
  proof -
    have "jid (hd two_rows) = ''j0''" by (simp add: ev)
    then show ?thesis by (simp only:)
  qed
  moreover have "two_rows ! 1 \<in> set [two_rows ! 1]" "to_lower (info_hash (two_rows ! 1)) = to_lower ''ab''"
    by (simp_all add: ev)
  ultimately have "\<exists>d'. complete no_faults (\<lambda>k x. if k = 1 then snd (delete_row no_faults x ''j0'') else x) 0 9 [] ''ab'' ''film'' [] 7 \<lparr>jobs_t = two_rows\<rparr>
      = (Inl ErrNotFound, d') \<and> (\<forall>r\<in>set [two_rows ! 1]. r = two_rows ! 1 \<or> fails_sibling (two_rows ! 1) r \<longrightarrow>
       (\<exists>r'\<in>set (jobs_t (snd (fail_job no_faults (\<lambda>_ d. d) 0 9 (two_rows ! 1) None d'))). jid r' = jid r \<and> status r' = StatusFailed))"
    by (rule deleted_sibling_fails_release)
  moreover have "jid (two_rows ! 1) = ''j1''" by (simp add: ev)
  ultimately show ?thesis by simp
qed

text \<open>
  The collector and a publisher race: a blob is in the collector's batch when a publication
  finds its row and object and reuses them. The publication succeeds and references the blob, and
  the batch then deletes its object.
\<close>

theorem gc_race_loses_published_blob:
  assumes "b \<in> set (orphaned_blobs c n)" and "ck = content_key b" and "storage_key ck \<in> okey ` set (objects c)"
    and "\<not> obj_fails oc (storage_key ck)"
  shows "\<exists>enc c1. blob_put no_faults no_put_faults cipher now c h idx (Some bs) ck (storage_key ck) sz
      = (Inr (crc32 bs, enc, False), c1) \<and>
    (let c2 = snd (snd (gc_batch oc (orphaned_blobs c n) c1)) in
      referenced c2 ck \<and> storage_key ck \<notin> okey ` set (objects c2))"
proof -
  have "b \<in> set (blobs_t c)" using assms(1) by (auto simp: orphaned_blobs_def dest: in_set_takeD)
  from blob_put_reuse [OF this, of "storage_key ck"] assms(2,3) obtain enc c1 where
    p: "blob_put no_faults no_put_faults cipher now c h idx (Some bs) ck (storage_key ck) sz = (Inr (crc32 bs, enc, False), c1)"
    and r: "\<lparr>ref_hash = h, ref_index = idx, ref_key = ck\<rparr> \<in> set (refs_t c1)" by blast
  let ?c2 = "snd (snd (gc_batch oc (orphaned_blobs c n) c1))"
  have "refs_t ?c2 = refs_t c1" using gc_batch_collects [of c1 oc] by (simp add: collects_def)
  with r have "referenced ?c2 ck" by (force simp: referenced_def)
  moreover have "storage_key ck \<notin> okey ` set (objects ?c2)"
    using gc_batch_deletes [OF assms(1), of oc c1] assms(2,4) by simp
  ultimately show ?thesis using p by (auto simp: Let_def)
qed

theorem gc_race_loses_published_blob_witness:
  "\<exists>enc c1. blob_put no_faults no_put_faults None 9 sample_cache ''h2'' 0 (Some [1]) ''b2'' (storage_key ''b2'') 6
      = (Inr (crc32 [1], enc, False), c1) \<and>
    (let c2 = snd (snd (gc_batch all_ok (orphaned_blobs sample_cache 500) c1)) in
      referenced c2 ''b2'' \<and> storage_key ''b2'' \<notin> okey ` set (objects c2))"
proof -
  let ?b = "\<lparr>content_key = ''b2'', blob_size = 6, encrypted = False\<rparr>"
  have "?b \<in> set (orphaned_blobs sample_cache 500)" by (simp add: orphaned_blobs_def sample_cache_def)
  from gc_race_loses_published_blob [OF this, of "''b2''" all_ok None 9 "''h2''" 0 "[1]" 6] show ?thesis
    by (simp add: sample_cache_def storage_key_def all_ok_def)
qed

end
