(* ===== verification/Object_Store.thy ===== *)
theory Object_Store
  imports Blob_Store
begin

text \<open>
  The object store on a local disk: the back end \<open>fsBackend\<close> of \<open>shared/storage/backend.go\<close>, the range
  header it understands (\<open>fsutil.go\<close>), and the node list of \<open>nodes.go\<close>. A file system is the list of
  its regular files with distinct paths; directories exist as soon as a file needs them. The calls of
  \<open>put\<close> to the system are numbered in program order, and \<open>flt\<close> says which of them fail.
\<close>

section \<open>\<open>path/filepath\<close>\<close>

definition clean_step :: "bool \<Rightarrow> string list \<Rightarrow> string \<Rightarrow> string list" where
  "clean_step rooted stk c =
     (if c = [] \<or> c = ''.'' then stk
      else if c = ''..'' then
        (if stk \<noteq> [] \<and> last stk \<noteq> ''..'' then butlast stk else if rooted then stk else stk @ [''..''])
      else stk @ [c])"

definition clean_elems :: "bool \<Rightarrow> string list \<Rightarrow> string list" where
  "clean_elems rooted cs = foldl (clean_step rooted) [] cs"

definition path_elems :: "string \<Rightarrow> string list" where
  "path_elems p = clean_elems (p \<noteq> [] \<and> hd p = CHR ''/'') (split_byte (CHR ''/'') p)"

definition clean_path :: "string \<Rightarrow> string" where
  "clean_path p =
     (if p \<noteq> [] \<and> hd p = CHR ''/'' then CHR ''/'' # join ''/'' (path_elems p)
      else if path_elems p = [] then ''.'' else join ''/'' (path_elems p))"

text \<open>\<open>filepath.Join\<close> of two elements.\<close>

definition path_join :: "string \<Rightarrow> string \<Rightarrow> string" where
  "path_join a b = (if a = [] \<and> b = [] then [] else if a = [] then clean_path b else if b = [] then clean_path a
     else clean_path (a @ ''/'' @ b))"

definition obj_path :: "string \<Rightarrow> string \<Rightarrow> string" where
  "obj_path root key = path_join root (clean_path (''/'' @ trim_prefix key ''/''))"

section \<open>Ranges and content types\<close>

definition parse_range :: "string \<Rightarrow> int \<Rightarrow> (int \<times> int) option" where
  "parse_range header tot =
     (if \<not> has_prefix header ''bytes='' then None else
      let spec = trim_prefix header ''bytes='' in
      if contains_str spec '','' then None
      else case index_byte spec (CHR ''-'') of
        None \<Rightarrow> None
      | Some dash \<Rightarrow>
        let lo = take dash spec; hi = drop (Suc dash) spec in
        if lo = [] then
          (let (n, ok) = parse_int hi in
           if \<not> ok \<or> n \<le> 0 then None else let n' = (if n > tot then tot else n) in Some (tot - n', tot - 1))
        else (let (st, ok) = parse_int lo in
          if \<not> ok \<or> st \<ge> tot then None
          else let en = (if hi \<noteq> [] then (let (e, ok2) = parse_int hi in if ok2 \<and> e < tot - 1 then e else tot - 1)
                         else tot - 1)
            in if en < st then None else Some (st, en)))"

definition range_header :: "int \<Rightarrow> int \<Rightarrow> string" where
  "range_header a b = ''bytes='' @ show_int a @ ''-'' @ show_int b"

definition content_range :: "int \<Rightarrow> int \<Rightarrow> int \<Rightarrow> string" where
  "content_range a b tot = ''bytes '' @ show_int a @ ''-'' @ show_int b @ ''/'' @ show_int tot"

definition ctype_suffix :: string where
  "ctype_suffix = ''.ctype''"

record fs_file =
  ff_path :: string
  ff_data :: "byte list"
  ff_mod :: int

type_synonym file_sys = "fs_file list"

definition fs_find :: "file_sys \<Rightarrow> string \<Rightarrow> fs_file option" where
  "fs_find fs p = find (\<lambda>f. ff_path f = p) fs"

definition fs_write :: "file_sys \<Rightarrow> string \<Rightarrow> byte list \<Rightarrow> int \<Rightarrow> file_sys" where
  "fs_write fs p bs now = filter (\<lambda>f. ff_path f \<noteq> p) fs @ [\<lparr>ff_path = p, ff_data = bs, ff_mod = now\<rparr>]"

definition fs_remove :: "file_sys \<Rightarrow> string \<Rightarrow> file_sys" where
  "fs_remove fs p = filter (\<lambda>f. ff_path f \<noteq> p) fs"

definition ctype_for :: "file_sys \<Rightarrow> string \<Rightarrow> string \<Rightarrow> string" where
  "ctype_for fs key p =
     (if has_suffix key ''.json'' then ''application/json''
      else if content_type key \<noteq> ''application/octet-stream'' then content_type key
      else case fs_find fs (p @ ctype_suffix) of
        Some f \<Rightarrow> if ff_data f \<noteq> [] then trim_space (string_of (ff_data f)) else ''application/octet-stream''
      | None \<Rightarrow> ''application/octet-stream'')"

section \<open>The back end\<close>

record object =
  ob_body :: "byte list"
  ob_size :: int
  ob_ctype :: string
  ob_range :: string

datatype storage_error = NotFound | IOError nat

definition fs_get :: "file_sys \<Rightarrow> string \<Rightarrow> string \<Rightarrow> string \<Rightarrow> storage_error + object" where
  "fs_get fs root key rng =
     (let p = obj_path root key in
      case fs_find fs p of None \<Rightarrow> Inl NotFound
      | Some f \<Rightarrow>
        let bs = ff_data f; sz = int (length bs); ct = ctype_for fs key p in
        if rng = [] then Inr \<lparr>ob_body = bs, ob_size = sz, ob_ctype = ct, ob_range = []\<rparr>
        else case parse_range rng sz of
          None \<Rightarrow> Inr \<lparr>ob_body = bs, ob_size = sz, ob_ctype = ct, ob_range = []\<rparr>
        | Some (st, en) \<Rightarrow> Inr \<lparr>ob_body = take (nat (en - st + 1)) (drop (nat st) bs), ob_size = en - st + 1,
            ob_ctype = ct, ob_range = content_range st en sz\<rparr>)"

definition fs_head :: "file_sys \<Rightarrow> string \<Rightarrow> string \<Rightarrow> storage_error + object" where
  "fs_head fs root key =
     (let p = obj_path root key in
      case fs_find fs p of None \<Rightarrow> Inl NotFound
      | Some f \<Rightarrow> Inr \<lparr>ob_body = [], ob_size = int (length (ff_data f)), ob_ctype = ctype_for fs key p, ob_range = []\<rparr>)"

definition fs_has :: "file_sys \<Rightarrow> string \<Rightarrow> string \<Rightarrow> bool" where
  "fs_has fs root key \<longleftrightarrow> fs_find fs (obj_path root key) \<noteq> None"

text \<open>
  \<open>put\<close>: \<open>tmp\<close> is the name \<open>CreateTemp\<close> chose and \<open>part\<close> what a failing copy had written. Removing the
  temporary file after an error is call 6, and writing the sidecar, whose error is ignored, call 7.
\<close>

definition fs_drop_tmp :: "(nat \<Rightarrow> bool) \<Rightarrow> file_sys \<Rightarrow> string \<Rightarrow> file_sys" where
  "fs_drop_tmp flt fs tmp = (if flt 6 then fs else fs_remove fs tmp)"

definition fs_put :: "(nat \<Rightarrow> bool) \<Rightarrow> string \<Rightarrow> byte list \<Rightarrow> int \<Rightarrow> file_sys \<Rightarrow> string \<Rightarrow> string \<Rightarrow> byte list \<Rightarrow> string
    \<Rightarrow> (storage_error + unit) \<times> file_sys" where
  "fs_put flt tmp part now fs root key body ctype =
     (let p = obj_path root key in
      if flt 0 then (Inl (IOError 0), fs)
      else if flt 1 then (Inl (IOError 1), fs)
      else if flt 2 then (Inl (IOError 2), fs_drop_tmp flt (fs_write fs tmp part now) tmp)
      else let fs1 = fs_write fs tmp body now in
        if flt 3 then (Inl (IOError 3), fs_drop_tmp flt fs1 tmp)
        else if flt 4 then (Inl (IOError 4), fs_drop_tmp flt fs1 tmp)
        else if flt 5 then (Inl (IOError 5), fs_drop_tmp flt fs1 tmp)
        else let fs2 = fs_write (fs_remove fs1 tmp) p body now in
          (Inr (), if has_prefix key ''blobs/'' \<and> ctype \<noteq> [] \<and> \<not> flt 7
                   then fs_write fs2 (p @ ctype_suffix) (bytes_of ctype) now else fs2))"

text \<open>\<open>delete\<close>: call 0 removes the sidecar, and its error is ignored; call 1 removes the object.\<close>

definition fs_delete :: "(nat \<Rightarrow> bool) \<Rightarrow> file_sys \<Rightarrow> string \<Rightarrow> string \<Rightarrow> (storage_error + unit) \<times> file_sys" where
  "fs_delete flt fs root key =
     (let p = obj_path root key; fs1 = (if flt 0 then fs else fs_remove fs (p @ ctype_suffix)) in
      if flt 1 \<and> fs_find fs1 p \<noteq> None then (Inl (IOError 1), fs1) else (Inr (), fs_remove fs1 p))"

definition fs_delete_prefix :: "file_sys \<Rightarrow> string \<Rightarrow> string \<Rightarrow> file_sys" where
  "fs_delete_prefix fs root pre =
     (let p = obj_path root (trim_suffix pre ''/'') in
      filter (\<lambda>f. ff_path f \<noteq> p \<and> \<not> has_prefix (ff_path f) (p @ ''/'')) fs)"

record obj_meta =
  om_key :: string
  om_size :: int
  om_mod :: int

text \<open>\<open>ReadDir\<close> returns the entries of a directory sorted by name.\<close>

definition dir_files :: "file_sys \<Rightarrow> string \<Rightarrow> (string \<times> fs_file) list" where
  "dir_files fs d =
     (let pre = (if d = ''/'' then d else d @ ''/'') in
      sort_key fst (List.map_filter (\<lambda>f.
        if has_prefix (ff_path f) pre \<and> CHR ''/'' \<notin> set (drop (length pre) (ff_path f))
        then Some (drop (length pre) (ff_path f), f) else None) fs))"

definition fs_list :: "file_sys \<Rightarrow> string \<Rightarrow> string \<Rightarrow> obj_meta list" where
  "fs_list fs root pre =
     (let dir = trim_suffix pre ''/'' in
      map (\<lambda>(n, f). \<lparr>om_key = dir @ ''/'' @ n, om_size = int (length (ff_data f)), om_mod = ff_mod f\<rparr>)
        (filter (\<lambda>(n, f). \<not> has_suffix n ctype_suffix) (dir_files fs (obj_path root dir))))"

section \<open>Nodes of the store\<close>

text \<open>\<open>ParseNodes\<close>: the endpoint of every node; a later entry replaces an earlier one.\<close>

definition parse_nodes :: "string \<Rightarrow> string \<Rightarrow> string option" where
  "parse_nodes spec = fold (\<lambda>part m.
     (case cut (trim_space part) ''='' of (nd, ep, ok) \<Rightarrow>
        if \<not> ok \<or> trim_space ep = [] then m else m(trim_space nd \<mapsto> trim_space ep)))
     (split_byte (CHR '','') spec) Map.empty"

section \<open>Paths\<close>

definition normal_elems :: "string list \<Rightarrow> bool" where
  "normal_elems cs \<longleftrightarrow> (\<forall>c\<in>set cs. c \<noteq> [] \<and> c \<noteq> ''.'' \<and> c \<noteq> ''..'' \<and> CHR ''/'' \<notin> set c)"

lemma normal_elems_simps [simp]:
  "normal_elems []" "normal_elems (c # cs) \<longleftrightarrow> c \<noteq> [] \<and> c \<noteq> ''.'' \<and> c \<noteq> ''..'' \<and> CHR ''/'' \<notin> set c \<and> normal_elems cs"
  "normal_elems (cs @ ds) \<longleftrightarrow> normal_elems cs \<and> normal_elems ds"
  by (auto simp: normal_elems_def)

lemma normal_butlast: "normal_elems cs \<Longrightarrow> normal_elems (butlast cs)"
  by (auto simp: normal_elems_def dest: in_set_butlastD)

lemma clean_fold_normal:
  "normal_elems stk \<Longrightarrow> \<forall>c\<in>set cs. CHR ''/'' \<notin> set c \<Longrightarrow> normal_elems (foldl (clean_step True) stk cs)"
proof (induction cs arbitrary: stk)
  case (Cons c cs)
  have "normal_elems (clean_step True stk c)"
    using Cons.prems by (auto simp: clean_step_def normal_butlast)
  with Cons show ?case by simp
qed simp

lemma clean_fold_id: "normal_elems cs \<Longrightarrow> foldl (clean_step r) stk cs = stk @ cs"
  by (induction cs arbitrary: stk) (auto simp: clean_step_def)

lemma split_byte_app: "split_byte c (a @ c # b) = split_byte c a @ split_byte c b"
proof (induction a)
  case (Cons x a)
  then show ?case by (cases "split_byte c a") auto
qed simp

lemma split_byte_join:
  "cs \<noteq> [] \<Longrightarrow> \<forall>p\<in>set cs. c \<notin> set p \<Longrightarrow> split_byte c (join [c] cs) = cs"
proof (induction "[c]" cs rule: join.induct)
  case (3 p q ps)
  then show ?case using split_byte_append [of c p] by simp
qed (simp_all add: split_byte_single)

lemma path_elems_rooted: "path_elems (CHR ''/'' # p) = clean_elems True (split_byte (CHR ''/'') p)"
  by (simp add: path_elems_def clean_elems_def clean_step_def)

lemma path_elems_normal: "hd p = CHR ''/'' \<Longrightarrow> p \<noteq> [] \<Longrightarrow> normal_elems (path_elems p)"
  unfolding path_elems_def clean_elems_def
  by (simp add: clean_fold_normal split_byte_no_sep)

lemma clean_fold_join: "normal_elems es \<Longrightarrow> foldl (clean_step r) stk (split_byte (CHR ''/'') (join ''/'' es)) = stk @ es"
proof (cases es)
  case (Cons e es')
  assume n: "normal_elems es"
  then have "\<forall>p\<in>set es. CHR ''/'' \<notin> set p" by (simp add: normal_elems_def)
  with Cons have "split_byte (CHR ''/'') (join ''/'' es) = es" by (intro split_byte_join) auto
  with n show ?thesis by (simp add: clean_fold_id)
qed (simp add: clean_step_def)

lemma path_elems_join: "normal_elems es \<Longrightarrow> path_elems (CHR ''/'' # join ''/'' es) = es"
  by (simp add: path_elems_rooted clean_elems_def clean_fold_join)

text \<open>The file of a key lies below the root: the key's own elements follow those of the root.\<close>

definition key_elems :: "string \<Rightarrow> string list" where
  "key_elems key = path_elems (''/'' @ trim_prefix key ''/'')"

lemma key_elems_normal: "normal_elems (key_elems key)"
  by (simp add: key_elems_def path_elems_normal)

lemma obj_path_elems:
  assumes "root \<noteq> []" and "hd root = CHR ''/''"
  shows "obj_path root key = CHR ''/'' # join ''/'' (path_elems root @ key_elems key)"
proof -
  have "path_elems (root @ CHR ''/'' # CHR ''/'' # join ''/'' (key_elems key)) = path_elems root @ key_elems key"
    using assms key_elems_normal [of key]
    by (simp add: path_elems_def clean_elems_def split_byte_app clean_fold_join clean_step_def)
  then show ?thesis
    using assms by (simp add: obj_path_def path_join_def clean_path_def key_elems_def)
qed

lemma obj_path_eq_iff:
  assumes "root \<noteq> []" and "hd root = CHR ''/''"
  shows "obj_path root k = obj_path root k' \<longleftrightarrow> key_elems k = key_elems k'"
proof
  assume e: "obj_path root k = obj_path root k'"
  have n: "normal_elems (path_elems root @ key_elems x)" for x
    using path_elems_normal [OF assms(2,1)] key_elems_normal by simp
  from e have "path_elems (CHR ''/'' # join ''/'' (path_elems root @ key_elems k)) = path_elems (CHR ''/'' # join ''/'' (path_elems root @ key_elems k'))"
    by (simp add: obj_path_elems [OF assms])
  then show "key_elems k = key_elems k'" unfolding path_elems_join [OF n] by simp
qed (simp add: obj_path_elems [OF assms])

section \<open>Files\<close>

lemma fs_find_write: "fs_find (fs_write fs p bs now) q = (if q = p then Some \<lparr>ff_path = p, ff_data = bs, ff_mod = now\<rparr> else fs_find fs q)"
proof -
  have "find (\<lambda>f. ff_path f = q) (filter (\<lambda>f. ff_path f \<noteq> p) fs @ [\<lparr>ff_path = p, ff_data = bs, ff_mod = now\<rparr>])
    = (if q = p then Some \<lparr>ff_path = p, ff_data = bs, ff_mod = now\<rparr> else find (\<lambda>f. ff_path f = q) fs)"
    by (induction fs) auto
  then show ?thesis by (simp add: fs_find_def fs_write_def)
qed

lemma fs_find_remove: "fs_find (fs_remove fs p) q = (if q = p then None else fs_find fs q)"
proof -
  have "find (\<lambda>f. ff_path f = q) (filter (\<lambda>f. ff_path f \<noteq> p) fs) = (if q = p then None else find (\<lambda>f. ff_path f = q) fs)"
    by (induction fs) auto
  then show ?thesis by (simp add: fs_find_def fs_remove_def)
qed

lemma ctype_for_cong: "fs_find fs' (p @ ctype_suffix) = fs_find fs (p @ ctype_suffix) \<Longrightarrow> ctype_for fs' k p = ctype_for fs k p"
  by (simp add: ctype_for_def)

lemma fs_get_cong:
  "fs_find fs' (obj_path root k) = fs_find fs (obj_path root k) \<Longrightarrow>
   fs_find fs' (obj_path root k @ ctype_suffix) = fs_find fs (obj_path root k @ ctype_suffix) \<Longrightarrow>
   fs_get fs' root k rng = fs_get fs root k rng"
  using ctype_for_cong [of fs' "obj_path root k" fs k] by (simp add: fs_get_def Let_def split: option.split)

lemma fs_get_range:
  assumes "fs_find fs (obj_path root key) = Some f" and "rng \<noteq> []"
    and "parse_range rng (int (length (ff_data f))) = Some (a, b)"
  shows "fs_get fs root key rng = Inr \<lparr>ob_body = take (nat (b - a + 1)) (drop (nat a) (ff_data f)), ob_size = b - a + 1,
      ob_ctype = ctype_for fs key (obj_path root key), ob_range = content_range a b (int (length (ff_data f)))\<rparr>"
  using assms by (simp add: fs_get_def Let_def)

lemma show_int_digits: "0 \<le> a \<Longrightarrow> x \<in> set (show_int a) \<Longrightarrow> is_digit x"
  using show_nat_digits [of "nat a"] by (auto simp: show_int_def all_digits_def list_all_iff)

lemma show_int_ne [simp]: "show_int a \<noteq> []"
  by (simp add: show_int_def)

lemma contains_byte: "contains_str s [c] \<longleftrightarrow> c \<in> set s"
  by (induction s) (auto simp: contains_str_def has_prefix_def)

text \<open>A header written for \<open>a\<close> to \<open>b\<close> is read back.\<close>

lemma parse_range_header:
  assumes "0 \<le> a" and "a \<le> b" and "b < tot" and "tot < 2 ^ 63"
  shows "parse_range (range_header a b) tot = Some (a, b)"
proof -
  let ?s = "show_int a @ CHR ''-'' # show_int b"
  have d: "CHR ''-'' \<notin> set (show_int a)" "CHR '','' \<notin> set (show_int a)" "CHR '','' \<notin> set (show_int b)"
    using show_int_digits [of a "CHR ''-''"] show_int_digits [of a "CHR '',''"] show_int_digits [of b "CHR '',''"] assms(1,2)
    by (auto simp: is_digit_def in_range_def code_of_def)
  have "trim_prefix (range_header a b) ''bytes='' = ?s"
    using trim_prefix_append [of "''bytes=''" ?s] by (simp add: range_header_def)
  moreover have "has_prefix (range_header a b) ''bytes=''"
    using has_prefix_append [of "''bytes=''" ?s] by (simp add: range_header_def)
  moreover have "index_byte ?s (CHR ''-'') = Some (length (show_int a))" using d(1) by (rule index_byte_append)
  ultimately show ?thesis
    using assms d by (simp add: parse_range_def contains_byte parse_int_show Let_def)
qed

lemma parse_range_bounds:
  "parse_range h tot = Some (a, b) \<Longrightarrow> 0 \<le> tot \<Longrightarrow> 0 \<le> a \<and> b < tot \<and> (a \<le> b \<or> tot = 0 \<and> a = 0 \<and> b = -1)"
proof -
  assume p: "parse_range h tot = Some (a, b)" and t: "0 \<le> tot"
  define spec where "spec = trim_prefix h ''bytes=''"
  obtain dash where dash: "index_byte spec (CHR ''-'') = Some dash"
    using p by (auto simp: parse_range_def spec_def Let_def split: if_splits option.splits)
  have lo: "0 \<le> fst (parse_int (take dash spec))"
  proof -
    have "CHR ''-'' \<notin> set (take dash spec)" using index_byte_Some [OF dash] by simp
    then have "\<not> (take dash spec \<noteq> [] \<and> hd (take dash spec) = CHR ''-'')" by (metis hd_in_set)
    then show ?thesis by (auto simp: parse_int_def Let_def)
  qed
  from p dash t lo show ?thesis
    unfolding parse_range_def spec_def [symmetric] Let_def
    by (auto split: if_splits prod.splits)
qed

section \<open>Properties\<close>

text \<open>
  Whatever the key, its file is the root or lies below it: the path is the root followed by
  proper elements, none empty, none a dot or two dots.
\<close>

theorem keys_stay_below_root:
  assumes "root \<noteq> []" and "hd root = CHR ''/''"
  shows "obj_path root key = clean_path root \<and> key_elems key = []
    \<or> (\<exists>es. es \<noteq> [] \<and> normal_elems es
        \<and> obj_path root key = (if clean_path root = ''/'' then [] else clean_path root) @ ''/'' @ join ''/'' es)"
proof -
  have j: "join ''/'' (xs @ es) = join ''/'' xs @ ''/'' @ join ''/'' es" if "xs \<noteq> []" "es \<noteq> []" for xs es :: "string list"
    using that
  proof (induction "''/''" xs rule: join.induct)
    case (2 p)
    then show ?case by (cases es) auto
  qed auto
  have c: "clean_path root = CHR ''/'' # join ''/'' (path_elems root)" using assms by (simp add: clean_path_def)
  have o: "obj_path root key = CHR ''/'' # join ''/'' (path_elems root @ key_elems key)" by (rule obj_path_elems [OF assms])
  show ?thesis
  proof (cases "key_elems key = []")
    case True
    with c o show ?thesis by simp
  next
    case False
    have r: "join ''/'' (path_elems root) = [] \<longleftrightarrow> path_elems root = []"
      using path_elems_normal [OF assms(2,1)]
      by (cases "path_elems root"; cases "tl (path_elems root)") auto
    have "obj_path root key = (if clean_path root = ''/'' then [] else clean_path root) @ ''/'' @ join ''/'' (key_elems key)"
      unfolding o c using False r j [of "path_elems root" "key_elems key"] by (cases "path_elems root = []") auto
    with False key_elems_normal show ?thesis by blast
  qed
qed

lemma fs_drop_tmp_find: "q \<noteq> tmp \<Longrightarrow> fs_find (fs_drop_tmp flt (fs_write fs tmp bs now) tmp) q = fs_find fs q"
  by (simp add: fs_drop_tmp_def fs_find_remove fs_find_write)

lemma fs_put_error:
  assumes "fs_put flt tmp part now fs root key body ctype = (Inl e, fs')" and "q \<noteq> tmp"
  shows "fs_find fs' q = fs_find fs q"
  using assms by (auto simp: fs_put_def fs_drop_tmp_find Let_def split: if_splits)

lemma fs_put_ok:
  assumes "fs_put flt tmp part now fs root key body ctype = (Inr (), fs')" and "tmp \<noteq> obj_path root key"
  shows "fs_find fs' (obj_path root key) = Some \<lparr>ff_path = obj_path root key, ff_data = body, ff_mod = now\<rparr>"
    and "q \<notin> {tmp, obj_path root key, obj_path root key @ ctype_suffix} \<Longrightarrow> fs_find fs' q = fs_find fs q"
  using assms by (auto simp: fs_put_def fs_find_remove fs_find_write ctype_suffix_def Let_def split: if_splits)

text \<open>
  Storing an object is all or nothing. When any call before the rename fails, every object reads
  as before, by its content, size, type and ranges; when it succeeds the object reads back as what was
  stored and every other object is unchanged. The temporary name must not be that of an object or a
  sidecar, and keys must not end like a sidecar.
\<close>

theorem put_is_atomic:
  assumes "fs_put flt tmp part now fs root key body ctype = (r, fs')"
    and "\<not> has_suffix tmp ctype_suffix" and "obj_path root key \<noteq> tmp"
    and "obj_path root k \<noteq> tmp" and "\<not> has_suffix (obj_path root k) ctype_suffix" and "\<not> has_suffix (obj_path root key) ctype_suffix"
  shows "case r of
      Inl e \<Rightarrow> fs_get fs' root k rng = fs_get fs root k rng
    | Inr _ \<Rightarrow> (\<exists>ct. fs_get fs' root key [] = Inr \<lparr>ob_body = body, ob_size = int (length body), ob_ctype = ct, ob_range = []\<rparr>)
        \<and> (obj_path root k \<noteq> obj_path root key \<longrightarrow> fs_get fs' root k rng = fs_get fs root k rng)"
proof -
  let ?side = "obj_path root k @ ctype_suffix"
  have s: "?side \<noteq> tmp" "?side \<noteq> obj_path root key" using assms(2,6) has_suffix_append by metis+
  show ?thesis
  proof (cases r)
    case (Inl e)
    from fs_put_error [OF assms(1) [unfolded Inl]] assms(4) s show ?thesis
      by (simp add: Inl) (rule fs_get_cong; simp)
  next
    case (Inr u)
    note ok = fs_put_ok [OF assms(1) [unfolded Inr, simplified] assms(3) [symmetric]]
    have "fs_get fs' root k rng = fs_get fs root k rng" if ne: "obj_path root k \<noteq> obj_path root key"
    proof (rule fs_get_cong)
      have "obj_path root k \<noteq> obj_path root key @ ctype_suffix" using assms(5) has_suffix_append by metis
      with ok(2) assms(4) ne show "fs_find fs' (obj_path root k) = fs_find fs (obj_path root k)" by simp
      show "fs_find fs' ?side = fs_find fs ?side" using ok(2) s ne by simp
    qed
    with ok(1) show ?thesis by (simp add: Inr fs_get_def Let_def)
  qed
qed

theorem put_is_atomic_witness:
  "fst (fs_put (\<lambda>n. n = 7) ''/d/blobs/.tmp-1'' [] 5 [] ''/d'' ''blobs/b_1'' [1, 2] ''video/mp4'') = Inr ()
    \<and> (\<exists>ct. fs_get (snd (fs_put (\<lambda>n. n = 7) ''/d/blobs/.tmp-1'' [] 5 [] ''/d'' ''blobs/b_1'' [1, 2] ''video/mp4'')) ''/d'' ''blobs/b_1'' []
         = Inr \<lparr>ob_body = [1, 2], ob_size = 2, ob_ctype = ct, ob_range = []\<rparr>)"
proof -
  have p: "obj_path ''/d'' ''blobs/b_1'' = ''/d/blobs/b_1''" by code_simp
  have r: "fs_put (\<lambda>n. n = 7) ''/d/blobs/.tmp-1'' [] 5 [] ''/d'' ''blobs/b_1'' [1, 2] ''video/mp4''
      = (Inr (), snd (fs_put (\<lambda>n. n = 7) ''/d/blobs/.tmp-1'' [] 5 [] ''/d'' ''blobs/b_1'' [1, 2] ''video/mp4''))"
    by (simp add: fs_put_def Let_def)
  have s: "\<not> has_suffix ''/d/blobs/.tmp-1'' ctype_suffix" "\<not> has_suffix ''/d/blobs/b_1'' ctype_suffix"
    by (simp_all add: has_suffix_def ctype_suffix_def)
  have "fst (fs_put (\<lambda>n. n = 7) ''/d/blobs/.tmp-1'' [] 5 [] ''/d'' ''blobs/b_1'' [1, 2] ''video/mp4'') = Inr ()"
    by (simp add: fs_put_def Let_def)
  with put_is_atomic [OF r s(1), of "''blobs/b_1''" "[]"] s(2) show ?thesis by (simp add: p)
qed

theorem keys_stay_below_root_witness:
  "obj_path ''/data'' ''../../etc/passwd'' = clean_path ''/data'' \<and> key_elems ''../../etc/passwd'' = []
    \<or> (\<exists>es. es \<noteq> [] \<and> normal_elems es
        \<and> obj_path ''/data'' ''../../etc/passwd'' = (if clean_path ''/data'' = ''/'' then [] else clean_path ''/data'') @ ''/'' @ join ''/'' es)"
  by (rule keys_stay_below_root) simp_all

text \<open>A suffix range of an empty object is answered with a malformed range.\<close>

lemma empty_object_range:
  assumes "fs_find fs (obj_path root key) = Some f" and "ff_data f = []"
  shows "\<exists>o'. fs_get fs root key ''bytes=-5'' = Inr o' \<and> ob_range o' = ''bytes 0--1/0'' \<and> ob_size o' = 0"
proof -
  have "parse_range ''bytes=-5'' 0 = Some (0, -1)" "content_range 0 (-1) 0 = ''bytes 0--1/0''" by code_simp+
  then show ?thesis using assms by (simp add: fs_get_def Let_def)
qed

end
