(* ===== verification/Torrent_Runner.thy ===== *)
theory Torrent_Runner
  imports Publish Object_Store Torrent_File
begin

text \<open>
  The torrent runner, \<open>ingest/internal/torrent\<close>: one poll of a downloading job (\<open>torrent.go\<close>), the end
  of a download and the deletion of a torrent (\<open>finalize.go\<close>), seeding (\<open>seed.go\<close>), orphans
  (\<open>orphans.go\<close>) and cross-seeding (\<open>crossseed.go\<close>), with the state predicates of \<open>shared/qbit\<close>.
  The torrent engine is a parameter: what it answers in this poll, an error being \<open>None\<close>; the calls
  made to it are logged. Times are nanoseconds, one \<open>now\<close> per poll; the update of a job in memory sets
  its time even when the statement fails. Statement \<open>n\<close> of a poll is the \<open>n\<close>-th place that writes.
\<close>

section \<open>The engine\<close>

record torrent =
  to_hash :: string
  to_name :: string
  to_size :: int
  to_downloaded :: int
  to_progress :: rat
  to_speed :: int
  to_state :: string
  to_save :: string
  to_content :: string
  to_ratio :: rat
  to_seeding :: int

record tor_file =
  tf_index :: nat
  tf_name :: string
  tf_size :: int

record engine =
  en_login :: bool
  en_get :: "string \<Rightarrow> torrent option"
  en_still :: "string \<Rightarrow> bool"
  en_files :: "string \<Rightarrow> tor_file list option"
  en_list :: "string \<Rightarrow> torrent list option"
  en_exists :: "string \<Rightarrow> bool"
  en_unremovable :: "string \<Rightarrow> bool"

datatype engine_call = QDelete string | QPause string | QResume string | QReannounce string | QSkip string "nat list"
  | QAdd string int | QAddFile string string

definition is_stalled :: "torrent \<Rightarrow> bool" where
  "is_stalled t \<longleftrightarrow> to_state t = ''stalledDL'' \<and> to_speed t = 0"

definition is_fetching_metadata :: "torrent \<Rightarrow> bool" where
  "is_fetching_metadata t \<longleftrightarrow> to_state t = ''metaDL''"

definition is_queued :: "torrent \<Rightarrow> bool" where
  "is_queued t \<longleftrightarrow> to_state t = ''queuedDL''"

definition is_error :: "torrent \<Rightarrow> bool" where
  "is_error t \<longleftrightarrow> to_state t = ''error'' \<or> to_state t = ''missingFiles''"

definition is_complete :: "torrent \<Rightarrow> bool" where
  "is_complete t \<longleftrightarrow> to_state t \<in> {''uploading'', ''stalledUP'', ''pausedUP'', ''forcedUP'', ''checkingUP'', ''queuedUP'', ''stoppedUP''}
     \<or> to_progress t \<ge> 1"

fun v2_hash_parts :: "string list \<Rightarrow> string" where
  "v2_hash_parts [] = []"
| "v2_hash_parts (p # ps) =
     (if has_prefix p ''xt=urn:btmh:''
      then let mh = to_lower (trim_prefix p ''xt=urn:btmh:'') in
        if has_prefix mh ''1220'' \<and> length mh \<ge> 44 then take 40 (drop 4 mh) else v2_hash_parts ps
      else v2_hash_parts ps)"

definition extract_v2_hash :: "string \<Rightarrow> string" where
  "extract_v2_hash m = v2_hash_parts (split_byte (CHR ''&'') m)"

section \<open>The runner's world\<close>

record runner =
  rn_node :: string
  rn_all :: bool
  rn_seed_only :: bool
  rn_category :: string
  rn_downloads :: string

datatype run_event = RunEvent job_event | Reassign string

record tworld =
  tw_world :: world
  tw_calls :: "engine_call list"
  tw_events :: "run_event list"
  tw_inflight :: "string set"

definition mine :: "runner \<Rightarrow> string \<Rightarrow> bool" where
  "mine rn nd \<longleftrightarrow> rn_all rn \<or> nd = rn_node rn"

definition hold :: "string \<Rightarrow> tworld \<Rightarrow> bool \<times> tworld" where
  "hold h w = (if h \<in> tw_inflight w then (False, w) else (True, w\<lparr>tw_inflight := insert h (tw_inflight w)\<rparr>))"

definition release :: "string \<Rightarrow> tworld \<Rightarrow> tworld" where
  "release h w = w\<lparr>tw_inflight := tw_inflight w - {h}\<rparr>"

definition call :: "engine_call \<Rightarrow> tworld \<Rightarrow> tworld" where
  "call c w = w\<lparr>tw_calls := tw_calls w @ [c]\<rparr>"

definition emit :: "run_event \<Rightarrow> tworld \<Rightarrow> tworld" where
  "emit e w = w\<lparr>tw_events := tw_events w @ [e]\<rparr>"

definition remove_torrent :: "engine \<Rightarrow> string \<Rightarrow> tworld \<Rightarrow> tworld" where
  "remove_torrent en h w = (if \<not> en_login en then w else call (QDelete h) (release h w))"

text \<open>\<open>repo.Update\<close> and \<open>repo.SetProgress\<close>, errors ignored; progress is kept to a tenth of a percent.\<close>

definition t_update :: "pub_faults \<Rightarrow> (nat \<Rightarrow> db \<Rightarrow> db) \<Rightarrow> nat \<Rightarrow> int \<Rightarrow> job \<Rightarrow> tworld \<Rightarrow> job \<times> tworld" where
  "t_update flt others k now j w =
     (j\<lparr>updated_at := now\<rparr>, w\<lparr>tw_world := write_job (f_db flt) others k now j (tw_world w)\<rparr>)"

definition t_progress :: "pub_faults \<Rightarrow> (nat \<Rightarrow> db \<Rightarrow> db) \<Rightarrow> nat \<Rightarrow> job \<Rightarrow> torrent \<Rightarrow> tworld \<Rightarrow> tworld" where
  "t_progress flt others k j t w =
     w\<lparr>tw_world := snd (on_db (\<lambda>d. set_progress (after k (f_db flt)) (others k d) (jid j) \<lfloor>to_progress t * 1000\<rfloor> (to_speed t)) (tw_world w))\<rparr>"

section \<open>Failing and deleting\<close>

text \<open>\<open>fail\<close>: statement \<open>k\<close> writes the row, the siblings follow.\<close>

definition t_fail :: "pub_faults \<Rightarrow> (nat \<Rightarrow> db \<Rightarrow> db) \<Rightarrow> nat \<Rightarrow> int \<Rightarrow> job \<Rightarrow> string \<Rightarrow> tworld \<Rightarrow> job \<times> tworld" where
  "t_fail flt others k now j reason w =
     (case t_update flt others k now (j\<lparr>status := StatusFailed, jerror := reason\<rparr>) w of (j1, w1) \<Rightarrow>
        (j1, emit (RunEvent (JobFailed (jid j1) reason))
          (w1\<lparr>tw_world := snd (on_db (\<lambda>d. ((), fail_active_siblings (f_db flt) others (Suc k) now j1 reason d)) (tw_world w1))\<rparr>)))"

text \<open>\<open>os.RemoveAll\<close> of the content, a file or a directory, when it is still there.\<close>

definition remove_all :: "string \<Rightarrow> world \<Rightarrow> world" where
  "remove_all p w = w\<lparr>w_disk := (\<lambda>q. if q = p \<or> has_prefix q (p @ ''/'') then None else w_disk w q)\<rparr>"

definition delete_and_verify :: "engine \<Rightarrow> string \<Rightarrow> torrent \<Rightarrow> tworld \<Rightarrow> tworld" where
  "delete_and_verify en h t w =
     (let w1 = call (QDelete h) w; w2 = (if en_still en h then call (QDelete h) w1 else w1);
          path = (if to_content t = [] then path_join (to_save t) (to_name t) else to_content t)
      in if en_exists en path \<and> \<not> en_unremovable en path
         then w2\<lparr>tw_world := remove_all path (tw_world w2)\<rparr> else w2)"

definition fail_delete :: "publisher \<Rightarrow> pub_faults \<Rightarrow> (nat \<Rightarrow> db \<Rightarrow> db) \<Rightarrow> nat \<Rightarrow> int \<Rightarrow> engine \<Rightarrow> job \<Rightarrow> string \<Rightarrow> torrent \<Rightarrow> string
    \<Rightarrow> tworld \<Rightarrow> job \<times> tworld" where
  "fail_delete p flt others k now en j h t reason w =
     (case t_fail flt others k now j reason
          (w\<lparr>tw_world := meter_bytes p (f_usage flt) (user_id j) (seed j) (to_downloaded t) (tw_world w)\<rparr>) of
        (j1, w1) \<Rightarrow> (j1, delete_and_verify en h t w1))"

definition meter_abort :: "publisher \<Rightarrow> bool \<Rightarrow> engine \<Rightarrow> string \<Rightarrow> string \<Rightarrow> tworld \<Rightarrow> tworld" where
  "meter_abort p uf en h u w =
     (if u = [] \<or> u = ''prewarm'' then w
      else case en_get en h of None \<Rightarrow> w
      | Some t \<Rightarrow> if to_downloaded t \<le> 0 then w
          else w\<lparr>tw_world := meter_bytes p uf u False (to_downloaded t) (tw_world w)\<rparr>)"

section \<open>One poll\<close>

definition nano :: int where "nano = 1000000000"
definition minutes :: "int \<Rightarrow> int" where "minutes n = n * 60 * nano"
definition hours :: "int \<Rightarrow> int" where "hours n = n * 3600 * nano"

definition stalled_msg :: string where "stalled_msg = ''stalled, waiting for peers''"
definition restart_msg :: string where "restart_msg = ''restarting stalled torrent''"

definition over_limit_msg :: "torrent \<Rightarrow> job \<Rightarrow> string" where
  "over_limit_msg t j = ''torrent size '' @ show_int (quot (to_size t) 1000000000) @ ''GB exceeds your plan limit of ''
     @ show_int (quot (max_bytes j) 1000000000) @ ''GB''"

text \<open>\<open>onMetadata\<close>: the flag says whether the poll goes on.\<close>

definition on_metadata :: "publisher \<Rightarrow> pub_faults \<Rightarrow> (nat \<Rightarrow> db \<Rightarrow> db) \<Rightarrow> int \<Rightarrow> engine \<Rightarrow> job \<Rightarrow> string \<Rightarrow> torrent \<Rightarrow> tworld
    \<Rightarrow> bool \<times> job \<times> tworld" where
  "on_metadata p flt others now en j0 h t w =
     (let j = j0\<lparr>jname := to_name t\<rparr> in
      if max_bytes j > 0 \<and> to_size t > max_bytes j
      then (case fail_delete p flt others 5 now en j h t (over_limit_msg t j) w of (j1, w1) \<Rightarrow> (False, j1, w1))
      else let fs = (case en_files en h of Some fs \<Rightarrow> fs | None \<Rightarrow> []);
             j1 = (if fs = [] then j else j\<lparr>files := map (\<lambda>f. \<lparr>file_index = tf_index f, file_name = tf_name f,
                 file_bytes = tf_size f, file_key = [], file_enc = False\<rparr>) fs\<rparr>);
             skip = map tf_index (filter (\<lambda>f. \<not> is_video (tf_name f)) fs);
             w1 = (if fs \<noteq> [] \<and> \<not> seed j \<and> skip \<noteq> [] \<and> length skip < length fs then call (QSkip h skip) w else w);
             w2 = call (QResume h) w1
           in (case t_update flt others 0 now (j1\<lparr>file_size := to_size t\<rparr>) w2 of (j2, w3) \<Rightarrow> (True, j2, w3)))"

text \<open>\<open>recoverStall\<close>: the flag says whether the job was failed. \<open>now - updated_at\<close> is the stall time.\<close>

definition recover_stall :: "publisher \<Rightarrow> pub_faults \<Rightarrow> (nat \<Rightarrow> db \<Rightarrow> db) \<Rightarrow> int \<Rightarrow> engine \<Rightarrow> job \<Rightarrow> string \<Rightarrow> torrent \<Rightarrow> tworld
    \<Rightarrow> bool \<times> job \<times> tworld" where
  "recover_stall p flt others now en j h t w =
     (let stalled_for = now - updated_at j;
          stuck = is_stalled t \<or> (to_speed t = 0 \<and> to_progress t > 95 / 100 \<and> to_progress t < 1) in
      if stuck \<and> stalled_for > hours 4
      then (case fail_delete p flt others 5 now en j h t ''torrent stalled, no peers available'' w of (j1, w1) \<Rightarrow> (True, j1, w1))
      else case (if \<not> stuck then (j, w)
           else if stalled_for > hours 2 \<and> jerror j \<noteq> restart_msg
             then t_update flt others 4 now (j\<lparr>jerror := restart_msg\<rparr>) (call (QResume h) (call (QPause h) w))
           else if stalled_for > hours 1
             then (case (if jerror j \<noteq> stalled_msg \<and> jerror j \<noteq> restart_msg
                     then t_update flt others 4 now (j\<lparr>jerror := stalled_msg\<rparr>) w else (j, w)) of
                     (j1, w1) \<Rightarrow> (j1, call (QReannounce h) w1))
           else if stalled_for > minutes 5 then (j, call (QReannounce h) w)
           else (j, w)) of
        (j1, w1) \<Rightarrow>
          if is_fetching_metadata t \<and> stalled_for > minutes 15
          then (case fail_delete p flt others 5 now en j1 h t ''could not find torrent metadata, invalid or dead magnet'' w1 of
                  (j2, w2) \<Rightarrow> (True, j2, w2))
          else if is_fetching_metadata t \<and> stalled_for > minutes 5 then (False, j1, call (QReannounce h) w1)
          else (False, j1, w1))"

text \<open>
  \<open>drive\<close> up to the point where a complete torrent is handed to \<open>finalize\<close>; the flag says that.
\<close>

definition find_torrent :: "engine \<Rightarrow> job \<Rightarrow> (torrent \<times> string) option" where
  "find_torrent en j =
     (case en_get en (info_hash j) of
        Some t \<Rightarrow> Some (t, info_hash j)
      | None \<Rightarrow>
          if magnet j = [] then None
          else let v2 = extract_v2_hash (magnet j) in
            if v2 \<noteq> [] \<and> v2 \<noteq> info_hash j then map_option (\<lambda>t. (t, v2)) (en_get en v2) else None)"

definition drive_rest :: "publisher \<Rightarrow> pub_faults \<Rightarrow> (nat \<Rightarrow> db \<Rightarrow> db) \<Rightarrow> int \<Rightarrow> engine \<Rightarrow> job \<Rightarrow> string \<Rightarrow> torrent \<Rightarrow> tworld
    \<Rightarrow> bool \<times> job \<times> tworld" where
  "drive_rest p flt others now en j0 h t w0 =
     (case (if to_speed t > 0 \<and> jerror j0 = stalled_msg then t_update flt others 2 now (j0\<lparr>jerror := []\<rparr>) w0 else (j0, w0)) of
        (j, w) \<Rightarrow>
          if is_error t
          then (case fail_delete p flt others 5 now en j h t (''torrent error: '' @ to_state t) w of (j1, w1) \<Rightarrow> (False, j1, w1))
          else if is_queued t then (False, j, w)
          else case recover_stall p flt others now en j h t (t_progress flt others 3 j t w) of
            (True, j1, w1) \<Rightarrow> (False, j1, w1)
          | (False, j1, w1) \<Rightarrow> (is_complete t, j1, w1))"

definition drive :: "publisher \<Rightarrow> pub_faults \<Rightarrow> (nat \<Rightarrow> db \<Rightarrow> db) \<Rightarrow> int \<Rightarrow> engine \<Rightarrow> job \<Rightarrow> tworld \<Rightarrow> bool \<times> job \<times> tworld" where
  "drive p flt others now en j w =
     (case find_torrent en j of
        None \<Rightarrow> (False, j, if now - updated_at j > 30 * nano then emit (Reassign (jid j)) w else w)
      | Some (t, h) \<Rightarrow>
          if to_size t > 0 \<and> to_name t \<noteq> [] \<and> files j = []
          then (case on_metadata p flt others now en j h t w of
                  (False, j1, w1) \<Rightarrow> (False, j1, w1)
                | (True, j1, w1) \<Rightarrow> drive_rest p flt others now en j1 h t w1)
          else if to_name t \<noteq> [] \<and> jname j = []
          then (case t_update flt others 1 now (j\<lparr>jname := to_name t\<rparr>) w of
                  (j1, w1) \<Rightarrow> drive_rest p flt others now en j1 h t w1)
          else drive_rest p flt others now en j h t w)"

section \<open>The end of a download\<close>

text \<open>
  \<open>finalize\<close> marks the hash, unless it is marked, and starts a goroutine; \<open>finalize_body\<close> is what
  that goroutine does once it has a slot, \<open>blocked\<close> the verdict of \<open>screen.Blocked\<close> on the names.
\<close>

definition finalize :: "job \<Rightarrow> tworld \<Rightarrow> bool \<times> tworld" where
  "finalize j w = hold (info_hash j) w"

definition torrent_pub_files :: "torrent \<Rightarrow> tor_file list \<Rightarrow> pub_file list" where
  "torrent_pub_files t fs = map (\<lambda>f. \<lparr>pf_name = rev (takeWhile (\<lambda>c. c \<noteq> CHR ''/'') (rev (tf_name f))),
     pf_path = path_join (to_save t) (tf_name f), pf_size = tf_size f\<rparr>) (filter (\<lambda>f. is_video (tf_name f)) fs)"

definition finalize_work :: "publisher \<Rightarrow> pub_faults \<Rightarrow> (nat \<Rightarrow> db \<Rightarrow> db) \<Rightarrow> int \<Rightarrow> engine \<Rightarrow> (string list \<Rightarrow> bool) \<Rightarrow> (go_error \<Rightarrow> string)
    \<Rightarrow> job \<Rightarrow> string \<Rightarrow> torrent \<Rightarrow> tworld \<Rightarrow> job \<times> tworld" where
  "finalize_work p flt others now en blocked text j h t w =
     (case en_files en h of
        None \<Rightarrow> t_fail flt others 0 now j ''could not list torrent files'' w
      | Some fs \<Rightarrow>
        if blocked (map tf_name fs) then fail_delete p flt others 0 now en j h t ''content blocked by safety policy'' w
        else let pfs = torrent_pub_files t fs in
        if pfs = [] then fail_delete p flt others 0 now en j h t ''no video files found'' w
        else (case publish p flt others 0 now j pfs (tw_world w) of
          (Inl e, j1, w1) \<Rightarrow> t_fail flt others 2 now j1 (''publish failed: '' @ text e) (w\<lparr>tw_world := w1\<rparr>)
        | (Inr _, j1, w1) \<Rightarrow>
            if seed j1 then t_update flt others 2 now (j1\<lparr>status := StatusSeeding\<rparr>) (w\<lparr>tw_world := w1\<rparr>)
            else (j1, emit (RunEvent (JobComplete (jid j1) (info_hash j1) (node j1))) (delete_and_verify en h t (w\<lparr>tw_world := w1\<rparr>)))))"

definition finalize_body :: "publisher \<Rightarrow> pub_faults \<Rightarrow> (nat \<Rightarrow> db \<Rightarrow> db) \<Rightarrow> int \<Rightarrow> engine \<Rightarrow> (string list \<Rightarrow> bool) \<Rightarrow> (go_error \<Rightarrow> string)
    \<Rightarrow> bool \<Rightarrow> job \<Rightarrow> string \<Rightarrow> torrent \<Rightarrow> tworld \<Rightarrow> tworld" where
  "finalize_body p flt others now en blocked text cancelled j h t w =
     release (info_hash j) (if cancelled then w else snd (finalize_work p flt others now en blocked text j h t w))"

text \<open>\<open>poll\<close>: the engine may answer differently for each job; \<open>list_fails\<close> is the failing query.\<close>

definition polled :: "runner \<Rightarrow> tworld \<Rightarrow> job \<Rightarrow> bool" where
  "polled rn w j \<longleftrightarrow> mine rn (node j) \<and> source j = SourceTorrent \<and> info_hash j \<noteq> [] \<and> seed j = rn_seed_only rn
     \<and> info_hash j \<notin> tw_inflight w"

fun poll_loop :: "runner \<Rightarrow> publisher \<Rightarrow> pub_faults \<Rightarrow> (nat \<Rightarrow> db \<Rightarrow> db) \<Rightarrow> int \<Rightarrow> (string \<Rightarrow> engine) \<Rightarrow> job list \<Rightarrow> tworld
    \<Rightarrow> job list \<times> tworld" where
  "poll_loop rn p flt others now ens [] w = ([], w)"
| "poll_loop rn p flt others now ens (j # js) w =
     (if \<not> polled rn w j then poll_loop rn p flt others now ens js w
      else case drive p flt others now (ens (jid j)) j w of
        (fin, j1, w1) \<Rightarrow>
          (case (if fin then finalize j1 w1 else (False, w1)) of
             (started, w2) \<Rightarrow>
               (case poll_loop rn p flt others now ens js w2 of
                  (rest, w3) \<Rightarrow> (if started then j1 # rest else rest, w3))))"

definition poll :: "runner \<Rightarrow> publisher \<Rightarrow> pub_faults \<Rightarrow> (nat \<Rightarrow> db \<Rightarrow> db) \<Rightarrow> int \<Rightarrow> bool \<Rightarrow> (string \<Rightarrow> engine) \<Rightarrow> bool \<Rightarrow> tworld
    \<Rightarrow> job list \<times> tworld" where
  "poll rn p flt others now login ens list_fails w =
     (if \<not> login then ([], w)
      else poll_loop rn p flt others now ens
        (if list_fails then [] else filter (\<lambda>j. status j = StatusDownloading) (jobs_t (cdb (w_cache (tw_world w))))) w)"

section \<open>Seeding\<close>

definition days :: "int \<Rightarrow> int" where "days n = n * 86400"

definition seed_target_met :: "torrent \<Rightarrow> bool" where
  "seed_target_met t \<longleftrightarrow> to_seeding t \<ge> days 30 \<or> (to_ratio t \<ge> 1 \<and> to_seeding t \<ge> days 7)"

definition complete_seed :: "pub_faults \<Rightarrow> (nat \<Rightarrow> db \<Rightarrow> db) \<Rightarrow> nat \<Rightarrow> int \<Rightarrow> engine \<Rightarrow> job \<Rightarrow> torrent option \<Rightarrow> tworld \<Rightarrow> tworld" where
  "complete_seed flt others k now en j t w =
     (let w1 = (case t of None \<Rightarrow> w | Some t \<Rightarrow> delete_and_verify en (info_hash j) t w) in
      case t_update flt others k now (j\<lparr>status := StatusComplete\<rparr>) w1 of
        (j1, w2) \<Rightarrow> emit (RunEvent (JobComplete (jid j1) (info_hash j1) (node j1))) w2)"

fun seed_loop :: "runner \<Rightarrow> pub_faults \<Rightarrow> (nat \<Rightarrow> db \<Rightarrow> db) \<Rightarrow> nat \<Rightarrow> int \<Rightarrow> (string \<Rightarrow> engine) \<Rightarrow> job list \<Rightarrow> tworld \<Rightarrow> tworld" where
  "seed_loop rn flt others k now ens [] w = w"
| "seed_loop rn flt others k now ens (j # js) w =
     (if \<not> mine rn (node j) then seed_loop rn flt others k now ens js w
      else let en = ens (jid j) in
      case en_get en (info_hash j) of
        None \<Rightarrow> seed_loop rn flt others (Suc k) now ens js (complete_seed flt others k now en j None w)
      | Some t \<Rightarrow> if seed_target_met t
          then seed_loop rn flt others (Suc k) now ens js (complete_seed flt others k now en j (Some t) w)
          else seed_loop rn flt others k now ens js w)"

definition check_seeds :: "runner \<Rightarrow> pub_faults \<Rightarrow> (nat \<Rightarrow> db \<Rightarrow> db) \<Rightarrow> int \<Rightarrow> bool \<Rightarrow> (string \<Rightarrow> engine) \<Rightarrow> bool \<Rightarrow> tworld \<Rightarrow> tworld" where
  "check_seeds rn flt others now login ens list_fails w =
     (if \<not> login then w
      else seed_loop rn flt others 0 now ens
        (if list_fails then [] else filter (\<lambda>j. status j = StatusSeeding) (jobs_t (cdb (w_cache (tw_world w))))) w)"

section \<open>Orphans\<close>

definition kept_statuses :: "status list" where
  "kept_statuses = [StatusPending, StatusQueued, StatusDownloading, StatusProcessing, StatusPublishing, StatusSeeding]"

text \<open>\<open>fails\<close> says for which statuses the query returns an error, which \<open>activeHashes\<close> drops.\<close>

definition active_hashes :: "runner \<Rightarrow> (status \<Rightarrow> bool) \<Rightarrow> db \<Rightarrow> string set" where
  "active_hashes rn fails d =
     (\<Union>st\<in>{s \<in> set kept_statuses. \<not> fails s}. \<Union>j\<in>{j \<in> set (jobs_t d). status j = st \<and> mine rn (node j)}.
        (if info_hash j \<noteq> [] then {to_lower (info_hash j)} else {})
        \<union> (if extract_v2_hash (magnet j) \<noteq> [] then {to_lower (extract_v2_hash (magnet j))} else {}))"

fun reap_loop :: "string set \<Rightarrow> torrent list \<Rightarrow> tworld \<Rightarrow> tworld" where
  "reap_loop keep [] w = w"
| "reap_loop keep (t # ts) w =
     (let h = to_lower (to_hash t) in
      if h = [] \<or> h \<in> keep \<or> to_hash t \<in> tw_inflight w then reap_loop keep ts w
      else reap_loop keep ts (call (QDelete (to_hash t)) w))"

definition reap_orphans :: "runner \<Rightarrow> engine \<Rightarrow> (status \<Rightarrow> bool) \<Rightarrow> tworld \<Rightarrow> tworld" where
  "reap_orphans rn en fails w =
     (if \<not> en_login en then w
      else case en_list en (rn_category rn) of
        None \<Rightarrow> w
      | Some ts \<Rightarrow> if ts = [] then w else reap_loop (active_hashes rn fails (cdb (w_cache (tw_world w)))) ts w)"

section \<open>Cross-seeding\<close>

text \<open>
  A torrent file as \<open>torrentfile.Parse\<close> returns it. The disk maps a path to the content of its file;
  a hard link makes the content of the source appear at the target, which must not exist.
\<close>

record xfile =
  xf_path :: string
  xf_size :: int

record torrent_meta =
  tm_hash :: string
  tm_name :: string
  tm_files :: "xfile list"

record disk_file =
  df_path :: string
  df_size :: int

definition disk_files :: "engine \<Rightarrow> string \<Rightarrow> disk_file list" where
  "disk_files en h =
     (case (en_get en h, en_files en h) of
        (Some t, Some fs) \<Rightarrow> map (\<lambda>f. \<lparr>df_path = path_join (to_save t) (tf_name f), df_size = tf_size f\<rparr>) fs
      | _ \<Rightarrow> [])"

fun cross_seed_source :: "runner \<Rightarrow> engine \<Rightarrow> torrent_meta \<Rightarrow> job list \<Rightarrow> (job \<times> disk_file list) option" where
  "cross_seed_source rn en m [] = None"
| "cross_seed_source rn en m (s # ss) =
     (if node s \<noteq> rn_node rn \<or> info_hash s = [] \<or> info_hash s = tm_hash m
         \<or> \<not> subset_sizes (map xf_size (tm_files m)) (file_sizes s)
      then cross_seed_source rn en m ss
      else case disk_files en (info_hash s) of
        [] \<Rightarrow> cross_seed_source rn en m ss
      | fs \<Rightarrow> Some (s, fs))"

text \<open>The first unused source of the size; \<open>used\<close> are the positions taken.\<close>

definition pick_source :: "disk_file list \<Rightarrow> nat set \<Rightarrow> int \<Rightarrow> nat option" where
  "pick_source src used sz = find (\<lambda>i. i \<notin> used \<and> df_size (src ! i) = sz) [0..<length src]"

type_synonym disk = "string \<Rightarrow> byte list option"

text \<open>\<open>linkCrossSeed\<close>; \<open>mk\<close> says for which targets the directory cannot be made.\<close>

fun link_loop :: "(string \<Rightarrow> bool) \<Rightarrow> string \<Rightarrow> disk_file list \<Rightarrow> nat set \<Rightarrow> xfile list \<Rightarrow> disk \<Rightarrow> bool \<times> disk" where
  "link_loop mk dls src used [] d = (True, d)"
| "link_loop mk dls src used (f # fs) d =
     (case pick_source src used (xf_size f) of
        None \<Rightarrow> (False, d)
      | Some i \<Rightarrow>
        let dst = path_join dls (xf_path f) in
        if mk dst then (False, d)
        else let d1 = d(dst := None) in
          (case d1 (df_path (src ! i)) of
             None \<Rightarrow> (False, d1)
           | Some c \<Rightarrow> link_loop mk dls src (insert i used) fs (d1(dst \<mapsto> c))))"

definition link_cross_seed :: "(string \<Rightarrow> bool) \<Rightarrow> runner \<Rightarrow> torrent_meta \<Rightarrow> disk_file list \<Rightarrow> disk \<Rightarrow> bool \<times> disk" where
  "link_cross_seed mk rn m src d = link_loop mk (rn_downloads rn) src {} (tm_files m) d"

definition cleanup_links :: "runner \<Rightarrow> torrent_meta \<Rightarrow> world \<Rightarrow> world" where
  "cleanup_links rn m w = (if tm_name m = [] then w else remove_all (path_join (rn_downloads rn) (tm_name m)) w)"

text \<open>
  \<open>verifyCrossSeed\<close>: what the engine answers at each of the twenty tries, \<open>None\<close> for an error; \<open>stop\<close>
  is the try before which the context ends.
\<close>

fun verify_loop :: "nat \<Rightarrow> (nat \<Rightarrow> bool) \<Rightarrow> (nat \<Rightarrow> torrent option) \<Rightarrow> bool" where
  "verify_loop 0 stop ans = False"
| "verify_loop (Suc n) stop ans =
     (let i = 20 - Suc n in
      if stop i then False
      else case ans i of
        None \<Rightarrow> verify_loop n stop ans
      | Some t \<Rightarrow> if is_error t then False else if to_progress t \<ge> 999 / 1000 then True else verify_loop n stop ans)"

record xseed_env =
  xe_meta :: "torrent_meta option option"
  xe_list_fails :: bool
  xe_mkdir_fails :: "string \<Rightarrow> bool"
  xe_link_text :: string
  xe_added :: bool
  xe_stop :: "nat \<Rightarrow> bool"
  xe_answers :: "nat \<Rightarrow> torrent option"

text \<open>\<open>xe_meta\<close>: no staged file, a file that does not parse, or the parsed one; \<open>xe_link_text\<close>: the text of a link error.\<close>

definition cross_seed :: "runner \<Rightarrow> pub_faults \<Rightarrow> (nat \<Rightarrow> db \<Rightarrow> db) \<Rightarrow> int \<Rightarrow> engine \<Rightarrow> xseed_env \<Rightarrow> job \<Rightarrow> tworld \<Rightarrow> job \<times> tworld" where
  "cross_seed rn flt others now en xe j w =
     (case xe_meta xe of
        None \<Rightarrow> t_fail flt others 0 now j ''cross-seed torrent not found'' w
      | Some None \<Rightarrow> t_fail flt others 0 now j ''invalid cross-seed torrent'' w
      | Some (Some m) \<Rightarrow>
        (case cross_seed_source rn en m (if xe_list_fails xe then []
            else filter (\<lambda>s. status s = StatusSeeding) (jobs_t (cdb (w_cache (tw_world w))))) of
           None \<Rightarrow> t_fail flt others 0 now j ''no matching local content to cross-seed from'' w
         | Some (s, src) \<Rightarrow>
           (case link_cross_seed (xe_mkdir_fails xe) rn m src (w_disk (tw_world w)) of
              (False, d) \<Rightarrow>
                t_fail flt others 0 now j (''cross-seed link failed: '' @ xe_link_text xe)
                  (w\<lparr>tw_world := cleanup_links rn m ((tw_world w)\<lparr>w_disk := d\<rparr>)\<rparr>)
            | (True, d) \<Rightarrow>
                let w1 = w\<lparr>tw_world := (tw_world w)\<lparr>w_disk := d\<rparr>\<rparr> in
                if \<not> en_login en then t_fail flt others 0 now j ''torrent engine unavailable'' w1
                else if \<not> xe_added xe
                then t_fail flt others 0 now j ''cross-seed inject failed'' (w1\<lparr>tw_world := cleanup_links rn m (tw_world w1)\<rparr>)
                else if \<not> verify_loop 20 (xe_stop xe) (xe_answers xe)
                then let w2 = call (QDelete (info_hash j)) w1 in
                  t_fail flt others 0 now j ''cross-seed recheck failed, files did not match'' (w2\<lparr>tw_world := cleanup_links rn m (tw_world w2)\<rparr>)
                else t_update flt others 0 now (j\<lparr>status := StatusSeeding\<rparr>) w1)))"

section \<open>What a poll gives up\<close>

fun deleted :: "engine_call list \<Rightarrow> string list" where
  "deleted [] = []"
| "deleted (QDelete h # cs) = h # deleted cs"
| "deleted (c # cs) = deleted cs"

lemma deleted_append [simp]: "deleted (a @ b) = deleted a @ deleted b"
  by (induction a rule: deleted.induct) auto

lemma t_update_simps [simp]:
  "fst (t_update flt others k now j w) = j\<lparr>updated_at := now\<rparr>"
  "tw_calls (snd (t_update flt others k now j w)) = tw_calls w"
  "tw_events (snd (t_update flt others k now j w)) = tw_events w"
  "tw_inflight (snd (t_update flt others k now j w)) = tw_inflight w"
  by (simp_all add: t_update_def)

lemma small_simps [simp]:
  "tw_calls (t_progress flt others k j t w) = tw_calls w"
  "tw_calls (call c w) = tw_calls w @ [c]" "tw_world (call c w) = tw_world w" "tw_events (call c w) = tw_events w"
  "tw_calls (emit e w) = tw_calls w" "tw_events (emit e w) = tw_events w @ [e]"
  "tw_inflight (call c w) = tw_inflight w"
  by (simp_all add: t_progress_def call_def emit_def)

lemma t_fail_simps [simp]:
  "status (fst (t_fail flt others k now j r w)) = StatusFailed"
  "tw_calls (snd (t_fail flt others k now j r w)) = tw_calls w"
  by (simp_all add: t_fail_def case_prod_unfold)

text \<open>The calls of a deletion: one, and one more while the engine still has the torrent.\<close>

definition deletion :: "engine \<Rightarrow> string \<Rightarrow> string list" where
  "deletion en h = h # (if en_still en h then [h] else [])"

lemma delete_and_verify_calls [simp]:
  "deleted (tw_calls (delete_and_verify en h t w)) = deleted (tw_calls w) @ deletion en h"
  by (simp add: delete_and_verify_def deletion_def Let_def)

lemma fail_delete_simps [simp]:
  "status (fst (fail_delete p flt others k now en j h t r w)) = StatusFailed"
  "deleted (tw_calls (snd (fail_delete p flt others k now en j h t r w))) = deleted (tw_calls w) @ deletion en h"
  by (simp_all add: fail_delete_def case_prod_unfold)

text \<open>
  The specification: a poll sees the metadata (\<open>sees_metadata\<close>), writes the row (\<open>touched\<close>), and gives the
  torrent up.
\<close>

definition stuck :: "torrent \<Rightarrow> bool" where
  "stuck t \<longleftrightarrow> is_stalled t \<or> (to_speed t = 0 \<and> to_progress t > 95 / 100 \<and> to_progress t < 1)"

definition sees_metadata :: "job \<Rightarrow> torrent \<Rightarrow> bool" where
  "sees_metadata j t \<longleftrightarrow> to_size t > 0 \<and> to_name t \<noteq> [] \<and> files j = []"

definition touched :: "job \<Rightarrow> torrent \<Rightarrow> bool" where
  "touched j t \<longleftrightarrow> sees_metadata j t \<or> (to_name t \<noteq> [] \<and> jname j = []) \<or> (to_speed t > 0 \<and> jerror j = stalled_msg)"

definition over_limit :: "job \<Rightarrow> torrent \<Rightarrow> bool" where
  "over_limit j t \<longleftrightarrow> sees_metadata j t \<and> max_bytes j > 0 \<and> to_size t > max_bytes j"

definition stalled_out :: "int \<Rightarrow> int \<Rightarrow> torrent \<Rightarrow> bool" where
  "stalled_out now since t \<longleftrightarrow> (stuck t \<and> now - since > hours 4) \<or> (is_fetching_metadata t \<and> now - since > minutes 15)"

definition gives_up :: "int \<Rightarrow> job \<Rightarrow> torrent \<Rightarrow> bool" where
  "gives_up now j t \<longleftrightarrow> over_limit j t \<or> is_error t
     \<or> (\<not> is_queued t \<and> \<not> touched j t \<and> stalled_out now (updated_at j) t)"

lemma hours_pos: "n > 0 \<Longrightarrow> hours n > 0" "n > 0 \<Longrightarrow> minutes n > 0"
  by (simp_all add: hours_def minutes_def nano_def)

lemma not_stalled_out_now [simp]: "\<not> stalled_out now now t"
  using hours_pos [of 4] hours_pos [of 15] by (simp add: stalled_out_def)

lemma recover_stall_spec:
  "fst (recover_stall p flt others now en j h t w) \<longleftrightarrow> stalled_out now (updated_at j) t"
  "deleted (tw_calls (snd (snd (recover_stall p flt others now en j h t w))))
    = deleted (tw_calls w) @ (if stalled_out now (updated_at j) t then deletion en h else [])"
  "status (fst (snd (recover_stall p flt others now en j h t w)))
    = (if stalled_out now (updated_at j) t then StatusFailed else status j)"
  by (simp_all add: recover_stall_def stalled_out_def Let_def case_prod_unfold stuck_def) auto

definition rest_out :: "int \<Rightarrow> job \<Rightarrow> torrent \<Rightarrow> bool" where
  "rest_out now j t \<longleftrightarrow> is_error t
     \<or> (\<not> is_queued t \<and> stalled_out now (if to_speed t > 0 \<and> jerror j = stalled_msg then now else updated_at j) t)"

lemma drive_rest_spec:
  "fst (drive_rest p flt others now en j h t w) \<longleftrightarrow> is_complete t \<and> \<not> is_queued t \<and> \<not> rest_out now j t"
  "deleted (tw_calls (snd (snd (drive_rest p flt others now en j h t w))))
    = deleted (tw_calls w) @ (if rest_out now j t then deletion en h else [])"
  "status (fst (snd (drive_rest p flt others now en j h t w))) = (if rest_out now j t then StatusFailed else status j)"
  by (simp_all add: drive_rest_def rest_out_def case_prod_unfold recover_stall_spec split: bool.split) auto

lemma on_metadata_spec:
  "fst (on_metadata p flt others now en j h t w) \<longleftrightarrow> \<not> (max_bytes j > 0 \<and> to_size t > max_bytes j)"
  "deleted (tw_calls (snd (snd (on_metadata p flt others now en j h t w))))
    = deleted (tw_calls w) @ (if max_bytes j > 0 \<and> to_size t > max_bytes j then deletion en h else [])"
  "status (fst (snd (on_metadata p flt others now en j h t w)))
    = (if max_bytes j > 0 \<and> to_size t > max_bytes j then StatusFailed else status j)"
  "\<not> (max_bytes j > 0 \<and> to_size t > max_bytes j) \<Longrightarrow>
    updated_at (fst (snd (on_metadata p flt others now en j h t w))) = now
    \<and> jerror (fst (snd (on_metadata p flt others now en j h t w))) = jerror j"
  by (simp_all add: on_metadata_def case_prod_unfold Let_def) auto

lemma drive_spec:
  "(case drive p flt others now en j w of (fin, j', w') \<Rightarrow>
     (fin, status j', deleted (tw_calls w'))) =
   (case find_torrent en j of
      None \<Rightarrow> (False, status j, deleted (tw_calls w))
    | Some (t, h) \<Rightarrow>
        if gives_up now j t then (False, StatusFailed, deleted (tw_calls w) @ deletion en h)
        else (is_complete t \<and> \<not> is_queued t, status j, deleted (tw_calls w)))"
proof (cases "find_torrent en j")
  case None
  then show ?thesis by (simp add: drive_def)
next
  case (Some th)
  obtain t h where th: "th = (t, h)" by (cases th)
  note rules = Some th drive_def case_prod_unfold drive_rest_spec gives_up_def touched_def over_limit_def rest_out_def
  consider (over) "sees_metadata j t" "max_bytes j > 0 \<and> to_size t > max_bytes j"
    | (ok) "sees_metadata j t" "\<not> (max_bytes j > 0 \<and> to_size t > max_bytes j)"
    | (unnamed) "\<not> sees_metadata j t" "to_name t \<noteq> [] \<and> jname j = []"
    | (known) "\<not> sees_metadata j t" "\<not> (to_name t \<noteq> [] \<and> jname j = [])"
    by blast
  then show ?thesis
  proof cases
    case over
    then show ?thesis by (simp add: rules on_metadata_spec(1-3) sees_metadata_def split: bool.split)
  next
    case ok
    then show ?thesis
      using on_metadata_spec(4) [where j = j and t = t and now = now]
      by (simp add: rules on_metadata_spec(1-3) sees_metadata_def split: bool.split) auto
  next
    case unnamed
    then show ?thesis by (simp add: rules sees_metadata_def) auto
  next
    case known
    then show ?thesis by (simp add: rules sees_metadata_def) auto
  qed
qed

text \<open>
  C24: one poll of a downloading job. The torrent is deleted, and the job failed, exactly when the
  metadata shows it over the plan's limit, the engine reports an error, or it is not queued, this poll
  did not write the row, and it has been stuck for more than four hours or without metadata for more
  than fifteen minutes since the row was last written; otherwise nothing is deleted and the status
  stays. It goes on to be published exactly when it is complete, not queued and not given up.
\<close>

theorem drive_gives_up_exactly:
  "(case drive p flt others now en j w of (fin, j', w') \<Rightarrow>
     (fin, status j', deleted (tw_calls w'))) =
   (case find_torrent en j of
      None \<Rightarrow> (False, status j, deleted (tw_calls w))
    | Some (t, h) \<Rightarrow>
        if gives_up now j t then (False, StatusFailed, deleted (tw_calls w) @ deletion en h)
        else (is_complete t \<and> \<not> is_queued t, status j, deleted (tw_calls w)))"
  by (rule drive_spec)

section \<open>The stall clock\<close>

text \<open>
  A downloading torrent that receives data: the poll only writes its progress, which does not move
  \<open>updated_at\<close>.
\<close>

definition receiving :: "torrent \<Rightarrow> bool" where
  "receiving t \<longleftrightarrow> to_state t = ''downloading'' \<and> to_speed t > 0 \<and> to_progress t < 1"

definition settled :: "job \<Rightarrow> bool" where
  "settled j \<longleftrightarrow> files j \<noteq> [] \<and> jname j \<noteq> [] \<and> jerror j = []"

definition table_of :: "tworld \<Rightarrow> job list" where
  "table_of w = jobs_t (cdb (w_cache (tw_world w)))"

definition poll_once :: "runner \<Rightarrow> publisher \<Rightarrow> int \<times> engine \<Rightarrow> tworld \<Rightarrow> tworld" where
  "poll_once rn p ne w = snd (poll rn p no_pub_faults (\<lambda>_ d. d) (fst ne) True (\<lambda>_. snd ne) False w)"

lemma drive_receiving:
  assumes "en_get en (info_hash j) = Some t" "receiving t" "settled j"
  shows "drive p flt others now en j w = (False, j, t_progress flt others 3 j t w)"
  using assms by (simp add: drive_def find_torrent_def receiving_def settled_def drive_rest_def is_error_def is_queued_def
      recover_stall_def Let_def is_stalled_def is_fetching_metadata_def is_complete_def stalled_msg_def split: prod.splits)

lemma t_progress_table:
  "table_of (t_progress no_pub_faults (\<lambda>_ d. d) k j t w)
    = upd_where (\<lambda>r. jid r = jid j) (\<lambda>r. r\<lparr>progress := \<lfloor>to_progress t * 1000\<rfloor>, speed := to_speed t\<rparr>) (table_of w)"
  "tw_inflight (t_progress no_pub_faults (\<lambda>_ d. d) k j t w) = tw_inflight w"
  by (simp_all add: table_of_def t_progress_def on_db_def set_progress_def in_tx_def run_def no_faults_def no_pub_faults_def
      after_def split: prod.splits)

definition clocked :: "runner \<Rightarrow> job \<Rightarrow> int \<Rightarrow> tworld \<Rightarrow> bool" where
  "clocked rn j since w \<longleftrightarrow> (\<exists>r. table_of w = [r] \<and> jid r = jid j \<and> polled rn w r \<and> status r = StatusDownloading
     \<and> info_hash r = info_hash j \<and> settled r \<and> updated_at r = since)"

lemma poll_once_one:
  assumes "table_of w = [r]" "polled rn w r" "status r = StatusDownloading"
  shows "poll_once rn p (now, en) w = (case drive p no_pub_faults (\<lambda>_ d. d) now en r w of
    (fin, j1, w1) \<Rightarrow> if fin then snd (finalize j1 w1) else w1)"
  using assms by (simp add: poll_once_def poll_def table_of_def split: prod.splits)

lemma receiving_keeps_clock:
  assumes c: "clocked rn j since w" and g: "en_get en (info_hash j) = Some t" "receiving t"
  shows "clocked rn j since (poll_once rn p (now, en) w) \<and> tw_calls (poll_once rn p (now, en) w) = tw_calls w"
proof -
  obtain r where r: "table_of w = [r]" "jid r = jid j" "polled rn w r" "status r = StatusDownloading" "info_hash r = info_hash j"
    "settled r" "updated_at r = since" using c by (auto simp: clocked_def)
  have "poll_once rn p (now, en) w = t_progress no_pub_faults (\<lambda>_ d. d) 3 r t w"
    by (simp add: poll_once_one [OF r(1,3,4)] drive_receiving [OF _ g(2) r(6)] g(1) r(5))
  then show ?thesis using r
    by (simp add: clocked_def t_progress_table upd_where_def polled_def settled_def)
qed

text \<open>
  The time a torrent counts as stalled runs from the last write of its row, and progress is not
  such a write: a torrent that received data in every poll is deleted in the first poll that finds it
  stalled, once four hours have passed since the row was written.
\<close>

theorem stall_clock_ignores_progress:
  assumes "clocked rn j since w"
    and "\<forall>ne\<in>set ps. \<exists>t. en_get (snd ne) (info_hash j) = Some t \<and> receiving t"
    and "en_get en (info_hash j) = Some t" and "is_stalled t" and "now - since > hours 4"
  shows "tw_calls (fold (poll_once rn p) ps w) = tw_calls w
    \<and> deleted (tw_calls (poll_once rn p (now, en) (fold (poll_once rn p) ps w)))
        = deleted (tw_calls w) @ deletion en (info_hash j)"
proof -
  have "clocked rn j since (fold (poll_once rn p) ps w) \<and> tw_calls (fold (poll_once rn p) ps w) = tw_calls w"
    using assms(1,2)
  proof (induction ps arbitrary: w)
    case (Cons ne ps)
    obtain now1 en1 where ne: "ne = (now1, en1)" by (cases ne)
    with Cons.prems(2) obtain t1 where "en_get en1 (info_hash j) = Some t1" "receiving t1" by auto
    from receiving_keeps_clock [OF Cons.prems(1) this] Cons.IH Cons.prems(2) show ?case by (simp add: ne)
  qed simp
  moreover obtain w' where w': "w' = fold (poll_once rn p) ps w" by simp
  ultimately have c: "clocked rn j since w'" and calls: "tw_calls w' = tw_calls w" by simp_all
  then obtain r where r: "table_of w' = [r]" "polled rn w' r" "status r = StatusDownloading" "info_hash r = info_hash j"
    "settled r" "updated_at r = since" by (auto simp: clocked_def)
  have g: "gives_up now r t"
    using assms(4,5) r(5,6) by (simp add: gives_up_def touched_def sees_metadata_def settled_def stalled_out_def stuck_def
        is_stalled_def is_queued_def is_error_def stalled_msg_def)
  have "find_torrent en r = Some (t, info_hash j)" using assms(3) r(4) by (simp add: find_torrent_def)
  with drive_spec [of p no_pub_faults "\<lambda>_ d. d" now en r w'] g
  have "\<not> fst (drive p no_pub_faults (\<lambda>_ d. d) now en r w')"
    "deleted (tw_calls (snd (snd (drive p no_pub_faults (\<lambda>_ d. d) now en r w')))) = deleted (tw_calls w') @ deletion en (info_hash j)"
    by (simp_all add: case_prod_unfold)
  then show ?thesis
    using calls by (simp add: w' [symmetric] poll_once_one [OF r(1-3)] case_prod_unfold)
qed

definition film_job :: job where
  "film_job = \<lparr>jid = ''j1'', user_id = ''u1'', info_hash = ''ab'', jname = ''film'', magnet = [], source = SourceTorrent,
     status = StatusDownloading, seed = False, budget_gated = False, input_key = [], jerror = [],
     files = [\<lparr>file_index = 0, file_name = ''film.mkv'', file_bytes = 9, file_key = [], file_enc = False\<rparr>],
     selected_idxs = [], imdb_id = [], season = 0, episode = 0, file_size = 9, max_bytes = 0, priority = 0, progress = 0,
     speed = 0, node = ''n1'', created_at = 0, updated_at = 0, access_count = 0, last_accessed = None\<rparr>"

definition film_torrent :: "string \<Rightarrow> int \<Rightarrow> torrent" where
  "film_torrent st sp = \<lparr>to_hash = ''ab'', to_name = ''film'', to_size = 9, to_downloaded = 5, to_progress = 1 / 2,
     to_speed = sp, to_state = st, to_save = ''/downloads'', to_content = ''/downloads/film.mkv'', to_ratio = 0, to_seeding = 0\<rparr>"

definition engine_with :: "torrent \<Rightarrow> engine" where
  "engine_with t = \<lparr>en_login = True, en_get = (\<lambda>h. if h = to_hash t then Some t else None), en_still = (\<lambda>_. False),
     en_files = (\<lambda>_. Some [\<lparr>tf_index = 0, tf_name = ''film.mkv'', tf_size = 9\<rparr>]), en_list = (\<lambda>_. Some [t]),
     en_exists = (\<lambda>_. True), en_unremovable = (\<lambda>_. False)\<rparr>"

definition node_runner :: runner where
  "node_runner = \<lparr>rn_node = ''n1'', rn_all = False, rn_seed_only = False, rn_category = ''torrin'', rn_downloads = ''/downloads''\<rparr>"

definition start_world :: "job list \<Rightarrow> (string \<Rightarrow> byte list option) \<Rightarrow> tworld" where
  "start_world js d = \<lparr>tw_world = \<lparr>w_cache = sample_cache\<lparr>cdb := \<lparr>jobs_t = js\<rparr>\<rparr>, w_objs = (\<lambda>_. []), w_mans = (\<lambda>_ _. None),
     w_disk = d, w_usage = [], w_tallied = False\<rparr>, tw_calls = [], tw_events = [], tw_inflight = {}\<rparr>"

theorem stall_clock_ignores_progress_witness:
  "let polls = [(minutes 1, engine_with (film_torrent ''downloading'' 7)), (hours 4, engine_with (film_torrent ''downloading'' 7))];
       w = fold (poll_once node_runner sample_publisher) polls (start_world [film_job] (\<lambda>_. None))
   in tw_calls w = [] \<and> deleted (tw_calls (poll_once node_runner sample_publisher (hours 4 + 15 * nano, engine_with (film_torrent ''stalledDL'' 0)) w)) = [''ab'']"
proof -
  let ?ps = "[(minutes 1, engine_with (film_torrent ''downloading'' 7)), (hours 4, engine_with (film_torrent ''downloading'' 7))]"
  have "clocked node_runner film_job 0 (start_world [film_job] (\<lambda>_. None))"
    by (simp add: clocked_def table_of_def start_world_def film_job_def polled_def node_runner_def mine_def settled_def)
  moreover have "\<forall>ne\<in>set ?ps. \<exists>t. en_get (snd ne) (info_hash film_job) = Some t \<and> receiving t"
    by (simp add: engine_with_def film_torrent_def film_job_def receiving_def)
  moreover have "en_get (engine_with (film_torrent ''stalledDL'' 0)) (info_hash film_job) = Some (film_torrent ''stalledDL'' 0)"
    "is_stalled (film_torrent ''stalledDL'' 0)" "hours 4 + 15 * nano - 0 > hours 4"
    by (simp_all add: engine_with_def film_torrent_def film_job_def is_stalled_def nano_def)
  ultimately show ?thesis
    unfolding Let_def
    using stall_clock_ignores_progress [of node_runner film_job 0 "start_world [film_job] (\<lambda>_. None)" ?ps
        "engine_with (film_torrent ''stalledDL'' 0)" "film_torrent ''stalledDL'' 0" "hours 4 + 15 * nano" sample_publisher]
    by (simp add: start_world_def deletion_def engine_with_def film_job_def)
qed

section \<open>Which torrents are orphans\<close>

definition names_hash :: "job \<Rightarrow> string \<Rightarrow> bool" where
  "names_hash j h \<longleftrightarrow> to_lower h = to_lower (info_hash j) \<or> to_lower h = to_lower (extract_v2_hash (magnet j))"

lemma names_hash_iff:
  assumes "h \<noteq> []"
  shows "to_lower h \<in> (if info_hash j \<noteq> [] then {to_lower (info_hash j)} else {})
      \<union> (if extract_v2_hash (magnet j) \<noteq> [] then {to_lower (extract_v2_hash (magnet j))} else {}) \<longleftrightarrow> names_hash j h"
proof -
  have "to_lower h \<noteq> []" using assms by simp
  then show ?thesis
    by (cases "info_hash j = []"; cases "extract_v2_hash (magnet j) = []") (auto simp: names_hash_def)
qed

lemma active_hashes_iff:
  assumes "h \<noteq> []"
  shows "to_lower h \<in> active_hashes rn fails d \<longleftrightarrow>
    (\<exists>j\<in>set (jobs_t d). status j \<in> set kept_statuses \<and> \<not> fails (status j) \<and> mine rn (node j) \<and> names_hash j h)"
  unfolding active_hashes_def UN_iff names_hash_iff [OF assms] by blast

lemma reap_loop_deleted:
  "deleted (tw_calls (reap_loop keep ts w)) = deleted (tw_calls w) @
    map to_hash (filter (\<lambda>t. to_hash t \<noteq> [] \<and> to_lower (to_hash t) \<notin> keep \<and> to_hash t \<notin> tw_inflight w) ts)"
  by (induction ts arbitrary: w) (auto simp: Let_def)

text \<open>
  The torrents a reaping run deletes are exactly those of the engine's list that have a hash, are
  not held by a running publication, and are named neither by the info hash nor by the v2 hash of the
  magnet of a job of this node that is pending, queued, downloading, processing, publishing or seeding
  and whose status could be queried: a failing query leaves its jobs out.
\<close>

theorem reap_deletes_exactly_unnamed:
  "set (deleted (tw_calls (reap_orphans rn en fails w))) = set (deleted (tw_calls w)) \<union>
     (case (if en_login en then en_list en (rn_category rn) else None) of
        None \<Rightarrow> {}
      | Some ts \<Rightarrow> {h \<in> to_hash ` set ts. h \<noteq> [] \<and> h \<notin> tw_inflight w \<and>
          \<not> (\<exists>j\<in>set (table_of w). status j \<in> set kept_statuses \<and> \<not> fails (status j) \<and> mine rn (node j) \<and> names_hash j h)})"
proof (cases "if en_login en then en_list en (rn_category rn) else None")
  case None
  then show ?thesis by (simp add: reap_orphans_def split: if_splits)
next
  case (Some ts)
  then have en: "en_login en" "en_list en (rn_category rn) = Some ts" by (simp_all split: if_splits)
  have "set (deleted (tw_calls (reap_orphans rn en fails w))) = set (deleted (tw_calls w)) \<union>
      to_hash ` {t \<in> set ts. to_hash t \<noteq> [] \<and> to_lower (to_hash t) \<notin> active_hashes rn fails (cdb (w_cache (tw_world w)))
        \<and> to_hash t \<notin> tw_inflight w}"
  proof -
    have "reap_orphans rn en fails w = reap_loop (active_hashes rn fails (cdb (w_cache (tw_world w)))) ts w"
      using en by (simp add: reap_orphans_def)
    then show ?thesis by (simp only: reap_loop_deleted set_append set_map set_filter)
  qed
  then show ?thesis
    using en by (auto simp: active_hashes_iff table_of_def)
qed

section \<open>Links and their clean-up\<close>

text \<open>The sizes of the unused sources.\<close>

definition unused_sizes :: "disk_file list \<Rightarrow> nat set \<Rightarrow> int multiset" where
  "unused_sizes src used = image_mset (\<lambda>i. df_size (src ! i)) (filter_mset (\<lambda>i. i \<notin> used) (mset [0..<length src]))"

lemma pick_source_some:
  assumes "sz \<in># unused_sizes src used"
  obtains i where "pick_source src used sz = Some i"
proof -
  have "pick_source src used sz \<noteq> None"
    using assms by (auto simp: pick_source_def find_None_iff unused_sizes_def)
  then show ?thesis using that by blast
qed

lemma pick_source_used:
  assumes "pick_source src used sz = Some i"
  shows "i \<notin> used" "i < length src" "df_size (src ! i) = sz"
    "unused_sizes src (insert i used) = unused_sizes src used - {#sz#}"
proof -
  show i: "i \<notin> used" "i < length src" "df_size (src ! i) = sz"
    using assms by (auto simp: pick_source_def find_Some_iff)
  have "filter_mset (\<lambda>x. x \<notin> used) (mset [0..<length src]) = add_mset i (filter_mset (\<lambda>x. x \<notin> insert i used) (mset [0..<length src]))"
  proof -
    have "{x. x < length src \<and> x \<notin> used} = insert i {x. x < length src \<and> x \<notin> insert i used}" using i by auto
    then show ?thesis using i by (simp add: mset_set.insert)
  qed
  then show "unused_sizes src (insert i used) = unused_sizes src used - {#sz#}"
    by (simp add: unused_sizes_def i(3))
qed

text \<open>Where the links go, and when linking is safe: no link is put on a source or on another link.\<close>

definition link_path :: "string \<Rightarrow> xfile \<Rightarrow> string" where
  "link_path dls f = path_join dls (xf_path f)"

definition apart :: "string \<Rightarrow> disk_file list \<Rightarrow> xfile list \<Rightarrow> bool" where
  "apart dls src fs \<longleftrightarrow> distinct (map (link_path dls) fs) \<and> link_path dls ` set fs \<inter> df_path ` set src = {}"

lemma link_loop_links:
  assumes "mset (map xf_size fs) \<subseteq># unused_sizes src used" and "apart dls src fs"
    and "\<forall>f\<in>set src. d (df_path f) \<noteq> None" and "\<And>f. f \<in> set fs \<Longrightarrow> \<not> mk (link_path dls f)"
  shows "\<exists>picks d'. link_loop mk dls src used fs d = (True, d') \<and> distinct picks
    \<and> list_all2 (\<lambda>i f. i \<notin> used \<and> i < length src \<and> df_size (src ! i) = xf_size f \<and> d' (link_path dls f) = d (df_path (src ! i))) picks fs
    \<and> (\<forall>q. q \<notin> link_path dls ` set fs \<longrightarrow> d' q = d q)"
  using assms
proof (induction fs arbitrary: used d)
  case Nil
  show ?case by (rule exI [of _ "[]"]) simp
next
  case (Cons f fs)
  have sz: "xf_size f \<in># unused_sizes src used" and rest: "mset (map xf_size fs) \<subseteq># unused_sizes src used - {#xf_size f#}"
    using Cons.prems(1) by (auto simp: insert_subset_eq_iff)
  obtain i where i: "pick_source src used (xf_size f) = Some i" using pick_source_some [OF sz] .
  note u = pick_source_used [OF i]
  from Cons.prems(2) have ap: "apart dls src fs" "link_path dls f \<notin> df_path ` set src" "link_path dls f \<notin> link_path dls ` set fs"
    by (auto simp: apart_def)
  obtain c where c: "d (df_path (src ! i)) = Some c" using Cons.prems(3) u(2) by fastforce
  have ne: "df_path (src ! i) \<noteq> link_path dls f" using ap(2) u(2) by (metis image_eqI nth_mem)
  let ?d = "d(link_path dls f \<mapsto> c)"
  have keep: "?d (df_path g) = d (df_path g)" if "g \<in> set src" for g using ap(2) that by (metis fun_upd_other image_eqI)
  have step: "link_loop mk dls src used (f # fs) d = link_loop mk dls src (insert i used) fs ?d"
    using i c ne Cons.prems(4) [of f] by (simp add: link_path_def)
  have have_src: "\<forall>g\<in>set src. ?d (df_path g) \<noteq> None" using keep Cons.prems(3) by metis
  have dirs: "\<And>g. g \<in> set fs \<Longrightarrow> \<not> mk (link_path dls g)" using Cons.prems(4) by simp
  have "mset (map xf_size fs) \<subseteq># unused_sizes src (insert i used)" using rest u(4) by simp
  from Cons.IH [OF this ap(1) have_src dirs]
  obtain picks d' where ih: "link_loop mk dls src (insert i used) fs ?d = (True, d')" "distinct picks"
    "list_all2 (\<lambda>k g. k \<notin> insert i used \<and> k < length src \<and> df_size (src ! k) = xf_size g \<and> d' (link_path dls g) = ?d (df_path (src ! k))) picks fs"
    "\<forall>q. q \<notin> link_path dls ` set fs \<longrightarrow> d' q = ?d q"
    by blast
  have "i \<notin> set picks" using ih(3) by (auto simp: list_all2_conv_all_nth in_set_conv_nth)
  moreover have "list_all2 (\<lambda>k g. k \<notin> used \<and> k < length src \<and> df_size (src ! k) = xf_size g \<and> d' (link_path dls g) = d (df_path (src ! k))) picks fs"
    using ih(3) by (rule list_all2_mono) (use keep in auto)
  moreover have "d' (link_path dls f) = d (df_path (src ! i))" using ih(4) ap(3) c by simp
  moreover have "\<forall>q. q \<notin> link_path dls ` set (f # fs) \<longrightarrow> d' q = d q" using ih(4) by simp
  ultimately show ?case
    using ih(1,2) u step by (intro exI [of _ "i # picks"] exI [of _ d']) simp
qed

text \<open>
  When the sizes of the new torrent's files are among those of the files on disk, which
  \<open>SubsetBySize\<close> decides, the directories can be made, the source files exist and no link falls on a
  source or on another link, linking succeeds: every file of the new torrent shows the content of its
  own source file, of the same size, no source is used twice, and no other path changes.
\<close>

theorem cross_seed_links_right:
  assumes "subset_sizes (map xf_size (tm_files m)) (map df_size src)"
    and "apart (rn_downloads rn) src (tm_files m)" and "\<forall>f\<in>set src. d (df_path f) \<noteq> None"
  shows "\<exists>picks d'. link_cross_seed (\<lambda>_. False) rn m src d = (True, d') \<and> distinct picks
    \<and> list_all2 (\<lambda>i f. i < length src \<and> df_size (src ! i) = xf_size f
         \<and> d' (link_path (rn_downloads rn) f) = d (df_path (src ! i))) picks (tm_files m)
    \<and> (\<forall>q. q \<notin> link_path (rn_downloads rn) ` set (tm_files m) \<longrightarrow> d' q = d q)"
proof -
  have "map (\<lambda>i. df_size (src ! i)) [0..<length src] = map df_size src" by (intro nth_equalityI) auto
  then have "unused_sizes src {} = mset (map df_size src)"
    by (simp only: unused_sizes_def mset_map [symmetric] empty_iff not_False_eq_True filter_mset_True)
  then have "mset (map xf_size (tm_files m)) \<subseteq># unused_sizes src {}"
    using assms(1) by (simp add: subset_sizes_def subset_by_size_mset)
  from link_loop_links [OF this assms(2,3), of "\<lambda>_. False"] obtain picks d' where
    h: "link_loop (\<lambda>_. False) (rn_downloads rn) src {} (tm_files m) d = (True, d')" "distinct picks"
    "list_all2 (\<lambda>i f. i \<notin> {} \<and> i < length src \<and> df_size (src ! i) = xf_size f
        \<and> d' (link_path (rn_downloads rn) f) = d (df_path (src ! i))) picks (tm_files m)"
    "\<forall>q. q \<notin> link_path (rn_downloads rn) ` set (tm_files m) \<longrightarrow> d' q = d q" by auto
  then show ?thesis by (intro exI [of _ picks] exI [of _ d']) (simp add: link_cross_seed_def)
qed

definition episode :: "string \<Rightarrow> disk_file" where
  "episode n = \<lparr>df_path = ''/downloads/Show/'' @ n, df_size = 2\<rparr>"

definition show_meta :: torrent_meta where
  "show_meta = \<lparr>tm_hash = ''cd'', tm_name = ''Show'', tm_files = [\<lparr>xf_path = ''e1.mkv'', xf_size = 2\<rparr>]\<rparr>"

definition show_disk :: disk where
  "show_disk q = (if q = ''/downloads/Show/e1.mkv'' then Some [1, 2] else None)"

theorem cross_seed_links_right_witness:
  "\<exists>picks d'. link_cross_seed (\<lambda>_. False) node_runner show_meta [episode ''e1.mkv''] show_disk = (True, d') \<and> distinct picks
    \<and> list_all2 (\<lambda>i f. i < length [episode ''e1.mkv''] \<and> df_size ([episode ''e1.mkv''] ! i) = xf_size f
         \<and> d' (link_path (rn_downloads node_runner) f) = show_disk (df_path ([episode ''e1.mkv''] ! i))) picks (tm_files show_meta)
    \<and> (\<forall>q. q \<notin> link_path (rn_downloads node_runner) ` set (tm_files show_meta) \<longrightarrow> d' q = show_disk q)"
proof (rule cross_seed_links_right)
  show "subset_sizes (map xf_size (tm_files show_meta)) (map df_size [episode ''e1.mkv''])"
    by (simp add: subset_sizes_def show_meta_def episode_def)
  have "path_join ''/downloads'' ''e1.mkv'' = ''/downloads/e1.mkv''" by code_simp
  then show "apart (rn_downloads node_runner) [episode ''e1.mkv''] (tm_files show_meta)"
    by (simp add: apart_def link_path_def show_meta_def episode_def node_runner_def)
  show "\<forall>f\<in>set [episode ''e1.mkv'']. show_disk (df_path f) \<noteq> None" by (simp add: episode_def show_disk_def)
qed

lemma t_fail_disk [simp]: "w_disk (tw_world (snd (t_fail flt others k now j r w))) = w_disk (tw_world w)"
  by (simp add: t_fail_def t_update_def write_job_def emit_def on_db_def case_prod_unfold)

lemma cleanup_links_removes:
  "tm_name m \<noteq> [] \<Longrightarrow> has_prefix q (path_join (rn_downloads rn) (tm_name m) @ ''/'') \<Longrightarrow>
    w_disk (cleanup_links rn m w) q = None"
  by (simp add: cleanup_links_def remove_all_def)

text \<open>
  The clean-up after a failed cross-seed removes the directory of the new torrent's name under the
  downloads, whatever is in it. When the source torrent has the same name and lies there, a failed
  link, injection or recheck leaves the source, which is still seeding, without its files.
\<close>

theorem failed_cross_seed_deletes_source:
  assumes "xe_meta xe = Some (Some m)" and "tm_name m \<noteq> []" and "en_login en"
    and "cross_seed_source rn en m (if xe_list_fails xe then [] else filter (\<lambda>s. status s = StatusSeeding) (table_of w)) = Some (s, src)"
    and "\<not> fst (link_cross_seed (xe_mkdir_fails xe) rn m src (w_disk (tw_world w))) \<or> \<not> xe_added xe
      \<or> \<not> verify_loop 20 (xe_stop xe) (xe_answers xe)"
    and "f \<in> set src" and "has_prefix (df_path f) (path_join (rn_downloads rn) (tm_name m) @ ''/'')"
  shows "w_disk (tw_world (snd (cross_seed rn flt others now en xe j w))) (df_path f) = None"
proof -
  obtain b d where l: "link_cross_seed (xe_mkdir_fails xe) rn m src (w_disk (tw_world w)) = (b, d)" by fastforce
  note gone = cleanup_links_removes [OF assms(2,7)]
  show ?thesis
    using assms(1,3,4,5) l by (cases b) (auto simp: cross_seed_def table_of_def Let_def gone)
qed

definition old_seed :: job where
  "old_seed = film_job\<lparr>status := StatusSeeding, seed := True, jname := ''Show'',
     files := [\<lparr>file_index = 0, file_name = ''e1.mkv'', file_bytes = 2, file_key = [], file_enc = False\<rparr>]\<rparr>"

definition show_engine :: engine where
  "show_engine = (engine_with (film_torrent ''stalledUP'' 0\<lparr>to_name := ''Show''\<rparr>))\<lparr>
     en_files := (\<lambda>_. Some [\<lparr>tf_index = 0, tf_name = ''Show/e1.mkv'', tf_size = 2\<rparr>])\<rparr>"

definition failing_recheck :: xseed_env where
  "failing_recheck = \<lparr>xe_meta = Some (Some show_meta), xe_list_fails = False, xe_mkdir_fails = (\<lambda>_. False), xe_link_text = [], xe_added = True,
     xe_stop = (\<lambda>_. False), xe_answers = (\<lambda>_. Some (film_torrent ''missingFiles'' 0))\<rparr>"

theorem failed_cross_seed_deletes_source_witness:
  "show_disk ''/downloads/Show/e1.mkv'' = Some [1, 2] \<and>
   w_disk (tw_world (snd (cross_seed node_runner no_pub_faults (\<lambda>_ d. d) 0 show_engine failing_recheck
     (film_job\<lparr>jid := ''j2'', info_hash := ''cd''\<rparr>) (start_world [old_seed] show_disk)))) ''/downloads/Show/e1.mkv'' = None"
proof -
  have p: "path_join ''/downloads'' ''Show/e1.mkv'' = ''/downloads/Show/e1.mkv''" "path_join ''/downloads'' ''Show'' = ''/downloads/Show''"
    by code_simp+
  have "cross_seed_source node_runner show_engine show_meta (filter (\<lambda>s. status s = StatusSeeding) (table_of (start_world [old_seed] show_disk)))
      = Some (old_seed, [episode ''e1.mkv''])"
    by (simp add: table_of_def start_world_def old_seed_def film_job_def node_runner_def show_meta_def subset_sizes_def
        file_sizes_def show_engine_def engine_with_def film_torrent_def disk_files_def episode_def p)
  moreover have "\<not> verify_loop 20 (xe_stop failing_recheck) (xe_answers failing_recheck)"
    by (simp add: eval_nat_numeral failing_recheck_def film_torrent_def is_error_def)
  ultimately show ?thesis
    using failed_cross_seed_deletes_source [of failing_recheck show_meta show_engine node_runner "start_world [old_seed] show_disk"
        old_seed "[episode ''e1.mkv'']" "episode ''e1.mkv''" no_pub_faults "\<lambda>_ d. d" 0 "film_job\<lparr>jid := ''j2'', info_hash := ''cd''\<rparr>"]
    by (simp add: failing_recheck_def show_meta_def show_engine_def engine_with_def episode_def node_runner_def p has_prefix_def show_disk_def)
qed

end
