(* ===== verification/Job_Control.thy ===== *)
theory Job_Control
  imports Submit Torrent_Runner
begin

text \<open>
  Deleting jobs: \<open>deleteJob\<close> (\<open>api/internal/handlers/jobs.go\<close>), \<open>adminDeleteJob\<close> and \<open>deleteAccount\<close>,
  and the subscriber of the ingest node that hears of it (\<open>ingest/cmd/main.go\<close>), with the register of
  running jobs it cancels. What the handlers ask of other services is logged in order. The handlers
  work on the tables of \<open>Job_Blobs\<close>; \<open>dl_others k\<close> is what others do before the operation \<open>k\<close>.
\<close>

section \<open>The handlers\<close>

datatype delete_call =
    StoreDelete string
  | PublishDeleted job
  | WakeQueue
  | Tombstone string string
  | ClearNZB string
  | SeedDelete string

record delete_env =
  dl_flt :: "nat \<Rightarrow> db_error faults"
  dl_others :: "nat \<Rightarrow> cache \<Rightarrow> cache"
  dl_now :: int
  dl_users :: bool
  dl_seed_engine :: bool

definition hash_rows :: "delete_env \<Rightarrow> nat \<Rightarrow> cache \<Rightarrow> string \<Rightarrow> job list" where
  "hash_rows e k c h = (if dl_flt e k 0 = None then list_by_info_hash (cdb c) h else [])"

definition in_flight :: "job \<Rightarrow> bool" where
  "in_flight j \<longleftrightarrow> status_active (status j) \<and> status j \<noteq> StatusQueued"

text \<open>The deletion proper, from operation 3 on, and the calls that follow it.\<close>

definition delete_now :: "delete_env \<Rightarrow> string \<Rightarrow> job \<Rightarrow> cache \<Rightarrow> delete_call list \<times> cache" where
  "delete_now e u j c =
     (let c1 = snd (delete_job (dl_flt e 3) (dl_others e 3 c) (jid j));
          ev1 = (if input_key j \<noteq> [] then [StoreDelete (input_key j)] else []) @ (if in_flight j then [PublishDeleted j] else []) @ [WakeQueue];
          usenet = source j = SourceUsenet \<and> dl_users e;
          c2 = (if usenet then dl_others e 4 c1 else c1);
          ev2 = (if usenet then Tombstone u (info_hash j) # (if hash_rows e 4 c2 (info_hash j) = [] then [ClearNZB (info_hash j)] else []) else []);
          seeds = seed j \<and> in_flight j \<and> source j = SourceTorrent;
          c3 = (if seeds then dl_others e 5 c2 else c2);
          ev3 = (if seeds \<and> hash_rows e 5 c3 (info_hash j) = [] \<and> dl_seed_engine e then [SeedDelete (info_hash j)] else [])
      in (ev1 @ ev2 @ ev3, c3))"

definition delete_request :: "delete_env \<Rightarrow> string \<Rightarrow> string \<Rightarrow> cache \<Rightarrow> reply \<times> delete_call list \<times> cache" where
  "delete_request e u i c =
     (let c0 = dl_others e 0 c in
      case get_job (dl_flt e 0) 0 (cdb c0) i of Inl _ \<Rightarrow> (Refused 404 ''job not found'', [], c0)
      | Inr j \<Rightarrow>
        if user_id j \<noteq> u then (Refused 404 ''job not found'', [], c0)
        else if seed j \<and> status j = StatusSeeding
        then (Refused 409 ''seeding until it meets its ratio/time target, this frees automatically'', [], c0)
        else let c1 = (if status j = StatusComplete then dl_others e 1 c0 else c0) in
          if status j = StatusComplete \<and> length (hash_rows e 1 c1 (info_hash j)) \<le> 1
          then let c2 = dl_others e 2 c1 in
            (case update_job (dl_flt e 2) 0 (dl_now e) (cdb c2) (j\<lparr>user_id := ''system''\<rparr>) of
               (Inl _, d) \<Rightarrow> (Refused 500 ''could not delete this download'', [], c2\<lparr>cdb := d\<rparr>)
             | (Inr _, d) \<Rightarrow> (Deleted, [], c2\<lparr>cdb := d\<rparr>))
          else (case delete_now e u j c1 of (evs, c2) \<Rightarrow> (Deleted, evs, c2)))"

definition admin_delete :: "delete_env \<Rightarrow> string \<Rightarrow> cache \<Rightarrow> reply \<times> delete_call list \<times> cache" where
  "admin_delete e i c =
     (let c0 = dl_others e 0 c; c1 = dl_others e 1 c0 in
      case delete_job (dl_flt e 1) c1 i of (Inl _, c2) \<Rightarrow> (Refused 500 ''job lookup failed'', [], c2)
      | (Inr _, c2) \<Rightarrow>
          (case get_job (dl_flt e 0) 0 (cdb c0) i of Inl _ \<Rightarrow> (Deleted, [WakeQueue], c2)
           | Inr j \<Rightarrow> (Deleted, (if input_key j \<noteq> [] then [StoreDelete (input_key j)] else [])
               @ (if \<not> in_flight j then []
                  else if seed j \<and> source j = SourceTorrent \<and> dl_seed_engine e then [SeedDelete (info_hash j)]
                  else if \<not> seed j then [PublishDeleted j] else [])
               @ [WakeQueue], c2)))"

fun delete_all :: "delete_env \<Rightarrow> nat \<Rightarrow> job list \<Rightarrow> cache \<Rightarrow> delete_call list \<times> cache" where
  "delete_all e k [] c = ([], c)"
| "delete_all e k (j # js) c =
     (let ev = (if input_key j \<noteq> [] then [StoreDelete (input_key j)] else [])
            @ (if in_flight j \<and> \<not> seed j then [PublishDeleted j] else [])
            @ (if in_flight j \<and> seed j \<and> source j = SourceTorrent \<and> dl_seed_engine e then [SeedDelete (info_hash j)] else []);
          c1 = snd (delete_job (dl_flt e k) (dl_others e k c) (jid j));
          (evs, c2) = delete_all e (Suc k) js c1
      in (ev @ evs, c2))"

text \<open>\<open>deleteAccount\<close>: \<open>ListAll\<close> reads the account's rows, or none when its first page fails.\<close>

definition delete_account :: "delete_env \<Rightarrow> string \<Rightarrow> cache \<Rightarrow> delete_call list \<times> cache" where
  "delete_account e u c =
     (let c0 = dl_others e 0 c;
          js = (if dl_flt e 0 0 = None then filter (\<lambda>j. user_id j = u) (jobs_t (cdb c0)) else []);
          (evs, c1) = delete_all e 1 js c0
      in (evs @ [WakeQueue], c1))"

section \<open>The ingest node\<close>

text \<open>
  \<open>cancelRegistry\<close>: the running jobs, each with the worker whose context its entry cancels.
\<close>

type_synonym cancel_registry = "string \<Rightarrow> nat option"

definition new_cancel_registry :: cancel_registry where
  "new_cancel_registry = (\<lambda>_. None)"

definition track_if_absent :: "cancel_registry \<Rightarrow> string \<Rightarrow> nat \<Rightarrow> bool \<times> cancel_registry" where
  "track_if_absent m i w = (case m i of Some _ \<Rightarrow> (False, m) | None \<Rightarrow> (True, m(i \<mapsto> w)))"

definition untrack :: "cancel_registry \<Rightarrow> string \<Rightarrow> cancel_registry" where
  "untrack m i = m(i := None)"

definition has_job :: "cancel_registry \<Rightarrow> string \<Rightarrow> bool" where
  "has_job m i \<longleftrightarrow> m i \<noteq> None"

definition cancel_job :: "cancel_registry \<Rightarrow> string \<Rightarrow> nat option \<times> cancel_registry" where
  "cancel_job m i = (m i, m(i := None))"

text \<open>
  The subscriber of \<open>JobDeleted\<close>: the torrent runner's world and the seed runner's, which share the
  tables. The result is the cancelled worker, the register and the two worlds.
\<close>

definition on_deleted :: "runner \<Rightarrow> publisher \<Rightarrow> bool \<Rightarrow> engine \<Rightarrow> engine \<Rightarrow> job \<Rightarrow> cancel_registry \<Rightarrow> tworld \<Rightarrow> tworld
    \<Rightarrow> nat option \<times> cancel_registry \<times> tworld \<times> tworld" where
  "on_deleted rn p uf en sen j m w sw =
     (case cancel_job m (jid j) of (wk, m1) \<Rightarrow>
        if source j = SourceTorrent \<and> mine rn (node j) \<and> info_hash j \<noteq> []
        then let w1 = meter_abort p uf en (info_hash j) (user_id j) w; w2 = remove_torrent en (info_hash j) w1
          in (wk, m1, w2, remove_torrent sen (info_hash j) (sw\<lparr>tw_world := tw_world w2\<rparr>))
        else (wk, m1, w, sw))"

section \<open>What a deletion leaves\<close>

lemma get_job_find:
  assumes "store_ok d" and "j \<in> set (jobs_t d)"
  shows "get_job no_faults k d (jid j) = Inr j"
proof -
  have "find (\<lambda>r. jid r = jid j) (jobs_t d) = Some j"
    using assms jid_unique [OF assms(1)] by (cases "find (\<lambda>r. jid r = jid j) (jobs_t d)") (auto simp: find_None_iff find_Some_iff)
  then show ?thesis by (simp add: get_job_def run_def no_faults_def bindE_def not_found_def)
qed

lemma delete_job_leaves:
  assumes "store_ok (cdb c)" and "j \<in> set (jobs_t (cdb c))"
    and "r \<in> set (jobs_t (cdb c))" "jid r \<noteq> jid j" "info_hash r = info_hash j"
  shows "snd (delete_job no_faults c (jid j)) = c\<lparr>cdb := (cdb c)\<lparr>jobs_t := filter (\<lambda>x. jid x \<noteq> jid j) (jobs_t (cdb c))\<rparr>\<rparr>"
proof -
  have f: "find (\<lambda>r. jid r = jid j) (jobs_t (cdb c)) = Some j"
    using get_job_find [OF assms(1,2), of 0]
    by (auto simp: get_job_def run_def no_faults_def bindE_def not_found_def split: option.splits)
  have "count_where (\<lambda>x. info_hash x = info_hash j) (filter (\<lambda>x. jid x \<noteq> jid j) (jobs_t (cdb c))) \<noteq> 0"
    using assms(3-5) by (auto simp: count_where_0)
  then show ?thesis
    using f by (simp add: delete_job_def delete_row_def run_def no_faults_def Let_def)
qed

lemma complete_seed_events:
  "tw_events (complete_seed flt others k now en j None w) = tw_events w @ [RunEvent (JobComplete (jid j) (info_hash j) (node j))]"
  by (simp add: complete_seed_def t_update_def emit_def)

lemma seed_loop_mono: "set (tw_events w) \<subseteq> set (tw_events (seed_loop rn flt others k now ens js w))"
proof (induction js arbitrary: k w)
  case (Cons j js)
  have "set (tw_events w) \<subseteq> set (tw_events (complete_seed flt others k now (ens (jid j)) j t w))" for t
    by (cases t) (auto simp: complete_seed_def t_update_def emit_def delete_and_verify_def Let_def)
  then show ?case using Cons.IH by (auto simp: Let_def split: option.splits) blast+
qed simp

lemma seed_loop_completes_missing:
  assumes "v \<in> set js" and "mine rn (node v)" and "en_get (ens (jid v)) (info_hash v) = None"
  shows "RunEvent (JobComplete (jid v) (info_hash v) (node v)) \<in> set (tw_events (seed_loop rn flt others k now ens js w))"
  using assms(1)
proof (induction js arbitrary: k w)
  case (Cons j js)
  show ?case
  proof (cases "v = j")
    case True
    then have "RunEvent (JobComplete (jid v) (info_hash v) (node v)) \<in> set (tw_events (complete_seed flt others k now (ens (jid j)) j None w))"
      by (simp add: complete_seed_events)
    with True assms(2,3) seed_loop_mono show ?thesis by (fastforce simp: Let_def)
  next
    case False
    with Cons show ?thesis by (auto simp: Let_def split: option.splits)
  qed
qed simp

lemma meter_abort_cache: "w_cache (tw_world (meter_abort p uf en h u w)) = w_cache (tw_world w)"
  by (simp add: meter_abort_def meter_bytes_def split: option.splits)

lemma remove_torrent_simps:
  "tw_world (remove_torrent en h w) = tw_world w"
  "deleted (tw_calls (remove_torrent en h w)) = deleted (tw_calls w) @ (if en_login en then [h] else [])"
  by (simp_all add: remove_torrent_def release_def)

section \<open>Properties\<close>

text \<open>
  Deleting a completed download while the only other rows of its hash are failed or evicted ones
  strands its content: the row goes, the references stay because rows of the hash remain, no eviction
  candidate names the hash on any node at any time, sweeping dangling references, collecting and
  reconciling keep the object, and nothing in the evictor's reach frees it.
\<close>

theorem delete_strands_content:
  assumes "dl_flt e = (\<lambda>_. no_faults)" and "dl_others e = (\<lambda>_ c. c)"
    and "store_ok (cdb c)" and "j \<in> set (jobs_t (cdb c))" and "status j = StatusComplete" and "user_id j = u"
    and "r \<in> set (jobs_t (cdb c))" and "jid r \<noteq> jid j" and "info_hash r = info_hash j"
    and "\<forall>x\<in>set (jobs_t (cdb c)). info_hash x = info_hash j \<and> jid x \<noteq> jid j \<longrightarrow> status x \<in> {StatusFailed, StatusEvicted}"
    and "b \<in> set (refs_t c)" and "ref_hash b = info_hash j" and "ref_key b \<noteq> []" and "CHR ''/'' \<notin> set (ref_key b)"
    and "x \<in> set (objects c)" and "okey x = storage_key (ref_key b)"
  shows "case delete_request e u (jid j) c of (rp, evs, c') \<Rightarrow>
    rp = Deleted \<and> jid j \<notin> jid ` set (jobs_t (cdb c'))
    \<and> info_hash j \<notin> c_hash ` set (get_eviction_candidates now c' n)
    \<and> b \<in> set (refs_t (snd (drop_dangling_refs flt c')))
    \<and> (\<forall>fuel oc m fr c2. run_gc fuel oc c' = Some (m, fr, c2) \<longrightarrow> x \<in> set (objects (snd (run_reconcile oc now c2))))"
proof -
  let ?c' = "c\<lparr>cdb := (cdb c)\<lparr>jobs_t := filter (\<lambda>x. jid x \<noteq> jid j) (jobs_t (cdb c))\<rparr>\<rparr>"
  note low = store_okD(2) [OF assms(3)]
  have two: "\<not> length (hash_rows e 1 c (info_hash j)) \<le> 1"
  proof
    assume le: "length (hash_rows e 1 c (info_hash j)) \<le> 1"
    have "j \<in> set (hash_rows e 1 c (info_hash j))" "r \<in> set (hash_rows e 1 c (info_hash j))"
      using assms(1,4,7,9) by (simp_all add: hash_rows_def no_faults_def list_by_info_hash_def)
    then have "j = r" using le by (cases "hash_rows e 1 c (info_hash j)") auto
    with assms(8) show False by simp
  qed
  have d: "delete_request e u (jid j) c = (Deleted, fst (delete_now e u j c), snd (delete_now e u j c))"
    using get_job_find [OF assms(3,4), of 0] assms(1,2,5,6) two
    by (simp add: delete_request_def case_prod_unfold)
  have c': "snd (delete_now e u j c) = ?c'"
    using delete_job_leaves [OF assms(3,4,7-9)] assms(1,2) by (simp add: delete_now_def Let_def)
  have cand: "info_hash j \<notin> c_hash ` set (get_eviction_candidates now ?c' n)"
    using assms(10) candidate_hashes [of now ?c' n] by auto
  have ref: "b \<in> set (refs_t (snd (drop_dangling_refs flt ?c')))"
    using assms(7-9,11,12) by (auto simp: drop_dangling_refs_def run_def Let_def list_ex_iff split: option.splits)
  have "referenced ?c' (ref_key b)" using assms(11) by (auto simp: referenced_def)
  with gc_reconcile_keep [of _ _ ?c' _ _ _ "ref_key b" x now] assms(13-16)
  have "\<forall>fuel oc m fr c2. run_gc fuel oc ?c' = Some (m, fr, c2) \<longrightarrow> x \<in> set (objects (snd (run_reconcile oc now c2)))"
    by auto
  with d c' cand ref show ?thesis by simp auto
qed

definition lone_env :: delete_env where
  "lone_env = \<lparr>dl_flt = (\<lambda>_. no_faults), dl_others = (\<lambda>_ c. c), dl_now = 9, dl_users = True, dl_seed_engine = True\<rparr>"

definition rows_of_ab :: "job list" where
  "rows_of_ab = [film_job\<lparr>status := StatusComplete\<rparr>, film_job\<lparr>jid := ''j2'', user_id := ''u2'', status := StatusFailed\<rparr>]"

lemma lower_ab [simp]: "to_lower ''ab'' = ''ab''"
  by code_simp

theorem delete_strands_content_witness:
  "let b = \<lparr>ref_hash = ''ab'', ref_index = 0, ref_key = ''b1''\<rparr>;
       c = sample_cache\<lparr>cdb := \<lparr>jobs_t = rows_of_ab\<rparr>, refs_t := [b]\<rparr>
   in case delete_request lone_env ''u1'' ''j1'' c of (rp, evs, c') \<Rightarrow>
     rp = Deleted \<and> ''j1'' \<notin> jid ` set (jobs_t (cdb c')) \<and> ''ab'' \<notin> c_hash ` set (get_eviction_candidates 99 c' ''n1'')
     \<and> b \<in> set (refs_t (snd (drop_dangling_refs no_faults c')))"
proof -
  let ?b = "\<lparr>ref_hash = ''ab'', ref_index = 0, ref_key = ''b1''\<rparr>" and ?x = "\<lparr>okey = ''blobs/b1'', osize = 4, omod = 0\<rparr>"
  let ?c = "sample_cache\<lparr>cdb := \<lparr>jobs_t = rows_of_ab\<rparr>, refs_t := [?b]\<rparr>"
  let ?j = "film_job\<lparr>status := StatusComplete\<rparr>" and ?r = "film_job\<lparr>jid := ''j2'', user_id := ''u2'', status := StatusFailed\<rparr>"
  have st: "store_ok (cdb ?c)"
    by (simp add: store_ok_def rows_of_ab_def film_job_def same_live_key_def has_live_user_identity_def)
  have "case delete_request lone_env ''u1'' (jid ?j) ?c of (rp, evs, c') \<Rightarrow>
    rp = Deleted \<and> jid ?j \<notin> jid ` set (jobs_t (cdb c'))
    \<and> info_hash ?j \<notin> c_hash ` set (get_eviction_candidates 99 c' ''n1'')
    \<and> ?b \<in> set (refs_t (snd (drop_dangling_refs no_faults c')))
    \<and> (\<forall>fuel oc m fr c2. run_gc fuel oc c' = Some (m, fr, c2) \<longrightarrow> ?x \<in> set (objects (snd (run_reconcile oc 99 c2))))"
    by (rule delete_strands_content [where r = ?r])
      (use st in \<open>simp_all add: lone_env_def rows_of_ab_def film_job_def sample_cache_def storage_key_def\<close>)
  then show ?thesis by (auto simp: Let_def film_job_def split: prod.splits)
qed

text \<open>
  Deleting a download ends another account's seed of the same torrent: the deletion is announced,
  the ingest node removes the hash, files included, from the seed engine as well, and the next pass
  over the seeds, finding it gone, sets the other account's seeding job to complete, whatever ratio
  and time it has reached.
\<close>

theorem deletion_ends_foreign_seed:
  assumes "dl_flt e = (\<lambda>_. no_faults)" and "dl_others e = (\<lambda>_ c. c)"
    and "store_ok (cdb c)" and "j \<in> set (jobs_t (cdb c))" and "user_id j = u" and "\<not> seed j" and "in_flight j"
    and "source j = SourceTorrent" and "mine rn (node j)" and "info_hash j \<noteq> []" and "status j \<noteq> StatusComplete"
    and "v \<in> set (jobs_t (cdb c))" and "seed v" and "status v = StatusSeeding" and "info_hash v = info_hash j" and "mine rn (node v)"
    and "w_cache (tw_world w) = snd (snd (delete_request e u (jid j) c))" and "en_login sen"
    and "on_deleted rn p uf en sen j m w sw = (wk, m1, w1, sw1)" and "\<And>i. en_get (ens i) (info_hash j) = None"
  shows "PublishDeleted j \<in> set (fst (snd (delete_request e u (jid j) c)))
    \<and> deleted (tw_calls sw1) = deleted (tw_calls sw) @ [info_hash j]
    \<and> RunEvent (JobComplete (jid v) (info_hash v) (node v)) \<in> set (tw_events (check_seeds rn flt others now True ens False sw1))"
proof -
  have ne: "jid v \<noteq> jid j" using jid_unique [OF assms(3,12,4)] assms(6,13) by auto
  have d: "delete_request e u (jid j) c = (Deleted, fst (delete_now e u j c), snd (delete_now e u j c))"
    using get_job_find [OF assms(3,4), of 0] assms(1,2,5,6,11) by (simp add: delete_request_def case_prod_unfold)
  have c': "snd (delete_now e u j c) = c\<lparr>cdb := (cdb c)\<lparr>jobs_t := filter (\<lambda>x. jid x \<noteq> jid j) (jobs_t (cdb c))\<rparr>\<rparr>"
    using delete_job_leaves [OF assms(3,4,12) ne assms(15)] assms(1,2) by (simp add: delete_now_def Let_def)
  have ev: "PublishDeleted j \<in> set (fst (delete_now e u j c))" using assms(7) by (simp add: delete_now_def Let_def)
  have sw1: "sw1 = remove_torrent sen (info_hash j) (sw\<lparr>tw_world := tw_world (remove_torrent en (info_hash j) (meter_abort p uf en (info_hash j) (user_id j) w))\<rparr>)"
    using assms(8-10,19) by (auto simp: on_deleted_def Let_def split: prod.splits)
  have "v \<in> set (filter (\<lambda>x. status x = StatusSeeding) (jobs_t (cdb (w_cache (tw_world sw1)))))"
    using assms(12,14,17) ne by (simp add: sw1 remove_torrent_simps meter_abort_cache d c')
  from seed_loop_completes_missing [OF this assms(16)] assms(15,20)
  have "RunEvent (JobComplete (jid v) (info_hash v) (node v)) \<in> set (tw_events (check_seeds rn flt others now True ens False sw1))"
    by (simp add: check_seeds_def)
  then show ?thesis using ev assms(18) by (simp add: d sw1 remove_torrent_simps)
qed

definition pirate_rows :: "job list" where
  "pirate_rows = [film_job, film_job\<lparr>jid := ''j2'', user_id := ''u2'', seed := True, status := StatusSeeding\<rparr>]"

theorem deletion_ends_foreign_seed_witness:
  "let c = sample_cache\<lparr>cdb := \<lparr>jobs_t = pirate_rows\<rparr>\<rparr>; out = delete_request lone_env ''u1'' ''j1'' c;
       w = (start_world [] (\<lambda>_. None))\<lparr>tw_world := (tw_world (start_world [] (\<lambda>_. None)))\<lparr>w_cache := snd (snd out)\<rparr>\<rparr>;
       gone = engine_with (film_torrent ''stalledUP'' 0\<lparr>to_hash := ''xx''\<rparr>)
   in case on_deleted node_runner sample_publisher False gone gone film_job (\<lambda>_. None) w w of (wk, m1, w1, sw1) \<Rightarrow>
     deleted (tw_calls sw1) = [''ab''] \<and>
     RunEvent (JobComplete ''j2'' ''ab'' ''n1'') \<in> set (tw_events (check_seeds node_runner no_pub_faults (\<lambda>_ d. d) 9 True (\<lambda>_. gone) False sw1))"
proof -
  let ?c = "sample_cache\<lparr>cdb := \<lparr>jobs_t = pirate_rows\<rparr>\<rparr>" and ?v = "film_job\<lparr>jid := ''j2'', user_id := ''u2'', seed := True, status := StatusSeeding\<rparr>"
  let ?out = "delete_request lone_env ''u1'' (jid film_job) ?c"
  let ?w = "(start_world [] (\<lambda>_. None))\<lparr>tw_world := (tw_world (start_world [] (\<lambda>_. None)))\<lparr>w_cache := snd (snd ?out)\<rparr>\<rparr>"
  let ?gone = "engine_with (film_torrent ''stalledUP'' 0\<lparr>to_hash := ''xx''\<rparr>)"
  obtain wk m1 w1 sw1 where o: "on_deleted node_runner sample_publisher False ?gone ?gone film_job (\<lambda>_. None) ?w ?w = (wk, m1, w1, sw1)"
    by (cases "on_deleted node_runner sample_publisher False ?gone ?gone film_job (\<lambda>_. None) ?w ?w") auto
  have st: "store_ok (cdb ?c)"
    by (simp add: store_ok_def pirate_rows_def film_job_def same_live_key_def has_live_user_identity_def)
  have "PublishDeleted film_job \<in> set (fst (snd ?out)) \<and> deleted (tw_calls sw1) = deleted (tw_calls ?w) @ [info_hash film_job]
    \<and> RunEvent (JobComplete (jid ?v) (info_hash ?v) (node ?v)) \<in> set (tw_events (check_seeds node_runner no_pub_faults (\<lambda>_ d. d) 9 True (\<lambda>_. ?gone) False sw1))"
    by (rule deletion_ends_foreign_seed [OF _ _ st _ _ _ _ _ _ _ _ _ _ _ _ _ _ _ o])
      (simp_all add: lone_env_def pirate_rows_def film_job_def in_flight_def status_active_def active_statuses_def mine_def
        node_runner_def engine_with_def start_world_def)
  then show ?thesis
    using o by (simp add: Let_def film_job_def start_world_def)
qed

end
