(* ===== verification/Guards.thy ===== *)
theory Guards
  imports Prelude "HOL-Library.Multiset"
begin

text \<open>
  The counting guards of the services: \<open>streamGuard\<close> and \<open>zipGuard\<close>
  (\<open>stream/internal/server\<close>), the download gate of the ingest node (\<open>ingest/cmd/gate.go\<close>) and the
  reference-counted rate limiters (\<open>shared/providers/ratecap.go\<close>). Each holds its mutex for a whole
  operation, so an operation is an atomic step. Their contract is the locale \<open>counting\<close>: after any
  interleaving of requests and releases the guard counts, per key, exactly the grants that are still
  out; \<open>limited\<close> adds a bound per key and \<open>pooled\<close> a bound on all of them.
\<close>

section \<open>The contract\<close>

text \<open>
  Clients of a guard: a granted request joins the outstanding grants, a release gives one back. A
  request has a key and a payload (the bandwidth asked for, the state of the context, or nothing).
\<close>

inductive guard_step ::
  "('a \<Rightarrow> 'g \<Rightarrow> 'k \<Rightarrow> bool \<times> 'g) \<Rightarrow> ('g \<Rightarrow> 'k \<Rightarrow> 'g) \<Rightarrow> ('a \<Rightarrow> 'k \<Rightarrow> bool) \<Rightarrow> 'g \<times> 'k multiset \<Rightarrow> 'g \<times> 'k multiset \<Rightarrow> bool"
  for acq rel tracked where
  granted: "tracked a k \<Longrightarrow> acq a g k = (True, g') \<Longrightarrow> guard_step acq rel tracked (g, H) (g', add_mset k H)"
| refused: "tracked a k \<Longrightarrow> acq a g k = (False, g') \<Longrightarrow> guard_step acq rel tracked (g, H) (g', H)"
| released: "k \<in># H \<Longrightarrow> guard_step acq rel tracked (g, H) (rel g k, H - {#k#})"

inductive_cases guard_stepE: "guard_step acq rel tracked s t"

locale counting =
  fixes acquire :: "'a \<Rightarrow> 'g \<Rightarrow> 'k \<Rightarrow> bool \<times> 'g"
    and release :: "'g \<Rightarrow> 'k \<Rightarrow> 'g"
    and tracked :: "'a \<Rightarrow> 'k \<Rightarrow> bool"
    and held :: "'g \<Rightarrow> 'k \<Rightarrow> nat"
    and good :: "'g \<Rightarrow> bool"
  assumes grant: "good g \<Longrightarrow> tracked a k \<Longrightarrow> acquire a g k = (True, g') \<Longrightarrow>
      good g' \<and> held g' = (held g)(k := Suc (held g k))"
    and refuse: "good g \<Longrightarrow> tracked a k \<Longrightarrow> acquire a g k = (False, g') \<Longrightarrow> good g' \<and> held g' = held g"
    and give_back: "good g \<Longrightarrow> 0 < held g k \<Longrightarrow>
      good (release g k) \<and> held (release g k) = (held g)(k := held g k - 1)"
begin

lemma step_counts:
  assumes "guard_step acquire release tracked (g, H) (g', H')" and "good g" and "held g = count H"
  shows "good g' \<and> held g' = count H'"
  using assms(1)
proof (rule guard_stepE)
  fix a k g1 g2 H1
  assume "tracked a k" "acquire a g1 k = (True, g2)" "(g, H) = (g1, H1)" "(g', H') = (g2, add_mset k H1)"
  then show ?thesis using grant assms(2,3) by fastforce
next
  fix a k g1 g2 H1
  assume "tracked a k" "acquire a g1 k = (False, g2)" "(g, H) = (g1, H1)" "(g', H') = (g2, H1)"
  then show ?thesis using refuse assms(2,3) by fastforce
next
  fix k H1 g1
  assume "k \<in># H1" "(g, H) = (g1, H1)" "(g', H') = (release g1 k, H1 - {#k#})"
  then show ?thesis using give_back [of g k] assms(2,3) by (auto simp: fun_eq_iff)
qed

lemma run_counts:
  assumes "(guard_step acquire release tracked)\<^sup>*\<^sup>* (g, H) (g', H')" and "good g" and "held g = count H"
  shows "good g' \<and> held g' = count H'"
proof -
  have "case s of (g', H') \<Rightarrow> good g' \<and> held g' = count H'"
    if "(guard_step acquire release tracked)\<^sup>*\<^sup>* (g, H) s" for s
    using that
  proof (induction rule: rtranclp_induct)
    case base
    show ?case using assms(2,3) by simp
  next
    case (step y z)
    then show ?case using step_counts by (cases y; cases z) auto
  qed
  from this [OF assms(1)] show ?thesis by simp
qed

end

locale limited = counting +
  fixes cap :: "'g \<Rightarrow> nat"
  assumes grant_capped: "good g \<Longrightarrow> tracked a k \<Longrightarrow> acquire a g k = (True, g') \<Longrightarrow> held g k < cap g"
    and cap_acquire: "good g \<Longrightarrow> cap (snd (acquire a g k)) = cap g"
    and cap_release: "good g \<Longrightarrow> cap (release g k) = cap g"
begin

lemma run_limited:
  assumes "(guard_step acquire release tracked)\<^sup>*\<^sup>* (g, H) (g', H')" and "good g" and "held g = count H"
    and "\<And>k. count H k \<le> cap g"
  shows "cap g' = cap g \<and> count H' k \<le> cap g"
proof -
  have "case s of (g', H') \<Rightarrow> good g' \<and> held g' = count H' \<and> cap g' = cap g \<and> (\<forall>k. count H' k \<le> cap g)"
    if "(guard_step acquire release tracked)\<^sup>*\<^sup>* (g, H) s" for s
    using that
  proof (induction rule: rtranclp_induct)
    case base
    show ?case using assms(2-4) by simp
  next
    case (step y z)
    obtain g1 H1 g2 H2 where yz: "y = (g1, H1)" "z = (g2, H2)" by fastforce
    with step.IH have ih: "good g1" "held g1 = count H1" "cap g1 = cap g" "\<And>k. count H1 k \<le> cap g" by auto
    have c: "good g2 \<and> held g2 = count H2" using step_counts step.hyps(2) ih(1,2) yz by simp
    have "cap g2 = cap g \<and> (\<forall>k. count H2 k \<le> cap g)"
      using step.hyps(2) unfolding yz
    proof (rule guard_stepE)
      fix a k g3 g4 H3
      assume s: "tracked a k" "acquire a g3 k = (True, g4)" "(g1, H1) = (g3, H3)" "(g2, H2) = (g4, add_mset k H3)"
      then have "count H1 k < cap g" using grant_capped [of g1 a k g2] ih by simp
      moreover have "cap g2 = cap g" using cap_acquire [of g1 a k] ih s by simp
      ultimately show ?thesis using s ih(4) by (auto simp: Suc_le_eq)
    next
      fix a k g3 g4 H3
      assume s: "tracked a k" "acquire a g3 k = (False, g4)" "(g1, H1) = (g3, H3)" "(g2, H2) = (g4, H3)"
      then show ?thesis using cap_acquire [of g1 a k] ih by simp
    next
      fix k H3 g3
      assume s: "k \<in># H3" "(g1, H1) = (g3, H3)" "(g2, H2) = (release g3 k, H3 - {#k#})"
      then show ?thesis using cap_release [of g1 k] ih by (auto intro: le_trans diff_le_self)
    qed
    with c yz show ?case by simp
  qed
  from this [OF assms(1)] show ?thesis by simp
qed

end

text \<open>A guard whose grants also draw on a common pool.\<close>

locale pooled = limited +
  fixes drawn :: "'g \<Rightarrow> nat" and pool :: "'g \<Rightarrow> nat"
  assumes drawn_is_sum: "good g \<Longrightarrow> (\<And>k. held g k = count H k) \<Longrightarrow> drawn g = size H"
    and drawn_bounded: "good g \<Longrightarrow> drawn g \<le> pool g"
    and pool_acquire: "pool (snd (acquire a g k)) = pool g"
    and pool_release: "pool (release g k) = pool g"
begin

lemma run_pool:
  assumes "(guard_step acquire release tracked)\<^sup>*\<^sup>* (g, H) (g', H')"
  shows "pool g' = pool g"
proof -
  have "pool (fst s) = pool g" if "(guard_step acquire release tracked)\<^sup>*\<^sup>* (g, H) s" for s
    using that
  proof (induction rule: rtranclp_induct)
    case (step y z)
    have pa: "pool g2 = pool g1" if "acquire a g1 k = (b, g2)" for a g1 k b g2
      using pool_acquire [of a g1 k] that by simp
    from step.hyps(2) show ?case
      by (rule guard_stepE) (use step.IH in \<open>auto simp: pool_release dest: pa\<close>)
  qed simp
  from this [OF assms] show ?thesis by simp
qed

lemma run_pooled:
  assumes "(guard_step acquire release tracked)\<^sup>*\<^sup>* (g, H) (g', H')" and "good g" and "held g = count H"
  shows "drawn g' = size H' \<and> size H' \<le> pool g"
proof -
  have "good g' \<and> held g' = count H'" using run_counts [OF assms] .
  with drawn_is_sum [of g' H'] drawn_bounded [of g'] run_pool [OF assms(1)] show ?thesis by simp
qed

end

section \<open>\<open>streamGuard\<close>\<close>

datatype stream_limit = StreamAllowed | StreamLimitUser | StreamLimitTotal

record stream_guard =
  sg_inflight :: "string \<Rightarrow> nat option"
  sg_total :: nat
  sg_max_total :: nat
  sg_max_user :: nat

text \<open>A Go map reads a missing key as 0.\<close>

definition map_get :: "('k \<Rightarrow> nat option) \<Rightarrow> 'k \<Rightarrow> nat" where
  "map_get m k = (case m k of Some n \<Rightarrow> n | None \<Rightarrow> 0)"

definition new_stream_guard :: "int \<Rightarrow> int \<Rightarrow> stream_guard" where
  "new_stream_guard tot per_user =
     (let t = (if tot < 1 then 1 else tot); p0 = (if per_user < 1 then 1 else per_user);
          p = (if p0 > t then t else p0)
      in \<lparr>sg_inflight = Map.empty, sg_total = 0, sg_max_total = nat t, sg_max_user = nat p\<rparr>)"

definition stream_acquire :: "stream_guard \<Rightarrow> string \<Rightarrow> stream_limit \<times> stream_guard" where
  "stream_acquire g i =
     (if map_get (sg_inflight g) i \<ge> sg_max_user g then (StreamLimitUser, g)
      else if sg_total g \<ge> sg_max_total g then (StreamLimitTotal, g)
      else (StreamAllowed, g\<lparr>sg_inflight := (sg_inflight g)(i \<mapsto> Suc (map_get (sg_inflight g) i)),
                             sg_total := Suc (sg_total g)\<rparr>))"

definition stream_release :: "stream_guard \<Rightarrow> string \<Rightarrow> stream_guard" where
  "stream_release g i =
     (if map_get (sg_inflight g) i = 0 then g
      else let n = map_get (sg_inflight g) i - 1 in
        g\<lparr>sg_inflight := (if n = 0 then (sg_inflight g)(i := None) else (sg_inflight g)(i \<mapsto> n)),
          sg_total := sg_total g - 1\<rparr>)"

text \<open>The identity a Cairn link streams under: the signed user, else the signature itself.\<close>

definition cairn_stream_identity :: "string \<Rightarrow> string \<Rightarrow> string" where
  "cairn_stream_identity u sig = (if u \<noteq> [] then ''user:'' @ u else ''legacy:'' @ sig)"

section \<open>\<open>zipGuard\<close>\<close>

record zip_guard =
  zg_inflight :: "string \<Rightarrow> int option"
  zg_max :: int

definition int_get :: "('k \<Rightarrow> int option) \<Rightarrow> 'k \<Rightarrow> int" where
  "int_get m k = (case m k of Some n \<Rightarrow> n | None \<Rightarrow> 0)"

definition max_zips_per_user :: int where "max_zips_per_user = 2"

definition new_zip_guard :: "int \<Rightarrow> zip_guard" where
  "new_zip_guard mx = \<lparr>zg_inflight = Map.empty, zg_max = mx\<rparr>"

definition zip_acquire :: "zip_guard \<Rightarrow> string \<Rightarrow> bool \<times> zip_guard" where
  "zip_acquire g u =
     (if u = [] \<or> zg_max g \<le> 0 then (True, g)
      else if int_get (zg_inflight g) u \<ge> zg_max g then (False, g)
      else (True, g\<lparr>zg_inflight := (zg_inflight g)(u \<mapsto> int_get (zg_inflight g) u + 1)\<rparr>))"

definition zip_release :: "zip_guard \<Rightarrow> string \<Rightarrow> zip_guard" where
  "zip_release g u =
     (if u = [] \<or> zg_max g \<le> 0 then g
      else let n = int_get (zg_inflight g) u - 1 in
        g\<lparr>zg_inflight := (if n \<le> 0 then (zg_inflight g)(u := None) else (zg_inflight g)(u \<mapsto> n))\<rparr>)"

section \<open>The ingest gate\<close>

text \<open>
  A buffered channel of capacity \<open>n\<close>, or \<open>nil\<close> for no limit. \<open>select\<close> may take either ready
  branch: the payload says whether the context is done and whether that branch is taken.
\<close>

record gate =
  gate_len :: nat
  gate_cap :: nat

datatype gate_result = GateAcquired | GateCancelled | GateBlocked

definition new_gate :: "int \<Rightarrow> gate option" where
  "new_gate n = (if n < 1 then None else Some \<lparr>gate_len = 0, gate_cap = nat n\<rparr>)"

definition gate_acquire :: "bool \<times> bool \<Rightarrow> gate option \<Rightarrow> gate_result \<times> gate option" where
  "gate_acquire sel g0 = (case g0 of None \<Rightarrow> (GateAcquired, None)
     | Some g \<Rightarrow>
         let (ctx_done, take_done) = sel; room = gate_len g < gate_cap g in
         if ctx_done \<and> (take_done \<or> \<not> room) then (GateCancelled, Some g)
         else if room then (GateAcquired, Some (g\<lparr>gate_len := Suc (gate_len g)\<rparr>))
         else (GateBlocked, Some g))"

text \<open>Receiving from the empty channel would block; no caller releases what it did not acquire.\<close>

definition gate_release :: "gate option \<Rightarrow> gate option" where
  "gate_release g0 = map_option (\<lambda>g. g\<lparr>gate_len := gate_len g - 1\<rparr>) g0"

section \<open>\<open>RateRegistry\<close>\<close>

text \<open>A limiter is its rate and burst; the token bucket itself is a library's.\<close>

record rate_entry =
  lim_rate :: int
  lim_burst :: int
  rate_refs :: int

type_synonym rate_registry = "string \<Rightarrow> rate_entry option"

definition rate_acquire :: "int \<Rightarrow> rate_registry \<Rightarrow> string \<Rightarrow> (int \<times> int) option \<times> rate_registry" where
  "rate_acquire bps m u =
     (if bps \<le> 0 \<or> u = [] then (None, m)
      else let e = (case m u of None \<Rightarrow> \<lparr>lim_rate = bps, lim_burst = bps, rate_refs = 0\<rparr> | Some e \<Rightarrow> e)
           in (Some (lim_rate e, lim_burst e), m(u \<mapsto> e\<lparr>rate_refs := rate_refs e + 1\<rparr>)))"

definition rate_release :: "rate_registry \<Rightarrow> string \<Rightarrow> rate_registry" where
  "rate_release m u =
     (if u = [] then m
      else case m u of None \<Rightarrow> m
        | Some e \<Rightarrow> let n = rate_refs e - 1 in
            if n \<le> 0 then m(u := None) else m(u \<mapsto> e\<lparr>rate_refs := n\<rparr>))"

section \<open>The guards honour the contract\<close>

lemma map_get_upd [simp]: "map_get (m(k \<mapsto> n)) j = (if j = k then n else map_get m j)"
  and map_get_del [simp]: "map_get (m(k := None)) j = (if j = k then 0 else map_get m j)"
  by (auto simp: map_get_def)

lemma map_get_empty [simp]: "map_get Map.empty k = 0"
  by (simp add: map_get_def)

lemma int_get_upd [simp]: "int_get (m(k \<mapsto> n)) j = (if j = k then n else int_get m j)"
  and int_get_del [simp]: "int_get (m(k := None)) j = (if j = k then 0 else int_get m j)"
  by (auto simp: int_get_def)

definition stream_try :: "unit \<Rightarrow> stream_guard \<Rightarrow> string \<Rightarrow> bool \<times> stream_guard" where
  "stream_try a g i = (case stream_acquire g i of (r, g') \<Rightarrow> (r = StreamAllowed, g'))"

definition stream_held :: "stream_guard \<Rightarrow> string \<Rightarrow> nat" where
  "stream_held g = map_get (sg_inflight g)"

text \<open>No entry is kept at zero, and the total is the sum of the entries.\<close>

definition stream_good :: "stream_guard \<Rightarrow> bool" where
  "stream_good g \<longleftrightarrow> finite (dom (sg_inflight g)) \<and> (\<forall>k. sg_inflight g k \<noteq> Some 0)
     \<and> sg_total g = (\<Sum>k\<in>dom (sg_inflight g). map_get (sg_inflight g) k) \<and> sg_total g \<le> sg_max_total g"

lemma sum_map_get_upd:
  assumes "finite (dom m)"
  shows "(\<Sum>j\<in>insert k (dom m). map_get (m(k \<mapsto> n)) j) + map_get m k = (\<Sum>j\<in>dom m. map_get m j) + n"
proof -
  have a: "(\<Sum>j\<in>insert k (dom m). map_get (m(k \<mapsto> n)) j) = n + (\<Sum>j\<in>dom m - {k}. map_get (m(k \<mapsto> n)) j)"
    using assms by (subst sum.insert_remove) auto
  have b: "(\<Sum>j\<in>dom m - {k}. map_get (m(k \<mapsto> n)) j) = (\<Sum>j\<in>dom m - {k}. map_get m j)"
    by (rule sum.cong) auto
  have c: "(\<Sum>j\<in>dom m. map_get m j) = map_get m k + (\<Sum>j\<in>dom m - {k}. map_get m j)"
    using assms by (cases "k \<in> dom m") (auto simp: sum.remove map_get_def split: option.splits)
  show ?thesis unfolding a b c by simp
qed

lemma sum_map_get_del:
  assumes "finite (dom m)"
  shows "(\<Sum>j\<in>dom m - {k}. map_get (m(k := None)) j) + map_get m k = (\<Sum>j\<in>dom m. map_get m j)"
proof -
  have "(\<Sum>j\<in>dom m - {k}. map_get (m(k := None)) j) = (\<Sum>j\<in>dom m - {k}. map_get m j)"
    by (rule sum.cong) auto
  then show ?thesis
    using assms by (cases "k \<in> dom m") (auto simp: sum.remove map_get_def split: option.splits)
qed

lemma stream_try_good:
  assumes "stream_good g" and "stream_try a g k = (True, g')"
  shows "stream_good g' \<and> stream_held g' = (stream_held g)(k := Suc (stream_held g k))
    \<and> stream_held g k < sg_max_user g"
proof -
  have g': "g' = g\<lparr>sg_inflight := (sg_inflight g)(k \<mapsto> Suc (map_get (sg_inflight g) k)), sg_total := Suc (sg_total g)\<rparr>"
    and b: "sg_total g < sg_max_total g" "map_get (sg_inflight g) k < sg_max_user g"
    using assms(2) by (auto simp: stream_try_def stream_acquire_def split: if_splits)
  have "(\<Sum>j\<in>insert k (dom (sg_inflight g)). map_get (sg_inflight g') j) = Suc (sg_total g)"
    using sum_map_get_upd [of "sg_inflight g" k "Suc (map_get (sg_inflight g) k)"] assms(1)
    by (simp add: stream_good_def g')
  then show ?thesis using assms(1) b by (auto simp: stream_good_def stream_held_def g')
qed

lemma stream_release_good:
  assumes "stream_good g" and "0 < stream_held g k"
  shows "stream_good (stream_release g k) \<and> stream_held (stream_release g k) = (stream_held g)(k := stream_held g k - 1)"
proof -
  let ?m = "sg_inflight g"
  have k: "0 < map_get ?m k" "k \<in> dom ?m"
    using assms(2) by (auto simp: stream_held_def map_get_def split: option.splits)
  have fin: "finite (dom ?m)" and tot: "sg_total g = (\<Sum>j\<in>dom ?m. map_get ?m j)" "sg_total g \<le> sg_max_total g"
    using assms(1) by (auto simp: stream_good_def)
  show ?thesis
  proof (cases "map_get ?m k = 1")
    case True
    then have r: "stream_release g k = g\<lparr>sg_inflight := ?m(k := None), sg_total := sg_total g - 1\<rparr>"
      by (simp add: stream_release_def)
    show ?thesis
      using sum_map_get_del [OF fin, of k] assms(1) True
      by (auto simp: r stream_good_def stream_held_def fun_eq_iff)
  next
    case False
    then have r: "stream_release g k = g\<lparr>sg_inflight := ?m(k \<mapsto> map_get ?m k - 1), sg_total := sg_total g - 1\<rparr>"
      using k by (simp add: stream_release_def Let_def)
    have "(\<Sum>j\<in>dom ?m. map_get (?m(k \<mapsto> map_get ?m k - 1)) j) = sg_total g - 1"
      using sum_map_get_upd [OF fin, of k "map_get ?m k - 1"] k tot by (simp add: insert_absorb)
    then show ?thesis
      using False k assms(1) by (auto simp: r stream_good_def stream_held_def fun_eq_iff insert_absorb)
  qed
qed

lemma stream_drawn:
  assumes "stream_good g" and "\<And>k. stream_held g k = count H k"
  shows "sg_total g = size H"
proof -
  have "dom (sg_inflight g) = set_mset H"
  proof (intro set_eqI iffI)
    fix k
    assume "k \<in> dom (sg_inflight g)"
    then have "0 < map_get (sg_inflight g) k" using assms(1) by (auto simp: stream_good_def map_get_def intro!: gr0I)
    then show "k \<in># H" using assms(2) [of k] by (simp add: stream_held_def)
  next
    fix k
    assume "k \<in># H"
    then have "map_get (sg_inflight g) k \<noteq> 0" using assms(2) [of k] by (simp add: stream_held_def)
    then show "k \<in> dom (sg_inflight g)" by (auto simp: map_get_def split: option.splits)
  qed
  with assms show ?thesis
    by (simp add: stream_good_def stream_held_def size_multiset_overloaded_eq)
qed

interpretation streams: pooled stream_try stream_release "\<lambda>_ _. True" stream_held stream_good
  sg_max_user sg_total sg_max_total
proof
  show "stream_good g \<Longrightarrow> stream_try a g k = (False, g') \<Longrightarrow> stream_good g' \<and> stream_held g' = stream_held g"
    for g a k g' by (auto simp: stream_try_def stream_acquire_def split: if_splits)
  show "sg_max_user (snd (stream_try a g k)) = sg_max_user g" "sg_max_total (snd (stream_try a g k)) = sg_max_total g"
    for g a k by (auto simp: stream_try_def stream_acquire_def)
  show "sg_max_user (stream_release g k) = sg_max_user g" "sg_max_total (stream_release g k) = sg_max_total g"
    for g k by (auto simp: stream_release_def Let_def)
  show "stream_good g \<Longrightarrow> sg_total g \<le> sg_max_total g" for g by (simp add: stream_good_def)
qed (use stream_try_good stream_release_good stream_drawn in \<open>blast | simp\<close>)+

text \<open>Requests of an anonymous user or without a limit are not counted.\<close>

definition zip_held :: "zip_guard \<Rightarrow> string \<Rightarrow> nat" where
  "zip_held g u = nat (int_get (zg_inflight g) u)"

definition zip_good :: "zip_guard \<Rightarrow> bool" where
  "zip_good g \<longleftrightarrow> 0 < zg_max g \<and> zg_inflight g [] = None \<and> (\<forall>u n. zg_inflight g u = Some n \<longrightarrow> 0 < n)"

lemma zip_good_get: "zip_good g \<Longrightarrow> 0 \<le> int_get (zg_inflight g) u"
  by (auto simp: zip_good_def int_get_def split: option.splits) (use less_imp_le in blast)

lemma zip_release_good:
  assumes "zip_good g" and "0 < zip_held g u"
  shows "zip_good (zip_release g u) \<and> zip_held (zip_release g u) = (zip_held g)(u := zip_held g u - 1)"
proof -
  have u: "u \<noteq> []" "0 < zg_max g" "0 < int_get (zg_inflight g) u"
    using assms by (auto simp: zip_good_def zip_held_def int_get_def)
  then show ?thesis
    using assms(1) by (auto simp: zip_release_def zip_good_def zip_held_def Let_def fun_eq_iff nat_diff_distrib)
qed

interpretation zips: limited "\<lambda>(_ :: unit). zip_acquire" zip_release "\<lambda>_ u. u \<noteq> []" zip_held zip_good "\<lambda>g. nat (zg_max g)"
proof
  show "zip_good g \<Longrightarrow> u \<noteq> [] \<Longrightarrow> zip_acquire g u = (True, g') \<Longrightarrow>
      zip_good g' \<and> zip_held g' = (zip_held g)(u := Suc (zip_held g u))" for g u g'
    using zip_good_get [of g u]
    by (auto simp: zip_acquire_def zip_good_def zip_held_def fun_eq_iff nat_add_distrib split: if_splits)
  show "zip_good g \<Longrightarrow> u \<noteq> [] \<Longrightarrow> zip_acquire g u = (True, g') \<Longrightarrow> zip_held g u < nat (zg_max g)" for g u g'
    using zip_good_get [of g u] by (auto simp: zip_acquire_def zip_good_def zip_held_def split: if_splits)
  show "zip_good g \<Longrightarrow> u \<noteq> [] \<Longrightarrow> zip_acquire g u = (False, g') \<Longrightarrow> zip_good g' \<and> zip_held g' = zip_held g" for g u g'
    by (auto simp: zip_acquire_def split: if_splits)
  show "nat (zg_max (snd (zip_acquire g u))) = nat (zg_max g)" for g u by (simp add: zip_acquire_def)
  show "nat (zg_max (zip_release g u)) = nat (zg_max g)" for g u by (simp add: zip_release_def Let_def)
qed (use zip_release_good in blast)

definition gate_try :: "bool \<times> bool \<Rightarrow> gate option \<Rightarrow> unit \<Rightarrow> bool \<times> gate option" where
  "gate_try sel g k = (case gate_acquire sel g of (r, g') \<Rightarrow> (r = GateAcquired, g'))"

definition gate_held :: "gate option \<Rightarrow> unit \<Rightarrow> nat" where
  "gate_held g k = (case g of None \<Rightarrow> 0 | Some x \<Rightarrow> gate_len x)"

definition gate_limit :: "gate option \<Rightarrow> nat" where
  "gate_limit g = (case g of None \<Rightarrow> 0 | Some x \<Rightarrow> gate_cap x)"

definition gate_good :: "gate option \<Rightarrow> bool" where
  "gate_good g = (case g of None \<Rightarrow> False | Some x \<Rightarrow> gate_len x \<le> gate_cap x)"

lemmas gate_defs = gate_try_def gate_acquire_def gate_release_def gate_held_def gate_limit_def gate_good_def

interpretation gates: limited gate_try "\<lambda>g _. gate_release g" "\<lambda>_ _. True" gate_held gate_good gate_limit
  by unfold_locales (auto simp: gate_defs fun_eq_iff Let_def split: option.splits if_splits prod.splits)

definition rate_try :: "int \<Rightarrow> rate_registry \<Rightarrow> string \<Rightarrow> bool \<times> rate_registry" where
  "rate_try bps m u = (True, snd (rate_acquire bps m u))"

definition rate_held :: "rate_registry \<Rightarrow> string \<Rightarrow> nat" where
  "rate_held m u = (case m u of None \<Rightarrow> 0 | Some e \<Rightarrow> nat (rate_refs e))"

definition rate_good :: "rate_registry \<Rightarrow> bool" where
  "rate_good m \<longleftrightarrow> m [] = None \<and> (\<forall>u e. m u = Some e \<longrightarrow> 0 < rate_refs e)"

lemmas rate_defs = rate_try_def rate_acquire_def rate_release_def rate_held_def rate_good_def

interpretation rates: counting rate_try rate_release "\<lambda>bps u. 0 < bps \<and> u \<noteq> []" rate_held rate_good
proof
  show "rate_good m' \<and> rate_held m' = (rate_held m)(u := Suc (rate_held m u))"
    if "rate_good m" "0 < bps \<and> u \<noteq> []" "rate_try bps m u = (True, m')" for m bps u m'
  proof (cases "m u")
    case None
    then show ?thesis using that by (auto simp: rate_defs intro!: ext split: if_splits)
  next
    case (Some e)
    then have pos: "0 < rate_refs e" using that(1) by (simp add: rate_good_def)
    then have "nat (rate_refs e + 1) = Suc (nat (rate_refs e))" by simp
    with pos show ?thesis using that Some by (auto simp: rate_defs simp del: Suc_nat_eq_nat_zadd1 intro!: ext split: if_splits)
  qed
  show "rate_good m' \<and> rate_held m' = rate_held m"
    if "rate_good m" "0 < bps \<and> u \<noteq> []" "rate_try bps m u = (False, m')" for m bps u m'
    using that by (simp add: rate_try_def)
  show "rate_good (rate_release m u) \<and> rate_held (rate_release m u) = (rate_held m)(u := rate_held m u - 1)"
    if "rate_good m" "0 < rate_held m u" for m u
  proof (cases "m u")
    case None
    then show ?thesis using that by (simp add: rate_held_def)
  next
    case (Some e)
    have "u \<noteq> []" using that(1) Some by (auto simp: rate_good_def)
    then show ?thesis using that Some by (auto simp: rate_defs nat_diff_distrib Let_def intro!: ext split: if_splits)
  qed
qed

section \<open>Properties\<close>

text \<open>
  C36: whatever requests and releases interleave, the direct streams granted and not yet released
  never exceed the limit of a user nor the global ceiling, the guard's total counts them exactly,
  and a user with no stream has no entry left in the map.
\<close>

theorem stream_guard_limits:
  assumes "(guard_step stream_try stream_release (\<lambda>_ _. True))\<^sup>*\<^sup>* (new_stream_guard tot per_user, {#}) (g, H)"
  shows "int (count H u) \<le> max 1 (min per_user tot) \<and> int (size H) \<le> max 1 tot \<and> sg_total g = size H
    \<and> (sg_inflight g u = None \<longleftrightarrow> u \<notin># H)"
proof -
  let ?g = "new_stream_guard tot per_user"
  have good: "stream_good ?g" and held: "stream_held ?g = count {#}"
    by (auto simp: new_stream_guard_def stream_good_def stream_held_def Let_def)
  have caps: "int (sg_max_user ?g) = max 1 (min per_user tot)" "int (sg_max_total ?g) = max 1 tot"
    by (auto simp: new_stream_guard_def Let_def)
  have "count H u \<le> sg_max_user ?g"
    using streams.run_limited [OF assms good held] by simp
  moreover have "sg_total g = size H \<and> size H \<le> sg_max_total ?g"
    by (rule streams.run_pooled [OF assms good held])
  moreover have "sg_inflight g u = None \<longleftrightarrow> u \<notin># H"
  proof -
    have c: "stream_good g \<and> stream_held g = count H" by (rule streams.run_counts [OF assms good held])
    then have "map_get (sg_inflight g) u = count H u" by (simp add: stream_held_def fun_eq_iff)
    moreover have "sg_inflight g u \<noteq> Some 0" using c by (simp add: stream_good_def)
    ultimately have "sg_inflight g u = None \<longleftrightarrow> count H u = 0"
      by (cases "sg_inflight g u") (auto simp: map_get_def)
    then show ?thesis by (simp add: count_eq_zero_iff)
  qed
  ultimately show ?thesis unfolding caps [symmetric] by simp
qed

theorem stream_guard_limits_witness:
  "\<exists>g. (guard_step stream_try stream_release (\<lambda>_ _. True))\<^sup>*\<^sup>* (new_stream_guard 4 9, {#}) (g, {#''ann''#})
     \<and> sg_total g = 1"
proof -
  let ?g = "snd (stream_try () (new_stream_guard 4 9) ''ann'')"
  have "guard_step stream_try stream_release (\<lambda>_ _. True) (new_stream_guard 4 9, {#}) (?g, add_mset ''ann'' {#})"
    by (rule guard_step.granted [where a = "()"])
      (simp_all add: stream_try_def stream_acquire_def new_stream_guard_def Let_def)
  then have r: "(guard_step stream_try stream_release (\<lambda>_ _. True))\<^sup>*\<^sup>* (new_stream_guard 4 9, {#}) (?g, {#''ann''#})"
    by blast
  with stream_guard_limits [OF r] show ?thesis by auto
qed

text \<open>
  The limiter of a user lives exactly as long as one of the user's downloads: after any
  interleaving of acquisitions and releases the registry has an entry for the user if and only if a
  download still holds it, so entries neither leak nor vanish early.
\<close>

theorem rate_registry_no_leak:
  assumes "(guard_step rate_try rate_release (\<lambda>bps u. 0 < bps \<and> u \<noteq> []))\<^sup>*\<^sup>* (Map.empty, {#}) (m, H)"
  shows "(m u \<noteq> None \<longleftrightarrow> u \<in># H) \<and> (\<forall>e. m u = Some e \<longrightarrow> rate_refs e = int (count H u))"
proof -
  have "rate_good Map.empty" "rate_held Map.empty = count {#}"
    by (auto simp: rate_good_def rate_held_def fun_eq_iff)
  from rates.run_counts [OF assms this] have c: "rate_good m" "rate_held m u = count H u" by (auto simp: fun_eq_iff)
  show ?thesis
  proof (cases "m u")
    case None
    with c(2) have "count H u = 0" by (simp add: rate_held_def)
    then show ?thesis using None by (simp add: count_eq_zero_iff)
  next
    case (Some e)
    then have "0 < rate_refs e" using c(1) by (simp add: rate_good_def)
    moreover have "count H u = nat (rate_refs e)" using c(2) Some by (simp add: rate_held_def)
    ultimately have "0 < count H u" "rate_refs e = int (count H u)" by simp_all
    then show ?thesis using Some by (simp add: count_greater_zero_iff)
  qed
qed

theorem rate_registry_no_leak_witness:
  "snd (rate_acquire 10 Map.empty ''ann'') ''ann'' \<noteq> None"
proof -
  have "guard_step rate_try rate_release (\<lambda>bps u. 0 < bps \<and> u \<noteq> []) (Map.empty, {#})
      (snd (rate_acquire 10 Map.empty ''ann''), add_mset ''ann'' {#})"
    by (rule guard_step.granted [where a = 10]) (simp_all add: rate_try_def)
  then have "(guard_step rate_try rate_release (\<lambda>bps u. 0 < bps \<and> u \<noteq> []))\<^sup>*\<^sup>* (Map.empty, {#})
      (snd (rate_acquire 10 Map.empty ''ann''), {#''ann''#})"
    by blast
  from rate_registry_no_leak [OF this, of "''ann''"] show ?thesis by simp
qed

end
