(* ===== verification/Ingest_Node.thy ===== *)
theory Ingest_Node
  imports Job_Control Guards
begin

text \<open>
  The worker process of an ingest node, \<open>ingest/cmd\<close>: the worker that runs an assigned job (\<open>process.go\<close>),
  what it holds meanwhile (the register of jobs, the hashes in work, the download gate, the rate
  limiters), the dispatch to the runners, the recovery of stranded jobs and the sweep of the scratch
  directory (\<open>reconcile.go\<close>). Workers are goroutines: the register, the hashes, the gate and the
  limiters are each guarded, so an operation on one of them is an atomic step.
\<close>

section \<open>What a worker holds\<close>

definition hold_hash :: "string \<Rightarrow> string set \<Rightarrow> bool \<times> string set" where
  "hold_hash h s = (if h = [] then (True, s) else (h \<notin> s, insert h s))"

definition release_hash :: "string \<Rightarrow> string set \<Rightarrow> string set" where
  "release_hash h s = (if h = [] then s else s - {h})"

definition plan_download_bps :: "(string \<Rightarrow> user option) option \<Rightarrow> string \<Rightarrow> int" where
  "plan_download_bps accs u =
     (case accs of None \<Rightarrow> 0
      | Some get \<Rightarrow> if u = [] then 0 else
          (case get u of None \<Rightarrow> 0
           | Some v \<Rightarrow> (case get_plan (u_plan v) of None \<Rightarrow> 0
               | Some p \<Rightarrow> if max_download_mbps p \<le> 0 then 0 else max_download_mbps p * 125000)))"

text \<open>
  Where a worker is: before it starts, with the row read, tracked, turned away by the hash, with the
  hash, past the limiter (the flag says whether it has one), running (past the gate, if it took it),
  and on its way out, giving back the gate, the limiter, the hash and its entry, in this order.
\<close>

datatype worker =
    Off
  | Loaded job
  | Tracked job
  | TurnedAway job
  | HashHeld job
  | Rated job bool
  | Running job bool bool
  | GateGone job bool
  | LimiterGone job
  | HashGone job

record ingest_node =
  nd_cancels :: cancel_registry
  nd_hashes :: "string set"
  nd_rates :: rate_registry
  nd_gate :: "gate option"
  nd_workers :: "nat \<Rightarrow> worker"

definition new_ingest_node :: "int \<Rightarrow> ingest_node" where
  "new_ingest_node n = \<lparr>nd_cancels = new_cancel_registry, nd_hashes = {}, nd_rates = Map.empty, nd_gate = new_gate n, nd_workers = (\<lambda>_. Off)\<rparr>"

definition set_worker :: "nat \<Rightarrow> worker \<Rightarrow> ingest_node \<Rightarrow> ingest_node" where
  "set_worker c p s = s\<lparr>nd_workers := (nd_workers s)(c := p)\<rparr>"

definition worker_track :: "nat \<Rightarrow> job \<Rightarrow> ingest_node \<Rightarrow> ingest_node" where
  "worker_track c j s =
     (case track_if_absent (nd_cancels s) (jid j) c of
        (False, _) \<Rightarrow> set_worker c Off s
      | (True, m) \<Rightarrow> set_worker c (Tracked j) (s\<lparr>nd_cancels := m\<rparr>))"

definition worker_hold :: "nat \<Rightarrow> job \<Rightarrow> ingest_node \<Rightarrow> ingest_node" where
  "worker_hold c j s =
     (case hold_hash (info_hash j) (nd_hashes s) of
        (False, hs) \<Rightarrow> set_worker c (TurnedAway j) (s\<lparr>nd_hashes := hs\<rparr>)
      | (True, hs) \<Rightarrow> set_worker c (HashHeld j) (s\<lparr>nd_hashes := hs\<rparr>))"

definition worker_untrack :: "nat \<Rightarrow> job \<Rightarrow> ingest_node \<Rightarrow> ingest_node" where
  "worker_untrack c j s = set_worker c Off (s\<lparr>nd_cancels := untrack (nd_cancels s) (jid j)\<rparr>)"

definition worker_limit :: "(string \<Rightarrow> user option) option \<Rightarrow> nat \<Rightarrow> job \<Rightarrow> ingest_node \<Rightarrow> ingest_node" where
  "worker_limit accs c j s =
     (let bps = plan_download_bps accs (user_id j) in
      if bps > 0 then set_worker c (Rated j True) (s\<lparr>nd_rates := snd (rate_acquire bps (nd_rates s) (user_id j))\<rparr>)
      else set_worker c (Rated j False) s)"

text \<open>A cross-seed downloads nothing and passes the gate; a worker whose job is cancelled may turn back.\<close>

definition worker_gate :: "bool \<times> bool \<Rightarrow> nat \<Rightarrow> job \<Rightarrow> bool \<Rightarrow> ingest_node \<Rightarrow> ingest_node" where
  "worker_gate sel c j l s =
     (if source j = SourceCrossSeed then set_worker c (Running j l False) s
      else case gate_acquire sel (nd_gate s) of
          (GateAcquired, g) \<Rightarrow> set_worker c (Running j l True) (s\<lparr>nd_gate := g\<rparr>)
        | (GateCancelled, g) \<Rightarrow> set_worker c (GateGone j l) s
        | (GateBlocked, g) \<Rightarrow> s)"

definition worker_end :: "nat \<Rightarrow> job \<Rightarrow> bool \<Rightarrow> bool \<Rightarrow> ingest_node \<Rightarrow> ingest_node" where
  "worker_end c j l g s = set_worker c (GateGone j l) (if g then s\<lparr>nd_gate := gate_release (nd_gate s)\<rparr> else s)"

definition worker_unlimit :: "nat \<Rightarrow> job \<Rightarrow> bool \<Rightarrow> ingest_node \<Rightarrow> ingest_node" where
  "worker_unlimit c j l s = set_worker c (LimiterGone j) (if l then s\<lparr>nd_rates := rate_release (nd_rates s) (user_id j)\<rparr> else s)"

definition worker_drop :: "nat \<Rightarrow> job \<Rightarrow> ingest_node \<Rightarrow> ingest_node" where
  "worker_drop c j s = set_worker c (HashGone j) (s\<lparr>nd_hashes := release_hash (info_hash j) (nd_hashes s)\<rparr>)"

inductive ingest_step :: "ingest_node \<Rightarrow> ingest_node \<Rightarrow> bool" where
  load: "nd_workers s c = Off \<Longrightarrow> ingest_step s (set_worker c (Loaded j) s)"
| track: "nd_workers s c = Loaded j \<Longrightarrow> ingest_step s (worker_track c j s)"
| hold: "nd_workers s c = Tracked j \<Longrightarrow> ingest_step s (worker_hold c j s)"
| turn_away: "nd_workers s c = TurnedAway j \<Longrightarrow> ingest_step s (worker_untrack c j s)"
| limit: "nd_workers s c = HashHeld j \<Longrightarrow> ingest_step s (worker_limit accs c j s)"
| gate: "nd_workers s c = Rated j l \<Longrightarrow> ingest_step s (worker_gate sel c j l s)"
| finish: "nd_workers s c = Running j l g \<Longrightarrow> ingest_step s (worker_end c j l g s)"
| unlimit: "nd_workers s c = GateGone j l \<Longrightarrow> ingest_step s (worker_unlimit c j l s)"
| drop: "nd_workers s c = LimiterGone j \<Longrightarrow> ingest_step s (worker_drop c j s)"
| leave: "nd_workers s c = HashGone j \<Longrightarrow> ingest_step s (worker_untrack c j s)"
| deleted: "ingest_step s (s\<lparr>nd_cancels := snd (cancel_job (nd_cancels s) i)\<rparr>)"

inductive_cases ingest_stepE: "ingest_step s t"

section \<open>Running a job\<close>

text \<open>
  The runners of the node, as the dispatch uses them: those that may be absent are options. A runner
  takes the job and the world; the one of the debrid services says whether it handled the job and with
  which error, and whether that is final. \<open>ir_file\<close> says whether a staged torrent file can be read,
  \<open>ir_added\<close> what the engine answers to an addition.
\<close>

record runners =
  ir_seed :: "(job \<Rightarrow> tworld \<Rightarrow> tworld) option"
  ir_usenet :: "job \<Rightarrow> tworld \<Rightarrow> tworld"
  ir_ytdlp :: "(job \<Rightarrow> tworld \<Rightarrow> tworld) option"
  ir_hoster :: "job \<Rightarrow> tworld \<Rightarrow> tworld"
  ir_release :: "source \<Rightarrow> (job \<Rightarrow> tworld \<Rightarrow> tworld) option"
  ir_torrent :: bool
  ir_blocked :: "job \<Rightarrow> bool"
  ir_debrid :: "job \<Rightarrow> tworld \<Rightarrow> bool \<times> (bool \<times> go_error) option \<times> job \<times> tworld"
  ir_fallback :: "(job \<Rightarrow> tworld \<Rightarrow> bool \<times> job \<times> tworld) option"
  ir_file :: bool
  ir_added :: bool
  ir_category :: string

definition start_torrent :: "engine \<Rightarrow> bool \<Rightarrow> job \<Rightarrow> int \<Rightarrow> tworld \<Rightarrow> go_error option \<times> tworld" where
  "start_torrent en added j bps w =
     (if \<not> en_login en then (Some (OtherError ''login''), w)
      else (if added then None else Some (OtherError ''add''), call (QAdd (magnet j) bps) w))"

definition start_torrent_file :: "engine \<Rightarrow> bool \<Rightarrow> bool \<Rightarrow> string \<Rightarrow> job \<Rightarrow> tworld \<Rightarrow> go_error option \<times> tworld" where
  "start_torrent_file en readable added category j w =
     (if \<not> readable then (Some (OtherError ''read staged torrent''), w)
      else if \<not> en_login en then (Some (OtherError ''login''), w)
      else (if added then None else Some (OtherError ''add''), call (QAddFile (input_key j) category) w))"

definition run_fail :: "pub_faults \<Rightarrow> (nat \<Rightarrow> db \<Rightarrow> db) \<Rightarrow> nat \<Rightarrow> int \<Rightarrow> job \<Rightarrow> go_error \<Rightarrow> tworld \<Rightarrow> tworld" where
  "run_fail flt others k now j e w =
     (case on_db (fail_job (f_db flt) others k now j (Some e)) (tw_world w) of
        (ev, w1) \<Rightarrow> emit (RunEvent ev) (w\<lparr>tw_world := w1\<rparr>))"

text \<open>The row as it was read when the worker started, written back as downloading.\<close>

definition claim_job :: "pub_faults \<Rightarrow> (nat \<Rightarrow> db \<Rightarrow> db) \<Rightarrow> int \<Rightarrow> job \<Rightarrow> tworld \<Rightarrow> job \<times> tworld" where
  "claim_job flt others now j w = t_update flt others 0 now (j\<lparr>status := StatusDownloading\<rparr>) w"

definition can_qbit :: "runners \<Rightarrow> job \<Rightarrow> bool" where
  "can_qbit ir j \<longleftrightarrow> ir_torrent ir \<and> source j = SourceTorrent \<and> user_id j \<noteq> ''prewarm''"

text \<open>The end of a torrent's run, when neither debrid nor Usenet had it or the debrid run failed.\<close>

definition settle :: "runners \<Rightarrow> engine \<Rightarrow> pub_faults \<Rightarrow> (nat \<Rightarrow> db \<Rightarrow> db) \<Rightarrow> int \<Rightarrow> int \<Rightarrow> bool \<Rightarrow> bool \<times> (bool \<times> go_error) option \<Rightarrow> job
    \<Rightarrow> tworld \<Rightarrow> tworld" where
  "settle ir en flt others now bps qb res j w =
     (case res of
        (_, Some (True, e)) \<Rightarrow> run_fail flt others 1 now j e w
      | (True, None) \<Rightarrow> emit (RunEvent (JobComplete (jid j) (info_hash j) (node j))) w
      | (_, err) \<Rightarrow>
          if qb then (case start_torrent en (ir_added ir) j bps w of
              (None, w1) \<Rightarrow> w1
            | (Some e, w1) \<Rightarrow> run_fail flt others 1 now j (fail_wrap add_failed ''add torrent'') w1)
          else run_fail flt others 1 now j (case err of None \<Rightarrow> Fail no_sources | Some _ \<Rightarrow> fail_wrap no_sources ''no provider'') w)"

definition unhold :: "runners \<Rightarrow> string \<Rightarrow> tworld \<Rightarrow> tworld" where
  "unhold ir h w = (if ir_torrent ir then release h w else w)"

definition torrent_run :: "runners \<Rightarrow> engine \<Rightarrow> pub_faults \<Rightarrow> (nat \<Rightarrow> db \<Rightarrow> db) \<Rightarrow> int \<Rightarrow> int \<Rightarrow> job \<Rightarrow> tworld \<Rightarrow> tworld" where
  "torrent_run ir en flt others now bps j0 w0 =
     (case claim_job flt others now j0 w0 of (j, w) \<Rightarrow>
        if ir_blocked ir j then run_fail flt others 1 now j (Fail blocked_failure) (unhold ir (info_hash j) w)
        else if source j = SourceTorrent \<and> input_key j \<noteq> []
        then (if \<not> ir_torrent ir then run_fail flt others 1 now j (Fail engine_down) w
              else case start_torrent_file en (ir_file ir) (ir_added ir) (ir_category ir) j w of
                  (Some e, w1) \<Rightarrow> run_fail flt others 1 now j (fail_wrap add_failed ''add torrent file'') (release (info_hash j) w1)
                | (None, w1) \<Rightarrow> release (info_hash j) w1)
        else case ir_debrid ir j w of (handled, err, j1, w1) \<Rightarrow>
          let w2 = unhold ir (info_hash j1) w1; miss = (\<not> handled \<and> \<not> (case err of Some (t, e) \<Rightarrow> t | None \<Rightarrow> False)) in
          (case ir_fallback ir of
             Some try \<Rightarrow>
               if miss \<and> \<not> seed j1 \<and> source j1 = SourceTorrent \<and> user_id j1 \<noteq> ''prewarm''
               then (case try j1 w2 of (True, _, w3) \<Rightarrow> w3
                     | (False, j2, w3) \<Rightarrow> settle ir en flt others now bps (can_qbit ir j1) (handled, err) j2 w3)
               else settle ir en flt others now bps (can_qbit ir j1) (handled, err) j1 w2
           | None \<Rightarrow> settle ir en flt others now bps (can_qbit ir j1) (handled, err) j1 w2))"

definition run_job :: "runners \<Rightarrow> engine \<Rightarrow> pub_faults \<Rightarrow> (nat \<Rightarrow> db \<Rightarrow> db) \<Rightarrow> int \<Rightarrow> int \<Rightarrow> job \<Rightarrow> tworld \<Rightarrow> tworld" where
  "run_job ir en flt others now bps j w =
     (if source j = SourceCrossSeed
      then (case ir_seed ir of None \<Rightarrow> run_fail flt others 0 now j (Fail engine_down) w
            | Some go \<Rightarrow> case_prod go (claim_job flt others now j w))
      else if source j = SourceUsenet then case_prod (ir_usenet ir) (claim_job flt others now j w)
      else if source j = SourceYtdlp
      then (case ir_ytdlp ir of None \<Rightarrow> run_fail flt others 0 now j (Fail engine_down) w
            | Some go \<Rightarrow> case_prod go (claim_job flt others now j w))
      else if source j = SourceHoster then case_prod (ir_hoster ir) (claim_job flt others now j w)
      else case ir_release ir (source j) of
        Some go \<Rightarrow> case_prod go (claim_job flt others now j w)
      | None \<Rightarrow>
          if ir_torrent ir
          then (case hold (info_hash j) w of (False, _) \<Rightarrow> w | (True, w1) \<Rightarrow> torrent_run ir en flt others now bps j w1)
          else torrent_run ir en flt others now bps j w)"

text \<open>Bytes a run downloaded without publishing are charged when it ends; a publication has charged its own.\<close>

definition meter_unpublished :: "bool \<Rightarrow> job \<Rightarrow> int \<Rightarrow> world \<Rightarrow> world" where
  "meter_unpublished fails j n w =
     (if user_id j \<noteq> [] \<and> user_id j \<noteq> ''prewarm'' \<and> \<not> seed j \<and> \<not> w_tallied w \<and> n > 0 \<and> \<not> fails
      then w\<lparr>w_usage := w_usage w @ [(user_id j, n)]\<rparr> else w)"

section \<open>Recovery\<close>

text \<open>
  \<open>reconcile\<close>: which listings fail, and for a row of a listing whether its manifest cannot be read,
  which statements fail, what others commit and what the register holds then.
\<close>

record reconcile_env =
  rc_list_fails :: "status \<Rightarrow> bool"
  rc_flt :: "status \<Rightarrow> string \<Rightarrow> db_error faults"
  rc_unread :: "status \<Rightarrow> string \<Rightarrow> bool"
  rc_others :: "status \<Rightarrow> string \<Rightarrow> nat \<Rightarrow> db \<Rightarrow> db"
  rc_cancels :: "status \<Rightarrow> string \<Rightarrow> cancel_registry"

fun reconcile_loop :: "publisher \<Rightarrow> runner \<Rightarrow> reconcile_env \<Rightarrow> int \<Rightarrow> status \<Rightarrow> job list \<Rightarrow> world \<Rightarrow> string list \<times> world" where
  "reconcile_loop p rn e now st [] w = ([], w)"
| "reconcile_loop p rn e now st (j # js) w =
     (if \<not> mine rn (node j) \<or> has_job (rc_cancels e st (jid j)) (jid j) then reconcile_loop p rn e now st js w
      else case complete_from_cache p (rc_flt e st (jid j)) (rc_unread e st (jid j)) (rc_others e st (jid j)) now (node j) (info_hash j) w of
        (ok, _, w1) \<Rightarrow>
          if ok \<or> st = StatusDownloading \<and> source j = SourceTorrent then reconcile_loop p rn e now st js w1
          else (case reconcile_loop p rn e now st js w1 of (ids, w2) \<Rightarrow> (jid j # ids, w2)))"

fun reconcile_statuses :: "publisher \<Rightarrow> runner \<Rightarrow> reconcile_env \<Rightarrow> int \<Rightarrow> status list \<Rightarrow> world \<Rightarrow> string list \<times> world" where
  "reconcile_statuses p rn e now [] w = ([], w)"
| "reconcile_statuses p rn e now (st # sts) w =
     (if rc_list_fails e st then reconcile_statuses p rn e now sts w
      else case reconcile_loop p rn e now st (filter (\<lambda>j. status j = st) (jobs_t (cdb (w_cache w)))) w of
        (ids, w1) \<Rightarrow> (case reconcile_statuses p rn e now sts w1 of (ids2, w2) \<Rightarrow> (ids @ ids2, w2)))"

definition reconciled_statuses :: "status list" where
  "reconciled_statuses = [StatusPending, StatusDownloading, StatusProcessing, StatusPublishing]"

definition reconcile :: "publisher \<Rightarrow> runner \<Rightarrow> reconcile_env \<Rightarrow> int \<Rightarrow> world \<Rightarrow> string list \<times> world" where
  "reconcile p rn e now w = reconcile_statuses p rn e now reconciled_statuses w"

text \<open>
  \<open>sweepScratch\<close>: the entries of the scratch directory with their kind and, when \<open>Stat\<close> works, their
  time, in minutes; none when the directory cannot be read. The result is what is removed.
\<close>

definition sweep_statuses :: "status list" where
  "sweep_statuses = [StatusPending, StatusDownloading, StatusProcessing, StatusPublishing, StatusSeeding]"

definition sweep_active :: "runner \<Rightarrow> (status \<Rightarrow> bool) \<Rightarrow> db \<Rightarrow> string set" where
  "sweep_active rn fails d =
     {info_hash j | j. j \<in> set (jobs_t d) \<and> status j \<in> set sweep_statuses \<and> \<not> fails (status j) \<and> mine rn (node j)}"

definition sweep_scratch :: "runner \<Rightarrow> (status \<Rightarrow> bool) \<Rightarrow> int \<Rightarrow> (string \<times> bool \<times> int option) list option \<Rightarrow> db \<Rightarrow> string list" where
  "sweep_scratch rn fails now entries d =
     (case entries of None \<Rightarrow> []
      | Some es \<Rightarrow> map fst (filter (\<lambda>(nm, dir, t). dir \<and> nm \<notin> sweep_active rn fails d
            \<and> (case t of None \<Rightarrow> False | Some m \<Rightarrow> now - m > 30)) es))"

section \<open>The holdings are exact\<close>

fun tracks :: "worker \<Rightarrow> job option" where
  "tracks Off = None"
| "tracks (Loaded j) = None"
| "tracks (Tracked j) = Some j"
| "tracks (TurnedAway j) = Some j"
| "tracks (HashHeld j) = Some j"
| "tracks (Rated j l) = Some j"
| "tracks (Running j l g) = Some j"
| "tracks (GateGone j l) = Some j"
| "tracks (LimiterGone j) = Some j"
| "tracks (HashGone j) = Some j"

fun hash_of :: "worker \<Rightarrow> string" where
  "hash_of (HashHeld j) = info_hash j"
| "hash_of (Rated j l) = info_hash j"
| "hash_of (Running j l g) = info_hash j"
| "hash_of (GateGone j l) = info_hash j"
| "hash_of (LimiterGone j) = info_hash j"
| "hash_of p = []"

fun limited_user :: "worker \<Rightarrow> string" where
  "limited_user (Rated j l) = (if l then user_id j else [])"
| "limited_user (Running j l g) = (if l then user_id j else [])"
| "limited_user (GateGone j l) = (if l then user_id j else [])"
| "limited_user p = []"

fun in_gate :: "worker \<Rightarrow> bool" where
  "in_gate (Running j l g) = g"
| "in_gate p = False"

text \<open>A limiter is only taken for a named user.\<close>

fun proper :: "worker \<Rightarrow> bool" where
  "proper (Rated j l) = (l \<longrightarrow> user_id j \<noteq> [])"
| "proper (Running j l g) = (l \<longrightarrow> user_id j \<noteq> [])"
| "proper (GateGone j l) = (l \<longrightarrow> user_id j \<noteq> [])"
| "proper p = True"

text \<open>Each holding against the workers: the entries name live workers, the others are counted exactly.\<close>

definition workers_ok :: "(nat \<Rightarrow> worker) \<Rightarrow> bool" where
  "workers_ok ws \<longleftrightarrow> finite {c. ws c \<noteq> Off} \<and> (\<forall>c. proper (ws c))"

definition cancels_ok :: "cancel_registry \<Rightarrow> (nat \<Rightarrow> worker) \<Rightarrow> bool" where
  "cancels_ok m ws \<longleftrightarrow> (\<forall>i c. m i = Some c \<longrightarrow> (\<exists>j. tracks (ws c) = Some j \<and> jid j = i))"

definition hashes_ok :: "string set \<Rightarrow> (nat \<Rightarrow> worker) \<Rightarrow> bool" where
  "hashes_ok hs ws \<longleftrightarrow> (\<forall>h. h \<in> hs \<longleftrightarrow> h \<noteq> [] \<and> (\<exists>c. hash_of (ws c) = h))
     \<and> (\<forall>c c'. hash_of (ws c) = hash_of (ws c') \<and> hash_of (ws c) \<noteq> [] \<longrightarrow> c = c')"

definition count_workers :: "(worker \<Rightarrow> bool) \<Rightarrow> (nat \<Rightarrow> worker) \<Rightarrow> nat" where
  "count_workers P ws = card {c. P (ws c)}"

definition rates_ok :: "rate_registry \<Rightarrow> (nat \<Rightarrow> worker) \<Rightarrow> bool" where
  "rates_ok m ws \<longleftrightarrow> rate_good m \<and> (\<forall>u. u \<noteq> [] \<longrightarrow> rate_held m u = count_workers (\<lambda>p. limited_user p = u) ws)"

definition gate_ok :: "int \<Rightarrow> gate option \<Rightarrow> (nat \<Rightarrow> worker) \<Rightarrow> bool" where
  "gate_ok n g0 ws \<longleftrightarrow> (case g0 of None \<Rightarrow> n < 1
     | Some g \<Rightarrow> 1 \<le> n \<and> gate_cap g = nat n \<and> gate_len g \<le> gate_cap g \<and> gate_len g = count_workers in_gate ws)"

definition node_ok :: "int \<Rightarrow> ingest_node \<Rightarrow> bool" where
  "node_ok n s \<longleftrightarrow> workers_ok (nd_workers s) \<and> cancels_ok (nd_cancels s) (nd_workers s)
     \<and> hashes_ok (nd_hashes s) (nd_workers s) \<and> rates_ok (nd_rates s) (nd_workers s) \<and> gate_ok n (nd_gate s) (nd_workers s)"

lemma workers_upd: "workers_ok ws \<Longrightarrow> proper p \<Longrightarrow> workers_ok (ws(c := p))"
  unfolding workers_ok_def by (auto intro: finite_subset [of _ "insert c {c. ws c \<noteq> Off}"])

lemma count_upd:
  assumes "workers_ok ws" and "\<not> P Off"
  shows "count_workers P (ws(c := p)) + (if P (ws c) then 1 else 0) = count_workers P ws + (if P p then 1 else 0)"
proof -
  let ?A = "{x. P (ws x)}"
  have fin: "finite ?A"
    using assms by (rule_tac finite_subset [of _ "{c. ws c \<noteq> Off}"]) (auto simp: workers_ok_def)
  have "{x. P ((ws(c := p)) x)} = (if P p then insert c (?A - {c}) else ?A - {c})" by auto
  then have "count_workers P (ws(c := p)) = card (?A - {c}) + (if P p then 1 else 0)"
    using fin unfolding count_workers_def by (cases "P p") (simp_all add: card.insert_remove del: fun_upd_apply card_Diff_singleton)
  moreover have "card (?A - {c}) + (if P (ws c) then 1 else 0) = count_workers P ws"
    unfolding count_workers_def using fin card_Suc_Diff1 [of ?A c] by (cases "P (ws c)") (simp_all del: card_Diff_singleton card_Diff_insert)
  ultimately show ?thesis by simp
qed

lemma cancels_same: "cancels_ok m ws \<Longrightarrow> tracks (ws c) = None \<or> tracks p = tracks (ws c) \<Longrightarrow> cancels_ok m (ws(c := p))"
  unfolding cancels_ok_def by fastforce

lemma cancels_take: "cancels_ok m ws \<Longrightarrow> tracks (ws c) = None \<Longrightarrow> tracks p = Some j \<Longrightarrow> cancels_ok (m(jid j \<mapsto> c)) (ws(c := p))"
  unfolding cancels_ok_def by (auto split: if_splits) (metis option.distinct(1))

lemma cancels_drop: "cancels_ok m ws \<Longrightarrow> tracks (ws c) = Some j \<Longrightarrow> cancels_ok (untrack m (jid j)) (ws(c := p))"
  unfolding cancels_ok_def untrack_def by (auto split: if_splits) fastforce

lemma same_hashes: "hash_of p = hash_of (ws c) \<Longrightarrow> hash_of ((ws(c := p)) x) = hash_of (ws x)"
  by simp

lemma hashes_same: "hashes_ok hs ws \<Longrightarrow> hash_of p = hash_of (ws c) \<Longrightarrow> hashes_ok hs (ws(c := p))"
  by (simp only: hashes_ok_def same_hashes) blast

lemma hashes_okD: "hashes_ok hs ws \<Longrightarrow> h \<in> hs \<longleftrightarrow> h \<noteq> [] \<and> (\<exists>c. hash_of (ws c) = h)"
  "hashes_ok hs ws \<Longrightarrow> hash_of (ws c) = hash_of (ws c') \<Longrightarrow> hash_of (ws c) \<noteq> [] \<Longrightarrow> c = c'"
  unfolding hashes_ok_def by blast+

lemma hashes_take:
  assumes "hashes_ok hs ws" and "hash_of (ws c) = []" and "hash_of p \<noteq> []" and "hash_of p \<notin> hs"
  shows "hashes_ok (insert (hash_of p) hs) (ws(c := p))"
proof -
  note D = hashes_okD [OF assms(1)]
  have free: "hash_of (ws x) \<noteq> hash_of p" for x using D(1) [of "hash_of p"] assms(3,4) by blast
  have "h \<in> insert (hash_of p) hs \<longleftrightarrow> h \<noteq> [] \<and> (\<exists>x. hash_of ((ws(c := p)) x) = h)" for h
    using D(1) [of h] assms(2,3) by (cases "h = hash_of p") auto
  moreover have "x = y" if "hash_of ((ws(c := p)) x) = hash_of ((ws(c := p)) y)" "hash_of ((ws(c := p)) x) \<noteq> []" for x y
    using that free [of x] free [of y] D(2) [of x y] by (auto split: if_splits dest: sym)
  ultimately show ?thesis unfolding hashes_ok_def by blast
qed

lemma hashes_drop:
  assumes "hashes_ok hs ws" and "hash_of (ws c) = h" and "hash_of p = []"
  shows "hashes_ok (release_hash h hs) (ws(c := p))"
proof -
  note D = hashes_okD [OF assms(1)]
  have "x \<in> release_hash h hs \<longleftrightarrow> x \<noteq> [] \<and> (\<exists>y. hash_of ((ws(c := p)) y) = x)" for x
  proof (cases "x = h")
    case True
    then have "hash_of (ws y) = h \<Longrightarrow> h \<noteq> [] \<Longrightarrow> y = c" for y using D(2) [of y c] assms(2) by simp
    with True show ?thesis using D(1) [of x] assms(3) by (auto simp: release_hash_def)
  next
    case False
    then have "x \<in> release_hash h hs \<longleftrightarrow> x \<in> hs" by (simp add: release_hash_def)
    moreover have "(\<exists>y. hash_of ((ws(c := p)) y) = x) \<longleftrightarrow> (\<exists>y. hash_of (ws y) = x)" if "x \<noteq> []"
      using False assms(2,3) that by (metis fun_upd_apply)
    ultimately show ?thesis using D(1) [of x] by blast
  qed
  moreover have "x = y" if "hash_of ((ws(c := p)) x) = hash_of ((ws(c := p)) y)" "hash_of ((ws(c := p)) x) \<noteq> []" for x y
    using that D(2) [of x y] assms(3) by (auto split: if_splits)
  ultimately show ?thesis unfolding hashes_ok_def by blast
qed

lemma rates_same:
  assumes "rates_ok m ws" and "workers_ok ws" and "limited_user p = limited_user (ws c)"
  shows "rates_ok m (ws(c := p))"
proof -
  have "count_workers (\<lambda>p. limited_user p = u) (ws(c := p)) = count_workers (\<lambda>p. limited_user p = u) ws" if "u \<noteq> []" for u
    using count_upd [OF assms(2), of "\<lambda>w. limited_user w = u" c p] assms(3) that by (simp del: fun_upd_apply)
  with assms(1) show ?thesis by (simp add: rates_ok_def)
qed

lemma rates_take:
  assumes "rates_ok m ws" and "workers_ok ws" and "limited_user (ws c) = []" and "limited_user p = u" and "u \<noteq> []" and "0 < bps"
  shows "rates_ok (snd (rate_acquire bps m u)) (ws(c := p))"
proof -
  have g: "rate_good (snd (rate_acquire bps m u)) \<and> rate_held (snd (rate_acquire bps m u)) = (rate_held m)(u := Suc (rate_held m u))"
    using rates.grant [of m bps u "snd (rate_acquire bps m u)"] assms(1,5,6) by (simp add: rates_ok_def rate_try_def)
  have "count_workers (\<lambda>p. limited_user p = v) (ws(c := p)) = count_workers (\<lambda>p. limited_user p = v) ws + (if v = u then 1 else 0)"
    if "v \<noteq> []" for v
    using count_upd [OF assms(2), of "\<lambda>w. limited_user w = v" c p] assms(3,4) that by auto
  with g assms(1) show ?thesis by (auto simp: rates_ok_def)
qed

lemma rates_drop:
  assumes "rates_ok m ws" and "workers_ok ws" and "limited_user (ws c) = u" and "limited_user p = []" and "u \<noteq> []"
  shows "rates_ok (rate_release m u) (ws(c := p))"
proof -
  have c: "count_workers (\<lambda>p. limited_user p = v) (ws(c := p)) + (if v = u then 1 else 0) = count_workers (\<lambda>p. limited_user p = v) ws"
    if "v \<noteq> []" for v
    using count_upd [OF assms(2), of "\<lambda>w. limited_user w = v" c p] assms(3,4) that by auto
  have "0 < rate_held m u" using c [OF assms(5)] assms(1,5) by (simp add: rates_ok_def)
  with rates.give_back [of m u] assms(1) have
    g: "rate_good (rate_release m u) \<and> rate_held (rate_release m u) = (rate_held m)(u := rate_held m u - 1)" by (simp add: rates_ok_def)
  have "rate_held (rate_release m u) v = count_workers (\<lambda>p. limited_user p = v) (ws(c := p))" if "v \<noteq> []" for v
    using c [OF that] g assms(1) that by (auto simp: rates_ok_def)
  with g show ?thesis by (simp add: rates_ok_def)
qed

lemma gate_same:
  assumes "gate_ok n g ws" and "workers_ok ws" and "in_gate p = in_gate (ws c)"
  shows "gate_ok n g (ws(c := p))"
  using count_upd [OF assms(2), of in_gate c p] assms by (auto simp: gate_ok_def split: option.splits if_splits)

lemma gate_take:
  assumes "gate_ok n g ws" and "workers_ok ws" and "\<not> in_gate (ws c)" and "in_gate p" and "gate_acquire sel g = (GateAcquired, g')"
  shows "gate_ok n g' (ws(c := p))"
  using count_upd [OF assms(2), of in_gate c p] assms
  by (auto simp: gate_ok_def gate_acquire_def Let_def split: option.splits if_splits prod.splits)

lemma gate_drop:
  assumes "gate_ok n g ws" and "workers_ok ws" and "in_gate (ws c)" and "\<not> in_gate p"
  shows "gate_ok n (gate_release g) (ws(c := p))"
  using count_upd [OF assms(2), of in_gate c p] assms by (auto simp: gate_ok_def gate_release_def split: option.splits)

lemmas holdings_same = workers_upd cancels_same hashes_same rates_same gate_same

lemma set_worker_simps [simp]:
  "nd_workers (set_worker c p s) = (nd_workers s)(c := p)" "nd_cancels (set_worker c p s) = nd_cancels s" "nd_hashes (set_worker c p s) = nd_hashes s"
  "nd_rates (set_worker c p s) = nd_rates s" "nd_gate (set_worker c p s) = nd_gate s"
  by (simp_all add: set_worker_def)

lemma plan_bps_user: "plan_download_bps accs u > 0 \<Longrightarrow> u \<noteq> []"
  by (auto simp: plan_download_bps_def split: option.splits)

lemma proper_limited: "workers_ok ws \<Longrightarrow> ws c = GateGone j True \<Longrightarrow> user_id j \<noteq> []"
  by (metis workers_ok_def proper.simps(3))

lemma ingest_step_ok:
  assumes "ingest_step s t" and ok: "node_ok n s"
  shows "node_ok n t"
proof -
  have D: "workers_ok (nd_workers s)" "cancels_ok (nd_cancels s) (nd_workers s)" "hashes_ok (nd_hashes s) (nd_workers s)"
    "rates_ok (nd_rates s) (nd_workers s)" "gate_ok n (nd_gate s) (nd_workers s)"
    using ok by (simp_all add: node_ok_def)
  have ppr: "proper (nd_workers s c)" for c using D(1) by (simp add: workers_ok_def)
  from assms(1) show ?thesis
  proof cases
    case (load c j)
    then show ?thesis using D by (auto simp: node_ok_def intro!: holdings_same)
  next
    case (track c j)
    have "cancels_ok ((nd_cancels s)(jid j \<mapsto> c)) ((nd_workers s)(c := Tracked j))"
      using D(2) track by (intro cancels_take) simp_all
    with track show ?thesis using D
      by (cases "nd_cancels s (jid j)")
        (auto simp: node_ok_def worker_track_def track_if_absent_def intro!: holdings_same simp del: fun_upd_apply)
  next
    case (hold c j)
    have "hashes_ok (insert (info_hash j) (nd_hashes s)) ((nd_workers s)(c := HashHeld j))"
      if "info_hash j \<notin> nd_hashes s" "info_hash j \<noteq> []"
      using hashes_take [OF D(3), of c "HashHeld j"] hold that by simp
    with hold show ?thesis using D
      by (auto simp: node_ok_def worker_hold_def hold_hash_def insert_absorb intro!: holdings_same simp del: fun_upd_apply
          split: bool.split)
  next
    case (turn_away c j)
    then show ?thesis using D by (auto simp: node_ok_def worker_untrack_def intro!: cancels_drop workers_upd hashes_same rates_same gate_same)
  next
    case (limit c j accs)
    have "rates_ok (snd (rate_acquire bps (nd_rates s) (user_id j))) ((nd_workers s)(c := Rated j True))"
      if "plan_download_bps accs (user_id j) = bps" "0 < bps" for bps
      using rates_take [OF D(4,1)] limit that plan_bps_user [of accs "user_id j"] by simp
    with limit show ?thesis using D plan_bps_user [of accs "user_id j"]
      by (auto simp: node_ok_def worker_limit_def Let_def simp del: fun_upd_apply intro!: holdings_same)
  next
    case (gate c j l sel)
    have "gate_ok n g' ((nd_workers s)(c := Running j l True))" if "gate_acquire sel (nd_gate s) = (GateAcquired, g')" for g'
      using gate_take [OF D(5,1) _ _ that] gate by simp
    with gate show ?thesis using D ppr [of c] ok
      by (auto simp: node_ok_def worker_gate_def simp del: fun_upd_apply intro!: holdings_same split: gate_result.split prod.split)
  next
    case (finish c j l g)
    have "g \<Longrightarrow> gate_ok n (gate_release (nd_gate s)) ((nd_workers s)(c := GateGone j l))"
      using gate_drop [OF D(5,1)] finish by simp
    with finish show ?thesis using D ppr [of c]
      by (auto simp: node_ok_def worker_end_def simp del: fun_upd_apply intro!: holdings_same)
  next
    case (unlimit c j l)
    have "l \<Longrightarrow> rates_ok (rate_release (nd_rates s) (user_id j)) ((nd_workers s)(c := LimiterGone j))"
      using rates_drop [OF D(4,1)] unlimit ppr [of c] by simp
    with unlimit show ?thesis using D
      by (auto simp: node_ok_def worker_unlimit_def simp del: fun_upd_apply intro!: holdings_same)
  next
    case (drop c j)
    then show ?thesis using D
      by (auto simp: node_ok_def worker_drop_def intro!: hashes_drop workers_upd cancels_same rates_same gate_same)
  next
    case (leave c j)
    then show ?thesis using D
      by (auto simp: node_ok_def worker_untrack_def intro!: cancels_drop workers_upd hashes_same rates_same gate_same)
  next
    case (deleted i)
    then show ?thesis using ok by (auto simp: node_ok_def cancel_job_def cancels_ok_def split: if_splits)
  qed
qed

lemma new_node_ok: "node_ok n (new_ingest_node n)"
  by (auto simp: node_ok_def new_ingest_node_def workers_ok_def cancels_ok_def new_cancel_registry_def hashes_ok_def rates_ok_def
      rate_good_def rate_held_def count_workers_def gate_ok_def new_gate_def)

lemma node_reach_ok: "ingest_step\<^sup>*\<^sup>* (new_ingest_node n) s \<Longrightarrow> node_ok n s"
  by (induction rule: rtranclp_induct) (auto intro: new_node_ok ingest_step_ok)

lemma rates_entry: "rates_ok m ws \<Longrightarrow> u \<noteq> [] \<Longrightarrow> m u \<noteq> None \<longleftrightarrow> 0 < count_workers (\<lambda>p. limited_user p = u) ws"
  unfolding rates_ok_def rate_good_def rate_held_def by (cases "m u") fastforce+

text \<open>
  C16: however the workers of an ingest node interleave, and whatever jobs are deleted meanwhile, no two
  of them work on one hash, no more than the gate's capacity download, the limiter of a user exists
  while and only while a worker of the user holds it, and when the last worker is done nothing is left
  behind: the node is as new.
\<close>

theorem ingest_node_exclusive:
  assumes "ingest_step\<^sup>*\<^sup>* (new_ingest_node n) s"
  shows "(hash_of (nd_workers s c) = hash_of (nd_workers s c') \<and> hash_of (nd_workers s c) \<noteq> [] \<longrightarrow> c = c')
    \<and> (1 \<le> n \<longrightarrow> int (card {c. in_gate (nd_workers s c)}) \<le> n)
    \<and> (u \<noteq> [] \<longrightarrow> (nd_rates s u \<noteq> None \<longleftrightarrow> (\<exists>c. limited_user (nd_workers s c) = u)))
    \<and> ((\<forall>c. nd_workers s c = Off) \<longrightarrow> s = new_ingest_node n)"
proof (intro conjI impI)
  have D: "workers_ok (nd_workers s)" "cancels_ok (nd_cancels s) (nd_workers s)" "hashes_ok (nd_hashes s) (nd_workers s)"
    "rates_ok (nd_rates s) (nd_workers s)" "gate_ok n (nd_gate s) (nd_workers s)"
    using node_reach_ok [OF assms] by (simp_all add: node_ok_def)
  show "c = c'" if "hash_of (nd_workers s c) = hash_of (nd_workers s c') \<and> hash_of (nd_workers s c) \<noteq> []"
    using hashes_okD(2) [OF D(3)] that by blast
  show "int (card {c. in_gate (nd_workers s c)}) \<le> n" if "1 \<le> n"
    using D(5) that by (auto simp: gate_ok_def count_workers_def split: option.splits)
  show "nd_rates s u \<noteq> None \<longleftrightarrow> (\<exists>c. limited_user (nd_workers s c) = u)" if "u \<noteq> []"
  proof -
    have "finite {c. limited_user (nd_workers s c) = u}"
      using D(1) that by (rule_tac finite_subset [of _ "{c. nd_workers s c \<noteq> Off}"]) (auto simp: workers_ok_def)
    with rates_entry [OF D(4) that] show ?thesis by (auto simp: count_workers_def card_gt_0_iff)
  qed
  show "s = new_ingest_node n" if off: "\<forall>c. nd_workers s c = Off"
  proof -
    have w: "nd_workers s = (\<lambda>_. Off)" using off by blast
    have "nd_rates s u = None" for u
      using rates_entry [OF D(4), of u] D(4) w by (cases "u = []") (auto simp: rates_ok_def rate_good_def count_workers_def)
    moreover have "nd_cancels s i = None" for i using D(2) w by (fastforce simp: cancels_ok_def)
    moreover have "nd_gate s = new_gate n"
      using D(5) w by (auto simp: gate_ok_def new_gate_def count_workers_def split: option.splits)
    ultimately show ?thesis
      using D(3) w by (auto simp: new_ingest_node_def new_cancel_registry_def hashes_ok_def intro!: ingest_node.equality)
  qed
qed

theorem ingest_node_exclusive_witness:
  "let s = worker_hold 1 (film_job\<lparr>jid := ''j2''\<rparr>) (worker_track 1 (film_job\<lparr>jid := ''j2''\<rparr>) (set_worker 1 (Loaded (film_job\<lparr>jid := ''j2''\<rparr>))
       (worker_hold 0 film_job (worker_track 0 film_job (set_worker 0 (Loaded film_job) (new_ingest_node 2))))))
   in nd_workers s 0 = HashHeld film_job \<and> nd_workers s 1 = TurnedAway (film_job\<lparr>jid := ''j2''\<rparr>)
     \<and> int (card {c. in_gate (nd_workers s c)}) \<le> 2"
proof -
  let ?k = "film_job\<lparr>jid := ''j2''\<rparr>"
  let ?s1 = "set_worker 0 (Loaded film_job) (new_ingest_node 2)"
  let ?s2 = "worker_track 0 film_job ?s1" let ?s3 = "worker_hold 0 film_job ?s2"
  let ?t1 = "set_worker 1 (Loaded ?k) ?s3" let ?t2 = "worker_track 1 ?k ?t1" let ?t3 = "worker_hold 1 ?k ?t2"
  note defs = new_ingest_node_def worker_track_def track_if_absent_def new_cancel_registry_def worker_hold_def hold_hash_def film_job_def
  have "ingest_step (new_ingest_node 2) ?s1" by (rule ingest_step.load) (simp add: new_ingest_node_def)
  moreover have "ingest_step ?s1 ?s2" by (rule ingest_step.track) simp
  moreover have "ingest_step ?s2 ?s3" by (rule ingest_step.hold) (simp add: defs)
  moreover have "ingest_step ?s3 ?t1" by (rule ingest_step.load) (simp add: defs)
  moreover have "ingest_step ?t1 ?t2" by (rule ingest_step.track) simp
  moreover have "ingest_step ?t2 ?t3" by (rule ingest_step.hold) (simp add: defs)
  ultimately have "ingest_step\<^sup>*\<^sup>* (new_ingest_node 2) ?t3" by (meson rtranclp.rtrancl_refl rtranclp.rtrancl_into_rtrancl)
  from ingest_node_exclusive [OF this, of 0 1 "''u1''"] show ?thesis by (simp add: Let_def defs)
qed

section \<open>What a run leaves\<close>

lemma run_fail_inflight [simp]: "tw_inflight (run_fail flt others k now j e w) = tw_inflight w"
  by (simp add: run_fail_def emit_def case_prod_unfold)

lemma claim_job_simps [simp]:
  "fst (claim_job flt others now j w) = j\<lparr>status := StatusDownloading, updated_at := now\<rparr>"
  "tw_inflight (snd (claim_job flt others now j w)) = tw_inflight w" "tw_calls (snd (claim_job flt others now j w)) = tw_calls w"
  by (simp_all add: claim_job_def t_update_def)

lemma start_torrent_inflight [simp]: "tw_inflight (snd (start_torrent en added j bps w)) = tw_inflight w"
  and start_torrent_file_inflight [simp]: "tw_inflight (snd (start_torrent_file en readable added category j w)) = tw_inflight w"
  by (simp_all add: start_torrent_def start_torrent_file_def call_def)

lemma settle_inflight [simp]: "tw_inflight (settle ir en flt others now bps qb res j w) = tw_inflight w"
  by (cases "start_torrent en (ir_added ir) j bps w")
    (use start_torrent_inflight [of en "ir_added ir" j bps w] in
      \<open>auto simp: settle_def emit_def split: prod.splits option.splits bool.splits\<close>)

text \<open>One more slot when a row that held none is rewritten as one that does.\<close>

lemma count_upd_one:
  assumes "distinct (map jid rows)" and "r \<in> set rows" and "\<not> q r" and "q (f r)"
  shows "count_where q (upd_where (\<lambda>x. jid x = jid r) f rows) = Suc (count_where q rows)"
  using assms
proof (induction rows)
  case (Cons a rows)
  show ?case
  proof (cases "a = r")
    case True
    then have "upd_where (\<lambda>x. jid x = jid r) f rows = rows"
      using Cons.prems(1) by (intro upd_where_none) (auto simp: image_iff)
    with True Cons.prems show ?thesis by simp
  next
    case False
    then have "r \<in> set rows" using Cons.prems(2) by simp
    moreover have "jid a \<noteq> jid r" using Cons.prems(1) calculation by (auto simp: image_iff)
    ultimately show ?thesis using Cons by simp
  qed
qed simp

text \<open>
  A worker writes back the row it read before it waited for the gate. When its job was completed
  meanwhile, by another worker's publication of the hash, and the account has filled the freed slot,
  the write makes the completed job a download again and the account holds one slot more than its
  limit.
\<close>

theorem stale_claim_exceeds_limit:
  assumes "queue_ok lims d" and "others 0 (cdb (w_cache (tw_world w))) = d" and "f_db flt = no_faults"
    and "r \<in> set (jobs_t d)" and "jid r = jid j" and "user_id r = user_id j" and "info_hash r = info_hash j"
    and "status r = StatusComplete" and "\<not> seed r" and "\<not> seed j"
    and "int (slots d (user_id j)) = normalize_concurrent (lims (user_id j))"
  shows "int (slots (cdb (w_cache (tw_world (snd (claim_job flt others now j w))))) (user_id j)) = normalize_concurrent (lims (user_id j)) + 1"
proof -
  let ?j = "j\<lparr>status := StatusDownloading\<rparr>" and ?q = "\<lambda>x. user_id x = user_id j \<and> holds_slot x"
  note st = queue_okD(1) [OF assms(1)]
  have key: "keeps_key (\<lambda>_. ?j) r"
    using assms(5-10) by (auto simp: keeps_key_def same_live_key_def has_live_user_identity_def)
  have u: "update_job no_faults 0 now d ?j = (Inr (), rewrite now (\<lambda>_. ?j) (\<lambda>x. jid x = jid r) d)"
    by (rule update_one(1) [OF st assms(4) key])
  have "cdb (w_cache (tw_world (snd (claim_job flt others now j w)))) = d\<lparr>jobs_t := upd_where (\<lambda>x. jid x = jid r) (updated_row now ?j) (jobs_t d)\<rparr>"
    using assms(2,3) u by (simp add: claim_job_def t_update_def rewrite_def upd_where_def)
  moreover have "count_where ?q (upd_where (\<lambda>x. jid x = jid r) (updated_row now ?j) (jobs_t d)) = Suc (count_where ?q (jobs_t d))"
    by (rule count_upd_one [OF store_okD(1) [OF st] assms(4)])
      (use assms(8,10) in \<open>simp_all add: holds_slot_def concurrency_statuses_def updated_row_def\<close>)
  ultimately show ?thesis using assms(11) by (simp add: slots_def)
qed

definition freed_rows :: "job list" where
  "freed_rows = [film_job\<lparr>status := StatusComplete\<rparr>, film_job\<lparr>jid := ''j2'', info_hash := ''cd''\<rparr>]"

theorem stale_claim_exceeds_limit_witness:
  "int (slots \<lparr>jobs_t = [film_job]\<rparr> ''u1'') = 1 \<and> queue_ok (\<lambda>_. 1) \<lparr>jobs_t = freed_rows\<rparr> \<and>
   int (slots (cdb (w_cache (tw_world (snd (claim_job no_pub_faults (\<lambda>_ _. \<lparr>jobs_t = freed_rows\<rparr>) 9 film_job (start_world [film_job] (\<lambda>_. None))))))) ''u1'') = 2"
proof -
  have "to_lower ''cd'' = ''cd''" by code_simp
  then have ok: "queue_ok (\<lambda>_. 1) \<lparr>jobs_t = freed_rows\<rparr>"
    by (auto simp: queue_ok_def store_ok_def freed_rows_def film_job_def same_live_key_def has_live_user_identity_def slots_def hash_slots_def
        holds_slot_def concurrency_statuses_def normalize_concurrent_def)
  have one: "int (slots \<lparr>jobs_t = freed_rows\<rparr> (user_id film_job)) = normalize_concurrent 1" "int (slots \<lparr>jobs_t = [film_job]\<rparr> ''u1'') = 1"
    by (simp_all add: freed_rows_def film_job_def slots_def holds_slot_def concurrency_statuses_def normalize_concurrent_def)
  have "int (slots (cdb (w_cache (tw_world (snd (claim_job no_pub_faults (\<lambda>_ _. \<lparr>jobs_t = freed_rows\<rparr>) 9 film_job (start_world [film_job] (\<lambda>_. None)))))))
      (user_id film_job)) = normalize_concurrent 1 + 1"
    by (rule stale_claim_exceeds_limit [where r = "film_job\<lparr>status := StatusComplete\<rparr>" and lims = "\<lambda>_. 1", OF ok])
      (simp_all add: one(1) no_pub_faults_def, simp_all add: freed_rows_def film_job_def)
  with ok one(2) show ?thesis by (simp add: normalize_concurrent_def film_job_def)
qed

section \<open>What reconciling recovers\<close>

abbreviation rows_of :: "world \<Rightarrow> job list" where
  "rows_of w \<equiv> jobs_t (cdb (w_cache w))"

definition quiet :: "reconcile_env \<Rightarrow> bool" where
  "quiet e \<longleftrightarrow> (\<forall>st i. \<not> rc_list_fails e st \<and> rc_flt e st i = no_faults \<and> \<not> rc_unread e st i \<and> rc_others e st i = (\<lambda>_ d. d))"

lemma quietD: "quiet e \<Longrightarrow> rc_list_fails e st = False" "quiet e \<Longrightarrow> rc_flt e st i = no_faults"
  "quiet e \<Longrightarrow> rc_unread e st i = False" "quiet e \<Longrightarrow> rc_others e st i = (\<lambda>_ d. d)"
  by (simp_all add: quiet_def)

definition done_row :: "string \<Rightarrow> world \<Rightarrow> bool" where
  "done_row i w \<longleftrightarrow> (\<exists>r\<in>set (rows_of w). jid r = i \<and> status r = StatusComplete)"

lemma store_ok_map:
  assumes "store_ok d" and "\<And>r. r \<in> set (jobs_t d) \<Longrightarrow> keeps_key g r"
  shows "store_ok (d\<lparr>jobs_t := map g (jobs_t d)\<rparr>)"
proof -
  have g: "jid (g r) = jid r" "info_hash (g r) = info_hash r" "has_live_user_identity (g r) \<Longrightarrow> same_live_key (g r) r"
    if "r \<in> set (jobs_t d)" for r
    using assms(2) [OF that] by (simp_all add: keeps_key_def)
  have "map jid (map g (jobs_t d)) = map jid (jobs_t d)" using g(1) by simp
  moreover have "jid (g a) = jid (g b)" if "a \<in> set (jobs_t d)" "b \<in> set (jobs_t d)" "same_live_key (g a) (g b)" for a b
  proof -
    have "same_live_key (g a) a" "same_live_key (g b) b" using g(3) that by (auto simp: same_live_key_def)
    then have "same_live_key a b" using that(3) by (auto simp: same_live_key_def)
    then show ?thesis using store_okD(3) [OF assms(1) that(1,2)] g(1) that by simp
  qed
  ultimately show ?thesis using store_okD(1,2) [OF assms(1)] g(2) by (auto simp: store_ok_def simp del: map_map)
qed

definition complete_row :: "int \<Rightarrow> string \<Rightarrow> string \<Rightarrow> string \<Rightarrow> file_rec list \<Rightarrow> int \<Rightarrow> job \<Rightarrow> job" where
  "complete_row now nd h nm fs tot r =
     (if to_lower (info_hash r) = to_lower h \<and> completes nd r then updated_row now (completed nd nm fs tot r) r else r)"

lemma complete_row_key: "keeps_key (complete_row now nd h nm fs tot) r"
  using keeps_key_completed [of nd r nm fs tot]
  by (auto simp: complete_row_def keeps_key_def same_live_key_def has_live_user_identity_def updated_row_def)

text \<open>A release is stored where a row is if the store of the row's node has its manifest, readable.\<close>

definition release_stored :: "publisher \<Rightarrow> world \<Rightarrow> job \<Rightarrow> bool" where
  "release_stored p w r \<longleftrightarrow> (\<exists>man. w_mans w (store_for p (node r)) (info_hash r) = Some (Some man))"

text \<open>What recovery makes of a row: nothing, or a complete one of a release that is stored.\<close>

definition recovered :: "publisher \<Rightarrow> world \<Rightarrow> job \<Rightarrow> job \<Rightarrow> bool" where
  "recovered p w x y \<longleftrightarrow> y = x \<or> jid y = jid x \<and> info_hash y = info_hash x \<and> status y = StatusComplete
     \<and> release_stored p w y \<and> (status x = StatusQueued \<or> node y = node x)"

definition recovers :: "publisher \<Rightarrow> world \<Rightarrow> world \<Rightarrow> bool" where
  "recovers p w w' \<longleftrightarrow> store_ok (cdb (w_cache w')) \<and> w_mans w' = w_mans w \<and> list_all2 (recovered p w) (rows_of w) (rows_of w')"

lemma release_stored_cong: "w_mans w' = w_mans w \<Longrightarrow> release_stored p w' = release_stored p w"
  by (simp add: release_stored_def fun_eq_iff)

lemma recovered_trans: "recovered p w x y \<Longrightarrow> recovered p w y z \<Longrightarrow> recovered p w x z"
  by (auto simp: recovered_def)

lemma recovers_refl: "store_ok (cdb (w_cache w)) \<Longrightarrow> recovers p w w"
  by (simp add: recovers_def recovered_def list_all2_refl)

lemma recovers_trans:
  assumes "recovers p u v" "recovers p v w"
  shows "recovers p u w"
proof -
  have "release_stored p v = release_stored p u" using assms(1) by (intro release_stored_cong) (simp add: recovers_def)
  then have "recovered p v = recovered p u" by (simp add: recovered_def fun_eq_iff)
  then have "list_all2 (recovered p u) (rows_of v) (rows_of w)" "list_all2 (recovered p u) (rows_of u) (rows_of v)"
    using assms by (simp_all add: recovers_def)
  with recovered_trans have "list_all2 (recovered p u) (rows_of u) (rows_of w)"
    by (blast intro: list_all2_trans)
  with assms show ?thesis by (simp add: recovers_def)
qed

lemma recoversD:
  assumes "recovers p w w'"
  shows "x \<in> set (rows_of w) \<Longrightarrow> \<exists>y\<in>set (rows_of w'). recovered p w x y"
    and "y \<in> set (rows_of w') \<Longrightarrow> \<exists>x\<in>set (rows_of w). recovered p w x y"
proof -
  have l: "list_all2 (recovered p w) (rows_of w) (rows_of w')" using assms by (simp add: recovers_def)
  show "x \<in> set (rows_of w) \<Longrightarrow> \<exists>y\<in>set (rows_of w'). recovered p w x y" using l by (metis in_set_conv_nth list_all2_conv_all_nth)
  show "y \<in> set (rows_of w') \<Longrightarrow> \<exists>x\<in>set (rows_of w). recovered p w x y" using l by (metis in_set_conv_nth list_all2_conv_all_nth)
qed

text \<open>A row that is not queued and whose release is not stored stays; a complete one stays complete.\<close>

lemma recovers_keeps:
  assumes "recovers p w w'" "x \<in> set (rows_of w)" "status x \<noteq> StatusQueued" "\<not> release_stored p w x"
  shows "x \<in> set (rows_of w')"
  using recoversD(1) [OF assms(1,2)] assms(3,4) by (auto simp: recovered_def release_stored_def)

lemma recovers_done: "recovers p w w' \<Longrightarrow> done_row i w \<Longrightarrow> done_row i w'"
  using recoversD(1) [of p w w'] by (fastforce simp: done_row_def recovered_def)

lemma recovers_step: "recovers p w w' \<Longrightarrow> x \<in> set (rows_of w) \<or> done_row (jid x) w \<Longrightarrow> x \<in> set (rows_of w') \<or> done_row (jid x) w'"
  using recoversD(1) [of p w w' x] recovers_done [of p w w' "jid x"] by (auto simp: recovered_def done_row_def)

lemma complete_from_cache_quiet:
  assumes "store_ok (cdb (w_cache w))" and "to_lower h = h"
    and "complete_from_cache p no_faults False (\<lambda>_ d. d) now nd h w = (ok, er, w1)"
  shows "recovers p w w1" and "ok \<longleftrightarrow> (\<exists>man. w_mans w (store_for p nd) h = Some (Some man))"
    and "ok \<Longrightarrow> r \<in> set (rows_of w) \<Longrightarrow> info_hash r = h \<Longrightarrow> node r = nd
      \<Longrightarrow> status r \<notin> {StatusFailed, StatusEvicted} \<Longrightarrow> done_row (jid r) w1"
proof -
  have "(\<nexists>man. w_mans w (store_for p nd) h = Some (Some man)) \<and> \<not> ok \<and> w1 = w
    \<or> (\<exists>man nm fs tot. w_mans w (store_for p nd) h = Some (Some man) \<and> ok \<and> rows_of w1 = map (complete_row now nd h nm fs tot) (rows_of w)
      \<and> store_ok (cdb (w_cache w1)) \<and> w_mans w1 = w_mans w)"
  proof (cases "w_mans w (store_for p nd) h")
    case (Some m)
    then show ?thesis
    proof (cases m)
      case m: (Some man)
      let ?g = "complete_row now nd h (mn_name man) (job_files (mn_files man)) (sum_list (map mf_size (mn_files man)))"
      have "complete no_faults (\<lambda>_ d. d) 0 now nd h (mn_name man) (mn_files man) (sum_list (map mf_size (mn_files man))) (cdb (w_cache w))
          = (Inr (), cdb (w_cache w)\<lparr>jobs_t := map ?g (rows_of w)\<rparr>)"
        using complete_rows [OF assms(1)] by (simp add: complete_row_def [abs_def])
      then have "ok \<and> cdb (w_cache w1) = cdb (w_cache w)\<lparr>jobs_t := map ?g (rows_of w)\<rparr> \<and> w_mans w1 = w_mans w"
        using assms(3) Some m by (auto simp: complete_from_cache_def on_db_def)
      with Some m store_ok_map [OF assms(1) complete_row_key] show ?thesis by auto
    qed (use assms(3) in \<open>simp add: complete_from_cache_def\<close>)
  qed (use assms(3) in \<open>simp add: complete_from_cache_def\<close>)
  then consider (none) "\<nexists>man. w_mans w (store_for p nd) h = Some (Some man)" "\<not> ok" "w1 = w"
    | (hit) man nm fs tot where "w_mans w (store_for p nd) h = Some (Some man)" "ok" "rows_of w1 = map (complete_row now nd h nm fs tot) (rows_of w)"
      "store_ok (cdb (w_cache w1))" "w_mans w1 = w_mans w"
    by blast
  note c = this
  show "ok \<longleftrightarrow> (\<exists>man. w_mans w (store_for p nd) h = Some (Some man))" using c by cases auto
  show "recovers p w w1"
    using c
  proof cases
    case (hit man nm fs tot)
    have "recovered p w x (complete_row now nd h nm fs tot x)" if "x \<in> set (rows_of w)" for x
      using that store_okD(2) [OF assms(1)] assms(2) hit(1)
      by (auto simp: recovered_def complete_row_def completes_def completed_def updated_row_def release_stored_def)
    with hit(3-5) show ?thesis by (auto simp: recovers_def list_all2_conv_all_nth)
  qed (use assms(1) in \<open>simp add: recovers_refl\<close>)
  show "done_row (jid r) w1" if "ok" "r \<in> set (rows_of w)" "info_hash r = h" "node r = nd" "status r \<notin> {StatusFailed, StatusEvicted}"
    using c
  proof cases
    case (hit man nm fs tot)
    have "jid (complete_row now nd h nm fs tot r) = jid r \<and> status (complete_row now nd h nm fs tot r) = StatusComplete"
      using that by (auto simp: complete_row_def completes_def completed_def updated_row_def)
    with that(2) show ?thesis by (auto simp: done_row_def hit(3))
  qed (use that in simp)
qed

text \<open>
  A row nobody works on here; it is stranded unless it is a torrent the engine is downloading.
\<close>

definition idle_row :: "runner \<Rightarrow> reconcile_env \<Rightarrow> job \<Rightarrow> bool" where
  "idle_row rn e r \<longleftrightarrow> mine rn (node r) \<and> \<not> has_job (rc_cancels e (status r) (jid r)) (jid r)"

definition stranded :: "runner \<Rightarrow> reconcile_env \<Rightarrow> job \<Rightarrow> bool" where
  "stranded rn e r \<longleftrightarrow> idle_row rn e r \<and> \<not> (status r = StatusDownloading \<and> source r = SourceTorrent)"

definition announced_rows :: "publisher \<Rightarrow> runner \<Rightarrow> reconcile_env \<Rightarrow> world \<Rightarrow> job set \<Rightarrow> string set" where
  "announced_rows p rn e w rs = jid ` {r \<in> rs. stranded rn e r \<and> \<not> release_stored p w r}"

lemma reconcile_loop_recovers:
  assumes "quiet e" and "store_ok (cdb (w_cache w))" and "reconcile_loop p rn e now st js w = (ids, w1)"
    and "st \<notin> {StatusFailed, StatusEvicted}" and "\<forall>j\<in>set js. status j = st \<and> to_lower (info_hash j) = info_hash j"
  shows "recovers p w w1 \<and> set ids = announced_rows p rn e w (set js)
    \<and> (\<forall>r\<in>set js. idle_row rn e r \<longrightarrow> release_stored p w r \<longrightarrow> r \<in> set (rows_of w) \<or> done_row (jid r) w \<longrightarrow> done_row (jid r) w1)"
  using assms(2,3,5)
proof (induction js arbitrary: w ids)
  case Nil
  then show ?case by (simp add: recovers_refl announced_rows_def)
next
  case (Cons j js)
  have j: "status j = st" "to_lower (info_hash j) = info_hash j" using Cons.prems(3) by auto
  show ?case
  proof (cases "idle_row rn e j")
    case False
    then have l: "reconcile_loop p rn e now st js w = (ids, w1)" using Cons.prems(2) j(1) by (auto simp: idle_row_def)
    have "announced_rows p rn e w (set (j # js)) = announced_rows p rn e w (set js)"
      using False by (auto simp: announced_rows_def stranded_def)
    with Cons.IH [OF Cons.prems(1) l] Cons.prems(3) False show ?thesis by simp
  next
    case idle: True
    obtain ok er w2 where c: "complete_from_cache p no_faults False (\<lambda>_ d. d) now (node j) (info_hash j) w = (ok, er, w2)"
      using prod_cases3 by blast
    note q = complete_from_cache_quiet [OF Cons.prems(1) j(2) c]
    have st2: "store_ok (cdb (w_cache w2))" "release_stored p w2 = release_stored p w"
      using q(1) release_stored_cong [of w2 w p] by (auto simp: recovers_def)
    have ok: "ok \<longleftrightarrow> release_stored p w j" using q(2) by (simp add: release_stored_def)
    obtain ids' where l: "reconcile_loop p rn e now st js w2 = (ids', w1)"
      and i: "ids = (if ok \<or> st = StatusDownloading \<and> source j = SourceTorrent then ids' else jid j # ids')"
      using Cons.prems(2) idle c j(1)
      by (cases "reconcile_loop p rn e now st js w2") (auto simp: quietD [OF assms(1)] idle_row_def split: if_splits)
    have IH: "recovers p w2 w1" "set ids' = announced_rows p rn e w (set js)"
      "\<forall>r\<in>set js. idle_row rn e r \<longrightarrow> release_stored p w r \<longrightarrow> r \<in> set (rows_of w2) \<or> done_row (jid r) w2 \<longrightarrow> done_row (jid r) w1"
      using Cons.IH [OF st2(1) l] Cons.prems(3) st2(2) by (simp_all add: announced_rows_def)
    have "set ids = announced_rows p rn e w (set (j # js))"
    proof (cases "ok \<or> st = StatusDownloading \<and> source j = SourceTorrent")
      case True
      then have "\<not> (stranded rn e j \<and> \<not> release_stored p w j)" using ok j(1) by (auto simp: stranded_def)
      with True i IH(2) show ?thesis by (auto simp: announced_rows_def)
    next
      case False
      then have "stranded rn e j \<and> \<not> release_stored p w j" using ok j(1) idle by (auto simp: stranded_def)
      with False i IH(2) show ?thesis by (auto simp: announced_rows_def)
    qed
    moreover have "done_row (jid j) w1" if "release_stored p w j" "j \<in> set (rows_of w) \<or> done_row (jid j) w"
    proof -
      have "done_row (jid j) w2" using that(2) q(3) [of j] ok that(1) j(1) assms(4) recovers_done [OF q(1)] by blast
      then show ?thesis by (rule recovers_done [OF IH(1)])
    qed
    moreover have "r \<in> set (rows_of w2) \<or> done_row (jid r) w2" if "r \<in> set (rows_of w) \<or> done_row (jid r) w" for r
      by (rule recovers_step [OF q(1) that])
    ultimately show ?thesis using recovers_trans [OF q(1) IH(1)] IH(3) by auto
  qed
qed

lemma reconcile_statuses_recovers:
  assumes "quiet e" and "store_ok (cdb (w_cache w))" and "reconcile_statuses p rn e now sts w = (ids, w1)"
    and "set sts \<inter> {StatusFailed, StatusEvicted, StatusQueued} = {}"
  shows "recovers p w w1 \<and> set ids = announced_rows p rn e w {r \<in> set (rows_of w). status r \<in> set sts}
    \<and> (\<forall>r\<in>set (rows_of w). status r \<in> set sts \<longrightarrow> idle_row rn e r \<longrightarrow> release_stored p w r \<longrightarrow> done_row (jid r) w1)"
  using assms(2-4)
proof (induction sts arbitrary: w ids)
  case Nil
  then show ?case by (simp add: recovers_refl announced_rows_def)
next
  case (Cons st sts)
  obtain ids1 w2 where l: "reconcile_loop p rn e now st (filter (\<lambda>j. status j = st) (rows_of w)) w = (ids1, w2)" by fastforce
  obtain ids2 where s: "reconcile_statuses p rn e now sts w2 = (ids2, w1)" and i: "ids = ids1 @ ids2"
    using Cons.prems(2) l by (cases "reconcile_statuses p rn e now sts w2") (auto simp: quietD [OF assms(1)])
  have st: "st \<notin> {StatusFailed, StatusEvicted}" "st \<noteq> StatusQueued" "set sts \<inter> {StatusFailed, StatusEvicted, StatusQueued} = {}"
    using Cons.prems(3) by auto
  have L: "recovers p w w2" "set ids1 = announced_rows p rn e w {r \<in> set (rows_of w). status r = st}"
    "\<forall>r\<in>set (rows_of w). status r = st \<longrightarrow> idle_row rn e r \<longrightarrow> release_stored p w r \<longrightarrow> done_row (jid r) w2"
    using reconcile_loop_recovers [OF assms(1) Cons.prems(1) l st(1)] store_okD(2) [OF Cons.prems(1)] by auto
  have st2: "store_ok (cdb (w_cache w2))" "release_stored p w2 = release_stored p w"
    using L(1) release_stored_cong [of w2 w p] by (auto simp: recovers_def)
  have IH: "recovers p w2 w1" "set ids2 = announced_rows p rn e w {r \<in> set (rows_of w2). status r \<in> set sts}"
    "\<forall>r\<in>set (rows_of w2). status r \<in> set sts \<longrightarrow> idle_row rn e r \<longrightarrow> release_stored p w r \<longrightarrow> done_row (jid r) w1"
    using Cons.IH [OF st2(1) s st(3)] st2(2) by (simp_all add: announced_rows_def)
  have same: "r \<in> set (rows_of w2) \<longleftrightarrow> r \<in> set (rows_of w)" if "status r \<in> set sts" "\<not> release_stored p w r" for r
  proof
    assume "r \<in> set (rows_of w2)"
    from recoversD(2) [OF L(1) this] that(2) show "r \<in> set (rows_of w)" by (auto simp: recovered_def)
  next
    assume "r \<in> set (rows_of w)"
    moreover have "status r \<noteq> StatusQueued" using that(1) st(3) by auto
    ultimately show "r \<in> set (rows_of w2)" using recovers_keeps [OF L(1)] that(2) by blast
  qed
  have ids: "set ids = announced_rows p rn e w {r \<in> set (rows_of w). status r \<in> set (st # sts)}"
    unfolding i set_append L(2) IH(2) announced_rows_def using same by auto
  have "done_row (jid r) w1"
    if r: "r \<in> set (rows_of w)" "status r \<in> set (st # sts)" "idle_row rn e r" "release_stored p w r" for r
  proof (cases "status r = st")
    case True
    then show ?thesis using L(3) r recovers_done [OF IH(1)] by blast
  next
    case False
    then have t: "status r \<in> set sts" using r(2) by simp
    from recovers_step [OF L(1), of r] r(1) have "r \<in> set (rows_of w2) \<or> done_row (jid r) w2" by blast
    then show ?thesis using IH(3) t r(3,4) recovers_done [OF IH(1)] by blast
  qed
  with ids recovers_trans [OF L(1) IH(1)] show ?case by blast
qed

text \<open>
  C33: reconciling loses no job. When nothing fails and nobody else writes meanwhile, the rows announced
  again are exactly the pending, downloading, processing and publishing rows of this node that no worker
  is on and whose release is not stored, but for the downloading torrents, which are left to the
  torrent engine; each of those rows whose release is stored, such torrents included, is complete afterwards; and
  every row of the table stays as it was or becomes a complete row of a release that is stored.
\<close>

theorem reconcile_recovers:
  assumes "quiet e" and "store_ok (cdb (w_cache w))" and "reconcile p rn e now w = (ids, w1)"
  shows "set ids = jid ` {r \<in> set (rows_of w). status r \<in> {StatusPending, StatusDownloading, StatusProcessing, StatusPublishing}
        \<and> idle_row rn e r \<and> \<not> (status r = StatusDownloading \<and> source r = SourceTorrent) \<and> \<not> release_stored p w r}
    \<and> (\<forall>r\<in>set (rows_of w). status r \<in> {StatusPending, StatusDownloading, StatusProcessing, StatusPublishing}
        \<and> idle_row rn e r \<and> release_stored p w r \<longrightarrow> done_row (jid r) w1)
    \<and> (\<forall>r\<in>set (rows_of w). \<exists>r'\<in>set (rows_of w1). r' = r
        \<or> jid r' = jid r \<and> info_hash r' = info_hash r \<and> status r' = StatusComplete \<and> release_stored p w r')"
proof -
  have "set reconciled_statuses \<inter> {StatusFailed, StatusEvicted, StatusQueued} = {}" by (simp add: reconciled_statuses_def)
  note R = reconcile_statuses_recovers [OF assms(1,2) assms(3) [unfolded reconcile_def] this]
  have s: "set reconciled_statuses = {StatusPending, StatusDownloading, StatusProcessing, StatusPublishing}"
    by (simp add: reconciled_statuses_def)
  have "\<exists>r'\<in>set (rows_of w1). r' = r \<or> jid r' = jid r \<and> info_hash r' = info_hash r \<and> status r' = StatusComplete \<and> release_stored p w r'"
    if "r \<in> set (rows_of w)" for r
    using recoversD(1) [of p w w1 r] R that by (auto simp: recovered_def)
  moreover have "announced_rows p rn e w {r \<in> set (rows_of w). status r \<in> set reconciled_statuses} =
      jid ` {r \<in> set (rows_of w). status r \<in> {StatusPending, StatusDownloading, StatusProcessing, StatusPublishing}
        \<and> idle_row rn e r \<and> \<not> (status r = StatusDownloading \<and> source r = SourceTorrent) \<and> \<not> release_stored p w r}"
    unfolding announced_rows_def stranded_def s by (intro arg_cong [where f = "image jid"]) blast
  ultimately show ?thesis using R unfolding s by (intro conjI ballI impI) (simp, blast+)
qed

definition idle_env :: reconcile_env where
  "idle_env = \<lparr>rc_list_fails = (\<lambda>_. False), rc_flt = (\<lambda>_ _. no_faults), rc_unread = (\<lambda>_ _. False), rc_others = (\<lambda>_ _ _ d. d),
     rc_cancels = (\<lambda>_ _. new_cancel_registry)\<rparr>"

theorem reconcile_recovers_witness:
  "let w = tw_world (start_world [film_job\<lparr>status := StatusPublishing\<rparr>] (\<lambda>_. None)) in
   set (fst (reconcile sample_publisher node_runner idle_env 9 w)) = {''j1''}"
proof -
  let ?w = "tw_world (start_world [film_job\<lparr>status := StatusPublishing\<rparr>] (\<lambda>_. None))"
  obtain ids w1 where r: "reconcile sample_publisher node_runner idle_env 9 ?w = (ids, w1)" by fastforce
  have st: "store_ok (cdb (w_cache ?w))" by (simp add: start_world_def store_ok_def film_job_def)
  have "quiet idle_env" by (simp add: quiet_def idle_env_def)
  note ids = conjunct1 [OF reconcile_recovers [OF this st r]]
  have one: "idle_row node_runner idle_env (film_job\<lparr>status := StatusPublishing\<rparr>)" "\<not> release_stored sample_publisher ?w x" "jid film_job = ''j1''" for x
    by (simp_all add: start_world_def film_job_def idle_row_def mine_def node_runner_def has_job_def release_stored_def
        idle_env_def new_cancel_registry_def)
  have rows: "rows_of ?w = [film_job\<lparr>status := StatusPublishing\<rparr>]" by (simp add: start_world_def)
  have "set ids = {''j1''}" unfolding ids rows using one by auto
  with r show ?thesis by (simp only: Let_def fst_conv)
qed

end
