(* ===== verification/Http_Download.thy ===== *)
theory Http_Download
  imports Prelude Bytes "HOL-Library.Sublist" "HOL-Library.Multiset"
begin

text \<open>
  Fetching a file over HTTP: the resumable download of \<open>shared/providers/download.go\<close> and the
  parallel one of \<open>parallel.go\<close>. A server is a function from the attempt and the requested offset
  to a response; a body is the pieces its reads return and how it ends. A file is its bytes; the
  writes of the parallel download are taken in any order.
\<close>

section \<open>Files and responses\<close>

text \<open>A write at an offset: a hole is filled with zeros.\<close>

definition put_at :: "nat \<Rightarrow> byte list \<Rightarrow> byte list \<Rightarrow> byte list" where
  "put_at p bs f = take p f @ replicate (p - length f) 0 @ bs @ drop (p + length bs) f"

text \<open>How a body ends: at its end, with a read error, by a cancelled context, or by a failed write.\<close>

datatype body_end = BodyEOF | BodyErr | BodyCancelled | BodyWriteErr

record response =
  rs_status :: nat
  rs_length :: int
  rs_range :: string
  rs_body :: "byte list list"
  rs_end :: body_end

datatype dl_error = OpenError | StatusError nat | Truncated | ReadError | WriteError | SeekError | RenameError
  | Cancelled | AttemptsExhausted | ShortChunk

definition total_from_content_range :: "string \<Rightarrow> int" where
  "total_from_content_range cr =
     (case last_index_of cr ''/'' of None \<Rightarrow> 0
      | Some i \<Rightarrow> if i + 1 \<ge> length cr then 0 else fst (parse_int (trim_space (drop (i + 1) cr))))"

text \<open>What a range opener returns: the body, the total size, and whether the server ignored the range.\<close>

definition http_range :: "(nat \<Rightarrow> response option) \<Rightarrow> nat \<Rightarrow> dl_error + (response \<times> int \<times> bool)" where
  "http_range client off =
     (case client off of None \<Rightarrow> Inl OpenError
      | Some r \<Rightarrow>
        if rs_status r \<noteq> 200 \<and> rs_status r \<noteq> 206 then Inl (StatusError (rs_status r))
        else Inr (r, if rs_status r = 206 then total_from_content_range (rs_range r) else rs_length r,
                  off > 0 \<and> rs_status r = 200))"

section \<open>The resumable download\<close>

definition max_download_attempts :: nat where
  "max_download_attempts = 6"

text \<open>\<open>copyBody\<close>: the file, the byte count, the error if any, and whether it is fatal.\<close>

fun copy_body :: "byte list list \<Rightarrow> body_end \<Rightarrow> byte list \<Rightarrow> nat \<Rightarrow> byte list \<times> nat \<times> (dl_error \<times> bool) option" where
  "copy_body [] BodyEOF f n = (f, n, None)"
| "copy_body [] BodyErr f n = (f, n, Some (ReadError, False))"
| "copy_body [] BodyCancelled f n = (f, n, Some (Cancelled, True))"
| "copy_body [] BodyWriteErr f n = (f, n, Some (WriteError, True))"
| "copy_body (p # ps) e f n = copy_body ps e (put_at n p f) (n + length p)"

text \<open>
  The loop of \<open>resilient\<close>: \<open>left\<close> attempts remain, \<open>stop\<close> says at which attempts the context is
  already cancelled, \<open>sf\<close> at which the seek or the truncation fails. The file's offset is always the
  number of bytes written.
\<close>

fun resilient_loop :: "(nat \<Rightarrow> bool) \<Rightarrow> (nat \<Rightarrow> bool) \<Rightarrow> (nat \<Rightarrow> nat \<Rightarrow> dl_error + (response \<times> int \<times> bool)) \<Rightarrow> nat
    \<Rightarrow> byte list \<Rightarrow> nat \<Rightarrow> int \<Rightarrow> dl_error option \<Rightarrow> dl_error option \<times> byte list" where
  "resilient_loop stop sf open 0 f written tot last_err =
     (Some (case last_err of None \<Rightarrow> AttemptsExhausted | Some e \<Rightarrow> e), f)"
| "resilient_loop stop sf open (Suc left) f written tot last_err =
     (let attempt = max_download_attempts - Suc left in
      if stop attempt then (Some Cancelled, f)
      else (case open attempt written of
        Inl e \<Rightarrow> resilient_loop stop sf open left f written tot (Some e)
      | Inr (r, sz, full) \<Rightarrow>
          if written > 0 \<and> sf attempt then (Some SeekError, f) else
          let f1 = (if full \<and> written > 0 then [] else f);
              written1 = (if full \<and> written > 0 then 0 else written);
              total1 = (if sz > 0 then sz else tot) in
          (case copy_body (rs_body r) (rs_end r) f1 written1 of (f2, n, res) \<Rightarrow>
            (case res of
               Some (e, fatal) \<Rightarrow> if fatal then (Some e, f2) else resilient_loop stop sf open left f2 n total1 (Some e)
             | None \<Rightarrow>
                 if total1 > 0 \<and> int n < total1 then resilient_loop stop sf open left f2 n total1 (Some Truncated)
                 else (None, f2)))))"

definition resilient :: "(nat \<Rightarrow> bool) \<Rightarrow> (nat \<Rightarrow> bool) \<Rightarrow> (nat \<Rightarrow> nat \<Rightarrow> dl_error + (response \<times> int \<times> bool)) \<Rightarrow> bool \<Rightarrow> byte list
    \<Rightarrow> dl_error option \<times> byte list" where
  "resilient stop sf open stat_ok f =
     resilient_loop stop sf open max_download_attempts f (if stat_ok then length f else 0) 0 None"

text \<open>\<open>Download\<close>: the file afterwards; on an error it is removed unless the context was cancelled.\<close>

definition download :: "bool \<Rightarrow> (nat \<Rightarrow> bool) \<Rightarrow> (nat \<Rightarrow> bool) \<Rightarrow> bool \<Rightarrow> (nat \<Rightarrow> nat \<Rightarrow> dl_error + (response \<times> int \<times> bool)) \<Rightarrow> bool
    \<Rightarrow> byte list option \<Rightarrow> dl_error option \<times> byte list option" where
  "download opens stop sf cancelled open stat_ok old =
     (if \<not> opens then (Some OpenError, old) else
      case resilient stop sf open stat_ok (case old of None \<Rightarrow> [] | Some f \<Rightarrow> f) of
        (None, f) \<Rightarrow> (None, Some f)
      | (Some e, f) \<Rightarrow> (Some e, if cancelled then Some f else None))"

section \<open>The parallel download\<close>

definition min_parallel_bytes :: int where
  "min_parallel_bytes = 16 * 2 ^ 20"

definition chunk_attempts :: nat where
  "chunk_attempts = 6"

definition probe_range :: "response option \<Rightarrow> (int \<times> bool)" where
  "probe_range r = (case r of None \<Rightarrow> (0, False)
     | Some r \<Rightarrow> if rs_status r \<noteq> 206 then (0, False) else (total_from_content_range (rs_range r), True))"

text \<open>The first and last byte of chunk \<open>i\<close>; the last chunk takes the rest.\<close>

definition chunk_bounds :: "int \<Rightarrow> nat \<Rightarrow> nat \<Rightarrow> int \<times> int" where
  "chunk_bounds tot conns i =
     (let chunk = quot tot (int conns); start = int i * chunk in
      (start, if i = conns - 1 then tot - 1 else start + chunk - 1))"

text \<open>\<open>copyChunkAt\<close>: the writes made, the bytes written, and the error.\<close>

fun copy_chunk :: "byte list list \<Rightarrow> body_end \<Rightarrow> nat \<Rightarrow> nat \<Rightarrow> (nat \<times> byte list) list \<times> nat \<times> dl_error option" where
  "copy_chunk [] e pos written = ([], written, (case e of BodyEOF \<Rightarrow> None | BodyErr \<Rightarrow> Some ReadError
     | BodyCancelled \<Rightarrow> Some Cancelled | BodyWriteErr \<Rightarrow> Some WriteError))"
| "copy_chunk (p # ps) e pos written =
     (case copy_chunk ps e pos (written + length p) of (ws, n, err) \<Rightarrow> ((pos + written, p) # ws, n, err))"

fun fetch_chunk :: "(nat \<Rightarrow> nat \<Rightarrow> bool) \<Rightarrow> (nat \<Rightarrow> nat \<Rightarrow> nat \<Rightarrow> response option) \<Rightarrow> nat \<Rightarrow> nat \<Rightarrow> nat \<Rightarrow> dl_error option
    \<Rightarrow> dl_error option \<times> (nat \<times> byte list) list" where
  "fetch_chunk stop client 0 pos hi last_err = (last_err, [])"
| "fetch_chunk stop client (Suc left) pos hi last_err =
     (let attempt = chunk_attempts - Suc left in
      if stop attempt pos then (Some Cancelled, [])
      else if pos > hi then (None, [])
      else (case client attempt pos hi of
        None \<Rightarrow> fetch_chunk stop client left pos hi (Some OpenError)
      | Some r \<Rightarrow>
          if rs_status r \<noteq> 206 then fetch_chunk stop client left pos hi (Some (StatusError (rs_status r)))
          else (case copy_chunk (rs_body r) (rs_end r) pos 0 of (ws, n, err) \<Rightarrow>
            if pos + n > hi then (None, ws)
            else if rs_end r = BodyCancelled then (Some Cancelled, ws)
            else (case fetch_chunk stop client left (pos + n) hi (Some (case err of None \<Rightarrow> ShortChunk | Some e \<Rightarrow> e)) of
                    (res, ws') \<Rightarrow> (res, ws @ ws')))))"

text \<open>The goroutine of chunk \<open>i\<close>; an empty chunk starts none.\<close>

definition run_chunk :: "(nat \<Rightarrow> nat \<Rightarrow> nat \<Rightarrow> bool) \<Rightarrow> (nat \<Rightarrow> nat \<Rightarrow> nat \<Rightarrow> nat \<Rightarrow> response option) \<Rightarrow> int \<Rightarrow> nat \<Rightarrow> nat
    \<Rightarrow> dl_error option \<times> (nat \<times> byte list) list" where
  "run_chunk stop client tot conns i =
     (case chunk_bounds tot conns i of (start, hi) \<Rightarrow>
      if start > hi then (None, [])
      else fetch_chunk (stop i) (client i) chunk_attempts (nat start) (nat hi) None)"

definition apply_writes :: "(nat \<times> byte list) list \<Rightarrow> byte list \<Rightarrow> byte list" where
  "apply_writes ws f = fold (\<lambda>(p, bs). put_at p bs) ws f"

definition truncate_to :: "nat \<Rightarrow> byte list \<Rightarrow> byte list" where
  "truncate_to n f = take n f @ replicate (n - length f) 0"

definition first_error :: "dl_error option list \<Rightarrow> dl_error option" where
  "first_error es = (case dropWhile (\<lambda>e. e = None) es of [] \<Rightarrow> None | e # _ \<Rightarrow> e)"

text \<open>
  \<open>downloadParallel\<close>: \<open>order\<close> is the order in which the writes of all goroutines reach the file.
\<close>

definition download_parallel :: "(nat \<Rightarrow> nat \<Rightarrow> nat \<Rightarrow> bool) \<Rightarrow> (nat \<Rightarrow> nat \<Rightarrow> nat \<Rightarrow> nat \<Rightarrow> response option) \<Rightarrow> int \<Rightarrow> nat
    \<Rightarrow> (nat \<times> byte list) list \<Rightarrow> byte list \<Rightarrow> dl_error option \<times> byte list" where
  "download_parallel stop client tot conns order f =
     (first_error (map (\<lambda>i. fst (run_chunk stop client tot conns i)) [0..<conns]),
      apply_writes order (truncate_to (nat tot) f))"

definition all_writes :: "(nat \<Rightarrow> nat \<Rightarrow> nat \<Rightarrow> bool) \<Rightarrow> (nat \<Rightarrow> nat \<Rightarrow> nat \<Rightarrow> nat \<Rightarrow> response option) \<Rightarrow> int \<Rightarrow> nat
    \<Rightarrow> (nat \<times> byte list) list" where
  "all_writes stop client tot conns = concat (map (\<lambda>i. snd (run_chunk stop client tot conns i)) [0..<conns])"

section \<open>Fetching into place\<close>

text \<open>
  \<open>fetchToPart\<close> and \<open>FetchFile\<close>: the part file and the file at the path, absent or present.
\<close>

record fetch_env =
  fe_probe :: "response option"
  fe_par_opens :: bool
  fe_opens :: bool
  fe_renames :: bool
  fe_seek_fails :: "nat \<Rightarrow> bool"
  fe_stop :: "nat \<Rightarrow> nat \<Rightarrow> nat \<Rightarrow> bool"
  fe_client :: "nat \<Rightarrow> nat \<Rightarrow> nat \<Rightarrow> nat \<Rightarrow> response option"
  fe_order :: "(nat \<times> byte list) list"
  fe_cancelled :: bool
  fe_dl_stop :: "nat \<Rightarrow> bool"
  fe_open :: "nat \<Rightarrow> nat \<Rightarrow> response option"
  fe_dl_cancelled :: bool
  fe_stat_ok :: bool

definition fetch_to_part :: "fetch_env \<Rightarrow> nat \<Rightarrow> byte list option \<Rightarrow> dl_error option \<times> byte list option" where
  "fetch_to_part env conns part =
     (let single = (\<lambda>old. download (fe_opens env) (fe_dl_stop env) (fe_seek_fails env) (fe_dl_cancelled env) (\<lambda>a. http_range (fe_open env a)) (fe_stat_ok env) old);
          (tot, ok) = probe_range (fe_probe env) in
      if conns > 1 \<and> ok \<and> tot \<ge> min_parallel_bytes
      then (case (if \<not> fe_par_opens env then (Some OpenError, part)
              else map_prod id Some (download_parallel (fe_stop env) (fe_client env) tot conns (fe_order env)
                (case part of None \<Rightarrow> [] | Some f \<Rightarrow> f))) of
              (None, p) \<Rightarrow> (None, p)
            | (Some e, p) \<Rightarrow> if fe_cancelled env then (Some e, p) else single None)
      else single part)"

definition fetch_file :: "fetch_env \<Rightarrow> nat \<Rightarrow> byte list option \<times> byte list option
    \<Rightarrow> dl_error option \<times> byte list option \<times> byte list option" where
  "fetch_file env conns st =
     (case fetch_to_part env conns (fst st) of
        (Some e, part) \<Rightarrow> (Some e, part, snd st)
      | (None, part) \<Rightarrow> if fe_renames env then (None, None, part) else (Some RenameError, part, snd st))"

section \<open>Servers\<close>

text \<open>
  What RFC 9110 asks of a server of an unchanging resource: 200 carries the resource from its start,
  206 the part from an offset inside it (an offset past the end is refused), a stated size is the
  resource's, and a body of unstated size that ends without an error is complete.
\<close>

definition body_of :: "byte list \<Rightarrow> int \<Rightarrow> response \<Rightarrow> bool" where
  "body_of rest sz r \<longleftrightarrow> prefix (concat (rs_body r)) rest \<and> (rs_end r = BodyEOF \<and> sz \<le> 0 \<longrightarrow> concat (rs_body r) = rest)"

definition serves :: "byte list \<Rightarrow> (nat \<Rightarrow> response option) \<Rightarrow> bool" where
  "serves content client \<longleftrightarrow> (\<forall>off r. client off = Some r \<longrightarrow>
     (rs_status r = 200 \<longrightarrow> body_of content (rs_length r) r \<and> (rs_length r > 0 \<longrightarrow> rs_length r = int (length content))) \<and>
     (rs_status r = 206 \<longrightarrow> off < length content \<and> body_of (drop off content) (total_from_content_range (rs_range r)) r \<and>
        (total_from_content_range (rs_range r) > 0 \<longrightarrow> total_from_content_range (rs_range r) = int (length content))))"

definition serves_chunks :: "byte list \<Rightarrow> (nat \<Rightarrow> nat \<Rightarrow> response option) \<Rightarrow> bool" where
  "serves_chunks content client \<longleftrightarrow> (\<forall>pos hi r. client pos hi = Some r \<and> rs_status r = 206 \<longrightarrow>
     prefix (concat (rs_body r)) (take (hi + 1 - pos) (drop pos content)))"

lemma http_range_Inr:
  assumes "serves content client" "http_range client off = Inr (r, sz, full)"
  shows "sz > 0 \<Longrightarrow> sz = int (length content)"
    and "full \<or> off = 0 \<Longrightarrow> body_of content sz r"
    and "\<not> full \<Longrightarrow> off > 0 \<Longrightarrow> off < length content \<and> body_of (drop off content) sz r"
proof -
  obtain c: "client off = Some r" "rs_status r = 200 \<or> rs_status r = 206"
      "sz = (if rs_status r = 206 then total_from_content_range (rs_range r) else rs_length r)"
      "full = (off > 0 \<and> rs_status r = 200)"
    using assms(2) by (auto simp: http_range_def split: option.splits if_splits)
  show "sz > 0 \<Longrightarrow> sz = int (length content)" "full \<or> off = 0 \<Longrightarrow> body_of content sz r"
      "\<not> full \<Longrightarrow> off > 0 \<Longrightarrow> off < length content \<and> body_of (drop off content) sz r"
    using c assms(1) by (fastforce simp: serves_def)+
qed

section \<open>The resumable download is exact\<close>

text \<open>
  A part file: the beginning of the resource, or a file of its size that may have holes (a parallel
  fetch extends the file first). The latter is not resumed: the server refuses the empty rest and the
  file is removed.
\<close>

definition part_ok :: "byte list \<Rightarrow> byte list \<Rightarrow> bool" where
  "part_ok content f \<longleftrightarrow> prefix f content \<or> length f = length content"

text \<open>The file while it is written at \<open>w\<close>: what stands before \<open>w\<close> is the resource's, unless the file is full.\<close>

definition part_at :: "byte list \<Rightarrow> byte list \<Rightarrow> nat \<Rightarrow> bool" where
  "part_at content f w \<longleftrightarrow> w \<le> length f
     \<and> (prefix f content \<or> length f = length content \<and> (w = length content \<or> take w f = take w content))"

lemma part_at_ok: "part_at content f w \<Longrightarrow> part_ok content f"
  by (auto simp: part_at_def part_ok_def)

lemma part_at_start: "part_ok content f \<Longrightarrow> part_at content f (if b then length f else 0)"
  by (auto simp: part_at_def part_ok_def)

lemma part_at_Nil: "part_at content [] 0"
  by (simp add: part_at_def)

lemma part_at_take: "part_at content f w \<Longrightarrow> w < length content \<Longrightarrow> take w f = take w content"
  by (cases "prefix f content") (auto simp: part_at_def prefix_def)

lemma part_at_full:
  assumes "part_at content f w" "length content \<le> w" "take w f = take w content"
  shows "f = content"
proof (cases "prefix f content")
  case True
  then obtain u where u: "content = f @ u" by (auto simp: prefix_def)
  moreover from u assms(1,2) have "length f + length u \<le> w" "w \<le> length f" by (simp_all add: part_at_def)
  then have "length u = 0" by linarith
  ultimately show ?thesis by simp
next
  case False
  with assms show ?thesis by (simp add: part_at_def)
qed

lemma put_at_in: "w \<le> length f \<Longrightarrow> put_at w bs f = take w f @ bs @ drop (w + length bs) f"
  by (simp add: put_at_def)

lemma part_at_write:
  assumes f: "part_at content f w" "take w f = take w content" and bs: "prefix bs (drop w content)" "w \<le> length content"
  shows "part_at content (put_at w bs f) (w + length bs)"
    and "take (w + length bs) (put_at w bs f) = take (w + length bs) content"
    and "w + length bs \<le> length content"
proof -
  let ?n = "w + length bs"
  have w: "w \<le> length f" using f(1) by (simp add: part_at_def)
  from bs(1) obtain t where t: "drop w content = bs @ t" by (auto simp: prefix_def)
  then have "take w content @ bs = take ?n content" by (simp add: take_add)
  then have p: "put_at w bs f = take ?n content @ drop ?n f"
    using put_at_in [OF w] f(2) by simp
  have n: "?n \<le> length content" using arg_cong [OF t, of length] bs(2) by simp
  then show "?n \<le> length content" .
  show tk: "take ?n (put_at w bs f) = take ?n content" using n by (simp add: p)
  show "part_at content (put_at w bs f) ?n"
  proof (cases "prefix f content")
    case True
    then obtain u where u: "content = f @ u" by (auto simp: prefix_def)
    have "prefix (take ?n content @ drop ?n f) content"
    proof (cases "?n \<le> length f")
      case True
      with u show ?thesis by simp
    next
      case False
      then show ?thesis by (simp add: take_is_prefix)
    qed
    with n show ?thesis by (simp add: part_at_def p)
  next
    case False
    with f(1) have "length f = length content" by (simp add: part_at_def)
    with n tk show ?thesis by (simp add: part_at_def p)
  qed
qed

lemma copy_body_at:
  assumes "w \<le> length f"
  shows "copy_body ps e f w = (put_at w (concat ps) f, w + length (concat ps),
     (case e of BodyEOF \<Rightarrow> None | BodyErr \<Rightarrow> Some (ReadError, False) | BodyCancelled \<Rightarrow> Some (Cancelled, True)
      | BodyWriteErr \<Rightarrow> Some (WriteError, True)))"
  using assms
proof (induction ps arbitrary: f w)
  case Nil
  then show ?case by (cases e) (simp_all add: put_at_in)
next
  case (Cons p ps)
  have "w + length p \<le> length (put_at w p f)" using Cons.prems by (simp add: put_at_in)
  from Cons.IH [OF this] Cons.prems show ?case by (simp add: put_at_in ac_simps)
qed

text \<open>One response: what it brings belongs where it is written.\<close>

lemma body_step:
  assumes "serves content client" "http_range client w = Inr (r, sz, full)" "part_at content f w"
    and "w1 = (if full \<and> w > 0 then 0 else w)" and "f1 = (if full \<and> w > 0 then [] else f)"
  shows "part_at content f1 w1" and "take w1 f1 = take w1 content" and "w1 \<le> length content"
    and "prefix (concat (rs_body r)) (drop w1 content)"
    and "rs_end r = BodyEOF \<Longrightarrow> sz \<le> 0 \<Longrightarrow> w1 + length (concat (rs_body r)) = length content"
proof -
  note h = http_range_Inr [OF assms(1,2)]
  consider "w1 = 0" "full \<or> w = 0" "part_at content f1 0" | "\<not> full" "w > 0" "w1 = w" "f1 = f"
    using assms(3-5) part_at_Nil by (cases "w = 0"; cases full) auto
  then have "part_at content f1 w1 \<and> take w1 f1 = take w1 content \<and> w1 \<le> length content
     \<and> prefix (concat (rs_body r)) (drop w1 content)
     \<and> (rs_end r = BodyEOF \<longrightarrow> sz \<le> 0 \<longrightarrow> w1 + length (concat (rs_body r)) = length content)"
  proof cases
    case 1
    with h(2) show ?thesis by (auto simp: body_of_def)
  next
    case 2
    from h(3) [OF 2(1,2)] have b: "w < length content" "body_of (drop w content) sz r" by auto
    with 2 assms(3) part_at_take [OF assms(3) b(1)] show ?thesis by (auto simp: body_of_def)
  qed
  then show "part_at content f1 w1" and "take w1 f1 = take w1 content" and "w1 \<le> length content"
    and "prefix (concat (rs_body r)) (drop w1 content)"
    and "rs_end r = BodyEOF \<Longrightarrow> sz \<le> 0 \<Longrightarrow> w1 + length (concat (rs_body r)) = length content"
    by blast+
qed

lemma resilient_loop_exact:
  assumes "\<And>a. serves content (client a)" and "part_at content f w" and "tot > 0 \<longrightarrow> tot = int (length content)"
    and "resilient_loop stop sf (\<lambda>a. http_range (client a)) left f w tot lerr = (res, f')"
  shows "part_ok content f' \<and> (res = None \<longrightarrow> f' = content)"
  using assms(2-4)
proof (induction left arbitrary: f w tot lerr)
  case 0
  then show ?case by (auto intro: part_at_ok)
next
  case (Suc left)
  let ?a = "max_download_attempts - Suc left"
  note ok = part_at_ok [OF Suc.prems(1)]
  show ?case
  proof (cases "stop ?a")
    case True
    with Suc.prems ok show ?thesis by (auto simp: Let_def)
  next
    case ns: False
    show ?thesis
    proof (cases "http_range (client ?a) w")
      case (Inl e)
      with Suc.IH [OF Suc.prems(1,2), of "Some e"] Suc.prems(3) ns show ?thesis by (simp add: Let_def)
    next
      case (Inr x)
      obtain r sz full where x: "http_range (client ?a) w = Inr (r, sz, full)" using Inr by (cases x) auto
      show ?thesis
      proof (cases "w > 0 \<and> sf ?a")
      case True
      with Suc.prems ns x ok show ?thesis by (auto simp: Let_def)
      next
      case seek: False
      define f1 where "f1 = (if full \<and> w > 0 then [] else f)"
      define w1 where "w1 = (if full \<and> w > 0 then 0 else w)"
      define t1 where "t1 = (if sz > 0 then sz else tot)"
      define f2 where "f2 = put_at w1 (concat (rs_body r)) f1"
      define n where "n = w1 + length (concat (rs_body r))"
      note b = body_step [OF assms(1) x Suc.prems(1) w1_def f1_def]
      note wr = part_at_write [OF b(1,2,4,3), folded f2_def n_def]
      have t1: "t1 > 0 \<longrightarrow> t1 = int (length content)"
        using Suc.prems(2) http_range_Inr(1) [OF assms(1) x] by (simp add: t1_def)
      have "w1 \<le> length f1" using b(1) by (simp add: part_at_def)
      note cb = copy_body_at [OF this, of "rs_body r" "rs_end r", folded f2_def n_def]
      have run: "(res, f') = (case copy_body (rs_body r) (rs_end r) f1 w1 of (f2, n, q) \<Rightarrow>
          (case q of Some (e, fatal) \<Rightarrow> if fatal then (Some e, f2)
              else resilient_loop stop sf (\<lambda>a. http_range (client a)) left f2 n t1 (Some e)
           | None \<Rightarrow> if t1 > 0 \<and> int n < t1
               then resilient_loop stop sf (\<lambda>a. http_range (client a)) left f2 n t1 (Some Truncated) else (None, f2)))"
        using Suc.prems(3) [symmetric]
        by (simp only: resilient_loop.simps Let_def if_not_P [OF ns] if_not_P [OF seek] x sum.case prod.case w1_def [symmetric] f1_def [symmetric] t1_def [symmetric])
      note run = run [unfolded cb prod.case]
      note IH = Suc.IH [OF wr(1) t1]
      show ?thesis
      proof (cases "rs_end r")
        case BodyEOF
        have "f2 = content" if "\<not> (t1 > 0 \<and> int n < t1)"
        proof (rule part_at_full [OF wr(1) _ wr(2)])
          show "length content \<le> n"
          proof (cases "sz \<le> 0")
            case True
            with b(5) BodyEOF show ?thesis by (simp add: n_def)
          next
            case False
            with t1 that show ?thesis by (auto simp: t1_def)
          qed
        qed
        with run IH [of "Some Truncated"] BodyEOF part_at_ok [OF wr(1)] show ?thesis
          by (cases "t1 > 0 \<and> int n < t1") simp_all
      next
        case BodyErr
        with run IH [of "Some ReadError"] show ?thesis by simp
      qed (use run part_at_ok [OF wr(1)] in simp_all)
      qed
    qed
  qed
qed

lemma download_exact:
  assumes "\<And>a. serves content (client a)" and "\<And>f. old = Some f \<Longrightarrow> part_ok content f"
    and "download opens stop sf cancelled (\<lambda>a. http_range (client a)) stat old = (res, part)"
  shows "res = None \<Longrightarrow> part = Some content" and "part = Some f \<Longrightarrow> part_ok content f"
proof -
  let ?f = "case old of None \<Rightarrow> [] | Some f \<Rightarrow> f"
  obtain e f' where r: "resilient stop sf (\<lambda>a. http_range (client a)) stat ?f = (e, f')" by fastforce
  have "part_ok content ?f" using assms(2) by (auto simp: part_ok_def split: option.splits)
  from resilient_loop_exact [where client = client, OF assms(1) part_at_start [OF this, of stat], where tot = 0 and stop = stop and sf = sf and left = max_download_attempts
      and lerr = None and res = e and f' = f'] r
  have x: "part_ok content f' \<and> (e = None \<longrightarrow> f' = content)" by (simp add: resilient_def)
  show "res = None \<Longrightarrow> part = Some content" "part = Some f \<Longrightarrow> part_ok content f"
    using assms(2,3) r x by (auto simp: download_def split: option.splits if_splits)
qed

section \<open>The parallel download is exact in any order\<close>

text \<open>A write of the resource's own bytes, and the bytes some write of a list covers.\<close>

definition true_write :: "byte list \<Rightarrow> nat \<times> byte list \<Rightarrow> bool" where
  "true_write content w \<longleftrightarrow> fst w + length (snd w) \<le> length content \<and> snd w = take (length (snd w)) (drop (fst w) content)"

definition covers :: "(nat \<times> byte list) list \<Rightarrow> nat \<Rightarrow> bool" where
  "covers ws k \<longleftrightarrow> (\<exists>w\<in>set ws. fst w \<le> k \<and> k < fst w + length (snd w))"

lemma covers_append: "covers (ws @ ws') k \<longleftrightarrow> covers ws k \<or> covers ws' k"
  by (auto simp: covers_def)

lemma put_at_true:
  assumes "true_write content w" "length f = length content"
  shows "length (put_at (fst w) (snd w) f) = length content"
    and "k < length content \<Longrightarrow> put_at (fst w) (snd w) f ! k
       = (if fst w \<le> k \<and> k < fst w + length (snd w) then content ! k else f ! k)"
proof -
  obtain p bs where w: "w = (p, bs)" by fastforce
  have b: "p + length bs \<le> length content" "bs = take (length bs) (drop p content)"
    using assms(1) by (simp_all add: true_write_def w)
  show "length (put_at (fst w) (snd w) f) = length content" using b(1) assms(2) by (simp add: put_at_def w)
  assume k: "k < length content"
  have "bs ! (k - p) = content ! k" if "p \<le> k" "k < p + length bs"
  proof -
    have "bs ! (k - p) = take (length bs) (drop p content) ! (k - p)" using b(2) by simp
    also have "\<dots> = content ! k" using that b(1) by simp
    finally show ?thesis .
  qed
  then show "put_at (fst w) (snd w) f ! k
       = (if fst w \<le> k \<and> k < fst w + length (snd w) then content ! k else f ! k)"
    using k b(1) assms(2) by (auto simp: put_at_def w nth_append)
qed

lemma apply_writes_exact:
  assumes "\<forall>w\<in>set ws. true_write content w" "length f = length content"
    and "\<And>k. k < length content \<Longrightarrow> covers ws k \<or> f ! k = content ! k"
  shows "apply_writes ws f = content"
  using assms
proof (induction ws arbitrary: f)
  case Nil
  then show ?case by (auto simp: apply_writes_def covers_def intro!: nth_equalityI)
next
  case (Cons w ws)
  note p = put_at_true [of content w f]
  have "apply_writes ws (put_at (fst w) (snd w) f) = content"
  proof (rule Cons.IH)
    show "length (put_at (fst w) (snd w) f) = length content" using p Cons.prems by simp
    fix k assume "k < length content"
    then show "covers ws k \<or> put_at (fst w) (snd w) f ! k = content ! k"
      using p(2) Cons.prems by (auto simp: covers_def)
  qed (use Cons.prems in simp)
  then show ?case by (simp add: apply_writes_def case_prod_unfold)
qed

lemma copy_chunk_writes:
  "copy_chunk ps e pos written = (ws, n, err) \<Longrightarrow> prefix (concat ps) (drop (pos + written) content) \<Longrightarrow>
     pos + written \<le> length content \<Longrightarrow>
     n = written + length (concat ps) \<and> (\<forall>w\<in>set ws. true_write content w)
     \<and> (\<forall>k. pos + written \<le> k \<and> k < pos + n \<longrightarrow> covers ws k)"
proof (induction ps arbitrary: written ws n)
  case (Cons p ps)
  obtain ws' where r: "copy_chunk ps e pos (written + length p) = (ws', n, err)" "ws = (pos + written, p) # ws'"
    using Cons.prems(1) by (auto split: prod.splits)
  from Cons.prems(2) obtain t where t: "drop (pos + written) content = p @ concat ps @ t" by (auto simp: prefix_def)
  then have t': "drop (pos + written + length p) content = concat ps @ t"
    by (metis add.commute append_eq_conv_conj drop_drop)
  have le: "pos + written + length p \<le> length content"
    using arg_cong [OF t, of length] Cons.prems(3) by simp
  have IH: "n = written + length p + length (concat ps) \<and> (\<forall>w\<in>set ws'. true_write content w)
     \<and> (\<forall>k. pos + (written + length p) \<le> k \<and> k < pos + n \<longrightarrow> covers ws' k)"
    using Cons.IH [OF r(1)] t' le by (simp add: add.assoc)
  moreover have "true_write content (pos + written, p)" using le t by (simp add: true_write_def)
  moreover have "covers ws k" if "pos + written \<le> k" "k < pos + n" for k
    using IH that by (cases "k < pos + written + length p") (auto simp: covers_def r(2))
  ultimately show ?case by (simp add: r(2))
qed (auto simp: covers_def)

lemma fetch_chunk_writes:
  assumes "\<And>a. serves_chunks content (client a)" and "int hi < int (length content)"
  shows "pos \<le> Suc hi \<Longrightarrow> fetch_chunk stop client left pos hi lerr = (res, ws) \<Longrightarrow>
     (\<forall>w\<in>set ws. true_write content w) \<and>
     (res = None \<and> (left > 0 \<or> lerr \<noteq> None) \<longrightarrow> (\<forall>k. pos \<le> k \<and> k \<le> hi \<longrightarrow> covers ws k))"
proof (induction left arbitrary: pos lerr res ws)
  case (Suc left)
  let ?a = "chunk_attempts - Suc left"
  consider (halt) "stop ?a pos" | (past) "\<not> stop ?a pos" "pos > hi"
    | (err) "\<not> stop ?a pos" "pos \<le> hi" "client ?a pos hi = None"
    | (bad) r where "\<not> stop ?a pos" "pos \<le> hi" "client ?a pos hi = Some r" "rs_status r \<noteq> 206"
    | (ok) r where "\<not> stop ?a pos" "pos \<le> hi" "client ?a pos hi = Some r" "rs_status r = 206"
    by (cases "stop ?a pos"; cases "pos > hi"; cases "client ?a pos hi") auto
  then show ?case
  proof cases
    case (ok r)
    obtain ws1 n err where c: "copy_chunk (rs_body r) (rs_end r) pos 0 = (ws1, n, err)" using prod_cases3 by blast
    have pre: "prefix (concat (rs_body r)) (take (hi + 1 - pos) (drop pos content))"
      using assms(1) ok by (auto simp: serves_chunks_def)
    then have "prefix (concat (rs_body r)) (drop (pos + 0) content)"
      using prefix_order.trans [OF pre take_is_prefix] by simp
    from copy_chunk_writes [OF c this] ok(2) assms(2)
    have w: "n = length (concat (rs_body r))" "\<forall>w\<in>set ws1. true_write content w" "\<forall>k. pos \<le> k \<and> k < pos + n \<longrightarrow> covers ws1 k"
      by auto
    have n: "pos + n \<le> Suc hi" using prefix_length_le [OF pre] w(1) ok(2) by auto
    show ?thesis
    proof (cases "pos + n > hi \<or> rs_end r = BodyCancelled")
      case True
      then have "ws = ws1 \<and> (res = None \<longrightarrow> pos + n > hi)"
        using Suc.prems(2) ok c by (auto simp: Let_def split: if_splits)
      with w show ?thesis by auto
    next
      case False
      let ?e = "Some (case err of None \<Rightarrow> ShortChunk | Some e \<Rightarrow> e)"
      obtain ws2 where f: "fetch_chunk stop client left (pos + n) hi ?e = (res, ws2)" "ws = ws1 @ ws2"
        using Suc.prems(2) ok c False by (auto simp: Let_def split: prod.splits)
      note IH = Suc.IH [OF n f(1)]
      have "covers ws k" if "res = None" "pos \<le> k" "k \<le> hi" for k
        using IH w(3) that by (cases "k < pos + n") (auto simp: f(2) covers_append)
      with IH w(2) show ?thesis by (auto simp: f(2))
    qed
  next
    case err
    with Suc.IH [of pos "Some OpenError" res ws] Suc.prems show ?thesis by (simp add: Let_def)
  next
    case (bad r)
    with Suc.IH [of pos "Some (StatusError (rs_status r))" res ws] Suc.prems show ?thesis by (simp add: Let_def)
  qed (use Suc.prems in \<open>auto simp: Let_def covers_def\<close>)
qed (auto simp: covers_def)

text \<open>The chunks cut the file into consecutive ranges.\<close>

lemma chunk_of:
  assumes "0 < conns" "k < total_bytes"
  shows "\<exists>i<conns. case chunk_bounds (int total_bytes) conns i of (s, l) \<Rightarrow> 0 \<le> s \<and> s \<le> int k \<and> int k \<le> l \<and> l < int total_bytes"
proof -
  define c where "c = total_bytes div conns"
  have q: "quot (int total_bytes) (int conns) = int c" using assms(1) by (simp add: c_def zdiv_int)
  have le: "conns * c \<le> total_bytes" by (simp add: c_def)
  show ?thesis
  proof (cases "0 < c \<and> k div c < conns - 1")
    case True
    let ?i = "k div c"
    have "c * ?i \<le> k" by simp
    moreover have "k < c * ?i + c"
    proof -
      have "k mod c < c" using True by simp
      with mult_div_mod_eq [of c k] show ?thesis by linarith
    qed
    moreover have "c * (?i + 1) \<le> c * conns" using True by (intro mult_le_mono) auto
    ultimately have n: "?i * c \<le> k" "k < ?i * c + c" "?i * c + c \<le> total_bytes"
      using le by (simp_all add: mult.commute)
    have "int ?i * int c \<le> int k" "int k < int ?i * int c + int c" "int ?i * int c + int c \<le> int total_bytes"
      using n [folded of_nat_le_iff [where ?'a = int] of_nat_less_iff [where ?'a = int]] by simp_all
    with True show ?thesis
      by (intro exI [of _ ?i]) (auto simp: chunk_bounds_def q Let_def)
  next
    case False
    have "(conns - 1) * c \<le> k"
    proof (cases "c = 0")
      case False
      with \<open>\<not> (0 < c \<and> k div c < conns - 1)\<close> have "conns - 1 \<le> k div c" by simp
      with False show ?thesis by (simp add: less_eq_div_iff_mult_less_eq)
    qed simp
    then have "int ((conns - 1) * c) \<le> int k" by (simp only: of_nat_le_iff)
    then have "int (conns - 1) * int c \<le> int k" by (simp only: of_nat_mult)
    with assms show ?thesis
      by (intro exI [of _ "conns - 1"]) (auto simp: chunk_bounds_def q Let_def)
  qed
qed

lemma chunk_hi: "chunk_bounds (int n) conns i = (s, l) \<Longrightarrow> i < conns \<Longrightarrow> 0 \<le> s \<and> l < int n"
proof -
  assume b: "chunk_bounds (int n) conns i = (s, l)" and i: "i < conns"
  define c where "c = n div conns"
  have q: "quot (int n) (int conns) = int c" using i by (simp add: c_def zdiv_int)
  have "Suc i * c \<le> conns * c" using i by (intro mult_le_mono) auto
  also have "\<dots> \<le> n" by (simp add: c_def)
  finally have "int (Suc i * c) \<le> int n" by (simp only: of_nat_le_iff)
  then have "int (Suc i) * int c \<le> int n" by (simp only: of_nat_mult)
  then have le: "int i * int c + int c \<le> int n" by (simp add: algebra_simps)
  have s: "s = int i * int c" and l: "l = (if i = conns - 1 then int n - 1 else s + int c - 1)"
    using b by (auto simp: chunk_bounds_def q Let_def)
  have "0 \<le> int i * int c" by simp
  with le show ?thesis unfolding l s by auto
qed

lemma run_chunk_writes:
  assumes "\<And>i a. serves_chunks content (client i a)" and "i < conns"
    and "run_chunk stop client (int (length content)) conns i = (res, ws)"
    and "chunk_bounds (int (length content)) conns i = (s, l)"
  shows "\<forall>w\<in>set ws. true_write content w"
    and "res = None \<Longrightarrow> s \<le> int k \<Longrightarrow> int k \<le> l \<Longrightarrow> covers ws k"
proof -
  note b = chunk_hi [OF assms(4,2)]
  have *: "(\<forall>w\<in>set ws. true_write content w) \<and> (res = None \<longrightarrow> s \<le> int k \<longrightarrow> int k \<le> l \<longrightarrow> covers ws k)" for k
  proof (cases "s > l")
    case True
    with assms(3,4) show ?thesis by (auto simp: run_chunk_def)
  next
    case False
    have f: "fetch_chunk (stop i) (client i) chunk_attempts (nat s) (nat l) None = (res, ws)"
      using assms(3,4) False by (simp add: run_chunk_def)
    have "int (nat l) < int (length content)" "nat s \<le> Suc (nat l)" using b False by auto
    from fetch_chunk_writes [where client = "client i", OF assms(1) this f]
    have w: "\<forall>w\<in>set ws. true_write content w" "res = None \<Longrightarrow> nat s \<le> k \<Longrightarrow> k \<le> nat l \<Longrightarrow> covers ws k" for k
      by (auto simp: chunk_attempts_def)
    have "nat s \<le> k" "k \<le> nat l" if "s \<le> int k" "int k \<le> l" using that by auto
    with w show ?thesis by blast
  qed
  show "\<forall>w\<in>set ws. true_write content w" using * [of 0] by simp
  show "res = None \<Longrightarrow> s \<le> int k \<Longrightarrow> int k \<le> l \<Longrightarrow> covers ws k" using * [of k] by simp
qed

lemma first_error_None: "first_error es = None \<longleftrightarrow> (\<forall>e\<in>set es. e = None)"
  by (induction es) (auto simp: first_error_def split: list.splits)

lemma length_truncate_to [simp]: "length (truncate_to n f) = n"
  by (simp add: truncate_to_def)

lemma put_at_length: "true_write content w \<Longrightarrow> length f = length content \<Longrightarrow> length (put_at (fst w) (snd w) f) = length content"
  by (rule put_at_true(1))

lemma apply_writes_length:
  "\<forall>w\<in>set ws. true_write content w \<Longrightarrow> length f = length content \<Longrightarrow> length (apply_writes ws f) = length content"
  by (induction ws arbitrary: f) (auto simp: apply_writes_def case_prod_unfold put_at_length [of content "(a, b)" for a b, simplified])

lemma download_parallel_exact:
  assumes srv: "\<And>i a. serves_chunks content (client i a)" and conns: "0 < conns"
    and order: "mset order = mset (all_writes stop client (int (length content)) conns)"
    and run: "download_parallel stop client (int (length content)) conns order f = (res, f')"
  shows "res = None \<Longrightarrow> f' = content" and "length f' = length content"
proof -
  let ?r = "run_chunk stop client (int (length content)) conns"
  have set: "set order = set (all_writes stop client (int (length content)) conns)"
    using order by (metis set_mset_mset)
  have true: "\<forall>w\<in>set order. true_write content w"
  proof
    fix w assume "w \<in> set order"
    then obtain i where i: "i < conns" "w \<in> set (snd (?r i))" by (auto simp: set all_writes_def)
    obtain s l where "chunk_bounds (int (length content)) conns i = (s, l)" by fastforce
    from run_chunk_writes(1) [where client = client, OF srv i(1) prod.collapse [symmetric] this] i(2)
    show "true_write content w" by blast
  qed
  have f': "f' = apply_writes order (truncate_to (length content) f)"
    using run by (simp add: download_parallel_def)
  show "length f' = length content" unfolding f' by (rule apply_writes_length [OF true]) simp
  assume "res = None"
  then have ok: "fst (?r i) = None" if "i < conns" for i
    using run that by (auto simp: download_parallel_def first_error_None)
  show "f' = content" unfolding f'
  proof (rule apply_writes_exact [OF true])
    fix k assume "k < length content"
    from chunk_of [OF conns this] obtain i where c: "i < conns"
        "case chunk_bounds (int (length content)) conns i of (s, l) \<Rightarrow> 0 \<le> s \<and> s \<le> int k \<and> int k \<le> l \<and> l < int (length content)"
      by (elim exE conjE)
    obtain s l where b: "chunk_bounds (int (length content)) conns i = (s, l)" by fastforce
    note i = c(1) b and sl = c(2) [unfolded b prod.case]
    have "s \<le> int k" "int k \<le> l" using sl by auto
    note i = i this
    from run_chunk_writes(2) [where client = client, OF srv i(1) prod.collapse [symmetric] i(2) ok [OF i(1)] i(3,4)]
    have "covers (snd (?r i)) k" .
    then have "covers order k" using i(1) by (auto simp: covers_def set all_writes_def)
    then show "covers order k \<or> truncate_to (length content) f ! k = content ! k" ..
  qed simp
qed

section \<open>Properties\<close>

text \<open>What a run's environment promises: servers of one resource, and some order of the writes.\<close>

definition honest_env :: "byte list \<Rightarrow> nat \<Rightarrow> fetch_env \<Rightarrow> bool" where
  "honest_env content conns env \<longleftrightarrow> (\<forall>a. serves content (fe_open env a))
     \<and> (\<forall>i a. serves_chunks content (fe_client env i a))
     \<and> (snd (probe_range (fe_probe env)) \<and> fst (probe_range (fe_probe env)) > 0 \<longrightarrow>
          fst (probe_range (fe_probe env)) = int (length content))
     \<and> mset (fe_order env) = mset (all_writes (fe_stop env) (fe_client env) (int (length content)) conns)"

lemma fetch_file_exact:
  assumes "honest_env content conns env" and "\<And>f. fst st = Some f \<Longrightarrow> part_ok content f"
    and "fetch_file env conns st = (res, part, file)"
  shows "(res = None \<longrightarrow> file = Some content \<and> part = None)
    \<and> (res \<noteq> None \<longrightarrow> file = snd st \<and> (\<forall>f. part = Some f \<longrightarrow> part_ok content f))"
proof -
  obtain res0 p where fp: "fetch_to_part env conns (fst st) = (res0, p)"
      "res = None \<Longrightarrow> res0 = None \<and> part = None \<and> file = p" "res \<noteq> None \<Longrightarrow> part = p \<and> file = snd st"
    using assms(3) by (cases "fetch_to_part env conns (fst st)") (auto simp: fetch_file_def split: option.splits if_splits)
  have srv: "\<And>a. serves content (fe_open env a)" "\<And>i a. serves_chunks content (fe_client env i a)"
    using assms(1) by (auto simp: honest_env_def)
  note single = download_exact [where client = "fe_open env", OF srv(1)]
  let ?par = "download_parallel (fe_stop env) (fe_client env) (int (length content)) conns (fe_order env)
      (case fst st of None \<Rightarrow> [] | Some f \<Rightarrow> f)"
  obtain e f where pd: "?par = (e, f)" by fastforce
  have "(res0 = None \<longrightarrow> p = Some content) \<and> (\<forall>f. p = Some f \<longrightarrow> part_ok content f)"
  proof (cases "conns > 1 \<and> snd (probe_range (fe_probe env)) \<and> fst (probe_range (fe_probe env)) \<ge> min_parallel_bytes")
    case True
    then have tot: "fst (probe_range (fe_probe env)) = int (length content)"
      using assms(1) by (auto simp: honest_env_def min_parallel_bytes_def)
    have ord: "mset (fe_order env) = mset (all_writes (fe_stop env) (fe_client env) (int (length content)) conns)"
      using assms(1) by (simp add: honest_env_def)
    have "0 < conns" using True by simp
    note par = download_parallel_exact [where client = "fe_client env", OF srv(2) this ord pd]
    consider "res0 = None" "p = Some f" "e = None" | "p = Some f" "res0 \<noteq> None" | "p = fst st" "res0 \<noteq> None"
      | "download (fe_opens env) (fe_dl_stop env) (fe_seek_fails env) (fe_dl_cancelled env) (\<lambda>a. http_range (fe_open env a)) (fe_stat_ok env) None = (res0, p)"
      using fp(1) True tot pd
      by (cases e; cases "fe_par_opens env"; cases "fe_cancelled env")
        (auto simp: fetch_to_part_def Let_def case_prod_unfold)
    then show ?thesis
    proof cases
      case 4
      from single [OF _ this] show ?thesis by blast
    qed (use par assms(2) in \<open>auto simp: part_ok_def\<close>)
  next
    case False
    then have "download (fe_opens env) (fe_dl_stop env) (fe_seek_fails env) (fe_dl_cancelled env) (\<lambda>a. http_range (fe_open env a)) (fe_stat_ok env) (fst st) = (res0, p)"
      using fp(1) by (auto simp: fetch_to_part_def Let_def case_prod_unfold split: prod.splits)
    from single [OF assms(2) this] show ?thesis by blast
  qed
  with fp(2,3) show ?thesis by auto
qed

text \<open>
  Fetches of one resource, one after the other, until one reports success: whether one did, and
  the part file and the file at the path afterwards.
\<close>

fun fetch_until :: "fetch_env list \<Rightarrow> nat \<Rightarrow> byte list option \<times> byte list option \<Rightarrow> bool \<times> byte list option \<times> byte list option" where
  "fetch_until [] conns st = (False, st)"
| "fetch_until (env # envs) conns st =
     (case fetch_file env conns st of (None, st') \<Rightarrow> (True, st') | (Some e, st') \<Rightarrow> fetch_until envs conns st')"

lemma fetch_until_exact:
  assumes "\<And>env. env \<in> set envs \<Longrightarrow> honest_env content conns env" and "\<And>f. part = Some f \<Longrightarrow> part_ok content f"
    and "fetch_until envs conns (part, file) = (success, part', file')"
  shows "if success then file' = Some content \<and> part' = None else file' = file"
  using assms
proof (induction envs arbitrary: part)
  case (Cons env envs)
  obtain res p fl where f: "fetch_file env conns (part, file) = (res, p, fl)" by (rule prod_cases3)
  have e: "(res = None \<longrightarrow> fl = Some content \<and> p = None) \<and> (res \<noteq> None \<longrightarrow> fl = file \<and> (\<forall>f. p = Some f \<longrightarrow> part_ok content f))"
    using fetch_file_exact [OF Cons.prems(1) _ f] Cons.prems(2) by simp
  show ?case
  proof (cases res)
    case None
    with e f Cons.prems(3) show ?thesis by auto
  next
    case (Some err)
    with e f Cons.prems(3) have "fetch_until envs conns (p, file) = (success, part', file')" by simp
    from Cons.IH [OF _ _ this] Cons.prems(1) e Some show ?thesis by simp
  qed
qed simp

text \<open>
  C10: a file fetched over HTTP is the resource. However many fetches of it are tried, one after
  the other, whatever fails in each (bodies cut off, refused or answered in full, cancelled
  contexts, seeks, writes, renames, the size of the part file), in whatever order the writes of the parallel
  chunks land, and whatever part file an earlier try left, the first fetch that reports success
  leaves the resource at the path byte for byte and no part file, and until then the file at the
  path is untouched. The servers serve one unchanging resource as RFC 9110 asks; the first part file,
  if there is one, is a beginning of the resource or a file of its size with any bytes.
\<close>

theorem fetched_file_exact:
  assumes "\<And>env. env \<in> set envs \<Longrightarrow> honest_env content conns env" and "\<And>f. part = Some f \<Longrightarrow> part_ok content f"
    and "fetch_until envs conns (part, file) = (success, part', file')"
  shows "if success then file' = Some content \<and> part' = None else file' = file"
  using assms by (rule fetch_until_exact)

text \<open>Three bytes in two responses: the first is cut off after two, the second resumes.\<close>

definition cut_response :: response where
  "cut_response = \<lparr>rs_status = 200, rs_length = 3, rs_range = [], rs_body = [[1], [2]], rs_end = BodyErr\<rparr>"

definition rest_response :: response where
  "rest_response = \<lparr>rs_status = 206, rs_length = 1, rs_range = ''bytes 2-2/3'', rs_body = [[3]], rs_end = BodyEOF\<rparr>"

definition cut_server :: "nat \<Rightarrow> response option" where
  "cut_server off = (if off = 0 then Some cut_response else if off = 2 then Some rest_response else None)"

definition cut_env :: fetch_env where
  "cut_env = \<lparr>fe_probe = None, fe_par_opens = True, fe_opens = True, fe_renames = True,
     fe_seek_fails = (\<lambda>_. False), fe_stop = (\<lambda>_ _ _. False), fe_client = (\<lambda>_ _ _ _. None), fe_order = [], fe_cancelled = False,
     fe_dl_stop = (\<lambda>_. False), fe_open = (\<lambda>_. cut_server), fe_dl_cancelled = False, fe_stat_ok = True\<rparr>"

lemma rest_total: "total_from_content_range (rs_range rest_response) = 3"
  by (simp add: total_from_content_range_def rest_response_def has_prefix_def parse_int_def trim_space_def trim_right_def
      trim_left_def is_space_def in_range_def code_of_def all_digits_def is_digit_def dec_val_def digit_val_def)

lemma cut_env_honest: "honest_env [1, 2, 3] 1 cut_env"
proof -
  have "serves [1, 2, 3] cut_server"
    unfolding serves_def cut_server_def
    by (auto simp: rest_total body_of_def split: if_splits) (auto simp: cut_response_def rest_response_def)
  moreover have "run_chunk (\<lambda>_ _ _. False) (\<lambda>_ _ _ _. None) 3 1 0 = (fst (run_chunk (\<lambda>_ _ _. False) (\<lambda>_ _ _ _. None) 3 1 0), [])"
    by (simp add: run_chunk_def chunk_bounds_def chunk_attempts_def quot_def numeral_eq_Suc)
  ultimately show ?thesis
    by (simp add: honest_env_def cut_env_def probe_range_def serves_chunks_def all_writes_def) (metis snd_conv)
qed

lemma cut_fetch: "fetch_file cut_env 1 (None, Some [9]) = (None, None, Some [1, 2, 3])"
proof -
  have h: "http_range cut_server 0 = Inr (cut_response, 3, False)"
      "http_range cut_server (Suc (Suc 0)) = Inr (rest_response, 3, False)"
    by (simp_all add: http_range_def cut_server_def rest_total) (simp_all add: cut_response_def rest_response_def)
  have c: "copy_body (rs_body cut_response) (rs_end cut_response) [] 0 = ([1, 2], Suc (Suc 0), Some (ReadError, False))"
      "copy_body (rs_body rest_response) (rs_end rest_response) [1, 2] (Suc (Suc 0)) = ([1, 2, 3], Suc (Suc (Suc 0)), None)"
    by (simp_all add: cut_response_def rest_response_def put_at_def)
  have six: "max_download_attempts = Suc (Suc (Suc (Suc (Suc (Suc 0)))))" by (simp add: max_download_attempts_def)
  have "resilient_loop (\<lambda>_. False) (\<lambda>_. False) (\<lambda>a. http_range cut_server) max_download_attempts [] 0 0 None = (None, [1, 2, 3])"
    unfolding six by (simp add: h c Let_def)
  then show ?thesis
    by (simp add: fetch_file_def fetch_to_part_def cut_env_def probe_range_def download_def resilient_def)
qed

text \<open>The first try finds the server gone and its part file is removed, the second fetches.\<close>

definition dead_env :: fetch_env where
  "dead_env = cut_env\<lparr>fe_open := \<lambda>_ _. None\<rparr>"

lemma dead_fetch: "fetch_file dead_env 1 (Some [1], Some [9]) = (Some OpenError, None, Some [9])"
  by (simp add: fetch_file_def fetch_to_part_def dead_env_def cut_env_def probe_range_def download_def resilient_def
      http_range_def max_download_attempts_def numeral_eq_Suc Let_def)

theorem fetched_file_exact_witness:
  "fetch_until [dead_env, cut_env] 1 (Some [1], Some [9]) = (True, None, Some [1, 2, 3]) \<and>
   fetch_until [dead_env] 1 (Some [1], Some [9]) = (False, None, Some [9])"
proof -
  have r: "fetch_until [dead_env, cut_env] 1 (Some [1], Some [9]) = (True, None, Some [1, 2, 3])"
      "fetch_until [dead_env] 1 (Some [1], Some [9]) = (False, None, Some [9])"
    by (simp_all add: dead_fetch cut_fetch del: One_nat_def)
  have h: "honest_env [1, 2, 3] 1 env" if "env \<in> set [dead_env, cut_env]" for env
    using that cut_env_honest by (auto simp: dead_env_def honest_env_def serves_def cut_env_def)
  have "part_ok [1, 2, 3] f" if "Some [1] = Some f" for f using that by (auto simp: part_ok_def)
  from fetched_file_exact [OF h this r(1)] r show ?thesis by simp
qed

text \<open>
  A part file that is already complete is thrown away: the server refuses the empty rest (416), all
  attempts fail, and the file is removed.
\<close>

lemma refused_loop:
  assumes "\<And>a. stop a = False" and "\<And>a. open a n = Inl e"
  shows "resilient_loop stop sf open (Suc left) f n tot lerr = (Some e, f)"
proof (induction left arbitrary: lerr)
  case (Suc left)
  have "resilient_loop stop sf open (Suc (Suc left)) f n tot lerr = resilient_loop stop sf open (Suc left) f n tot (Some e)"
    using assms by (subst resilient_loop.simps) (simp add: Let_def del: resilient_loop.simps)
  with Suc show ?case by simp
qed (simp add: assms Let_def)

lemma finished_part_discarded:
  assumes "part = Some content" and "\<And>a. \<exists>r. fe_open env a (length content) = Some r \<and> rs_status r = 416"
    and "\<And>a. \<not> fe_dl_stop env a" and "fe_opens env" and "\<not> fe_dl_cancelled env" and "fe_stat_ok env" and "conns \<le> 1"
  shows "fetch_file env conns (part, file) = (Some (StatusError 416), None, file)"
proof -
  have "http_range (fe_open env a) (length content) = Inl (StatusError 416)" for a
    using assms(2) [of a] by (auto simp: http_range_def)
  then have "resilient_loop (fe_dl_stop env) (fe_seek_fails env) (\<lambda>a. http_range (fe_open env a)) (Suc 5) content (length content) 0 None
      = (Some (StatusError 416), content)"
    by (intro refused_loop) (use assms(3) in auto)
  then show ?thesis
    using assms by (simp add: fetch_file_def fetch_to_part_def download_def resilient_def max_download_attempts_def
        numeral_eq_Suc del: resilient_loop.simps split: prod.split)
qed

end
