(* ===== verification/Debrid.thy ===== *)
theory Debrid
  imports Ingest_Node Http_Download
begin

text \<open>
  The runners that fetch finished files over HTTP: the debrid services
  (\<open>ingest/internal/debrid/debrid.go\<close>), the file hosters (\<open>ingest/internal/hoster/hoster.go\<close>) and the
  files a TorBox account holds (\<open>ingest/internal/usenet/torbox.go\<close>). What a service answers is a
  parameter; a fetch is the one of \<open>Http_Download\<close>, with an environment for every attempt.
\<close>

section \<open>Fetching the files of a result\<close>

record link =
  lk_name :: string
  lk_size :: int
  lk_url :: string
  lk_renew :: "(nat \<Rightarrow> string option) option"

definition link_file :: "string \<Rightarrow> string \<Rightarrow> string" where
  "link_file dir nm = path_join dir (path_base nm)"

definition on_disk :: "string \<Rightarrow> int \<Rightarrow> disk \<Rightarrow> bool" where
  "on_disk p sz d \<longleftrightarrow> sz > 0 \<and> (case d p of None \<Rightarrow> False | Some bs \<Rightarrow> int (length bs) = sz)"

text \<open>\<open>FetchFileStalled\<close>: the file at the path and its part file beside it.\<close>

definition fetch_at :: "fetch_env \<Rightarrow> nat \<Rightarrow> string \<Rightarrow> disk \<Rightarrow> dl_error option \<times> disk" where
  "fetch_at env conns p d =
     (case fetch_file env conns (d (p @ ''.part''), d p) of
        (res, part, file) \<Rightarrow> (res, d(p @ ''.part'' := part, p := file)))"

definition size_at :: "disk \<Rightarrow> string \<Rightarrow> int \<Rightarrow> int" where
  "size_at d p sz = (case d p of None \<Rightarrow> sz | Some bs \<Rightarrow> int (length bs))"

definition fetch_link :: "fetch_env \<Rightarrow> nat \<Rightarrow> string \<Rightarrow> int \<Rightarrow> disk \<Rightarrow> go_error option \<times> disk" where
  "fetch_link env conns p sz d =
     (case fetch_at env conns p d of
        (Some e, d1) \<Rightarrow> (Some (OtherError ''fetch''), d1)
      | (None, d1) \<Rightarrow>
          if sz > 0 \<and> (case d1 p of None \<Rightarrow> True | Some bs \<Rightarrow> int (length bs) \<noteq> sz)
          then (Some (OtherError ''incomplete''), d1) else (None, d1))"

definition renew_attempts :: nat where
  "renew_attempts = 3"

text \<open>\<open>left\<close> renewals remain; \<open>stop\<close> says after which attempts the context is done.\<close>

fun download_with_renew :: "(nat \<Rightarrow> string \<Rightarrow> fetch_env) \<Rightarrow> (nat \<Rightarrow> bool) \<Rightarrow> nat \<Rightarrow> link \<Rightarrow> string \<Rightarrow> nat \<Rightarrow> nat \<Rightarrow> string \<Rightarrow> disk
    \<Rightarrow> go_error option \<times> disk" where
  "download_with_renew envs stop conns l p 0 attempt url d = fetch_link (envs attempt url) conns p (lk_size l) d"
| "download_with_renew envs stop conns l p (Suc left) attempt url d =
     (case fetch_link (envs attempt url) conns p (lk_size l) d of
        (None, d1) \<Rightarrow> (None, d1)
      | (Some e, d1) \<Rightarrow>
          (case lk_renew l of None \<Rightarrow> (Some e, d1)
           | Some renew \<Rightarrow>
               if stop attempt then (Some e, d1)
               else (case renew attempt of None \<Rightarrow> (Some e, d1)
                 | Some url2 \<Rightarrow>
                     if url2 = [] \<or> url2 = url then (Some e, d1)
                     else download_with_renew envs stop conns l p left (Suc attempt) url2 d1)))"

fun download_links :: "(nat \<Rightarrow> nat \<Rightarrow> string \<Rightarrow> fetch_env) \<Rightarrow> (nat \<Rightarrow> nat \<Rightarrow> bool) \<Rightarrow> nat \<Rightarrow> string \<Rightarrow> nat \<Rightarrow> link list \<Rightarrow> disk
    \<Rightarrow> (go_error + pub_file list) \<times> disk" where
  "download_links envs stop conns dir i [] d = (Inr [], d)"
| "download_links envs stop conns dir i (l # ls) d =
     (let p = link_file dir (lk_name l) in
      case (if on_disk p (lk_size l) d then (None, d)
            else download_with_renew (envs i) (stop i) conns l p renew_attempts 0 (lk_url l) d) of
        (Some e, d1) \<Rightarrow> (Inl (Wrapped ''download'' e), d1)
      | (None, d1) \<Rightarrow>
          (case download_links envs stop conns dir (Suc i) ls d1 of
             (Inl e, d2) \<Rightarrow> (Inl e, d2)
           | (Inr fs, d2) \<Rightarrow> (Inr (\<lparr>pf_name = lk_name l, pf_path = p, pf_size = size_at d1 p (lk_size l)\<rparr> # fs), d2)))"

text \<open>The loop of \<open>downloadTorBoxResult\<close>: no file is skipped, and none is tried again.\<close>

fun download_torbox :: "(nat \<Rightarrow> fetch_env) \<Rightarrow> nat \<Rightarrow> string \<Rightarrow> nat \<Rightarrow> link list \<Rightarrow> disk \<Rightarrow> (go_error + pub_file list) \<times> disk" where
  "download_torbox envs conns dir i [] d = (Inr [], d)"
| "download_torbox envs conns dir i (l # ls) d =
     (let p = link_file dir (lk_name l) in
      case fetch_at (envs i) conns p d of
        (Some e, d1) \<Rightarrow> (Inl (OtherError ''torbox download''), d1)
      | (None, d1) \<Rightarrow>
          (case download_torbox envs conns dir (Suc i) ls d1 of
             (Inl e, d2) \<Rightarrow> (Inl e, d2)
           | (Inr fs, d2) \<Rightarrow> (Inr (\<lparr>pf_name = lk_name l, pf_path = p, pf_size = size_at d1 p (lk_size l)\<rparr> # fs), d2)))"

section \<open>The debrid runner\<close>

definition links_size :: "link list \<Rightarrow> int" where
  "links_size ls = sum_list (map lk_size ls)"

definition over_plan_limit :: "link list \<Rightarrow> int \<Rightarrow> int" where
  "over_plan_limit ls mx = (if mx \<le> 0 then 0 else if links_size ls > mx then links_size ls else 0)"

definition too_large :: "int \<Rightarrow> int \<Rightarrow> failure" where
  "too_large over mx = \<lparr>fcode = ''too_large'', fmsg = ''this is '' @ show_int (quot over 1000000000) @ ''GB, over your plan limit of ''
     @ show_int (quot mx 1000000000) @ ''GB''\<rparr>"

text \<open>
  What the services answer, in the order they are asked (an error, not cached, or a name and links), and
  for the attempt with the \<open>i\<close>-th the screen's verdict, a failing \<open>MkdirAll\<close> and the fetches.
\<close>

record debrid_env =
  de_providers :: "(string \<times> (go_error + (string \<times> link list) option)) list"
  de_scratch :: string
  de_conns :: nat
  de_blocked :: "job \<Rightarrow> string list \<Rightarrow> bool"
  de_mkdir_fails :: "nat \<Rightarrow> bool"
  de_fetch :: "nat \<Rightarrow> nat \<Rightarrow> nat \<Rightarrow> string \<Rightarrow> fetch_env"
  de_stop :: "nat \<Rightarrow> nat \<Rightarrow> nat \<Rightarrow> bool"

definition on_files :: "(disk \<Rightarrow> 'a \<times> disk) \<Rightarrow> tworld \<Rightarrow> 'a \<times> tworld" where
  "on_files f w = (case f (w_disk (tw_world w)) of (r, d) \<Rightarrow> (r, w\<lparr>tw_world := tw_world w\<lparr>w_disk := d\<rparr>\<rparr>))"

definition drop_dir :: "string \<Rightarrow> tworld \<Rightarrow> tworld" where
  "drop_dir dir w = w\<lparr>tw_world := remove_all dir (tw_world w)\<rparr>"

definition debrid_attempt :: "debrid_env \<Rightarrow> pub_faults \<Rightarrow> (nat \<Rightarrow> db \<Rightarrow> db) \<Rightarrow> int \<Rightarrow> string \<Rightarrow> nat \<Rightarrow> string \<Rightarrow> link list \<Rightarrow> job \<Rightarrow> tworld
    \<Rightarrow> (bool \<times> go_error + pub_file list) \<times> job \<times> tworld" where
  "debrid_attempt e flt others now dir i nm ls j w =
     (case t_update flt others i now ((if jname j = [] \<and> nm \<noteq> [] then j\<lparr>jname := nm\<rparr> else j)\<lparr>file_size := links_size ls\<rparr>) w of
        (j1, w1) \<Rightarrow>
          if de_blocked e j1 (map lk_name ls) then (Inl (True, Fail blocked_failure), j1, w1)
          else let over = over_plan_limit ls (max_bytes j1) in
            if over > 0 then (Inl (True, Fail (too_large over (max_bytes j1))), j1, w1)
            else if de_mkdir_fails e i then (Inl (False, OtherError ''mkdir''), j1, w1)
            else (case on_files (download_links (de_fetch e i) (de_stop e i) (de_conns e) dir 0 ls) w1 of
                (Inl er, w2) \<Rightarrow> (Inl (False, er), j1, w2)
              | (Inr fs, w2) \<Rightarrow> (Inr fs, j1, w2)))"

datatype debrid_result = Missed bool "go_error option" | Final go_error | Fetched string "pub_file list"

fun debrid_loop :: "debrid_env \<Rightarrow> pub_faults \<Rightarrow> (nat \<Rightarrow> db \<Rightarrow> db) \<Rightarrow> int \<Rightarrow> string \<Rightarrow> nat
    \<Rightarrow> (string \<times> (go_error + (string \<times> link list) option)) list \<Rightarrow> bool \<Rightarrow> go_error option \<Rightarrow> job \<Rightarrow> tworld
    \<Rightarrow> debrid_result \<times> job \<times> tworld" where
  "debrid_loop e flt others now dir i [] cached er j w = (Missed cached er, j, w)"
| "debrid_loop e flt others now dir i ((pn, ans) # ps) cached er j w =
     (case ans of
        Inl err \<Rightarrow> debrid_loop e flt others now dir (Suc i) ps cached (if er = None then Some err else er) j w
      | Inr None \<Rightarrow> debrid_loop e flt others now dir (Suc i) ps cached er j w
      | Inr (Some (nm, ls)) \<Rightarrow>
          (case debrid_attempt e flt others now dir i nm ls j w of
             (Inr fs, j1, w1) \<Rightarrow> (Fetched pn fs, j1, w1)
           | (Inl (True, err), j1, w1) \<Rightarrow> (Final err, j1, w1)
           | (Inl (False, err), j1, w1) \<Rightarrow>
               debrid_loop e flt others now dir (Suc i) ps True (Some err) j1 (drop_dir dir w1)))"

text \<open>
  \<open>Run\<close>: whether the job was handled and the error with its finality, the usage to record, the job and
  the world. The scratch directory goes in every case.
\<close>

definition debrid_run :: "publisher \<Rightarrow> debrid_env \<Rightarrow> pub_faults \<Rightarrow> (nat \<Rightarrow> db \<Rightarrow> db) \<Rightarrow> int \<Rightarrow> job \<Rightarrow> tworld
    \<Rightarrow> (bool \<times> (bool \<times> go_error) option) \<times> (string \<times> string \<times> int) list \<times> job \<times> tworld" where
  "debrid_run p e flt others now j w =
     (let dir = path_join (de_scratch e) (info_hash j) in
      case debrid_loop e flt others now dir 0 (de_providers e) False None j w of
        (Missed cached er, j1, w1) \<Rightarrow> ((cached, map_option (Pair False) er), [], j1, drop_dir dir w1)
      | (Final er, j1, w1) \<Rightarrow> ((True, Some (True, er)), [], j1, drop_dir dir w1)
      | (Fetched pn fs, j1, w1) \<Rightarrow>
          let use = [(user_id j1, pn, sum_list (map pf_size fs))] in
          (case publish p flt others (length (de_providers e)) now j1 fs (tw_world w1) of
             (Inl er, j2, w2) \<Rightarrow>
               ((True, Some (case as_failure er of Some f \<Rightarrow> fcode f = ''wrong_content'' | None \<Rightarrow> False, er)), use, j2,
                drop_dir dir (w1\<lparr>tw_world := w2\<rparr>))
           | (Inr _, j2, w2) \<Rightarrow> ((True, None), use, j2, drop_dir dir (w1\<lparr>tw_world := w2\<rparr>))))"

section \<open>The hoster runner\<close>

text \<open>
  The key of the account, what the unlocked link is (a name, an address and a size), the screen's
  verdict, and the fetch.
\<close>

record hoster_env =
  ho_key :: string
  ho_unlock :: "(string \<times> string \<times> int) option"
  ho_blocked :: "job \<Rightarrow> string \<Rightarrow> bool"
  ho_scratch :: string
  ho_conns :: nat
  ho_mkdir_fails :: bool
  ho_fetch :: "string \<Rightarrow> fetch_env"

definition hoster_process :: "publisher \<Rightarrow> hoster_env \<Rightarrow> pub_faults \<Rightarrow> (nat \<Rightarrow> db \<Rightarrow> db) \<Rightarrow> int \<Rightarrow> job \<Rightarrow> tworld
    \<Rightarrow> string option \<times> job \<times> tworld" where
  "hoster_process p e flt others now j w =
     (if ho_key e = [] then (Some ''no AllDebrid key configured'', j, w)
      else case ho_unlock e of None \<Rightarrow> (Some ''unlock'', j, w)
      | Some (nm, addr, sz) \<Rightarrow>
        if \<not> is_video nm then (Some ''unsupported file type (video only)'', j, w)
        else if ho_blocked e j nm then (Some ''content blocked by safety policy'', j, w)
        else if max_bytes j > 0 \<and> sz > max_bytes j
        then (Some (''file too large ('' @ show_int (quot sz 1000000) @ ''MB, max '' @ show_int (quot (max_bytes j) 1000000) @ ''MB)''), j, w)
        else case t_update flt others 0 now ((if jname j = [] \<or> jname j = magnet j then j\<lparr>jname := nm\<rparr> else j)\<lparr>file_size := sz\<rparr>) w of
          (j1, w1) \<Rightarrow>
            if ho_mkdir_fails e then (Some ''mkdir'', j1, w1)
            else let dir = path_join (ho_scratch e) (info_hash j1); f = link_file dir nm in
              (case on_files (\<lambda>d. if on_disk f sz d then (None, d) else fetch_at (ho_fetch e addr) (ho_conns e) f d) w1 of
                 (Some er, w2) \<Rightarrow> (Some ''download'', j1, drop_dir dir w2)
               | (None, w2) \<Rightarrow>
                   (case publish p flt others 1 now j1 [\<lparr>pf_name = path_base nm, pf_path = f, pf_size = size_at (w_disk (tw_world w2)) f sz\<rparr>]
                          (tw_world w2) of
                      (Inl er, j2, w3) \<Rightarrow> (Some ''publish'', j2, drop_dir dir (w2\<lparr>tw_world := w3\<rparr>))
                    | (Inr _, j2, w3) \<Rightarrow>
                        (None, j2, drop_dir dir (emit (RunEvent (JobComplete (jid j2) (info_hash j2) (node j2))) (w2\<lparr>tw_world := w3\<rparr>))))))"

definition hoster_run :: "publisher \<Rightarrow> hoster_env \<Rightarrow> pub_faults \<Rightarrow> (nat \<Rightarrow> db \<Rightarrow> db) \<Rightarrow> int \<Rightarrow> job \<Rightarrow> tworld \<Rightarrow> tworld" where
  "hoster_run p e flt others now j w =
     (case hoster_process p e flt others now j w of
        (None, _, w1) \<Rightarrow> w1
      | (Some er, j1, w1) \<Rightarrow> snd (t_fail flt others 10 now j1 er w1))"

section \<open>The files are the links' contents\<close>

text \<open>What a fetch needs and keeps: a part file that can be resumed, and a file that is absent or right.\<close>

definition part_slot :: "byte list \<Rightarrow> string \<Rightarrow> disk \<Rightarrow> bool" where
  "part_slot content p d \<longleftrightarrow> (\<forall>f. d (p @ ''.part'') = Some f \<longrightarrow> part_ok content f)"

definition slot_ok :: "byte list \<Rightarrow> string \<Rightarrow> disk \<Rightarrow> bool" where
  "slot_ok content p d \<longleftrightarrow> (d p = None \<or> d p = Some content) \<and> part_slot content p d"

definition same_but :: "string \<Rightarrow> disk \<Rightarrow> disk \<Rightarrow> bool" where
  "same_but p d d' \<longleftrightarrow> (\<forall>q. q \<noteq> p \<and> q \<noteq> p @ ''.part'' \<longrightarrow> d' q = d q)"

text \<open>The outcome of fetching one file, successful or not.\<close>

definition fetched_right :: "byte list \<Rightarrow> string \<Rightarrow> 'e option \<Rightarrow> disk \<Rightarrow> disk \<Rightarrow> bool" where
  "fetched_right content p res d d' \<longleftrightarrow> part_slot content p d' \<and> same_but p d d' \<and> (d' p = d p \<or> d' p = Some content)
     \<and> (res = None \<longrightarrow> d' p = Some content \<and> d' (p @ ''.part'') = None)"

lemma fetch_at_exact:
  assumes "honest_env content conns env" and "part_slot content p d" and "fetch_at env conns p d = (res, d1)"
  shows "fetched_right content p res d d1"
proof -
  obtain part fl where f: "fetch_file env conns (d (p @ ''.part''), d p) = (res, part, fl)"
    and d1: "d1 = d(p @ ''.part'' := part, p := fl)"
    using assms(3) by (cases "fetch_file env conns (d (p @ ''.part''), d p)") (auto simp: fetch_at_def)
  have "\<And>f. fst (d (p @ ''.part''), d p) = Some f \<Longrightarrow> part_ok content f" using assms(2) by (simp add: part_slot_def)
  from fetch_file_exact [OF assms(1) this f] show ?thesis
    by (cases res) (auto simp: d1 fetched_right_def part_slot_def same_but_def)
qed

lemma fetch_link_exact:
  assumes "honest_env content conns env" and "part_slot content p d" and "fetch_link env conns p sz d = (res, d1)"
  shows "fetched_right content p res d d1"
proof -
  obtain r d2 where f: "fetch_at env conns p d = (r, d2)" by fastforce
  have "d2 = d1 \<and> (res = None \<longrightarrow> r = None)"
    using assms(3) f by (cases r) (auto simp: fetch_link_def split: if_splits)
  with fetch_at_exact [OF assms(1,2) f] show ?thesis by (auto simp: fetched_right_def)
qed

lemma download_with_renew_exact:
  assumes "\<And>a u. honest_env content conns (envs a u)" and "part_slot content p d"
    and "download_with_renew envs stop conns l p left a url d = (res, d1)"
  shows "fetched_right content p res d d1"
  using assms(2,3)
proof (induction left arbitrary: a url d)
  case 0
  then show ?case using fetch_link_exact [OF assms(1)] by simp
next
  case (Suc n)
  obtain r d2 where f: "fetch_link (envs a url) conns p (lk_size l) d = (r, d2)" by fastforce
  note one = fetch_link_exact [OF assms(1) Suc.prems(1) f]
  have "res = r \<and> d1 = d2 \<or> (\<exists>u. download_with_renew envs stop conns l p n (Suc a) u d2 = (res, d1))"
  proof (cases "r = None \<or> lk_renew l = None \<or> stop a")
    case True
    with Suc.prems(2) f show ?thesis by (auto split: option.splits)
  next
    case False
    then obtain er rn where "r = Some er" "lk_renew l = Some rn" "\<not> stop a" by auto
    with Suc.prems(2) f show ?thesis by (cases "rn a") (auto split: if_splits)
  qed
  then consider "res = r" "d1 = d2" | u where "download_with_renew envs stop conns l p n (Suc a) u d2 = (res, d1)" by blast
  then show ?case
  proof cases
    case 2
    have "part_slot content p d2" using one by (simp add: fetched_right_def)
    from Suc.IH [OF this 2] one show ?thesis unfolding fetched_right_def same_but_def by metis
  qed (use one in blast)
qed

text \<open>Files of different paths, none of which is another's part file.\<close>

definition apart_paths :: "string list \<Rightarrow> bool" where
  "apart_paths ps \<longleftrightarrow> distinct ps \<and> (\<forall>p\<in>set ps. \<forall>q\<in>set ps. p \<noteq> q @ ''.part'')"

lemma slot_ok_other: "same_but p d d' \<Longrightarrow> q \<noteq> p \<Longrightarrow> q \<noteq> p @ ''.part'' \<Longrightarrow> p \<noteq> q @ ''.part'' \<Longrightarrow> slot_ok c q d \<Longrightarrow> slot_ok c q d'"
  by (auto simp: same_but_def slot_ok_def part_slot_def)

definition holds_content :: "disk \<Rightarrow> link \<Rightarrow> byte list \<Rightarrow> pub_file \<Rightarrow> bool" where
  "holds_content d l c f \<longleftrightarrow> pf_name f = lk_name l \<and> d (pf_path f) = Some c \<and> pf_size f = int (length c)"

lemma download_links_exact:
  assumes "\<And>k a u. k < length ls \<Longrightarrow> honest_env (cs (i + k)) conns (envs (i + k) a u)"
    and "\<And>k. k < length ls \<Longrightarrow> slot_ok (cs (i + k)) (link_file dir (lk_name (ls ! k))) d"
    and "apart_paths (map (\<lambda>l. link_file dir (lk_name l)) ls)"
    and "download_links envs stop conns dir i ls d = (Inr fs, d')"
  shows "length fs = length ls \<and> (\<forall>k<length ls. holds_content d' (ls ! k) (cs (i + k)) (fs ! k))
    \<and> (\<forall>q. (\<forall>l\<in>set ls. q \<noteq> link_file dir (lk_name l) \<and> q \<noteq> link_file dir (lk_name l) @ ''.part'') \<longrightarrow> d' q = d q)"
  using assms
proof (induction ls arbitrary: i d fs)
  case Nil
  then show ?case by simp
next
  case (Cons l ls)
  let ?p = "link_file dir (lk_name l)"
  obtain r d1 where r: "(if on_disk ?p (lk_size l) d then (None, d)
      else download_with_renew (envs i) (stop i) conns l ?p renew_attempts 0 (lk_url l) d) = (r, d1)" by fastforce
  have h: "honest_env (cs i) conns (envs i a u)" for a u using Cons.prems(1) [of 0] by simp
  have sl: "slot_ok (cs i) ?p d" using Cons.prems(2) [of 0] by simp
  have "r = None" using Cons.prems(4) r by (cases r) (auto simp: Let_def)
  have one: "slot_ok (cs i) ?p d1 \<and> d1 ?p = Some (cs i) \<and> same_but ?p d d1"
  proof (cases "on_disk ?p (lk_size l) d")
    case True
    then show ?thesis using r sl by (auto simp: on_disk_def slot_ok_def same_but_def split: option.splits)
  next
    case False
    have "part_slot (cs i) ?p d" using sl by (simp add: slot_ok_def)
    with False r \<open>r = None\<close> download_with_renew_exact [OF h this] show ?thesis by (auto simp: fetched_right_def slot_ok_def)
  qed
  obtain gs where gs: "download_links envs stop conns dir (Suc i) ls d1 = (Inr gs, d')"
    and fs: "fs = \<lparr>pf_name = lk_name l, pf_path = ?p, pf_size = size_at d1 ?p (lk_size l)\<rparr> # gs"
    using Cons.prems(4) r \<open>r = None\<close> by (auto simp: Let_def split: sum.splits prod.splits)
  have ap: "apart_paths (map (\<lambda>l. link_file dir (lk_name l)) ls)" using Cons.prems(3) by (auto simp: apart_paths_def)
  have far: "link_file dir (lk_name x) \<noteq> ?p \<and> link_file dir (lk_name x) \<noteq> ?p @ ''.part'' \<and> ?p \<noteq> link_file dir (lk_name x) @ ''.part''"
    if "x \<in> set ls" for x
    using Cons.prems(3) that unfolding apart_paths_def by (auto dest: sym)
  have IH: "length gs = length ls \<and> (\<forall>k<length ls. holds_content d' (ls ! k) (cs (Suc i + k)) (gs ! k))
    \<and> (\<forall>q. (\<forall>l\<in>set ls. q \<noteq> link_file dir (lk_name l) \<and> q \<noteq> link_file dir (lk_name l) @ ''.part'') \<longrightarrow> d' q = d1 q)"
  proof (rule Cons.IH [OF _ _ ap gs])
    show "honest_env (cs (Suc i + k)) conns (envs (Suc i + k) a u)" if "k < length ls" for k a u
      using Cons.prems(1) [of "Suc k" a u] that by simp
    show "slot_ok (cs (Suc i + k)) (link_file dir (lk_name (ls ! k))) d1" if "k < length ls" for k
      using slot_ok_other [of ?p d d1 "link_file dir (lk_name (ls ! k))"] far [OF nth_mem [OF that]] one Cons.prems(2) [of "Suc k"] that
      by simp
  qed
  have "d' ?p = Some (cs i)" using IH far one by (metis (no_types, lifting))
  then have head: "holds_content d' l (cs i) (hd fs)" using one by (simp add: holds_content_def fs size_at_def)
  have "holds_content d' ((l # ls) ! k) (cs (i + k)) (fs ! k)" if "k < length (l # ls)" for k
    using head IH that by (cases k) (simp_all add: fs)
  then show ?case using IH one by (auto simp: fs same_but_def)
qed

section \<open>Properties\<close>

text \<open>
  C11: what a debrid service offers is what is published: when its links have different base names (the last elements of their paths, which is what they are stored under), each
  address of a link, renewed ones included, serves the link's content, and the scratch directory holds
  nothing wrong, a download that succeeds hands on one file per link, in order, under the link's name,
  whose bytes and size are exactly the link's; a file left by an interrupted run is used or completed.
\<close>

theorem fetched_links_exact:
  assumes "\<And>k a u. k < length ls \<Longrightarrow> honest_env (cs k) conns (envs k a u)"
    and "\<And>k. k < length ls \<Longrightarrow> slot_ok (cs k) (link_file dir (lk_name (ls ! k))) d"
    and "apart_paths (map (\<lambda>l. link_file dir (lk_name l)) ls)"
    and "download_links envs stop conns dir 0 ls d = (Inr fs, d')"
  shows "length fs = length ls \<and> (\<forall>k<length ls. holds_content d' (ls ! k) (cs k) (fs ! k))"
  using download_links_exact [of ls cs 0 conns envs dir d stop fs d'] assms by simp

lemma fetch_file_any: "fetch_file env conns (part, f) = (None, None, y) \<Longrightarrow> fetch_file env conns (part, g) = (None, None, y)"
  by (auto simp: fetch_file_def split: option.splits if_splits prod.splits)

definition cd_link :: "string \<Rightarrow> link" where
  "cd_link nm = \<lparr>lk_name = nm, lk_size = 3, lk_url = ''https'', lk_renew = None\<rparr>"

lemma cd_link_simps [simp]: "lk_name (cd_link nm) = nm" "lk_size (cd_link nm) = 3" "lk_url (cd_link nm) = ''https''" "lk_renew (cd_link nm) = None"
  by (simp_all add: cd_link_def)

lemma cut_download:
  "p \<noteq> p @ ''.part'' \<Longrightarrow> download_with_renew (\<lambda>_ _. cut_env) stop 1 (cd_link nm) p n a u (\<lambda>_. None)
    = (None, (\<lambda>_. None)(p @ ''.part'' := None, p := Some [1, 2, 3]))"
proof -
  obtain y where y: "fetch_file cut_env 1 (None, Some [9]) = (None, None, y)" "y = Some [1, 2, 3]"
    using cut_fetch by blast
  have "fetch_link cut_env 1 p 3 (\<lambda>_. None) = (None, (\<lambda>_. None)(p @ ''.part'' := None, p := Some [1, 2, 3]))"
    using fetch_file_any [OF y(1), of None] y(2) by (simp add: fetch_link_def fetch_at_def)
  then show ?thesis by (cases n) simp_all
qed

lemma cd_paths: "link_file ''/s'' ''CD1/a.avi'' = ''/s/a.avi''" "link_file ''/s'' ''CD2/a.avi'' = ''/s/a.avi''"
  by code_simp+

theorem fetched_links_exact_witness:
  "\<exists>d' f. download_links (\<lambda>_ _ _. cut_env) (\<lambda>_ _. False) 1 ''/s'' 0 [cd_link ''CD1/a.avi''] (\<lambda>_. None) = (Inr [f], d')
     \<and> pf_name f = ''CD1/a.avi'' \<and> d' (pf_path f) = Some [1, 2, 3] \<and> pf_size f = 3"
proof -
  let ?l = "cd_link ''CD1/a.avi''"
  have ex: "\<exists>f d'. download_links (\<lambda>_ _ _. cut_env) (\<lambda>_ _. False) 1 ''/s'' 0 [?l] (\<lambda>_. None) = (Inr [f], d')"
    using cut_download [of "''/s/a.avi''" "\<lambda>_. False" "''CD1/a.avi''"]
    by (simp add: Let_def cd_paths on_disk_def)
  then obtain f d' where d: "download_links (\<lambda>_ _ _. cut_env) (\<lambda>_ _. False) 1 ''/s'' 0 [?l] (\<lambda>_. None) = (Inr [f], d')" by blast
  have "honest_env [1, 2, 3] 1 cut_env" by (rule cut_env_honest)
  from fetched_links_exact [of "[?l]" "\<lambda>_. [1, 2, 3]" 1 "\<lambda>_ _ _. cut_env" "''/s''" "\<lambda>_. None" "\<lambda>_ _. False" "[f]" d', OF this _ _ d]
  show ?thesis using d by (simp add: slot_ok_def part_slot_def apart_paths_def holds_content_def)
qed

text \<open>Publishing a video that is not there.\<close>

lemma missing_file_skipped:
  assumes "w_disk w (pf_path f) = None" and "is_video (pf_name f)" and "p_probe p None = None"
  shows "if p_verify p then fst (publish_files p flt now s j i [f] a w) = Inr a
    else \<exists>e. fst (publish_files p flt now s j i [f] a w) = Inl e"
  using assms by (simp add: probe_file_def media_playable_def store_file_def content_key_of_def)

text \<open>
  Two files whose names differ in the directory only (the discs of a set) share a path below the
  scratch directory. Both are handed to the publisher under that one path, which holds the first's
  content when their sizes agree and the second's otherwise, so that one name gets the other's bytes;
  the publisher removes the file once it is stored and then, verifying videos, drops the second from
  the release, or, not verifying, fails.
\<close>

theorem same_base_name_loses_file:
  assumes "\<And>a u. honest_env c1 conns (envs 0 a u)" and "\<And>a u. honest_env c2 conns (envs 1 a u)"
    and "d (link_file dir (lk_name l1)) = None" and "d (link_file dir (lk_name l1) @ ''.part'') = None"
    and "link_file dir (lk_name l2) = link_file dir (lk_name l1)"
    and "download_links envs stop conns dir 0 [l1, l2] d = (Inr fs, d')"
  shows "\<exists>f1 f2. fs = [f1, f2] \<and> pf_path f1 = pf_path f2 \<and> pf_size f1 = int (length c1)
    \<and> d' (pf_path f1) = Some (if lk_size l2 > 0 \<and> lk_size l2 = int (length c1) then c1 else c2)
    \<and> (\<forall>p flt now s j i a w. w_disk w (pf_path f1) = None \<longrightarrow> is_video (lk_name l2) \<longrightarrow> p_probe p None = None \<longrightarrow>
        (if p_verify p then fst (publish_files p flt now s j i [f2] a w) = Inr a
         else \<exists>e. fst (publish_files p flt now s j i [f2] a w) = Inl e))"
proof -
  let ?p = "link_file dir (lk_name l1)"
  have ps: "part_slot c1 ?p d" using assms(4) by (simp add: part_slot_def)
  obtain r d1 where r: "download_with_renew (envs 0) (stop 0) conns l1 ?p renew_attempts 0 (lk_url l1) d = (r, d1)" by fastforce
  have no: "\<not> on_disk ?p (lk_size l1) d" using assms(3) by (simp add: on_disk_def)
  have rN: "r = None" using assms(6) r no by (cases r) (auto simp: Let_def)
  with download_with_renew_exact [OF assms(1) ps r] have d1: "d1 ?p = Some c1" "d1 (?p @ ''.part'') = None"
    by (simp_all add: fetched_right_def)
  have ps2: "part_slot c2 ?p d1" using d1(2) by (simp add: part_slot_def)
  obtain r2 d2 where r2: "(if on_disk ?p (lk_size l2) d1 then (None, d1)
      else download_with_renew (envs (Suc 0)) (stop (Suc 0)) conns l2 ?p renew_attempts 0 (lk_url l2) d1) = (r2, d2)" by fastforce
  have "r2 = None" using assms(5,6) r no rN r2 by (cases r2) (auto simp: Let_def)
  then have d2: "d2 ?p = Some (if lk_size l2 > 0 \<and> lk_size l2 = int (length c1) then c1 else c2)"
    using r2 d1(1) download_with_renew_exact [OF assms(2) [unfolded One_nat_def] ps2] by (auto simp: on_disk_def fetched_right_def split: if_splits)
  have "fs = [\<lparr>pf_name = lk_name l1, pf_path = ?p, pf_size = size_at d1 ?p (lk_size l1)\<rparr>,
      \<lparr>pf_name = lk_name l2, pf_path = ?p, pf_size = size_at d2 ?p (lk_size l2)\<rparr>]" "d' = d2"
    using assms(5,6) r no rN r2 \<open>r2 = None\<close> by (auto simp: Let_def)
  then show ?thesis using d1 d2 missing_file_skipped by (auto simp: size_at_def simp del: publish_files.simps)
qed

theorem same_base_name_loses_file_witness:
  "\<exists>f1 f2 d1. download_links (\<lambda>_ _ _. cut_env) (\<lambda>_ _. False) 1 ''/s'' 0 [cd_link ''CD1/a.avi'', cd_link ''CD2/a.avi''] (\<lambda>_. None)
      = (Inr [f1, f2], d1) \<and> pf_path f1 = pf_path f2 \<and> d1 (pf_path f2) = Some [1, 2, 3]"
proof -
  obtain fs d1 where d: "download_links (\<lambda>_ _ _. cut_env) (\<lambda>_ _. False) 1 ''/s'' 0 [cd_link ''CD1/a.avi'', cd_link ''CD2/a.avi''] (\<lambda>_. None)
      = (Inr fs, d1)"
    using cut_download [of "''/s/a.avi''" "\<lambda>_. False" "''CD1/a.avi''"]
    by (simp add: Let_def cd_paths on_disk_def)
  from same_base_name_loses_file [of "[1, 2, 3]" 1 "\<lambda>_ _ _. cut_env" "[1, 2, 3]", OF cut_env_honest cut_env_honest _ _ _ d]
  show ?thesis using d by (auto simp: cd_paths)
qed

text \<open>What failing a job writes: every row with its id has failed, and no row comes or goes.\<close>

lemma update_job_ids: "map jid (jobs_t (snd (update_job flt k now d j))) = map jid (jobs_t d)"
  using update_job_snd [of flt k now d j] by (auto simp: upd_where_def)

definition all_failed :: "string \<Rightarrow> db \<Rightarrow> bool" where
  "all_failed i d \<longleftrightarrow> (\<forall>r\<in>set (jobs_t d). jid r = i \<longrightarrow> status r = StatusFailed)"

lemma update_failed:
  assumes "status j = StatusFailed"
  shows "all_failed i d \<Longrightarrow> all_failed i (snd (update_job flt k now d j))"
    and "flt k = None \<Longrightarrow> all_failed (jid j) (snd (update_job flt k now d j))"
proof -
  have s: "status (updated_row now j x) = StatusFailed" for x using assms by (simp add: updated_row_def)
  with update_job_snd [of flt k now d j] show "all_failed i d \<Longrightarrow> all_failed i (snd (update_job flt k now d j))"
    by (auto simp: all_failed_def upd_where_def)
  have "\<not> live_conflict (jobs_t d) j"
    using assms by (simp add: live_conflict_def same_live_key_def has_live_user_identity_def list_ex_iff)
  then show "flt k = None \<Longrightarrow> all_failed (jid j) (snd (update_job flt k now d j))"
    using s by (auto simp: update_job_def in_tx_def run_def all_failed_def upd_where_def list_ex_iff)
qed

lemma fail_loop_failed:
  "all_failed i d \<Longrightarrow> all_failed i (fail_loop flt (\<lambda>_ d. d) k now j msg rs d)
     \<and> map jid (jobs_t (fail_loop flt (\<lambda>_ d. d) k now j msg rs d)) = map jid (jobs_t d)"
  by (induction rs arbitrary: d k) (simp_all add: update_failed(1) update_job_ids)

lemma fail_job_all_failed:
  assumes "flt k = None"
  shows "all_failed (jid j) (snd (fail_job flt (\<lambda>_ d. d) k now j err d))
    \<and> map jid (jobs_t (snd (fail_job flt (\<lambda>_ d. d) k now j err d))) = map jid (jobs_t d)"
proof -
  let ?j = "j\<lparr>status := StatusFailed, jerror := failure_message err\<rparr>"
  have "all_failed (jid j) (snd (update_job flt k now d ?j))" using update_failed(2) [of ?j flt k now d] assms by simp
  with fail_loop_failed show ?thesis
    by (auto simp: fail_job_def fail_active_siblings_def Let_def update_job_ids split: sum.split)
qed

section \<open>The plan's limit\<close>

definition debrid_service :: "publisher \<Rightarrow> debrid_env \<Rightarrow> pub_faults \<Rightarrow> (nat \<Rightarrow> db \<Rightarrow> db) \<Rightarrow> int \<Rightarrow> job \<Rightarrow> tworld
    \<Rightarrow> bool \<times> (bool \<times> go_error) option \<times> job \<times> tworld" where
  "debrid_service p e flt others now j w =
     (case debrid_run p e flt others now j w of ((handled, er), use, j1, w1) \<Rightarrow> (handled, er, j1, w1))"

abbreviation job_rows :: "tworld \<Rightarrow> job list" where
  "job_rows w \<equiv> jobs_t (cdb (w_cache (tw_world w)))"

lemma t_update_frame:
  assumes "t_update flt others k now j w = (j1, w1)"
  shows "j1 = j\<lparr>updated_at := now\<rparr>" "tw_calls w1 = tw_calls w" "tw_events w1 = tw_events w" "tw_inflight w1 = tw_inflight w"
    "w_disk (tw_world w1) = w_disk (tw_world w)" "others = (\<lambda>_ d. d) \<Longrightarrow> map jid (job_rows w1) = map jid (job_rows w)"
  using assms by (auto simp: t_update_def write_job_def update_job_ids on_db_def case_prod_unfold)

lemma run_fail_frame:
  "tw_calls (run_fail flt others k now j e w) = tw_calls w"
  "tw_events (run_fail flt others k now j e w) = tw_events w @ [RunEvent (JobFailed (jid j) (failure_message (Some e)))]"
  "w_disk (tw_world (run_fail flt others k now j e w)) = w_disk (tw_world w)"
  "f_db flt k = None \<Longrightarrow> all_failed (jid j) (cdb (w_cache (tw_world (run_fail flt (\<lambda>_ d. d) k now j e w))))
     \<and> map jid (job_rows (run_fail flt (\<lambda>_ d. d) k now j e w)) = map jid (job_rows w)"
  using fail_job_all_failed [of "f_db flt" k j now "Some e" "cdb (w_cache (tw_world w))"]
  by (simp_all add: run_fail_def emit_def case_prod_unfold on_db_def) (simp add: fail_job_def Let_def)

lemma remove_all_cong: "w_disk v = w_disk w \<Longrightarrow> w_disk (remove_all p v) = w_disk (remove_all p w)"
  by (auto simp: remove_all_def)

text \<open>Services that fail or do not have the release are passed over.\<close>

definition no_release :: "string \<times> (go_error + (string \<times> link list) option) \<Rightarrow> bool" where
  "no_release x \<longleftrightarrow> (case snd x of Inl e \<Rightarrow> True | Inr r \<Rightarrow> r = None)"

lemma debrid_loop_skip:
  assumes "\<forall>x\<in>set qs. no_release x"
  shows "\<exists>er'. debrid_loop e flt others now dir i (qs @ ps) cached er j w = debrid_loop e flt others now dir (i + length qs) ps cached er' j w"
  using assms
proof (induction qs arbitrary: i er)
  case Nil
  then show ?case by auto
next
  case (Cons x qs)
  obtain pn ans where x: "x = (pn, ans)" by (cases x)
  have "\<exists>er2. debrid_loop e flt others now dir i ((x # qs) @ ps) cached er j w = debrid_loop e flt others now dir (Suc i) (qs @ ps) cached er2 j w"
    using Cons.prems x by (cases ans) (auto simp: no_release_def)
  with Cons.IH [of "Suc i"] Cons.prems show ?case by (metis add_Suc_shift length_Cons list.set_intros(2))
qed

lemma over_limit_final:
  assumes "de_providers e = qs @ (pn, Inr (Some (nm, ls))) # ps" and "\<forall>x\<in>set qs. no_release x"
    and "0 < max_bytes j" and "max_bytes j < links_size ls"
  shows "\<exists>er j1 w1. debrid_service p e flt others now j w = (True, Some (True, er), j1, w1) \<and> jid j1 = jid j
    \<and> source j1 = source j \<and> tw_calls w1 = tw_calls w \<and> tw_events w1 = tw_events w
    \<and> w_disk (tw_world w1) = w_disk (remove_all (path_join (de_scratch e) (info_hash j)) (tw_world w))
    \<and> (others = (\<lambda>_ d. d) \<longrightarrow> map jid (job_rows w1) = map jid (job_rows w))"
proof -
  have over: "over_plan_limit ls (max_bytes j) = links_size ls" "0 < links_size ls" using assms(3,4) by (auto simp: over_plan_limit_def)
  let ?dir = "path_join (de_scratch e) (info_hash j)"
  define j0 where "j0 = (if jname j = [] \<and> nm \<noteq> [] then j\<lparr>jname := nm\<rparr> else j)\<lparr>file_size := links_size ls\<rparr>"
  have j0: "jid j0 = jid j" "source j0 = source j" "max_bytes j0 = max_bytes j" by (simp_all add: j0_def)
  obtain j1 w1 where u: "t_update flt others (length qs) now j0 w = (j1, w1)" by fastforce
  note f = t_update_frame [OF u]
  have m: "max_bytes j1 = max_bytes j" using f(1) j0 by simp
  have "\<exists>er. debrid_attempt e flt others now ?dir (length qs) nm ls j w = (Inl (True, er), j1, w1)"
    unfolding debrid_attempt_def j0_def [symmetric] u prod.case m over Let_def using over(2) by simp
  then obtain er where a: "debrid_attempt e flt others now ?dir (length qs) nm ls j w = (Inl (True, er), j1, w1)" by blast
  obtain er' where "debrid_loop e flt others now ?dir 0 (de_providers e) False None j w
      = debrid_loop e flt others now ?dir (length qs) ((pn, Inr (Some (nm, ls))) # ps) False er' j w"
    using debrid_loop_skip [OF assms(2), of e flt others now ?dir 0 "(pn, Inr (Some (nm, ls))) # ps" False None j w] assms(1) by auto
  then have "debrid_loop e flt others now ?dir 0 (de_providers e) False None j w = (Final er, j1, w1)" by (simp add: a)
  then have "debrid_service p e flt others now j w = (True, Some (True, er), j1, drop_dir ?dir w1)"
    by (simp add: debrid_service_def debrid_run_def)
  with f j0 show ?thesis by (auto simp: drop_dir_def remove_all_def)
qed

text \<open>
  C25: a release that a debrid service shows to be over the plan's limit is refused there and then,
  whichever service is the first to have it (those asked before fail or do not have it): the job fails,
  with one event, nothing of it is fetched (the disk is as it was, but for the scratch directory of
  the release, which may have been emptied), no other service is asked, and the torrent engine is not called. Where the write of the
  failure goes through and nobody else writes meanwhile, the job's row has failed.
\<close>

theorem over_limit_never_starts:
  assumes "ir_debrid ir = debrid_service p e flt others now"
    and "de_providers e = qs @ (pn, Inr (Some (nm, ls))) # ps" and "\<forall>x\<in>set qs. no_release x"
    and "0 < max_bytes j" and "max_bytes j < links_size ls" and "source j = SourceTorrent" and "input_key j = []"
    and "ir_release ir SourceTorrent = None" and "\<not> ir_torrent ir \<or> info_hash j \<notin> tw_inflight w"
    and "w' = run_job ir en flt others now bps j w"
  shows "tw_calls w' = tw_calls w
    \<and> (\<exists>msg. tw_events w' = tw_events w @ [RunEvent (JobFailed (jid j) msg)])
    \<and> w_disk (tw_world w') \<in> {w_disk (tw_world w), w_disk (remove_all (path_join (de_scratch e) (info_hash j)) (tw_world w))}
    \<and> (f_db flt 1 = None \<and> others = (\<lambda>_ d. d) \<longrightarrow> map jid (job_rows w') = map jid (job_rows w)
        \<and> (\<forall>r\<in>set (job_rows w'). jid r = jid j \<longrightarrow> status r = StatusFailed))"
proof -
  have run: "tw_calls (torrent_run ir en flt others now bps j v) = tw_calls v
      \<and> (\<exists>msg. tw_events (torrent_run ir en flt others now bps j v) = tw_events v @ [RunEvent (JobFailed (jid j) msg)])
      \<and> w_disk (tw_world (torrent_run ir en flt others now bps j v)) \<in> {w_disk (tw_world v), w_disk (remove_all (path_join (de_scratch e) (info_hash j)) (tw_world v))}
      \<and> (f_db flt 1 = None \<and> others = (\<lambda>_ d. d) \<longrightarrow> map jid (job_rows (torrent_run ir en flt others now bps j v)) = map jid (job_rows v)
        \<and> all_failed (jid j) (cdb (w_cache (tw_world (torrent_run ir en flt others now bps j v)))))" for v
  proof -
    obtain j1 v1 where c: "claim_job flt others now j v = (j1, v1)" by fastforce
    note f = t_update_frame [OF c [unfolded claim_job_def]]
    have mx: "0 < max_bytes j1" "max_bytes j1 < links_size ls" using f(1) assms(4,5) by simp_all
    from over_limit_final [OF assms(2,3) mx, of p flt others now v1] obtain er j2 v2
      where d: "debrid_service p e flt others now j1 v1 = (True, Some (True, er), j2, v2)" "jid j2 = jid j1"
        "tw_calls v2 = tw_calls v1" "tw_events v2 = tw_events v1"
        "w_disk (tw_world v2) = w_disk (remove_all (path_join (de_scratch e) (info_hash j1)) (tw_world v1))"
        "others = (\<lambda>_ d. d) \<longrightarrow> map jid (job_rows v2) = map jid (job_rows v1)"
      by (elim exE conjE)
    define v3 where "v3 = (if ir_blocked ir j1 then unhold ir (info_hash j1) v1 else unhold ir (info_hash j2) v2)"
    have v3: "tw_calls v3 = tw_calls v" "tw_events v3 = tw_events v"
      "w_disk (tw_world v3) \<in> {w_disk (tw_world v), w_disk (remove_all (path_join (de_scratch e) (info_hash j)) (tw_world v))}"
      "others = (\<lambda>_ d. d) \<Longrightarrow> map jid (job_rows v3) = map jid (job_rows v)"
      using f d(3-) remove_all_cong [OF f(5)] by (simp_all add: v3_def unhold_def release_def)
    have "\<exists>jx er. torrent_run ir en flt others now bps j v = run_fail flt others 1 now jx er v3 \<and> jid jx = jid j"
    proof (cases "ir_blocked ir j1")
      case True
      with c f(1) show ?thesis by (auto simp: torrent_run_def v3_def)
    next
      case False
      with c d(1) assms(1,6,7) f(1) have "torrent_run ir en flt others now bps j v = run_fail flt others 1 now j2 er v3"
        by (simp add: torrent_run_def Let_def settle_def v3_def split: option.split)
      with d(2) f(1) show ?thesis by auto
    qed
    then obtain jx er where "torrent_run ir en flt others now bps j v = run_fail flt others 1 now jx er v3" "jid jx = jid j" by blast
    then show ?thesis using run_fail_frame(1-3) [of flt others 1 now jx er v3] run_fail_frame(4) [of flt 1 jx now er v3] v3 by auto
  qed
  have "w' = (if ir_torrent ir
      then torrent_run ir en flt others now bps j (w\<lparr>tw_inflight := insert (info_hash j) (tw_inflight w)\<rparr>)
      else torrent_run ir en flt others now bps j w)"
    using assms(6,8-10) by (simp add: run_job_def hold_def)
  then show ?thesis using run [of w] run [of "w\<lparr>tw_inflight := insert (info_hash j) (tw_inflight w)\<rparr>"]
    by (simp add: all_failed_def remove_all_def)
qed

definition big_env :: debrid_env where
  "big_env = \<lparr>de_providers = [(''rd'', Inr (Some (''film'', [cd_link ''a.mkv''])))], de_scratch = ''/s'', de_conns = 1,
     de_blocked = (\<lambda>_ _. False), de_mkdir_fails = (\<lambda>_. False), de_fetch = (\<lambda>_ _ _ _. cut_env), de_stop = (\<lambda>_ _ _. False)\<rparr>"

definition debrid_runners :: "debrid_env \<Rightarrow> runners" where
  "debrid_runners e = \<lparr>ir_seed = None, ir_usenet = (\<lambda>_ w. w), ir_ytdlp = None, ir_hoster = (\<lambda>_ w. w), ir_release = (\<lambda>_. None),
     ir_torrent = True, ir_blocked = (\<lambda>_. False), ir_debrid = debrid_service sample_publisher e no_pub_faults (\<lambda>_ d. d) 9, ir_fallback = None,
     ir_file = True, ir_added = True, ir_category = ''torrin''\<rparr>"

theorem over_limit_never_starts_witness:
  "let j = film_job\<lparr>max_bytes := 2\<rparr>; e = big_env\<lparr>de_providers := (''ad'', Inl (OtherError ''down'')) # de_providers big_env\<rparr>;
       w = run_job (debrid_runners e) (engine_with (film_torrent ''downloading'' 7)) no_pub_faults (\<lambda>_ d. d) 9 0 j (start_world [j] (\<lambda>_. None))
   in tw_calls w = [] \<and> (\<exists>msg. tw_events w = [RunEvent (JobFailed ''j1'' msg)]) \<and> w_disk (tw_world w) = (\<lambda>_. None)
     \<and> map jid (job_rows w) = [''j1''] \<and> (\<forall>r\<in>set (job_rows w). status r = StatusFailed)"
proof -
  define j where "j = film_job\<lparr>max_bytes := 2\<rparr>"
  define e where "e = big_env\<lparr>de_providers := (''ad'', Inl (OtherError ''down'')) # de_providers big_env\<rparr>"
  have p: "de_providers e = [(''ad'', Inl (OtherError ''down''))] @ (''rd'', Inr (Some (''film'', [cd_link ''a.mkv'']))) # []"
    "\<forall>x\<in>set [(''ad'', Inl (OtherError ''down''))]. no_release x" by (simp_all add: e_def big_env_def no_release_def)
  have j: "jid j = ''j1''" "0 < max_bytes j" "max_bytes j < links_size [cd_link ''a.mkv'']" "source j = SourceTorrent" "input_key j = []"
    by (simp_all add: j_def film_job_def links_size_def)
  have w0: "tw_inflight (start_world [j] (\<lambda>_. None)) = {}" "tw_calls (start_world [j] (\<lambda>_. None)) = []" "tw_events (start_world [j] (\<lambda>_. None)) = []"
    "w_disk (tw_world (start_world [j] (\<lambda>_. None))) = (\<lambda>_. None)" "job_rows (start_world [j] (\<lambda>_. None)) = [j]"
    by (simp_all add: start_world_def)
  define w where "w = run_job (debrid_runners e) (engine_with (film_torrent ''downloading'' 7)) no_pub_faults (\<lambda>_ d. d) 9 0 j (start_world [j] (\<lambda>_. None))"
  have r: "ir_debrid (debrid_runners e) = debrid_service sample_publisher e no_pub_faults (\<lambda>_ d. d) 9"
    "ir_release (debrid_runners e) SourceTorrent = None"
    by (simp_all add: debrid_runners_def)
  from over_limit_never_starts [OF r(1) p j(2-5) r(2) _ w_def] w0 j(1)
  have "tw_calls w = [] \<and> (\<exists>msg. tw_events w = [RunEvent (JobFailed ''j1'' msg)]) \<and> w_disk (tw_world w) = (\<lambda>_. None)
     \<and> map jid (job_rows w) = [''j1''] \<and> (\<forall>r\<in>set (job_rows w). jid r = ''j1'' \<longrightarrow> status r = StatusFailed)"
    by (auto simp: remove_all_def no_pub_faults_def)
  then show ?thesis unfolding Let_def j_def [symmetric] e_def [symmetric] w_def [symmetric] by (auto simp: map_eq_Cons_conv)
qed

end
