(* ===== verification/Reseller.thy ===== *)
theory Reseller
  imports Billing
begin

text \<open>
  Prepaid codes sold by resellers: the table \<open>reseller_codes\<close> and its statements
  (\<open>shared/auth/reseller.go\<close>), the partner table (\<open>partners.go\<close>), and the handlers of
  \<open>api/internal/handlers/reseller.go\<close>: minting, listing and settling for a reseller key,
  and redeeming for a signed-in user behind a per-address attempt limiter. A redemption is four
  statements with no transaction around them, so it is also a step relation in which any number
  of redemptions interleave with each other and with every other writer of the database. The
  hash of a partner key, the random bytes of a code and the clock are arguments.
\<close>

section \<open>Tables\<close>

record reseller_code =
  rc_code :: string
  rc_plan :: string
  rc_period :: string
  rc_days :: int
  rc_reseller :: string
  rc_redeemed_by :: string
  rc_redeemed_at :: "int option"
  rc_created :: int
  rc_settled_at :: "int option"
  rc_settlement_ref :: string
  rc_retail :: int

record partner =
  p_id :: string
  p_name :: string
  p_key_hash :: string
  p_suppress_welcome :: bool
  p_active :: bool

record shop_db =
  codes :: "reseller_code list"
  partners :: "partner list"
  accounts :: auth_db

text \<open>The columns \<open>days\<close> and \<open>retail_cents\<close> are 32-bit; the code is the primary key.\<close>

definition in32 :: "int \<Rightarrow> bool" where
  "in32 x \<longleftrightarrow> - (2 ^ 31) \<le> x \<and> x < 2 ^ 31"

definition create_code :: "auth_error faults \<Rightarrow> nat \<Rightarrow> int \<Rightarrow> shop_db \<Rightarrow> reseller_code \<Rightarrow> (auth_error + unit) \<times> shop_db" where
  "create_code flt k now d c =
     (case run flt k () of Inl e \<Rightarrow> (Inl e, d) | Inr _ \<Rightarrow>
      if \<not> in32 (rc_days c) \<or> \<not> in32 (rc_retail c) then (Inl (AuthDBError ''integer out of range''), d)
      else if list_ex (\<lambda>r. rc_code r = rc_code c) (codes d) then (Inl (AuthDBError ''unique violation''), d)
      else (Inr (), d\<lparr>codes := codes d @
        [c\<lparr>rc_redeemed_by := [], rc_redeemed_at := None, rc_created := now, rc_settled_at := None,
           rc_settlement_ref := []\<rparr>]\<rparr>))"

definition get_code :: "auth_error faults \<Rightarrow> nat \<Rightarrow> shop_db \<Rightarrow> string \<Rightarrow> auth_error + reseller_code" where
  "get_code flt k d c = bindE (run flt k (find (\<lambda>r. rc_code r = c) (codes d)))
     (\<lambda>r. case r of None \<Rightarrow> Inl AuthNotFound | Some r \<Rightarrow> Inr r)"

definition redeemed :: "reseller_code \<Rightarrow> bool" where
  "redeemed r \<longleftrightarrow> rc_redeemed_by r \<noteq> []"

text \<open>\<open>UPDATE ... WHERE code = $3 AND redeemed_by = ''\<close>, and whether it hit one row.\<close>

definition mark_redeemed :: "auth_error faults \<Rightarrow> nat \<Rightarrow> int \<Rightarrow> shop_db \<Rightarrow> string \<Rightarrow> string \<Rightarrow> (auth_error + bool) \<times> shop_db" where
  "mark_redeemed flt k now d c u =
     (let hit = (\<lambda>r. rc_code r = c \<and> rc_redeemed_by r = []) in
      case run flt k () of Inl e \<Rightarrow> (Inl e, d)
      | Inr _ \<Rightarrow> (Inr (count_where hit (codes d) = 1),
          d\<lparr>codes := upd_where hit (\<lambda>r. r\<lparr>rc_redeemed_by := u, rc_redeemed_at := Some now\<rparr>) (codes d)\<rparr>))"

text \<open>The prices of old rows: statement \<open>k\<close> reads them, the following ones write one row each.\<close>

definition backfill_row :: "auth_error faults \<Rightarrow> (string \<Rightarrow> string \<Rightarrow> int \<Rightarrow> int \<Rightarrow> int) \<Rightarrow> nat \<times> reseller_code
    \<Rightarrow> nat \<times> shop_db \<Rightarrow> nat \<times> shop_db" where
  "backfill_row flt price kp acc =
     (let (k, p) = kp; (n, d) = acc; cents = price (rc_plan p) (rc_period p) (rc_days p) (rc_created p) in
      if cents \<le> 0 \<or> flt (Suc k) \<noteq> None \<or> \<not> in32 cents then (n, d)
      else (Suc n, d\<lparr>codes := upd_where (\<lambda>r. rc_code r = rc_code p \<and> rc_retail r = 0)
                              (\<lambda>r. r\<lparr>rc_retail := cents\<rparr>) (codes d)\<rparr>))"

definition backfill_retail :: "auth_error faults \<Rightarrow> (string \<Rightarrow> string \<Rightarrow> int \<Rightarrow> int \<Rightarrow> int) \<Rightarrow> shop_db
    \<Rightarrow> (auth_error + nat) \<times> shop_db" where
  "backfill_retail flt price d =
     (case run flt 0 (filter (\<lambda>r. rc_retail r = 0) (codes d)) of Inl e \<Rightarrow> (Inl e, d)
      | Inr todo \<Rightarrow> let (n, d') = fold (backfill_row flt price) (enumerate 0 todo) (0, d) in (Inr n, d'))"

text \<open>\<open>ORDER BY\<close> a date \<open>DESC\<close> puts rows without one first; a negative offset is an error.\<close>

definition list_codes :: "auth_error faults \<Rightarrow> nat \<Rightarrow> shop_db \<Rightarrow> string \<Rightarrow> bool \<Rightarrow> int option \<Rightarrow> nat \<Rightarrow> int
    \<Rightarrow> auth_error + reseller_code list" where
  "list_codes flt k d res redeemed_only since cap offset =
     (let date = (\<lambda>r. if redeemed_only then rc_redeemed_at r else Some (rc_created r));
          rows = filter (\<lambda>r. (redeemed_only \<longrightarrow> rc_redeemed_by r \<noteq> []) \<and> (res \<noteq> [] \<longrightarrow> rc_reseller r = res)
                   \<and> (case since of None \<Rightarrow> True | Some s \<Rightarrow> case date r of None \<Rightarrow> False | Some t \<Rightarrow> s \<le> t)) (codes d);
          sorted_rows = filter (\<lambda>r. date r = None) rows
                        @ sort_key (\<lambda>r. - the (date r)) (filter (\<lambda>r. date r \<noteq> None) rows)
      in if offset < 0 then Inl (AuthDBError ''OFFSET must not be negative'')
         else run flt k (take cap (drop (nat offset) sorted_rows)))"

definition update_codes :: "auth_error faults \<Rightarrow> nat \<Rightarrow> shop_db \<Rightarrow> (reseller_code \<Rightarrow> bool)
    \<Rightarrow> (reseller_code \<Rightarrow> reseller_code) \<Rightarrow> (auth_error + nat) \<times> shop_db" where
  "update_codes flt k d p f =
     (case run flt k () of Inl e \<Rightarrow> (Inl e, d)
      | Inr _ \<Rightarrow> (Inr (count_where p (codes d)), d\<lparr>codes := upd_where p f (codes d)\<rparr>))"

definition settle_row :: "int \<Rightarrow> string \<Rightarrow> reseller_code \<Rightarrow> reseller_code" where
  "settle_row now ref r = r\<lparr>rc_settled_at := Some now, rc_settlement_ref := ref\<rparr>"

definition unsettle_row :: "reseller_code \<Rightarrow> reseller_code" where
  "unsettle_row r = r\<lparr>rc_settled_at := None, rc_settlement_ref := []\<rparr>"

definition mark_codes_settled :: "auth_error faults \<Rightarrow> nat \<Rightarrow> int \<Rightarrow> shop_db \<Rightarrow> string \<Rightarrow> string \<Rightarrow> (auth_error + nat) \<times> shop_db" where
  "mark_codes_settled flt k now d res ref =
     update_codes flt k d (\<lambda>r. rc_reseller r = res \<and> rc_settled_at r = None) (settle_row now ref)"

definition unsettle_codes :: "auth_error faults \<Rightarrow> nat \<Rightarrow> shop_db \<Rightarrow> string \<Rightarrow> (auth_error + nat) \<times> shop_db" where
  "unsettle_codes flt k d res = update_codes flt k d (\<lambda>r. rc_reseller r = res) unsettle_row"

definition mark_code_settled :: "auth_error faults \<Rightarrow> nat \<Rightarrow> int \<Rightarrow> shop_db \<Rightarrow> string \<Rightarrow> string \<Rightarrow> string
    \<Rightarrow> (auth_error + nat) \<times> shop_db" where
  "mark_code_settled flt k now d res c ref =
     update_codes flt k d (\<lambda>r. rc_code r = c \<and> rc_settled_at r = None \<and> (res \<noteq> [] \<longrightarrow> rc_reseller r = res))
       (settle_row now ref)"

definition unsettle_code :: "auth_error faults \<Rightarrow> nat \<Rightarrow> shop_db \<Rightarrow> string \<Rightarrow> string \<Rightarrow> (auth_error + nat) \<times> shop_db" where
  "unsettle_code flt k d res c =
     update_codes flt k d (\<lambda>r. rc_code r = c \<and> (res \<noteq> [] \<longrightarrow> rc_reseller r = res)) unsettle_row"

section \<open>Partners\<close>

definition create_partner :: "auth_error faults \<Rightarrow> nat \<Rightarrow> shop_db \<Rightarrow> string \<Rightarrow> string \<Rightarrow> string \<Rightarrow> bool
    \<Rightarrow> (auth_error + unit) \<times> shop_db" where
  "create_partner flt k d i nm hash quiet =
     (case run flt k () of Inl e \<Rightarrow> (Inl e, d) | Inr _ \<Rightarrow>
      if list_ex (\<lambda>p. p_id p = i \<or> p_key_hash p = hash) (partners d) then (Inl (AuthDBError ''unique violation''), d)
      else (Inr (), d\<lparr>partners := partners d @
        [\<lparr>p_id = i, p_name = nm, p_key_hash = hash, p_suppress_welcome = quiet, p_active = True\<rparr>]\<rparr>))"

definition partner_by_key_hash :: "auth_error faults \<Rightarrow> nat \<Rightarrow> shop_db \<Rightarrow> string \<Rightarrow> auth_error + partner" where
  "partner_by_key_hash flt k d hash =
     bindE (run flt k (find (\<lambda>p. p_key_hash p = hash \<and> p_active p) (partners d)))
       (\<lambda>r. case r of None \<Rightarrow> Inl AuthNotFound | Some p \<Rightarrow> Inr p)"

definition set_partner_active :: "auth_error faults \<Rightarrow> nat \<Rightarrow> shop_db \<Rightarrow> string \<Rightarrow> bool \<Rightarrow> (auth_error + unit) \<times> shop_db" where
  "set_partner_active flt k d i b =
     (case run flt k () of Inl e \<Rightarrow> (Inl e, d)
      | Inr _ \<Rightarrow> (Inr (), d\<lparr>partners := upd_where (\<lambda>p. p_id p = i) (\<lambda>p. p\<lparr>p_active := b\<rparr>) (partners d)\<rparr>))"

text \<open>
  \<open>authReseller\<close>: the operator's key sees every reseller, a partner's key only its own codes.
  The result is the partner and whether it is scoped.
\<close>

definition auth_reseller :: "(string \<Rightarrow> string) \<Rightarrow> string \<Rightarrow> auth_error faults \<Rightarrow> nat \<Rightarrow> shop_db \<Rightarrow> string
    \<Rightarrow> (string \<times> bool) option" where
  "auth_reseller hash operator_key flt k d key =
     (if key = [] then None
      else if operator_key \<noteq> [] \<and> key = operator_key then Some ([], False)
      else case partner_by_key_hash flt k d (hash key) of
             Inr p \<Rightarrow> Some (p_id p, True) | Inl _ \<Rightarrow> None)"

section \<open>The attempt limiter\<close>

record limiter =
  l_max :: nat
  l_window :: int
  l_hits :: "string \<Rightarrow> int list"

definition new_limiter :: "nat \<Rightarrow> int \<Rightarrow> limiter" where
  "new_limiter m w = \<lparr>l_max = m, l_window = w, l_hits = (\<lambda>_. [])\<rparr>"

definition redeem_limiter :: limiter where
  "redeem_limiter = new_limiter 8 60"

text \<open>The clock is read twice: at \<open>t0\<close> for the cutoff and at \<open>t1\<close> for the entry.\<close>

definition allow :: "string \<Rightarrow> int \<Rightarrow> int \<Rightarrow> limiter \<Rightarrow> bool \<times> limiter" where
  "allow key t0 t1 l =
     (let kept = filter (\<lambda>t. t0 - l_window l < t) (l_hits l key) in
      if l_max l \<le> length kept then (False, l\<lparr>l_hits := (l_hits l)(key := kept)\<rparr>)
      else (True, l\<lparr>l_hits := (l_hits l)(key := kept @ [t1])\<rparr>))"

text \<open>A sequence of calls under the mutex, with the log of the admitted ones.\<close>

fun allow_run :: "(string \<times> int \<times> int) list \<Rightarrow> limiter \<Rightarrow> (string \<times> int) list \<times> limiter" where
  "allow_run [] l = ([], l)"
| "allow_run ((key, t0, t1) # cs) l =
     (let (ok, l1) = allow key t0 t1 l; (acc, l2) = allow_run cs l1
      in (if ok then (key, t1) # acc else acc, l2))"

section \<open>Codes\<close>

definition code_alphabet :: string where
  "code_alphabet = ''ABCDEFGHJKLMNPQRSTUVWXYZ23456789''"

definition rand_code :: "nat list \<Rightarrow> string" where
  "rand_code bs = map (\<lambda>b. code_alphabet ! (b mod length code_alphabet)) bs"

definition generate_code :: "nat list \<Rightarrow> string" where
  "generate_code bs =
     (let s = rand_code bs
      in ''TRN-'' @ take 4 s @ ''-'' @ take 4 (drop 4 s) @ ''-'' @ take 4 (drop 8 s))"

text \<open>What \<open>redeemCode\<close> makes of the typed code.\<close>

definition typed_code :: "string \<Rightarrow> string" where
  "typed_code s = to_upper (trim_space s)"

section \<open>Handlers\<close>


text \<open>
  \<open>time.Duration(days) * 24 * time.Hour\<close> is a 64-bit count of nanoseconds, and
  \<open>time.Until\<close> stops at the largest one.
\<close>

definition days_duration :: "int \<Rightarrow> int" where
  "days_duration days = wrap64 (days * 86400000000000) div 1000000000"

definition until :: "int \<Rightarrow> int \<Rightarrow> int" where
  "until now t = min (t - now) 9223372036"

definition redeem_expiry :: "int \<Rightarrow> string \<Rightarrow> int \<Rightarrow> user \<Rightarrow> int" where
  "redeem_expiry now period days u =
     (if period = ''lifetime'' then lifetime_expiry
      else let ex = (if period = ''yearly'' then now + 365 * day
                     else if period = ''days'' then now + days_duration days
                     else now + 35 * day)
           in if expires_at u > now \<and> \<not> is_paused u \<and> u_plan u \<noteq> ''free'' \<and> until now (expires_at u) > 0
              then ex + until now (expires_at u) else ex)"

text \<open>The three parts of \<open>redeemCode\<close> between which other requests can run.\<close>

definition redeem_read :: "auth_error faults \<Rightarrow> nat \<Rightarrow> shop_db \<Rightarrow> string \<Rightarrow> nat + reseller_code" where
  "redeem_read flt k d c =
     (if c = [] then Inl 400
      else case get_code flt k d c of Inl _ \<Rightarrow> Inl 400
      | Inr rc \<Rightarrow> if redeemed rc then Inl 409
                 else if get_plan (rc_plan rc) = None then Inl 400 else Inr rc)"

definition redeem_claim :: "auth_error faults \<Rightarrow> nat \<Rightarrow> int \<Rightarrow> shop_db \<Rightarrow> string \<Rightarrow> string \<Rightarrow> (nat + unit) \<times> shop_db" where
  "redeem_claim flt k now d c u =
     (case mark_redeemed flt k now d c u of
        (Inl _, d') \<Rightarrow> (Inl 500, d')
      | (Inr claimed, d') \<Rightarrow> (if claimed then Inr () else Inl 409, d'))"

definition redeem_grant :: "auth_error faults \<Rightarrow> nat \<Rightarrow> int \<Rightarrow> shop_db \<Rightarrow> user \<Rightarrow> reseller_code \<Rightarrow> nat \<times> shop_db" where
  "redeem_grant flt k now d u rc =
     (case update_plan flt k now (accounts d) (u_id u) (rc_plan rc) [] [] (rc_period rc)
             (redeem_expiry now (rc_period rc) (rc_days rc) u) of
        (Inl _, a) \<Rightarrow> (500, d\<lparr>accounts := a\<rparr>) | (Inr _, a) \<Rightarrow> (200, d\<lparr>accounts := a\<rparr>))"

text \<open>
  \<open>redeemCode\<close>: the status, the database and the limiter. The user is the row that the sign-in
  middleware read before; \<open>None\<close> is a body that does not decode. Waking the slots and the audit
  log follow a success.
\<close>

definition redeem_code :: "auth_error faults \<Rightarrow> int \<Rightarrow> limiter \<Rightarrow> string \<Rightarrow> user \<Rightarrow> string option \<Rightarrow> shop_db
    \<Rightarrow> nat \<times> shop_db \<times> limiter" where
  "redeem_code flt now l ip u req d =
     (let (ok, l') = allow ip now now l in
      if \<not> ok then (429, d, l')
      else case req of None \<Rightarrow> (400, d, l')
      | Some raw \<Rightarrow> let c = typed_code raw in
         (case redeem_read flt 0 d c of Inl s \<Rightarrow> (s, d, l')
          | Inr rc \<Rightarrow> (case redeem_claim flt 1 now d c (u_id u) of
              (Inl s, d1) \<Rightarrow> (s, d1, l')
            | (Inr _, d1) \<Rightarrow> let (s, d2) = redeem_grant flt 2 now d1 u rc in (s, d2, l'))))"

record settle_req =
  sr_reseller :: string
  sr_code :: string
  sr_ref :: string
  sr_undo :: bool

text \<open>The statement that the request names.\<close>

definition settle_update :: "auth_error faults \<Rightarrow> int \<Rightarrow> shop_db \<Rightarrow> string \<Rightarrow> settle_req \<Rightarrow> (auth_error + nat) \<times> shop_db" where
  "settle_update flt now d res q =
     (let ref = trim_space (sr_ref q); c = trim_space (sr_code q) in
      if c \<noteq> [] then if sr_undo q then unsettle_code flt 1 d res c else mark_code_settled flt 1 now d res c ref
      else if sr_undo q then unsettle_codes flt 1 d res else mark_codes_settled flt 1 now d res ref)"

text \<open>The status, and the number of rows reported with 200.\<close>

definition settle_handler :: "(string \<Rightarrow> string) \<Rightarrow> string \<Rightarrow> auth_error faults \<Rightarrow> int \<Rightarrow> string \<Rightarrow> settle_req option
    \<Rightarrow> shop_db \<Rightarrow> (nat \<times> nat) \<times> shop_db" where
  "settle_handler hash opkey flt now key req d =
     (case auth_reseller hash opkey flt 0 d key of None \<Rightarrow> ((401, 0), d)
      | Some (pid, scoped) \<Rightarrow> (case req of None \<Rightarrow> ((400, 0), d)
      | Some q \<Rightarrow>
        let res = (if scoped then pid else trim_space (sr_reseller q))
        in if trim_space (sr_code q) = [] \<and> res = [] then ((400, 0), d)
           else (case settle_update flt now d res q of
                   (Inl _, d') \<Rightarrow> ((500, 0), d') | (Inr n, d') \<Rightarrow> ((200, n), d'))))"

record mint_req =
  mr_plan :: string
  mr_period :: string
  mr_days :: int
  mr_quantity :: int
  mr_reseller :: string

definition valid_periods :: "string list" where
  "valid_periods = [''monthly'', ''yearly'', ''lifetime'', ''days'']"

definition minted_row :: "string \<Rightarrow> string \<Rightarrow> int \<Rightarrow> string \<Rightarrow> int \<Rightarrow> int \<Rightarrow> string \<Rightarrow> reseller_code" where
  "minted_row pid period days res retail now c =
     \<lparr>rc_code = c, rc_plan = pid, rc_period = period, rc_days = days, rc_reseller = res, rc_redeemed_by = [],
      rc_redeemed_at = None, rc_created = now, rc_settled_at = None, rc_settlement_ref = [], rc_retail = retail\<rparr>"

text \<open>
  Five attempts at one code: attempt \<open>k\<close> of the request draws the bytes \<open>draw k\<close> and is
  statement \<open>k\<close>. The empty code means that all five failed.
\<close>

fun mint_attempts :: "auth_error faults \<Rightarrow> (nat \<Rightarrow> nat list) \<Rightarrow> (string \<Rightarrow> reseller_code) \<Rightarrow> int \<Rightarrow> nat \<Rightarrow> nat
    \<Rightarrow> shop_db \<Rightarrow> string \<times> nat \<times> shop_db" where
  "mint_attempts flt draw row now 0 k d = ([], k, d)"
| "mint_attempts flt draw row now (Suc n) k d =
     (let c = generate_code (draw k) in
      case create_code flt k now d (row c) of
        (Inr _, d') \<Rightarrow> (c, Suc k, d')
      | (Inl _, d') \<Rightarrow> mint_attempts flt draw row now n (Suc k) d')"

fun mint_loop :: "auth_error faults \<Rightarrow> (nat \<Rightarrow> nat list) \<Rightarrow> (string \<Rightarrow> reseller_code) \<Rightarrow> int \<Rightarrow> nat \<Rightarrow> nat
    \<Rightarrow> shop_db \<Rightarrow> string list option \<times> shop_db" where
  "mint_loop flt draw row now 0 k d = (Some [], d)"
| "mint_loop flt draw row now (Suc q) k d =
     (let (c, k', d1) = mint_attempts flt draw row now 5 k d in
      if c = [] then (None, d1)
      else let (rest, d2) = mint_loop flt draw row now q k' d1
           in (case rest of None \<Rightarrow> (None, d2) | Some cs \<Rightarrow> (Some (c # cs), d2)))"

definition mint_handler :: "(string \<Rightarrow> string) \<Rightarrow> string \<Rightarrow> auth_error faults \<Rightarrow> (nat \<Rightarrow> nat list) \<Rightarrow> switches \<Rightarrow> int \<Rightarrow> string
    \<Rightarrow> mint_req option \<Rightarrow> shop_db \<Rightarrow> (nat \<times> string list) \<times> shop_db" where
  "mint_handler hash opkey flt draw sw now key req d =
     (case auth_reseller hash opkey flt 0 d key of None \<Rightarrow> ((401, []), d)
      | Some (pid, scoped) \<Rightarrow> (case req of None \<Rightarrow> ((400, []), d)
      | Some q \<Rightarrow>
        if get_plan (mr_plan q) = None then ((400, []), d)
        else if mr_period q \<notin> set valid_periods then ((400, []), d)
        else if mr_period q = ''days'' \<and> mr_days q \<le> 0 then ((400, []), d)
        else let qty = (if mr_quantity q \<le> 0 then 1 else mr_quantity q) in
        if qty > 100 then ((400, []), d)
        else let res0 = (if scoped then pid else mr_reseller q);
                 res = (if res0 = [] then ''reseller'' else res0);
                 retail = (case price_cents sw (mr_plan q) (mr_period q) (mr_days q) of Some c \<Rightarrow> c | None \<Rightarrow> 0)
             in (case mint_loop (after 1 flt) draw (minted_row (mr_plan q) (mr_period q) (mr_days q) res retail now)
                        now (nat qty) 0 d of
                   (None, d') \<Rightarrow> ((500, []), d') | (Some cs, d') \<Rightarrow> ((200, cs), d'))))"

record list_req =
  lr_reseller :: string
  lr_redeemed :: string
  lr_since :: "int option"
  lr_limit :: string
  lr_offset :: string

text \<open>The date parameter is given parsed. \<open>Atoi\<close> returns 0 for text and clips at the 64-bit range.\<close>

definition list_handler :: "(string \<Rightarrow> string) \<Rightarrow> string \<Rightarrow> auth_error faults \<Rightarrow> string \<Rightarrow> list_req \<Rightarrow> shop_db
    \<Rightarrow> nat \<times> reseller_code list" where
  "list_handler hash opkey flt key q d =
     (case auth_reseller hash opkey flt 0 d key of None \<Rightarrow> (401, [])
      | Some (pid, scoped) \<Rightarrow>
        let res = (if scoped then pid else lr_reseller q);
            cap0 = fst (parse_int (lr_limit q));
            cap = (if cap0 \<le> 0 \<or> cap0 > 1000 then 200 else cap0)
        in (case list_codes flt 1 d res (lr_redeemed q = ''true'') (lr_since q) (nat cap) (fst (parse_int (lr_offset q))) of
              Inl _ \<Rightarrow> (500, []) | Inr rs \<Rightarrow> (200, rs)))"

text \<open>The operator's page: a partner's key is drawn here and only its hash stored.\<close>

definition admin_create_partner :: "(string \<Rightarrow> string) \<Rightarrow> auth_error faults \<Rightarrow> nat list \<Rightarrow> (string \<times> string \<times> bool) option
    \<Rightarrow> shop_db \<Rightarrow> (nat \<times> string) \<times> shop_db" where
  "admin_create_partner hash flt bytes body d =
     (case body of None \<Rightarrow> ((400, []), d)
      | Some (i, nm, quiet) \<Rightarrow>
        if trim_space i = [] then ((400, []), d)
        else let key = ''trn_rsl_'' @ rand_code bytes in
          (case create_partner flt 0 d (trim_space i) nm (hash key) quiet of
             (Inl _, d') \<Rightarrow> ((500, []), d') | (Inr _, d') \<Rightarrow> ((200, key), d')))"

definition admin_revoke_partner :: "auth_error faults \<Rightarrow> string \<Rightarrow> shop_db \<Rightarrow> nat \<times> shop_db" where
  "admin_revoke_partner flt i d =
     (case set_partner_active flt 0 d i False of (Inl _, d') \<Rightarrow> (500, d') | (Inr _, d') \<Rightarrow> (200, d'))"

section \<open>Interleaved redemptions\<close>

text \<open>
  Request \<open>w\<close> stands before its read, between its read and its claim, between its claim and its
  grant, or at its end. A claim that succeeded stays visible in the states after it.
\<close>

datatype redemption =
    Idle
  | Seen user reseller_code
  | Claimed user reseller_code
  | Granted user reseller_code
  | Burnt user reseller_code
  | Refused nat

record shop =
  s_db :: shop_db
  s_reqs :: "nat \<Rightarrow> redemption"

inductive shop_step :: "shop \<Rightarrow> shop \<Rightarrow> bool" where
  read_ok: "s_reqs s w = Idle \<Longrightarrow> u_id u \<noteq> [] \<Longrightarrow> redeem_read flt k (s_db s) (typed_code raw) = Inr rc
    \<Longrightarrow> shop_step s (s\<lparr>s_reqs := (s_reqs s)(w := Seen u rc)\<rparr>)"
| read_fail: "s_reqs s w = Idle \<Longrightarrow> redeem_read flt k (s_db s) (typed_code raw) = Inl st
    \<Longrightarrow> shop_step s (s\<lparr>s_reqs := (s_reqs s)(w := Refused st)\<rparr>)"
| claim_ok: "s_reqs s w = Seen u rc \<Longrightarrow> redeem_claim flt k now (s_db s) (rc_code rc) (u_id u) = (Inr (), d)
    \<Longrightarrow> shop_step s (s\<lparr>s_db := d, s_reqs := (s_reqs s)(w := Claimed u rc)\<rparr>)"
| claim_fail: "s_reqs s w = Seen u rc \<Longrightarrow> redeem_claim flt k now (s_db s) (rc_code rc) (u_id u) = (Inl st, d)
    \<Longrightarrow> shop_step s (s\<lparr>s_db := d, s_reqs := (s_reqs s)(w := Refused st)\<rparr>)"
| grant: "s_reqs s w = Claimed u rc \<Longrightarrow> redeem_grant flt k now (s_db s) u rc = (st, d)
    \<Longrightarrow> shop_step s (s\<lparr>s_db := d, s_reqs := (s_reqs s)(w := if st = 200 then Granted u rc else Burnt u rc)\<rparr>)"
| mint: "mint_handler hash opkey flt draw sw now key mreq (s_db s) = (ans, d) \<Longrightarrow> shop_step s (s\<lparr>s_db := d\<rparr>)"
| settle: "settle_handler hash opkey flt now key sreq (s_db s) = (ans', d) \<Longrightarrow> shop_step s (s\<lparr>s_db := d\<rparr>)"
| backfill: "backfill_retail flt price (s_db s) = (n, d) \<Longrightarrow> shop_step s (s\<lparr>s_db := d\<rparr>)"
| others: "shop_step s (s\<lparr>s_db := (s_db s)\<lparr>accounts := a, partners := ps\<rparr>\<rparr>)"

fun claim_of :: "redemption \<Rightarrow> (string \<times> string) option" where
  "claim_of (Claimed u rc) = Some (rc_code rc, u_id u)"
| "claim_of (Granted u rc) = Some (rc_code rc, u_id u)"
| "claim_of (Burnt u rc) = Some (rc_code rc, u_id u)"
| "claim_of _ = None"

definition codes_ok :: "shop_db \<Rightarrow> bool" where
  "codes_ok d \<longleftrightarrow> distinct (map rc_code (codes d))"

text \<open>Redeemed codes stay redeemed by the same user, and codes stay a key.\<close>

definition keeps_redeemed :: "shop_db \<Rightarrow> shop_db \<Rightarrow> bool" where
  "keeps_redeemed d d' \<longleftrightarrow> codes_ok d' \<and> (\<forall>r\<in>set (codes d). redeemed r \<longrightarrow>
     (\<exists>r'\<in>set (codes d'). rc_code r' = rc_code r \<and> rc_redeemed_by r' = rc_redeemed_by r))"

section \<open>Statements keep what is redeemed\<close>

lemma redeemed_refl: "codes_ok d \<Longrightarrow> keeps_redeemed d d"
  by (auto simp: keeps_redeemed_def)

lemma redeemed_trans: "keeps_redeemed d1 d2 \<Longrightarrow> keeps_redeemed d2 d3 \<Longrightarrow> keeps_redeemed d1 d3"
  by (fastforce simp: keeps_redeemed_def redeemed_def)

lemma keeps_ok: "keeps_redeemed d d' \<Longrightarrow> codes_ok d'"
  by (simp add: keeps_redeemed_def)

lemma keeps_upd:
  assumes "codes_ok d" "\<And>r. rc_code (f r) = rc_code r" "\<And>r. p r \<Longrightarrow> redeemed r \<Longrightarrow> rc_redeemed_by (f r) = rc_redeemed_by r"
    and "codes d' = upd_where p f (codes d)"
  shows "keeps_redeemed d d'"
proof -
  have "map rc_code (codes d') = map rc_code (codes d)"
    using assms(2,4) by (simp add: map_upd_where)
  moreover have "\<exists>r'\<in>set (codes d'). rc_code r' = rc_code r \<and> rc_redeemed_by r' = rc_redeemed_by r"
    if "r \<in> set (codes d)" "redeemed r" for r
  proof (rule bexI)
    show "rc_code (if p r then f r else r) = rc_code r \<and> rc_redeemed_by (if p r then f r else r) = rc_redeemed_by r"
      using that assms(2,3) by simp
    show "(if p r then f r else r) \<in> set (codes d')"
      using that(1) unfolding assms(4) set_upd_where by (rule bexI [rotated]) simp
  qed
  ultimately show ?thesis
    using assms(1) by (simp add: keeps_redeemed_def codes_ok_def)
qed

lemma create_code_cases:
  assumes "create_code flt k now d c = (r, d')"
  obtains (failed) e where "r = Inl e" "d' = d"
  | (stored) "r = Inr ()" "rc_code c \<notin> rc_code ` set (codes d)"
      "d' = d\<lparr>codes := codes d @ [c\<lparr>rc_redeemed_by := [], rc_redeemed_at := None, rc_created := now,
               rc_settled_at := None, rc_settlement_ref := []\<rparr>]\<rparr>"
proof (cases "flt k = None \<and> in32 (rc_days c) \<and> in32 (rc_retail c) \<and> \<not> list_ex (\<lambda>r. rc_code r = rc_code c) (codes d)")
  case True
  then show thesis using assms by (intro stored) (auto simp: create_code_def run_def list_ex_iff)
next
  case False
  then show thesis using assms by (intro failed [of "projl r"]) (auto simp: create_code_def run_def split: option.splits if_splits)
qed

lemma keeps_create:
  assumes "codes_ok d" "create_code flt k now d c = (r, d')"
  shows "keeps_redeemed d d'"
  using assms(2)
proof (cases rule: create_code_cases)
  case failed
  then show ?thesis using assms(1) by (simp add: redeemed_refl)
next
  case stored
  then show ?thesis using assms(1) by (auto simp: keeps_redeemed_def codes_ok_def)
qed

lemma keeps_update_codes:
  assumes "codes_ok d" "update_codes flt k d p f = (r, d')"
    and "\<And>r. rc_code (f r) = rc_code r" "\<And>r. rc_redeemed_by (f r) = rc_redeemed_by r"
  shows "keeps_redeemed d d'"
proof (cases "flt k")
  case None
  then have "codes d' = upd_where p f (codes d)"
    using assms(2) by (auto simp: update_codes_def run_def)
  then show ?thesis using assms by (intro keeps_upd [where p = p and f = f]) auto
next
  case (Some e)
  then show ?thesis using assms by (simp add: update_codes_def run_def redeemed_refl)
qed

lemma settle_row_columns [simp]:
  "rc_code (settle_row now ref r) = rc_code r" "rc_redeemed_by (settle_row now ref r) = rc_redeemed_by r"
  "rc_code (unsettle_row r) = rc_code r" "rc_redeemed_by (unsettle_row r) = rc_redeemed_by r"
  "rc_reseller (settle_row now ref r) = rc_reseller r" "rc_reseller (unsettle_row r) = rc_reseller r"
  by (simp_all add: settle_row_def unsettle_row_def)

lemma settle_update_cases:
  assumes "settle_update flt now d res q = (r, d')"
  obtains p f where "update_codes flt 1 d p f = (r, d')" "\<And>r. rc_code (f r) = rc_code r"
    "\<And>r. rc_redeemed_by (f r) = rc_redeemed_by r"
    "\<And>r. p r \<Longrightarrow> res \<noteq> [] \<Longrightarrow> rc_reseller r = res" "\<And>r. rc_reseller (f r) = rc_reseller r"
proof (cases "trim_space (sr_code q) = []"; cases "sr_undo q")
  assume "trim_space (sr_code q) = []" "sr_undo q"
  then show thesis
    using assms that [of "\<lambda>r. rc_reseller r = res" unsettle_row]
    by (simp add: settle_update_def unsettle_codes_def)
next
  assume "trim_space (sr_code q) = []" "\<not> sr_undo q"
  then show thesis
    using assms that [of "\<lambda>r. rc_reseller r = res \<and> rc_settled_at r = None" "settle_row now (trim_space (sr_ref q))"]
    by (simp add: settle_update_def mark_codes_settled_def)
next
  assume "trim_space (sr_code q) \<noteq> []" "sr_undo q"
  then show thesis
    using assms that [of "\<lambda>r. rc_code r = trim_space (sr_code q) \<and> (res \<noteq> [] \<longrightarrow> rc_reseller r = res)" unsettle_row]
    by (simp add: settle_update_def unsettle_code_def)
next
  assume "trim_space (sr_code q) \<noteq> []" "\<not> sr_undo q"
  then show thesis
    using assms that [of "\<lambda>r. rc_code r = trim_space (sr_code q) \<and> rc_settled_at r = None
        \<and> (res \<noteq> [] \<longrightarrow> rc_reseller r = res)" "settle_row now (trim_space (sr_ref q))"]
    by (simp add: settle_update_def mark_code_settled_def)
qed

lemma settle_handler_cases:
  assumes "settle_handler hash opkey flt now key req d = (ans, d')"
  obtains (same) "d' = d"
  | (updated) pid scoped q r where "auth_reseller hash opkey flt 0 d key = Some (pid, scoped)"
      "settle_update flt now d (if scoped then pid else trim_space (sr_reseller q)) q = (r, d')"
  using assms unfolding settle_handler_def Let_def
  by (auto split: option.splits prod.splits sum.splits if_splits)

lemma keeps_settle:
  assumes "codes_ok d" "settle_handler hash opkey flt now key req d = (ans, d')"
  shows "keeps_redeemed d d'"
  using assms(2)
proof (cases rule: settle_handler_cases)
  case same
  then show ?thesis using assms(1) by (simp add: redeemed_refl)
next
  case (updated pid scoped q r)
  then show ?thesis
    using assms(1) by (elim settle_update_cases) (rule keeps_update_codes)
qed

text \<open>Minting appends rows, whatever its outcome: \<open>stored\<close> lists their codes.\<close>

lemma mint_attempts_stores:
  assumes "mint_attempts flt draw (minted_row pid period days res retail now) now n k d = (c, k', d')"
  shows "codes d' = codes d @ (if c = [] then [] else [minted_row pid period days res retail now c])
    \<and> (c \<noteq> [] \<longrightarrow> c \<notin> rc_code ` set (codes d)) \<and> accounts d' = accounts d"
  using assms
proof (induction n arbitrary: k)
  case 0
  then show ?case by simp
next
  case (Suc n)
  let ?row = "minted_row pid period days res retail now"
  let ?c = "generate_code (draw k)"
  obtain r d1 where cr: "create_code flt k now d (?row ?c) = (r, d1)" by (cases "create_code flt k now d (?row ?c)")
  from cr show ?case
  proof (cases rule: create_code_cases)
    case (failed e)
    then show ?thesis using Suc.prems cr by (intro Suc.IH [of "Suc k"]) simp
  next
    case stored
    have "?c \<noteq> []" by (simp add: generate_code_def Let_def)
    then show ?thesis
      using stored Suc.prems cr by (auto simp: minted_row_def Let_def)
  qed
qed

lemma mint_loop_stores:
  assumes "mint_loop flt draw (minted_row pid period days res retail now) now q k d = (r, d')"
  shows "\<exists>stored. codes d' = codes d @ map (minted_row pid period days res retail now) stored
    \<and> distinct stored \<and> set stored \<inter> rc_code ` set (codes d) = {} \<and> accounts d' = accounts d
    \<and> (case r of None \<Rightarrow> length stored < q | Some cs \<Rightarrow> stored = cs \<and> length cs = q)"
  using assms
proof (induction q arbitrary: k d r d')
  case 0
  then show ?case by (intro exI [of _ "[]"]) auto
next
  case (Suc q)
  let ?row = "minted_row pid period days res retail now"
  obtain c k' d1 where at: "mint_attempts flt draw ?row now 5 k d = (c, k', d1)"
    by (cases "mint_attempts flt draw ?row now 5 k d") auto
  note first = mint_attempts_stores [OF at]
  show ?case
  proof (cases "c = []")
    case True
    then show ?thesis using Suc.prems at first by (intro exI [of _ "[]"]) (auto simp: Let_def)
  next
    case False
    obtain r2 d2 where lp: "mint_loop flt draw ?row now q k' d1 = (r2, d2)"
      by (cases "mint_loop flt draw ?row now q k' d1")
    obtain st where st: "codes d2 = codes d1 @ map ?row st" "distinct st" "set st \<inter> rc_code ` set (codes d1) = {}"
      "accounts d2 = accounts d1" "case r2 of None \<Rightarrow> length st < q | Some cs \<Rightarrow> st = cs \<and> length cs = q"
      using Suc.IH [OF lp] by blast
    have "rc_code (?row c) = c" by (simp add: minted_row_def)
    then have c: "c \<notin> set st" "set st \<inter> rc_code ` set (codes d) = {}" "c \<notin> rc_code ` set (codes d)"
      using st(3) first False by auto
    have "d' = d2" "r = (case r2 of None \<Rightarrow> None | Some cs \<Rightarrow> Some (c # cs))"
      using Suc.prems at lp False by (auto split: option.splits)
    then show ?thesis
      using st c first False by (intro exI [of _ "c # st"]) (auto split: option.splits)
  qed
qed

lemma mint_handler_cases:
  assumes "mint_handler hash opkey flt draw sw now key req d = (ans, d')"
  obtains (same) "d' = d" "fst ans \<noteq> 200" "snd ans = []"
  | (minted) pid scoped q r retail where "auth_reseller hash opkey flt 0 d key = Some (pid, scoped)"
      "req = Some q" "mr_quantity q \<le> 100" "get_plan (mr_plan q) \<noteq> None" "mr_period q \<in> set valid_periods"
      "mint_loop (after 1 flt) draw (minted_row (mr_plan q) (mr_period q) (mr_days q)
          (if (if scoped then pid else mr_reseller q) = [] then ''reseller'' else if scoped then pid else mr_reseller q)
          retail now) now (nat (if mr_quantity q \<le> 0 then 1 else mr_quantity q)) 0 d = (r, d')"
      "ans = (case r of None \<Rightarrow> (500, []) | Some cs \<Rightarrow> (200, cs))"
proof -
  consider "auth_reseller hash opkey flt 0 d key = None"
    | pid scoped where "auth_reseller hash opkey flt 0 d key = Some (pid, scoped)" "req = None"
    | pid scoped q where "auth_reseller hash opkey flt 0 d key = Some (pid, scoped)" "req = Some q"
    by (cases "auth_reseller hash opkey flt 0 d key"; cases req) auto
  then show thesis
  proof cases
    case 1
    then show ?thesis using assms by (intro same) (auto simp: mint_handler_def)
  next
    case 2
    then show ?thesis using assms by (intro same) (auto simp: mint_handler_def)
  next
    case (3 pid scoped q)
    show ?thesis
    proof (cases "get_plan (mr_plan q) = None \<or> mr_period q \<notin> set valid_periods
        \<or> mr_period q = ''days'' \<and> mr_days q \<le> 0 \<or> 100 < mr_quantity q")
      case True
      then show ?thesis using assms 3 by (intro same) (auto simp: mint_handler_def Let_def split: if_splits)
    next
      case False
      define retail where "retail = (case price_cents sw (mr_plan q) (mr_period q) (mr_days q) of Some c \<Rightarrow> c | None \<Rightarrow> 0)"
      obtain r d2 where lp: "mint_loop (after 1 flt) draw (minted_row (mr_plan q) (mr_period q) (mr_days q)
          (if (if scoped then pid else mr_reseller q) = [] then ''reseller'' else if scoped then pid else mr_reseller q)
          retail now) now (nat (if mr_quantity q \<le> 0 then 1 else mr_quantity q)) 0 d = (r, d2)"
        by fastforce
      have "mint_handler hash opkey flt draw sw now key req d = (case r of None \<Rightarrow> (500, []) | Some cs \<Rightarrow> (200, cs), d2)"
        using False 3 lp by (simp add: mint_handler_def Let_def retail_def [symmetric] split: option.splits)
      then show ?thesis
        using assms False 3 lp by (intro minted [of pid scoped q retail r]) auto
    qed
  qed
qed

lemma keeps_mint:
  assumes "codes_ok d" "mint_handler hash opkey flt draw sw now key req d = (ans, d')"
  shows "keeps_redeemed d d'"
  using assms(2)
proof (cases rule: mint_handler_cases)
  case same
  then show ?thesis using assms(1) by (simp add: redeemed_refl)
next
  case (minted pid scoped q r retail)
  from mint_loop_stores [OF minted(6)] obtain row stored where "codes d' = codes d @ map row stored"
      "distinct stored" "set stored \<inter> rc_code ` set (codes d) = {}" "\<And>c. rc_code (row c) = c"
    by (auto simp: minted_row_def)
  then show ?thesis
    using assms(1) by (auto simp: keeps_redeemed_def codes_ok_def comp_def)
qed

lemma keeps_backfill_row:
  assumes "codes_ok d"
  shows "keeps_redeemed d (snd (backfill_row flt price kp (n, d)))"
proof -
  obtain k p where kp: "kp = (k, p)" by (cases kp)
  let ?c = "price (rc_plan p) (rc_period p) (rc_days p) (rc_created p)"
  have "keeps_redeemed d (d\<lparr>codes := upd_where (\<lambda>r. rc_code r = rc_code p \<and> rc_retail r = 0)
          (\<lambda>r. r\<lparr>rc_retail := ?c\<rparr>) (codes d)\<rparr>)"
    by (rule keeps_upd [OF assms]) auto
  then show ?thesis using redeemed_refl [OF assms] by (simp add: backfill_row_def kp Let_def)
qed

lemma keeps_backfill:
  assumes "codes_ok d" "backfill_retail flt price d = (n, d')"
  shows "keeps_redeemed d d'"
proof -
  have "keeps_redeemed d (snd (fold (backfill_row flt price) todo acc))" if "keeps_redeemed d (snd acc)" for todo acc
    using that
  proof (induction todo arbitrary: acc)
    case (Cons kp todo)
    show ?case
      using Cons.IH [of "backfill_row flt price kp acc"]
        redeemed_trans [OF Cons.prems keeps_backfill_row [OF keeps_ok [OF Cons.prems], of flt price kp "fst acc"]]
      by simp
  qed simp
  then show ?thesis
    using assms redeemed_refl [OF assms(1)]
    by (auto simp: backfill_retail_def run_def case_prod_unfold Let_def split: option.splits)
qed

lemma keeps_claim:
  assumes "codes_ok d" "redeem_claim flt k now d c u = (r, d')"
  shows "keeps_redeemed d d'"
proof (cases "flt k")
  case None
  then have "codes d' = upd_where (\<lambda>r. rc_code r = c \<and> rc_redeemed_by r = [])
      (\<lambda>r. r\<lparr>rc_redeemed_by := u, rc_redeemed_at := Some now\<rparr>) (codes d)"
    using assms(2) by (auto simp: redeem_claim_def mark_redeemed_def run_def Let_def)
  then show ?thesis using assms(1) by (rule keeps_upd [rotated 3]) (auto simp: redeemed_def)
next
  case (Some e)
  then show ?thesis using assms by (auto simp: redeem_claim_def mark_redeemed_def run_def Let_def redeemed_refl)
qed

lemma grant_codes: "redeem_grant flt k now d u rc = (st, d') \<Longrightarrow> codes d' = codes d"
  by (auto simp: redeem_grant_def split: prod.splits sum.splits)

text \<open>A successful claim found the code unredeemed and leaves it with the claimant.\<close>

lemma claim_success:
  assumes "redeem_claim flt k now d c u = (Inr (), d')"
  shows "\<exists>r\<in>set (codes d). rc_code r = c \<and> \<not> redeemed r"
    and "\<exists>r\<in>set (codes d'). rc_code r = c \<and> rc_redeemed_by r = u"
proof -
  let ?hit = "\<lambda>r. rc_code r = c \<and> rc_redeemed_by r = []"
  have one: "count_where ?hit (codes d) = 1"
    and d': "codes d' = upd_where ?hit (\<lambda>r. r\<lparr>rc_redeemed_by := u, rc_redeemed_at := Some now\<rparr>) (codes d)"
    using assms by (auto simp: redeem_claim_def mark_redeemed_def Let_def run_def split: option.splits if_splits)
  then obtain r where r: "r \<in> set (codes d)" "?hit r"
    using count_where_0 [of ?hit "codes d"] by auto
  then show "\<exists>r\<in>set (codes d). rc_code r = c \<and> \<not> redeemed r" by (auto simp: redeemed_def)
  have "r\<lparr>rc_redeemed_by := u, rc_redeemed_at := Some now\<rparr> \<in> set (codes d')"
    unfolding d' set_upd_where using r by (intro bexI [of _ r]) auto
  then show "\<exists>r\<in>set (codes d'). rc_code r = c \<and> rc_redeemed_by r = u"
    using r by (intro bexI) auto
qed

section \<open>The invariant\<close>

definition shop_ok :: "shop \<Rightarrow> bool" where
  "shop_ok s \<longleftrightarrow> codes_ok (s_db s)
     \<and> (\<forall>w u rc. s_reqs s w = Seen u rc \<longrightarrow> u_id u \<noteq> [])
     \<and> (\<forall>w c u. claim_of (s_reqs s w) = Some (c, u) \<longrightarrow>
          u \<noteq> [] \<and> (\<exists>r\<in>set (codes (s_db s)). rc_code r = c \<and> rc_redeemed_by r = u))
     \<and> (\<forall>w w' c u u'. claim_of (s_reqs s w) = Some (c, u) \<and> claim_of (s_reqs s w') = Some (c, u') \<longrightarrow> w = w')"

lemma shop_okD:
  assumes "shop_ok s"
  shows "codes_ok (s_db s)" "s_reqs s w = Seen u rc \<Longrightarrow> u_id u \<noteq> []"
    "claim_of (s_reqs s w) = Some (c, i) \<Longrightarrow> \<exists>r\<in>set (codes (s_db s)). rc_code r = c \<and> rc_redeemed_by r = i \<and> redeemed r"
    "claim_of (s_reqs s w) = Some (c, i) \<Longrightarrow> claim_of (s_reqs s w') = Some (c, i') \<Longrightarrow> w = w'"
  using assms by (auto simp: shop_ok_def redeemed_def) blast+

text \<open>A change of the database that keeps what is redeemed keeps the invariant.\<close>

lemma shop_ok_db:
  assumes "shop_ok s" "keeps_redeemed (s_db s) d"
  shows "shop_ok (s\<lparr>s_db := d\<rparr>)"
proof -
  have "\<exists>r\<in>set (codes d). rc_code r = c \<and> rc_redeemed_by r = u" if "claim_of (s_reqs s w) = Some (c, u)" for w c u
    using shop_okD(3) [OF assms(1) that] assms(2) by (fastforce simp: keeps_redeemed_def)
  then show ?thesis
    using assms by (auto simp: shop_ok_def keeps_ok)
qed

text \<open>So does a request that moves on with the claim it has.\<close>

lemma shop_ok_req:
  assumes "shop_ok s" "claim_of p = claim_of (s_reqs s w)" "\<And>u rc. p = Seen u rc \<Longrightarrow> u_id u \<noteq> []"
  shows "shop_ok (s\<lparr>s_reqs := (s_reqs s)(w := p)\<rparr>)"
proof -
  have "claim_of (((s_reqs s)(w := p)) v) = claim_of (s_reqs s v)" for v
    using assms(2) by simp
  then show ?thesis
    using assms(1,3) by (auto simp: shop_ok_def)
qed

lemma shop_ok_claim:
  assumes "shop_ok s" "s_reqs s w = Seen u rc" "redeem_claim flt k now (s_db s) (rc_code rc) (u_id u) = (Inr (), d)"
  shows "shop_ok (s\<lparr>s_db := d, s_reqs := (s_reqs s)(w := Claimed u rc)\<rparr>)"
proof -
  let ?s = "s\<lparr>s_db := d\<rparr>"
  note keep = keeps_claim [OF shop_okD(1) [OF assms(1)] assms(3)]
  note ok = shop_ok_db [OF assms(1) keep]
  obtain r where r: "r \<in> set (codes (s_db s))" "rc_code r = rc_code rc" "\<not> redeemed r"
    using claim_success(1) [OF assms(3)] by blast
  have none: "claim_of (s_reqs s v) \<noteq> Some (rc_code rc, i)" for v i
  proof
    assume "claim_of (s_reqs s v) = Some (rc_code rc, i)"
    then obtain r' where "r' \<in> set (codes (s_db s))" "rc_code r' = rc_code rc" "redeemed r'"
      using shop_okD(3) [OF assms(1)] by blast
    then have "r' = r"
      using shop_okD(1) [OF assms(1)] r by (metis codes_ok_def eq_key_imp_eq_value map_of_eq_Some_iff distinct_map inj_onD)
    then show False using r \<open>redeemed r'\<close> by simp
  qed
  have cl: "claim_of (((s_reqs s)(w := Claimed u rc)) v) = (if v = w then Some (rc_code rc, u_id u) else claim_of (s_reqs s v))" for v
    by simp
  have sn: "u_id u' \<noteq> []" if "((s_reqs s)(w := Claimed u rc)) v = Seen u' rc'" for v u' rc'
    using that shop_okD(2) [OF assms(1), of v u' rc'] by (simp split: if_splits)
  show ?thesis
    using ok none claim_success(2) [OF assms(3)] shop_okD(2) [OF assms(1,2)] sn
    unfolding shop_ok_def by (auto simp: cl simp del: fun_upd_apply split: if_splits)
qed

lemma shop_ok_step:
  assumes "shop_step s s'" "shop_ok s"
  shows "shop_ok s'"
  using assms
proof (induction rule: shop_step.induct)
  case (read_ok s w u flt k raw rc)
  then show ?case by (intro shop_ok_req) auto
next
  case (read_fail s w flt k raw st)
  then show ?case by (intro shop_ok_req) auto
next
  case (claim_ok s w u rc flt k now d)
  then show ?case by (intro shop_ok_claim)
next
  case (claim_fail s w u rc flt k now st d)
  then show ?case
    using shop_ok_req [OF shop_ok_db [OF _ keeps_claim [OF shop_okD(1)]], of s flt k now "rc_code rc" "u_id u" "Inl st" d "Refused st" w]
    by simp
next
  case (grant s w u rc flt k now st d)
  have "shop_ok (s\<lparr>s_db := d\<rparr>)"
    using grant grant_codes [OF grant(2)] shop_okD(1) [OF grant(3)]
    by (intro shop_ok_db) (auto simp: keeps_redeemed_def codes_ok_def)
  then show ?case
    using shop_ok_req [of "s\<lparr>s_db := d\<rparr>" "if st = 200 then Granted u rc else Burnt u rc" w] grant(1)
    by (cases "st = 200") simp_all
next
  case (mint hash opkey flt draw sw now key mreq s ans d)
  then show ?case by (intro shop_ok_db keeps_mint) (auto dest: shop_okD)
next
  case (settle hash opkey flt now key sreq s ans' d)
  then show ?case by (intro shop_ok_db keeps_settle) (auto dest: shop_okD)
next
  case (backfill flt price s n d)
  then show ?case by (intro shop_ok_db keeps_backfill) (auto dest: shop_okD)
next
  case (others s a ps)
  then show ?case
    using shop_okD(1) [OF others] by (intro shop_ok_db) (auto simp: keeps_redeemed_def codes_ok_def)
qed

definition opened :: "shop_db \<Rightarrow> shop" where
  "opened d = \<lparr>s_db = d, s_reqs = (\<lambda>_. Idle)\<rparr>"

lemma shop_reach_ok: "shop_step\<^sup>*\<^sup>* (opened d) s \<Longrightarrow> codes_ok d \<Longrightarrow> shop_ok s"
proof (induction rule: rtranclp_induct)
  case base
  then show ?case by (simp add: opened_def shop_ok_def)
next
  case (step y z)
  then show ?case using shop_ok_step by blast
qed

section \<open>The limiter\<close>

definition in_window :: "int \<Rightarrow> int \<Rightarrow> int list \<Rightarrow> int list" where
  "in_window w t A = filter (\<lambda>x. t - w < x \<and> x \<le> t) A"

text \<open>Calls in the order of the mutex: each reads the clock twice, and the clock never goes back.\<close>

fun clocked :: "int \<Rightarrow> (string \<times> int \<times> int) list \<Rightarrow> bool" where
  "clocked now [] \<longleftrightarrow> True"
| "clocked now ((key, t0, t1) # cs) \<longleftrightarrow> now \<le> t0 \<and> t0 \<le> t1 \<and> clocked t1 cs"

definition admitted :: "string \<Rightarrow> (string \<times> int) list \<Rightarrow> int list" where
  "admitted key log = map snd (filter (\<lambda>e. fst e = key) log)"

lemma admitted_simps [simp]:
  "admitted key [] = []" "admitted key ((k, t) # log) = (if k = key then t # admitted key log else admitted key log)"
  by (simp_all add: admitted_def)

text \<open>What the table holds for a key: the admissions after some old cutoff.\<close>

definition tracks :: "int \<Rightarrow> int list \<Rightarrow> limiter \<Rightarrow> string \<Rightarrow> bool" where
  "tracks now A l key \<longleftrightarrow> (\<exists>c \<le> now - l_window l. l_hits l key = filter (\<lambda>x. c < x) A)
     \<and> (\<forall>x\<in>set A. x \<le> now) \<and> (\<forall>t. length (in_window (l_window l) t A) \<le> l_max l)"

lemma tracks_mono: "tracks now A l key \<Longrightarrow> now \<le> t \<Longrightarrow> tracks t A l key"
  unfolding tracks_def by (elim conjE exE, intro conjI exI) (auto intro: order_trans)

lemma allow_other: "k \<noteq> key \<Longrightarrow> tracks now A l key \<Longrightarrow> tracks now A (snd (allow k t0 t1 l)) key"
  by (simp add: tracks_def allow_def Let_def)

lemma allow_same_config [simp]:
  "l_max (snd (allow k t0 t1 l)) = l_max l" "l_window (snd (allow k t0 t1 l)) = l_window l"
  by (simp_all add: allow_def Let_def)

lemma length_filter_imp: "(\<And>x. x \<in> set xs \<Longrightarrow> p x \<Longrightarrow> q x) \<Longrightarrow> length (filter p xs) \<le> length (filter q xs)"
  by (induction xs) (auto simp: le_SucI)

lemma allow_tracks:
  assumes "tracks now A l key" "now \<le> t0" "t0 \<le> t1" "0 < l_window l"
  shows "tracks t1 (if fst (allow key t0 t1 l) then A @ [t1] else A) (snd (allow key t0 t1 l)) key"
    and "fst (allow key t0 t1 l) \<longleftrightarrow> length (in_window (l_window l) t0 A) < l_max l"
proof -
  let ?kept = "filter (\<lambda>x. t0 - l_window l < x) A"
  from assms(1) obtain c where c: "c \<le> now - l_window l" "l_hits l key = filter (\<lambda>x. c < x) A"
    and old: "\<forall>x\<in>set A. x \<le> now" and few: "\<And>t. length (in_window (l_window l) t A) \<le> l_max l"
    by (auto simp: tracks_def)
  have kept: "filter (\<lambda>x. t0 - l_window l < x) (l_hits l key) = ?kept"
    unfolding c(2) filter_filter using c(1) assms(2) by (intro filter_cong) auto
  have win: "in_window (l_window l) t0 A = ?kept"
    unfolding in_window_def using old assms(2) by (intro filter_cong) auto
  show ok: "fst (allow key t0 t1 l) \<longleftrightarrow> length (in_window (l_window l) t0 A) < l_max l"
    by (auto simp: allow_def kept win Let_def)
  show "tracks t1 (if fst (allow key t0 t1 l) then A @ [t1] else A) (snd (allow key t0 t1 l)) key"
  proof (cases "fst (allow key t0 t1 l)")
    case False
    have "l_hits (snd (allow key t0 t1 l)) key = ?kept" using False by (auto simp: allow_def kept Let_def split: if_splits)
    then show ?thesis
      using False old few assms(2,3) unfolding tracks_def
      by (auto intro!: exI [of _ "t0 - l_window l"])
  next
    case True
    have hits: "l_hits (snd (allow key t0 t1 l)) key = ?kept @ [t1]" using True by (auto simp: allow_def kept Let_def split: if_splits)
    have "length (in_window (l_window l) t (A @ [t1])) \<le> l_max l" for t
    proof (cases "t - l_window l < t1 \<and> t1 \<le> t")
      case True
      have "length (in_window (l_window l) t A) \<le> length ?kept"
        unfolding in_window_def using True assms(3) by (intro length_filter_imp) auto
      then show ?thesis
        using True ok win \<open>fst (allow key t0 t1 l)\<close> by (simp add: in_window_def)
    next
      case False
      then show ?thesis using few [of t] by (auto simp: in_window_def)
    qed
    then show ?thesis
      using True hits old assms(2-4) few unfolding tracks_def
      by (auto intro!: exI [of _ "t0 - l_window l"])
  qed
qed

definition last_time :: "int \<Rightarrow> (string \<times> int \<times> int) list \<Rightarrow> int" where
  "last_time now calls = fold (\<lambda>(_, _, t1) _. t1) calls now"

lemma last_time_simps [simp]:
  "last_time now [] = now" "last_time now ((k, t0, t1) # cs) = last_time t1 cs"
  by (simp_all add: last_time_def)

lemma allow_run_tracks:
  assumes "tracks now A l key" "clocked now calls" "0 < l_window l" "allow_run calls l = (log, l')"
  shows "tracks (last_time now calls) (A @ admitted key log) l' key \<and> l_max l' = l_max l \<and> l_window l' = l_window l"
  using assms
proof (induction calls arbitrary: now A l log)
  case Nil
  then show ?case by auto
next
  case (Cons call calls)
  obtain k t0 t1 where call: "call = (k, t0, t1)" by (cases call)
  obtain log2 where run: "allow_run calls (snd (allow k t0 t1 l)) = (log2, l')"
    and log: "log = (if fst (allow k t0 t1 l) then (k, t1) # log2 else log2)"
    using Cons.prems(4) that [of "fst (allow_run calls (snd (allow k t0 t1 l)))"]
    by (simp add: call Let_def case_prod_unfold split: if_splits) (metis prod.collapse)+
  have times: "now \<le> t0" "t0 \<le> t1" "clocked t1 calls" using Cons.prems(2) by (simp_all add: call)
  show ?case
  proof (cases "k = key")
    case True
    note tr = allow_tracks(1) [OF Cons.prems(1) times(1,2) Cons.prems(3)]
    show ?thesis
      using Cons.IH [OF tr times(3) _ run [unfolded True]] Cons.prems(3) by (simp add: call log True split: if_splits)
  next
    case False
    note tr = allow_other [OF False tracks_mono [OF Cons.prems(1) order_trans [OF times(1,2)]]]
    show ?thesis
      using Cons.IH [OF tr times(3) _ run] Cons.prems(3) False by (simp add: call log)
  qed
qed

section \<open>Typed codes\<close>

lemma alphabet_plain: "c \<in> set code_alphabet \<Longrightarrow> upper_char c = c \<and> \<not> is_space c"
proof -
  have "\<forall>c\<in>set code_alphabet. upper_char c = c \<and> \<not> is_space c" by code_simp
  then show "c \<in> set code_alphabet \<Longrightarrow> upper_char c = c \<and> \<not> is_space c" by blast
qed

lemma rand_code_chars: "set (rand_code bs) \<subseteq> set code_alphabet"
proof -
  have "0 < length code_alphabet" by (simp add: code_alphabet_def)
  then show ?thesis by (auto simp: rand_code_def)
qed

lemma generate_code_plain:
  assumes "c \<in> set (generate_code bs)"
  shows "upper_char c = c \<and> \<not> is_space c"
proof -
  have "set (generate_code bs) \<subseteq> set ''TRN-'' \<union> set (rand_code bs)"
    unfolding generate_code_def Let_def set_append using set_take_subset set_drop_subset by fastforce
  moreover have "\<forall>c\<in>set ''TRN-''. upper_char c = c \<and> \<not> is_space c" by code_simp
  ultimately show ?thesis using assms alphabet_plain rand_code_chars [of bs] by blast
qed

lemma upper_char_space: "is_space c \<Longrightarrow> upper_char c = c"
  by (auto simp: is_space_def upper_char_def in_range_def)

lemma trim_space_around:
  assumes "\<forall>c\<in>set pre. is_space c" "\<forall>c\<in>set post. is_space c" "\<forall>c\<in>set t. \<not> is_space c" "t \<noteq> []"
  shows "trim_space (pre @ t @ post) = t"
proof -
  have "dropWhile is_space (pre @ t @ post) = t @ post"
    using assms by (cases t) (simp_all add: dropWhile_append2)
  moreover have "dropWhile is_space (rev post @ rev t) = rev t"
    using assms(2-4) dropWhile_append2 [of "rev post" is_space "rev t"] by (cases t rule: rev_cases) auto
  ultimately show ?thesis by (simp add: trim_space_def trim_left_def trim_right_def)
qed

section \<open>Granting\<close>

lemma planned_row_twice:
  "planned_row now pid sub lic recur ex (planned_row now' pid' sub' lic' recur' ex' u)
     = planned_row now pid sub lic recur ex u"
  by (simp add: planned_row_def)

lemma set_plan_twice:
  "set_plan now i pid sub lic recur ex (set_plan now' i pid' sub' lic' recur' ex' d) = set_plan now i pid sub lic recur ex d"
proof -
  have "upd_where (\<lambda>r. u_id r = i) (planned_row now pid sub lic recur ex)
          (upd_where (\<lambda>r. u_id r = i) (planned_row now' pid' sub' lic' recur' ex') us)
        = upd_where (\<lambda>r. u_id r = i) (planned_row now pid sub lic recur ex) us" for us
    by (induction us) (simp_all add: planned_row_twice, simp add: planned_row_def)
  then show ?thesis by (simp add: set_plan_def)
qed

lemma redeem_grant_ok: "redeem_grant no_faults k now d u rc =
   (200, d\<lparr>accounts := set_plan now (u_id u) (rc_plan rc) [] [] (rc_period rc)
       (redeem_expiry now (rc_period rc) (rc_days rc) u) (accounts d)\<rparr>)"
  by (simp add: redeem_grant_def update_plan_def)

lemma redeem_read_InrD:
  assumes "redeem_read flt k d c = Inr rc"
  shows "rc \<in> set (codes d)" "rc_code rc = c" "rc_redeemed_by rc = []" "flt k = None"
  using assms by (auto simp: redeem_read_def get_code_def redeemed_def run_def bindE_def
    split: if_splits sum.splits option.splits dest!: find_Some_mem)

text \<open>Claiming an unredeemed code succeeds and touches only its row.\<close>

lemma redeem_claim_ok:
  assumes "codes_ok d" "r \<in> set (codes d)" "rc_redeemed_by r = []"
  shows "\<exists>d'. redeem_claim no_faults k now d (rc_code r) u = (Inr (), d') \<and> accounts d' = accounts d
     \<and> (\<forall>r'\<in>set (codes d). rc_code r' \<noteq> rc_code r \<longrightarrow> r' \<in> set (codes d'))"
proof -
  let ?hit = "\<lambda>x. rc_code x = rc_code r \<and> rc_redeemed_by x = []"
  have "count_where ?hit (codes d) \<le> count_where (\<lambda>x. rc_code x = rc_code r) (codes d)"
    by (rule count_where_mono) simp
  also have "\<dots> \<le> 1" using assms(1) by (intro count_where_distinct_key) (simp add: codes_ok_def)
  finally have "count_where ?hit (codes d) = 1"
    using assms(2,3) count_where_0 [of ?hit "codes d"] by fastforce
  then show ?thesis
    by (auto simp: redeem_claim_def mark_redeemed_def Let_def set_upd_where intro!: bexI)
qed

lemma list_codes_reseller:
  assumes "list_codes flt k d res only since cap offset = Inr rs" "res \<noteq> []" "r \<in> set rs"
  shows "rc_reseller r = res"
proof -
  define date where "date = (\<lambda>r :: reseller_code. if only then rc_redeemed_at r else Some (rc_created r))"
  define rows where "rows = filter (\<lambda>r. (only \<longrightarrow> rc_redeemed_by r \<noteq> []) \<and> (res \<noteq> [] \<longrightarrow> rc_reseller r = res)
     \<and> (case since of None \<Rightarrow> True | Some s \<Rightarrow> case date r of None \<Rightarrow> False | Some t \<Rightarrow> s \<le> t)) (codes d)"
  have "rs = take cap (drop (nat offset) (filter (\<lambda>r. date r = None) rows
          @ sort_key (\<lambda>r. - the (date r)) (filter (\<lambda>r. date r \<noteq> None) rows)))"
    using assms(1) unfolding list_codes_def Let_def date_def [symmetric] rows_def [symmetric]
    by (simp add: run_def split: if_splits option.splits)
  then have "set rs \<subseteq> set rows"
    using set_take_subset set_drop_subset by (fastforce simp del: take_append drop_append)
  then show ?thesis using assms(2,3) by (auto simp: rows_def)
qed

section \<open>Properties\<close>

text \<open>
  C18: a prepaid code is redeemed at most once. However redemptions interleave with each other and with
  minting, settling, repricing and every writer of the accounts, two requests that claimed the same
  code are the same request, and the row of a claimed code names the user who claimed it.
\<close>

theorem redeem_once:
  assumes "shop_step\<^sup>*\<^sup>* (opened d) s" and "distinct (map rc_code (codes d))"
    and "claim_of (s_reqs s w) = Some (c, i)" and "claim_of (s_reqs s w') = Some (c, i')"
  shows "w = w' \<and> i = i' \<and> (\<exists>r\<in>set (codes (s_db s)). rc_code r = c \<and> rc_redeemed_by r = i)"
proof -
  have ok: "shop_ok s" using shop_reach_ok assms(1,2) by (simp add: codes_ok_def)
  then have "w = w'" using assms(3,4) by (blast dest: shop_okD(4))
  then show ?thesis using assms(3,4) shop_okD(3) [OF ok assms(3)] by auto
qed

text \<open>
  C39: two codes redeemed at the same time by one account are worth one. Both requests compute the new
  expiry from the user row read before either wrote, and the later write replaces the earlier: both
  codes are spent, and the accounts end as if only the second had been redeemed.
\<close>

theorem concurrent_codes_lose_time:
  assumes "codes_ok d" and "u_id u \<noteq> []" and "rc_code ra \<noteq> rc_code rb"
    and "redeem_read no_faults 0 d (typed_code ta) = Inr ra" and "redeem_read no_faults 0 d (typed_code tb) = Inr rb"
  shows "\<exists>s. shop_step\<^sup>*\<^sup>* (opened d) s \<and> s_reqs s 0 = Granted u ra \<and> s_reqs s 1 = Granted u rb
    \<and> accounts (s_db s) = accounts (snd (redeem_grant no_faults 2 now d u rb))"
proof -
  note ra = redeem_read_InrD [OF assms(4)] and rb = redeem_read_InrD [OF assms(5)]
  obtain d1 where d1: "redeem_claim no_faults 1 now d (rc_code ra) (u_id u) = (Inr (), d1)" "accounts d1 = accounts d"
    "\<forall>r'\<in>set (codes d). rc_code r' \<noteq> rc_code ra \<longrightarrow> r' \<in> set (codes d1)"
    using redeem_claim_ok [OF assms(1) ra(1,3)] by blast
  have ok1: "codes_ok d1" "rb \<in> set (codes d1)"
    using keeps_ok [OF keeps_claim [OF assms(1) d1(1)]] d1(3) rb(1) assms(3) by auto
  obtain d2 where d2: "redeem_claim no_faults 1 now d1 (rc_code rb) (u_id u) = (Inr (), d2)" "accounts d2 = accounts d1"
    using redeem_claim_ok [OF ok1 rb(3)] by blast
  define p :: "nat \<Rightarrow> redemption" where "p = (\<lambda>_. Idle)"
  define d3 where "d3 = snd (redeem_grant no_faults 2 now d2 u ra)"
  define d4 where "d4 = snd (redeem_grant no_faults 2 now d3 u rb)"
  note step = rtranclp.rtrancl_into_rtrancl [where r = shop_step]
  have "shop_step\<^sup>*\<^sup>* (opened d) \<lparr>s_db = d, s_reqs = p(0 := Seen u ra)\<rparr>"
    by (rule step [OF rtranclp.rtrancl_refl])
       (use read_ok [of "opened d" 0 u no_faults 0 ta ra] assms(2,4) in \<open>simp add: opened_def p_def\<close>)
  then have "shop_step\<^sup>*\<^sup>* (opened d) \<lparr>s_db = d, s_reqs = p(0 := Seen u ra, 1 := Seen u rb)\<rparr>"
    by (rule step) (use read_ok [of "\<lparr>s_db = d, s_reqs = p(0 := Seen u ra)\<rparr>" 1 u no_faults 0 tb rb] assms(2,5)
      in \<open>simp add: p_def\<close>)
  then have "shop_step\<^sup>*\<^sup>* (opened d) \<lparr>s_db = d1, s_reqs = p(0 := Claimed u ra, 1 := Seen u rb)\<rparr>"
    by (rule step) (use claim_ok [of "\<lparr>s_db = d, s_reqs = p(0 := Seen u ra, 1 := Seen u rb)\<rparr>" 0 u ra] d1(1)
      in \<open>simp add: fun_upd_twist\<close>)
  then have "shop_step\<^sup>*\<^sup>* (opened d) \<lparr>s_db = d2, s_reqs = p(0 := Claimed u ra, 1 := Claimed u rb)\<rparr>"
    by (rule step) (use claim_ok [of "\<lparr>s_db = d1, s_reqs = p(0 := Claimed u ra, 1 := Seen u rb)\<rparr>" 1 u rb] d2(1)
      in simp)
  then have "shop_step\<^sup>*\<^sup>* (opened d) \<lparr>s_db = d3, s_reqs = p(0 := Granted u ra, 1 := Claimed u rb)\<rparr>"
    by (rule step) (use grant [of "\<lparr>s_db = d2, s_reqs = p(0 := Claimed u ra, 1 := Claimed u rb)\<rparr>" 0 u ra no_faults 2 now 200 d3]
      in \<open>simp add: fun_upd_twist d3_def redeem_grant_ok\<close>)
  then have "shop_step\<^sup>*\<^sup>* (opened d) \<lparr>s_db = d4, s_reqs = p(0 := Granted u ra, 1 := Granted u rb)\<rparr>"
    by (rule step) (use grant [of "\<lparr>s_db = d3, s_reqs = p(0 := Granted u ra, 1 := Claimed u rb)\<rparr>" 1 u rb no_faults 2 now 200 d4]
      in \<open>simp add: d4_def redeem_grant_ok\<close>)
  moreover have "accounts d4 = accounts (snd (redeem_grant no_faults 2 now d u rb))"
    by (simp add: d4_def d3_def redeem_grant_ok set_plan_twice d2(2) d1(2))
  ultimately show ?thesis by (intro exI [of _ "\<lparr>s_db = d4, s_reqs = p(0 := Granted u ra, 1 := Granted u rb)\<rparr>"]) simp
qed

text \<open>
  A minted code is found however the customer types it: in lower or mixed case, with blanks before or
  after it.
\<close>

theorem typed_code_roundtrip:
  assumes "to_upper t = generate_code bs" and "\<forall>c\<in>set pre. is_space c" and "\<forall>c\<in>set post. is_space c"
  shows "typed_code (pre @ t @ post) = generate_code bs"
proof -
  have "t \<noteq> []" using assms(1) by (auto simp: to_upper_def generate_code_def Let_def)
  moreover have "\<not> is_space c" if "c \<in> set t" for c
  proof
    assume "is_space c"
    moreover have "upper_char c \<in> set (generate_code bs)"
      using that unfolding assms(1) [symmetric] to_upper_def by simp
    ultimately show False using generate_code_plain upper_char_space by metis
  qed
  ultimately have "trim_space (pre @ t @ post) = t"
    using assms(2,3) by (intro trim_space_around) auto
  then show ?thesis using assms(1) by (simp add: typed_code_def)
qed

text \<open>
  The redemption limiter is an exact sliding window. Over any sequence of calls under a clock that
  does not go back, no window holds more than the allowed number of admissions of a key, whatever the other
  keys do, and the next call is admitted if and only if the window before it holds fewer.
\<close>

theorem limiter_sliding_window:
  assumes "clocked now calls" and "0 < w" and "allow_run calls (new_limiter m w) = (log, l)"
    and "last_time now calls \<le> t0" and "t0 \<le> t1"
  shows "length (in_window w t (admitted key log)) \<le> m
    \<and> (fst (allow key t0 t1 l) \<longleftrightarrow> length (in_window w t0 (admitted key log)) < m)"
proof -
  have "tracks now [] (new_limiter m w) key"
    by (auto simp: tracks_def new_limiter_def in_window_def)
  from allow_run_tracks [OF this assms(1) _ assms(3)] assms(2)
  have tr: "tracks (last_time now calls) (admitted key log) l key" "l_max l = m" "l_window l = w"
    by (simp_all add: new_limiter_def)
  then have "length (in_window w t (admitted key log)) \<le> m" by (simp add: tracks_def)
  then show ?thesis
    using allow_tracks(2) [OF tr(1) assms(4,5)] tr(2,3) assms(2) by simp
qed

text \<open>
  C19: a partner's key reaches only the partner's own codes: settling leaves every other row as it was,
  listing returns only the partner's rows, and minting stores rows of the partner and nothing else.
\<close>

theorem partner_key_is_scoped:
  assumes "auth_reseller hash opkey flt 0 d key = Some (pid, True)" and "pid \<noteq> []"
  shows "filter (\<lambda>r. rc_reseller r \<noteq> pid) (codes (snd (settle_handler hash opkey flt now key sreq d)))
           = filter (\<lambda>r. rc_reseller r \<noteq> pid) (codes d)
    \<and> (\<forall>r\<in>set (snd (list_handler hash opkey flt key lreq d)). rc_reseller r = pid)
    \<and> (\<exists>rows. codes (snd (mint_handler hash opkey flt draw sw now key mreq d)) = codes d @ rows
         \<and> (\<forall>r\<in>set rows. rc_reseller r = pid))"
proof (intro conjI)
  obtain ans d' where h: "settle_handler hash opkey flt now key sreq d = (ans, d')" by fastforce
  from h have "filter (\<lambda>r. rc_reseller r \<noteq> pid) (codes d') = filter (\<lambda>r. rc_reseller r \<noteq> pid) (codes d)"
  proof (cases rule: settle_handler_cases)
    case same
    then show ?thesis by simp
  next
    case (updated pid' scoped q r)
    then have "settle_update flt now d pid q = (r, d')" using assms(1) by auto
    then show ?thesis
    proof (cases rule: settle_update_cases)
      case (1 p f)
      have "filter (\<lambda>r. rc_reseller r \<noteq> pid) (upd_where p f rows) = filter (\<lambda>r. rc_reseller r \<noteq> pid) rows" for rows
        using 1(4,5) assms(2) by (induction rows) auto
      then show ?thesis using 1(1) by (auto simp: update_codes_def run_def split: option.splits)
    qed
  qed
  then show "filter (\<lambda>r. rc_reseller r \<noteq> pid) (codes (snd (settle_handler hash opkey flt now key sreq d)))
           = filter (\<lambda>r. rc_reseller r \<noteq> pid) (codes d)" by (simp add: h)
next
  show "\<forall>r\<in>set (snd (list_handler hash opkey flt key lreq d)). rc_reseller r = pid"
    using assms by (auto simp: list_handler_def Let_def split: sum.splits dest: list_codes_reseller)
next
  obtain ans d' where h: "mint_handler hash opkey flt draw sw now key mreq d = (ans, d')" by fastforce
  from h have "\<exists>rows. codes d' = codes d @ rows \<and> (\<forall>r\<in>set rows. rc_reseller r = pid)"
  proof (cases rule: mint_handler_cases)
    case same
    then show ?thesis by simp
  next
    case (minted pid' scoped q r retail)
    from mint_loop_stores [OF minted(6)] minted(1) assms show ?thesis
      by (fastforce simp: minted_row_def)
  qed
  then show "\<exists>rows. codes (snd (mint_handler hash opkey flt draw sw now key mreq d)) = codes d @ rows
         \<and> (\<forall>r\<in>set rows. rc_reseller r = pid)" by (simp add: h)
qed

text \<open>
  A mint request that answers 200 returns exactly the codes it stored, as many as were asked for (at
  most a hundred), all new. One that fails half-way answers 500 with no code and leaves the ones already
  stored, unredeemed and never shown to the caller.
\<close>

theorem mint_stores_what_it_returns:
  assumes "mint_handler hash opkey flt draw sw now key req d = ((st, cs), d')"
  shows "\<exists>stored row. codes d' = codes d @ map row stored \<and> distinct stored
    \<and> set stored \<inter> rc_code ` set (codes d) = {} \<and> (\<forall>c. rc_code (row c) = c \<and> rc_redeemed_by (row c) = [])
    \<and> length stored \<le> 100 \<and> (if st = 200 then cs = stored \<and> stored \<noteq> [] else cs = [])"
  using assms
proof (cases rule: mint_handler_cases)
  case same
  then show ?thesis
    by (intro exI [of _ "[]"] exI [of _ "minted_row [] [] 0 [] 0 0"]) (auto simp: minted_row_def)
next
  case (minted pid scoped q r retail)
  from mint_loop_stores [OF minted(6)] obtain stored row where st: "codes d' = codes d @ map row stored" "distinct stored"
    "set stored \<inter> rc_code ` set (codes d) = {}" "\<forall>c. rc_code (row c) = c \<and> rc_redeemed_by (row c) = []"
    "case r of None \<Rightarrow> length stored < nat (if mr_quantity q \<le> 0 then 1 else mr_quantity q)
       | Some cs \<Rightarrow> stored = cs \<and> length cs = nat (if mr_quantity q \<le> 0 then 1 else mr_quantity q)"
    by (auto simp: minted_row_def)
  show ?thesis
    using st minted(3,7) by (intro exI [of _ stored] exI [of _ row]) (auto split: option.splits if_splits)
qed

text \<open>
  A code whose grant fails is lost. The claim is committed before the plan is written, so after the
  answer 500 the account is as before, the code counts as used, and trying it again answers 409.
\<close>

theorem failed_grant_burns_code:
  assumes "redeem_code flt now l ip u (Some raw) d = (500, d', l')" and "flt 0 = None" and "flt 1 = None"
    and "flt 2 \<noteq> None" and "u_id u \<noteq> []" and "codes_ok d"
  shows "accounts d' = accounts d \<and> redeem_read no_faults k d' (typed_code raw) = Inl 409"
proof -
  let ?c = "typed_code raw"
  obtain rc where rc: "redeem_read flt 0 d ?c = Inr rc"
    using assms(1,2) by (auto simp: redeem_code_def redeem_read_def Let_def case_prod_unfold split: if_splits sum.splits)
  note r = redeem_read_InrD [OF rc]
  obtain r1 d1 where cl: "redeem_claim flt 1 now d ?c (u_id u) = (r1, d1)" by fastforce
  have r1: "r1 = Inr ()"
  proof (cases r1)
    case (Inl st)
    then have "st = 500" using assms(1) rc cl by (auto simp: redeem_code_def Let_def case_prod_unfold split: if_splits)
    then show ?thesis
      using Inl cl assms(3) by (auto simp: redeem_claim_def mark_redeemed_def run_def Let_def split: if_splits)
  qed simp
  have acc: "accounts d1 = accounts d"
    using cl by (auto simp: redeem_claim_def mark_redeemed_def run_def Let_def split: option.splits if_splits)
  have d': "accounts d' = accounts d1" "codes d' = codes d1"
    using assms(1,4) rc cl r1
    by (auto simp: redeem_code_def redeem_grant_def update_plan_def run_def Let_def case_prod_unfold split: if_splits option.splits)
  have ok: "codes_ok d'" using keeps_ok [OF keeps_claim [OF assms(6) cl]] d'(2) by (simp add: codes_ok_def)
  obtain x where x: "x \<in> set (codes d')" "rc_code x = ?c" "rc_redeemed_by x = u_id u"
    using claim_success(2) [OF cl [unfolded r1]] d'(2) by auto
  then have "find (\<lambda>r. rc_code r = ?c) (codes d') = Some x"
    using find_by_key [of rc_code "codes d'" x] ok by (simp add: codes_ok_def)
  moreover have "?c \<noteq> []" using rc by (auto simp: redeem_read_def)
  ultimately show ?thesis
    using acc d'(1) x(3) assms(5) by (simp add: redeem_read_def get_code_def redeemed_def)
qed

text \<open>
  A code for a number of days gives at least that many days up to 106751 days, the most that fit a
  64-bit count of nanoseconds. One day more, which minting accepts, wraps around and leaves an account
  without a plan expired.
\<close>

theorem days_code_bounds:
  assumes "0 < n" and "n \<le> 106751"
  shows "now + n * day \<le> redeem_expiry now ''days'' n u
    \<and> redeem_expiry now ''days'' 106752 (u\<lparr>u_plan := ''free''\<rparr>) < now"
proof -
  have "days_duration n = n * day"
    using assms by (simp add: days_duration_def wrap64_id in64_def)
  moreover have "days_duration 106752 < 0" by (simp add: days_duration_def wrap64_def)
  ultimately show ?thesis by (simp add: redeem_expiry_def until_def Let_def)
qed

section \<open>Witnesses\<close>

definition code_row :: "string \<Rightarrow> reseller_code" where
  "code_row c = minted_row ''pro'' ''monthly'' 0 ''p1'' 899 0 c"

definition sample_shop :: shop_db where
  "sample_shop = \<lparr>codes = [code_row ''AA'', code_row ''BB''],
     partners = [\<lparr>p_id = ''p1'', p_name = [], p_key_hash = ''h1'', p_suppress_welcome = False, p_active = True\<rparr>],
     accounts = billing_db\<rparr>"

lemmas shop_eval = sample_shop_def code_row_def minted_row_def codes_ok_def redeem_read_def get_code_def redeemed_def

lemma sample_reads:
  "redeem_read no_faults 0 sample_shop (typed_code '' aa'') = Inr (code_row ''AA'')"
  "redeem_read no_faults 0 sample_shop (typed_code ''bb'') = Inr (code_row ''BB'')"
proof -
  have "typed_code '' aa'' = ''AA''" "typed_code ''bb'' = ''BB''" "get_plan ''pro'' \<noteq> None" by code_simp+
  then show "redeem_read no_faults 0 sample_shop (typed_code '' aa'') = Inr (code_row ''AA'')"
    "redeem_read no_faults 0 sample_shop (typed_code ''bb'') = Inr (code_row ''BB'')"
    by (simp_all add: shop_eval)
qed

lemma sample_two_claims:
  "\<exists>s. shop_step\<^sup>*\<^sup>* (opened sample_shop) s \<and> claim_of (s_reqs s 0) = Some (''AA'', ''u1'')"
proof -
  let ?u = "sample_user" and ?r = "code_row ''AA''"
  have id: "u_id ?u = ''u1''" "rc_code ?r = ''AA''" "rc_redeemed_by ?r = []"
    by (simp_all add: sample_user_def code_row_def minted_row_def)
  obtain d1 where d1: "redeem_claim no_faults 1 0 sample_shop (rc_code ?r) (u_id ?u) = (Inr (), d1)"
    using redeem_claim_ok [of sample_shop ?r 1 0 "u_id ?u"] id by (auto simp: shop_eval)
  have "shop_step (opened sample_shop) (\<lparr>s_db = sample_shop, s_reqs = (\<lambda>_. Idle)(0 := Seen ?u ?r)\<rparr>)"
    using read_ok [of "opened sample_shop" 0 ?u no_faults 0 "'' aa''" ?r] sample_reads(1) id by (simp add: opened_def)
  moreover have "shop_step (\<lparr>s_db = sample_shop, s_reqs = (\<lambda>_. Idle)(0 := Seen ?u ?r)\<rparr>)
      (\<lparr>s_db = d1, s_reqs = (\<lambda>_. Idle)(0 := Claimed ?u ?r)\<rparr>)"
    using claim_ok [of "\<lparr>s_db = sample_shop, s_reqs = (\<lambda>_. Idle)(0 := Seen ?u ?r)\<rparr>" 0 ?u ?r no_faults 1 0 d1] d1 by simp
  ultimately have "shop_step\<^sup>*\<^sup>* (opened sample_shop) (\<lparr>s_db = d1, s_reqs = (\<lambda>_. Idle)(0 := Claimed ?u ?r)\<rparr>)"
    by (meson r_into_rtranclp rtranclp.rtrancl_into_rtrancl)
  then show ?thesis using id by (intro exI) auto
qed

theorem redeem_once_witness:
  "\<exists>s. shop_step\<^sup>*\<^sup>* (opened sample_shop) s \<and> claim_of (s_reqs s 0) = Some (''AA'', ''u1'')
     \<and> (\<exists>r\<in>set (codes (s_db s)). rc_code r = ''AA'' \<and> rc_redeemed_by r = ''u1'')"
proof -
  obtain s where s: "shop_step\<^sup>*\<^sup>* (opened sample_shop) s" "claim_of (s_reqs s 0) = Some (''AA'', ''u1'')"
    using sample_two_claims by blast
  then show ?thesis
    using redeem_once [OF s(1) _ s(2) s(2)] by (auto simp: shop_eval)
qed

theorem concurrent_codes_lose_time_witness:
  "\<exists>s. shop_step\<^sup>*\<^sup>* (opened sample_shop) s \<and> s_reqs s 0 = Granted sample_user (code_row ''AA'')
     \<and> s_reqs s 1 = Granted sample_user (code_row ''BB'')
     \<and> accounts (s_db s) = accounts (snd (redeem_grant no_faults 2 0 sample_shop sample_user (code_row ''BB'')))"
  by (rule concurrent_codes_lose_time [OF _ _ _ sample_reads])
     (simp_all add: shop_eval sample_user_def)

theorem typed_code_roundtrip_witness:
  "typed_code ('' '' @ to_lower (generate_code [0, 1, 2, 3, 4, 5, 6, 7, 8, 9, 10, 11]) @ []) = ''TRN-ABCD-EFGH-JKLM''"
proof -
  let ?bs = "[0, 1, 2, 3, 4, 5, 6, 7, 8, 9, 10, 11]"
  have up: "to_upper (to_lower (generate_code ?bs)) = generate_code ?bs"
    and code: "generate_code ?bs = ''TRN-ABCD-EFGH-JKLM''" and blank: "\<forall>c\<in>set '' ''. is_space c" "\<forall>c\<in>set []. is_space c"
    by code_simp+
  show ?thesis
    using typed_code_roundtrip [OF up blank] unfolding code .
qed

theorem limiter_sliding_window_witness:
  "\<not> fst (allow ''a'' 30 30 (snd (allow_run [(''a'', 1, 1), (''b'', 2, 2), (''a'', 3, 4)] (new_limiter 2 60))))"
proof -
  let ?r = "allow_run [(''a'', 1, 1), (''b'', 2, 2), (''a'', 3, 4)] (new_limiter 2 60)"
  have log: "fst ?r = [(''a'', 1), (''b'', 2), (''a'', 4)]"
    by (simp add: allow_def new_limiter_def Let_def)
  then have run: "?r = ([(''a'', 1), (''b'', 2), (''a'', 4)], snd ?r)" by (metis prod.collapse)
  show ?thesis
    using limiter_sliding_window [OF _ _ run, of 0 30 30 0 "''a''"]
    by (simp add: in_window_def del: allow_run.simps)
qed

theorem partner_key_is_scoped_witness:
  "filter (\<lambda>r. rc_reseller r \<noteq> ''p1'') (codes (snd (settle_handler (\<lambda>_. ''h1'') ''op'' no_faults 5 ''k''
      (Some \<lparr>sr_reseller = ''p2'', sr_code = [], sr_ref = [], sr_undo = False\<rparr>)
      (sample_shop\<lparr>codes := [code_row ''AA'', (code_row ''BB'')\<lparr>rc_reseller := ''p2''\<rparr>]\<rparr>))))
    = [(code_row ''BB'')\<lparr>rc_reseller := ''p2''\<rparr>]"
proof -
  let ?d = "sample_shop\<lparr>codes := [code_row ''AA'', (code_row ''BB'')\<lparr>rc_reseller := ''p2''\<rparr>]\<rparr>"
  have "auth_reseller (\<lambda>_. ''h1'') ''op'' no_faults 0 ?d ''k'' = Some (''p1'', True)"
    by (simp add: auth_reseller_def partner_by_key_hash_def sample_shop_def)
  from partner_key_is_scoped [OF this, THEN conjunct1]
  show ?thesis by (simp add: code_row_def minted_row_def)
qed

definition sample_mint :: "(nat \<times> string list) \<times> shop_db" where
  "sample_mint = mint_handler (\<lambda>_. ''h1'') ''op'' no_faults (\<lambda>_. replicate 12 0)
     \<lparr>lifetime_enabled = False, black_friday = False, day_plans_enabled = False\<rparr> 7 ''op''
     (Some \<lparr>mr_plan = ''pro'', mr_period = ''monthly'', mr_days = 0, mr_quantity = 0, mr_reseller = []\<rparr>) sample_shop"

theorem mint_stores_what_it_returns_witness:
  "\<exists>row. codes (snd sample_mint) = codes sample_shop @ [row ''TRN-AAAA-AAAA-AAAA''] \<and> rc_code (row ''x'') = ''x''"
proof -
  have "fst sample_mint = (200, [''TRN-AAAA-AAAA-AAAA''])" by code_simp
  then have "sample_mint = ((200, [''TRN-AAAA-AAAA-AAAA'']), snd sample_mint)" by (simp add: prod_eq_iff)
  from mint_stores_what_it_returns [OF this [unfolded sample_mint_def]] show ?thesis
    unfolding sample_mint_def by fastforce
qed

theorem failed_grant_burns_code_witness:
  "redeem_read no_faults 0 (fst (snd (redeem_code (\<lambda>k. if k = 2 then Some (AuthDBError []) else None) 0 redeem_limiter ''ip'' sample_user
      (Some '' aa'') sample_shop))) (typed_code '' aa'') = Inl 409"
proof -
  let ?flt = "\<lambda>k. if k = 2 then Some (AuthDBError []) else None"
  let ?r = "redeem_code ?flt 0 redeem_limiter ''ip'' sample_user (Some '' aa'') sample_shop"
  have t: "typed_code '' aa'' = ''AA''" "get_plan ''pro'' \<noteq> None" by code_simp+
  have rd: "redeem_read ?flt 0 sample_shop ''AA'' = Inr (code_row ''AA'')"
    using t(2) by (simp add: shop_eval run_def)
  have al: "fst (allow ''ip'' 0 0 redeem_limiter)" by (simp add: allow_def redeem_limiter_def new_limiter_def)
  have cl: "fst (redeem_claim ?flt 1 0 sample_shop ''AA'' (u_id sample_user)) = Inr ()"
    by (simp add: redeem_claim_def mark_redeemed_def run_def Let_def shop_eval)
  have gr: "fst (redeem_grant ?flt 2 0 d u rc) = 500" for d u rc
    by (simp add: redeem_grant_def update_plan_def run_def)
  have "fst ?r = 500"
    using al cl gr by (simp add: redeem_code_def t(1) rd case_prod_unfold Let_def split: sum.splits)
  then have "?r = (500, fst (snd ?r), snd (snd ?r))" by (simp add: prod_eq_iff)
  from failed_grant_burns_code [OF this] show ?thesis
    by (simp add: sample_user_def shop_eval)
qed

theorem days_code_bounds_witness:
  "30 * day \<le> redeem_expiry 0 ''days'' 30 sample_user
    \<and> redeem_expiry 0 ''days'' 106752 (sample_user\<lparr>u_plan := ''free''\<rparr>) < 0"
  using days_code_bounds [of 30 0 sample_user] by simp

end
