(* ===== verification/Go_Base64.thy ===== *)
theory Go_Base64
  imports Go_Strings
begin

text \<open>
  \<open>base64.RawURLEncoding\<close> and \<open>base64.RawStdEncoding\<close>: three bytes are four letters of an
  alphabet, the tail has no padding. The decoder skips line ends and does not look at the unused
  bits of the last letter.
\<close>

definition url_alphabet :: string where
  "url_alphabet = ''ABCDEFGHIJKLMNOPQRSTUVWXYZabcdefghijklmnopqrstuvwxyz0123456789-_''"

definition std_alphabet :: string where
  "std_alphabet = ''ABCDEFGHIJKLMNOPQRSTUVWXYZabcdefghijklmnopqrstuvwxyz0123456789+/''"

fun to_sextets :: "nat list \<Rightarrow> nat list" where
  "to_sextets [] = []"
| "to_sextets [a] = [a div 4, a mod 4 * 16]"
| "to_sextets [a, b] = [a div 4, a mod 4 * 16 + b div 16, b mod 16 * 4]"
| "to_sextets (a # b # c # r) = a div 4 # (a mod 4 * 16 + b div 16) # (b mod 16 * 4 + c div 64) # c mod 64 # to_sextets r"

fun of_sextets :: "nat list \<Rightarrow> nat list option" where
  "of_sextets [] = Some []"
| "of_sextets [x] = None"
| "of_sextets [x, y] = Some [x * 4 + y div 16]"
| "of_sextets [x, y, z] = Some [x * 4 + y div 16, y mod 16 * 16 + z div 4]"
| "of_sextets (w # x # y # z # r) =
     map_option (\<lambda>bs. (w * 4 + x div 16) # (x mod 16 * 16 + y div 4) # (y mod 4 * 64 + z) # bs) (of_sextets r)"

definition b64_encode :: "string \<Rightarrow> nat list \<Rightarrow> string" where
  "b64_encode alphabet bs = map (\<lambda>x. alphabet ! x) (to_sextets bs)"

definition b64_decode :: "string \<Rightarrow> string \<Rightarrow> nat list option" where
  "b64_decode alphabet s =
     (let t = filter (\<lambda>c. code_of c \<noteq> 10 \<and> code_of c \<noteq> 13) s in
      if list_all (\<lambda>c. c \<in> set alphabet) t
      then of_sextets (map (\<lambda>c. the (index_byte alphabet c)) t) else None)"

definition bytes_of :: "string \<Rightarrow> nat list" where
  "bytes_of s = map code_of s"

definition string_of :: "nat list \<Rightarrow> string" where
  "string_of bs = map char_of bs"

lemma string_of_bytes [simp]: "string_of (bytes_of s) = s"
  by (simp add: string_of_def bytes_of_def comp_def code_of_def)

lemma bytes_of_lt: "\<forall>b\<in>set (bytes_of s). b < 256"
  by (auto simp: bytes_of_def)

lemma sextet_1: "b < (256::nat) \<Longrightarrow> a div 4 * 4 + (a mod 4 * 16 + b div 16) div 16 = a"
proof -
  assume "b < 256"
  then have "b div 16 < 16" by simp
  then show ?thesis by simp
qed

lemma sextet_2:
  assumes "b < (256::nat)" "c < (256::nat)"
  shows "(a mod 4 * 16 + b div 16) mod 16 * 16 + (b mod 16 * 4 + c div 64) div 4 = b"
proof -
  have "b div 16 < 16" "c div 64 < 4" using assms by simp_all
  then have "(a mod 4 * 16 + b div 16) mod 16 = b div 16" "(b mod 16 * 4 + c div 64) div 4 = b mod 16"
    by simp_all
  then show ?thesis by simp
qed

lemma sextet_3: "c < (256::nat) \<Longrightarrow> (b mod 16 * 4 + c div 64) mod 4 * 64 + c mod 64 = c"
proof -
  assume "c < 256"
  then have "c div 64 < 4" by simp
  then have "(b mod 16 * 4 + c div 64) mod 4 = c div 64" by simp
  then show ?thesis by simp
qed

lemmas sextet_arith = sextet_1 sextet_2 sextet_3

lemma of_to_sextets: "\<forall>b\<in>set bs. b < 256 \<Longrightarrow> of_sextets (to_sextets bs) = Some bs"
proof (induction bs rule: to_sextets.induct)
  case (4 a b c r)
  then have lt: "b < 256" "c < 256" and IH: "of_sextets (to_sextets r) = Some r" by simp_all
  show ?case
    unfolding to_sextets.simps of_sextets.simps IH sextet_1 [OF lt(1)] sextet_2 [OF lt] sextet_3 [OF lt(2)] by simp
next
  case (3 a b)
  then show ?case using sextet_1 [of b a] sextet_2 [of b 0 a] by simp
qed simp_all

lemma to_sextets_lt: "\<forall>b\<in>set bs. b < 256 \<Longrightarrow> x \<in> set (to_sextets bs) \<Longrightarrow> x < 64"
proof (induction bs rule: to_sextets.induct)
  case (4 a b c r)
  have "b div 16 < 16" "c div 64 < 4" "a mod 4 < 4" "b mod 16 < 16" "a div 4 < 64" using 4(2) by auto
  then show ?case using 4 by auto
next
  case (3 a b)
  have "b div 16 < 16" "a mod 4 < 4" "b mod 16 < 16" "a div 4 < 64" using 3 by auto
  then show ?case using 3 by auto
next
  case (2 a)
  have "a mod 4 < 4" "a div 4 < 64" using 2 by auto
  then show ?case using 2 by auto
qed simp

definition good_alphabet :: "string \<Rightarrow> bool" where
  "good_alphabet al \<longleftrightarrow> list_all (\<lambda>x. index_byte al (al ! x) = Some x \<and> code_of (al ! x) > 13
     \<and> al ! x \<in> set al \<and> al ! x \<noteq> CHR ''.'') [0..<64]"

lemma url_alphabet_good [simp, intro]: "good_alphabet url_alphabet"
  by code_simp

lemma std_alphabet_good [simp, intro]: "good_alphabet std_alphabet"
  by code_simp

lemma alphabet_nth:
  "good_alphabet al \<Longrightarrow> x < 64 \<Longrightarrow> index_byte al (al ! x) = Some x \<and> code_of (al ! x) > 13
     \<and> al ! x \<in> set al \<and> al ! x \<noteq> CHR ''.''"
  by (simp add: good_alphabet_def list_all_iff)

lemma b64_decode_encode:
  assumes "good_alphabet al" "\<forall>b\<in>set bs. b < 256"
  shows "b64_decode al (b64_encode al bs) = Some bs"
proof -
  note nth = alphabet_nth [OF assms(1) to_sextets_lt [OF assms(2)]]
  have f: "filter (\<lambda>c. code_of c \<noteq> 10 \<and> code_of c \<noteq> 13) (b64_encode al bs) = b64_encode al bs"
    using nth by (fastforce simp: filter_id_conv b64_encode_def)
  have "map (\<lambda>c. the (index_byte al c)) (b64_encode al bs) = to_sextets bs"
    using nth by (auto simp: b64_encode_def comp_def intro!: map_idI)
  moreover have "list_all (\<lambda>c. c \<in> set al) (b64_encode al bs)"
    using nth by (auto simp: b64_encode_def list_all_iff)
  ultimately show ?thesis
    by (simp add: b64_decode_def f of_to_sextets [OF assms(2)] Let_def)
qed

lemma b64_encode_no_dot: "good_alphabet al \<Longrightarrow> \<forall>b\<in>set bs. b < 256 \<Longrightarrow> CHR ''.'' \<notin> set (b64_encode al bs)"
  using to_sextets_lt alphabet_nth by (fastforce simp: b64_encode_def)

lemma b64_encode_inj: "good_alphabet al \<Longrightarrow> b64_encode al (bytes_of s) = b64_encode al (bytes_of t) \<Longrightarrow> s = t"
  by (metis b64_decode_encode bytes_of_lt option.inject string_of_bytes)

end
