(* ===== verification/Field_Cipher.thy ===== *)
theory Field_Cipher
  imports Go_Base64
begin

text \<open>
  \<open>shared/crypto/crypto.go\<close>: the credentials stored in the database are sealed with AES-GCM under the
  server's key, marked by a prefix, and pass unchanged when there is no key. The authenticated cipher is
  the standard library's: a parameter with the documented law that a sealed text opens under its nonce.
\<close>

record aead =
  nonce_size :: nat
  seal :: "nat list \<Rightarrow> nat list \<Rightarrow> nat list"
  unseal :: "nat list \<Rightarrow> nat list \<Rightarrow> nat list option"

definition cipher_marker :: string where "cipher_marker = ''enc:v1:''"

text \<open>The cipher of a hex key: an empty key is no cipher, a key of another length than AES's is an error.\<close>

definition new_cipher :: "(nat list \<Rightarrow> aead) \<Rightarrow> string \<Rightarrow> unit + aead option" where
  "new_cipher gcm hex_key =
     (if hex_key = [] then Inr None
      else case hex_decode hex_key of None \<Rightarrow> Inl ()
      | Some key \<Rightarrow> if length key \<in> {16, 24, 32} then Inr (Some (gcm key)) else Inl ())"

text \<open>\<open>nonce\<close> is what the random source delivers; when it fails the text is stored in clear.\<close>

definition cipher_encrypt :: "aead option \<Rightarrow> nat list option \<Rightarrow> string \<Rightarrow> string" where
  "cipher_encrypt c nonce plain =
     (case c of None \<Rightarrow> plain
      | Some a \<Rightarrow>
          if plain = [] \<or> has_prefix plain cipher_marker then plain
          else (case nonce of None \<Rightarrow> plain
                | Some n \<Rightarrow> cipher_marker @ b64_encode std_alphabet (n @ seal a n (bytes_of plain))))"

definition cipher_decrypt :: "aead option \<Rightarrow> string \<Rightarrow> string" where
  "cipher_decrypt c stored =
     (case c of None \<Rightarrow> stored
      | Some a \<Rightarrow>
          if \<not> has_prefix stored cipher_marker then stored
          else case b64_decode std_alphabet (trim_prefix stored cipher_marker) of None \<Rightarrow> stored
          | Some raw \<Rightarrow>
              if length raw < nonce_size a then stored
              else case unseal a (take (nonce_size a) raw) (drop (nonce_size a) raw) of None \<Rightarrow> stored
              | Some bs \<Rightarrow> string_of bs)"

definition aead_right :: "aead \<Rightarrow> bool" where
  "aead_right a \<longleftrightarrow> (\<forall>n p. length n = nonce_size a \<longrightarrow> unseal a n (seal a n p) = Some p)
     \<and> (\<forall>n p. (\<forall>b\<in>set n. b < 256) \<and> (\<forall>b\<in>set p. b < 256) \<longrightarrow> (\<forall>b\<in>set (seal a n p). b < 256))"

lemma decrypt_encrypt:
  assumes "aead_right a" "length n = nonce_size a" "\<forall>b\<in>set n. b < 256" "\<not> has_prefix v cipher_marker"
  shows "cipher_decrypt (Some a) (cipher_encrypt (Some a) (Some n) v) = v"
proof (cases "v = []")
  case True
  then show ?thesis using assms(4) by (simp add: cipher_encrypt_def cipher_decrypt_def)
next
  case False
  have b: "\<forall>b\<in>set (n @ seal a n (bytes_of v)). b < 256"
  proof -
    have "\<forall>b\<in>set (seal a n (bytes_of v)). b < 256"
      using conjunct2 [OF assms(1) [unfolded aead_right_def], rule_format, of n "bytes_of v"] assms(3) bytes_of_lt by blast
    then show ?thesis using assms(3) by auto
  qed
  have un: "unseal a n (seal a n (bytes_of v)) = Some (bytes_of v)"
    using assms(1,2) unfolding aead_right_def by blast
  have enc: "cipher_encrypt (Some a) (Some n) v = cipher_marker @ b64_encode std_alphabet (n @ seal a n (bytes_of v))"
    using False assms(4) by (simp add: cipher_encrypt_def)
  show ?thesis
    unfolding enc cipher_decrypt_def using b64_decode_encode [OF std_alphabet_good b] assms(2) un by simp
qed

text \<open>
  A stored credential reads back: what was sealed opens to the same text, a text stored before the
  key was set passes unchanged. A credential that itself begins with the marker is the exception: it is stored in clear.
\<close>

theorem credential_roundtrip:
  assumes "aead_right a" and "length n = nonce_size a" and "\<forall>b\<in>set n. b < 256" and "\<not> has_prefix v cipher_marker"
  shows "cipher_decrypt (Some a) (cipher_encrypt (Some a) (Some n) v) = v
    \<and> cipher_decrypt (Some a) (cipher_encrypt None nonce v) = v
    \<and> (v \<noteq> [] \<longrightarrow> has_prefix (cipher_encrypt (Some a) (Some n) v) cipher_marker)
    \<and> cipher_encrypt (Some a) (Some n) (cipher_marker @ w) = cipher_marker @ w"
  using decrypt_encrypt [OF assms] assms(4)
  by (simp add: cipher_encrypt_def cipher_decrypt_def)

definition xor_aead :: aead where
  "xor_aead = \<lparr>nonce_size = 1, seal = (\<lambda>n p. p @ n), unseal = (\<lambda>n c. if c \<noteq> [] \<and> [last c] = n then Some (butlast c) else None)\<rparr>"

lemma xor_aead_right: "aead_right xor_aead"
  by (auto simp: aead_right_def xor_aead_def length_Suc_conv)

theorem credential_roundtrip_witness:
  "cipher_decrypt (Some xor_aead) (cipher_encrypt (Some xor_aead) (Some [7]) ''key'') = ''key''"
proof -
  have "\<not> has_prefix ''key'' cipher_marker" by code_simp
  then show ?thesis
    using credential_roundtrip [OF xor_aead_right, of "[7]" "''key''" None "[]"] by (simp add: xor_aead_def)
qed

end
