(* ===== verification/Sign_In.thy ===== *)
theory Sign_In
  imports Reseller Field_Cipher
begin

text \<open>
  Signing in: the signed tokens of \<open>shared/auth/session.go\<close>, passwords (\<open>password.go\<close>), one-time
  codes by mail (\<open>login_otp.go\<close>), two-factor secrets and backup codes (\<open>mfa.go\<close>), API keys
  (\<open>apikeys.go\<close>), the audit log, and the handlers of \<open>api/internal/handlers/login.go\<close>, \<open>mfa.go\<close>
  and \<open>apikeys.go\<close>. HMAC-SHA256 under the server's key, bcrypt and the TOTP check are arguments in a
  record \<open>sign_lib\<close>; what is drawn at random comes as an argument. Statements are numbered for
  faults; a read whose error the code ignores leaves the zero value.
\<close>

section \<open>Tables\<close>

record backup_row =
  bk_id :: string
  bk_user :: string
  bk_hash :: string
  bk_used :: "int option"

record otp_row =
  ot_user :: string
  ot_hash :: string
  ot_attempts :: int
  ot_expires :: int

record key_row =
  ak_id :: string
  ak_user :: string
  ak_key :: string
  ak_label :: string
  ak_login :: bool
  ak_created :: int
  ak_last_used :: "int option"
  ak_revoked :: "int option"

record audit_row =
  au_user :: string
  au_action :: string
  au_detail :: string
  au_ip :: string
  au_at :: int

text \<open>Two columns of \<open>users\<close> that the record \<open>user\<close> does not carry are maps from the user's id.\<close>

record sign_db =
  sg_auth :: auth_db
  sg_password :: "string \<Rightarrow> string"
  sg_secret :: "string \<Rightarrow> string"
  sg_backups :: "backup_row list"
  sg_otps :: "otp_row list"
  sg_keys :: "key_row list"
  sg_audit :: "audit_row list"

record sign_lib =
  lb_hmac :: "nat list \<Rightarrow> nat list"
  lb_hash :: "string \<Rightarrow> string \<Rightarrow> string option"
  lb_matches :: "string \<Rightarrow> string \<Rightarrow> bool"
  lb_totp :: "int \<Rightarrow> string \<Rightarrow> string \<Rightarrow> bool"
  lb_cipher :: "aead option"

definition has_user :: "sign_db \<Rightarrow> string \<Rightarrow> bool" where
  "has_user d i \<longleftrightarrow> list_ex (\<lambda>u. u_id u = i) (users (sg_auth d))"

definition audit_log :: "auth_error faults \<Rightarrow> nat \<Rightarrow> int \<Rightarrow> sign_db \<Rightarrow> string \<Rightarrow> string \<Rightarrow> string \<Rightarrow> string \<Rightarrow> sign_db" where
  "audit_log flt k now d u action detail ip =
     (if flt k \<noteq> None then d else
      d\<lparr>sg_audit := sg_audit d @ [\<lparr>au_user = u, au_action = action, au_detail = detail, au_ip = ip, au_at = now\<rparr>]\<rparr>)"

definition signups_from_ip :: "auth_error faults \<Rightarrow> nat \<Rightarrow> sign_db \<Rightarrow> string \<Rightarrow> int \<Rightarrow> nat" where
  "signups_from_ip flt k d ip since =
     (if flt k \<noteq> None then 0
      else count_where (\<lambda>a. au_action a = ''account_created'' \<and> au_ip a = ip \<and> since \<le> au_at a) (sg_audit d))"

definition get_audit_log :: "sign_db \<Rightarrow> string \<Rightarrow> int \<Rightarrow> audit_row list" where
  "get_audit_log d u cap =
     take (nat (if cap \<le> 0 then 50 else cap)) (sort_key (\<lambda>a. - au_at a) (filter (\<lambda>a. au_user a = u) (sg_audit d)))"

section \<open>Tokens\<close>

text \<open>
  The JSON texts that are signed, for ids without characters that JSON escapes (\<open>newID\<close> draws a
  UUID or hex digits), and their reading. A text of any other form is never signed, so its reading does not
  matter and is \<open>None\<close> here.
\<close>

definition quote_char :: char where "quote_char = CHR 0x22"

definition plain_id :: "string \<Rightarrow> bool" where
  "plain_id s \<longleftrightarrow> list_all (\<lambda>c. in_range 48 57 c \<or> in_range 97 122 c \<or> c = CHR ''-'') s"

definition session_payload :: "string \<Rightarrow> int \<Rightarrow> string" where
  "session_payload uid ex = ''{\"uid\":\"'' @ uid @ ''\",\"exp\":'' @ show_int ex @ ''}''"

definition challenge_payload :: "string \<Rightarrow> string \<Rightarrow> int \<Rightarrow> string" where
  "challenge_payload uid factor ex =
     ''{\"uid\":\"'' @ uid @ ''\",\"f\":\"'' @ factor @ ''\",\"exp\":'' @ show_int ex @ ''}''"

definition expect :: "string \<Rightarrow> string \<Rightarrow> string option" where
  "expect p s = (if has_prefix s p then Some (drop (length p) s) else None)"

text \<open>A JSON string up to its closing quote, and the number before the closing brace.\<close>

definition until_quote :: "string \<Rightarrow> (string \<times> string) option" where
  "until_quote s = (case index_byte s quote_char of None \<Rightarrow> None | Some i \<Rightarrow> Some (take i s, drop i s))"

definition closing_int :: "string \<Rightarrow> int option" where
  "closing_int s = (if s \<noteq> [] \<and> last s = CHR ''}'' \<and> snd (parse_int (butlast s)) then Some (fst (parse_int (butlast s))) else None)"

definition parse_session :: "string \<Rightarrow> (string \<times> int) option" where
  "parse_session s =
     Option.bind (expect ''{\"uid\":\"'' s) (\<lambda>r.
     Option.bind (until_quote r) (\<lambda>(uid, r1).
     Option.bind (expect ''\",\"exp\":'' r1) (\<lambda>r2.
     map_option (\<lambda>ex. (uid, ex)) (closing_int r2))))"

definition parse_challenge :: "string \<Rightarrow> (string \<times> string \<times> int) option" where
  "parse_challenge s =
     Option.bind (expect ''{\"uid\":\"'' s) (\<lambda>r.
     Option.bind (until_quote r) (\<lambda>(uid, r1).
     Option.bind (expect ''\",\"f\":\"'' r1) (\<lambda>r2.
     Option.bind (until_quote r2) (\<lambda>(factor, r3).
     Option.bind (expect ''\",\"exp\":'' r3) (\<lambda>r4.
     map_option (\<lambda>ex. (uid, factor, ex)) (closing_int r4))))))"

text \<open>Each kind of token has its own prefix under the one key.\<close>

definition token_mac :: "sign_lib \<Rightarrow> string \<Rightarrow> string \<Rightarrow> string" where
  "token_mac lib domain body = b64_encode url_alphabet (lb_hmac lib (bytes_of (domain @ body)))"

definition session_mac :: "sign_lib \<Rightarrow> string \<Rightarrow> string" where
  "session_mac lib body = token_mac lib ''mfa-session:'' body"

definition challenge_mac :: "sign_lib \<Rightarrow> string \<Rightarrow> string" where
  "challenge_mac lib body = token_mac lib ''login-challenge:'' body"

definition sign_session :: "sign_lib \<Rightarrow> int \<Rightarrow> string \<Rightarrow> int \<Rightarrow> string" where
  "sign_session lib now uid ttl =
     (let body = b64_encode url_alphabet (bytes_of (session_payload uid (now + ttl)))
      in body @ ''.'' @ session_mac lib body)"

definition verify_session :: "sign_lib \<Rightarrow> int \<Rightarrow> string \<Rightarrow> string option" where
  "verify_session lib now token =
     (let (body, sig, ok) = cut token ''.'' in
      if \<not> ok \<or> sig \<noteq> session_mac lib body then None
      else case b64_decode url_alphabet body of None \<Rightarrow> None
      | Some raw \<Rightarrow> (case parse_session (string_of raw) of None \<Rightarrow> None
          | Some (uid, ex) \<Rightarrow> if ex < now then None else Some uid))"

definition sign_challenge :: "sign_lib \<Rightarrow> int \<Rightarrow> string \<Rightarrow> string \<Rightarrow> int \<Rightarrow> string" where
  "sign_challenge lib now uid factor ttl =
     (let body = b64_encode url_alphabet (bytes_of (challenge_payload uid factor (now + ttl)))
      in body @ ''.'' @ challenge_mac lib body)"

definition verify_challenge :: "sign_lib \<Rightarrow> int \<Rightarrow> string \<Rightarrow> (string \<times> string) option" where
  "verify_challenge lib now token =
     (let (body, sig, ok) = cut token ''.'' in
      if \<not> ok \<or> sig \<noteq> challenge_mac lib body then None
      else case b64_decode url_alphabet body of None \<Rightarrow> None
      | Some raw \<Rightarrow> (case parse_challenge (string_of raw) of None \<Rightarrow> None
          | Some (uid, factor, ex) \<Rightarrow> if ex < now then None else Some (uid, factor)))"

section \<open>Passwords\<close>

definition set_password :: "sign_lib \<Rightarrow> auth_error faults \<Rightarrow> nat \<Rightarrow> string \<Rightarrow> sign_db \<Rightarrow> string \<Rightarrow> string
    \<Rightarrow> (auth_error + unit) \<times> sign_db" where
  "set_password lib flt k salt d u plain =
     (if length plain < 8 then (Inl (AuthRefused ''password must be at least 8 characters''), d)
      else case lb_hash lib salt plain of None \<Rightarrow> (Inl (AuthRefused ''password too long''), d)
      | Some h \<Rightarrow> (case run flt k () of Inl e \<Rightarrow> (Inl e, d)
          | Inr _ \<Rightarrow> (Inr (), if has_user d u then d\<lparr>sg_password := (sg_password d)(u := h)\<rparr> else d)))"

definition password_hash :: "auth_error faults \<Rightarrow> nat \<Rightarrow> sign_db \<Rightarrow> string \<Rightarrow> string" where
  "password_hash flt k d u = (if flt k \<noteq> None \<or> \<not> has_user d u then [] else trim_space (sg_password d u))"

definition check_password :: "sign_lib \<Rightarrow> auth_error faults \<Rightarrow> nat \<Rightarrow> sign_db \<Rightarrow> string \<Rightarrow> string \<Rightarrow> auth_error + user" where
  "check_password lib flt k d e plain =
     (case get_by_email flt k (sg_auth d) (normalize_email e) of
        Inl _ \<Rightarrow> Inl (AuthRefused ''invalid email or password'')
      | Inr u \<Rightarrow> let h = password_hash flt (Suc k) d (u_id u) in
          if h = [] \<or> \<not> lb_matches lib h plain then Inl (AuthRefused ''invalid email or password'') else Inr u)"

section \<open>One-time codes\<close>

definition otp_ttl :: int where "otp_ttl = 600"

definition otp_max_attempts :: int where "otp_max_attempts = 5"

definition six_digits :: "nat \<Rightarrow> string" where
  "six_digits n = replicate (6 - length (show_nat n)) (CHR ''0'') @ show_nat n"

definition new_login_otp :: "sign_lib \<Rightarrow> auth_error faults \<Rightarrow> nat \<Rightarrow> int \<Rightarrow> nat \<Rightarrow> string \<Rightarrow> sign_db \<Rightarrow> string
    \<Rightarrow> (auth_error + string) \<times> sign_db" where
  "new_login_otp lib flt k now n salt d u =
     (let code = six_digits n in
      case lb_hash lib salt code of None \<Rightarrow> (Inl (AuthRefused ''bcrypt''), d)
      | Some h \<Rightarrow> (case run flt k () of Inl e \<Rightarrow> (Inl e, d)
          | Inr _ \<Rightarrow>
              let row = \<lparr>ot_user = u, ot_hash = h, ot_attempts = 0, ot_expires = now + otp_ttl\<rparr> in
              (Inr code, d\<lparr>sg_otps := (if list_ex (\<lambda>r. ot_user r = u) (sg_otps d)
                   then upd_where (\<lambda>r. ot_user r = u) (\<lambda>_. row) (sg_otps d) else sg_otps d @ [row])\<rparr>)))"

definition delete_otp :: "auth_error faults \<Rightarrow> nat \<Rightarrow> sign_db \<Rightarrow> string \<Rightarrow> sign_db" where
  "delete_otp flt k d u = (if flt k \<noteq> None then d else d\<lparr>sg_otps := filter (\<lambda>r. ot_user r \<noteq> u) (sg_otps d)\<rparr>)"

text \<open>What \<open>CheckLoginOTP\<close> does with the row it has read; other requests may run in between.\<close>

definition otp_decide :: "sign_lib \<Rightarrow> auth_error faults \<Rightarrow> nat \<Rightarrow> int \<Rightarrow> otp_row \<Rightarrow> sign_db \<Rightarrow> string \<Rightarrow> string \<Rightarrow> bool \<times> sign_db" where
  "otp_decide lib flt k now row d u code =
     (if ot_expires row < now \<or> otp_max_attempts \<le> ot_attempts row then (False, delete_otp flt k d u)
      else if \<not> lb_matches lib (ot_hash row) code then
        (False, if flt k \<noteq> None then d
                else d\<lparr>sg_otps := upd_where (\<lambda>r. ot_user r = u) (\<lambda>r. r\<lparr>ot_attempts := ot_attempts r + 1\<rparr>) (sg_otps d)\<rparr>)
      else (True, delete_otp flt k d u))"

definition check_login_otp :: "sign_lib \<Rightarrow> auth_error faults \<Rightarrow> nat \<Rightarrow> int \<Rightarrow> sign_db \<Rightarrow> string \<Rightarrow> string \<Rightarrow> bool \<times> sign_db" where
  "check_login_otp lib flt k now d u code =
     (case run flt k (find (\<lambda>r. ot_user r = u) (sg_otps d)) of
        Inr (Some row) \<Rightarrow> otp_decide lib flt (Suc k) now row d u code
      | _ \<Rightarrow> (False, d))"

section \<open>Two factors\<close>

definition enroll_totp :: "sign_lib \<Rightarrow> auth_error faults \<Rightarrow> nat \<Rightarrow> nat list option \<Rightarrow> string option \<Rightarrow> sign_db \<Rightarrow> string
    \<Rightarrow> (auth_error + string) \<times> sign_db" where
  "enroll_totp lib flt k nonce generated d u =
     (case generated of None \<Rightarrow> (Inl (AuthRefused ''totp''), d)
      | Some secret \<Rightarrow> (case run flt k () of Inl e \<Rightarrow> (Inl e, d)
          | Inr _ \<Rightarrow> (Inr secret, if has_user d u
               then d\<lparr>sg_secret := (sg_secret d)(u := cipher_encrypt (lb_cipher lib) nonce secret)\<rparr> else d)))"

definition totp_secret :: "sign_lib \<Rightarrow> auth_error faults \<Rightarrow> nat \<Rightarrow> sign_db \<Rightarrow> string \<Rightarrow> string" where
  "totp_secret lib flt k d u =
     cipher_decrypt (lb_cipher lib) (if flt k \<noteq> None \<or> \<not> has_user d u then [] else sg_secret d u)"

text \<open>Ten new codes; the old ones are deleted first, and an error leaves those inserted so far.\<close>

fun insert_backups :: "sign_lib \<Rightarrow> auth_error faults \<Rightarrow> nat \<Rightarrow> (nat \<Rightarrow> string) \<Rightarrow> (nat \<Rightarrow> string) \<Rightarrow> (nat \<Rightarrow> string) \<Rightarrow> string
    \<Rightarrow> nat list \<Rightarrow> sign_db \<Rightarrow> (auth_error + string list) \<times> sign_db" where
  "insert_backups lib flt k ids salts draws u [] d = (Inr [], d)"
| "insert_backups lib flt k ids salts draws u (i # is) d =
     (case lb_hash lib (salts i) (draws i) of None \<Rightarrow> (Inl (AuthRefused ''bcrypt''), d)
      | Some h \<Rightarrow> (case run flt (k + i) () of Inl e \<Rightarrow> (Inl e, d)
          | Inr _ \<Rightarrow>
              let d1 = d\<lparr>sg_backups := sg_backups d @ [\<lparr>bk_id = ids i, bk_user = u, bk_hash = h, bk_used = None\<rparr>]\<rparr> in
              (case insert_backups lib flt k ids salts draws u is d1 of
                 (Inl e, d2) \<Rightarrow> (Inl e, d2) | (Inr cs, d2) \<Rightarrow> (Inr (draws i # cs), d2))))"

definition regen_backup_codes :: "sign_lib \<Rightarrow> auth_error faults \<Rightarrow> nat \<Rightarrow> (nat \<Rightarrow> string) \<Rightarrow> (nat \<Rightarrow> string) \<Rightarrow> (nat \<Rightarrow> string)
    \<Rightarrow> sign_db \<Rightarrow> string \<Rightarrow> (auth_error + string list) \<times> sign_db" where
  "regen_backup_codes lib flt k ids salts draws d u =
     (let d1 = (if flt k \<noteq> None then d else d\<lparr>sg_backups := filter (\<lambda>b. bk_user b \<noteq> u) (sg_backups d)\<rparr>)
      in insert_backups lib flt (Suc k) ids salts draws u [0..<10] d1)"

definition set_totp :: "bool \<Rightarrow> sign_db \<Rightarrow> string \<Rightarrow> sign_db" where
  "set_totp b d u =
     d\<lparr>sg_auth := (sg_auth d)\<lparr>users := upd_where (\<lambda>r. u_id r = u) (\<lambda>r. r\<lparr>totp_enabled := b\<rparr>) (users (sg_auth d))\<rparr>\<rparr>"

definition confirm_totp :: "sign_lib \<Rightarrow> auth_error faults \<Rightarrow> int \<Rightarrow> (nat \<Rightarrow> string) \<Rightarrow> (nat \<Rightarrow> string) \<Rightarrow> (nat \<Rightarrow> string)
    \<Rightarrow> sign_db \<Rightarrow> string \<Rightarrow> string \<Rightarrow> (auth_error + string list) \<times> sign_db" where
  "confirm_totp lib flt now ids salts draws d u code =
     (let secret = totp_secret lib flt 0 d u in
      if secret = [] \<or> \<not> lb_totp lib now (trim_space code) secret then (Inl (AuthRefused ''invalid code''), d)
      else case run flt 1 () of Inl e \<Rightarrow> (Inl e, d)
      | Inr _ \<Rightarrow> regen_backup_codes lib flt 2 ids salts draws (set_totp True d u) u)"

definition spend_backup :: "auth_error faults \<Rightarrow> nat \<Rightarrow> int \<Rightarrow> string \<Rightarrow> sign_db \<Rightarrow> sign_db" where
  "spend_backup flt k now i d =
     (if flt k \<noteq> None then d
      else d\<lparr>sg_backups := upd_where (\<lambda>b. bk_id b = i) (\<lambda>b. b\<lparr>bk_used := Some now\<rparr>) (sg_backups d)\<rparr>)"

definition unused_backups :: "sign_db \<Rightarrow> string \<Rightarrow> backup_row list" where
  "unused_backups d u = filter (\<lambda>b. bk_user b = u \<and> bk_used b = None) (sg_backups d)"

definition consume_backup_code :: "sign_lib \<Rightarrow> auth_error faults \<Rightarrow> nat \<Rightarrow> int \<Rightarrow> sign_db \<Rightarrow> string \<Rightarrow> string \<Rightarrow> bool \<times> sign_db" where
  "consume_backup_code lib flt k now d u code =
     (case run flt k (unused_backups d u) of Inl _ \<Rightarrow> (False, d)
      | Inr rows \<Rightarrow> (case find (\<lambda>b. lb_matches lib (bk_hash b) code) rows of
          None \<Rightarrow> (False, d) | Some b \<Rightarrow> (True, spend_backup flt (Suc k) now (bk_id b) d)))"

definition verify_totp :: "sign_lib \<Rightarrow> auth_error faults \<Rightarrow> nat \<Rightarrow> int \<Rightarrow> sign_db \<Rightarrow> string \<Rightarrow> string \<Rightarrow> bool \<times> sign_db" where
  "verify_totp lib flt k now d u code0 =
     (let code = trim_space code0; secret = totp_secret lib flt k d u in
      if secret \<noteq> [] \<and> lb_totp lib now code secret then (True, d)
      else consume_backup_code lib flt (Suc k) now d u code)"

definition disable_totp :: "auth_error faults \<Rightarrow> nat \<Rightarrow> sign_db \<Rightarrow> string \<Rightarrow> (auth_error + unit) \<times> sign_db" where
  "disable_totp flt k d u =
     (case run flt k () of Inl e \<Rightarrow> (Inl e, d)
      | Inr _ \<Rightarrow>
          let d1 = set_totp False d u; d2 = (if has_user d u then d1\<lparr>sg_secret := (sg_secret d)(u := [])\<rparr> else d1) in
          (case run flt (Suc k) () of Inl e \<Rightarrow> (Inl e, d2)
           | Inr _ \<Rightarrow> (Inr (), d2\<lparr>sg_backups := filter (\<lambda>b. bk_user b \<noteq> u) (sg_backups d2)\<rparr>)))"


section \<open>API keys\<close>

definition max_api_keys :: nat where "max_api_keys = 20"

definition create_api_key :: "auth_error faults \<Rightarrow> nat \<Rightarrow> int \<Rightarrow> string \<Rightarrow> string \<Rightarrow> sign_db \<Rightarrow> string \<Rightarrow> string \<Rightarrow> bool
    \<Rightarrow> (auth_error + key_row) \<times> sign_db" where
  "create_api_key flt k now i key d u label login =
     (let n = (if flt k \<noteq> None then 0 else count_where (\<lambda>r. ak_user r = u \<and> ak_revoked r = None) (sg_keys d)) in
      if max_api_keys \<le> n then (Inl (AuthRefused ''key limit reached''), d)
      else let row = \<lparr>ak_id = i, ak_user = u, ak_key = key, ak_label = label, ak_login = login, ak_created = now,
                      ak_last_used = None, ak_revoked = None\<rparr> in
        (case run flt (Suc k) () of Inl e \<Rightarrow> (Inl e, d)
         | Inr _ \<Rightarrow>
            if list_ex (\<lambda>r. ak_id r = i \<or> ak_key r = key) (sg_keys d) then (Inl (AuthDBError ''unique violation''), d)
            else (Inr row, d\<lparr>sg_keys := sg_keys d @ [row]\<rparr>)))"

definition list_api_keys :: "auth_error faults \<Rightarrow> nat \<Rightarrow> sign_db \<Rightarrow> string \<Rightarrow> auth_error + key_row list" where
  "list_api_keys flt k d u =
     run flt k (sort_key ak_created (filter (\<lambda>r. ak_user r = u \<and> ak_revoked r = None) (sg_keys d)))"

definition revoke_api_key :: "auth_error faults \<Rightarrow> nat \<Rightarrow> int \<Rightarrow> sign_db \<Rightarrow> string \<Rightarrow> string \<Rightarrow> (auth_error + unit) \<times> sign_db" where
  "revoke_api_key flt k now d u i =
     (let hit = (\<lambda>r. ak_id r = i \<and> ak_user r = u \<and> ak_revoked r = None) in
      case run flt k () of Inl e \<Rightarrow> (Inl e, d)
      | Inr _ \<Rightarrow> (if count_where hit (sg_keys d) = 0 then Inl AuthNotFound else Inr (),
                 d\<lparr>sg_keys := upd_where hit (\<lambda>r. r\<lparr>ak_revoked := Some now\<rparr>) (sg_keys d)\<rparr>))"

text \<open>The user of a key and whether it may sign in; the time of use is written on the side.\<close>

definition resolve_api_key :: "auth_error faults \<Rightarrow> nat \<Rightarrow> sign_db \<Rightarrow> string \<Rightarrow> auth_error + user \<times> bool" where
  "resolve_api_key flt k d key =
     (case run flt k (find (\<lambda>u. api_key u = key) (users (sg_auth d))) of
        Inr (Some u) \<Rightarrow> Inr (u, True)
      | _ \<Rightarrow> (case run flt (Suc k) (find (\<lambda>r. ak_key r = key \<and> ak_revoked r = None) (sg_keys d)) of
          Inr (Some r) \<Rightarrow> (case get_by_id flt (Suc (Suc k)) (sg_auth d) (ak_user r) of
              Inl e \<Rightarrow> Inl e | Inr u \<Rightarrow> Inr (u, ak_login r))
        | _ \<Rightarrow> Inl AuthNotFound))"

definition touch_api_key :: "int \<Rightarrow> sign_db \<Rightarrow> string \<Rightarrow> sign_db" where
  "touch_api_key now d key =
     d\<lparr>sg_keys := upd_where (\<lambda>r. ak_key r = key) (\<lambda>r. r\<lparr>ak_last_used := Some now\<rparr>) (sg_keys d)\<rparr>"

section \<open>Handlers\<close>

definition login_challenge_ttl :: int where "login_challenge_ttl = 600"

definition session_ttl :: int where "session_ttl = 30 * day"

text \<open>\<open>loginLimiter\<close> is the code of \<open>attemptLimiter\<close> with its own constants.\<close>

definition login_limiter :: limiter where
  "login_limiter = new_limiter 10 900"

datatype login_answer =
    Answer nat
  | ChallengeFor string string
  | SessionToken string

text \<open>The mail with the code is sent on the side, when a mailer is configured.\<close>

definition start_login_challenge :: "sign_lib \<Rightarrow> auth_error faults \<Rightarrow> nat \<Rightarrow> int \<Rightarrow> nat \<Rightarrow> string \<Rightarrow> sign_db \<Rightarrow> user
    \<Rightarrow> login_answer \<times> sign_db" where
  "start_login_challenge lib flt k now n salt d u =
     (if banned u then (Answer 403, d)
      else if totp_enabled u then
        (ChallengeFor ''totp'' (sign_challenge lib now (u_id u) ''totp'' login_challenge_ttl), d)
      else case new_login_otp lib flt k now n salt d (u_id u) of
        (Inl _, d1) \<Rightarrow> (Answer 500, d1)
      | (Inr _, d1) \<Rightarrow> (ChallengeFor ''email'' (sign_challenge lib now (u_id u) ''email'' login_challenge_ttl), d1))"

definition login_password :: "sign_lib \<Rightarrow> auth_error faults \<Rightarrow> int \<Rightarrow> nat \<Rightarrow> string \<Rightarrow> limiter \<Rightarrow> string \<Rightarrow> (string \<times> string) option
    \<Rightarrow> sign_db \<Rightarrow> login_answer \<times> sign_db \<times> limiter" where
  "login_password lib flt now n salt l ip req d =
     (let (ok, l') = allow ip now now l in
      if \<not> ok then (Answer 429, d, l')
      else case req of None \<Rightarrow> (Answer 400, d, l')
      | Some (e, pw) \<Rightarrow> (case check_password lib flt 0 d e pw of
          Inl _ \<Rightarrow> (Answer 401, d, l')
        | Inr u \<Rightarrow> let (a, d') = start_login_challenge lib flt 2 now n salt d u in (a, d', l')))"

definition login_key :: "sign_lib \<Rightarrow> auth_error faults \<Rightarrow> int \<Rightarrow> nat \<Rightarrow> string \<Rightarrow> limiter \<Rightarrow> string \<Rightarrow> string option
    \<Rightarrow> sign_db \<Rightarrow> login_answer \<times> sign_db \<times> limiter" where
  "login_key lib flt now n salt l ip req d =
     (let (ok, l') = allow ip now now l in
      if \<not> ok then (Answer 429, d, l')
      else case req of None \<Rightarrow> (Answer 400, d, l')
      | Some key \<Rightarrow>
          if key = [] then (Answer 400, d, l')
          else (case resolve_api_key flt 0 d (trim_space key) of
            Inr (u, True) \<Rightarrow> let (a, d') = start_login_challenge lib flt 3 now n salt d u in (a, d', l')
          | _ \<Rightarrow> (Answer 401, d, l')))"

definition issue_session :: "sign_lib \<Rightarrow> int \<Rightarrow> string \<Rightarrow> string" where
  "issue_session lib now u = sign_session lib now u session_ttl"

text \<open>The check of the second factor that a challenge names.\<close>

definition check_factor :: "sign_lib \<Rightarrow> auth_error faults \<Rightarrow> nat \<Rightarrow> int \<Rightarrow> sign_db \<Rightarrow> string \<Rightarrow> string \<Rightarrow> string \<Rightarrow> bool \<times> sign_db" where
  "check_factor lib flt k now d factor u code =
     (if factor = ''totp'' then verify_totp lib flt k now d u code
      else if factor = ''email'' then check_login_otp lib flt k now d u code
      else (False, d))"

definition login_verify :: "sign_lib \<Rightarrow> auth_error faults \<Rightarrow> int \<Rightarrow> limiter \<Rightarrow> string \<Rightarrow> (string \<times> string) option
    \<Rightarrow> sign_db \<Rightarrow> login_answer \<times> sign_db \<times> limiter" where
  "login_verify lib flt now l ip req d =
     (let (ok, l') = allow ip now now l in
      if \<not> ok then (Answer 429, d, l')
      else case req of None \<Rightarrow> (Answer 400, d, l')
      | Some (ch, code) \<Rightarrow> (case verify_challenge lib now ch of None \<Rightarrow> (Answer 401, d, l')
        | Some (u, factor) \<Rightarrow>
            let (valid, d1) = check_factor lib flt 0 now d factor u (trim_space code) in
            if \<not> valid then (Answer 401, d1, l')
            else (SessionToken (issue_session lib now u), audit_log flt 3 now d1 u ''login'' factor ip, l')))"

definition set_password_handler :: "sign_lib \<Rightarrow> auth_error faults \<Rightarrow> int \<Rightarrow> string \<Rightarrow> string \<Rightarrow> user \<Rightarrow> string option \<Rightarrow> sign_db
    \<Rightarrow> nat \<times> sign_db" where
  "set_password_handler lib flt now salt ip u req d =
     (case req of None \<Rightarrow> (400, d)
      | Some pw \<Rightarrow> (case set_password lib flt 0 salt d (u_id u) pw of
          (Inl _, d1) \<Rightarrow> (400, d1)
        | (Inr _, d1) \<Rightarrow> (200, audit_log flt 1 now d1 (u_id u) ''password_set'' [] ip)))"

definition mfa_enroll :: "sign_lib \<Rightarrow> auth_error faults \<Rightarrow> nat list option \<Rightarrow> string option \<Rightarrow> user \<Rightarrow> sign_db
    \<Rightarrow> (nat \<times> string) \<times> sign_db" where
  "mfa_enroll lib flt nonce generated u d =
     (if totp_enabled u then ((409, []), d)
      else case enroll_totp lib flt 0 nonce generated d (u_id u) of
        (Inl _, d1) \<Rightarrow> ((500, []), d1) | (Inr secret, d1) \<Rightarrow> ((200, secret), d1))"

definition mfa_confirm :: "sign_lib \<Rightarrow> auth_error faults \<Rightarrow> int \<Rightarrow> (nat \<Rightarrow> string) \<Rightarrow> (nat \<Rightarrow> string) \<Rightarrow> (nat \<Rightarrow> string) \<Rightarrow> string
    \<Rightarrow> user \<Rightarrow> string \<Rightarrow> sign_db \<Rightarrow> (login_answer \<times> string list) \<times> sign_db" where
  "mfa_confirm lib flt now ids salts draws ip u code d =
     (case confirm_totp lib flt now ids salts draws d (u_id u) (trim_space code) of
        (Inl _, d1) \<Rightarrow> ((Answer 400, []), d1)
      | (Inr cs, d1) \<Rightarrow> ((SessionToken (issue_session lib now (u_id u)), cs),
                       audit_log flt 13 now d1 (u_id u) ''2fa_enabled'' [] ip))"

definition mfa_verify :: "sign_lib \<Rightarrow> auth_error faults \<Rightarrow> int \<Rightarrow> user \<Rightarrow> string \<Rightarrow> sign_db \<Rightarrow> login_answer \<times> sign_db" where
  "mfa_verify lib flt now u code d =
     (let (ok, d1) = verify_totp lib flt 0 now d (u_id u) (trim_space code) in
      if ok then (SessionToken (issue_session lib now (u_id u)), d1) else (Answer 401, d1))"

definition mfa_disable :: "sign_lib \<Rightarrow> auth_error faults \<Rightarrow> int \<Rightarrow> string \<Rightarrow> user \<Rightarrow> string \<Rightarrow> sign_db \<Rightarrow> nat \<times> sign_db" where
  "mfa_disable lib flt now ip u code d =
     (let (ok, d1) = verify_totp lib flt 0 now d (u_id u) (trim_space code) in
      if \<not> ok then (401, d1)
      else case disable_totp flt 3 d1 (u_id u) of (Inl _, d2) \<Rightarrow> (500, d2)
      | (Inr _, d2) \<Rightarrow> (200, audit_log flt 5 now d2 (u_id u) ''2fa_disabled'' [] ip))"

text \<open>A body that does not decode counts as empty; the label is cut at 64 bytes.\<close>

definition create_key_handler :: "auth_error faults \<Rightarrow> int \<Rightarrow> string \<Rightarrow> string \<Rightarrow> string \<Rightarrow> user \<Rightarrow> string \<Rightarrow> bool \<Rightarrow> sign_db
    \<Rightarrow> (nat \<times> key_row option) \<times> sign_db" where
  "create_key_handler flt now i key ip u label0 login d =
     (let label = take 64 (trim_space label0) in
      case create_api_key flt 0 now i key d (u_id u) label login of
        (Inl _, d1) \<Rightarrow> ((422, None), d1)
      | (Inr row, d1) \<Rightarrow> ((201, Some row), audit_log flt 2 now d1 (u_id u) ''api_key_created'' (''label='' @ label) ip))"

definition revoke_key_handler :: "auth_error faults \<Rightarrow> int \<Rightarrow> string \<Rightarrow> user \<Rightarrow> string \<Rightarrow> sign_db \<Rightarrow> nat \<times> sign_db" where
  "revoke_key_handler flt now ip u i d =
     (case revoke_api_key flt 0 now d (u_id u) i of (Inl _, d1) \<Rightarrow> (404, d1)
      | (Inr _, d1) \<Rightarrow> (200, audit_log flt 1 now d1 (u_id u) ''api_key_revoked'' (''id='' @ i) ip))"


section \<open>Reading back what was signed\<close>

lemma plain_id_no_quote: "plain_id s \<Longrightarrow> quote_char \<notin> set s"
proof -
  assume p: "plain_id s"
  have "\<not> (in_range 48 57 quote_char \<or> in_range 97 122 quote_char \<or> quote_char = CHR ''-'')" by code_simp
  then show ?thesis using p by (auto simp: plain_id_def list_all_iff)
qed

lemma until_quote_plain: "quote_char \<notin> set s \<Longrightarrow> until_quote (s @ CHR 0x22 # r) = Some (s, CHR 0x22 # r)"
  using index_byte_append [of quote_char s r] by (simp add: until_quote_def quote_char_def)

lemma expect_append [simp]: "expect p (p @ s) = Some s"
  by (simp add: expect_def)

lemma closing_int_show: "0 \<le> e \<Longrightarrow> e < 2 ^ 63 \<Longrightarrow> closing_int (show_int e @ ''}'') = Some e"
  by (simp add: closing_int_def parse_int_show butlast_append)

lemma expect_Cons: "expect (c # p) (c # s) = expect p s" "expect [] s = Some s"
  by (simp_all add: expect_def has_prefix_def)

lemma parse_session_payload:
  assumes "plain_id uid" "0 \<le> ex" "ex < 2 ^ 63"
  shows "parse_session (session_payload uid ex) = Some (uid, ex)"
  using until_quote_plain [OF plain_id_no_quote [OF assms(1)]] closing_int_show [OF assms(2,3)]
  by (simp add: parse_session_def session_payload_def expect_Cons)

lemma parse_challenge_payload:
  assumes "plain_id uid" "plain_id factor" "0 \<le> ex" "ex < 2 ^ 63"
  shows "parse_challenge (challenge_payload uid factor ex) = Some (uid, factor, ex)"
  using until_quote_plain [OF plain_id_no_quote [OF assms(1)]] until_quote_plain [OF plain_id_no_quote [OF assms(2)]]
    closing_int_show [OF assms(3,4)]
  by (simp add: parse_challenge_def challenge_payload_def expect_Cons)

lemma b64_no_dot: "CHR ''.'' \<notin> set (b64_encode url_alphabet (bytes_of s))"
  using b64_encode_no_dot bytes_of_lt by blast

lemma b64_bytes [simp]: "b64_decode url_alphabet (b64_encode url_alphabet (bytes_of s)) = Some (bytes_of s)"
  using b64_decode_encode bytes_of_lt by blast

lemma cut_token [simp]:
  "cut (b64_encode url_alphabet (bytes_of s) @ CHR ''.'' # sig) ''.'' = (b64_encode url_alphabet (bytes_of s), sig, True)"
  by (rule cut_single [OF b64_no_dot])

text \<open>
  The messages the server puts its code under: sessions \<open>S\<close> and challenges \<open>C\<close>, and whatever else it signs
  with the same key (\<open>SignBlob\<close> for the passkeys, the states of the OAuth handlers), which begins with neither
  of the two prefixes. HMAC's promise is that a token whose code is right carries one of them.
\<close>

definition signed_messages :: "(string \<times> int) set \<Rightarrow> (string \<times> string \<times> int) set \<Rightarrow> string set" where
  "signed_messages S C =
     {''mfa-session:'' @ b64_encode url_alphabet (bytes_of (session_payload u e)) | u e. (u, e) \<in> S}
     \<union> {''login-challenge:'' @ b64_encode url_alphabet (bytes_of (challenge_payload u f e)) | u f e. (u, f, e) \<in> C}
     \<union> {m. \<not> has_prefix m ''mfa-session:'' \<and> \<not> has_prefix m ''login-challenge:''}"

definition unforged :: "sign_lib \<Rightarrow> (string \<times> int) set \<Rightarrow> (string \<times> string \<times> int) set \<Rightarrow> string \<Rightarrow> bool" where
  "unforged lib S C token \<longleftrightarrow> (\<forall>domain body sig. cut token ''.'' = (body, sig, True)
     \<longrightarrow> sig = token_mac lib domain body \<longrightarrow> domain @ body \<in> signed_messages S C)"

definition plain_claims :: "(string \<times> int) set \<Rightarrow> (string \<times> string \<times> int) set \<Rightarrow> bool" where
  "plain_claims S C \<longleftrightarrow> (\<forall>(u, e) \<in> S. plain_id u \<and> 0 \<le> e \<and> e < 2 ^ 63)
     \<and> (\<forall>(u, f, e) \<in> C. plain_id u \<and> plain_id f \<and> 0 \<le> e \<and> e < 2 ^ 63)"

lemma signed_session:
  assumes "''mfa-session:'' @ body \<in> signed_messages S C"
  obtains u e where "(u, e) \<in> S" "body = b64_encode url_alphabet (bytes_of (session_payload u e))"
  using assms by (auto simp: signed_messages_def has_prefix_def)

lemma signed_challenge:
  assumes "''login-challenge:'' @ body \<in> signed_messages S C"
  obtains u f e where "(u, f, e) \<in> C" "body = b64_encode url_alphabet (bytes_of (challenge_payload u f e))"
  using assms by (auto simp: signed_messages_def has_prefix_def)

lemma unforgedD: "unforged lib S C token \<Longrightarrow> cut token ''.'' = (body, token_mac lib pre body, True) \<Longrightarrow> pre @ body \<in> signed_messages S C"
  by (simp add: unforged_def)

lemma verify_session_issued:
  assumes "unforged lib S C token" "plain_claims S C" "verify_session lib now token = Some u"
  shows "\<exists>e. (u, e) \<in> S \<and> now \<le> e"
proof -
  obtain body sig ok where c: "cut token ''.'' = (body, sig, ok)" by (cases "cut token ''.''")
  have ok: "ok" "sig = token_mac lib ''mfa-session:'' body"
    using assms(3) c by (auto simp: verify_session_def session_mac_def split: if_splits)
  then have "''mfa-session:'' @ body \<in> signed_messages S C"
    by (intro unforgedD [OF assms(1)]) (simp add: c)
  then obtain u' e where ue: "(u', e) \<in> S" "body = b64_encode url_alphabet (bytes_of (session_payload u' e))"
    by (rule signed_session)
  then have "parse_session (session_payload u' e) = Some (u', e)"
    using assms(2) parse_session_payload by (auto simp: plain_claims_def)
  then show ?thesis
    using assms(3) c ok ue by (auto simp: verify_session_def session_mac_def split: if_splits)
qed

lemma verify_challenge_issued:
  assumes "unforged lib S C token" "plain_claims S C" "verify_challenge lib now token = Some (u, f)"
  shows "\<exists>e. (u, f, e) \<in> C \<and> now \<le> e"
proof -
  obtain body sig ok where c: "cut token ''.'' = (body, sig, ok)" by (cases "cut token ''.''")
  have ok: "ok" "sig = token_mac lib ''login-challenge:'' body"
    using assms(3) c by (auto simp: verify_challenge_def challenge_mac_def split: if_splits)
  then have "''login-challenge:'' @ body \<in> signed_messages S C"
    by (intro unforgedD [OF assms(1)]) (simp add: c)
  then obtain u' f' e where ue: "(u', f', e) \<in> C" "body = b64_encode url_alphabet (bytes_of (challenge_payload u' f' e))"
    by (rule signed_challenge)
  then have "parse_challenge (challenge_payload u' f' e) = Some (u', f', e)"
    using assms(2) parse_challenge_payload by (auto simp: plain_claims_def)
  then show ?thesis
    using assms(3) c ok ue by (auto simp: verify_challenge_def challenge_mac_def split: if_splits)
qed

section \<open>Guesses\<close>

text \<open>Guesses one after the other, each with its time.\<close>

fun otp_run :: "sign_lib \<Rightarrow> string \<Rightarrow> (int \<times> string) list \<Rightarrow> sign_db \<Rightarrow> bool list" where
  "otp_run lib u [] d = []"
| "otp_run lib u ((t, g) # gs) d =
     (let (b, d') = check_login_otp lib no_faults 0 t d u g in b # otp_run lib u gs d')"

text \<open>Guesses that all read the row before any of them writes it.\<close>

fun otp_parallel :: "sign_lib \<Rightarrow> string \<Rightarrow> otp_row \<Rightarrow> (int \<times> string) list \<Rightarrow> sign_db \<Rightarrow> bool list" where
  "otp_parallel lib u row [] d = []"
| "otp_parallel lib u row ((t, g) # gs) d =
     (let (b, d') = otp_decide lib no_faults 1 t row d u g in b # otp_parallel lib u row gs d')"

definition otp_of :: "sign_db \<Rightarrow> string \<Rightarrow> otp_row option" where
  "otp_of d u = find (\<lambda>r. ot_user r = u) (sg_otps d)"

lemma find_filter_out: "find (\<lambda>r. f r = u) (filter (\<lambda>r. f r \<noteq> u) xs) = None"
  by (induction xs) auto

lemma otp_gone: "otp_of d u = None \<Longrightarrow> otp_run lib u gs d = replicate (length gs) False"
  by (induction gs) (auto simp: check_login_otp_def otp_of_def)

lemma otp_of_delete: "otp_of (delete_otp no_faults k d u) u = None"
  by (simp add: otp_of_def delete_otp_def find_filter_out)

lemma find_upd_first:
  "find (\<lambda>r. f r = u) xs = Some r \<Longrightarrow> (\<And>r. f (g r) = f r) \<Longrightarrow>
   find (\<lambda>r. f r = u) (upd_where (\<lambda>r. f r = u) g xs) = Some (g r)"
  by (induction xs) auto

lemma otp_run_bounded:
  assumes "otp_of d u = Some row" "\<forall>(t, g)\<in>set gs. t \<le> ot_expires row" "i < length gs"
  shows "otp_run lib u gs d ! i \<longleftrightarrow> ot_attempts row + int i < otp_max_attempts
    \<and> lb_matches lib (ot_hash row) (snd (gs ! i)) \<and> (\<forall>j<i. \<not> lb_matches lib (ot_hash row) (snd (gs ! j)))"
  using assms
proof (induction gs arbitrary: d row i)
  case Nil
  then show ?case by simp
next
  case (Cons tg gs)
  obtain t g where tg: "tg = (t, g)" by (cases tg)
  let ?r = "otp_decide lib no_faults 1 t row d u g"
  have run: "otp_run lib u ((t, g) # gs) d = fst ?r # otp_run lib u gs (snd ?r)"
    using Cons.prems(1) by (simp add: check_login_otp_def otp_of_def Let_def case_prod_unfold)
  have fresh: "\<not> ot_expires row < t" using Cons.prems(2) by (auto simp: tg)
  consider (full) "otp_max_attempts \<le> ot_attempts row"
    | (hit) "ot_attempts row < otp_max_attempts" "lb_matches lib (ot_hash row) g"
    | (miss) "ot_attempts row < otp_max_attempts" "\<not> lb_matches lib (ot_hash row) g" by linarith
  then show ?case
  proof cases
    case full
    then have r: "?r = (False, delete_otp no_faults 1 d u)" by (simp add: otp_decide_def)
    show ?thesis
      using full Cons.prems(3) unfolding tg run r
      by (cases i) (auto simp: otp_gone [OF otp_of_delete])
  next
    case hit
    then have r: "?r = (True, delete_otp no_faults 1 d u)" using fresh by (simp add: otp_decide_def)
    show ?thesis
      using hit Cons.prems(3) unfolding tg run r
      by (cases i) (auto simp: otp_gone [OF otp_of_delete])
  next
    case miss
    let ?row = "row\<lparr>ot_attempts := ot_attempts row + 1\<rparr>"
    have r: "fst ?r = False" "otp_of (snd ?r) u = Some ?row"
      using miss fresh Cons.prems(1) find_upd_first [of ot_user u "sg_otps d" row]
      by (simp_all add: otp_decide_def otp_of_def)
    show ?thesis
    proof (cases i)
      case 0
      then show ?thesis using miss r(1) unfolding tg run by simp
    next
      case (Suc i')
      have "otp_run lib u gs (snd ?r) ! i' \<longleftrightarrow> ot_attempts ?row + int i' < otp_max_attempts
        \<and> lb_matches lib (ot_hash ?row) (snd (gs ! i')) \<and> (\<forall>j<i'. \<not> lb_matches lib (ot_hash ?row) (snd (gs ! j)))"
        using Cons.prems(2,3) Suc by (intro Cons.IH [OF r(2)]) auto
      then show ?thesis
        using miss(2) unfolding tg run Suc by (auto simp: less_Suc_eq_0_disj)
    qed
  qed
qed

section \<open>Properties\<close>

text \<open>
  A session opens for its user until it expires, and for nobody afterwards.
\<close>

theorem session_roundtrip:
  assumes "plain_id uid" and "0 \<le> now + ttl" and "now + ttl < 2 ^ 63"
  shows "verify_session lib t (sign_session lib now uid ttl) = (if now + ttl < t then None else Some uid)"
  using parse_session_payload [OF assms] by (simp add: verify_session_def sign_session_def Let_def)

text \<open>
  C22: nobody is signed in without both factors. When the server answers a code with a session, the challenge was one
  it had issued for that user and that factor within the last ten minutes, and the factor was shown: an
  authenticator code or an unused backup code, or a mailed code that has not expired and had fewer than five
  wrong guesses. A session token is never taken for a challenge.
\<close>

theorem login_needs_both_factors:
  assumes "login_verify lib flt now l ip (Some (ch, code)) d = (SessionToken s, d', l')"
    and "unforged lib S C ch" and "plain_claims S C"
  shows "\<exists>u factor e. (u, factor, e) \<in> C \<and> now \<le> e \<and> s = sign_session lib now u session_ttl
    \<and> (factor = ''totp'' \<and> ((totp_secret lib flt 0 d u \<noteq> [] \<and> lb_totp lib now (trim_space (trim_space code)) (totp_secret lib flt 0 d u))
          \<or> (\<exists>b\<in>set (unused_backups d u). lb_matches lib (bk_hash b) (trim_space (trim_space code))))
      \<or> factor = ''email'' \<and> (\<exists>row. otp_of d u = Some row \<and> now \<le> ot_expires row \<and> ot_attempts row < otp_max_attempts
          \<and> lb_matches lib (ot_hash row) (trim_space code)))"
proof -
  obtain u factor where ch: "verify_challenge lib now ch = Some (u, factor)"
    and ok: "fst (check_factor lib flt 0 now d factor u (trim_space code))"
    and s: "s = sign_session lib now u session_ttl"
    using assms(1) by (auto simp: login_verify_def issue_session_def Let_def case_prod_unfold split: if_splits option.splits)
  obtain e where e: "(u, factor, e) \<in> C" "now \<le> e" using verify_challenge_issued [OF assms(2,3) ch] by blast
  have "factor = ''totp'' \<and> ((totp_secret lib flt 0 d u \<noteq> [] \<and> lb_totp lib now (trim_space (trim_space code)) (totp_secret lib flt 0 d u))
          \<or> (\<exists>b\<in>set (unused_backups d u). lb_matches lib (bk_hash b) (trim_space (trim_space code))))
      \<or> factor = ''email'' \<and> (\<exists>row. otp_of d u = Some row \<and> now \<le> ot_expires row \<and> ot_attempts row < otp_max_attempts
          \<and> lb_matches lib (ot_hash row) (trim_space code))"
  proof (cases "factor = ''totp''")
    case True
    then show ?thesis
      using ok by (auto simp: check_factor_def verify_totp_def consume_backup_code_def Let_def run_def
          split: if_splits option.splits dest!: find_Some_mem)
  next
    case False
    then have "factor = ''email''" "fst (check_login_otp lib flt 0 now d u (trim_space code))"
      using ok by (auto simp: check_factor_def split: if_splits)
    then show ?thesis
      by (auto simp: check_login_otp_def otp_decide_def otp_of_def run_def split: if_splits option.splits)
  qed
  then show ?thesis using e s by blast
qed

text \<open>
  C23: a mailed code can be guessed five times. Of any sequence of guesses made before it expires, the
  i-th succeeds exactly if it is among the first five, right, and the first right one.
\<close>

theorem otp_guesses_bounded:
  assumes "otp_of d u = Some row" and "ot_attempts row = 0" and "\<forall>(t, g)\<in>set gs. t \<le> ot_expires row" and "i < length gs"
  shows "otp_run lib u gs d ! i \<longleftrightarrow> i < 5 \<and> lb_matches lib (ot_hash row) (snd (gs ! i))
    \<and> (\<forall>j<i. \<not> lb_matches lib (ot_hash row) (snd (gs ! j)))"
  using otp_run_bounded [OF assms(1,3,4)] assms(2) by (simp add: otp_max_attempts_def)

text \<open>
  The limit of five holds only for guesses made one after the other. Guesses whose requests all read
  the row before the first of them counts are all compared, however many there are.
\<close>

theorem otp_parallel_guesses_unbounded:
  assumes "ot_attempts row = 0" and "\<forall>(t, g)\<in>set gs. t \<le> ot_expires row"
  shows "otp_parallel lib u row gs d = map (\<lambda>(t, g). lb_matches lib (ot_hash row) g) gs"
  using assms(2)
proof (induction gs arbitrary: d)
  case Nil
  then show ?case by simp
next
  case (Cons tg gs)
  obtain t g where tg: "tg = (t, g)" by (cases tg)
  show ?case
    using Cons assms(1) by (simp add: tg otp_decide_def otp_max_attempts_def Let_def not_less)
qed

text \<open>
  An error while the backup codes are written leaves two-factor switched on. The answer is 400, as for
  a wrong code, the codes are never shown, and from then on the account asks for the second factor.
\<close>

theorem confirm_error_enables_totp:
  assumes "find (\<lambda>r. u_id r = u_id u) (users (sg_auth d)) = Some u" and "flt 0 = None" and "flt 1 = None" and "flt 3 \<noteq> None"
    and "totp_secret lib flt 0 d (u_id u) \<noteq> []"
    and "lb_totp lib now (trim_space (trim_space code)) (totp_secret lib flt 0 d (u_id u))"
  shows "\<exists>d'. mfa_confirm lib flt now ids salts draws ip u code d = ((Answer 400, []), d')
    \<and> find (\<lambda>r. u_id r = u_id u) (users (sg_auth d')) = Some (u\<lparr>totp_enabled := True\<rparr>)"
proof -
  have up: "[0..<10] = 0 # [Suc 0..<10]" by (simp add: upt_conv_Cons)
  let ?d1 = "set_totp True d (u_id u)"
  obtain e where e: "flt 3 = Some e" using assms(4) by auto
  define d2 where "d2 = (if flt 2 \<noteq> None then ?d1
     else ?d1\<lparr>sg_backups := filter (\<lambda>b. bk_user b \<noteq> u_id u) (sg_backups ?d1)\<rparr>)"
  have d2: "\<exists>e. regen_backup_codes lib flt 2 ids salts draws ?d1 (u_id u) = (Inl e, d2)" "sg_auth d2 = sg_auth ?d1"
    unfolding regen_backup_codes_def Let_def up d2_def [symmetric]
    by (simp_all add: e run_def d2_def split: option.splits)
  have "find (\<lambda>r. u_id r = u_id u) (users (sg_auth d2)) = Some (u\<lparr>totp_enabled := True\<rparr>)"
    using find_user_upd [OF assms(1)] d2(2) by (simp add: set_totp_def)
  moreover have "mfa_confirm lib flt now ids salts draws ip u code d = ((Answer 400, []), d2)"
    using d2(1) assms(3,5,6) by (auto simp: mfa_confirm_def confirm_totp_def run_def Let_def)
  ultimately show ?thesis by blast
qed


section \<open>Witnesses\<close>

text \<open>A library in which a hash is the text itself and every authenticator code is 123456.\<close>

definition sample_lib :: sign_lib where
  "sample_lib = \<lparr>lb_hmac = (\<lambda>m. [sum_list m mod 256]), lb_hash = (\<lambda>_ p. Some p), lb_matches = (\<lambda>h p. h = p),
     lb_totp = (\<lambda>_ c _. c = ''123456''), lb_cipher = None\<rparr>"

definition sample_sign :: sign_db where
  "sample_sign = \<lparr>sg_auth = billing_db, sg_password = (\<lambda>_. []), sg_secret = (\<lambda>_. ''s''), sg_backups = [],
     sg_otps = [\<lparr>ot_user = ''u1'', ot_hash = ''042042'', ot_attempts = 0, ot_expires = 600\<rparr>], sg_keys = [], sg_audit = []\<rparr>"

lemma sample_otp: "otp_of sample_sign ''u1'' = Some \<lparr>ot_user = ''u1'', ot_hash = ''042042'', ot_attempts = 0, ot_expires = 600\<rparr>"
  by (simp add: otp_of_def sample_sign_def)

theorem session_roundtrip_witness:
  "verify_session sample_lib 50 (sign_session sample_lib 0 ''u1'' session_ttl) = Some ''u1''
   \<and> verify_session sample_lib 2592001 (sign_session sample_lib 0 ''u1'' session_ttl) = None"
proof -
  have "plain_id ''u1''" by code_simp
  then show ?thesis
    using session_roundtrip [of "''u1''" 0 session_ttl] by (simp add: session_ttl_def)
qed

text \<open>With the message itself as its code, only the message that was signed has that code.\<close>

definition injective_lib :: sign_lib where
  "injective_lib = sample_lib\<lparr>lb_hmac := (\<lambda>m. m)\<rparr>"

lemma injective_hmac: "lb_hmac injective_lib m = m"
  by (simp add: injective_lib_def)

lemma injective_unforged:
  "unforged injective_lib {} {(''u1'', ''email'', 600)} (sign_challenge injective_lib 0 ''u1'' ''email'' login_challenge_ttl)"
proof -
  let ?b = "b64_encode url_alphabet (bytes_of (challenge_payload ''u1'' ''email'' 600))"
  have tok: "sign_challenge injective_lib 0 ''u1'' ''email'' login_challenge_ttl = ?b @ CHR ''.'' # challenge_mac injective_lib ?b"
    by (simp add: sign_challenge_def login_challenge_ttl_def Let_def)
  have "pre @ ?b \<in> signed_messages {} {(''u1'', ''email'', 600)}"
    if "challenge_mac injective_lib ?b = token_mac injective_lib pre ?b" for pre
  proof -
    have "''login-challenge:'' @ ?b = pre @ ?b"
      using that unfolding challenge_mac_def token_mac_def injective_hmac
      by (rule b64_encode_inj [OF url_alphabet_good])
    then show ?thesis unfolding signed_messages_def by auto
  qed
  then show ?thesis
    unfolding unforged_def tok by auto
qed

theorem login_needs_both_factors_witness:
  "\<exists>row. otp_of sample_sign ''u1'' = Some row
     \<and> fst (login_verify injective_lib no_faults 30 login_limiter ''ip''
          (Some (sign_challenge injective_lib 0 ''u1'' ''email'' login_challenge_ttl, ''042042'')) sample_sign)
       = SessionToken (sign_session injective_lib 30 ''u1'' session_ttl)
     \<and> lb_matches injective_lib (ot_hash row) ''042042''"
proof -
  let ?ch = "sign_challenge injective_lib 0 ''u1'' ''email'' login_challenge_ttl"
  let ?r = "login_verify injective_lib no_faults 30 login_limiter ''ip'' (Some (?ch, ''042042'')) sample_sign"
  have pl: "plain_id ''u1''" "plain_id ''email''" and ts: "trim_space ''042042'' = ''042042''" by code_simp+
  have ch: "verify_challenge injective_lib 30 ?ch = Some (''u1'', ''email'')"
    using parse_challenge_payload [OF pl, of 600]
    by (simp add: verify_challenge_def sign_challenge_def login_challenge_ttl_def Let_def)
  have fac: "check_factor injective_lib no_faults 0 30 sample_sign ''email'' ''u1'' ''042042'' = (True, sample_sign\<lparr>sg_otps := []\<rparr>)"
    by (simp add: check_factor_def check_login_otp_def otp_decide_def delete_otp_def sample_sign_def otp_max_attempts_def
        injective_lib_def sample_lib_def)
  have al: "fst (allow ''ip'' 30 30 login_limiter)"
    by (simp add: allow_def login_limiter_def new_limiter_def)
  have fr: "fst ?r = SessionToken (sign_session injective_lib 30 ''u1'' session_ttl)"
    unfolding login_verify_def using al fac by (simp add: ch ts issue_session_def case_prod_unfold Let_def)
  then have run: "?r = (SessionToken (sign_session injective_lib 30 ''u1'' session_ttl), fst (snd ?r), snd (snd ?r))"
    by (simp add: prod_eq_iff)
  have "plain_claims {} {(''u1'', ''email'', 600)}" using pl by (simp add: plain_claims_def)
  from login_needs_both_factors [OF run injective_unforged this]
  show ?thesis unfolding fr by (auto simp: ts)
qed

theorem otp_guesses_bounded_witness:
  "\<not> otp_run sample_lib ''u1'' (replicate 5 (10, ''000000'') @ [(11, ''042042'')]) sample_sign ! 5"
  using otp_guesses_bounded [OF sample_otp, of "replicate 5 (10, ''000000'') @ [(11, ''042042'')]" 5 sample_lib]
  by simp

theorem otp_parallel_guesses_unbounded_witness:
  "otp_parallel sample_lib ''u1'' \<lparr>ot_user = ''u1'', ot_hash = ''042042'', ot_attempts = 0, ot_expires = 600\<rparr>
     (replicate 9 (10, ''000000'') @ [(11, ''042042'')]) sample_sign ! 9"
  using otp_parallel_guesses_unbounded [of "\<lparr>ot_user = ''u1'', ot_hash = ''042042'', ot_attempts = 0, ot_expires = 600\<rparr>"
     "replicate 9 (10, ''000000'') @ [(11, ''042042'')]" sample_lib "''u1''" sample_sign]
  by (simp add: nth_append sample_lib_def)

theorem confirm_error_enables_totp_witness:
  "fst (mfa_confirm sample_lib (\<lambda>k. if k = 3 then Some AuthNotFound else None) 0 (\<lambda>_. []) (\<lambda>_. []) (\<lambda>_. []) ''ip''
     sample_user ''123456'' sample_sign) = (Answer 400, [])"
proof -
  let ?flt = "\<lambda>k. if k = 3 then Some AuthNotFound else None"
  have ts: "trim_space ''123456'' = ''123456''" by code_simp
  have f: "find (\<lambda>r. u_id r = u_id sample_user) (users (sg_auth sample_sign)) = Some sample_user"
    by (simp add: sample_sign_def billing_db_def)
  have s: "totp_secret sample_lib ?flt 0 sample_sign (u_id sample_user) = ''s''"
    by (simp add: totp_secret_def cipher_decrypt_def sample_lib_def has_user_def sample_sign_def billing_db_def)
  have tt: "lb_totp sample_lib t c x \<longleftrightarrow> c = ''123456''" for t c x by (simp add: sample_lib_def)
  show ?thesis
    using confirm_error_enables_totp [OF f, of ?flt sample_lib 0 "''123456''" "\<lambda>_. []" "\<lambda>_. []" "\<lambda>_. []" "''ip''"]
    by (auto simp: s ts tt)
qed

end
