(* ===== verification/Api_Gate.thy ===== *)
theory Api_Gate
  imports Sign_In
begin

text \<open>
  What stands before the handlers of the API: the addresses of a request (\<open>middleware/clientip.go\<close>),
  the rate limiter (\<open>ratelimit.go\<close>), the check of keys, sessions, bans, pauses and expired plans
  (\<open>middleware/auth.go\<close>), registration (\<open>handlers/auth.go\<close>, \<open>shared/auth/partners.go\<close>) and the
  account's own page (\<open>handlers/account.go\<close>, \<open>shared/auth/account.go\<close>). The token bucket of
  \<open>golang.org/x/time/rate\<close>, the captcha, the mail exchanger lookup and the list of disposable domains are
  arguments.
\<close>

section \<open>Requests\<close>

record http_req =
  rq_path :: string
  rq_method :: string
  rq_authorization :: string
  rq_query_key :: string
  rq_session_header :: string
  rq_cookie :: "string option"
  rq_proxy_secret :: string
  rq_proxy_ip :: string
  rq_cf_ip :: string
  rq_forwarded :: string
  rq_real_ip :: string
  rq_remote :: string

definition extract_api_key :: "http_req \<Rightarrow> string" where
  "extract_api_key r =
     (if has_prefix (rq_authorization r) ''Bearer '' then trim_prefix (rq_authorization r) ''Bearer ''
      else rq_query_key r)"

definition session_token :: "http_req \<Rightarrow> string" where
  "session_token r =
     (if rq_session_header r \<noteq> [] then rq_session_header r
      else case rq_cookie r of Some c \<Rightarrow> c | None \<Rightarrow> [])"

definition trusted_forwarded_ip :: "string \<Rightarrow> http_req \<Rightarrow> string" where
  "trusted_forwarded_ip secret r =
     (if secret = [] \<or> rq_proxy_secret r = [] \<or> rq_proxy_secret r \<noteq> secret then [] else rq_proxy_ip r)"

definition edge_ip :: "string \<Rightarrow> http_req \<Rightarrow> string" where
  "edge_ip secret r = (if trusted_forwarded_ip secret r \<noteq> [] then trusted_forwarded_ip secret r else rq_cf_ip r)"

definition client_ip :: "string \<Rightarrow> http_req \<Rightarrow> string" where
  "client_ip secret r =
     (if edge_ip secret r \<noteq> [] then edge_ip secret r
      else if rq_forwarded r \<noteq> [] then
        (case index_of (rq_forwarded r) '','' of
           Some i \<Rightarrow> if i > 0 then trim_space (take i (rq_forwarded r)) else trim_space (rq_forwarded r)
         | None \<Rightarrow> trim_space (rq_forwarded r))
      else if rq_real_ip r \<noteq> [] then rq_real_ip r
      else case last_index_of (rq_remote r) '':'' of
             Some i \<Rightarrow> if i > 0 then take i (rq_remote r) else rq_remote r
           | None \<Rightarrow> rq_remote r)"

section \<open>The rate limiter\<close>

record 'l rate_lib =
  rl_new :: 'l
  rl_allow :: "int \<Rightarrow> 'l \<Rightarrow> bool \<times> 'l"

type_synonym 'l buckets = "string \<rightharpoonup> 'l \<times> int"

definition get_bucket :: "'l rate_lib \<Rightarrow> int \<Rightarrow> 'l buckets \<Rightarrow> string \<Rightarrow> 'l" where
  "get_bucket rl now bs key = (case bs key of None \<Rightarrow> rl_new rl | Some (l, _) \<Rightarrow> l)"

text \<open>Whether the request passes. A key that is exempt, and a request with neither key nor address, always do.\<close>

definition rate_limit :: "'l rate_lib \<Rightarrow> int \<Rightarrow> string list \<Rightarrow> string \<Rightarrow> int \<Rightarrow> http_req \<Rightarrow> 'l buckets \<Rightarrow> bool \<times> 'l buckets" where
  "rate_limit rl rps exempt secret now r bs =
     (if rps \<le> 0 then (True, bs)
      else let key0 = extract_api_key r in
        if key0 \<noteq> [] \<and> key0 \<in> set exempt then (True, bs)
        else let key = (if key0 = [] then edge_ip secret r else key0) in
          if key = [] then (True, bs)
          else let (ok, l) = rl_allow rl now (get_bucket rl now bs key) in (ok, bs(key \<mapsto> (l, now))))"

definition sweep :: "int \<Rightarrow> 'l buckets \<Rightarrow> 'l buckets" where
  "sweep now bs = (\<lambda>k. case bs k of None \<Rightarrow> None | Some (l, seen) \<Rightarrow> if seen < now - 600 then None else Some (l, seen))"

section \<open>Authentication\<close>

definition expired_free_allowed :: "string \<Rightarrow> bool" where
  "expired_free_allowed path \<longleftrightarrow> path \<in> {''/api/me'', ''/api/plans'', ''/api/stats'', ''/api/redeem'', ''/api/wallet'',
      ''/api/wallet/topup'', ''/api/wallet/buy-plan''}
    \<or> has_prefix path ''/api/billing/'' \<or> has_prefix path ''/api/auth/2fa/''"

definition paused_allowed :: "string \<Rightarrow> string \<Rightarrow> bool" where
  "paused_allowed path method \<longleftrightarrow> path \<in> {''/api/me'', ''/api/me/resume'', ''/api/me/pause'', ''/api/plans'', ''/api/stats'',
      ''/api/history''}
    \<or> method = ''GET'' \<and> (path = ''/api/jobs'' \<or> has_prefix path ''/api/jobs/'')"

datatype gate_answer = Reject nat | Pass user bool

text \<open>Who asks: a key wins over a session, and a key that fails is not replaced by the session.\<close>

definition auth_resolve :: "sign_lib \<Rightarrow> auth_error faults \<Rightarrow> nat \<Rightarrow> int \<Rightarrow> http_req \<Rightarrow> sign_db \<Rightarrow> nat + user \<times> bool" where
  "auth_resolve lib flt k now r d =
     (if extract_api_key r \<noteq> [] then
        (case resolve_api_key flt k d (extract_api_key r) of Inl _ \<Rightarrow> Inl 401 | Inr ul \<Rightarrow> Inr ul)
      else if session_token r \<noteq> [] then
        (case verify_session lib now (session_token r) of None \<Rightarrow> Inl 401
         | Some uid \<Rightarrow> (case get_by_id flt k (sg_auth d) uid of Inl _ \<Rightarrow> Inl 401 | Inr u \<Rightarrow> Inr (u, True)))
      else Inl 401)"

text \<open>What the row that was read allows; an expired paid plan is written back as a free day.\<close>

definition auth_admit :: "auth_error faults \<Rightarrow> nat \<Rightarrow> int \<Rightarrow> http_req \<Rightarrow> user \<Rightarrow> bool \<Rightarrow> sign_db \<Rightarrow> gate_answer \<times> sign_db" where
  "auth_admit flt k now r u login d =
     (if banned u then (Reject 403, d)
      else if is_paused u \<and> \<not> paused_allowed (rq_path r) (rq_method r) then (Reject 403, d)
      else if expires_at u < now then
        if u_plan u = ''free'' then
          if expired_free_allowed (rq_path r) then (Pass u login, d) else (Reject 403, d)
        else (Pass (u\<lparr>u_plan := ''free'', expires_at := now + day\<rparr>) login,
              d\<lparr>sg_auth := snd (update_plan flt k now (sg_auth d) (u_id u) ''free'' [] (license_key u) [] (now + day))\<rparr>)
      else (Pass u login, d))"

definition auth_gate :: "sign_lib \<Rightarrow> auth_error faults \<Rightarrow> int \<Rightarrow> http_req \<Rightarrow> sign_db \<Rightarrow> gate_answer \<times> sign_db" where
  "auth_gate lib flt now r d =
     (case auth_resolve lib flt 0 now r d of Inl s \<Rightarrow> (Reject s, d)
      | Inr (u, login) \<Rightarrow> auth_admit flt 3 now r u login d)"

definition require_login :: "bool \<Rightarrow> nat option" where
  "require_login login = (if login then None else Some 403)"

text \<open>The status of the refusal, or \<open>None\<close>.\<close>

definition require_session :: "sign_lib \<Rightarrow> int \<Rightarrow> http_req \<Rightarrow> user option \<Rightarrow> bool \<Rightarrow> nat option" where
  "require_session lib now r who login =
     (case who of None \<Rightarrow> Some 403
      | Some u \<Rightarrow>
          if \<not> login then Some 403
          else if totp_enabled u \<and> verify_session lib now (session_token r) \<noteq> Some (u_id u) then Some 401
          else None)"

definition plan_of :: "user option \<Rightarrow> plan" where
  "plan_of who = (case who of None \<Rightarrow> free_plan
     | Some u \<Rightarrow> (case get_plan (u_plan u) of None \<Rightarrow> free_plan | Some p \<Rightarrow> p))"

section \<open>Registration\<close>

record signup =
  su_email :: string
  su_ref :: string
  su_query_ref :: string
  su_cookie_ref :: "string option"
  su_partner_key :: string
  su_captcha_ok :: bool

definition trusted_partner :: "string \<Rightarrow> string \<Rightarrow> bool" where
  "trusted_partner header key \<longleftrightarrow> key \<noteq> [] \<and> header = key"

text \<open>Whether the welcome mail is suppressed, the partner, and whether the caller is trusted.\<close>

definition partner_register :: "(string \<Rightarrow> string) \<Rightarrow> string \<Rightarrow> auth_error faults \<Rightarrow> nat \<Rightarrow> shop_db \<Rightarrow> string
    \<Rightarrow> bool \<times> string \<times> bool" where
  "partner_register hash operator_key flt k sh key =
     (if key = [] then (False, [], False)
      else if trusted_partner key operator_key then (False, [], True)
      else case partner_by_key_hash flt k sh (hash key) of
             Inr p \<Rightarrow> (p_suppress_welcome p, p_id p, True) | Inl _ \<Rightarrow> (False, [], False))"

definition valid_signup_email :: "(string \<Rightarrow> bool) \<Rightarrow> string \<Rightarrow> bool" where
  "valid_signup_email receives e =
     (case last_index_of e ''@'' of None \<Rightarrow> False
      | Some a \<Rightarrow> if a < 1 \<or> a = length e - 1 then False else receives (drop (Suc a) e))"

text \<open>The column \<open>partner_id\<close> of \<open>users\<close> is a map from the user's id.\<close>

definition account_for_partner :: "auth_error faults \<Rightarrow> nat \<Rightarrow> sign_db \<Rightarrow> (string \<Rightarrow> string) \<Rightarrow> string \<Rightarrow> string \<Rightarrow> user option" where
  "account_for_partner flt k d partner_of e pid =
     (if pid = [] \<or> flt k \<noteq> None then None
      else find (\<lambda>u. email u = normalize_email e \<and> partner_of (u_id u) = pid) (users (sg_auth d)))"

text \<open>The status and the key that is answered.\<close>

definition register_user :: "(string \<Rightarrow> string) \<Rightarrow> string \<Rightarrow> bool \<Rightarrow> (string \<Rightarrow> bool) \<Rightarrow> int \<Rightarrow> auth_error faults \<Rightarrow> env \<Rightarrow> string
    \<Rightarrow> shop_db \<Rightarrow> signup option \<Rightarrow> sign_db \<times> (string \<Rightarrow> string) \<Rightarrow> (nat \<times> string) \<times> sign_db \<times> (string \<Rightarrow> string)" where
  "register_user hash operator_key captcha_on receives free_limit flt ev ip sh req st =
     (let (d, partner_of) = st in
      case req of None \<Rightarrow> ((400, []), st)
      | Some q \<Rightarrow>
        if su_email q = [] then ((400, []), st)
        else let e = normalize_email (su_email q);
                 ref1 = (if su_ref q = [] then su_query_ref q else su_ref q);
                 ref = (if ref1 = [] then (case su_cookie_ref q of Some c \<Rightarrow> c | None \<Rightarrow> []) else ref1);
                 (suppress, pid, trusted) = partner_register hash operator_key flt 0 sh (su_partner_key q) in
        if \<not> trusted \<and> captcha_on \<and> \<not> su_captcha_ok q then ((403, []), st)
        else if \<not> valid_signup_email receives e then ((400, []), st)
        else case get_by_email flt 1 (sg_auth d) e of
          Inr _ \<Rightarrow> (case account_for_partner flt 2 d partner_of e pid of
              Some u \<Rightarrow> ((200, api_key u), st) | None \<Rightarrow> ((409, []), st))
        | Inl _ \<Rightarrow>
            if \<not> trusted \<and> 0 < free_limit \<and> ip \<noteq> []
               \<and> free_limit \<le> int (signups_from_ip flt 3 d ip (e_now ev - 30 * day)) then ((429, []), st)
            else (case create_user (after 4 flt) ev (sg_auth d) e ref of
              (Inl (AuthRefused _), a) \<Rightarrow> ((400, []), d\<lparr>sg_auth := a\<rparr>, partner_of)
            | (Inl _, a) \<Rightarrow> ((500, []), d\<lparr>sg_auth := a\<rparr>, partner_of)
            | (Inr u, a) \<Rightarrow>
                let po = (if pid \<noteq> [] \<and> flt 8 = None then partner_of(u_id u := pid) else partner_of)
                in ((201, api_key u),
                    audit_log flt 9 (e_now ev) (d\<lparr>sg_auth := a\<rparr>) (u_id u) ''account_created'' (''email='' @ e) ip, po)))"

section \<open>The account page\<close>

definition update_email :: "auth_error faults \<Rightarrow> nat \<Rightarrow> env \<Rightarrow> sign_db \<Rightarrow> string \<Rightarrow> string \<Rightarrow> (auth_error + unit) \<times> sign_db" where
  "update_email flt k ev d u e =
     (if e_burner ev e then (Inl (AuthRefused ''disposable email addresses are not allowed''), d)
      else let changes = (if flt k \<noteq> None then 0 else
                 count_where (\<lambda>a. au_user a = u \<and> au_action a = ''email_changed'' \<and> e_now ev - 30 * day < au_at a) (sg_audit d)) in
      if 2 \<le> changes then (Inl (AuthRefused ''email change limit reached (max 2 per month)''), d)
      else case run flt (Suc k) () of Inl er \<Rightarrow> (Inl er, d)
      | Inr _ \<Rightarrow>
          if list_ex (\<lambda>r. email r = e \<and> u_id r \<noteq> u) (users (sg_auth d)) then (Inl (AuthDBError ''unique violation''), d)
          else (Inr (), d\<lparr>sg_auth := (sg_auth d)\<lparr>users := upd_where (\<lambda>r. u_id r = u)
                  (\<lambda>r. r\<lparr>email := e, u_updated := e_now ev\<rparr>) (users (sg_auth d))\<rparr>\<rparr>))"

definition update_email_handler :: "auth_error faults \<Rightarrow> env \<Rightarrow> string \<Rightarrow> user \<Rightarrow> string option \<Rightarrow> sign_db \<Rightarrow> nat \<times> sign_db" where
  "update_email_handler flt ev ip u req d =
     (case req of None \<Rightarrow> (400, d)
      | Some e \<Rightarrow>
          if e = [] then (400, d)
          else case update_email flt 0 ev d (u_id u) e of (Inl _, d1) \<Rightarrow> (400, d1)
          | (Inr _, d1) \<Rightarrow> (200, audit_log flt 2 (e_now ev) d1 (u_id u) ''email_changed'' [] ip))"

definition delete_user :: "auth_error faults \<Rightarrow> nat \<Rightarrow> int \<Rightarrow> sign_db \<Rightarrow> string \<Rightarrow> (auth_error + unit) \<times> sign_db" where
  "delete_user flt k now d i =
     (let e = (case run flt k (find (\<lambda>u. u_id u = i) (users (sg_auth d))) of Inr (Some u) \<Rightarrow> email u | _ \<Rightarrow> []);
          a = sg_auth d;
          d1 = (if e \<noteq> [] \<and> flt (Suc k) = None \<and> e \<notin> set (deleted_emails a)
                then d\<lparr>sg_auth := a\<lparr>deleted_emails := deleted_emails a @ [e]\<rparr>\<rparr> else d);
          d2 = audit_log flt (Suc (Suc k)) now d1 i ''account_deleted'' (''email='' @ e) [] in
      (case run flt (k + 3) () of Inl er \<Rightarrow> (Inl er, d2)
       | Inr _ \<Rightarrow> (Inr (), d2\<lparr>sg_auth := (sg_auth d2)\<lparr>users := filter (\<lambda>u. u_id u \<noteq> i) (users (sg_auth d2))\<rparr>\<rparr>)))"

definition regenerate_api_key :: "auth_error faults \<Rightarrow> nat \<Rightarrow> int \<Rightarrow> string \<Rightarrow> sign_db \<Rightarrow> string \<Rightarrow> (auth_error + string) \<times> sign_db" where
  "regenerate_api_key flt k now key d i =
     (case run flt k () of Inl e \<Rightarrow> (Inl e, d)
      | Inr _ \<Rightarrow> (Inr key, audit_log flt (Suc k) now
          (d\<lparr>sg_auth := (sg_auth d)\<lparr>users := upd_where (\<lambda>r. u_id r = i) (\<lambda>r. r\<lparr>api_key := key, u_updated := now\<rparr>) (users (sg_auth d))\<rparr>\<rparr>)
          i ''key_regenerated'' [] []))"

definition generate_api_key :: "nat list \<Rightarrow> string" where
  "generate_api_key bytes = ''tr_'' @ b64_encode url_alphabet bytes"

definition pause_handler :: "auth_error faults \<Rightarrow> int \<Rightarrow> user \<Rightarrow> sign_db \<Rightarrow> (nat \<times> int) \<times> sign_db" where
  "pause_handler flt now u d =
     (case pause_sub flt now (sg_auth d) (u_id u) of
        (Inl _, a) \<Rightarrow> ((400, 0), d\<lparr>sg_auth := a\<rparr>) | (Inr n, a) \<Rightarrow> ((200, n), d\<lparr>sg_auth := a\<rparr>))"

definition resume_handler :: "auth_error faults \<Rightarrow> int \<Rightarrow> user \<Rightarrow> sign_db \<Rightarrow> (nat \<times> int) \<times> sign_db" where
  "resume_handler flt now u d =
     (case resume_sub flt now (sg_auth d) (u_id u) of
        (Inl _, a) \<Rightarrow> ((400, 0), d\<lparr>sg_auth := a\<rparr>) | (Inr ex, a) \<Rightarrow> ((200, ex), d\<lparr>sg_auth := a\<rparr>))"

definition regenerate_handler :: "auth_error faults \<Rightarrow> int \<Rightarrow> string \<Rightarrow> string \<Rightarrow> user \<Rightarrow> sign_db \<Rightarrow> (nat \<times> string) \<times> sign_db" where
  "regenerate_handler flt now key ip u d =
     (case regenerate_api_key flt 0 now key d (u_id u) of
        (Inl _, d1) \<Rightarrow> ((500, []), d1)
      | (Inr k, d1) \<Rightarrow> ((200, k), audit_log flt 2 now d1 (u_id u) ''key_regenerated'' [] ip))"

section \<open>Lemmas\<close>

lemma auth_admit_Pass:
  assumes "auth_admit flt k now r u login d = (Pass u' l', d')"
  shows "\<not> banned u" "l' = login" "u_id u' = u_id u" "totp_enabled u' = totp_enabled u"
    "is_paused u \<Longrightarrow> paused_allowed (rq_path r) (rq_method r)"
    "expires_at u' < now \<Longrightarrow> u_plan u' = ''free'' \<and> expired_free_allowed (rq_path r)"
  using assms by (auto simp: auth_admit_def split: if_splits)

text \<open>An expired paid row that passes is written back as free.\<close>

lemma auth_admit_expired:
  assumes "\<not> banned u" "is_paused u \<Longrightarrow> paused_allowed (rq_path r) (rq_method r)" "expires_at u < now" "u_plan u \<noteq> ''free''"
    and "find (\<lambda>x. u_id x = u_id u) (users (sg_auth d)) = Some row"
  shows "auth_admit no_faults k now r u login d =
      (Pass (u\<lparr>u_plan := ''free'', expires_at := now + day\<rparr>) login,
       d\<lparr>sg_auth := set_plan now (u_id u) ''free'' [] (license_key u) [] (now + day) (sg_auth d)\<rparr>)"
    and "find (\<lambda>x. u_id x = u_id u) (users (sg_auth (snd (auth_admit no_faults k now r u login d))))
      = Some (planned_row now ''free'' [] (license_key u) [] (now + day) row)"
proof -
  show a: "auth_admit no_faults k now r u login d =
      (Pass (u\<lparr>u_plan := ''free'', expires_at := now + day\<rparr>) login,
       d\<lparr>sg_auth := set_plan now (u_id u) ''free'' [] (license_key u) [] (now + day) (sg_auth d)\<rparr>)"
    using assms(1-4) by (auto simp: auth_admit_def update_plan_def)
  show "find (\<lambda>x. u_id x = u_id u) (users (sg_auth (snd (auth_admit no_faults k now r u login d))))
      = Some (planned_row now ''free'' [] (license_key u) [] (now + day) row)"
    unfolding a using find_user_upd [OF assms(5), of "planned_row now ''free'' [] (license_key u) [] (now + day)"]
    by (simp add: set_plan_def planned_row_def)
qed

text \<open>A sequence of requests through the limiter.\<close>

fun limited_run :: "'l rate_lib \<Rightarrow> int \<Rightarrow> string list \<Rightarrow> string \<Rightarrow> (int \<times> http_req) list \<Rightarrow> 'l buckets \<Rightarrow> bool list" where
  "limited_run rl rps exempt secret [] bs = []"
| "limited_run rl rps exempt secret ((t, r) # rs) bs =
     (let (ok, bs') = rate_limit rl rps exempt secret t r bs in ok # limited_run rl rps exempt secret rs bs')"

section \<open>Properties\<close>

text \<open>
  C21: the gate lets in only whom it should. A request passes as a user who exists and is not banned,
  named by a live key or by a session the server issued and that has not expired; a paused account gets no
  further than its own pages, an expired free one no further than billing, and past \<open>RequireSession\<close> an account with two
  factors is there with a session of its own, not with a key alone.
\<close>

theorem gate_admits_only:
  assumes "auth_gate lib flt now r d = (Pass u login, d')" and "unforged lib S C (session_token r)" and "plain_claims S C"
  shows "\<exists>u0\<in>set (users (sg_auth d)). u_id u = u_id u0 \<and> \<not> banned u0
    \<and> (if extract_api_key r \<noteq> []
       then api_key u0 = extract_api_key r \<and> login
            \<or> (\<exists>k\<in>set (sg_keys d). ak_key k = extract_api_key r \<and> ak_revoked k = None \<and> ak_user k = u_id u0 \<and> ak_login k = login)
       else \<exists>e. (u_id u0, e) \<in> S \<and> now \<le> e)
    \<and> (is_paused u0 \<longrightarrow> paused_allowed (rq_path r) (rq_method r))
    \<and> (expires_at u < now \<longrightarrow> u_plan u = ''free'' \<and> expired_free_allowed (rq_path r))
    \<and> (require_session lib now r (Some u) login = None \<longrightarrow> login \<and> (totp_enabled u0 \<longrightarrow> (\<exists>e. (u_id u0, e) \<in> S \<and> now \<le> e)))"
proof -
  obtain u0 where res: "auth_resolve lib flt 0 now r d = Inr (u0, login)" and adm: "auth_admit flt 3 now r u0 login d = (Pass u login, d')"
    using assms(1) auth_admit_Pass(2) by (fastforce simp: auth_gate_def split: sum.splits)
  note pass = auth_admit_Pass [OF adm]
  have who: "u0 \<in> set (users (sg_auth d)) \<and> (if extract_api_key r \<noteq> []
       then api_key u0 = extract_api_key r \<and> login
            \<or> (\<exists>k\<in>set (sg_keys d). ak_key k = extract_api_key r \<and> ak_revoked k = None \<and> ak_user k = u_id u0 \<and> ak_login k = login)
       else \<exists>e. (u_id u0, e) \<in> S \<and> now \<le> e)"
  proof (cases "extract_api_key r = []")
    case True
    then have "verify_session lib now (session_token r) = Some (u_id u0) \<and> u0 \<in> set (users (sg_auth d))"
      using res by (auto simp: auth_resolve_def get_by_id_Inr split: if_splits option.splits sum.splits dest!: find_Some_mem)
    then show ?thesis using True verify_session_issued [OF assms(2,3)] by auto
  next
    case False
    then have "resolve_api_key flt 0 d (extract_api_key r) = Inr (u0, login)"
      using res by (auto simp: auth_resolve_def split: sum.splits)
    then show ?thesis
      using False by (auto simp: resolve_api_key_def get_by_id_Inr run_def split: option.splits sum.splits dest!: find_Some_mem)
  qed
  have "login \<and> (totp_enabled u0 \<longrightarrow> (\<exists>e. (u_id u0, e) \<in> S \<and> now \<le> e))" if "require_session lib now r (Some u) login = None"
    using that pass(3,4) verify_session_issued [OF assms(2,3)] by (auto simp: require_session_def split: if_splits)
  then show ?thesis
    using who pass by (intro bexI [of _ u0]) auto
qed

text \<open>
  C40: a paused subscription is forfeited when its old expiry passes. Pausing leaves \<open>expires_at\<close>
  as it was. A request a paused account may not make is refused before the expiry is looked at; but the first
  one after that date that it may make (its own pages, its jobs, and the one that would resume included) makes the account
  free, drops the banked days, and resuming then gives nothing back.
\<close>

theorem pause_past_expiry_forfeits:
  assumes "pause_sub no_faults t0 (sg_auth d) (u_id u) = (Inr n, a)"
    and "find (\<lambda>x. u_id x = u_id u) (users (sg_auth d)) = Some u" and "\<not> is_paused u" and "\<not> banned u"
    and "expires_at u < now" and "find (\<lambda>x. u_id x = u_id u) (users a) = Some u1"
  shows "if paused_allowed (rq_path r) (rq_method r)
    then \<exists>u' d' row. auth_admit no_faults k now r u1 login (d\<lparr>sg_auth := a\<rparr>) = (Pass u' login, d')
      \<and> find (\<lambda>x. u_id x = u_id u) (users (sg_auth d')) = Some row
      \<and> u_plan row = ''free'' \<and> remaining_days row = 0 \<and> \<not> is_paused row \<and> expires_at row = now + day
      \<and> resume_handler no_faults later u' d' = ((200, now + day), d')
    else auth_admit no_faults k now r u1 login (d\<lparr>sg_auth := a\<rparr>) = (Reject 403, d\<lparr>sg_auth := a\<rparr>)"
proof -
  have not_free: "u_plan u \<noteq> ''free''" using assms(1,2) by (auto simp: pause_sub_def get_by_id_def split: if_splits)
  have "u1 = u\<lparr>paused_at := Some t0, remaining_days := n, pause_count := pause_count u + 1, last_paused_at := Some t0, u_updated := t0\<rparr>"
  proof -
    have "a = (sg_auth d)\<lparr>users := upd_where (\<lambda>r. u_id r = u_id u) (\<lambda>r. r\<lparr>paused_at := Some t0, remaining_days := n,
        pause_count := pause_count r + 1, last_paused_at := Some t0, u_updated := t0\<rparr>) (users (sg_auth d))\<rparr>"
      using assms(1-3) by (auto simp: pause_sub_def get_by_id_def Let_def split: if_splits option.splits)
    then show ?thesis using find_user_upd [OF assms(2), of "\<lambda>r. r\<lparr>paused_at := Some t0, remaining_days := n,
        pause_count := pause_count r + 1, last_paused_at := Some t0, u_updated := t0\<rparr>"] assms(6) by simp
  qed
  then have u1: "is_paused u1" "u_id u1 = u_id u" "\<not> banned u1" "expires_at u1 < now" "u_plan u1 \<noteq> ''free''"
    using assms(4,5) not_free by (simp_all add: is_paused_def)
  show ?thesis
  proof (cases "paused_allowed (rq_path r) (rq_method r)")
    case ok: True
    have f: "find (\<lambda>x. u_id x = u_id u1) (users (sg_auth (d\<lparr>sg_auth := a\<rparr>))) = Some u1"
    using assms(6) u1(2) by simp
  note adm = auth_admit_expired [OF u1(3) ok u1(4,5) f, of k login]
  let ?row = "planned_row now ''free'' [] (license_key u1) [] (now + day) u1"
  let ?d = "snd (auth_admit no_faults k now r u1 login (d\<lparr>sg_auth := a\<rparr>))"
  have row: "u_plan ?row = ''free''" "remaining_days ?row = 0" "\<not> is_paused ?row" "expires_at ?row = now + day"
    by (simp_all add: planned_row_def is_paused_def)
  have "resume_handler no_faults later (u1\<lparr>u_plan := ''free'', expires_at := now + day\<rparr>) ?d = ((200, now + day), ?d)"
    using adm(2) row(3,4) by (simp add: resume_handler_def resume_sub_def get_by_id_def)
  then show ?thesis
    using adm row u1(2) unfolding if_P [OF ok] by (intro exI [of _ "u1\<lparr>u_plan := ''free'', expires_at := now + day\<rparr>"] exI [of _ ?d] exI [of _ ?row]) simp
  next
    case False
    with u1(1,3) show ?thesis by (simp add: auth_admit_def)
  qed
qed

text \<open>
  A plan bought while an expired account is being checked is lost. The check writes the free plan by
  the row it read; whatever the row has become in between, a purchase included, the account ends free with
  one day.
\<close>

theorem expiry_check_undoes_purchase:
  assumes "\<not> banned u" and "\<not> is_paused u" and "expires_at u < now" and "u_plan u \<noteq> ''free''"
    and "find (\<lambda>x. u_id x = u_id u) (users (sg_auth d)) = Some u"
    and "grant_plan no_faults j now (sg_auth d) u pid period [] lic days = (Inr (), a)"
  shows "\<exists>row1 row2. find (\<lambda>x. u_id x = u_id u) (users a) = Some row1 \<and> u_plan row1 = pid \<and> expires_at row1 = crypto_expiry now period days
    \<and> find (\<lambda>x. u_id x = u_id u) (users (sg_auth (snd (auth_admit no_faults k now r u login (d\<lparr>sg_auth := a\<rparr>))))) = Some row2
    \<and> u_plan row2 = ''free'' \<and> expires_at row2 = now + day"
proof -
  let ?row = "planned_row now pid [] lic period (crypto_expiry now period days) u"
  have a: "a = set_plan now (u_id u) pid [] lic period (crypto_expiry now period days) (sg_auth d)"
    using assms(3,6) by (simp add: grant_plan_def update_plan_def plan_expiry_def)
  have f: "find (\<lambda>x. u_id x = u_id u) (users a) = Some ?row"
    unfolding a using find_user_upd [OF assms(5), of "planned_row now pid [] lic period (crypto_expiry now period days)"]
    by (simp add: set_plan_def planned_row_def)
  have "find (\<lambda>x. u_id x = u_id u) (users (sg_auth (snd (auth_admit no_faults k now r u login (d\<lparr>sg_auth := a\<rparr>)))))
      = Some (planned_row now ''free'' [] (license_key u) [] (now + day) ?row)"
    using f assms(2) by (intro auth_admit_expired(2) [OF assms(1) _ assms(3,4)]) auto
  then show ?thesis using f by (auto simp: planned_row_def)
qed

text \<open>
  The rate limiter can be walked around. Its key is whatever the request offers as an API key, before
  anybody checks it: requests that each carry a key not offered before all pass, however many they are.
\<close>

theorem fresh_keys_bypass_limit:
  assumes "\<And>t. fst (rl_allow rl t (rl_new rl))"
    and "distinct (map (extract_api_key \<circ> snd) rs)" and "\<forall>(t, r)\<in>set rs. extract_api_key r \<noteq> [] \<and> bs (extract_api_key r) = None"
  shows "limited_run rl rps exempt secret rs bs = replicate (length rs) True"
  using assms(2,3)
proof (induction rs arbitrary: bs)
  case Nil
  then show ?case by simp
next
  case (Cons tr rs)
  obtain t r where tr: "tr = (t, r)" by (cases tr)
  let ?k = "extract_api_key r"
  let ?res = "rate_limit rl rps exempt secret t r bs"
  have k: "?k \<noteq> []" "bs ?k = None" using Cons.prems(2) by (simp_all add: tr)
  have ok: "fst ?res" using k assms(1) by (auto simp: rate_limit_def get_bucket_def Let_def case_prod_unfold)
  have keep: "snd ?res k' = bs k'" if "k' \<noteq> ?k" for k'
    using that k by (auto simp: rate_limit_def Let_def case_prod_unfold)
  have "limited_run rl rps exempt secret rs (snd ?res) = replicate (length rs) True"
  proof (rule Cons.IH)
    show "distinct (map (extract_api_key \<circ> snd) rs)" using Cons.prems(1) by (simp add: comp_def)
    show "\<forall>(t, r)\<in>set rs. extract_api_key r \<noteq> [] \<and> snd ?res (extract_api_key r) = None"
    proof (clarify, intro conjI)
      fix t' r' assume m: "(t', r') \<in> set rs"
      then have "extract_api_key r' \<noteq> ?k" using Cons.prems(1) by (force simp: tr)
      then show "snd ?res (extract_api_key r') = None" using keep Cons.prems(2) m by auto
      show "extract_api_key r' \<noteq> []" using Cons.prems(2) m by auto
    qed
  qed
  then show ?case using ok by (simp add: tr Let_def case_prod_unfold)
qed


section \<open>Witnesses\<close>

definition sample_request :: http_req where
  "sample_request = \<lparr>rq_path = ''/api/jobs'', rq_method = ''POST'', rq_authorization = ''Bearer k1'', rq_query_key = [],
     rq_session_header = [], rq_cookie = None, rq_proxy_secret = [], rq_proxy_ip = [], rq_cf_ip = ''9.9.9.9'',
     rq_forwarded = [], rq_real_ip = [], rq_remote = []\<rparr>"

lemma sample_key: "extract_api_key sample_request = ''k1''" "session_token sample_request = []"
  by code_simp+

lemma sample_find: "find (\<lambda>x. u_id x = u_id sample_user) (users (sg_auth sample_sign)) = Some sample_user"
  by (simp add: sample_sign_def billing_db_def)

lemma sample_user_columns: "\<not> banned sample_user" "\<not> is_paused sample_user" "expires_at sample_user = 100 * day"
  "u_plan sample_user = ''pro''" "u_id sample_user = ''u1''" "api_key sample_user = ''k1''"
  by (simp_all add: sample_user_def is_paused_def)

theorem gate_admits_only_witness:
  "fst (auth_gate sample_lib no_faults 5 sample_request sample_sign) = Pass sample_user True
   \<and> (\<exists>u0\<in>set (users (sg_auth sample_sign)). u_id sample_user = u_id u0 \<and> \<not> banned u0)"
proof -
  have "auth_resolve sample_lib no_faults 0 5 sample_request sample_sign = Inr (sample_user, True)"
    by (simp add: auth_resolve_def sample_key resolve_api_key_def sample_sign_def billing_db_def sample_user_columns)
  then have g: "auth_gate sample_lib no_faults 5 sample_request sample_sign = (Pass sample_user True, sample_sign)"
    by (simp add: auth_gate_def auth_admit_def sample_user_columns)
  have "unforged sample_lib {} {} (session_token sample_request)"
    by (simp add: unforged_def sample_key cut_def)
  from gate_admits_only [OF g this] show ?thesis by (auto simp: g plain_claims_def)
qed

theorem pause_past_expiry_forfeits_witness:
  "\<exists>a u1 u' d' row. pause_sub no_faults 40 billing_db ''u1'' = (Inr 100, a)
    \<and> auth_admit no_faults 0 (101 * day) (sample_request\<lparr>rq_path := ''/api/me/resume''\<rparr>) u1 True (sample_sign\<lparr>sg_auth := a\<rparr>) = (Pass u' True, d')
    \<and> find (\<lambda>x. u_id x = ''u1'') (users (sg_auth d')) = Some row \<and> u_plan row = ''free'' \<and> remaining_days row = 0"
proof -
  let ?p = "pause_sub no_faults 40 billing_db ''u1''"
  have p: "?p = (Inr 100, snd ?p)" by (simp add: pause_sub_def billing_eval ceil_days_def)
  have s: "sg_auth sample_sign = billing_db" by (simp add: sample_sign_def)
  obtain u1 where u1: "find (\<lambda>x. u_id x = ''u1'') (users (snd ?p)) = Some u1"
    by (simp add: pause_sub_def billing_eval ceil_days_def)
  define r where "r = sample_request\<lparr>rq_path := ''/api/me/resume''\<rparr>"
  have ok: "paused_allowed (rq_path r) (rq_method r)" by (simp add: paused_allowed_def r_def)
  have "\<exists>u' d' row. auth_admit no_faults 0 (101 * day) r u1 True (sample_sign\<lparr>sg_auth := snd ?p\<rparr>) = (Pass u' True, d')
      \<and> find (\<lambda>x. u_id x = ''u1'') (users (sg_auth d')) = Some row \<and> u_plan row = ''free'' \<and> remaining_days row = 0"
    using pause_past_expiry_forfeits [of 40 sample_sign sample_user 100 "snd ?p" "101 * day" u1 r 0 True, unfolded if_P [OF ok]]
      p u1 sample_find sample_user_columns
    unfolding s by fastforce
  then show ?thesis using p unfolding r_def by blast
qed

theorem expiry_check_undoes_purchase_witness:
  "\<exists>row2. find (\<lambda>x. u_id x = ''u1'') (users (sg_auth (snd (auth_admit no_faults 0 (200 * day) sample_request sample_user True
      (sample_sign\<lparr>sg_auth := snd (grant_plan no_faults 0 (200 * day) billing_db sample_user ''pro'' ''yearly'' [] [] 0)\<rparr>))))) = Some row2
    \<and> u_plan row2 = ''free''"
proof -
  let ?g = "grant_plan no_faults 0 (200 * day) (sg_auth sample_sign) sample_user ''pro'' ''yearly'' [] [] 0"
  have g: "?g = (Inr (), snd ?g)" by (simp add: grant_plan_def update_plan_def)
  have s: "sg_auth sample_sign = billing_db" by (simp add: sample_sign_def)
  show ?thesis
    using expiry_check_undoes_purchase [OF sample_user_columns(1,2) _ _ sample_find g, of 0 sample_request True] sample_user_columns
    unfolding s by auto
qed

theorem fresh_keys_bypass_limit_witness:
  "limited_run \<lparr>rl_new = True, rl_allow = (\<lambda>_ b. (b, False))\<rparr> 30 [] []
     [(0, sample_request\<lparr>rq_authorization := ''Bearer a''\<rparr>), (0, sample_request\<lparr>rq_authorization := ''Bearer b''\<rparr>)] Map.empty
   = [True, True]"
proof -
  have "extract_api_key (sample_request\<lparr>rq_authorization := ''Bearer a''\<rparr>) = ''a''"
    "extract_api_key (sample_request\<lparr>rq_authorization := ''Bearer b''\<rparr>) = ''b''" by code_simp+
  then show ?thesis
    using fresh_keys_bypass_limit [of "\<lparr>rl_new = True, rl_allow = (\<lambda>_ b. (b, False))\<rparr>"
      "[(0, sample_request\<lparr>rq_authorization := ''Bearer a''\<rparr>), (0, sample_request\<lparr>rq_authorization := ''Bearer b''\<rparr>)]" Map.empty 30 "[]" "[]"]
    by (simp add: comp_def numeral_2_eq_2)
qed

end
