(* ===== verification/Go_Json.thy ===== *)
theory Go_Json
  imports Go_Strings
begin

text \<open>
  \<open>json.Marshal\<close> of a \<open>map[string]string\<close>: keys in order, no blanks, the escapes of Go's encoder.
  Texts are valid UTF-8 without the two line separators that the encoder escapes besides. The reader takes
  such objects back; an object with blanks between its tokens, other types of values, or an escape above 127 is
  \<open>None\<close> here.
\<close>

definition q_char :: char where "q_char = CHR 0x22"

definition bs_char :: char where "bs_char = CHR 0x5C"

definition short_escapes :: "(char \<times> char) list" where
  "short_escapes = [(CHR 0x22, CHR 0x22), (CHR 0x5C, CHR 0x5C), (CHR ''b'', CHR 0x08), (CHR ''f'', CHR 0x0C),
     (CHR ''n'', CHR 0x0A), (CHR ''r'', CHR 0x0D), (CHR ''t'', CHR 0x09)]"

definition json_char :: "char \<Rightarrow> string" where
  "json_char c =
     (case map_of (map prod.swap short_escapes) c of
        Some e \<Rightarrow> [bs_char, e]
      | None \<Rightarrow>
          if code_of c < 32 \<or> c = CHR ''<'' \<or> c = CHR ''>'' \<or> c = CHR ''&''
          then [bs_char, CHR ''u'', CHR ''0'', CHR ''0'', hex_digit (code_of c div 16), hex_digit (code_of c mod 16)]
          else [c])"

definition json_string :: "string \<Rightarrow> string" where
  "json_string s = q_char # concat (map json_char s) @ [q_char]"

definition json_pair :: "string \<times> string \<Rightarrow> string" where
  "json_pair p = json_string (fst p) @ '':'' @ json_string (snd p)"

definition json_object :: "(string \<times> string) list \<Rightarrow> string" where
  "json_object ps = ''{'' @ join '','' (map json_pair (sort_key fst ps)) @ ''}''"

text \<open>The rest of a string after its opening quote: the text and what follows the closing quote.\<close>

fun read_string :: "string \<Rightarrow> (string \<times> string) option" where
  "read_string [] = None"
| "read_string (c # s) =
     (if c = q_char then Some ([], s)
      else if c \<noteq> bs_char then
        (if code_of c < 32 then None else map_option (\<lambda>(t, r). (c # t, r)) (read_string s))
      else (case s of [] \<Rightarrow> None
        | e # r \<Rightarrow>
            if e = CHR ''u'' then
              (case r of a # b # x # y # r2 \<Rightarrow>
                 if a = CHR ''0'' \<and> b = CHR ''0'' \<and> is_hex x \<and> is_hex y \<and> hex_val x < 8
                 then map_option (\<lambda>(t, r'). (char_of (hex_val x * 16 + hex_val y) # t, r')) (read_string r2) else None
               | _ \<Rightarrow> None)
            else (case map_of short_escapes e of None \<Rightarrow> None
               | Some k \<Rightarrow> map_option (\<lambda>(t, r'). (k # t, r')) (read_string r))))"

text \<open>Members after the opening brace; the fuel is the length of the text.\<close>

fun read_members :: "nat \<Rightarrow> string \<Rightarrow> (string \<times> string) list option" where
  "read_members 0 s = None"
| "read_members (Suc n) s =
     (case s of [] \<Rightarrow> None
      | c # s1 \<Rightarrow> if c \<noteq> q_char then None else
        Option.bind (read_string s1) (\<lambda>(k, r1).
          if take 2 r1 \<noteq> [CHR '':'', q_char] then None
          else Option.bind (read_string (drop 2 r1)) (\<lambda>(v, r2).
            if r2 = ''}'' then Some [(k, v)]
            else if take 1 r2 = '','' then map_option (Cons (k, v)) (read_members n (drop 1 r2)) else None)))"

definition read_object :: "string \<Rightarrow> (string \<times> string) list option" where
  "read_object s =
     (if s = ''{}'' then Some []
      else if take 1 s = ''{'' then read_members (length s) (drop 1 s) else None)"

lemma short_escapes_keys: "map_of (map prod.swap short_escapes) c = Some e \<Longrightarrow>
    map_of short_escapes e = Some c \<and> e \<noteq> CHR ''u''"
  by (auto simp: short_escapes_def split: if_splits)

lemma unescaped_char: "map_of (map prod.swap short_escapes) c = None \<Longrightarrow> c \<noteq> q_char \<and> c \<noteq> bs_char"
  by (auto simp: short_escapes_def q_char_def bs_char_def split: if_splits)

lemma q_not_bs [simp]: "q_char \<noteq> bs_char" "bs_char \<noteq> q_char"
  by (simp_all add: q_char_def bs_char_def)

lemma read_json_char: "read_string (json_char c @ s) = map_option (\<lambda>(t, r). (c # t, r)) (read_string s)"
proof (cases "map_of (map prod.swap short_escapes) c")
  case (Some e)
  then show ?thesis using short_escapes_keys [OF Some] by (simp add: json_char_def)
next
  case None
  show ?thesis
  proof (cases "code_of c < 32 \<or> c = CHR ''<'' \<or> c = CHR ''>'' \<or> c = CHR ''&''")
    case True
    then have lt: "code_of c < 128" by (auto simp: code_of_def)
    then have "code_of c div 16 < 8" by simp
    moreover have "hex_val (hex_digit (code_of c div 16)) = code_of c div 16" "is_hex (hex_digit (code_of c div 16))"
      "hex_val (hex_digit (code_of c mod 16)) = code_of c mod 16" "is_hex (hex_digit (code_of c mod 16))"
      using hex_digit_is_hex [of "code_of c div 16"] hex_digit_is_hex [of "code_of c mod 16"] lt by auto
    moreover have "char_of (code_of c div 16 * 16 + code_of c mod 16) = c"
      by (simp add: code_of_def)
    ultimately show ?thesis using True None by (simp add: json_char_def)
  next
    case False
    then show ?thesis using None unescaped_char [OF None] by (simp add: json_char_def)
  qed
qed

lemma read_json_string: "read_string (concat (map json_char t) @ q_char # r) = Some (t, r)"
  by (induction t) (simp_all add: read_json_char)

lemma json_char_not_Nil [simp]: "json_char c \<noteq> []"
  by (simp add: json_char_def split: option.splits)

lemma read_members_pairs:
  "ps \<noteq> [] \<Longrightarrow> length ps \<le> n \<Longrightarrow> read_members n (join '','' (map json_pair ps) @ ''}'') = Some ps"
proof (induction ps arbitrary: n)
  case Nil
  then show ?case by simp
next
  case (Cons p ps)
  obtain m where n: "n = Suc m" using Cons.prems(2) by (cases n) auto
  obtain k v where p: "p = (k, v)" by (cases p)
  have step: "read_members (Suc m) (json_pair p @ rest) =
      (if rest = ''}'' then Some [p]
       else if take 1 rest = '','' then map_option (Cons p) (read_members m (drop 1 rest)) else None)" for rest
    by (simp add: p json_pair_def json_string_def read_json_string numeral_2_eq_2)
  show ?case
  proof (cases ps)
    case Nil
    then show ?thesis using step [of "''}''"] by (simp add: n)
  next
    case (Cons p2 ps2)
    have "read_members m (join '','' (map json_pair ps) @ ''}'') = Some ps"
      using Cons.IH Cons.prems(2) Cons n by simp
    then show ?thesis
      using step [of "'','' @ join '','' (map json_pair ps) @ ''}''"] Cons by (simp add: n)
  qed
qed

lemma json_pair_length: "1 \<le> length (json_pair p)"
  by (simp add: json_pair_def json_string_def)

lemma join_length: "length ps \<le> length (join '','' (map json_pair ps))"
proof (induction ps)
  case Nil
  then show ?case by simp
next
  case (Cons p ps)
  then show ?case using json_pair_length [of p] by (cases ps) auto
qed

lemma read_json_object: "read_object (json_object ps) = Some (sort_key fst ps)"
proof (cases "ps = []")
  case True
  then show ?thesis by (simp add: json_object_def read_object_def)
next
  case False
  let ?ps = "sort_key fst ps"
  have ne: "?ps \<noteq> []" using False by (metis length_0_conv length_sort)
  have len: "length ?ps \<le> length (join '','' (map json_pair ?ps))" by (rule join_length)
  have "0 < length (join '','' (map json_pair ?ps))"
    using less_le_trans [OF _ len, of 0] ne False by simp
  then have "json_object ps \<noteq> ''{}''" by (auto simp: json_object_def)
  moreover have "read_members (length (json_object ps)) (join '','' (map json_pair ?ps) @ ''}'') = Some ?ps"
    using ne len by (intro read_members_pairs) (auto simp: json_object_def)
  ultimately show ?thesis by (simp add: read_object_def json_object_def)
qed

end
