(* ===== verification/Pay_Checkout.thy ===== *)
theory Pay_Checkout
  imports Reseller Go_Base64 Go_Json
begin

text \<open>
  The other payment providers of \<open>shared/billing\<close>: checkouts and webhooks of \<open>bachs.go\<close> and
  \<open>bachs_portal.go\<close>, invoices and callbacks of \<open>nowpayments.go\<close>, invoices of \<open>bitcart.go\<close>, and the
  handlers of \<open>api/internal/handlers/billing.go\<close> and \<open>wallet.go\<close>. A provider's answer to a request is an
  argument, HMAC too; a callback is given as its raw text with the values read from it.
\<close>

section \<open>Metadata and answers\<close>

type_synonym meta = "(string \<times> string) list"

definition mget :: "meta \<Rightarrow> string \<Rightarrow> string" where
  "mget m k = (case map_of m k of None \<Rightarrow> [] | Some v \<Rightarrow> v)"

text \<open>A transport error, or a status with the text of the field that is wanted, if the body decodes.\<close>

type_synonym reply = "(nat \<times> string option) option"

definition read_reply :: "reply \<Rightarrow> string + string" where
  "read_reply rep =
     (case rep of None \<Rightarrow> Inl ''transport''
      | Some (st, out) \<Rightarrow>
          if st div 100 \<noteq> 2 then Inl ''status''
          else case out of None \<Rightarrow> Inl ''json'' | Some x \<Rightarrow> if x = [] then Inl ''empty'' else Inr x)"

record pay_db =
  pd_auth :: auth_db
  pd_customer :: "string \<Rightarrow> string"

definition set_bachs_customer :: "auth_error faults \<Rightarrow> nat \<Rightarrow> int \<Rightarrow> pay_db \<Rightarrow> string \<Rightarrow> string \<Rightarrow> pay_db" where
  "set_bachs_customer flt k now d u c =
     (if c = [] \<or> flt k \<noteq> None then d
      else if list_ex (\<lambda>r. u_id r = u) (users (pd_auth d))
      then d\<lparr>pd_customer := (pd_customer d)(u := c),
             pd_auth := (pd_auth d)\<lparr>users := upd_where (\<lambda>r. u_id r = u) (\<lambda>r. r\<lparr>u_updated := now\<rparr>) (users (pd_auth d))\<rparr>\<rparr>
      else d)"

section \<open>Bachs\<close>

record bachs =
  ba_secret_key :: string
  ba_webhook_secret :: string
  ba_product :: string
  ba_sub_products :: "string \<rightharpoonup> string"
  ba_web :: string

definition parse_sub_products :: "string \<Rightarrow> string \<rightharpoonup> string" where
  "parse_sub_products raw =
     fold (\<lambda>part m. let (key, i, found) = cut (trim_space part) '':'' in
             if found \<and> key \<noteq> [] \<and> i \<noteq> [] then m(trim_space key \<mapsto> trim_space i) else m)
       (split_byte (CHR '','') raw) Map.empty"

definition bachs_enabled :: "bachs \<Rightarrow> bool" where
  "bachs_enabled b \<longleftrightarrow> ba_secret_key b \<noteq> [] \<and> ba_product b \<noteq> []"

record checkout =
  ck_email :: string
  ck_product :: string
  ck_amount :: "string option"
  ck_return :: string
  ck_meta :: meta

text \<open>\<open>fmt.Sprintf("%.2f", float64(cents)/100)\<close>, exact for the amounts that are charged.\<close>

definition amount_text :: "int \<Rightarrow> string" where
  "amount_text cents =
     show_int (cents div 100) @ ''.'' @ (if cents mod 100 < 10 then ''0'' else []) @ show_int (cents mod 100)"

definition create_session :: "bachs \<Rightarrow> string \<Rightarrow> int \<Rightarrow> meta \<Rightarrow> checkout" where
  "create_session b e cents m =
     \<lparr>ck_email = e, ck_product = ba_product b, ck_amount = Some (amount_text cents),
      ck_return = ba_web b @ ''/?paid=1'', ck_meta = m\<rparr>"

definition plan_meta :: "string \<Rightarrow> string \<Rightarrow> string \<Rightarrow> int \<Rightarrow> meta" where
  "plan_meta e pid period days = [(''email'', e), (''plan'', pid), (''period'', period), (''days'', show_int days)]"

definition topup_meta :: "string \<Rightarrow> int \<Rightarrow> meta" where
  "topup_meta e cents = [(''email'', e), (''type'', ''topup''), (''credits'', show_int cents)]"

text \<open>What is sent, or the error before anything is.\<close>

definition bachs_checkout :: "bachs \<Rightarrow> switches \<Rightarrow> string \<Rightarrow> string \<Rightarrow> string \<Rightarrow> int \<Rightarrow> string + checkout" where
  "bachs_checkout b sw e pid period days =
     (let sub = (if period = ''monthly'' \<or> period = ''yearly'' then
                   (case ba_sub_products b (pid @ ''-'' @ period) of Some p \<Rightarrow> p | None \<Rightarrow> []) else [])
      in if sub \<noteq> [] then
           Inr \<lparr>ck_email = e, ck_product = sub, ck_amount = None, ck_return = ba_web b @ ''/?subscribed=1'',
                ck_meta = [(''email'', e), (''plan'', pid), (''period'', period)]\<rparr>
         else case price_cents sw pid period days of None \<Rightarrow> Inl ''no price''
         | Some cents \<Rightarrow> if cents \<le> 0 then Inl ''no price'' else Inr (create_session b e cents (plan_meta e pid period days)))"

definition create_checkout :: "bachs \<Rightarrow> switches \<Rightarrow> (checkout \<Rightarrow> reply) \<Rightarrow> string \<Rightarrow> string \<Rightarrow> string \<Rightarrow> int \<Rightarrow> string + string" where
  "create_checkout b sw post e pid period days =
     (case bachs_checkout b sw e pid period days of Inl er \<Rightarrow> Inl er | Inr c \<Rightarrow> read_reply (post c))"

definition create_topup :: "bachs \<Rightarrow> (checkout \<Rightarrow> reply) \<Rightarrow> string \<Rightarrow> int \<Rightarrow> string + string" where
  "create_topup b post e cents = read_reply (post (create_session b e cents (topup_meta e cents)))"

definition create_portal_session :: "(string \<Rightarrow> reply) \<Rightarrow> string \<Rightarrow> string + string" where
  "create_portal_session post customer = (if customer = [] then Inl ''no customer'' else read_reply (post customer))"

text \<open>The code is over the time and the body; an event older or newer than five minutes is refused.\<close>

definition bachs_verify :: "(nat list \<Rightarrow> nat list \<Rightarrow> nat list) \<Rightarrow> string \<Rightarrow> int \<Rightarrow> string \<Rightarrow> string \<Rightarrow> string \<Rightarrow> bool" where
  "bachs_verify hm secret now raw ts_header sig \<longleftrightarrow>
     secret \<noteq> [] \<and> sig \<noteq> [] \<and> snd (parse_int ts_header)
     \<and> \<bar>wrap64 (now - fst (parse_int ts_header))\<bar> \<le> 300
     \<and> sig = hex_encode (hm (bytes_of secret) (bytes_of (show_int (fst (parse_int ts_header)) @ ''.'' @ raw)))"

record bachs_data =
  bd_id :: string
  bd_status :: string
  bd_period_end :: "int option"
  bd_meta :: meta
  bd_amount :: string
  bd_currency :: string
  bd_email :: string
  bd_customer :: string

record bachs_event =
  be_id :: string
  be_type :: string
  be_data :: bachs_data

definition is_donation :: "meta \<Rightarrow> bool" where
  "is_donation m \<longleftrightarrow> mget m ''payment_link_id'' \<noteq> []"

definition format_money :: "string \<Rightarrow> string \<Rightarrow> string" where
  "format_money amount currency =
     (if amount = [] then ''a contribution''
      else if currency = ''USD'' then CHR 0x24 # amount
      else if currency = [] then amount else amount @ '' '' @ currency)"

definition sync_subscription :: "auth_error faults \<Rightarrow> env \<Rightarrow> bachs_data \<Rightarrow> pay_db \<Rightarrow> pay_db" where
  "sync_subscription flt ev s d =
     (let m = bd_meta s; e = (if bd_email s = [] then mget m ''email'' else bd_email s) in
      if e = [] then d
      else if bd_status s \<noteq> ''active'' \<and> bd_status s \<noteq> ''trialing'' then d
      else if get_plan (mget m ''plan'') = None then d
      else case bd_period_end s of None \<Rightarrow> d
      | Some ends \<Rightarrow> (case get_or_create_user flt ev (pd_auth d) e of
          (Inl _, a) \<Rightarrow> d\<lparr>pd_auth := a\<rparr>
        | (Inr (u, _), a) \<Rightarrow>
            (case update_plan flt 5 (e_now ev) a (u_id u) (mget m ''plan'') (bd_id s) [] (mget m ''period'') ends of
               (Inl _, a2) \<Rightarrow> d\<lparr>pd_auth := a2\<rparr>
             | (Inr _, a2) \<Rightarrow> set_bachs_customer flt 6 (e_now ev) (d\<lparr>pd_auth := a2\<rparr>) (u_id u) (bd_customer s))))"

text \<open>
  What a paid event does, whichever provider sends it: \<open>reason\<close> names the provider in the wallet's
  ledger. An unknown plan is rejected, the empty one included.
\<close>

definition paid_activate :: "auth_error faults \<Rightarrow> env \<Rightarrow> string \<Rightarrow> string \<Rightarrow> meta \<Rightarrow> auth_db \<Rightarrow> auth_db" where
  "paid_activate flt ev reason sale m d =
     (if mget m ''email'' = [] then d
      else case get_or_create_user flt ev d (mget m ''email'') of
        (Inl e, d1) \<Rightarrow> d1
      | (Inr (u, _), d1) \<Rightarrow>
        if mget m ''type'' = ''topup''
        then credit_wallet (after 4 flt) (e_now ev) d1 (u_id u) (mget m ''credits'') reason sale
        else if get_plan (mget m ''plan'') = None then d1
        else if has_processed_sale flt 4 d1 sale then d1
        else apply_crypto_plan (after 5 flt) ev d1 u sale (mget m ''plan'') (mget m ''period'') (scan_int (mget m ''days'')))"

definition bachs_activate :: "auth_error faults \<Rightarrow> env \<Rightarrow> string \<Rightarrow> meta \<Rightarrow> auth_db \<Rightarrow> auth_db" where
  "bachs_activate flt ev event_id m d = paid_activate flt ev ''topup:bachs'' event_id m d"

text \<open>The status and the new tables; a donation only posts a message.\<close>

definition bachs_webhook :: "(nat list \<Rightarrow> nat list \<Rightarrow> nat list) \<Rightarrow> auth_error faults \<Rightarrow> env \<Rightarrow> bachs \<Rightarrow> string \<Rightarrow> string \<Rightarrow> string
    \<Rightarrow> bachs_event option \<Rightarrow> pay_db \<Rightarrow> nat \<times> pay_db" where
  "bachs_webhook hm flt ev b raw ts sig parsed d =
     (if \<not> bachs_verify hm (ba_webhook_secret b) (e_now ev) raw ts sig then (401, d)
      else case parsed of None \<Rightarrow> (400, d)
      | Some evt \<Rightarrow>
          if be_id evt = [] then (400, d)
          else if be_type evt = ''collection.succeeded'' then
            (200, if is_donation (bd_meta (be_data evt)) then d
                  else d\<lparr>pd_auth := bachs_activate flt ev (be_id evt) (bd_meta (be_data evt)) (pd_auth d)\<rparr>)
          else if be_type evt = ''customer.subscription.created'' \<or> be_type evt = ''customer.subscription.updated''
          then (200, sync_subscription flt ev (be_data evt) d)
          else (200, d))"

section \<open>NOWPayments\<close>

definition encode_order :: "meta \<Rightarrow> string" where
  "encode_order m = ''torrin:'' @ b64_encode url_alphabet (bytes_of (json_object m))"

text \<open>Of equal keys the last one counts, as in the map the order is decoded into.\<close>

definition decode_order :: "string \<Rightarrow> meta" where
  "decode_order o_id =
     (case b64_decode url_alphabet (trim_prefix o_id ''torrin:'') of None \<Rightarrow> []
      | Some bs \<Rightarrow> (case read_object (string_of bs) of None \<Rightarrow> [] | Some m \<Rightarrow> rev m))"

record invoice_payload =
  ip_cents :: int
  ip_order :: string
  ip_description :: string

definition nowpay_invoice :: "int \<Rightarrow> string \<Rightarrow> meta \<Rightarrow> invoice_payload" where
  "nowpay_invoice cents desc m = \<lparr>ip_cents = cents, ip_order = encode_order m, ip_description = desc\<rparr>"

definition nowpay_plan_invoice :: "switches \<Rightarrow> string \<Rightarrow> string \<Rightarrow> string \<Rightarrow> int \<Rightarrow> string + invoice_payload" where
  "nowpay_plan_invoice sw e pid period days =
     (case price_cents sw pid period days of None \<Rightarrow> Inl ''no price''
      | Some cents \<Rightarrow> if cents \<le> 0 then Inl ''no price''
          else Inr (nowpay_invoice cents (''torrin '' @ pid @ '' plan'') (plan_meta e pid period days)))"

definition nowpay_create_invoice :: "switches \<Rightarrow> (invoice_payload \<Rightarrow> reply) \<Rightarrow> string \<Rightarrow> string \<Rightarrow> string \<Rightarrow> int \<Rightarrow> string + string" where
  "nowpay_create_invoice sw post e pid period days =
     (case nowpay_plan_invoice sw e pid period days of Inl er \<Rightarrow> Inl er | Inr p \<Rightarrow> read_reply (post p))"

definition nowpay_create_topup :: "(invoice_payload \<Rightarrow> reply) \<Rightarrow> string \<Rightarrow> int \<Rightarrow> string + string" where
  "nowpay_create_topup post e cents = read_reply (post (nowpay_invoice cents ''torrin wallet top-up'' (topup_meta e cents)))"

text \<open>The code is over the decoded body marshalled again, which sorts its keys: \<open>sorted\<close>, or \<open>None\<close>.\<close>

definition valid_ipn_signature :: "(nat list \<Rightarrow> nat list \<Rightarrow> nat list) \<Rightarrow> string \<Rightarrow> string \<Rightarrow> string option \<Rightarrow> bool" where
  "valid_ipn_signature hm secret sig remarshalled \<longleftrightarrow>
     secret \<noteq> [] \<and> sig \<noteq> []
     \<and> (case remarshalled of None \<Rightarrow> False | Some s \<Rightarrow> sig = hex_encode (hm (bytes_of secret) (bytes_of s)))"

record ipn =
  in_payment :: string
  in_status :: string
  in_order :: string

definition nowpay_activate :: "auth_error faults \<Rightarrow> env \<Rightarrow> meta \<Rightarrow> string \<Rightarrow> auth_db \<Rightarrow> auth_db" where
  "nowpay_activate flt ev m sale d = paid_activate flt ev ''topup:crypto'' sale m d"

definition nowpay_webhook :: "(nat list \<Rightarrow> nat list \<Rightarrow> nat list) \<Rightarrow> auth_error faults \<Rightarrow> env \<Rightarrow> string \<Rightarrow> string \<Rightarrow> string option
    \<Rightarrow> ipn option \<Rightarrow> auth_db \<Rightarrow> nat \<times> auth_db" where
  "nowpay_webhook hm flt ev secret sig remarshalled parsed d =
     (if \<not> valid_ipn_signature hm secret sig remarshalled then (401, d)
      else case parsed of None \<Rightarrow> (400, d)
      | Some p \<Rightarrow>
          if in_status p \<noteq> ''finished'' then (200, d)
          else (200, nowpay_activate flt ev (decode_order (in_order p)) (''nowpay:'' @ in_payment p) d))"

section \<open>Bitcart invoices\<close>

text \<open>The result and whether trying again makes sense.\<close>

definition post_invoice :: "reply \<Rightarrow> (string + string) \<times> bool" where
  "post_invoice rep =
     (case rep of None \<Rightarrow> (Inl ''transport'', True)
      | Some (st, out) \<Rightarrow>
          if st div 100 = 5 then (Inl ''status'', True)
          else if st div 100 \<noteq> 2 then (Inl ''status'', False)
          else case out of None \<Rightarrow> (Inl ''json'', True)
          | Some i \<Rightarrow> if i = [] then (Inl ''empty id'', True) else (Inr i, False))"

definition bitcart_create :: "(nat \<Rightarrow> reply) \<Rightarrow> string + string" where
  "bitcart_create answers =
     (case post_invoice (answers 0) of
        (Inr i, _) \<Rightarrow> Inr i
      | (Inl e, False) \<Rightarrow> Inl e
      | (Inl _, True) \<Rightarrow> fst (post_invoice (answers 1)))"

definition bitcart_create_invoice :: "switches \<Rightarrow> (int \<Rightarrow> meta \<Rightarrow> nat \<Rightarrow> reply) \<Rightarrow> string \<Rightarrow> string \<Rightarrow> string \<Rightarrow> int \<Rightarrow> string + string" where
  "bitcart_create_invoice sw post e pid period days =
     (case price_cents sw pid period days of None \<Rightarrow> Inl ''no price''
      | Some cents \<Rightarrow> if cents \<le> 0 then Inl ''no price'' else bitcart_create (post cents (plan_meta e pid period days)))"

definition bitcart_create_topup :: "(int \<Rightarrow> meta \<Rightarrow> nat \<Rightarrow> reply) \<Rightarrow> string \<Rightarrow> int \<Rightarrow> string + string" where
  "bitcart_create_topup post e cents = bitcart_create (post cents (topup_meta e cents))"

section \<open>Handlers\<close>

record checkout_req =
  cr_plan :: string
  cr_period :: string
  cr_days :: int

definition checkout_request :: "switches \<Rightarrow> user option \<Rightarrow> checkout_req option \<Rightarrow> nat + user \<times> checkout_req" where
  "checkout_request sw who req =
     (case who of None \<Rightarrow> Inl 401
      | Some u \<Rightarrow>
          if email u = [] then Inl 401
          else case req of None \<Rightarrow> Inl 400
          | Some q \<Rightarrow>
              if cr_period q \<notin> set valid_periods then Inl 400
              else if \<not> day_plans_enabled sw \<and> (cr_period q = ''days'' \<or> 0 < cr_days q) then Inl 422
              else if \<not> lifetime_enabled sw \<and> cr_period q = ''lifetime'' then Inl 422
              else Inr (u, q))"

definition answer_url :: "string + string \<Rightarrow> nat \<times> string" where
  "answer_url r = (case r of Inl _ \<Rightarrow> (502, []) | Inr url \<Rightarrow> (200, url))"

definition crypto_checkout :: "bool \<Rightarrow> switches \<Rightarrow> (invoice_payload \<Rightarrow> reply) \<Rightarrow> user option \<Rightarrow> checkout_req option \<Rightarrow> nat \<times> string" where
  "crypto_checkout enabled sw post who req =
     (if \<not> enabled then (503, [])
      else case checkout_request sw who req of Inl st \<Rightarrow> (st, [])
      | Inr (u, q) \<Rightarrow> answer_url (nowpay_create_invoice sw post (email u) (cr_plan q) (cr_period q) (cr_days q)))"

definition bachs_checkout_handler :: "bachs \<Rightarrow> bool \<Rightarrow> switches \<Rightarrow> (checkout \<Rightarrow> reply) \<Rightarrow> user option \<Rightarrow> checkout_req option \<Rightarrow> nat \<times> string" where
  "bachs_checkout_handler b switched_on sw post who req =
     (if \<not> (bachs_enabled b \<and> switched_on) then (503, [])
      else case checkout_request sw who req of Inl st \<Rightarrow> (st, [])
      | Inr (u, q) \<Rightarrow> answer_url (create_checkout b sw post (email u) (cr_plan q) (cr_period q) (cr_days q)))"

definition bachs_portal :: "bachs \<Rightarrow> auth_error faults \<Rightarrow> (string \<Rightarrow> reply) \<Rightarrow> user option \<Rightarrow> pay_db \<Rightarrow> nat \<times> string" where
  "bachs_portal b flt post who d =
     (if \<not> bachs_enabled b then (503, [])
      else case who of None \<Rightarrow> (401, [])
      | Some u \<Rightarrow>
          if flt 0 \<noteq> None \<or> pd_customer d (u_id u) = [] then (404, [])
          else answer_url (create_portal_session post (pd_customer d (u_id u))))"

record buy_req =
  bq_plan :: string
  bq_period :: string
  bq_recurring :: bool
  bq_key :: string

definition wallet_buy_handler :: "auth_error faults \<Rightarrow> env \<Rightarrow> user \<Rightarrow> buy_req option \<Rightarrow> auth_db \<Rightarrow> nat \<times> auth_db" where
  "wallet_buy_handler flt ev u req d =
     (case req of None \<Rightarrow> (400, d)
      | Some q \<Rightarrow>
          if get_plan (bq_plan q) = None \<or> bq_plan q = ''free'' then (400, d)
          else if bq_period q \<notin> {''monthly'', ''yearly'', ''lifetime''} then (400, d)
          else if \<not> lifetime_enabled (e_switches ev) \<and> bq_period q = ''lifetime'' then (422, d)
          else case buy_plan_from_wallet flt ev d u (bq_plan q) (bq_period q) (bq_recurring q) (bq_key q) of
            (Inl _, d1) \<Rightarrow> (500, d1)
          | (Inr paid, d1) \<Rightarrow> (if paid then 200 else 402, d1))"

definition wallet_topup :: "bachs \<Rightarrow> bool \<Rightarrow> bool \<Rightarrow> (checkout \<Rightarrow> reply) \<Rightarrow> (invoice_payload \<Rightarrow> reply) \<Rightarrow> user \<Rightarrow> (int \<times> string) option \<Rightarrow> nat \<times> string" where
  "wallet_topup b switched_on crypto_on post_bachs post_crypto u req =
     (case req of None \<Rightarrow> (400, [])
      | Some (cents, provider) \<Rightarrow>
          if cents < 100 then (400, [])
          else if provider = ''bachs'' then
            if \<not> (bachs_enabled b \<and> switched_on) then (503, []) else answer_url (create_topup b post_bachs (email u) cents)
          else if provider = ''crypto'' then
            if \<not> crypto_on then (503, []) else answer_url (nowpay_create_topup post_crypto (email u) cents)
          else (400, []))"


section \<open>Lemmas\<close>

lemma parse_int_show_int: "0 \<le> n \<Longrightarrow> n < 2 ^ 63 \<Longrightarrow> parse_int (show_int n) = (n, True)"
  by (rule parse_int_show)

lemma scan_digits:
  assumes "all_digits s" "s \<noteq> []"
  shows "scan_int s = (if snd (parse_int s) then fst (parse_int s) else 0)"
proof -
  have d: "c \<in> set s \<Longrightarrow> is_digit c" for c using assms(1) by (auto simp: all_digits_def list_all_iff)
  have h: "is_digit (hd s)" using d assms(2) by simp
  have ns: "\<not> is_space (hd s)" "hd s \<noteq> CHR ''-''" "hd s \<noteq> CHR ''+''"
    using h by (auto simp: is_digit_def is_space_def in_range_def code_of_def)
  have t: "dropWhile is_space s = s" using ns assms(2) by (cases s) auto
  have sg: "takeWhile (\<lambda>c. c = CHR ''-'' \<or> c = CHR ''+'') (take (Suc 0) s) = []" using ns assms(2) by (cases s) auto
  have tw: "takeWhile (\<lambda>c. is_digit c \<or> c = CHR ''_'') s = s" using d by (auto simp: takeWhile_eq_all_conv)
  show ?thesis by (simp add: scan_int_def t sg tw Let_def case_prod_unfold)
qed

lemma scan_show_int: "0 \<le> n \<Longrightarrow> n < 2 ^ 63 \<Longrightarrow> scan_int (show_int n) = n"
  using scan_digits [of "show_int n"] parse_int_show_int [of n] show_nat_digits by (simp add: show_int_def)

lemma mget_sorted: "distinct (map fst m) \<Longrightarrow> mget (rev (sort_key fst m)) k = mget m k"
proof -
  assume d: "distinct (map fst m)"
  then have "distinct (map fst (rev (sort_key fst m)))" by (simp add: distinct_map)
  then have "map_of (rev (sort_key fst m)) = map_of m" using d by (simp add: map_of_inject_set)
  then show ?thesis by (simp add: mget_def)
qed

lemma decode_encode_order: "decode_order (encode_order m) = rev (sort_key fst m)"
proof -
  have "b64_decode url_alphabet (b64_encode url_alphabet (bytes_of (json_object m))) = Some (bytes_of (json_object m))"
    using b64_decode_encode bytes_of_lt by blast
  then show ?thesis
    unfolding decode_order_def encode_order_def trim_prefix_append by (simp add: read_json_object)
qed

text \<open>What a paid event does depends only on the values of its metadata.\<close>

lemma paid_activate_cong: "(\<And>k. mget m k = mget m' k) \<Longrightarrow> paid_activate flt ev reason sale m d = paid_activate flt ev reason sale m' d"
proof -
  assume "\<And>k. mget m k = mget m' k"
  then have eq: "mget m = mget m'" by (rule ext)
  show ?thesis unfolding paid_activate_def eq ..
qed

lemma paid_activate_plan:
  assumes "find (\<lambda>u. email u = e) (users d) = Some u" "e \<noteq> []" "get_plan pid \<noteq> None" "0 \<le> days" "days < 2 ^ 63"
    and "\<not> list_ex (\<lambda>s. sale_id s = sale) (sales d)"
  shows "paid_activate no_faults ev reason sale (plan_meta e pid period days) d
    = apply_crypto_plan no_faults ev d u sale pid period days"
  using assms(1,2,6) not_None_eq [THEN iffD1, OF assms(3)] scan_show_int [OF assms(4,5)]
  by (auto simp: paid_activate_def plan_meta_def mget_def get_or_create_user_def get_by_email_no_faults
      has_processed_sale_def)


section \<open>Properties\<close>

text \<open>
  C20: a paid order grants what was charged. The order number of an invoice carries the account, plan and
  period through the provider and back; the callback of its payment books that plan for that account, under
  the payment's number, and the invoice asked the price of the catalogue.
\<close>

theorem paid_order_grants_what_was_charged:
  assumes "nowpay_plan_invoice sw e pid period days = Inr p" and "0 \<le> days" and "days < 2 ^ 63" and "get_plan pid \<noteq> None"
    and "find (\<lambda>u. email u = e) (users d) = Some u" and "e \<noteq> []" and "\<not> list_ex (\<lambda>s. sale_id s = ''nowpay:'' @ payment) (sales d)"
    and "valid_ipn_signature hm secret sig remarshalled"
  shows "price_cents sw pid period days = Some (ip_cents p)
    \<and> nowpay_webhook hm no_faults ev secret sig remarshalled
        (Some \<lparr>in_payment = payment, in_status = ''finished'', in_order = ip_order p\<rparr>) d
      = (200, apply_crypto_plan no_faults ev d u (''nowpay:'' @ payment) pid period days)"
proof -
  obtain cents where p: "price_cents sw pid period days = Some cents"
    "p = nowpay_invoice cents (''torrin '' @ pid @ '' plan'') (plan_meta e pid period days)"
    using assms(1) by (auto simp: nowpay_plan_invoice_def split: option.splits if_splits)
  have "distinct (map fst (plan_meta e pid period days))" by (simp add: plan_meta_def)
  then have "mget (decode_order (ip_order p)) k = mget (plan_meta e pid period days) k" for k
    by (simp add: p(2) nowpay_invoice_def decode_encode_order mget_sorted)
  then have "nowpay_activate no_faults ev (decode_order (ip_order p)) (''nowpay:'' @ payment) d
      = apply_crypto_plan no_faults ev d u (''nowpay:'' @ payment) pid period days"
    unfolding nowpay_activate_def by (rule trans [OF paid_activate_cong paid_activate_plan [OF assms(5,6,4,2,3,7)]])
  then show ?thesis
    using p assms(8) by (simp add: nowpay_webhook_def nowpay_invoice_def)
qed

text \<open>
  An event delivered again before its sale is recorded counts twice. The plan is granted before the
  sale is written down; a second delivery that arrives in between finds no sale, reads the extended row
  and extends it again.
\<close>

theorem redelivery_grants_twice:
  assumes "find (\<lambda>x. u_id x = u_id u) (users d) = Some u" and "find (\<lambda>x. email x = email u) (users d) = Some u" and "email u \<noteq> []"
    and "get_plan pid \<noteq> None" and "pid \<noteq> ''free''" and "0 < n" and "n < 2 ^ 63" and "expires_at u \<le> e_now ev"
    and "\<not> list_ex (\<lambda>s. sale_id s = sale) (sales d)"
    and "grant_plan no_faults 0 (e_now ev) d u pid ''days'' [] sale n = (Inr (), d1)"
  shows "\<exists>row. find (\<lambda>x. u_id x = u_id u) (users (paid_activate no_faults ev ''topup:crypto'' sale (plan_meta (email u) pid ''days'' n) d1))
      = Some row \<and> expires_at row = e_now ev + 2 * (n * day)"
proof -
  let ?now = "e_now ev"
  let ?u1 = "planned_row ?now pid [] sale ''days'' (?now + n * day) u"
  have d1: "d1 = set_plan ?now (u_id u) pid [] sale ''days'' (?now + n * day) d"
    using assms(6,8,10) by (simp add: grant_plan_def update_plan_def plan_expiry_def crypto_expiry_def)
  have f1: "find (\<lambda>x. u_id x = u_id u) (users d1) = Some ?u1"
    unfolding d1 using find_user_upd [OF assms(1), of "planned_row ?now pid [] sale ''days'' (?now + n * day)"]
    by (simp add: set_plan_def planned_row_def)
  have e1: "find (\<lambda>x. email x = email u) (users d1) = Some ?u1"
  proof -
    have "find (\<lambda>x. email x = email u) (upd_where (\<lambda>r. u_id r = u_id u) (planned_row ?now pid [] sale ''days'' (?now + n * day)) us) = Some ?u1"
      if "find (\<lambda>x. email x = email u) us = Some u" for us
      using that by (induction us) (auto simp: planned_row_def split: if_splits)
    then show ?thesis using assms(2) by (simp add: d1 set_plan_def)
  qed
  have sales: "sales d1 = sales d" by (simp add: d1 set_plan_def)
  have act: "paid_activate no_faults ev ''topup:crypto'' sale (plan_meta (email u) pid ''days'' n) d1
      = apply_crypto_plan no_faults ev d1 ?u1 sale pid ''days'' n"
    using assms(3,4,6,7,9) sales by (intro paid_activate_plan [OF e1]) (auto simp: planned_row_def)
  have ex: "plan_expiry ?now ?u1 ''days'' n = ?now + 2 * (n * day)"
    using assms(5,6) by (simp add: plan_expiry_def crypto_expiry_def planned_row_def is_paused_def)
  have id: "u_id ?u1 = u_id u" by (simp add: planned_row_def)
  have "users (apply_crypto_plan no_faults ev d1 ?u1 sale pid ''days'' n)
      = users (set_plan ?now (u_id u) pid [] sale ''days'' (?now + 2 * (n * day)) d1)"
    unfolding apply_crypto_plan_def grant_plan_def update_plan_def ex id by (simp add: record_processed_sale_def Let_def)
  then show ?thesis
    unfolding act using find_user_upd [OF f1, of "planned_row ?now pid [] sale ''days'' (?now + 2 * (n * day))"]
    by (simp add: set_plan_def planned_row_def)
qed


section \<open>Witnesses\<close>

definition sample_env :: env where
  "sample_env = \<lparr>e_now = 200 * day, e_id = ''n1'', e_key = ''nk'', e_code = ''nc'', e_burner = (\<lambda>_. False),
     e_switches = \<lparr>lifetime_enabled = True, black_friday = False, day_plans_enabled = True\<rparr>\<rparr>"

lemma sample_pay_user:
  "find (\<lambda>u. email u = ''ann@x.org'') (users billing_db) = Some sample_user"
  "find (\<lambda>x. u_id x = u_id sample_user) (users billing_db) = Some sample_user"
  "email sample_user = ''ann@x.org''" "sales billing_db = []" "expires_at sample_user = 100 * day"
  by (simp_all add: billing_db_def sample_user_def empty_auth_def)

theorem paid_order_grants_what_was_charged_witness:
  "\<exists>p. nowpay_plan_invoice (e_switches sample_env) ''ann@x.org'' ''pro'' ''yearly'' 0 = Inr p \<and> ip_cents p = 11500
    \<and> nowpay_webhook (\<lambda>_ _. []) no_faults sample_env ''k'' [] (Some ''b'') (Some \<lparr>in_payment = ''7'', in_status = ''finished'', in_order = ip_order p\<rparr>) billing_db
      = (401, billing_db)
    \<and> snd (nowpay_webhook (\<lambda>_ _. [1]) no_faults sample_env ''k'' (hex_encode [1]) (Some ''b'')
        (Some \<lparr>in_payment = ''7'', in_status = ''finished'', in_order = ip_order p\<rparr>) billing_db)
      = apply_crypto_plan no_faults sample_env billing_db sample_user ''nowpay:7'' ''pro'' ''yearly'' 0"
proof -
  have pr: "price_cents (e_switches sample_env) ''pro'' ''yearly'' 0 = Some 11500" "get_plan ''pro'' \<noteq> None" by code_simp+
  obtain p where p: "nowpay_plan_invoice (e_switches sample_env) ''ann@x.org'' ''pro'' ''yearly'' 0 = Inr p"
    by (simp add: nowpay_plan_invoice_def pr)
  have sig: "valid_ipn_signature (\<lambda>_ _. [1]) ''k'' (hex_encode [1]) (Some ''b'')"
    by (simp add: valid_ipn_signature_def)
  from paid_order_grants_what_was_charged [OF p _ _ pr(2) sample_pay_user(1) _ _ sig, of "''7''" sample_env]
  show ?thesis using p pr(1) sample_pay_user(4)
    by (auto simp: nowpay_webhook_def valid_ipn_signature_def)
qed

theorem redelivery_grants_twice_witness:
  "\<exists>row. find (\<lambda>x. u_id x = ''u1'') (users (paid_activate no_faults sample_env ''topup:crypto'' ''s1'' (plan_meta ''ann@x.org'' ''pro'' ''days'' 30)
      (snd (grant_plan no_faults 0 (200 * day) billing_db sample_user ''pro'' ''days'' [] ''s1'' 30)))) = Some row
    \<and> expires_at row = 260 * day"
proof -
  have g: "grant_plan no_faults 0 (e_now sample_env) billing_db sample_user ''pro'' ''days'' [] ''s1'' 30
      = (Inr (), snd (grant_plan no_faults 0 (200 * day) billing_db sample_user ''pro'' ''days'' [] ''s1'' 30))"
    by (simp add: grant_plan_def update_plan_def sample_env_def)
  have "get_plan ''pro'' \<noteq> None" by code_simp
  from redelivery_grants_twice [OF sample_pay_user(2) _ _ this _ _ _ _ _ g] sample_pay_user
  show ?thesis by (auto simp: sample_env_def sample_user_def)
qed

end
