(* ===== verification/Signed_Links.thy ===== *)
theory Signed_Links
  imports Blob_Store Go_Url
begin

text \<open>
  Signed links: \<open>shared/storage/sign.go\<close> builds and checks them, \<open>shared/cairn/path.go\<close> names the
  streams of archived releases, and \<open>serve\<close> of \<open>stream/internal/server/server.go\<close> decides what a
  request gets. HMAC-SHA256 under the configured key is a
  parameter of the client. Times are whole seconds.
\<close>

section \<open>Requests\<close>

record http_req =
  rq_method :: string
  rq_path :: string
  rq_query :: "(string \<times> string) list"
  rq_range :: string

text \<open>The request a client sends for a link below \<open>base\<close>, as \<open>net/http\<close> hands it to the server.\<close>

definition request_of :: "string \<Rightarrow> string \<Rightarrow> string \<Rightarrow> string \<Rightarrow> http_req option" where
  "request_of base meth rng url =
     (case cut (drop (length base) url) ''?'' of (p, q, _) \<Rightarrow>
        map_option (\<lambda>p'. \<lparr>rq_method = meth, rq_path = p', rq_query = parse_query q, rq_range = rng\<rparr>)
          (unescape False p))"

section \<open>Links of archived releases\<close>

definition path_base :: "string \<Rightarrow> string" where
  "path_base p =
     (let q = trim_right (\<lambda>c. c = CHR ''/'') p in
      if p = [] then ''.'' else if q = [] then ''/''
      else rev (takeWhile (\<lambda>c. c \<noteq> CHR ''/'') (rev q)))"

definition stream_path :: "string \<Rightarrow> nat \<Rightarrow> string \<Rightarrow> string" where
  "stream_path h i n = h @ ''/cairn/'' @ show_nat i @ ''/'' @ path_base n"

definition parse_stream_path :: "string \<Rightarrow> (string \<times> int \<times> string) option" where
  "parse_stream_path p =
     (case split_byte (CHR ''/'') p of
        [h, c, i, n] \<Rightarrow>
          if length h \<noteq> 40 \<or> c \<noteq> ''cairn'' \<or> n = [] then None
          else if \<not> list_all (\<lambda>x. is_digit x \<or> in_range 97 102 x) h then None
          else (case parse_int i of (idx, ok) \<Rightarrow> if \<not> ok \<or> idx < 0 then None else Some (h, idx, n))
      | _ \<Rightarrow> None)"

section \<open>Signing\<close>

record link_client =
  public_url :: string
  node_bases :: "string \<Rightarrow> string"
  hmac :: "string \<Rightarrow> nat list"

definition base_for :: "link_client \<Rightarrow> string \<Rightarrow> string" where
  "base_for cl nd = (if nd \<noteq> [] \<and> node_bases cl nd \<noteq> [] then node_bases cl nd else public_url cl)"

definition escape_path :: "string \<Rightarrow> string" where
  "escape_path p = join ''/'' (map path_escape (split_byte (CHR ''/'') p))"

definition sign_message :: "string \<Rightarrow> int \<Rightarrow> string \<Rightarrow> string" where
  "sign_message path expires user =
     (if user \<noteq> [] then path @ '':'' @ show_int expires @ '':'' @ user else path @ '':'' @ show_int expires)"

definition sign :: "link_client \<Rightarrow> string \<Rightarrow> int \<Rightarrow> string \<Rightarrow> string" where
  "sign cl path expires user = hex_encode (hmac cl (sign_message path expires user))"

definition sign_url_node :: "link_client \<Rightarrow> int \<Rightarrow> string \<Rightarrow> string \<Rightarrow> int \<Rightarrow> string" where
  "sign_url_node cl now nd path expiry =
     (let e = now + expiry in
      base_for cl nd @ ''/'' @ escape_path path @ ''?expires='' @ show_int e @ ''&sig='' @ sign cl path e [])"

definition sign_url :: "link_client \<Rightarrow> int \<Rightarrow> string \<Rightarrow> int \<Rightarrow> string" where
  "sign_url cl now path expiry = sign_url_node cl now [] path expiry"

definition sign_url_node_user :: "link_client \<Rightarrow> int \<Rightarrow> string \<Rightarrow> string \<Rightarrow> string \<Rightarrow> int \<Rightarrow> string" where
  "sign_url_node_user cl now nd path user expiry =
     (if user = [] then sign_url_node cl now nd path expiry
      else let e = now + expiry in
        base_for cl nd @ ''/'' @ escape_path path @ ''?expires='' @ show_int e @ ''&u='' @ query_escape user
        @ ''&sig='' @ sign cl path e user)"

definition sign_url_with_user :: "link_client \<Rightarrow> int \<Rightarrow> string \<Rightarrow> string \<Rightarrow> int \<Rightarrow> string" where
  "sign_url_with_user cl now path user expiry =
     (if user = [] then sign_url cl now path expiry
      else let e = now + expiry in
        public_url cl @ ''/'' @ escape_path path @ ''?expires='' @ show_int e @ ''&u='' @ query_escape user
        @ ''&sig='' @ sign cl path e user)"

definition verify :: "link_client \<Rightarrow> int \<Rightarrow> string \<Rightarrow> int \<Rightarrow> string \<Rightarrow> string \<Rightarrow> bool" where
  "verify cl now path expires user sg =
     (if now > expires then False
      else case hex_decode sg of None \<Rightarrow> False
        | Some want \<Rightarrow> want = (case hex_decode (sign cl path expires user) of None \<Rightarrow> [] | Some got \<Rightarrow> got))"

section \<open>Serving\<close>

text \<open>What \<open>serve\<close> hands a request to; \<open>Answered\<close> is a status sent at once.\<close>

datatype target = Answered nat | ToUsenet string string | ToCairn string | ToZip string
  | ToByos string string | ToHead string bool | ToFileEnc string | ToFile string

text \<open>\<open>sv_byos\<close> says for a key and a user whether \<open>serveBYOS\<close> answered the request itself.\<close>

record stream_server =
  sv_links :: link_client
  sv_cipher :: bool
  sv_byos :: "string \<Rightarrow> string \<Rightarrow> bool"

definition serve :: "stream_server \<Rightarrow> int \<Rightarrow> http_req \<Rightarrow> target" where
  "serve sv now r =
     (if rq_method r = ''OPTIONS'' then Answered 204
      else if rq_method r \<noteq> ''GET'' \<and> rq_method r \<noteq> ''HEAD'' then Answered 405
      else case unescape False (trim_prefix (rq_path r) ''/'') of
        None \<Rightarrow> Answered 400
      | Some key \<Rightarrow>
        if key = [] then Answered 400 else
        let q = rq_query r; expires = q_get q ''expires''; sg = q_get q ''sig''; user = q_get q ''u'' in
        if expires = [] \<or> sg = [] then Answered 401
        else (case parse_int expires of (e, ok) \<Rightarrow>
          if \<not> ok \<or> now > e then Answered 401
          else if \<not> verify (sv_links sv) now key e user sg then Answered 403
          else if q_get q ''usenet'' = ''1'' then ToUsenet key user
          else if parse_stream_path key \<noteq> None then ToCairn key
          else (case zip_hash key of (h, z) \<Rightarrow>
            if z then ToZip h
            else if q_get q ''byos'' = ''1'' \<and> sv_byos sv key user then ToByos key user
            else let enc = sv_cipher sv \<and> q_get q ''enc'' = ''1'' in
              if rq_method r = ''HEAD'' then ToHead key enc
              else if enc then ToFileEnc key else ToFile key)))"

section \<open>Escaping and back\<close>

lemma join_escape: "join ''/'' (map (escape_with ok) (split_byte (CHR ''/'') p)) = escape_with (\<lambda>c. ok c \<or> c = CHR ''/'') p"
proof (induction p)
  case (Cons c p)
  obtain q qs where s: "split_byte (CHR ''/'') p = q # qs"
    by (cases "split_byte (CHR ''/'') p") auto
  show ?case
    using Cons s by (cases qs) (auto simp: escape_with_Cons)
qed simp

lemma escape_path_eq: "escape_path p = escape_with (\<lambda>c. path_safe c \<or> c = CHR ''/'') p"
  by (simp add: escape_path_def join_escape)

lemma path_safe_percent: "\<not> path_safe (CHR ''%'')" "\<not> path_safe (CHR ''?'')"
  by (simp_all add: path_safe_def unreserved_def is_digit_def in_range_def code_of_def)

lemma unescape_escape_path: "unescape False (escape_path p) = Some p"
  by (simp add: escape_path_eq unescape_escape_with path_safe_percent)

text \<open>The bytes an escaped string is made of.\<close>

lemma escape_path_no_query: "CHR ''?'' \<notin> set (escape_path p)"
proof
  assume "CHR ''?'' \<in> set (escape_path p)"
  then show False
    unfolding escape_path_eq using escape_with_bytes path_safe_percent unreserved_not by fastforce
qed

lemma digits_unreserved: "all_digits s \<Longrightarrow> x \<in> set s \<Longrightarrow> unreserved x"
  by (auto simp: all_digits_def list_all_iff unreserved_def)

lemma hex_encode_unreserved: "\<forall>b\<in>set bs. b < 256 \<Longrightarrow> list_all unreserved (hex_encode bs)"
proof (induction bs)
  case (Cons b bs)
  have "unreserved (hex_digit n)" if "n < 16" for n
    using hex_digit_is_hex [OF that] by (auto simp: is_hex_def unreserved_def in_range_def)
  moreover have "b div 16 < 16" using Cons.prems(1) by auto
  ultimately show ?case using Cons by auto
qed simp

section \<open>What a link's query says\<close>

definition plain_pair :: "string \<Rightarrow> string \<Rightarrow> string \<Rightarrow> bool" where
  "plain_pair k v w \<longleftrightarrow> (\<forall>x\<in>set k. unreserved x) \<and> CHR ''&'' \<notin> set v \<and> CHR '';'' \<notin> set v \<and> unescape True v = Some w"

lemma query_pair_plain: "plain_pair k v w \<Longrightarrow> query_pair (k @ CHR ''='' # v) = Some (k, w)"
proof -
  assume p: "plain_pair k v w"
  then have k: "CHR ''='' \<notin> set k" "CHR '';'' \<notin> set k" "unescape True k = Some k"
    using unreserved_not by (auto simp: plain_pair_def intro!: unescape_plain)
  with p show ?thesis
    using cut_single [OF k(1), of v] by (simp add: query_pair_def plain_pair_def)
qed

lemma parse_query_cons:
  assumes "plain_pair k v w"
  shows "parse_query (k @ CHR ''='' # v @ CHR ''&'' # s) = (k, w) # parse_query s"
proof -
  have "CHR ''&'' \<notin> set (k @ CHR ''='' # v)"
    using assms unreserved_not by (auto simp: plain_pair_def)
  from split_byte_append [OF this, of s] query_pair_plain [OF assms] show ?thesis
    by (simp add: parse_query_def map_filter_simps)
qed

lemma parse_query_one:
  assumes "plain_pair k v w"
  shows "parse_query (k @ CHR ''='' # v) = [(k, w)]"
proof -
  have "CHR ''&'' \<notin> set (k @ CHR ''='' # v)"
    using assms unreserved_not by (auto simp: plain_pair_def)
  from split_byte_single [OF this] query_pair_plain [OF assms] show ?thesis
    by (simp add: parse_query_def map_filter_simps)
qed

lemma plain_pairI: "list_all unreserved k \<Longrightarrow> list_all unreserved v \<Longrightarrow> plain_pair k v v"
  using unreserved_not by (auto simp: plain_pair_def list_all_iff intro!: unescape_plain)

lemma plain_pair_user: "list_all unreserved k \<Longrightarrow> plain_pair k (query_escape u) u"
  using unreserved_not query_escape_bytes [of "CHR ''&''" u] query_escape_bytes [of "CHR '';''" u]
  by (auto simp: plain_pair_def list_all_iff unescape_query_escape)

lemma show_int_unreserved: "0 \<le> e \<Longrightarrow> list_all unreserved (show_int e)"
  using digits_unreserved [OF show_nat_digits] by (simp add: show_int_def list_all_iff)

lemma unreserved_words: "list_all unreserved ''expires''" "list_all unreserved ''sig''" "list_all unreserved ''u''"
    "list_all unreserved ''ih''" "list_all unreserved ''enc''" "list_all unreserved ''1''"
  by (simp_all add: unreserved_def is_digit_def in_range_def code_of_def)

text \<open>The query of a link with the suffix of \<open>StreamQuery\<close>.\<close>

definition link_query :: "int \<Rightarrow> string \<Rightarrow> string \<Rightarrow> string \<Rightarrow> bool \<Rightarrow> string" where
  "link_query e user sg ih enc =
     ''expires='' @ show_int e @ (if user = [] then [] else ''&u='' @ query_escape user) @ ''&sig='' @ sg @ stream_query ih enc"

lemma parse_link_query:
  assumes e: "0 \<le> e" and sg: "list_all unreserved sg" and ih: "list_all unreserved ih"
  shows "parse_query (link_query e user sg ih enc) = (''expires'', show_int e) # (if user = [] then [] else [(''u'', user)])
    @ (''sig'', sg) # (if length ih = 40 then [(''ih'', ih)] else []) @ (if enc then [(''enc'', ''1'')] else [])"
proof -
  note sig = plain_pairI [OF unreserved_words(2) sg] and ihp = plain_pairI [OF unreserved_words(4) ih]
    and encp = plain_pairI [OF unreserved_words(5) unreserved_words(6)]
  have ihq: "parse_query (''ih'' @ CHR ''='' # ih @ (if enc then ''&enc=1'' else [])) = (''ih'', ih) # (if enc then [(''enc'', ''1'')] else [])"
    using parse_query_cons [OF ihp, of "''enc=1''"] parse_query_one [OF ihp] parse_query_one [OF encp] by simp
  have tail: "parse_query (''sig'' @ CHR ''='' # sg @ stream_query ih enc)
    = (''sig'', sg) # (if length ih = 40 then [(''ih'', ih)] else []) @ (if enc then [(''enc'', ''1'')] else [])"
  proof (cases "length ih = 40")
    case True
    then show ?thesis
      using parse_query_cons [OF sig, of "''ih='' @ ih @ (if enc then ''&enc=1'' else [])"] ihq by (simp add: stream_query_def)
  next
    case False
    then show ?thesis
      using parse_query_cons [OF sig, of "''enc=1''"] parse_query_one [OF sig] parse_query_one [OF encp]
      by (simp add: stream_query_def)
  qed
  have "parse_query (''u'' @ CHR ''='' # query_escape user @ CHR ''&'' # s) = (''u'', user) # parse_query s" for s
    by (rule parse_query_cons [OF plain_pair_user [OF unreserved_words(3)]])
  moreover have "parse_query (''expires'' @ CHR ''='' # show_int e @ CHR ''&'' # s) = (''expires'', show_int e) # parse_query s" for s
    by (rule parse_query_cons [OF plain_pairI [OF unreserved_words(1) show_int_unreserved [OF e]]])
  ultimately show ?thesis using tail by (simp add: link_query_def)
qed

section \<open>Requests for links\<close>

text \<open>An HMAC-SHA256 is 32 bytes; no other message is known with the code of \<open>m\<close>.\<close>

definition hmac_bytes :: "link_client \<Rightarrow> bool" where
  "hmac_bytes cl \<longleftrightarrow> (\<forall>m. length (hmac cl m) = 32 \<and> (\<forall>b\<in>set (hmac cl m). b < 256))"

definition no_forgery :: "link_client \<Rightarrow> string \<Rightarrow> bool" where
  "no_forgery cl m \<longleftrightarrow> (\<forall>m'. hmac cl m' = hmac cl m \<longrightarrow> m' = m)"

lemma hex_decode_sign: "hmac_bytes cl \<Longrightarrow> hex_decode (sign cl p e u) = Some (hmac cl (sign_message p e u))"
  by (simp add: sign_def hmac_bytes_def hex_decode_encode)

lemma sign_unreserved: "hmac_bytes cl \<Longrightarrow> list_all unreserved (sign cl p e u)"
  by (simp add: sign_def hmac_bytes_def hex_encode_unreserved)

lemma sign_not_Nil: "hmac_bytes cl \<Longrightarrow> sign cl p e u \<noteq> []"
  using hex_decode_sign [of cl p e u] by (auto simp: hmac_bytes_def dest: spec [of _ "sign_message p e u"])

lemma verify_iff:
  "hmac_bytes cl \<Longrightarrow> verify cl now p e u sg \<longleftrightarrow> now \<le> e \<and> hex_decode sg = Some (hmac cl (sign_message p e u))"
  by (auto simp: verify_def hex_decode_sign split: option.splits)

lemma link_shape:
  "sign_url_node_user cl t0 nd p user d @ stream_query ih enc
     = base_for cl nd @ ''/'' @ escape_path p @ ''?'' @ link_query (t0 + d) user (sign cl p (t0 + d) user) ih enc"
  by (simp add: sign_url_node_user_def sign_url_node_def link_query_def Let_def)

lemma request_of_link:
  "request_of (base_for cl nd) meth rng (sign_url_node_user cl t0 nd p user d @ stream_query ih enc)
     = Some \<lparr>rq_method = meth, rq_path = CHR ''/'' # p,
         rq_query = parse_query (link_query (t0 + d) user (sign cl p (t0 + d) user) ih enc), rq_range = rng\<rparr>"
proof -
  have "CHR ''?'' \<notin> set (''/'' @ escape_path p)" using escape_path_no_query by simp
  from cut_single [OF this] show ?thesis
    by (simp add: request_of_def link_shape unescape_escape_path)
qed

lemma q_get_link:
  assumes "0 \<le> e" and "list_all unreserved sg" and "list_all unreserved ih"
  shows "q_get (parse_query (link_query e user sg ih enc)) ''expires'' = show_int e"
    and "q_get (parse_query (link_query e user sg ih enc)) ''u'' = user"
    and "q_get (parse_query (link_query e user sg ih enc)) ''sig'' = sg"
    and "q_get (parse_query (link_query e user sg ih enc)) ''enc'' = (if enc then ''1'' else [])"
    and "q_get (parse_query (link_query e user sg ih enc)) ''usenet'' = []"
    and "q_get (parse_query (link_query e user sg ih enc)) ''byos'' = []"
  by (simp_all add: parse_link_query [OF assms] q_get_def)

lemma show_int_not_Nil [simp]: "show_int e \<noteq> []"
  by (simp add: show_int_def)

text \<open>The two decisions of \<open>serve\<close> on a GET: whether the link is good, and what it names.\<close>

definition dispatch :: "stream_server \<Rightarrow> (string \<times> string) list \<Rightarrow> string \<Rightarrow> target" where
  "dispatch sv q key = (if q_get q ''usenet'' = ''1'' then ToUsenet key (q_get q ''u'')
     else if parse_stream_path key \<noteq> None then ToCairn key
     else if snd (zip_hash key) then ToZip (fst (zip_hash key))
     else if q_get q ''byos'' = ''1'' \<and> sv_byos sv key (q_get q ''u'') then ToByos key (q_get q ''u'')
     else if sv_cipher sv \<and> q_get q ''enc'' = ''1'' then ToFileEnc key else ToFile key)"

lemma serve_get:
  assumes "rq_method r = ''GET''" and "unescape False (trim_prefix (rq_path r) ''/'') = Some key" and "key \<noteq> []"
    and "q_get (rq_query r) ''sig'' \<noteq> []" and "q_get (rq_query r) ''expires'' \<noteq> []"
    and "parse_int (q_get (rq_query r) ''expires'') = (e, True)"
  shows "serve sv now r = (if now > e then Answered 401
    else if \<not> verify (sv_links sv) now key e (q_get (rq_query r) ''u'') (q_get (rq_query r) ''sig'') then Answered 403
    else dispatch sv (rq_query r) key)"
  using assms by (cases "zip_hash key") (auto simp: serve_def dispatch_def Let_def)

lemma serve_link:
  assumes h: "hmac_bytes (sv_links sv)" and t: "0 \<le> e" "e < 2 ^ 63" and ih: "list_all unreserved ih"
    and k: "unescape False p = Some key" "key \<noteq> []"
  shows "serve sv now \<lparr>rq_method = ''GET'', rq_path = CHR ''/'' # p,
      rq_query = parse_query (link_query e user (sign (sv_links sv) p e user) ih enc), rq_range = rng\<rparr>
    = (if now > e then Answered 401
       else if hmac (sv_links sv) (sign_message key e user) \<noteq> hmac (sv_links sv) (sign_message p e user) then Answered 403
       else dispatch sv (parse_query (link_query e user (sign (sv_links sv) p e user) ih enc)) key)"
  using serve_get [where sv = sv and key = key and e = e, of "\<lparr>rq_method = ''GET'', rq_path = CHR ''/'' # p,
      rq_query = parse_query (link_query e user (sign (sv_links sv) p e user) ih enc), rq_range = rng\<rparr>"]
    q_get_link [OF t(1) sign_unreserved [OF h] ih] k h
  by (simp add: trim_prefix_def has_prefix_def parse_int_show [OF t] sign_not_Nil verify_iff hex_decode_sign)

section \<open>What a signature binds\<close>

lemma show_int_no_colon: "CHR '':'' \<notin> set (show_int e)"
proof -
  have "CHR '':'' \<notin> set (show_nat n)" for n
    using show_nat_digits [of n] by (auto simp: all_digits_def list_all_iff is_digit_def in_range_def code_of_def)
  then show ?thesis by (simp add: show_int_def)
qed

lemma show_int_minus: "CHR ''-'' \<in> set (show_int e) \<longleftrightarrow> e < 0"
proof -
  have "CHR ''-'' \<notin> set (show_nat n)" for n
    using show_nat_digits [of n] by (auto simp: all_digits_def list_all_iff is_digit_def in_range_def code_of_def)
  then show ?thesis by (simp add: show_int_def)
qed

lemma show_int_inj: "show_int e = show_int e' \<Longrightarrow> e = e'"
proof -
  assume a: "show_int e = show_int e'"
  then have "e < 0 \<longleftrightarrow> e' < 0" by (metis show_int_minus)
  with a show ?thesis by (auto simp: show_int_def dest!: show_nat_inj split: if_splits)
qed

text \<open>Splitting at the first separator.\<close>

lemma append_sep_eq:
  assumes "c \<notin> set a" and "x @ c # y = a @ c # b"
  shows "(x = a \<and> y = b) \<or> (\<exists>z. x = a @ c # z \<and> b = z @ c # y)"
proof -
  from assms(2) obtain us where "x = a @ us \<and> us @ c # y = c # b \<or> x @ us = a \<and> c # y = us @ c # b"
    by (auto simp: append_eq_append_conv2)
  then show ?thesis
  proof (elim disjE conjE)
    assume "x = a @ us" "us @ c # y = c # b"
    then show ?thesis by (cases us) auto
  next
    assume "x @ us = a" "c # y = us @ c # b"
    with assms(1) show ?thesis by (cases us) auto
  qed
qed

lemma append_sep_cut:
  assumes "c \<notin> set a" and "c \<notin> set b" and "x @ c # y = a @ c # b"
  shows "x = a \<and> y = b"
  using append_sep_eq [OF assms(1,3)] assms(2) by auto

text \<open>
  The message of a link determines its parts when neither the path nor the user of the link that was
  issued contains a colon and the user is not a number.
\<close>

lemma sign_message_inj:
  assumes p': "CHR '':'' \<notin> set p'" and u': "CHR '':'' \<notin> set u'" "\<And>k. u' \<noteq> show_int k"
    and eq: "sign_message p e u = sign_message p' e' u'"
  shows "p = p' \<and> e = e' \<and> u = u'"
proof -
  let ?R = "if u \<noteq> [] then show_int e @ '':'' @ u else show_int e"
  let ?R' = "if u' \<noteq> [] then show_int e' @ '':'' @ u' else show_int e'"
  have "p @ CHR '':'' # ?R = p' @ CHR '':'' # ?R'" using eq by (simp add: sign_message_def split: if_splits)
  from append_sep_eq [OF p' this] show ?thesis
  proof (elim disjE exE conjE)
    assume "p = p'" and r: "?R = ?R'"
    moreover have "e = e' \<and> u = u'"
    proof (cases "u = []")
      case True
      with r show ?thesis
        using show_int_no_colon [of e] show_int_inj [of e e'] by (cases "u' = []") auto
    next
      case False
      have n: "u' \<noteq> []"
      proof
        assume "u' = []"
        with r False have "show_int e' = show_int e @ '':'' @ u" by simp
        then have "CHR '':'' \<in> set (show_int e')" by simp
        with show_int_no_colon show False by blast
      qed
      with r False have "show_int e @ CHR '':'' # u = show_int e' @ CHR '':'' # u'" by simp
      from append_sep_cut [OF show_int_no_colon u'(1) this] show ?thesis using show_int_inj by blast
    qed
    ultimately show ?thesis by blast
  next
    fix z assume z: "?R' = z @ CHR '':'' # ?R"
    with show_int_no_colon [of e'] have n: "u' \<noteq> []" by (auto split: if_splits)
    with z have "z @ CHR '':'' # ?R = show_int e' @ CHR '':'' # u'" by simp
    from append_sep_cut [OF show_int_no_colon u'(1) this] have "?R = u'" by blast
    with u' show ?thesis by (auto split: if_splits)
  qed
qed

text \<open>
  Without that condition it does not: the signature of a link without user for a file named
  \<open>p:e1\<close> is that of a link to \<open>p\<close> which expires at \<open>e1\<close>, whatever the first one's expiry \<open>e2\<close> was.
\<close>

lemma numeric_suffix_rebinds:
  "hmac_bytes cl \<Longrightarrow> verify cl now p e1 (show_int e2) (sign cl (p @ '':'' @ show_int e1) e2 []) \<longleftrightarrow> now \<le> e1"
  by (simp add: verify_iff hex_decode_sign sign_message_def)

section \<open>Properties\<close>

text \<open>
  The link of a stored file whose name has no percent sign, with the suffix of \<open>StreamQuery\<close>,
  opens that file until it expires and is refused afterwards, on every node.
\<close>

theorem signed_link_opens:
  assumes "hmac_bytes (sv_links sv)" and "0 \<le> t0 + d" and "t0 + d < 2 ^ 63" and "list_all unreserved ih"
    and "key \<noteq> []" and "CHR ''%'' \<notin> set key" and "parse_stream_path key = None" and "\<not> snd (zip_hash key)"
  shows "\<exists>r. request_of (base_for (sv_links sv) nd) ''GET'' rng
        (sign_url_node_user (sv_links sv) t0 nd key user d @ stream_query ih enc) = Some r
    \<and> serve sv now r = (if now > t0 + d then Answered 401
        else if enc \<and> sv_cipher sv then ToFileEnc key else ToFile key)"
  using serve_link [OF assms(1-4), of key key] assms(5-)
    q_get_link [OF assms(2) sign_unreserved [OF assms(1)] assms(4)]
  by (simp add: request_of_link unescape_plain dispatch_def)

text \<open>
  A file whose name contains a percent sign cannot be opened: the server unescapes the path a
  second time, so a fresh link is answered 400 or 403.
\<close>

theorem percent_link_refused:
  assumes "hmac_bytes (sv_links sv)" and "0 \<le> t0 + d" and "t0 + d < 2 ^ 63" and "list_all unreserved ih"
    and "CHR ''%'' \<in> set key" and "no_forgery (sv_links sv) (sign_message key (t0 + d) user)" and "now \<le> t0 + d"
  shows "\<exists>r. request_of (base_for (sv_links sv) nd) ''GET'' rng
        (sign_url_node_user (sv_links sv) t0 nd key user d @ stream_query ih enc) = Some r
    \<and> serve sv now r \<in> {Answered 400, Answered 403}"
proof (cases "unescape False key")
  case None
  then show ?thesis by (simp add: request_of_link serve_def trim_prefix_def has_prefix_def)
next
  case (Some k)
  show ?thesis
  proof (cases "k = []")
    case True
    with Some show ?thesis by (simp add: request_of_link serve_def trim_prefix_def has_prefix_def)
  next
    case False
    have "k \<noteq> key" using unescape_length [OF Some] assms(5) by auto
    then have "sign_message k (t0 + d) user \<noteq> sign_message key (t0 + d) user" by (simp add: sign_message_def)
    with assms(6) have "hmac (sv_links sv) (sign_message k (t0 + d) user) \<noteq> hmac (sv_links sv) (sign_message key (t0 + d) user)"
      unfolding no_forgery_def by blast
    with serve_link [OF assms(1-4) Some False] assms(7) show ?thesis by (simp add: request_of_link)
  qed
qed

text \<open>A client whose code tells one message from all others.\<close>

definition sample_links :: "string \<Rightarrow> link_client" where
  "sample_links m = \<lparr>public_url = ''https://s'', node_bases = (\<lambda>_. []),
     hmac = (\<lambda>m'. replicate 32 (if m' = m then 1 else 0))\<rparr>"

definition sample_server :: "string \<Rightarrow> stream_server" where
  "sample_server m = \<lparr>sv_links = sample_links m, sv_cipher = True, sv_byos = (\<lambda>_ _. False)\<rparr>"

lemma sample_links_ok: "hmac_bytes (sv_links (sample_server m))" "no_forgery (sv_links (sample_server m)) m"
  by (simp_all add: hmac_bytes_def no_forgery_def sample_server_def sample_links_def)

theorem signed_link_opens_witness:
  "\<exists>r. request_of ''https://s'' ''GET'' [] (sign_url_node_user (sv_links (sample_server [])) 1000 [] ''h/file_0/a b.mkv'' ''u-1'' 60
      @ stream_query [] True) = Some r \<and> serve (sample_server []) 1060 r = ToFileEnc ''h/file_0/a b.mkv''
    \<and> serve (sample_server []) 1061 r = Answered 401"
proof -
  have c: "parse_stream_path ''h/file_0/a b.mkv'' = None" "\<not> snd (zip_hash ''h/file_0/a b.mkv'')"
    by (simp_all add: parse_stream_path_def zip_hash_def has_suffix_def)
  have b: "base_for (sv_links (sample_server [])) [] = ''https://s''"
    by (simp add: base_for_def sample_server_def sample_links_def)
  note o = signed_link_opens [OF sample_links_ok(1) [of "[]"] _ _ _ _ _ c, where ?t0.0 = 1000 and d = 60 and ih = "[]" and enc = True
      and nd = "[]" and rng = "[]" and user = "''u-1''", unfolded b]
  show ?thesis using o [of 1060] o [of 1061] by (auto simp: sample_server_def)
qed

theorem percent_link_refused_witness:
  "\<exists>r. request_of ''https://s'' ''GET'' [] (sign_url_node_user (sv_links (sample_server ''100%.mkv:1060'')) 1000 [] ''100%.mkv'' [] 60
      @ stream_query [] False) = Some r \<and> serve (sample_server ''100%.mkv:1060'') 1001 r \<in> {Answered 400, Answered 403}"
proof -
  have m: "sign_message ''100%.mkv'' 1060 [] = ''100%.mkv:1060''"
    by code_simp
  have b: "base_for (sv_links (sample_server ''100%.mkv:1060'')) [] = ''https://s''"
    by (simp add: base_for_def sample_server_def sample_links_def)
  show ?thesis
    using percent_link_refused [OF sample_links_ok(1) [of "''100%.mkv:1060''"], of 1000 60 "[]" "''100%.mkv''" "[]" 1001 "[]" "[]" False]
      sample_links_ok(2) [of "''100%.mkv:1060''"]
    by (simp add: m b)
qed

text \<open>
  C28: whoever holds a link issued for a path, a user and an expiry, and sends any request with its
  signature, is given that path, as that user, until that time, or nothing, when the path and the
  user contain no colon and the user is not a number.
\<close>

theorem link_grants_only_its_file:
  assumes "hmac_bytes (sv_links sv)" and "no_forgery (sv_links sv) (sign_message p e u)"
    and "CHR '':'' \<notin> set p" and "CHR '':'' \<notin> set u" and "\<And>k. u \<noteq> show_int k"
    and "hex_decode (q_get (rq_query r) ''sig'') = hex_decode (sign (sv_links sv) p e u)"
    and "serve sv now r = t" and "\<And>s. t \<noteq> Answered s"
  shows "unescape False (trim_prefix (rq_path r) ''/'') = Some p \<and> q_get (rq_query r) ''u'' = u
    \<and> now \<le> e \<and> t \<in> {ToUsenet p u, ToCairn p, ToZip (fst (zip_hash p)), ToByos p u, ToHead p True, ToHead p False,
        ToFileEnc p, ToFile p}"
proof -
  let ?q = "rq_query r"
  obtain k e0 where k: "unescape False (trim_prefix (rq_path r) ''/'') = Some k"
    and e0: "parse_int (q_get ?q ''expires'') = (e0, True)"
    and v: "verify (sv_links sv) now k e0 (q_get ?q ''u'') (q_get ?q ''sig'')"
    and t: "t \<in> {ToUsenet k (q_get ?q ''u''), ToCairn k, ToZip (fst (zip_hash k)), ToByos k (q_get ?q ''u''), ToHead k True,
      ToHead k False, ToFileEnc k, ToFile k}"
    using assms(7,8) unfolding serve_def by (auto simp: Let_def split: if_splits option.splits prod.splits)
  from v have now: "now \<le> e0" and h: "hex_decode (q_get ?q ''sig'') = Some (hmac (sv_links sv) (sign_message k e0 (q_get ?q ''u'')))"
    by (simp_all add: verify_iff [OF assms(1)])
  have "hmac (sv_links sv) (sign_message k e0 (q_get ?q ''u'')) = hmac (sv_links sv) (sign_message p e u)"
    using h assms(6) by (simp add: hex_decode_sign [OF assms(1)])
  then have "sign_message k e0 (q_get ?q ''u'') = sign_message p e u"
    using assms(2) unfolding no_forgery_def by blast
  from sign_message_inj [OF assms(3,4,5) this] have "k = p" "e0 = e" "q_get ?q ''u'' = u" by auto
  with k now t show ?thesis by blast
qed

lemma uuid_not_number: "x \<in> set u \<Longrightarrow> \<not> is_digit x \<Longrightarrow> x \<noteq> CHR ''-'' \<Longrightarrow> u \<noteq> show_int k"
  using show_nat_digits [of "nat k"] show_nat_digits [of "nat (- k)"]
  by (auto simp: show_int_def all_digits_def list_all_iff split: if_splits)

definition sample_request :: http_req where
  "sample_request = \<lparr>rq_method = ''HEAD'', rq_path = ''/h/a'',
     rq_query = [(''expires'', ''60''), (''u'', ''u-1''), (''sig'', hex_encode (replicate 32 1))], rq_range = []\<rparr>"

theorem link_grants_only_its_file_witness:
  "serve (sample_server ''h/a:60:u-1'') 5 sample_request = ToHead ''h/a'' False
    \<and> unescape False (trim_prefix (rq_path sample_request) ''/'') = Some ''h/a'' \<and> (5::int) \<le> 60"
proof -
  let ?sv = "sample_server ''h/a:60:u-1''"
  have m: "sign_message ''h/a'' 60 ''u-1'' = ''h/a:60:u-1''" by code_simp
  have u: "''u-1'' \<noteq> show_int k" for k by (rule uuid_not_number [of "CHR ''u''"]) (simp_all add: is_digit_def in_range_def code_of_def)
  have s: "hex_decode (q_get (rq_query sample_request) ''sig'') = hex_decode (sign (sv_links ?sv) ''h/a'' 60 ''u-1'')"
    by (simp add: m sign_def sample_request_def q_get_def sample_server_def sample_links_def)
  have t: "serve ?sv 5 sample_request = ToHead ''h/a'' False" by code_simp
  have f: "no_forgery (sv_links ?sv) (sign_message ''h/a'' 60 ''u-1'')"
    unfolding m by (rule sample_links_ok)
  from link_grants_only_its_file [OF sample_links_ok(1) f _ _ u s t] show ?thesis by (simp add: t)
qed

end
