(* ===== verification/Yenc.thy ===== *)
theory Yenc
  imports Bytes
begin

text \<open>
  The yEnc decoder of \<open>shared/usenet/decoder/yenc.go\<close>: header and trailer lines, the escape
  decoding of the data lines and the checksum check. Header fields are ASCII; integers that do not
  fit keep the value \<open>ParseInt\<close> returns beside its error.
\<close>

section \<open>Headers\<close>

record yenc_result =
  y_data :: "byte list"
  y_filename :: string
  y_part :: int
  y_total :: int
  y_size :: int
  y_begin :: int
  y_end :: int

definition extract_value :: "string \<Rightarrow> string \<Rightarrow> string" where
  "extract_value line key =
     (case index_of line (key @ ''='') of None \<Rightarrow> []
      | Some i \<Rightarrow>
          let rest = drop (i + length key + 1) line in
          if key = ''name'' then trim_space rest
          else case index_byte rest (CHR '' '') of
                 None \<Rightarrow> trim_space rest
               | Some e \<Rightarrow> take e rest)"

definition parse_yenc_header :: "string \<Rightarrow> yenc_result \<Rightarrow> yenc_result" where
  "parse_yenc_header line r0 =
     (let name = extract_value line ''name''; sz = extract_value line ''size'';
          part = extract_value line ''part''; tot = extract_value line ''total'';
          r1 = (if name \<noteq> [] then r0\<lparr>y_filename := name\<rparr> else r0);
          r2 = (if sz \<noteq> [] then r1\<lparr>y_size := fst (parse_int sz)\<rparr> else r1);
          r3 = (if part \<noteq> [] then r2\<lparr>y_part := fst (parse_int part)\<rparr> else r2)
      in if tot \<noteq> [] then r3\<lparr>y_total := fst (parse_int tot)\<rparr> else r3)"

definition parse_ypart_header :: "string \<Rightarrow> yenc_result \<Rightarrow> yenc_result" where
  "parse_ypart_header line r0 =
     (let b = extract_value line ''begin''; e = extract_value line ''end'';
          r1 = (if b \<noteq> [] then r0\<lparr>y_begin := fst (parse_int b)\<rparr> else r0)
      in if e \<noteq> [] then r1\<lparr>y_end := fst (parse_int e)\<rparr> else r1)"

section \<open>Checksums\<close>

definition single_part :: "yenc_result \<Rightarrow> bool" where
  "single_part r \<longleftrightarrow> y_part r = 0 \<or> (y_part r = 1 \<and> y_total r \<le> 1)"

text \<open>The last \<open>pcrc32\<close> and \<open>crc32\<close> tokens of the trailer.\<close>

definition yend_checksums :: "string \<Rightarrow> string \<times> string" where
  "yend_checksums line =
     foldl (\<lambda>(pcrc, crc) tok.
        let (k, v, ok) = cut tok ''='' in
        if \<not> ok then (pcrc, crc)
        else if to_lower k = ''pcrc32'' then (v, crc)
        else if to_lower k = ''crc32'' then (pcrc, v) else (pcrc, crc)) ([], []) (Go_Strings.fields line)"

text \<open>\<open>strconv.ParseUint(s, 16, 32)\<close>: no sign, no prefix, no underscore.\<close>

definition parse_hex32 :: "string \<Rightarrow> nat option" where
  "parse_hex32 s = (let n = foldl (\<lambda>n c. n * 16 + hex_val c) 0 s in
     if s = [] \<or> \<not> list_all is_hex s \<or> n \<ge> 2 ^ 32 then None else Some n)"

datatype yenc_error = NoYencData | ErrChecksumMismatch

definition verify_checksum :: "string \<Rightarrow> yenc_result \<Rightarrow> yenc_error option" where
  "verify_checksum yend r =
     (if yend = [] then None
      else let (pcrc, crc) = yend_checksums yend in
      if pcrc = [] \<and> \<not> single_part r then None
      else let want = (if pcrc = [] then crc else pcrc) in
      if want = [] then None
      else case parse_hex32 want of None \<Rightarrow> None
        | Some n \<Rightarrow> if word_of_nat n \<noteq> crc32 (y_data r) then Some ErrChecksumMismatch else None)"

section \<open>Decoding\<close>

fun decode_line :: "byte list \<Rightarrow> byte list" where
  "decode_line [] = []"
| "decode_line [b] = [b - 42]"
| "decode_line (b # c # r) =
     (if b = 61 then (c - 64 - 42) # decode_line r else (b - 42) # decode_line (c # r))"

fun replace_crlf :: "byte list \<Rightarrow> byte list" where
  "replace_crlf [] = []"
| "replace_crlf [b] = [b]"
| "replace_crlf (b # c # r) = (if b = 13 \<and> c = 10 then 10 # replace_crlf r else b # replace_crlf (c # r))"

text \<open>The loop over the lines: the header fields, where the data starts and ends, the trailer.\<close>

record yenc_scan =
  ys_result :: yenc_result
  ys_start :: nat
  ys_end :: nat
  ys_yend :: string
  ys_found :: bool

fun scan_lines :: "nat \<Rightarrow> byte list list \<Rightarrow> yenc_scan \<Rightarrow> yenc_scan" where
  "scan_lines i [] s = s"
| "scan_lines i (line # rest) s =
     (if has_prefix line (bytes_of ''=ybegin '') then
        scan_lines (Suc i) rest (s\<lparr>ys_result := parse_yenc_header (string_of line) (ys_result s),
          ys_start := Suc i, ys_found := True\<rparr>)
      else if has_prefix line (bytes_of ''=ypart '') then
        scan_lines (Suc i) rest (s\<lparr>ys_result := parse_ypart_header (string_of line) (ys_result s), ys_start := Suc i\<rparr>)
      else if has_prefix line (bytes_of ''=yend '') then s\<lparr>ys_yend := string_of line, ys_end := i\<rparr>
      else scan_lines (Suc i) rest s)"

definition empty_yenc :: yenc_result where
  "empty_yenc = \<lparr>y_data = [], y_filename = [], y_part = 0, y_total = 0, y_size = 0, y_begin = 0, y_end = 0\<rparr>"

definition decode :: "byte list \<Rightarrow> yenc_error + yenc_result" where
  "decode raw =
     (let lines = split_byte 10 (replace_crlf raw);
          s = scan_lines 0 lines \<lparr>ys_result = empty_yenc, ys_start = 0, ys_end = 0, ys_yend = [], ys_found = False\<rparr>;
          en = (if ys_end s = 0 then length lines else ys_end s)
      in if \<not> ys_found s then Inl NoYencData
      else let r = (ys_result s)\<lparr>y_data := (if ys_start s \<ge> en then []
                else concat (map decode_line (take (en - ys_start s) (drop (ys_start s) lines))))\<rparr>
      in case verify_checksum (ys_yend s) r of Some e \<Rightarrow> Inl e | None \<Rightarrow> Inr r)"

section \<open>Encoding\<close>

text \<open>
  A yEnc encoder, from the format: a byte is shifted by 42, and critical bytes are escaped. Encoders
  differ in which bytes they escape beyond LF, CR and the escape character itself.
\<close>

definition may_escape :: "byte \<Rightarrow> bool" where
  "may_escape e \<longleftrightarrow> e \<in> {0, 9, 10, 13, 32, 46, 61}"

definition valid_escapes :: "(byte \<Rightarrow> bool) \<Rightarrow> bool" where
  "valid_escapes esc \<longleftrightarrow> esc 10 \<and> esc 13 \<and> esc 61 \<and> (\<forall>e. esc e \<longrightarrow> may_escape e)"

definition encode_byte :: "(byte \<Rightarrow> bool) \<Rightarrow> byte \<Rightarrow> byte list" where
  "encode_byte esc b = (if esc (b + 42) then [61, b + 42 + 64] else [b + 42])"

definition encode_line :: "(byte \<Rightarrow> bool) \<Rightarrow> byte list \<Rightarrow> byte list" where
  "encode_line esc bs = concat (map (encode_byte esc) bs)"

definition ybegin_line :: "string \<Rightarrow> string" where "ybegin_line h = ''=ybegin '' @ h"
definition ypart_line :: "string \<Rightarrow> string" where "ypart_line h = ''=ypart '' @ h"
definition yend_line :: "string \<Rightarrow> string" where "yend_line h = ''=yend '' @ h"

text \<open>An article: header, part header, data lines, trailer, each ended by CR LF.\<close>

definition article :: "(byte \<Rightarrow> bool) \<Rightarrow> string \<Rightarrow> string option \<Rightarrow> byte list list \<Rightarrow> string \<Rightarrow> byte list" where
  "article esc h p ds t = concat (map (\<lambda>l. l @ [13, 10])
     (bytes_of (ybegin_line h) # (case p of None \<Rightarrow> [] | Some x \<Rightarrow> [bytes_of (ypart_line x)])
      @ map (encode_line esc) ds @ [bytes_of (yend_line t)]))"

lemma decode_encode_line:
  assumes "valid_escapes esc"
  shows "decode_line (encode_line esc bs) = bs"
proof (induction bs)
  case (Cons b bs)
  have one: "decode_line (e # r) = (e - 42) # decode_line r" if "e \<noteq> 61" for e r
    using that by (cases r) auto
  show ?case
  proof (cases "esc (b + 42)")
    case True
    with Cons show ?thesis by (simp add: encode_line_def encode_byte_def)
  next
    case False
    then have "b + 42 \<noteq> 61" using assms by (auto simp: valid_escapes_def)
    with False Cons one show ?thesis by (simp add: encode_line_def encode_byte_def)
  qed
qed (simp add: encode_line_def)

lemma may_escape_shift: "may_escape e \<Longrightarrow> e + 64 \<noteq> 10 \<and> e + 64 \<noteq> 13 \<and> e + 64 \<noteq> 121"
  by (auto simp: may_escape_def)

lemma encode_byte_clean:
  assumes "valid_escapes esc" and "c \<in> set (encode_byte esc b)"
  shows "c \<noteq> 10 \<and> c \<noteq> 13"
proof -
  define e where "e = b + 42"
  have c: "c \<in> set (if esc e then [61, e + 64] else [e])" using assms(2) unfolding encode_byte_def e_def .
  show ?thesis
  proof (cases "esc e")
    case True
    then have "may_escape e" using assms(1) by (simp add: valid_escapes_def)
    with c True may_escape_shift [of e] show ?thesis by auto
  next
    case False
    then show ?thesis using c assms(1) by (auto simp: valid_escapes_def)
  qed
qed

lemma encode_line_clean:
  "valid_escapes esc \<Longrightarrow> b \<in> set (encode_line esc bs) \<Longrightarrow> b \<noteq> 10 \<and> b \<noteq> 13"
  unfolding encode_line_def set_concat set_map by (blast dest: encode_byte_clean)

lemma encode_line_not_header:
  assumes "valid_escapes esc"
  shows "take 2 (encode_line esc bs) \<noteq> [61, 121]"
proof (cases bs)
  case (Cons b r)
  show ?thesis
  proof (cases "esc (b + 42)")
    case True
    then have "b + 42 + 64 \<noteq> 121" using assms by (auto simp: valid_escapes_def may_escape_def)
    with True Cons show ?thesis by (simp add: encode_line_def encode_byte_def)
  next
    case False
    then have "b + 42 \<noteq> 61" using assms by (auto simp: valid_escapes_def)
    with False Cons show ?thesis by (simp add: encode_line_def encode_byte_def numeral_2_eq_2)
  qed
qed (simp add: encode_line_def)

section \<open>Lines\<close>

lemma byte_of_inj [simp]: "byte_of a = byte_of b \<longleftrightarrow> a = b"
  using byte_of_inverse by metis

lemma bytes_of_prefix [simp]: "has_prefix (bytes_of s) (bytes_of p) = has_prefix s p"
  by (simp add: has_prefix_def bytes_of_def take_map inj_map_eq_map inj_def)

lemma header_bytes: "take 2 (bytes_of ''=ybegin '') = [61, 121]" "take 2 (bytes_of ''=ypart '') = [61, 121]"
  "take 2 (bytes_of ''=yend '') = [61, 121]"
  by code_simp+

lemma not_header_line:
  assumes "take 2 l \<noteq> [61, 121]"
  shows "\<not> has_prefix l (bytes_of ''=ybegin '')" "\<not> has_prefix l (bytes_of ''=ypart '')" "\<not> has_prefix l (bytes_of ''=yend '')"
proof -
  have "take 2 l = [61, 121]" if "has_prefix l p" "take 2 p = [61, 121]" for p
  proof -
    have "length (take 2 p) = 2" using that(2) by simp
    then have "2 \<le> length p" by simp
    with that show ?thesis by (auto simp: has_prefix_iff)
  qed
  then show "\<not> has_prefix l (bytes_of ''=ybegin '')" "\<not> has_prefix l (bytes_of ''=ypart '')" "\<not> has_prefix l (bytes_of ''=yend '')"
    using assms header_bytes by blast+
qed

lemma replace_crlf_line:
  assumes "13 \<notin> set l"
  shows "replace_crlf (l @ 13 # 10 # rest) = l @ 10 # replace_crlf rest"
  using assms
proof (induction l)
  case (Cons b l)
  then show ?case by (cases l) auto
qed simp

lemma lines_of_crlf:
  assumes "\<forall>l\<in>set ls. 10 \<notin> set l \<and> 13 \<notin> set l"
  shows "split_byte 10 (replace_crlf (concat (map (\<lambda>l. l @ [13, 10]) ls))) = ls @ [[]]"
  using assms by (induction ls) (auto simp: replace_crlf_line split_byte_append)

lemma scan_data_lines:
  assumes "\<forall>l\<in>set ds. take 2 l \<noteq> [61, 121]"
  shows "scan_lines i (ds @ rest) s = scan_lines (i + length ds) rest s"
  using assms by (induction ds arbitrary: i) (simp_all add: not_header_line)

definition no_newline :: "string \<Rightarrow> bool" where
  "no_newline s \<longleftrightarrow> CHR 0x0A \<notin> set s \<and> CHR 0x0D \<notin> set s"

lemma no_newline_bytes: "no_newline s \<Longrightarrow> 10 \<notin> set (bytes_of s) \<and> 13 \<notin> set (bytes_of s)"
proof -
  have b: "byte_of (CHR 0x0A) = 10" "byte_of (CHR 0x0D) = 13" by code_simp+
  assume "no_newline s"
  then show ?thesis unfolding no_newline_def bytes_of_def set_map b [symmetric] by (auto simp only: image_iff byte_of_inj)
qed

lemma headers_no_newline [simp]:
  "yend_line t \<noteq> []" "no_newline (ybegin_line h) = no_newline h" "no_newline (ypart_line h) = no_newline h"
  "no_newline (yend_line h) = no_newline h"
  by (simp_all add: no_newline_def ybegin_line_def ypart_line_def yend_line_def)

lemma line_prefixes [simp]:
  "has_prefix (ybegin_line x) ''=ybegin ''" "has_prefix (ypart_line x) ''=ypart ''" "has_prefix (yend_line x) ''=yend ''"
  "\<not> has_prefix (ypart_line x) ''=ybegin ''" "\<not> has_prefix (yend_line x) ''=ybegin ''"
  "\<not> has_prefix (yend_line x) ''=ypart ''"
  by (simp_all add: has_prefix_def ybegin_line_def ypart_line_def yend_line_def)

text \<open>What the header lines say, before the data is known.\<close>

definition header_result :: "string \<Rightarrow> string option \<Rightarrow> yenc_result" where
  "header_result h p = (let r = parse_yenc_header (ybegin_line h) empty_yenc in
     case p of None \<Rightarrow> r | Some x \<Rightarrow> parse_ypart_header (ypart_line x) r)"

lemma decode_article:
  assumes esc: "valid_escapes esc" and nl: "no_newline h" "\<forall>x\<in>set_option p. no_newline x" "no_newline t"
  shows "decode (article esc h p ds t) =
    (let r = (header_result h p)\<lparr>y_data := concat ds\<rparr> in
     case verify_checksum (yend_line t) r of Some e \<Rightarrow> Inl e | None \<Rightarrow> Inr r)"
proof -
  let ?ps = "case p of None \<Rightarrow> [] | Some x \<Rightarrow> [bytes_of (ypart_line x)]"
  let ?hd = "bytes_of (ybegin_line h) # ?ps" and ?es = "map (encode_line esc) ds" and ?yend = "bytes_of (yend_line t)"
  have "\<forall>l\<in>set (?hd @ ?es @ [?yend]). 10 \<notin> set l \<and> 13 \<notin> set l"
    using no_newline_bytes [of "ybegin_line h"] no_newline_bytes [of "yend_line t"]
      no_newline_bytes [of "ypart_line (the p)"] nl encode_line_clean [OF esc]
    by (auto split: option.splits)
  from lines_of_crlf [OF this]
  have lines: "split_byte 10 (replace_crlf (article esc h p ds t)) = ?hd @ ?es @ [?yend] @ [[]]"
    by (simp add: article_def)
  have skip: "\<forall>l\<in>set ?es. take 2 l \<noteq> [61, 121]" using encode_line_not_header [OF esc] by auto
  let ?s0 = "\<lparr>ys_result = empty_yenc, ys_start = 0, ys_end = 0, ys_yend = [], ys_found = False\<rparr>"
  have scan: "scan_lines 0 (?hd @ ?es @ [?yend] @ [[]]) ?s0 = \<lparr>ys_result = header_result h p, ys_start = length ?hd,
      ys_end = length ?hd + length ds, ys_yend = yend_line t, ys_found = True\<rparr>"
    by (cases p) (simp_all add: scan_data_lines [OF skip] header_result_def Let_def )
  have data: "concat (map decode_line ?es) = concat ds"
    by (simp add: comp_def decode_encode_line [OF esc])
  have "take (length ds) (drop (length ?hd) (?hd @ ?es @ [?yend] @ [[]])) = ?es" by simp
  moreover have "ds = [] \<Longrightarrow> concat ds = []" by simp
  ultimately show ?thesis
    unfolding decode_def lines scan Let_def using data by (cases "ds = []") (simp_all  split: option.splits)
qed

section \<open>Properties\<close>

text \<open>
  C31: decoding undoes encoding and the checksum decides: for an article written by any yEnc encoder,
  with or without a part header, whose trailer carries the part checksum \<open>n\<close>, the decoder returns the
  posted bytes if \<open>n\<close> is their CRC-32, and reports a mismatch, never data, if it is not.
\<close>

theorem yenc_roundtrip:
  assumes "valid_escapes esc" and "no_newline h" and "\<forall>x\<in>set_option p. no_newline x" and "no_newline t"
    and "fst (yend_checksums (yend_line t)) = want" and "parse_hex32 want = Some n"
  shows "decode (article esc h p ds t) =
    (if word_of_nat n = crc32 (concat ds) then Inr ((header_result h p)\<lparr>y_data := concat ds\<rparr>)
     else Inl ErrChecksumMismatch)"
proof -
  have "want \<noteq> []" using assms(6) by (auto simp: parse_hex32_def)
  then have "verify_checksum (yend_line t) r = (if word_of_nat n \<noteq> crc32 (y_data r) then Some ErrChecksumMismatch else None)" for r
    using assms(5,6) by (auto simp: verify_checksum_def Let_def split: prod.splits)
  then show ?thesis using decode_article [OF assms(1-4), of ds] by (simp add: Let_def)
qed

definition sample_escapes :: "byte \<Rightarrow> bool" where
  "sample_escapes e \<longleftrightarrow> e = 10 \<or> e = 13 \<or> e = 61"

theorem yenc_roundtrip_witness:
  "decode (article sample_escapes ''line=128 size=2 name=x'' None [[97]] ''size=2 pcrc32=0'') = Inl ErrChecksumMismatch
   \<and> word_of_nat 0 \<noteq> crc32 [97]"
proof -
  have e: "valid_escapes sample_escapes" by (simp add: valid_escapes_def sample_escapes_def may_escape_def)
  have c: "word_of_nat 0 \<noteq> crc32 [97]"
  proof -
    have "crc32 [97] = 0xE8B7BE43" by code_simp
    then show ?thesis by simp
  qed
  have y: "fst (yend_checksums (yend_line ''size=2 pcrc32=0'')) = ''0''" by code_simp
  have "is_hex (CHR ''0'')" "hex_val (CHR ''0'') = 0" by code_simp+
  then have y': "parse_hex32 ''0'' = Some 0" by (simp add: parse_hex32_def)
  have n: "no_newline ''line=128 size=2 name=x''" "no_newline ''size=2 pcrc32=0''" by (simp_all add: no_newline_def)
  from yenc_roundtrip [OF e n(1) _ n(2) y y', of None "[[97]]"] c show ?thesis by simp
qed

end
