(* ===== verification/Encrypted_Stream.thy ===== *)
theory Encrypted_Stream
  imports Object_Store
begin

text \<open>
  Encrypted objects: \<open>shared/crypto/stream.go\<close> plans which encrypted bytes hold a range of the plaintext,
  and \<open>stream/internal/server/encrypted.go\<close> serves such ranges over HTTP; \<open>serveFile\<close> and \<open>serveHead\<close>
  of \<open>server.go\<close> serve plain objects. The library \<open>sio\<close> (the DARE format: packages of 64 KiB plaintext,
  each 32 bytes longer when encrypted, numbered by a sequence number) is a parameter. Where a stored
  object comes from is the locale \<open>ranged_source\<close>, which the back end of \<open>Object_Store\<close> meets.
\<close>

section \<open>\<open>crypto.Stream\<close>\<close>

definition dare_plain_pkg :: int where
  "dare_plain_pkg = 64 * 1024"

text \<open>
  \<open>sio\<close>: the sizes of a ciphertext and of a plaintext (an error for sizes outside the format), and what
  a decrypting reader yields that starts at a sequence number, with whether it reached the end of its
  input without an error.
\<close>

record sio_lib =
  sio_esize :: "int \<Rightarrow> int option"
  sio_dsize :: "int \<Rightarrow> int option"
  sio_decrypt :: "nat list \<Rightarrow> nat \<Rightarrow> byte list \<Rightarrow> byte list \<times> bool"

record enc_stream =
  st_key :: "nat list"
  st_pkg :: int

datatype crypto_error = BadHex | BadKeyLength nat | BadSize | BadRange int int int | ShortCiphertext

definition new_stream :: "sio_lib \<Rightarrow> string \<Rightarrow> crypto_error + enc_stream option" where
  "new_stream lib hex_key =
     (if hex_key = [] then Inr None
      else case hex_decode hex_key of None \<Rightarrow> Inl BadHex
      | Some key \<Rightarrow>
        if length key \<noteq> 32 then Inl (BadKeyLength (length key))
        else case sio_esize lib dare_plain_pkg of None \<Rightarrow> Inl BadSize
        | Some n \<Rightarrow> Inr (Some \<lparr>st_key = key, st_pkg = n\<rparr>))"

definition encrypted_size :: "sio_lib \<Rightarrow> int \<Rightarrow> crypto_error + int" where
  "encrypted_size lib n = (case sio_esize lib n of None \<Rightarrow> Inl BadSize | Some m \<Rightarrow> Inr m)"

definition plain_size :: "sio_lib \<Rightarrow> int \<Rightarrow> crypto_error + int" where
  "plain_size lib n = (case sio_dsize lib n of None \<Rightarrow> Inl BadSize | Some m \<Rightarrow> Inr m)"

record enc_range =
  er_start :: int
  er_end :: int
  er_seq :: nat
  er_skip :: int
  er_len :: int

definition plan_range :: "sio_lib \<Rightarrow> enc_stream \<Rightarrow> int \<Rightarrow> int \<Rightarrow> int \<Rightarrow> crypto_error + enc_range" where
  "plan_range lib s st en plain_total =
     (if st < 0 \<or> en > plain_total \<or> st \<ge> en then Inl (BadRange st en plain_total)
      else let first_pkg = quot st dare_plain_pkg; last_pkg = quot (en - 1) dare_plain_pkg;
             enc_end_plain = (let e = (last_pkg + 1) * dare_plain_pkg in if e > plain_total then plain_total else e)
        in bindE (encrypted_size lib enc_end_plain) (\<lambda>enc_end.
          Inr \<lparr>er_start = first_pkg * st_pkg s, er_end = enc_end, er_seq = nat (first_pkg mod 2 ^ 32),
               er_skip = st - first_pkg * dare_plain_pkg, er_len = en - st\<rparr>))"

text \<open>What is written, and whether the error is nil.\<close>

definition decrypt_range :: "sio_lib \<Rightarrow> enc_stream \<Rightarrow> byte list \<Rightarrow> enc_range \<Rightarrow> byte list \<times> bool" where
  "decrypt_range lib s body r =
     (let pl = fst (sio_decrypt lib (st_key s) (er_seq r) body) in
      if int (length pl) < er_skip r then ([], False)
      else let out = take (nat (er_len r)) (drop (nat (er_skip r)) pl) in (out, int (length out) = er_len r))"

definition decrypt_all :: "sio_lib \<Rightarrow> enc_stream \<Rightarrow> byte list \<Rightarrow> byte list \<times> bool" where
  "decrypt_all lib s body = sio_decrypt lib (st_key s) 0 body"

section \<open>Serving objects\<close>

record reply =
  rp_status :: nat
  rp_ctype :: string
  rp_length :: "int option"
  rp_range :: string
  rp_body :: "byte list"

definition error_reply :: "nat \<Rightarrow> string \<Rightarrow> reply" where
  "error_reply st msg = \<lparr>rp_status = st, rp_ctype = ''application/json'', rp_length = None, rp_range = [],
     rp_body = bytes_of (''{\"error\":\"'' @ msg @ ''\"}'')\<rparr>"

text \<open>A HEAD request gets no body from \<open>net/http\<close>; the branches for it write none.\<close>

definition serve_head :: "sio_lib \<Rightarrow> enc_stream option \<Rightarrow> bool \<Rightarrow> storage_error + object \<Rightarrow> reply" where
  "serve_head lib cipher enc hd_obj =
     (case hd_obj of Inl e \<Rightarrow> error_reply 404 ''not found''
      | Inr ob \<Rightarrow>
        let sz = (case cipher of None \<Rightarrow> ob_size ob
            | Some s \<Rightarrow> if enc then (case plain_size lib (ob_size ob) of Inl _ \<Rightarrow> ob_size ob | Inr p \<Rightarrow> p) else ob_size ob)
        in \<lparr>rp_status = 200, rp_ctype = ob_ctype ob, rp_length = Some sz, rp_range = [], rp_body = []\<rparr>)"

definition serve_file :: "(string \<Rightarrow> storage_error + object) \<Rightarrow> string \<Rightarrow> reply" where
  "serve_file get rng =
     (case get rng of Inl e \<Rightarrow> error_reply 404 ''not found''
      | Inr ob \<Rightarrow>
        let partial = rng \<noteq> [] \<and> ob_range ob \<noteq> [] in
        \<lparr>rp_status = (if partial then 206 else 200), rp_ctype = ob_ctype ob,
         rp_length = (if ob_size ob > 0 then Some (ob_size ob) else None),
         rp_range = (if partial then ob_range ob else []), rp_body = ob_body ob\<rparr>)"

definition serve_encrypted :: "sio_lib \<Rightarrow> enc_stream \<Rightarrow> storage_error + object \<Rightarrow> (string \<Rightarrow> storage_error + object)
    \<Rightarrow> string \<Rightarrow> string \<Rightarrow> reply" where
  "serve_encrypted lib s hd_obj get meth rng =
     (case hd_obj of Inl e \<Rightarrow> error_reply 404 ''not found''
      | Inr h \<Rightarrow>
       (case plain_size lib (ob_size h) of Inl e \<Rightarrow> error_reply 500 ''bad object''
        | Inr plain_total \<Rightarrow>
          if meth = ''HEAD'' then
            \<lparr>rp_status = 200, rp_ctype = ob_ctype h, rp_length = Some plain_total, rp_range = [], rp_body = []\<rparr>
          else case parse_range rng plain_total of
            None \<Rightarrow>
              if rng \<noteq> [] then error_reply 416 ''range not satisfiable''
              else (case get [] of Inl e \<Rightarrow> error_reply 404 ''not found''
                | Inr ob \<Rightarrow> \<lparr>rp_status = 200, rp_ctype = ob_ctype h, rp_length = Some plain_total, rp_range = [],
                    rp_body = fst (decrypt_all lib s (ob_body ob))\<rparr>)
          | Some (st, en) \<Rightarrow>
             (case plan_range lib s st (en + 1) plain_total of
                Inl e \<Rightarrow> error_reply 416 ''range not satisfiable''
              | Inr plan \<Rightarrow>
                (case get (range_header (er_start plan) (er_end plan - 1)) of
                   Inl e \<Rightarrow> error_reply 404 ''not found''
                 | Inr ob \<Rightarrow> \<lparr>rp_status = 206, rp_ctype = ob_ctype h, rp_length = Some (en - st + 1),
                     rp_range = content_range st en plain_total, rp_body = fst (decrypt_range lib s (ob_body ob) plan)\<rparr>))))"

section \<open>The format\<close>

text \<open>
  The documented laws of DARE. \<open>dare_size n\<close> is the size of \<open>n\<close> bytes encrypted, 32 more for every
  package begun; \<open>dare lib key p c\<close> says that \<open>c\<close> is an encryption of \<open>p\<close>: a reader that starts at the
  package \<open>k\<close> with that sequence number and sees whole packages up to \<open>j\<close> yields their plaintext.
\<close>

definition dare_size :: "int \<Rightarrow> int" where
  "dare_size n = n + 32 * ((n + dare_plain_pkg - 1) div dare_plain_pkg)"

definition sio_sizes :: "sio_lib \<Rightarrow> bool" where
  "sio_sizes lib \<longleftrightarrow> (\<forall>n. 0 \<le> n \<and> n \<le> 2 ^ 48 \<longrightarrow> sio_esize lib n = Some (dare_size n) \<and> sio_dsize lib (dare_size n) = Some n)"

definition dare :: "sio_lib \<Rightarrow> nat list \<Rightarrow> byte list \<Rightarrow> byte list \<Rightarrow> bool" where
  "dare lib key p c \<longleftrightarrow> int (length p) \<le> 2 ^ 48 \<and> int (length c) = dare_size (int (length p))
     \<and> fst (sio_decrypt lib key 0 c) = p
     \<and> (\<forall>k j. int k * dare_plain_pkg < int (length p) \<and> k < j \<longrightarrow>
          (let stop = min (j * nat dare_plain_pkg) (length p) in
           fst (sio_decrypt lib key k (drop (k * (nat dare_plain_pkg + 32)) (take (nat (dare_size (int stop))) c)))
             = drop (k * nat dare_plain_pkg) (take stop p)))"

lemma dare_plain_pkg_nat: "nat dare_plain_pkg = 65536" "dare_plain_pkg = 65536"
  by (simp_all add: dare_plain_pkg_def)

lemma dare_size_mono: "a \<le> b \<Longrightarrow> dare_size a \<le> dare_size b"
  unfolding dare_size_def dare_plain_pkg_nat by (intro add_mono mult_left_mono zdiv_mono1) auto

lemma dare_size_nonneg: "0 \<le> a \<Longrightarrow> a \<le> dare_size a"
  by (simp add: dare_size_def dare_plain_pkg_nat)

lemma dare_size_pkgs: "dare_size (int k * 65536) = int k * 65568"
proof -
  have "(int k * 65536 + 65535) div 65536 = int k" by simp
  then show ?thesis by (simp add: dare_size_def dare_plain_pkg_nat)
qed

section \<open>A planned range decrypts to the range\<close>

definition dare_stream :: "sio_lib \<Rightarrow> enc_stream \<Rightarrow> bool" where
  "dare_stream lib s \<longleftrightarrow> sio_sizes lib \<and> st_pkg s = dare_size dare_plain_pkg"

lemma new_stream_dare: "new_stream lib k = Inr (Some s) \<Longrightarrow> sio_sizes lib \<Longrightarrow> dare_stream lib s"
  by (auto simp: new_stream_def dare_stream_def sio_sizes_def dare_plain_pkg_nat split: if_splits option.splits)

text \<open>The plan in natural numbers: package \<open>k\<close> up to the end of the last one, or of the plaintext.\<close>

definition plan_stop :: "nat \<Rightarrow> nat \<Rightarrow> nat" where
  "plan_stop b n = min (((b - 1) div 65536 + 1) * 65536) n"

lemma plan_stop_bounds: "0 < b \<Longrightarrow> b \<le> n \<Longrightarrow> b \<le> plan_stop b n \<and> plan_stop b n \<le> n"
  by (auto simp: plan_stop_def)

lemma plan_range_nat:
  assumes "dare_stream lib s" and "a < b" and "b \<le> n" and "int n \<le> 2 ^ 48"
  shows "plan_range lib s (int a) (int b) (int n) =
    Inr \<lparr>er_start = int (a div 65536 * 65568), er_end = dare_size (int (plan_stop b n)), er_seq = a div 65536,
         er_skip = int (a mod 65536), er_len = int (b - a)\<rparr>"
proof -
  have q: "quot (int a) dare_plain_pkg = int (a div 65536)" "quot (int b - 1) dare_plain_pkg = int ((b - 1) div 65536)"
    using assms(2) by (simp_all add: dare_plain_pkg_nat zdiv_int of_nat_diff)
  have e: "(let e = (int ((b - 1) div 65536) + 1) * dare_plain_pkg in if e > int n then int n else e) = int (plan_stop b n)"
    by (auto simp: plan_stop_def dare_plain_pkg_nat Let_def min_def)
  have "a div 65536 < 2 ^ 32" using assms(2-4) by (auto simp: less_mult_imp_div_less)
  then have m: "nat (int (a div 65536) mod 2 ^ 32) = a div 65536"
    by (metis mod_less nat_int of_nat_numeral of_nat_power zmod_int)
  have sz: "encrypted_size lib (int (plan_stop b n)) = Inr (dare_size (int (plan_stop b n)))"
    using assms plan_stop_bounds [of b n] by (auto simp: encrypted_size_def dare_stream_def sio_sizes_def)
  have p: "st_pkg s = 65568" using assms(1) by (simp add: dare_stream_def dare_plain_pkg_nat dare_size_def)
  have g: "(int a < 0 \<or> int b > int n \<or> int a \<ge> int b) = False" using assms(2,3) by simp
  have sk: "int a - int (a div 65536) * dare_plain_pkg = int (a mod 65536)"
    by (simp add: dare_plain_pkg_nat zmod_int zdiv_int minus_div_mult_eq_mod)
  have l: "int b - int a = int (b - a)" using assms(2) by simp
  show ?thesis
    unfolding plan_range_def Let_def q g if_False e [unfolded Let_def] sz bindE_Inr m p sk l by simp
qed

lemma planned_range_decrypts:
  assumes s: "dare_stream lib s" and d: "dare lib (st_key s) p c" and ab: "a < b" "b \<le> length p"
    and plan: "plan_range lib s (int a) (int b) (int (length p)) = Inr r"
  shows "0 \<le> er_start r" and "er_start r \<le> er_end r - 1" and "er_end r - 1 < int (length c)"
    and "decrypt_range lib s (take (nat (er_end r - 1 - er_start r + 1)) (drop (nat (er_start r)) c)) r
         = (take (b - a) (drop a p), True)"
proof -
  define k where "k = a div 65536"
  define stop where "stop = plan_stop b (length p)"
  note st = plan_stop_bounds [of b "length p", folded stop_def]
  from d have n: "int (length p) \<le> 2 ^ 48" and c: "int (length c) = dare_size (int (length p))"
    and dec: "int k * dare_plain_pkg < int (length p) \<Longrightarrow> k < j \<Longrightarrow>
      (let stop = min (j * nat dare_plain_pkg) (length p) in
           fst (sio_decrypt lib (st_key s) k (drop (k * (nat dare_plain_pkg + 32)) (take (nat (dare_size (int stop))) c)))
             = drop (k * nat dare_plain_pkg) (take stop p))" for j
    by (auto simp: dare_def)
  have r: "r = \<lparr>er_start = int (k * 65568), er_end = dare_size (int stop), er_seq = k, er_skip = int (a mod 65536), er_len = int (b - a)\<rparr>"
    using plan_range_nat [OF s ab n] plan by (simp add: k_def stop_def)
  have ka: "k * 65536 \<le> a" by (simp add: k_def)
  have lt: "k * 65536 < stop" using ka ab st by linarith
  have ge: "int k * 65568 + 1 \<le> dare_size (int stop)"
  proof -
    have "int k * 65536 + 1 + 32 * ((int k * 65536 + 1 + 65535) div 65536) = int k * 65536 + 1 + 32 * (int k + 1)" by simp
    then have "int k * 65568 + 1 \<le> dare_size (int k * 65536 + 1)" by (simp add: dare_size_def dare_plain_pkg_nat)
    also have "\<dots> \<le> dare_size (int stop)" using lt by (intro dare_size_mono) linarith
    finally show ?thesis .
  qed
  have le: "dare_size (int stop) \<le> int (length c)" unfolding c using st ab by (intro dare_size_mono) simp
  show "0 \<le> er_start r" "er_start r \<le> er_end r - 1" "er_end r - 1 < int (length c)" using ge le by (simp_all add: r)
  have body: "take (nat (er_end r - 1 - er_start r + 1)) (drop (nat (er_start r)) c)
    = drop (k * (nat dare_plain_pkg + 32)) (take (nat (dare_size (int stop))) c)"
  proof -
    have "nat (er_end r - 1 - er_start r + 1) = nat (dare_size (int stop)) - k * 65568" "nat (er_start r) = k * 65568"
      using ge by (simp_all add: r)
    then show ?thesis by (simp add: dare_plain_pkg_nat drop_take)
  qed
  have "min (((b - 1) div 65536 + 1) * nat dare_plain_pkg) (length p) = stop"
    by (simp add: stop_def plan_stop_def dare_plain_pkg_nat)
  moreover have "int k * dare_plain_pkg < int (length p)" using ka ab by (simp add: dare_plain_pkg_nat)
  moreover have "k < (b - 1) div 65536 + 1" using ab by (auto simp: k_def less_Suc_eq_le intro: div_le_mono)
  ultimately have "fst (sio_decrypt lib (st_key s) k (drop (k * (nat dare_plain_pkg + 32)) (take (nat (dare_size (int stop))) c)))
    = drop (k * 65536) (take stop p)"
    using dec [of "(b - 1) div 65536 + 1"] by (simp add: dare_plain_pkg_nat Let_def)
  moreover have "k * 65536 + a mod 65536 = a" by (simp add: k_def)
  moreover from this have "drop (a mod 65536) (drop (k * 65536) (take stop p)) = drop a (take stop p)" by (simp add: add.commute)
  moreover have "take (b - a) (drop a (take stop p)) = take (b - a) (drop a p)" using st ab by (simp add: drop_take min_absorb1 diff_le_mono)
  moreover have "nat (int b - int a) = b - a" "min (stop - a) (b - a) = b - a" "min (length p - a) (b - a) = b - a" using st ab by auto
  moreover have "a mod 65536 \<le> stop - k * 65536" using ab st \<open>k * 65536 + a mod 65536 = a\<close> by linarith
  ultimately show "decrypt_range lib s (take (nat (er_end r - 1 - er_start r + 1)) (drop (nat (er_start r)) c)) r
         = (take (b - a) (drop a p), True)"
    unfolding body using st ab by (simp add: decrypt_range_def r Let_def del: drop_drop drop_take)
qed

section \<open>Sources of bytes\<close>

text \<open>
  What the handlers need of a source: \<open>stored k c\<close> says that the object \<open>k\<close> has the content \<open>c\<close>; then
  its head tells the size and its ranges are slices of the content.
\<close>

locale ranged_source =
  fixes src_head :: "'k \<Rightarrow> storage_error + object" and src_get :: "'k \<Rightarrow> string \<Rightarrow> storage_error + object"
    and stored :: "'k \<Rightarrow> byte list \<Rightarrow> bool"
  assumes head_size: "stored k c \<Longrightarrow> \<exists>h. src_head k = Inr h \<and> ob_size h = int (length c)"
    and get_all: "stored k c \<Longrightarrow> \<exists>ob. src_get k [] = Inr ob \<and> ob_body ob = c"
    and get_range: "stored k c \<Longrightarrow> 0 \<le> a \<Longrightarrow> a \<le> b \<Longrightarrow> b < int (length c) \<Longrightarrow> int (length c) < 2 ^ 63 \<Longrightarrow>
      \<exists>ob. src_get k (range_header a b) = Inr ob \<and> ob_body ob = take (nat (b - a + 1)) (drop (nat a) c)"
begin

lemma encrypted_served:
  assumes s: "dare_stream lib s" and d: "dare lib (st_key s) p c" and k: "stored k c" and m: "meth \<noteq> ''HEAD''"
  shows "\<exists>h. src_head k = Inr h \<and> serve_encrypted lib s (src_head k) (src_get k) meth rng =
    (case parse_range rng (int (length p)) of
       None \<Rightarrow> if rng = [] then \<lparr>rp_status = 200, rp_ctype = ob_ctype h, rp_length = Some (int (length p)), rp_range = [], rp_body = p\<rparr>
         else error_reply 416 ''range not satisfiable''
     | Some (a, b) \<Rightarrow> if p = [] then error_reply 416 ''range not satisfiable''
         else \<lparr>rp_status = 206, rp_ctype = ob_ctype h, rp_length = Some (b - a + 1),
           rp_range = content_range a b (int (length p)), rp_body = take (nat (b - a + 1)) (drop (nat a) p)\<rparr>)"
proof -
  obtain h where h: "src_head k = Inr h" "ob_size h = int (length c)" using head_size [OF k] by blast
  obtain ob where ob: "src_get k [] = Inr ob" "ob_body ob = c" using get_all [OF k] by blast
  from d have n: "int (length p) \<le> 2 ^ 48" and lc: "int (length c) = dare_size (int (length p))"
    and all: "fst (sio_decrypt lib (st_key s) 0 c) = p" by (simp_all add: dare_def)
  have lc63: "int (length c) < 2 ^ 63"
  proof -
    have "dare_size (int (length p)) \<le> dare_size (2 ^ 48)" using n by (rule dare_size_mono)
    also have "\<dots> < 2 ^ 63" by (simp add: dare_size_def dare_plain_pkg_nat)
    finally show ?thesis by (simp add: lc)
  qed
  have ps: "plain_size lib (ob_size h) = Inr (int (length p))"
    using s n by (simp add: plain_size_def h lc dare_stream_def sio_sizes_def)
  show ?thesis
  proof (cases "parse_range rng (int (length p))")
    case None
    then show ?thesis
      using m ob by (simp add: serve_encrypted_def h(1) ps all decrypt_all_def)
  next
    case (Some ab)
    obtain a b where ab: "ab = (a, b)" by (cases ab)
    note bd = parse_range_bounds [OF Some [unfolded ab]]
    show ?thesis
    proof (cases "p = []")
      case True
      with bd have "b + 1 \<le> a" by simp
      then show ?thesis using m Some True by (simp add: serve_encrypted_def h(1) ps ab plan_range_def)
    next
      case False
      with bd have b: "0 \<le> a" "a \<le> b" "b < int (length p)" by auto
      obtain r where r: "plan_range lib s (int (nat a)) (int (nat (b + 1))) (int (length p)) = Inr r"
        using plan_range_nat [OF s, of "nat a" "nat (b + 1)" "length p"] b n by fastforce
      have ra: "nat a < nat (b + 1)" "nat (b + 1) \<le> length p" using b by auto
      note pr = planned_range_decrypts [OF s d ra r]
      from get_range [OF k pr(1-3) lc63] obtain o2 where o2: "src_get k (range_header (er_start r) (er_end r - 1)) = Inr o2"
        "ob_body o2 = take (nat (er_end r - 1 - er_start r + 1)) (drop (nat (er_start r)) c)" by blast
      have "nat (b + 1) - nat a = nat (b - a + 1)" using b by simp
      with pr(4) r o2 show ?thesis
        using m Some b False by (simp add: serve_encrypted_def h(1) ps ab)
    qed
  qed
qed

end

text \<open>The disk back end: the content of a key is that of its file.\<close>

definition fs_stored :: "file_sys \<Rightarrow> string \<Rightarrow> string \<Rightarrow> byte list \<Rightarrow> bool" where
  "fs_stored fs root key c \<longleftrightarrow> map_option ff_data (fs_find fs (obj_path root key)) = Some c"

lemma range_header_ne [simp]: "range_header a b \<noteq> []"
  by (simp add: range_header_def)

interpretation disk: ranged_source "fs_head fs root" "fs_get fs root" "fs_stored fs root" for fs root
proof
  fix k c
  assume "fs_stored fs root k c"
  then obtain f where f: "fs_find fs (obj_path root k) = Some f" "ff_data f = c" by (auto simp: fs_stored_def)
  show "\<exists>h. fs_head fs root k = Inr h \<and> ob_size h = int (length c)" using f by (simp add: fs_head_def Let_def)
  show "\<exists>ob. fs_get fs root k [] = Inr ob \<and> ob_body ob = c" using f by (simp add: fs_get_def Let_def)
  fix a b :: int
  assume ab: "0 \<le> a" "a \<le> b" "b < int (length c)" "int (length c) < 2 ^ 63"
  have "parse_range (range_header a b) (int (length (ff_data f))) = Some (a, b)"
    using ab f(2) by (intro parse_range_header) auto
  from fs_get_range [OF f(1) range_header_ne this] show "\<exists>ob. fs_get fs root k (range_header a b) = Inr ob \<and> ob_body ob = take (nat (b - a + 1)) (drop (nat a) c)"
    by (simp add: f(2))
qed

section \<open>Properties\<close>

text \<open>
  C6: an encrypted object on disk is served as its plaintext. A GET without a range gets all of it, a
  range that \<open>ParseRange\<close> accepts gets exactly that slice of the plaintext, whatever packages it cuts,
  with its position and length in the headers, and every other range is answered 416.
\<close>

theorem encrypted_ranges_exact:
  assumes "sio_sizes lib" and "new_stream lib hex_key = Inr (Some s)" and "dare lib (st_key s) p c"
    and "fs_stored fs root key c" and "meth \<noteq> ''HEAD''"
  shows "\<exists>ct. serve_encrypted lib s (fs_head fs root key) (fs_get fs root key) meth rng =
    (case parse_range rng (int (length p)) of
       None \<Rightarrow> if rng = [] then \<lparr>rp_status = 200, rp_ctype = ct, rp_length = Some (int (length p)), rp_range = [], rp_body = p\<rparr>
         else error_reply 416 ''range not satisfiable''
     | Some (a, b) \<Rightarrow> if p = [] then error_reply 416 ''range not satisfiable''
         else \<lparr>rp_status = 206, rp_ctype = ct, rp_length = Some (b - a + 1),
           rp_range = content_range a b (int (length p)), rp_body = take (nat (b - a + 1)) (drop (nat a) p)\<rparr>)"
  using disk.encrypted_served [OF new_stream_dare [OF assms(2,1)] assms(3-5)] by blast

text \<open>A library for plaintexts of one repeated byte.\<close>

definition undare :: "int \<Rightarrow> int" where
  "undare m = m - 32 * ((m + 65567) div 65568)"

definition sevens :: sio_lib where
  "sevens = \<lparr>sio_esize = (\<lambda>n. Some (dare_size n)), sio_dsize = (\<lambda>m. Some (undare m)),
     sio_decrypt = (\<lambda>key k w. (replicate (nat (undare (int (length w)))) 7, True))\<rparr>"

lemma undare_shift: "undare (m - int k * 65568) = undare m - int k * 65536"
proof -
  have "m - int k * 65568 + 65567 = (m + 65567) + (- int k) * 65568" by simp
  then have "(m - int k * 65568 + 65567) div 65568 = (m + 65567) div 65568 - int k"
    by (metis add.commute div_mult_self1 uminus_add_conv_diff zero_neq_numeral)
  then show ?thesis by (simp add: undare_def algebra_simps)
qed

lemma undare_size: "undare (dare_size n) = n"
proof -
  define q where "q = (n + 65535) div 65536"
  have b: "65536 * q \<le> n + 65535" "n + 65535 < 65536 * q + 65536" unfolding q_def by linarith+
  have d: "dare_size n = n + 32 * q" by (simp add: dare_size_def dare_plain_pkg_nat q_def)
  have "(dare_size n + 65567) div 65568 = q" unfolding d using b by linarith
  then show ?thesis by (simp add: undare_def d)
qed

lemma sevens_sizes: "sio_sizes sevens"
  by (simp add: sio_sizes_def sevens_def undare_size)

lemma sevens_dare:
  assumes "int n \<le> 2 ^ 48"
  shows "dare sevens key (replicate n 7) (replicate (nat (dare_size (int n))) 7)"
proof -
  have pos: "0 \<le> dare_size (int m)" for m using dare_size_nonneg [of "int m"] by linarith
  have "fst (sio_decrypt sevens key k (drop (k * (nat dare_plain_pkg + 32)) (take (nat (dare_size (int stop))) (replicate (nat (dare_size (int n))) 7))))
      = drop (k * nat dare_plain_pkg) (take stop (replicate n 7))"
    if "stop \<le> n" and "k * 65536 \<le> stop" for k stop
  proof -
    have "dare_size (int stop) \<le> dare_size (int n)" using that by (intro dare_size_mono) simp
    moreover have "int k * 65568 \<le> dare_size (int stop)"
      using dare_size_mono [of "int k * 65536" "int stop"] that(2) by (simp add: dare_size_pkgs)
    then have "int (nat (dare_size (int stop)) - k * 65568) = dare_size (int stop) - int k * 65568"
      using pos [of stop] by (simp add: of_nat_diff nat_le_iff le_nat_iff)
    then have "nat (undare (int (nat (dare_size (int stop)) - k * 65568))) = stop - k * 65536"
      by (simp add: undare_shift undare_size nat_diff_distrib nat_mult_distrib)
    ultimately show ?thesis using that by (simp add: sevens_def dare_plain_pkg_nat min_absorb1 nat_mono)
  qed
  then show ?thesis
    using assms pos [of n]
    by (auto simp: dare_def Let_def dare_plain_pkg_nat sevens_def undare_size min_def simp del: drop_replicate take_replicate)
qed

theorem encrypted_ranges_exact_witness:
  "\<exists>ct. serve_encrypted sevens \<lparr>st_key = replicate 32 1, st_pkg = 65568\<rparr>
      (fs_head [\<lparr>ff_path = ''/d/k'', ff_data = replicate 70064 7, ff_mod = 0\<rparr>] ''/d'' ''k'')
      (fs_get [\<lparr>ff_path = ''/d/k'', ff_data = replicate 70064 7, ff_mod = 0\<rparr>] ''/d'' ''k'') ''GET'' (range_header 65530 65541)
    = \<lparr>rp_status = 206, rp_ctype = ct, rp_length = Some 12, rp_range = content_range 65530 65541 70000, rp_body = replicate 12 7\<rparr>"
proof -
  have s: "new_stream sevens (hex_encode (replicate 32 1)) = Inr (Some \<lparr>st_key = replicate 32 1, st_pkg = 65568\<rparr>)"
  proof -
    have "hex_encode (replicate 32 1) \<noteq> []" by code_simp
    moreover have "hex_decode (hex_encode (replicate 32 1)) = Some (replicate 32 1)" by (rule hex_decode_encode) simp
    ultimately show ?thesis by (simp add: new_stream_def sevens_def dare_size_def dare_plain_pkg_nat)
  qed
  have d: "dare sevens (st_key \<lparr>st_key = replicate 32 1, st_pkg = 65568\<rparr>) (replicate 70000 7) (replicate 70064 7)"
    using sevens_dare [of 70000] by (simp add: dare_size_def dare_plain_pkg_nat)
  have o1: "obj_path ''/d'' ''k'' = ''/d/k''" by code_simp
  have f: "fs_stored [\<lparr>ff_path = ''/d/k'', ff_data = replicate 70064 7, ff_mod = 0\<rparr>] ''/d'' ''k'' (replicate 70064 7)"
    by (simp add: fs_stored_def o1 fs_find_def)
  have r: "parse_range (range_header 65530 65541) 70000 = Some (65530, 65541)" by (rule parse_range_header) simp_all
  have n: "int (length (replicate 70000 (7::byte))) = 70000" by simp
  have sl: "take (nat (65541 - 65530 + 1)) (drop (nat 65530) (replicate 70000 (7::byte))) = replicate 12 7"
    by (simp add: drop_replicate take_replicate)
  have ne: "(replicate 70000 (7::byte) = []) = False" by simp
  from encrypted_ranges_exact [OF sevens_sizes s d f, of "''GET''" "range_header 65530 65541"] show ?thesis
    unfolding n r option.case prod.case ne if_False sl by simp
qed

end
