(* ===== verification/Cairn_Reader.thy ===== *)
theory Cairn_Reader
  imports Yenc Encrypted_Stream
begin

text \<open>
  The reader of archived releases, \<open>shared/usenet/reader.go\<close>: a file is the concatenation of its
  articles, fetched on demand through a FIFO cache, with a read-ahead that runs in the background; and
  the source that \<open>stream/internal/server/cairn.go\<close> makes of it for encrypted releases. The fetcher of
  raw articles is a parameter that may answer differently at every call; the background fetches are a
  schedule that says which segments other goroutines get before each step of a read.
\<close>

section \<open>The file\<close>

record nzb_part =
  pt_number :: int
  pt_bytes :: int
  pt_id :: string

record cairn_seg =
  cs_part :: nzb_part
  cs_start :: int
  cs_end :: int

datatype cairn_error = NoSegments | InvalidSegment int | SizeOverflow | NegativeOffset | CairnEOF
  | FetchFailed string | DecodeFailed yenc_error | WrongSize int int | WrongBegin int int

fun place_parts :: "int \<Rightarrow> nzb_part list \<Rightarrow> cairn_error + cairn_seg list \<times> int" where
  "place_parts sz [] = Inr ([], sz)"
| "place_parts sz (p # ps) =
     (if pt_bytes p \<le> 0 \<or> pt_id p = [] then Inl (InvalidSegment (pt_number p))
      else let sz' = wrap64 (sz + pt_bytes p) in
        if sz' < sz then Inl SizeOverflow
        else bindE (place_parts sz' ps) (\<lambda>(segs, n). Inr (\<lparr>cs_part = p, cs_start = sz, cs_end = sz'\<rparr> # segs, n)))"

definition new_cairn_reader :: "nzb_part list \<Rightarrow> cairn_error + cairn_seg list \<times> int" where
  "new_cairn_reader parts =
     (if parts = [] then Inl NoSegments else place_parts 0 (sort_key pt_number parts))"

section \<open>Segments\<close>

definition max_cached_seg :: nat where "max_cached_seg = 32"

record cairn_state =
  cr_cache :: "nat \<Rightarrow> byte list option"
  cr_order :: "nat list"
  cr_calls :: nat

definition new_cairn_state :: cairn_state where
  "new_cairn_state = \<lparr>cr_cache = Map.empty, cr_order = [], cr_calls = 0\<rparr>"

text \<open>The fetcher: the number of the call and the message id give an error or the raw article.\<close>

type_synonym article_fetcher = "nat \<Rightarrow> string \<Rightarrow> string + byte list"

definition cairn_fetch :: "article_fetcher \<Rightarrow> cairn_seg \<Rightarrow> nat \<Rightarrow> cairn_error + byte list" where
  "cairn_fetch fetcher s n =
     (case fetcher n (pt_id (cs_part s)) of
        Inl e \<Rightarrow> Inl (FetchFailed e)
      | Inr raw \<Rightarrow> (case decode raw of
          Inl e \<Rightarrow> Inl (DecodeFailed e)
        | Inr d \<Rightarrow>
            if int (length (y_data d)) \<noteq> pt_bytes (cs_part s)
            then Inl (WrongSize (int (length (y_data d))) (pt_bytes (cs_part s)))
            else if y_begin d > 0 \<and> y_begin d - 1 \<noteq> cs_start s
            then Inl (WrongBegin (y_begin d - 1) (cs_start s))
            else Inr (y_data d)))"

fun evict_oldest :: "(nat \<Rightarrow> byte list option) \<Rightarrow> nat list \<Rightarrow> (nat \<Rightarrow> byte list option) \<times> nat list" where
  "evict_oldest cache [] = (cache, [])"
| "evict_oldest cache (i # ord) =
     (if length (i # ord) > max_cached_seg then evict_oldest (cache(i := None)) ord else (cache, i # ord))"

definition cairn_store :: "nat \<Rightarrow> byte list \<Rightarrow> cairn_state \<Rightarrow> cairn_state" where
  "cairn_store i d r =
     (if cr_cache r i \<noteq> None then r
      else let (cache, ord) = evict_oldest ((cr_cache r)(i \<mapsto> d)) (cr_order r @ [i]) in
        r\<lparr>cr_cache := cache, cr_order := ord\<rparr>)"

definition cairn_get :: "article_fetcher \<Rightarrow> cairn_seg list \<Rightarrow> nat \<Rightarrow> cairn_state \<Rightarrow> (cairn_error + byte list) \<times> cairn_state" where
  "cairn_get fetcher segs i r =
     (case cr_cache r i of
        Some d \<Rightarrow> (Inr d, r)
      | None \<Rightarrow>
          let res = cairn_fetch fetcher (segs ! i) (cr_calls r); r1 = r\<lparr>cr_calls := Suc (cr_calls r)\<rparr> in
          (res, case res of Inl _ \<Rightarrow> r1 | Inr d \<Rightarrow> cairn_store i d r1))"

text \<open>Other goroutines: each gets a segment and drops the result.\<close>

definition background :: "article_fetcher \<Rightarrow> cairn_seg list \<Rightarrow> nat list \<Rightarrow> cairn_state \<Rightarrow> cairn_state" where
  "background fetcher segs is r = fold (\<lambda>i r. if i < length segs then snd (cairn_get fetcher segs i r) else r) is r"

section \<open>Reading\<close>

text \<open>
  The loop of \<open>ReadAt\<close> over the segments from \<open>i\<close> on; \<open>acc\<close> is what has been copied and \<open>sched\<close> what
  runs in the background before each step.
\<close>

function cairn_loop :: "article_fetcher \<Rightarrow> cairn_seg list \<Rightarrow> (nat \<Rightarrow> nat list) \<Rightarrow> nat \<Rightarrow> int \<Rightarrow> byte list \<Rightarrow> nat \<Rightarrow> cairn_state
    \<Rightarrow> (byte list \<times> cairn_error option) \<times> cairn_state" where
  "cairn_loop fetcher segs sched len off acc i r =
     (if length acc < len \<and> i < length segs then
        (case cairn_get fetcher segs i (background fetcher segs (sched i) r) of
           (Inl e, r1) \<Rightarrow> ((acc, Some e), r1)
         | (Inr d, r1) \<Rightarrow>
             let n = take (len - length acc) (drop (nat (off - cs_start (segs ! i))) d) in
             cairn_loop fetcher segs sched len (off + int (length n)) (acc @ n) (Suc i) r1)
      else ((acc, if length acc < len then Some CairnEOF else None), r))"
  by pat_completeness auto
termination by (relation "measure (\<lambda>(fetcher, segs, sched, len, off, acc, i, r). length segs - i)") auto

declare cairn_loop.simps [simp del]

text \<open>\<open>sort.Search\<close> finds the first segment that ends after the offset.\<close>

definition first_seg :: "cairn_seg list \<Rightarrow> int \<Rightarrow> nat" where
  "first_seg segs off = length (takeWhile (\<lambda>s. cs_end s \<le> off) segs)"

definition cairn_read_at :: "article_fetcher \<Rightarrow> cairn_seg list \<times> int \<Rightarrow> (nat \<Rightarrow> nat list) \<Rightarrow> nat \<Rightarrow> int \<Rightarrow> cairn_state
    \<Rightarrow> (byte list \<times> cairn_error option) \<times> cairn_state" where
  "cairn_read_at fetcher f sched len off r =
     (if len = 0 then (([], None), r)
      else if off < 0 then (([], Some NegativeOffset), r)
      else if off \<ge> snd f then (([], Some CairnEOF), r)
      else cairn_loop fetcher (fst f) sched len off [] (first_seg (fst f) off) r)"

text \<open>A session: reads in order, on one reader.\<close>

fun cairn_session :: "article_fetcher \<Rightarrow> cairn_seg list \<times> int \<Rightarrow> (nat \<times> int \<times> (nat \<Rightarrow> nat list)) list \<Rightarrow> cairn_state
    \<Rightarrow> (byte list \<times> cairn_error option) list" where
  "cairn_session fetcher f [] r = []"
| "cairn_session fetcher f ((len, off, sched) # qs) r =
     (case cairn_read_at fetcher f sched len off r of (res, r1) \<Rightarrow> res # cairn_session fetcher f qs r1)"

section \<open>The encrypted source\<close>

text \<open>
  \<open>io.SectionReader\<close> over the reader, read to its end in pieces of at most \<open>buf\<close> bytes; a section of
  \<open>left\<close> bytes needs at most \<open>left\<close> reads. \<open>sched k\<close> is the background of the \<open>k\<close>-th read.
\<close>

fun section_read :: "nat \<Rightarrow> article_fetcher \<Rightarrow> cairn_seg list \<times> int \<Rightarrow> (nat \<Rightarrow> nat \<Rightarrow> nat list) \<Rightarrow> nat \<Rightarrow> int \<Rightarrow> nat \<Rightarrow> cairn_state
    \<Rightarrow> byte list \<times> cairn_error option" where
  "section_read 0 fetcher f sched buf off left r = ([], None)"
| "section_read (Suc fuel) fetcher f sched buf off left r =
     (if left = 0 then ([], None)
      else case cairn_read_at fetcher f (sched fuel) (min buf left) off r of
        ((bs, Some e), r1) \<Rightarrow> (bs, if e = CairnEOF then None else Some e)
      | ((bs, None), r1) \<Rightarrow>
          (case section_read fuel fetcher f sched buf (off + int (length bs)) (left - length bs) r1 of
             (bs2, err) \<Rightarrow> (bs @ bs2, err)))"

definition cairn_head :: "cairn_seg list \<times> int \<Rightarrow> storage_error + object" where
  "cairn_head f = Inr \<lparr>ob_body = [], ob_size = snd f, ob_ctype = [], ob_range = []\<rparr>"

definition cairn_source_get :: "article_fetcher \<Rightarrow> (nat \<Rightarrow> nat \<Rightarrow> nat list) \<Rightarrow> nat \<Rightarrow> cairn_state \<Rightarrow> cairn_seg list \<times> int \<Rightarrow> string
    \<Rightarrow> storage_error + object" where
  "cairn_source_get fetcher sched buf r f rng =
     (let obj = (\<lambda>st en. let n = en - st + 1 in
        \<lparr>ob_body = fst (section_read (nat n) fetcher f sched buf st (nat n) r), ob_size = n, ob_ctype = [],
         ob_range = content_range st en (snd f)\<rparr>) in
      if rng = [] then Inr (obj 0 (snd f - 1))
      else case parse_range rng (snd f) of None \<Rightarrow> Inl (IOError 0) | Some (st, en) \<Rightarrow> Inr (obj st en))"

section \<open>The layout\<close>

text \<open>\<open>pos ds i\<close>: where the \<open>i\<close>-th article begins.\<close>

definition pos :: "byte list list \<Rightarrow> nat \<Rightarrow> nat" where
  "pos ds i = length (concat (take i ds))"

lemma pos_0 [simp]: "pos ds 0 = 0"
  by (simp add: pos_def)

lemma pos_Suc: "i < length ds \<Longrightarrow> pos ds (Suc i) = pos ds i + length (ds ! i)"
  by (simp add: pos_def take_Suc_conv_app_nth)

lemma pos_all: "length ds \<le> i \<Longrightarrow> pos ds i = length (concat ds)"
  by (simp add: pos_def)

lemma drop_pos: "i < length ds \<Longrightarrow> k \<le> length (ds ! i) \<Longrightarrow>
    drop (pos ds i + k) (concat ds) = drop k (ds ! i) @ concat (drop (Suc i) ds)"
proof -
  assume i: "i < length ds" "k \<le> length (ds ! i)"
  have "concat ds = concat (take i ds) @ ds ! i @ concat (drop (Suc i) ds)"
    using i(1) by (metis append_assoc concat.simps(2) concat_append id_take_nth_drop)
  then show ?thesis using i(2) by (simp add: pos_def)
qed

text \<open>\<open>articles f ds\<close>: the placed segments hold the articles \<open>ds\<close>.\<close>

definition articles :: "cairn_seg list \<times> int \<Rightarrow> byte list list \<Rightarrow> bool" where
  "articles f ds \<longleftrightarrow> length (fst f) = length ds \<and> snd f = int (length (concat ds))
     \<and> (\<forall>i<length ds. cs_start (fst f ! i) = int (pos ds i) \<and> cs_end (fst f ! i) = int (pos ds (Suc i)) \<and> ds ! i \<noteq> [])"

lemma place_parts_layout:
  assumes "place_parts sz ps = Inr (segs, n)" and "0 \<le> sz" and "\<forall>p\<in>set ps. in64 (pt_bytes p)"
    and "map (\<lambda>d. int (length d)) ds = map pt_bytes ps"
  shows "map cs_part segs = ps \<and> length segs = length ds \<and> n = sz + int (length (concat ds)) \<and> (sz < 2 ^ 63 \<longrightarrow> n < 2 ^ 63)
    \<and> (\<forall>i<length ds. cs_start (segs ! i) = sz + int (pos ds i) \<and> cs_end (segs ! i) = sz + int (pos ds (Suc i)) \<and> ds ! i \<noteq> [])"
  using assms
proof (induction sz ps arbitrary: segs n ds rule: place_parts.induct)
  case (1 sz)
  then show ?case by simp
next
  case (2 sz p ps)
  obtain d ds' where ds: "ds = d # ds'" "int (length d) = pt_bytes p" "map (\<lambda>d. int (length d)) ds' = map pt_bytes ps"
    using 2(5) by (cases ds) auto
  let ?sz = "wrap64 (sz + pt_bytes p)"
  have b: "0 < pt_bytes p" "pt_id p \<noteq> []" "\<not> ?sz < sz" using 2(2) by (auto split: if_splits)
  obtain segs' where r: "place_parts ?sz ps = Inr (segs', n)" "segs = \<lparr>cs_part = p, cs_start = sz, cs_end = ?sz\<rparr> # segs'"
    using 2(2) b by (auto simp: bindE_eq_Inr Let_def)
  have w: "?sz = sz + pt_bytes p \<and> sz + pt_bytes p < 2 ^ 63" if "sz < 2 ^ 63"
  proof -
    have "pt_bytes p < 2 ^ 63" using 2(4) by (simp add: in64_def)
    with that b(1,3) \<open>0 \<le> sz\<close> show ?thesis unfolding wrap64_def
      by (cases "sz + pt_bytes p < 2 ^ 63") (simp_all add: mod_pos_pos_trivial mod_pos_geq)
  qed
  show ?case
  proof (cases "sz < 2 ^ 63")
    case True
    from 2(1) [of ?sz, OF _ refl _ r(1) _ _ ds(3)] b w [OF True] 2(3,4)
    have IH: "map cs_part segs' = ps" "length segs' = length ds'" "n = ?sz + int (length (concat ds'))" "n < 2 ^ 63"
      "\<forall>i<length ds'. cs_start (segs' ! i) = ?sz + int (pos ds' i) \<and> cs_end (segs' ! i) = ?sz + int (pos ds' (Suc i)) \<and> ds' ! i \<noteq> []"
      by auto
    have pos: "pos (d # ds') (Suc i) = length d + pos ds' i" for i by (simp add: pos_def)
    have "d \<noteq> []" using ds(2) b by auto
    with IH w [OF True] ds show ?thesis
      by (auto simp: r(2) pos less_Suc_eq_0_disj)
  next
    case False
    have "?sz < 2 ^ 63" using in64_wrap64 [of "sz + pt_bytes p"] by (simp add: in64_def)
    with b False show ?thesis by simp
  qed
qed

lemma new_cairn_reader_articles:
  assumes "new_cairn_reader parts = Inr f" and "\<forall>p\<in>set parts. in64 (pt_bytes p)"
    and "map (\<lambda>d. int (length d)) ds = map pt_bytes (sort_key pt_number parts)"
  shows "articles f ds" and "snd f < 2 ^ 63" and "map cs_part (fst f) = sort_key pt_number parts"
  using assms place_parts_layout [of 0 "sort_key pt_number parts" "fst f" "snd f" ds]
  by (auto simp: new_cairn_reader_def articles_def split: if_splits)

section \<open>The cache\<close>

text \<open>The fetcher never passes a wrong article off for a right one, whatever else it answers.\<close>

definition honest :: "article_fetcher \<Rightarrow> cairn_seg list \<Rightarrow> byte list list \<Rightarrow> bool" where
  "honest fetcher segs ds \<longleftrightarrow> (\<forall>i<length segs. \<forall>n d. cairn_fetch fetcher (segs ! i) n = Inr d \<longrightarrow> d = ds ! i)"

definition reliable :: "article_fetcher \<Rightarrow> cairn_seg list \<Rightarrow> bool" where
  "reliable fetcher segs \<longleftrightarrow> (\<forall>i<length segs. \<forall>n. \<exists>d. cairn_fetch fetcher (segs ! i) n = Inr d)"

definition cache_right :: "byte list list \<Rightarrow> cairn_state \<Rightarrow> bool" where
  "cache_right ds r \<longleftrightarrow> (\<forall>i d. cr_cache r i = Some d \<longrightarrow> d = ds ! i)"

lemma new_cache_right [simp]: "cache_right ds new_cairn_state"
  by (simp add: cache_right_def new_cairn_state_def)

lemma evict_oldest_le: "fst (evict_oldest cache ord) i = Some d \<Longrightarrow> cache i = Some d"
  by (induction cache ord rule: evict_oldest.induct) (auto split: if_splits)

lemma evict_oldest_bound: "length (snd (evict_oldest cache ord)) \<le> max_cached_seg"
  by (induction cache ord rule: evict_oldest.induct) (auto simp: max_cached_seg_def fun_upd_def)

lemma cairn_store_right: "cache_right ds r \<Longrightarrow> d = ds ! i \<Longrightarrow> cache_right ds (cairn_store i d r)"
proof -
  assume r: "cache_right ds r" "d = ds ! i"
  obtain cache ord where e: "evict_oldest ((cr_cache r)(i \<mapsto> d)) (cr_order r @ [i]) = (cache, ord)" by fastforce
  have "cache j = Some x \<Longrightarrow> x = ds ! j" for j x
    using evict_oldest_le [of "(cr_cache r)(i \<mapsto> d)" "cr_order r @ [i]" j x, unfolded e] r
    by (cases "j = i") (auto simp: cache_right_def)
  with r e show ?thesis by (simp add: cache_right_def cairn_store_def)
qed

lemma cairn_get_right:
  assumes "honest fetcher segs ds" and "cache_right ds r" and "i < length segs" and "cairn_get fetcher segs i r = (res, r1)"
  shows "cache_right ds r1 \<and> (\<forall>d. res = Inr d \<longrightarrow> d = ds ! i) \<and> res \<noteq> Inl CairnEOF \<and> (reliable fetcher segs \<longrightarrow> (\<exists>d. res = Inr d))"
proof (cases "cr_cache r i")
  case (Some d)
  with assms show ?thesis by (auto simp: cairn_get_def cache_right_def)
next
  case None
  let ?res = "cairn_fetch fetcher (segs ! i) (cr_calls r)" and ?r = "r\<lparr>cr_calls := Suc (cr_calls r)\<rparr>"
  have r: "cache_right ds ?r" using assms(2) by (simp add: cache_right_def)
  have res: "res = ?res" "r1 = (case ?res of Inl _ \<Rightarrow> ?r | Inr d \<Rightarrow> cairn_store i d ?r)"
    using assms(4) None by (auto simp: cairn_get_def Let_def)
  have d: "?res = Inr d \<Longrightarrow> d = ds ! i" for d using assms(1,3) unfolding honest_def by blast
  have "?res \<noteq> Inl CairnEOF" by (auto simp: cairn_fetch_def split: sum.splits)
  moreover have "reliable fetcher segs \<Longrightarrow> \<exists>d. ?res = Inr d" using assms(3) unfolding reliable_def by blast
  ultimately show ?thesis using d r cairn_store_right [OF r] by (auto simp: res split: sum.split)
qed

lemma background_right:
  assumes "honest fetcher segs ds" and "cache_right ds r"
  shows "cache_right ds (background fetcher segs is r)"
  using assms(2) unfolding background_def
proof (induction "is" arbitrary: r)
  case (Cons i "is")
  have "cache_right ds (if i < length segs then snd (cairn_get fetcher segs i r) else r)"
    using cairn_get_right [OF assms(1) Cons.prems, of i] Cons.prems by (cases "cairn_get fetcher segs i r") auto
  with Cons.IH show ?case by simp
qed simp

section \<open>Reads\<close>

text \<open>
  \<open>read_right\<close>: what was read is a prefix of what was asked for, all of it when the read reports no
  error or the end of the file, and the end is reported exactly when the file is too short.
\<close>

definition read_right :: "byte list \<Rightarrow> nat \<Rightarrow> byte list \<Rightarrow> cairn_error option \<Rightarrow> bool" where
  "read_right want len out err \<longleftrightarrow> prefix out want
     \<and> (err = None \<longrightarrow> out = want \<and> length out = len) \<and> (err = Some CairnEOF \<longrightarrow> out = want \<and> length out < len)"

lemma read_right_append:
  "read_right want len out err \<Longrightarrow> read_right (bs @ want) (length bs + len) (bs @ out) err"
  by (auto simp: read_right_def)

lemma cairn_loop_right:
  assumes f: "articles (segs, sz) ds" and h: "honest fetcher segs ds" and c: "cache_right ds r" and i: "i \<le> length segs"
    and len: "length acc \<le> len"
    and pos: "length acc < len \<Longrightarrow> (i < length segs \<longrightarrow> pos ds i \<le> off \<and> off < pos ds (Suc i)) \<and> (i = length segs \<longrightarrow> off = length (concat ds))"
    and l: "cairn_loop fetcher segs sched len (int off) acc i r = ((out, err), r1)"
  shows "cache_right ds r1 \<and> (\<exists>w. out = acc @ w \<and> read_right (take (len - length acc) (drop off (concat ds))) (len - length acc) w err)
    \<and> (reliable fetcher segs \<longrightarrow> err = None \<or> err = Some CairnEOF)"
  using assms(3-7)
proof (induction "length segs - i" arbitrary: off acc i r)
  case 0
  then have "i = length segs" by simp
  with 0 show ?case
    by (subst (asm) cairn_loop.simps) (auto simp: read_right_def split: if_splits)
next
  case (Suc n)
  then have i: "i < length segs" by simp
  have ld: "length ds = length segs" using f by (simp add: articles_def)
  show ?case
  proof (cases "length acc < len")
    case False
    with Suc.prems show ?thesis by (subst (asm) cairn_loop.simps) (auto simp: read_right_def)
  next
    case True
    obtain res r2 where g: "cairn_get fetcher segs i (background fetcher segs (sched i) r) = (res, r2)" by fastforce
    note gr = cairn_get_right [OF h background_right [OF h Suc.prems(1)] i g]
    show ?thesis
    proof (cases res)
      case (Inl e)
      have "out = acc" "err = Some e" "r1 = r2"
        using Suc.prems(5) True i g Inl by (subst (asm) cairn_loop.simps, simp)+
      with gr Inl show ?thesis by (auto simp: read_right_def)
    next
      case (Inr d)
      then have d: "d = ds ! i" using gr by blast
      from Suc.prems(4) [OF True] i have p: "pos ds i \<le> off" "off < pos ds i + length d" using pos_Suc [of i ds] ld d by auto
      define k where "k = off - pos ds i"
      define bs where "bs = take (len - length acc) (drop k d)"
      have st: "nat (int off - cs_start (segs ! i)) = k" using f i p by (simp add: articles_def k_def)
      have lp: "cairn_loop fetcher segs sched len (int (off + length bs)) (acc @ bs) (Suc i) r2 = ((out, err), r1)"
        using Suc.prems(5) True i g Inr st by (subst (asm) cairn_loop.simps) (simp add: bs_def Let_def)
      have dr: "drop off (concat ds) = drop k d @ concat (drop (Suc i) ds)"
        using drop_pos [of i ds k] p i ld by (simp add: k_def d)
      have nx: "length (acc @ bs) < len \<Longrightarrow> off + length bs = pos ds (Suc i)"
        using p i ld pos_Suc [of i ds] d by (auto simp: bs_def k_def)
      have dr2: "take (len - length acc) (drop off (concat ds)) = bs @ take (len - length (acc @ bs)) (drop (off + length bs) (concat ds))"
      proof -
        have "drop (off + length bs) (concat ds) = drop (length bs) (drop off (concat ds))" by (simp add: add.commute)
        then show ?thesis unfolding dr bs_def by (auto simp: min_def)
      qed
      have "cache_right ds r1 \<and> (\<exists>w. out = (acc @ bs) @ w \<and> read_right (take (len - length (acc @ bs)) (drop (off + length bs) (concat ds))) (len - length (acc @ bs)) w err)
        \<and> (reliable fetcher segs \<longrightarrow> err = None \<or> err = Some CairnEOF)"
      proof (rule Suc.hyps(1))
        show "n = length segs - Suc i" using Suc.hyps(2) by simp
        show "cache_right ds r2" using gr by blast
        show "Suc i \<le> length segs" using i by simp
        show "length (acc @ bs) \<le> len" using True by (simp add: bs_def)
        show "cairn_loop fetcher segs sched len (int (off + length bs)) (acc @ bs) (Suc i) r2 = ((out, err), r1)" by (rule lp)
        assume a: "length (acc @ bs) < len"
        have "length (ds ! j) > 0" if "j < length ds" for j using f that by (simp add: articles_def)
        then show "(Suc i < length segs \<longrightarrow> pos ds (Suc i) \<le> off + length bs \<and> off + length bs < pos ds (Suc (Suc i)))
          \<and> (Suc i = length segs \<longrightarrow> off + length bs = length (concat ds))"
          using nx [OF a] pos_Suc [of "Suc i" ds] pos_all [of ds "Suc i"] ld by auto
      qed
      then obtain w where w: "cache_right ds r1" "out = acc @ bs @ w"
        "read_right (take (len - length (acc @ bs)) (drop (off + length bs) (concat ds))) (len - length (acc @ bs)) w err"
        "reliable fetcher segs \<longrightarrow> err = None \<or> err = Some CairnEOF" by auto
      have "length bs + (len - length (acc @ bs)) = len - length acc" using True by (simp add: bs_def)
      with read_right_append [OF w(3), of bs] w show ?thesis unfolding dr2 by auto
    qed
  qed
qed

lemma first_seg_bounds:
  assumes f: "articles (segs, sz) ds" and off: "off < length (concat ds)"
  shows "first_seg segs (int off) < length segs \<and> pos ds (first_seg segs (int off)) \<le> off \<and> off < pos ds (Suc (first_seg segs (int off)))"
proof -
  let ?i = "first_seg segs (int off)" and ?p = "\<lambda>s. cs_end s \<le> int off"
  have ld: "length ds = length segs" using f by (simp add: articles_def)
  have ends: "j < length segs \<Longrightarrow> cs_end (segs ! j) = int (pos ds (Suc j))" for j using f by (simp add: articles_def)
  have before: "j < ?i \<Longrightarrow> pos ds (Suc j) \<le> off" for j
  proof -
    assume j: "j < ?i"
    then have "?p (segs ! j)" unfolding first_seg_def by (metis nth_mem set_takeWhileD takeWhile_nth)
    moreover have "j < length segs" using j length_takeWhile_le [of ?p segs] unfolding first_seg_def by linarith
    ultimately show ?thesis using ends by simp
  qed
  have lt: "?i < length segs"
  proof (rule ccontr)
    assume "\<not> ?i < length segs"
    then have i: "?i = length segs" using length_takeWhile_le [of ?p segs] unfolding first_seg_def by linarith
    have "length segs \<noteq> 0" using off ld by auto
    with before [of "length segs - 1"] i ld off show False by (simp add: pos_all)
  qed
  then have "\<not> ?p (segs ! ?i)" unfolding first_seg_def by (rule nth_length_takeWhile)
  moreover have "pos ds ?i \<le> off"
  proof (cases ?i)
    case 0
    then show ?thesis by (simp add: pos_def)
  next
    case (Suc k)
    with before [of k] show ?thesis by simp
  qed
  ultimately show ?thesis using lt ends by auto
qed

lemma cairn_read_at_right:
  assumes f: "articles f ds" and h: "honest fetcher (fst f) ds" and c: "cache_right ds r"
    and l: "cairn_read_at fetcher f sched len (int off) r = ((out, err), r1)"
  shows "cache_right ds r1 \<and> read_right (take len (drop off (concat ds))) len out err
    \<and> (reliable fetcher (fst f) \<longrightarrow> err = None \<or> err = Some CairnEOF)"
proof -
  obtain segs sz where fs: "f = (segs, sz)" by (cases f)
  have sz: "sz = int (length (concat ds))" using f by (simp add: articles_def fs)
  show ?thesis
  proof (cases "len = 0 \<or> length (concat ds) \<le> off")
    case True
    with l c sz show ?thesis by (auto simp: cairn_read_at_def fs read_right_def split: if_splits)
  next
    case False
    note fb = first_seg_bounds [OF f [unfolded fs], of off]
    have lp: "cairn_loop fetcher segs sched len (int off) [] (first_seg segs (int off)) r = ((out, err), r1)"
      using l False sz by (simp add: cairn_read_at_def fs)
    from cairn_loop_right [OF f [unfolded fs] _ c _ _ _ lp] h fb False show ?thesis by (simp add: fs)
  qed
qed

section \<open>Properties\<close>

text \<open>
  C14: any sequence of reads of an archived file, at any offsets, with any segments fetched in the
  background at any point and any calls of the fetcher failing, returns right bytes: each read gives a
  prefix of the part of the file it asked for, the whole of it when it reports no error, and end of
  file exactly when the file ends before. If no fetch fails, no other error is ever reported.
\<close>

theorem cairn_reads_right:
  assumes "new_cairn_reader parts = Inr f" and "\<forall>p\<in>set parts. in64 (pt_bytes p)"
    and "map (\<lambda>d. int (length d)) ds = map pt_bytes (sort_key pt_number parts)"
    and "honest fetcher (fst f) ds"
  shows "list_all2 (\<lambda>(len, off, sched) (out, err). read_right (take len (drop off (concat ds))) len out err
      \<and> (reliable fetcher (fst f) \<longrightarrow> err = None \<or> err = Some CairnEOF))
    qs (cairn_session fetcher f (map (\<lambda>(len, off, sched). (len, int off, sched)) qs) new_cairn_state)"
proof -
  note a = new_cairn_reader_articles [OF assms(1-3)]
  have "list_all2 (\<lambda>(len, off, sched) (out, err). read_right (take len (drop off (concat ds))) len out err
      \<and> (reliable fetcher (fst f) \<longrightarrow> err = None \<or> err = Some CairnEOF))
    qs (cairn_session fetcher f (map (\<lambda>(len, off, sched). (len, int off, sched)) qs) r)" if "cache_right ds r" for r
    using that
  proof (induction qs arbitrary: r)
    case (Cons q qs)
    obtain len off sched where q: "q = (len, off, sched)" by (cases q)
    obtain out err r1 where ra: "cairn_read_at fetcher f sched len (int off) r = ((out, err), r1)" by (metis prod.exhaust)
    from cairn_read_at_right [OF a(1) assms(4) Cons.prems ra] Cons.IH [of r1] show ?case by (simp add: q ra)
  qed simp
  then show ?thesis by simp
qed

section \<open>The encrypted source meets the contract\<close>

lemma section_read_complete:
  assumes f: "articles f ds" and h: "honest fetcher (fst f) ds" and rel: "reliable fetcher (fst f)" and buf: "0 < buf"
  shows "cache_right ds r \<Longrightarrow> left \<le> fuel \<Longrightarrow> off + left \<le> length (concat ds) \<Longrightarrow>
    section_read fuel fetcher f sched buf (int off) left r = (take left (drop off (concat ds)), None)"
proof (induction fuel arbitrary: off left r)
  case (Suc fuel)
  show ?case
  proof (cases "left = 0")
    case False
    let ?n = "min buf left"
    obtain out err r1 where ra: "cairn_read_at fetcher f (sched fuel) ?n (int off) r = ((out, err), r1)" by (metis prod.exhaust)
    note rr = cairn_read_at_right [OF f h Suc.prems(1) ra]
    have w: "length (take ?n (drop off (concat ds))) = ?n" using Suc.prems(3) by simp
    have e: "err = None" using rr rel w by (auto simp: read_right_def)
    with rr w have out: "out = take ?n (drop off (concat ds))" "length out = ?n" by (auto simp: read_right_def)
    have IH: "section_read fuel fetcher f sched buf (int (off + ?n)) (left - ?n) r1 = (take (left - ?n) (drop (off + ?n) (concat ds)), None)"
    proof (rule Suc.IH)
      show "cache_right ds r1" using rr by blast
      show "left - ?n \<le> fuel" using Suc.prems(2) False buf by linarith
      show "off + ?n + (left - ?n) \<le> length (concat ds)" using Suc.prems(3) by simp
    qed
    have cat: "out @ take (left - ?n) (drop (off + ?n) (concat ds)) = take left (drop off (concat ds))"
      using take_add [of ?n "left - ?n" "drop off (concat ds)"] by (simp add: out(1) add.commute)
    show ?thesis using False e IH cat by (simp add: ra out(2))
  qed simp
qed simp

definition cairn_stored :: "article_fetcher \<Rightarrow> nat \<Rightarrow> cairn_state \<Rightarrow> cairn_seg list \<times> int \<Rightarrow> byte list \<Rightarrow> bool" where
  "cairn_stored fetcher buf r f c \<longleftrightarrow> (\<exists>ds. articles f ds \<and> honest fetcher (fst f) ds \<and> reliable fetcher (fst f)
     \<and> cache_right ds r \<and> 0 < buf \<and> c = concat ds)"

interpretation cairn: ranged_source cairn_head "cairn_source_get fetcher sched buf r" "cairn_stored fetcher buf r"
  for fetcher sched buf r
proof
  fix f c
  assume "cairn_stored fetcher buf r f c"
  then obtain ds where ds: "articles f ds" "honest fetcher (fst f) ds" "reliable fetcher (fst f)" "cache_right ds r" "0 < buf"
    and c: "c = concat ds" by (auto simp: cairn_stored_def)
  have sz: "snd f = int (length c)" using ds(1) c by (simp add: articles_def)
  note sec = section_read_complete [OF ds(1-3,5,4) order_refl, where sched = sched]
  show "\<exists>h. cairn_head f = Inr h \<and> ob_size h = int (length c)" by (simp add: cairn_head_def sz)
  show "\<exists>ob. cairn_source_get fetcher sched buf r f [] = Inr ob \<and> ob_body ob = c"
    using sec [of 0 "length c"] c by (simp add: cairn_source_get_def sz Let_def)
  fix a b :: int
  assume ab: "0 \<le> a" "a \<le> b" "b < int (length c)" "int (length c) < 2 ^ 63"
  have "int (nat a + nat (b - a + 1)) = b + 1" using ab by simp
  then have "int (nat a + nat (b - a + 1)) \<le> int (length (concat ds))" using ab(3) c by simp
  then have "nat a + nat (b - a + 1) \<le> length (concat ds)" by (simp only: of_nat_le_iff)
  from sec [OF this] show "\<exists>ob. cairn_source_get fetcher sched buf r f (range_header a b) = Inr ob
      \<and> ob_body ob = take (nat (b - a + 1)) (drop (nat a) c)"
    using ab c by (simp add: cairn_source_get_def sz parse_range_header Let_def)
qed

text \<open>An encrypted release whose articles are all available is served range by range like a stored file.\<close>

lemma cairn_encrypted_ranges_exact:
  assumes "dare_stream lib s" and "dare lib (st_key s) p (concat ds)" and "meth \<noteq> ''HEAD''"
    and "articles f ds" and "honest fetcher (fst f) ds" and "reliable fetcher (fst f)" and "0 < buf"
  shows "serve_encrypted lib s (cairn_head f) (cairn_source_get fetcher sched buf new_cairn_state f) meth rng =
    (case parse_range rng (int (length p)) of
       None \<Rightarrow> if rng = [] then \<lparr>rp_status = 200, rp_ctype = [], rp_length = Some (int (length p)), rp_range = [], rp_body = p\<rparr>
         else error_reply 416 ''range not satisfiable''
     | Some (a, b) \<Rightarrow> if p = [] then error_reply 416 ''range not satisfiable''
         else \<lparr>rp_status = 206, rp_ctype = [], rp_length = Some (b - a + 1),
           rp_range = content_range a b (int (length p)), rp_body = take (nat (b - a + 1)) (drop (nat a) p)\<rparr>)"
proof -
  have "cairn_stored fetcher buf new_cairn_state f (concat ds)"
    using assms(4-7) new_cache_right by (auto simp: cairn_stored_def)
  from cairn.encrypted_served [where sched = sched and rng = rng, OF assms(1,2) this assms(3)]
  obtain h where h: "cairn_head f = Inr h" and "serve_encrypted lib s (cairn_head f) (cairn_source_get fetcher sched buf new_cairn_state f) meth rng =
    (case parse_range rng (int (length p)) of
       None \<Rightarrow> if rng = [] then \<lparr>rp_status = 200, rp_ctype = ob_ctype h, rp_length = Some (int (length p)), rp_range = [], rp_body = p\<rparr>
         else error_reply 416 ''range not satisfiable''
     | Some (a, b) \<Rightarrow> if p = [] then error_reply 416 ''range not satisfiable''
         else \<lparr>rp_status = 206, rp_ctype = ob_ctype h, rp_length = Some (b - a + 1),
           rp_range = content_range a b (int (length p)), rp_body = take (nat (b - a + 1)) (drop (nat a) p)\<rparr>)"
    by (elim exE conjE) (rule that; assumption)
  moreover have "ob_ctype h = []" using h by (auto simp: cairn_head_def)
  ultimately show ?thesis by (simp only:)
qed

text \<open>Two articles, posted out of order; every other call of the fetcher fails.\<close>

definition two_parts :: "nzb_part list" where
  "two_parts = [\<lparr>pt_number = 2, pt_bytes = 1, pt_id = ''b''\<rparr>, \<lparr>pt_number = 1, pt_bytes = 2, pt_id = ''a''\<rparr>]"

definition flaky :: article_fetcher where
  "flaky n i = (if n mod 2 = 1 then Inl ''timeout''
     else Inr (article sample_escapes ''line=128 size=3 name=x'' None [if i = ''a'' then [97, 98] else [99]] ''size=3''))"

definition two_placed :: "cairn_seg list \<times> int" where
  "two_placed = ([\<lparr>cs_part = \<lparr>pt_number = 1, pt_bytes = 2, pt_id = ''a''\<rparr>, cs_start = 0, cs_end = 2\<rparr>,
     \<lparr>cs_part = \<lparr>pt_number = 2, pt_bytes = 1, pt_id = ''b''\<rparr>, cs_start = 2, cs_end = 3\<rparr>], 3)"

lemma flaky_decodes:
  "map_sum id y_data (decode (article sample_escapes ''line=128 size=3 name=x'' None [[97, 98]] ''size=3'')) = (Inr [97, 98] :: yenc_error + byte list)"
  "map_sum id y_data (decode (article sample_escapes ''line=128 size=3 name=x'' None [[99]] ''size=3'')) = (Inr [99] :: yenc_error + byte list)"
  by code_simp+

lemma flaky_honest: "honest flaky (fst two_placed) [[97, 98], [99]]"
proof -
  have "d = ([[97, 98], [99]] :: byte list list) ! i" if "i < 2" "cairn_fetch flaky (fst two_placed ! i) n = Inr d" for i n d
    using that flaky_decodes
    by (auto simp: cairn_fetch_def flaky_def two_placed_def less_2_cases_iff split: if_splits sum.splits)
  then show ?thesis by (simp add: honest_def two_placed_def)
qed

theorem cairn_reads_right_witness:
  "new_cairn_reader two_parts = Inr two_placed
   \<and> (\<exists>out err. cairn_session flaky two_placed [(5, 1, \<lambda>_. [1, 0])] new_cairn_state = [(out, err)] \<and> read_right [98, 99] 5 out err)"
proof -
  have s: "sort_key pt_number two_parts = map cs_part (fst two_placed)" by (simp add: two_parts_def two_placed_def)
  have n: "new_cairn_reader two_parts = Inr two_placed"
    unfolding new_cairn_reader_def s by (simp add: two_parts_def two_placed_def in64_def)
  have b: "\<forall>p\<in>set two_parts. in64 (pt_bytes p)" by (simp add: two_parts_def in64_def)
  have l: "map (\<lambda>d. int (length d)) [[97, 98], [99 :: byte]] = map pt_bytes (sort_key pt_number two_parts)"
    unfolding s by (simp add: two_placed_def)
  from cairn_reads_right [OF n b l flaky_honest, of "[(5, 1, \<lambda>_. [1, 0])]"] n show ?thesis
    by (auto simp: list_all2_Cons1)
qed

end
