(* ===== verification/Keyed_Lock.thy ===== *)
theory Keyed_Lock
  imports Prelude
begin

text \<open>
  The per-key lock of \<open>shared/keyed/locker.go\<close>. A key's mutex is created on first use, shared by
  everyone who asks while it is in use, and dropped by the last one out, so two mutexes can stand for
  one key at different times. The model keeps the mutexes in a heap, as the code's pointers do, and
  runs any number of goroutines, each in one of the sections of \<open>Lock\<close> and of the function it
  returns; the sections under \<open>l.mu\<close> are atomic steps.
\<close>

section \<open>State\<close>

record lref =
  mu_locked :: bool
  lrefs :: nat

text \<open>Where a goroutine is: outside, registered and waiting, holding, or unlocked but not yet deregistered.\<close>

datatype pc = Idle | Waiting string nat | Holding string nat | Unlocked string nat

record locker =
  locks :: "string \<Rightarrow> nat option"
  lheap :: "nat \<Rightarrow> lref"
  next_ref :: nat
  pcs :: "nat \<Rightarrow> pc"

definition new_locker :: locker where
  "new_locker = \<lparr>locks = Map.empty, lheap = (\<lambda>_. \<lparr>mu_locked = False, lrefs = 0\<rparr>), next_ref = 0, pcs = (\<lambda>_. Idle)\<rparr>"

section \<open>Sections of the code\<close>

definition lock_enter :: "nat \<Rightarrow> string \<Rightarrow> locker \<Rightarrow> locker" where
  "lock_enter c k s =
     (case locks s k of
        Some r \<Rightarrow> s\<lparr>lheap := (lheap s)(r := (lheap s r)\<lparr>lrefs := Suc (lrefs (lheap s r))\<rparr>),
                    pcs := (pcs s)(c := Waiting k r)\<rparr>
      | None \<Rightarrow> let r = next_ref s in
          s\<lparr>locks := (locks s)(k \<mapsto> r), lheap := (lheap s)(r := \<lparr>mu_locked = False, lrefs = 1\<rparr>),
            next_ref := Suc r, pcs := (pcs s)(c := Waiting k r)\<rparr>)"

definition mutex_lock :: "nat \<Rightarrow> string \<Rightarrow> nat \<Rightarrow> locker \<Rightarrow> locker" where
  "mutex_lock c k r s = s\<lparr>lheap := (lheap s)(r := (lheap s r)\<lparr>mu_locked := True\<rparr>), pcs := (pcs s)(c := Holding k r)\<rparr>"

definition mutex_unlock :: "nat \<Rightarrow> string \<Rightarrow> nat \<Rightarrow> locker \<Rightarrow> locker" where
  "mutex_unlock c k r s = s\<lparr>lheap := (lheap s)(r := (lheap s r)\<lparr>mu_locked := False\<rparr>), pcs := (pcs s)(c := Unlocked k r)\<rparr>"

definition lock_leave :: "nat \<Rightarrow> string \<Rightarrow> nat \<Rightarrow> locker \<Rightarrow> locker" where
  "lock_leave c k r s =
     (let n = lrefs (lheap s r) - 1 in
      s\<lparr>lheap := (lheap s)(r := (lheap s r)\<lparr>lrefs := n\<rparr>),
        locks := (if n = 0 then (locks s)(k := None) else locks s), pcs := (pcs s)(c := Idle)\<rparr>)"

inductive lock_step :: "locker \<Rightarrow> locker \<Rightarrow> bool" where
  enter: "pcs s c = Idle \<Longrightarrow> lock_step s (lock_enter c k s)"
| lock: "pcs s c = Waiting k r \<Longrightarrow> \<not> mu_locked (lheap s r) \<Longrightarrow> lock_step s (mutex_lock c k r s)"
| unlock: "pcs s c = Holding k r \<Longrightarrow> lock_step s (mutex_unlock c k r s)"
| leave: "pcs s c = Unlocked k r \<Longrightarrow> lock_step s (lock_leave c k r s)"

inductive_cases lock_stepE: "lock_step s t"

section \<open>Invariant\<close>

text \<open>The key and mutex a goroutine works with.\<close>

fun using_ref :: "pc \<Rightarrow> (string \<times> nat) option" where
  "using_ref Idle = None"
| "using_ref (Waiting k r) = Some (k, r)"
| "using_ref (Holding k r) = Some (k, r)"
| "using_ref (Unlocked k r) = Some (k, r)"

definition lock_users :: "locker \<Rightarrow> string \<Rightarrow> nat \<Rightarrow> nat set" where
  "lock_users s k r = {c. using_ref (pcs s c) = Some (k, r)}"

definition locker_ok :: "locker \<Rightarrow> bool" where
  "locker_ok s \<longleftrightarrow> finite {c. pcs s c \<noteq> Idle}
     \<and> (\<forall>c k r. using_ref (pcs s c) = Some (k, r) \<longrightarrow> locks s k = Some r)
     \<and> (\<forall>k r. locks s k = Some r \<longrightarrow> r < next_ref s \<and> 0 < lrefs (lheap s r)
          \<and> lrefs (lheap s r) = card (lock_users s k r) \<and> (\<forall>k'. locks s k' = Some r \<longrightarrow> k' = k)
          \<and> (mu_locked (lheap s r) \<longleftrightarrow> (\<exists>c. pcs s c = Holding k r)))
     \<and> (\<forall>c c' k r. pcs s c = Holding k r \<longrightarrow> pcs s c' = Holding k r \<longrightarrow> c' = c)"

lemma locker_okD:
  assumes "locker_ok s"
  shows "using_ref (pcs s c) = Some (k, r) \<Longrightarrow> locks s k = Some r"
    and "locks s k = Some r \<Longrightarrow> r < next_ref s" and "locks s k = Some r \<Longrightarrow> 0 < lrefs (lheap s r)"
    and "locks s k = Some r \<Longrightarrow> lrefs (lheap s r) = card (lock_users s k r)"
    and "locks s k = Some r \<Longrightarrow> locks s k' = Some r \<Longrightarrow> k' = k"
    and "locks s k = Some r \<Longrightarrow> mu_locked (lheap s r) \<longleftrightarrow> (\<exists>c. pcs s c = Holding k r)"
    and "pcs s c = Holding k r \<Longrightarrow> pcs s c' = Holding k r \<Longrightarrow> c' = c"
  using assms unfolding locker_ok_def by blast+

lemma finite_lock_users: "locker_ok s \<Longrightarrow> finite (lock_users s k r)"
  by (rule finite_subset [of _ "{c. pcs s c \<noteq> Idle}"]) (auto simp: lock_users_def locker_ok_def)

lemma lock_users_upd:
  assumes "pcs t = (pcs s)(c := p)"
  shows "lock_users t k r = (if using_ref p = Some (k, r) then insert c (lock_users s k r) else lock_users s k r - {c})"
  using assms by (auto simp: lock_users_def)

lemma finite_busy_upd: "finite {c. pcs s c \<noteq> Idle} \<Longrightarrow> pcs t = (pcs s)(c := p) \<Longrightarrow> finite {c. pcs t c \<noteq> Idle}"
  by (rule finite_subset [of _ "insert c {c. pcs s c \<noteq> Idle}"]) auto

lemma locker_okI:
  assumes "finite {c. pcs s c \<noteq> Idle}"
    and "\<And>c k r. using_ref (pcs s c) = Some (k, r) \<Longrightarrow> locks s k = Some r"
    and "\<And>k r. locks s k = Some r \<Longrightarrow> r < next_ref s"
    and "\<And>k r. locks s k = Some r \<Longrightarrow> 0 < lrefs (lheap s r)"
    and "\<And>k r. locks s k = Some r \<Longrightarrow> lrefs (lheap s r) = card (lock_users s k r)"
    and "\<And>k r k'. locks s k = Some r \<Longrightarrow> locks s k' = Some r \<Longrightarrow> k' = k"
    and "\<And>k r. locks s k = Some r \<Longrightarrow> mu_locked (lheap s r) \<longleftrightarrow> (\<exists>c. pcs s c = Holding k r)"
    and "\<And>c c' k r. pcs s c = Holding k r \<Longrightarrow> pcs s c' = Holding k r \<Longrightarrow> c' = c"
  shows "locker_ok s"
  unfolding locker_ok_def using assms by blast

lemma holding_uses: "pcs s c = Holding k r \<Longrightarrow> using_ref (pcs s c) = Some (k, r)"
  by simp

lemma enter_ok:
  assumes ok: "locker_ok s" and c: "pcs s c = Idle"
  shows "locker_ok (lock_enter c k s)" (is "locker_ok ?t")
proof -
  note D = locker_okD [OF ok]
  have fin: "finite {c. pcs s c \<noteq> Idle}" using ok by (simp add: locker_ok_def)
  have nc: "c \<notin> lock_users s k' r'" for k' r' using c by (simp add: lock_users_def)
  show ?thesis
  proof (cases "locks s k")
    case (Some r)
    have t: "?t = s\<lparr>lheap := (lheap s)(r := (lheap s r)\<lparr>lrefs := Suc (lrefs (lheap s r))\<rparr>), pcs := (pcs s)(c := Waiting k r)\<rparr>"
      by (simp add: lock_enter_def Some)
    have hold: "pcs ?t c' = Holding k' r' \<longleftrightarrow> pcs s c' = Holding k' r'" for c' k' r' using c by (simp add: t)
    have u: "lock_users ?t k' r' = (if (k', r') = (k, r) then insert c (lock_users s k r) else lock_users s k' r')" for k' r'
      using lock_users_upd [of ?t s c "Waiting k r" k' r'] nc [of k' r'] by (auto simp: t)
    show ?thesis
    proof (rule locker_okI)
      show "finite {c. pcs ?t c \<noteq> Idle}" by (rule finite_busy_upd [OF fin]) (simp add: t)
      show "locks ?t k' = Some r'" if "using_ref (pcs ?t c') = Some (k', r')" for c' k' r'
        using that D(1) Some by (auto simp: t split: if_splits)
      show "lrefs (lheap ?t r') = card (lock_users ?t k' r')" if "locks ?t k' = Some r'" for k' r'
        using that D(4) [of k' r'] D(5) [of k r k'] Some nc finite_lock_users [OF ok] unfolding u by (auto simp: t)
      show "mu_locked (lheap ?t r') \<longleftrightarrow> (\<exists>c. pcs ?t c = Holding k' r')" if "locks ?t k' = Some r'" for k' r'
        using that D(6) [of k' r'] unfolding hold by (cases "r' = r") (simp_all add: t)
      show "c1 = c0" if "pcs ?t c0 = Holding k' r'" "pcs ?t c1 = Holding k' r'" for c0 c1 k' r'
        using that D(7) by (auto simp: t split: if_splits)
    qed (use D Some in \<open>auto simp: t\<close>)
  next
    case None
    let ?r = "next_ref s"
    have t: "?t = s\<lparr>locks := (locks s)(k \<mapsto> ?r), lheap := (lheap s)(?r := \<lparr>mu_locked = False, lrefs = 1\<rparr>),
        next_ref := Suc ?r, pcs := (pcs s)(c := Waiting k ?r)\<rparr>"
      by (simp add: lock_enter_def None Let_def)
    have hold: "pcs ?t c' = Holding k' r' \<longleftrightarrow> pcs s c' = Holding k' r'" for c' k' r' using c by (simp add: t)
    have idle: "pcs s c' \<noteq> Holding k r'" for c' r' using D(1) [OF holding_uses, of c' k r'] None by auto
    have fresh: "locks s k' \<noteq> Some ?r" for k' using D(2) by blast
    have nu: "lock_users s k' ?r = {}" for k' using D(1) fresh by (auto simp: lock_users_def)
    have u: "lock_users ?t k' r' = (if (k', r') = (k, ?r) then {c} else lock_users s k' r')" for k' r'
      using lock_users_upd [of ?t s c "Waiting k ?r" k' r'] nc [of k' r'] nu [of k] by (auto simp: t)
    show ?thesis
    proof (rule locker_okI)
      show "finite {c. pcs ?t c \<noteq> Idle}" by (rule finite_busy_upd [OF fin]) (simp add: t)
      show "locks ?t k' = Some r'" if "using_ref (pcs ?t c') = Some (k', r')" for c' k' r'
        using that D(1) [of c' k' r'] None by (auto simp: t split: if_splits)
      show "lrefs (lheap ?t r') = card (lock_users ?t k' r')" if "locks ?t k' = Some r'" for k' r'
        using that D(4) [of k' r'] fresh [of k'] unfolding u by (auto simp: t split: if_splits)
      show "mu_locked (lheap ?t r') \<longleftrightarrow> (\<exists>c. pcs ?t c = Holding k' r')" if "locks ?t k' = Some r'" for k' r'
        using that D(6) [of k' r'] fresh [of k'] idle unfolding hold by (auto simp: t split: if_splits)
      show "c1 = c0" if "pcs ?t c0 = Holding k' r'" "pcs ?t c1 = Holding k' r'" for c0 c1 k' r'
        using that D(7) by (auto simp: t split: if_splits)
      show "r' < next_ref ?t" if "locks ?t k' = Some r'" for k' r'
        using that D(2) by (auto simp: t less_Suc_eq split: if_splits)
    qed (use D fresh in \<open>auto simp: t split: if_splits\<close>)
  qed
qed

lemma lock_ok:
  assumes ok: "locker_ok s" and c: "pcs s c = Waiting k r" and free: "\<not> mu_locked (lheap s r)"
  shows "locker_ok (mutex_lock c k r s)" (is "locker_ok ?t")
proof -
  note D = locker_okD [OF ok]
  have fin: "finite {c. pcs s c \<noteq> Idle}" using ok by (simp add: locker_ok_def)
  have k: "locks s k = Some r" by (rule D(1) [of c]) (simp add: c)
  have none: "pcs s c' \<noteq> Holding k r" for c' using D(6) [OF k] free by blast
  have u: "lock_users ?t k' r' = lock_users s k' r'" for k' r'
    using c by (auto simp: lock_users_def mutex_lock_def)
  have hold: "pcs ?t c' = Holding k' r' \<longleftrightarrow> (c' = c \<and> k' = k \<and> r' = r) \<or> pcs s c' = Holding k' r'" for c' k' r'
    using c by (auto simp: mutex_lock_def)
  show ?thesis
  proof (rule locker_okI)
    show "finite {c. pcs ?t c \<noteq> Idle}" by (rule finite_busy_upd [OF fin]) (simp add: mutex_lock_def)
    show "locks ?t k' = Some r'" if "using_ref (pcs ?t c') = Some (k', r')" for c' k' r'
      using that D(1) k by (auto simp: mutex_lock_def split: if_splits)
    show "lrefs (lheap ?t r') = card (lock_users ?t k' r')" if "locks ?t k' = Some r'" for k' r'
      using that D(4) [of k' r'] unfolding u by (auto simp: mutex_lock_def)
    show "mu_locked (lheap ?t r') \<longleftrightarrow> (\<exists>c. pcs ?t c = Holding k' r')" if "locks ?t k' = Some r'" for k' r'
      using that D(6) [of k' r'] D(5) [OF k, of k'] unfolding hold by (auto simp: mutex_lock_def)
    show "c1 = c0" if "pcs ?t c0 = Holding k' r'" "pcs ?t c1 = Holding k' r'" for c0 c1 k' r'
      using that D(7) none by (auto simp: mutex_lock_def split: if_splits)
  qed (use D in \<open>auto simp: mutex_lock_def\<close>)
qed

lemma unlock_ok:
  assumes ok: "locker_ok s" and c: "pcs s c = Holding k r"
  shows "locker_ok (mutex_unlock c k r s)" (is "locker_ok ?t")
proof -
  note D = locker_okD [OF ok]
  have fin: "finite {c. pcs s c \<noteq> Idle}" using ok by (simp add: locker_ok_def)
  have k: "locks s k = Some r" by (rule D(1) [of c]) (simp add: c)
  have u: "lock_users ?t k' r' = lock_users s k' r'" for k' r'
    using c by (auto simp: lock_users_def mutex_unlock_def)
  have hold: "pcs ?t c' = Holding k' r' \<longleftrightarrow> c' \<noteq> c \<and> pcs s c' = Holding k' r'" for c' k' r'
    by (simp add: mutex_unlock_def)
  show ?thesis
  proof (rule locker_okI)
    show "finite {c. pcs ?t c \<noteq> Idle}" by (rule finite_busy_upd [OF fin]) (simp add: mutex_unlock_def)
    show "locks ?t k' = Some r'" if "using_ref (pcs ?t c') = Some (k', r')" for c' k' r'
      using that D(1) k by (auto simp: mutex_unlock_def split: if_splits)
    show "lrefs (lheap ?t r') = card (lock_users ?t k' r')" if "locks ?t k' = Some r'" for k' r'
      using that D(4) [of k' r'] unfolding u by (auto simp: mutex_unlock_def)
    show "mu_locked (lheap ?t r') \<longleftrightarrow> (\<exists>c. pcs ?t c = Holding k' r')" if "locks ?t k' = Some r'" for k' r'
    proof (cases "r' = r")
      case True
      then have "k' = k" using that D(5) [OF k, of k'] by (simp add: mutex_unlock_def)
      with True D(7) [OF c] show ?thesis unfolding hold by (auto simp: mutex_unlock_def)
    next
      case False
      then have "pcs s c' = Holding k' r' \<Longrightarrow> c' \<noteq> c" for c' using c by auto
      with that D(6) [of k' r'] False show ?thesis unfolding hold by (auto simp: mutex_unlock_def)
    qed
    show "c1 = c0" if "pcs ?t c0 = Holding k' r'" "pcs ?t c1 = Holding k' r'" for c0 c1 k' r'
      using that D(7) by (auto simp: mutex_unlock_def split: if_splits)
  qed (use D in \<open>auto simp: mutex_unlock_def\<close>)
qed

lemma leave_ok:
  assumes ok: "locker_ok s" and c: "pcs s c = Unlocked k r"
  shows "locker_ok (lock_leave c k r s)" (is "locker_ok ?t")
proof -
  note D = locker_okD [OF ok]
  have fin: "finite {c. pcs s c \<noteq> Idle}" using ok by (simp add: locker_ok_def)
  have k: "locks s k = Some r" by (rule D(1) [of c]) (simp add: c)
  have u: "lock_users ?t k' r' = (if (k', r') = (k, r) then lock_users s k r - {c} else lock_users s k' r')" for k' r'
    using c by (auto simp: lock_users_def lock_leave_def Let_def)
  have hold: "pcs ?t c' = Holding k' r' \<longleftrightarrow> pcs s c' = Holding k' r'" for c' k' r'
    using c by (simp add: lock_leave_def Let_def)
  have mem: "c \<in> lock_users s k r" using c by (simp add: lock_users_def)
  then have n: "card (lock_users s k r - {c}) = lrefs (lheap s r) - 1"
    using D(4) [OF k] finite_lock_users [OF ok] by simp
  have alone: "c' = c" if "lrefs (lheap s r) - 1 = 0" "using_ref (pcs s c') = Some (k, r)" for c'
  proof -
    have "lock_users s k r - {c} = {}" using that(1) n finite_lock_users [OF ok, of k r] by (simp add: card_eq_0_iff)
    moreover have "c' \<in> lock_users s k r" using that(2) by (simp add: lock_users_def)
    ultimately show ?thesis by blast
  qed
  show ?thesis
  proof (rule locker_okI)
    show "finite {c. pcs ?t c \<noteq> Idle}" by (rule finite_busy_upd [OF fin]) (simp add: lock_leave_def Let_def)
    show "locks ?t k' = Some r'" if "using_ref (pcs ?t c') = Some (k', r')" for c' k' r'
    proof -
      have c': "c' \<noteq> c" "using_ref (pcs s c') = Some (k', r')"
        using that by (auto simp: lock_leave_def Let_def split: if_splits)
      then have l: "locks s k' = Some r'" using D(1) by blast
      have "\<not> (lrefs (lheap s r) - 1 = 0 \<and> k' = k)"
        using c' alone [of c'] l k by auto
      with l show ?thesis by (auto simp: lock_leave_def Let_def)
    qed
    show "lrefs (lheap ?t r') = card (lock_users ?t k' r')" if "locks ?t k' = Some r'" for k' r'
      using that D(4) [of k' r'] D(5) [OF k, of k'] n unfolding u
      by (auto simp: lock_leave_def Let_def split: if_splits)
    show "0 < lrefs (lheap ?t r')" if "locks ?t k' = Some r'" for k' r'
      using that D(3) [of k' r'] D(5) [OF k, of k'] by (auto simp: lock_leave_def Let_def split: if_splits)
    show "mu_locked (lheap ?t r') \<longleftrightarrow> (\<exists>c. pcs ?t c = Holding k' r')" if "locks ?t k' = Some r'" for k' r'
      using that D(6) [of k' r'] unfolding hold by (auto simp: lock_leave_def Let_def split: if_splits)
    show "c1 = c0" if "pcs ?t c0 = Holding k' r'" "pcs ?t c1 = Holding k' r'" for c0 c1 k' r'
      using that D(7) by (auto simp: lock_leave_def Let_def split: if_splits)
    show "k2 = k1" if "locks ?t k1 = Some r'" "locks ?t k2 = Some r'" for k1 k2 r'
      using that D(5) by (auto simp: lock_leave_def Let_def split: if_splits)
  qed (use D in \<open>auto simp: lock_leave_def Let_def split: if_splits\<close>)
qed

lemma lock_step_ok: "lock_step s t \<Longrightarrow> locker_ok s \<Longrightarrow> locker_ok t"
  by (erule lock_stepE) (auto intro: enter_ok lock_ok unlock_ok leave_ok)

lemma new_locker_ok: "locker_ok new_locker"
  by (simp add: locker_ok_def new_locker_def)

lemma locker_reach_ok: "lock_step\<^sup>*\<^sup>* new_locker s \<Longrightarrow> locker_ok s"
  by (induction rule: rtranclp_induct) (auto intro: new_locker_ok lock_step_ok)

section \<open>Properties\<close>

text \<open>
  C15: mutual exclusion per key: in every reachable state at most one goroutine holds a key, even
  though mutexes are dropped and created anew; a goroutine waiting for a key queues on the mutex its
  holder has; and a key nobody uses has no entry left.
\<close>

theorem keyed_mutual_exclusion:
  assumes "lock_step\<^sup>*\<^sup>* new_locker s"
  shows "(pcs s c = Holding k r \<longrightarrow> pcs s c' = Holding k r' \<longrightarrow> c' = c)
    \<and> (pcs s c = Holding k r \<longrightarrow> pcs s c' = Waiting k r' \<longrightarrow> r' = r \<and> mu_locked (lheap s r'))
    \<and> (locks s k = None \<longleftrightarrow> (\<forall>c r. using_ref (pcs s c) \<noteq> Some (k, r)))"
proof -
  note D = locker_okD [OF locker_reach_ok [OF assms]]
  have 1: "c' = c" if "pcs s c = Holding k r" "pcs s c' = Holding k r'"
    using that D(1) [of c k r] D(1) [of c' k r'] D(7) by auto
  have 2: "r' = r \<and> mu_locked (lheap s r')" if "pcs s c = Holding k r" "pcs s c' = Waiting k r'"
    using that D(1) [of c k r] D(1) [of c' k r'] D(6) [of k r] by auto
  have "\<exists>c r. using_ref (pcs s c) = Some (k, r)" if "locks s k = Some q" for q
  proof -
    have "0 < card (lock_users s k q)" using D(3,4) [OF that] by simp
    then have "lock_users s k q \<noteq> {}" by (metis card.empty less_irrefl)
    then show ?thesis by (auto simp: lock_users_def)
  qed
  then have "locks s k = None \<longleftrightarrow> (\<forall>c r. using_ref (pcs s c) \<noteq> Some (k, r))"
    using D(1) by (cases "locks s k") fastforce+
  with 1 2 show ?thesis by blast
qed

theorem keyed_mutual_exclusion_witness:
  "\<exists>s. lock_step\<^sup>*\<^sup>* new_locker s \<and> pcs s 1 = Waiting ''k'' 0 \<and> pcs s 0 = Holding ''k'' 0 \<and> mu_locked (lheap s 0)"
proof -
  let ?s1 = "lock_enter 0 ''k'' new_locker"
  let ?s2 = "mutex_lock 0 ''k'' 0 ?s1"
  let ?s3 = "lock_enter 1 ''k'' ?s2"
  note defs = lock_enter_def mutex_lock_def new_locker_def
  have "lock_step new_locker ?s1" by (rule lock_step.enter) (simp add: new_locker_def)
  moreover have "lock_step ?s1 ?s2" by (rule lock_step.lock) (simp_all add: defs)
  moreover have "lock_step ?s2 ?s3" by (rule lock_step.enter) (simp add: defs)
  ultimately have r: "lock_step\<^sup>*\<^sup>* new_locker ?s3" by (meson rtranclp.rtrancl_into_rtrancl rtranclp.rtrancl_refl)
  have p: "pcs ?s3 0 = Holding ''k'' 0" "pcs ?s3 1 = Waiting ''k'' 0" by (simp_all add: defs)
  with keyed_mutual_exclusion [OF r, of 0 "''k''" 0 1 0] r show ?thesis by blast
qed

end
