(* ===== verification/Zip_Layout.thy ===== *)
theory Zip_Layout
  imports Bytes
begin

text \<open>
  The seekable zip of \<open>stream/internal/server/ziplayout.go\<close>: an archive of stored files is never
  built; its headers are computed, its layout is a list of segments, and a byte range is served by
  copying the parts of headers and files it covers. Sizes and offsets are \<open>nat\<close> (manifests hold
  non-negative sizes, and an archive stays far below \<open>2 ^ 63\<close> bytes); fields are written at their
  width, so a conversion such as \<open>uint32(size)\<close> truncates as in the code. \<open>parseByteRange\<close> and
  \<open>zipName\<close> are those of \<open>zip.go\<close>.
\<close>

section \<open>Headers\<close>

definition zip_local_sig :: nat where "zip_local_sig = 0x04034b50"
definition zip_central_sig :: nat where "zip_central_sig = 0x02014b50"
definition zip64_eocd_sig :: nat where "zip64_eocd_sig = 0x06064b50"
definition zip64_loc_sig :: nat where "zip64_loc_sig = 0x07064b50"
definition zip_eocd_sig :: nat where "zip_eocd_sig = 0x06054b50"
definition zip_utf8_flag :: nat where "zip_utf8_flag = 0x0800"
definition zip64_id :: nat where "zip64_id = 0x0001"
definition zip64_marker :: nat where "zip64_marker = 0xffffffff"
definition dos_epoch_date :: nat where "dos_epoch_date = 0x0021"

lemmas zip_consts = zip_local_sig_def zip_central_sig_def zip64_eocd_sig_def zip64_loc_sig_def
  zip_eocd_sig_def zip_utf8_flag_def zip64_id_def zip64_marker_def dos_epoch_date_def

record zip_entry =
  ze_name :: string
  ze_size :: nat
  ze_crc :: "32 word"

definition local_header :: "zip_entry \<Rightarrow> byte list" where
  "local_header e =
     (let z64 = ze_size e \<ge> zip64_marker; name = bytes_of (ze_name e) in
      le32 zip_local_sig @ le16 (if z64 then 45 else 20) @ le16 zip_utf8_flag @ le16 0 @ le16 0
      @ le16 dos_epoch_date @ le32 (unat (ze_crc e))
      @ le32 (if z64 then zip64_marker else ze_size e) @ le32 (if z64 then zip64_marker else ze_size e)
      @ le16 (length name) @ le16 (if z64 then 20 else 0) @ name
      @ (if z64 then le16 zip64_id @ le16 16 @ le64 (ze_size e) @ le64 (ze_size e) else []))"

definition central_extra :: "bool \<Rightarrow> bool \<Rightarrow> nat \<Rightarrow> nat \<Rightarrow> byte list" where
  "central_extra z64size z64off sz off =
     (if z64size \<or> z64off then
        (let body = (if z64size then le64 sz @ le64 sz else []) @ (if z64off then le64 off else [])
         in le16 zip64_id @ le16 (length body) @ body)
      else [])"

definition central_header :: "zip_entry \<Rightarrow> nat \<Rightarrow> byte list" where
  "central_header e off =
     (let z64size = ze_size e \<ge> zip64_marker; z64off = off \<ge> zip64_marker; z64 = z64size \<or> z64off;
          name = bytes_of (ze_name e); extra = central_extra z64size z64off (ze_size e) off in
      le32 zip_central_sig @ le16 45 @ le16 (if z64 then 45 else 20) @ le16 zip_utf8_flag @ le16 0 @ le16 0
      @ le16 dos_epoch_date @ le32 (unat (ze_crc e))
      @ le32 (if z64size then zip64_marker else ze_size e) @ le32 (if z64size then zip64_marker else ze_size e)
      @ le16 (length name) @ le16 (length extra) @ le16 0 @ le16 0 @ le16 0 @ le32 0
      @ le32 (if z64off then zip64_marker else off) @ name @ extra)"

definition end_records :: "nat \<Rightarrow> nat \<Rightarrow> nat \<Rightarrow> byte list" where
  "end_records entries cd_size cd_off =
     (let z64 = cd_off \<ge> zip64_marker \<or> cd_size \<ge> zip64_marker;
          cnt = (if entries \<ge> 0xffff then 0xffff else entries) in
      (if z64 then
         le32 zip64_eocd_sig @ le64 44 @ le16 45 @ le16 45 @ le32 0 @ le32 0 @ le64 entries @ le64 entries
         @ le64 cd_size @ le64 cd_off @ le32 zip64_loc_sig @ le32 0 @ le64 (cd_off + cd_size) @ le32 1
       else [])
      @ le32 zip_eocd_sig @ le16 0 @ le16 0 @ le16 cnt @ le16 cnt
      @ (if z64 then le32 zip64_marker @ le32 zip64_marker else le32 cd_size @ le32 cd_off) @ le16 0)"

section \<open>Layout\<close>

record zip_seg =
  sg_off :: nat
  sg_size :: nat
  sg_hdr :: "byte list option"
  sg_file :: nat

record zip_layout =
  zl_segs :: "zip_seg list"
  zl_total :: nat

text \<open>The loop over the entries: their segments, the offsets of their headers, and the end of the files.\<close>

fun build_files :: "nat \<Rightarrow> nat \<Rightarrow> zip_entry list \<Rightarrow> zip_seg list \<times> nat list \<times> nat" where
  "build_files i off [] = ([], [], off)"
| "build_files i off (e # es) =
     (let h = local_header e; (segs, offs, fin) = build_files (Suc i) (off + length h + ze_size e) es in
      (\<lparr>sg_off = off, sg_size = length h, sg_hdr = Some h, sg_file = 0\<rparr>
       # \<lparr>sg_off = off + length h, sg_size = ze_size e, sg_hdr = None, sg_file = i\<rparr> # segs, off # offs, fin))"

definition central_directory :: "zip_entry list \<Rightarrow> nat list \<Rightarrow> byte list" where
  "central_directory es offs = concat (map (\<lambda>(e, off). central_header e off) (zip es offs))"

definition build_zip_layout :: "zip_entry list \<Rightarrow> zip_layout" where
  "build_zip_layout es =
     (let (segs, offs, cd_off) = build_files 0 0 es;
          cd = central_directory es offs;
          trailer = cd @ end_records (length es) (length cd) cd_off
      in \<lparr>zl_segs = segs @ [\<lparr>sg_off = cd_off, sg_size = length trailer, sg_hdr = Some trailer, sg_file = 0\<rparr>],
          zl_total = cd_off + length trailer\<rparr>)"

text \<open>
  The writer accepts every byte; \<open>fetch\<close> may fail, which ends the copy. The result is what was
  written and whether the error is nil.
\<close>

fun write_segs :: "(nat \<Rightarrow> nat \<Rightarrow> nat \<Rightarrow> byte list option) \<Rightarrow> nat \<Rightarrow> nat \<Rightarrow> zip_seg list \<Rightarrow> byte list \<times> bool" where
  "write_segs fetch st en [] = ([], True)"
| "write_segs fetch st en (s # ss) =
     (if sg_off s + sg_size s \<le> st \<or> en < sg_off s then write_segs fetch st en ss
      else let a = max st (sg_off s); b1 = min (Suc en) (sg_off s + sg_size s) in
        (case sg_hdr s of
           Some h \<Rightarrow> (let (out, ok) = write_segs fetch st en ss in
             (take (b1 - a) (drop (a - sg_off s) h) @ out, ok))
         | None \<Rightarrow> (case fetch (sg_file s) (a - sg_off s) (b1 - a) of
             None \<Rightarrow> ([], False)
           | Some bs \<Rightarrow> (let (out, ok) = write_segs fetch st en ss in (bs @ out, ok)))))"

definition write_range :: "zip_layout \<Rightarrow> nat \<Rightarrow> nat \<Rightarrow> (nat \<Rightarrow> nat \<Rightarrow> nat \<Rightarrow> byte list option) \<Rightarrow> byte list \<times> bool" where
  "write_range l st en fetch = write_segs fetch st en (zl_segs l)"

section \<open>\<open>parseByteRange\<close> and \<open>zipName\<close>\<close>

definition parse_byte_range :: "string \<Rightarrow> int \<Rightarrow> (int \<times> int) option" where
  "parse_byte_range h sz =
     (if \<not> has_prefix h ''bytes='' \<or> sz = 0 then None
      else let spec = drop 6 h in
      if contains_str spec '','' then None
      else case index_byte spec (CHR ''-'') of
        None \<Rightarrow> None
      | Some dash \<Rightarrow>
        let start_str = take dash spec; end_str = drop (Suc dash) spec in
        if start_str = [] then
          (let (n, ok) = parse_int end_str in
           if \<not> ok \<or> n \<le> 0 then None
           else let n' = (if n > sz then sz else n) in Some (sz - n', sz - 1))
        else let (st, ok) = parse_int start_str in
          if \<not> ok \<or> st < 0 \<or> st \<ge> sz then None
          else if end_str = [] then Some (st, sz - 1)
          else let (en, ok2) = parse_int end_str in
            if \<not> ok2 \<or> en < st then None
            else Some (st, if en \<ge> sz then sz - 1 else en))"

definition zip_name :: "string \<Rightarrow> string" where
  "zip_name name = (let n = filter (\<lambda>c. c \<noteq> CHR 0x22) name in (if n = [] then ''download'' else n) @ ''.zip'')"

section \<open>The archive a layout stands for\<close>

text \<open>The bytes of a segment, and of the whole archive, given the files' contents.\<close>

definition seg_bytes :: "byte list list \<Rightarrow> zip_seg \<Rightarrow> byte list" where
  "seg_bytes fs s = (case sg_hdr s of Some h \<Rightarrow> h | None \<Rightarrow> fs ! sg_file s)"

definition archive :: "zip_entry list \<Rightarrow> byte list list \<Rightarrow> byte list" where
  "archive es fs = concat (map (seg_bytes fs) (zl_segs (build_zip_layout es)))"

definition file_fetch :: "byte list list \<Rightarrow> nat \<Rightarrow> nat \<Rightarrow> nat \<Rightarrow> byte list option" where
  "file_fetch fs i off len = Some (take len (drop off (fs ! i)))"

text \<open>Segments that follow one another from an offset, each as long as its bytes.\<close>

fun laid_out :: "byte list list \<Rightarrow> nat \<Rightarrow> zip_seg list \<Rightarrow> bool" where
  "laid_out fs off [] = True"
| "laid_out fs off (s # ss) = (sg_off s = off \<and> sg_size s = length (seg_bytes fs s) \<and> laid_out fs (off + sg_size s) ss)"

lemma laid_out_append:
  "laid_out fs off (ss @ ts) \<longleftrightarrow> laid_out fs off ss \<and> laid_out fs (off + sum_list (map sg_size ss)) ts"
  by (induction ss arbitrary: off) (auto simp: add.assoc)

lemma laid_out_length: "laid_out fs off ss \<Longrightarrow> length (concat (map (seg_bytes fs) ss)) = sum_list (map sg_size ss)"
  by (induction ss arbitrary: off) auto

text \<open>Writing a range of segments laid out from \<open>off\<close> is slicing their concatenation.\<close>

lemma write_segs_slice:
  assumes "laid_out fs off ss"
  shows "write_segs (file_fetch fs) st en ss =
     (take (Suc en - max st off) (drop (st - off) (concat (map (seg_bytes fs) ss))), True)"
  using assms
proof (induction ss arbitrary: off)
  case (Cons s ss)
  let ?b = "seg_bytes fs s" and ?rest = "concat (map (seg_bytes fs) ss)"
  have o: "sg_off s = off" and sz: "sg_size s = length ?b" and rest: "laid_out fs (off + length ?b) ss"
    using Cons.prems by auto
  note IH = Cons.IH [OF rest]
  show ?case
  proof (cases "off + length ?b \<le> st \<or> en < off")
    case True
    then have skip: "write_segs (file_fetch fs) st en (s # ss) = write_segs (file_fetch fs) st en ss"
      by (simp add: o sz)
    show ?thesis
    proof (cases "en < off")
      case True
      then show ?thesis unfolding skip IH by simp
    next
      case False
      with True have "off + length ?b \<le> st" by simp
      then have "max st off = st" "max st (off + length ?b) = st" by simp_all
      with \<open>off + length ?b \<le> st\<close> show ?thesis unfolding skip IH by simp
    qed
  next
    case False
    let ?a = "max st off" and ?b1 = "min (Suc en) (off + length ?b)"
    have part: "write_segs (file_fetch fs) st en (s # ss) =
        (take (?b1 - ?a) (drop (?a - off) ?b) @ fst (write_segs (file_fetch fs) st en ss), True)"
      using False by (simp add: o sz IH Let_def file_fetch_def seg_bytes_def split: option.splits)
    have d: "?a - off = st - off" by simp
    have "take (Suc en - ?a) (drop (st - off) (?b @ ?rest)) =
        take (?b1 - ?a) (drop (st - off) ?b) @ take (Suc en - max st (off + length ?b)) (drop (st - (off + length ?b)) ?rest)"
      using False by (auto simp: max_def min_def not_le add.commute)
    then show ?thesis unfolding part IH d by simp
  qed
qed simp

lemma build_files_laid_out:
  assumes "build_files i off es = (segs, offs, fin)"
    and "\<forall>j<length es. ze_size (es ! j) = length (fs ! (i + j))"
  shows "laid_out fs off segs \<and> fin = off + sum_list (map sg_size segs) \<and> length offs = length es"
  using assms
proof (induction i off es arbitrary: segs offs fin rule: build_files.induct)
  case (2 i off e es)
  obtain segs' offs' fin' where b: "build_files (Suc i) (off + length (local_header e) + ze_size e) es = (segs', offs', fin')"
    by (cases "build_files (Suc i) (off + length (local_header e) + ze_size e) es") auto
  have sz: "ze_size e = length (fs ! i)" using 2(3) by force
  have "\<forall>j<length es. ze_size (es ! j) = length (fs ! (Suc i + j))"
    using 2(3) by (auto dest: spec [of _ "Suc _"])
  from 2(1) [OF refl b this] show ?case
    using 2(2) b sz by (auto simp: Let_def seg_bytes_def)
qed simp

lemma build_zip_laid_out:
  assumes "map ze_size es = map length fs"
  shows "laid_out fs 0 (zl_segs (build_zip_layout es)) \<and> zl_total (build_zip_layout es) = length (archive es fs)"
proof -
  obtain segs offs fin where b: "build_files 0 0 es = (segs, offs, fin)"
    by (cases "build_files 0 0 es") auto
  have len: "length es = length fs" using assms by (metis length_map)
  have "\<forall>j<length es. ze_size (es ! j) = length (fs ! (0 + j))"
    using assms len by (metis add_0 nth_map)
  from build_files_laid_out [OF b this]
  have l: "laid_out fs 0 segs" "fin = sum_list (map sg_size segs)" by simp_all
  then have "laid_out fs 0 (zl_segs (build_zip_layout es))"
    by (simp add: build_zip_layout_def b Let_def laid_out_append seg_bytes_def)
  with laid_out_length [OF this] show ?thesis
    using l by (simp add: archive_def build_zip_layout_def b Let_def)
qed

section \<open>Reading an archive\<close>

text \<open>
  A reader of the ZIP format (with the zip64 extensions), written from the format and not from the
  code: it finds the end record, then the central directory, then each file through its header, and
  refuses a file whose header disagrees with the directory on the name, the size or the checksum.
\<close>

definition field :: "byte list \<Rightarrow> nat \<Rightarrow> nat \<Rightarrow> nat" where
  "field bs i n = unle (take n (drop i bs))"

record central_rec =
  cr_name :: string
  cr_size :: nat
  cr_crc :: nat
  cr_off :: nat

definition read_central :: "byte list \<Rightarrow> (central_rec \<times> byte list) option" where
  "read_central bs =
     (if field bs 0 4 \<noteq> zip_central_sig \<or> field bs 10 2 \<noteq> 0 then None
      else let nlen = field bs 28 2; xlen = field bs 30 2; clen = field bs 32 2;
               extra = take xlen (drop (46 + nlen) bs);
               sz32 = field bs 24 4; off32 = field bs 42 4;
               big = sz32 = zip64_marker;
               body = (if field extra 0 2 = zip64_id then drop 4 extra else [])
           in Some (\<lparr>cr_name = map (\<lambda>b. char_of (unat b)) (take nlen (drop 46 bs)),
                     cr_size = (if big then field body 0 8 else sz32), cr_crc = field bs 16 4,
                     cr_off = (if off32 = zip64_marker then field body (if big then 16 else 0) 8 else off32)\<rparr>,
                    drop (46 + nlen + xlen + clen) bs))"

fun read_directory :: "nat \<Rightarrow> byte list \<Rightarrow> central_rec list option" where
  "read_directory 0 bs = Some []"
| "read_directory (Suc n) bs = (case read_central bs of None \<Rightarrow> None
     | Some (r, rest) \<Rightarrow> map_option ((#) r) (read_directory n rest))"

text \<open>Offset and number of entries of the directory, from the last 22 bytes or the zip64 record they point to.\<close>

definition read_end :: "byte list \<Rightarrow> (nat \<times> nat) option" where
  "read_end bs =
     (let e = drop (length bs - 22) bs in
      if field e 0 4 \<noteq> zip_eocd_sig then None
      else if field e 16 4 \<noteq> zip64_marker \<and> field e 12 4 \<noteq> zip64_marker then Some (field e 16 4, field e 10 2)
      else let l = drop (length bs - 42) bs; r = drop (field l 8 8) bs in
        if field l 0 4 \<noteq> zip64_loc_sig \<or> field r 0 4 \<noteq> zip64_eocd_sig then None
        else Some (field r 48 8, field r 32 8))"

definition read_file :: "byte list \<Rightarrow> central_rec \<Rightarrow> (string \<times> nat \<times> byte list) option" where
  "read_file bs r =
     (let h = drop (cr_off r) bs in
      if field h 0 4 \<noteq> zip_local_sig \<or> field h 14 4 \<noteq> cr_crc r
         \<or> (if field h 22 4 = zip64_marker then field (drop (30 + field h 26 2) h) 4 8 else field h 22 4) \<noteq> cr_size r
         \<or> string_of (take (field h 26 2) (drop 30 h)) \<noteq> cr_name r then None
      else Some (cr_name r, cr_crc r, take (cr_size r) (drop (30 + field h 26 2 + field h 28 2) h)))"

definition unzip :: "byte list \<Rightarrow> (string \<times> nat \<times> byte list) option list option" where
  "unzip bs = (case read_end bs of None \<Rightarrow> None
     | Some (off, n) \<Rightarrow> map_option (map (read_file bs)) (read_directory n (drop off bs)))"

lemma field_le:
  "field (le n v @ bs) 0 n = v mod 256 ^ n"
  "n \<le> i \<Longrightarrow> field (le n v @ bs) i k = field bs (i - n) k"
  by (simp_all add: field_def)

lemma field_le_last: "field (le n v) 0 n = v mod 256 ^ n"
  by (simp add: field_def)

lemma crc_lt: "unat (c :: 32 word) < 4294967296"
  using unsigned_less [of c] by simp

lemma length_local_header: "length (local_header e) = 30 + length (ze_name e) + (if ze_size e \<ge> zip64_marker then 20 else 0)"
  by (simp add: local_header_def Let_def)

lemma length_central_extra: "length (central_extra a b s f) \<le> 28"
  by (simp add: central_extra_def Let_def)

lemma local_header_fields:
  assumes "length (ze_name e) < 65536"
  shows "field (local_header e @ bs) 0 4 = zip_local_sig"
    and "30 + field (local_header e @ bs) 26 2 + field (local_header e @ bs) 28 2 = length (local_header e)"
  unfolding length_local_header using assms
  by (simp_all add: local_header_def Let_def field_le zip_consts)

lemma local_header_agrees:
  assumes "length (ze_name e) < 65536" and "ze_size e < 2 ^ 64"
  shows "field (local_header e @ bs) 14 4 = unat (ze_crc e)"
    and "string_of (take (field (local_header e @ bs) 26 2) (drop 30 (local_header e @ bs))) = ze_name e"
    and "(if field (local_header e @ bs) 22 4 = zip64_marker
          then field (drop (30 + field (local_header e @ bs) 26 2) (local_header e @ bs)) 4 8
          else field (local_header e @ bs) 22 4) = ze_size e"
proof -
  let ?h = "local_header e @ bs"
  have crc: "unat (ze_crc e) mod 4294967296 = unat (ze_crc e)" using crc_lt by simp
  have n: "field ?h 26 2 = length (ze_name e)"
    and s: "field ?h 22 4 = (if ze_size e \<ge> zip64_marker then zip64_marker else ze_size e)"
    using assms(1) by (simp_all add: local_header_def Let_def field_le zip_consts)
  show "field ?h 14 4 = unat (ze_crc e)"
    by (simp add: local_header_def Let_def field_le crc)
  show "string_of (take (field ?h 26 2) (drop 30 ?h)) = ze_name e"
    unfolding n by (simp add: local_header_def Let_def)
  have "ze_size e \<ge> zip64_marker \<Longrightarrow> field (drop (30 + length (ze_name e)) ?h) 4 8 = ze_size e"
    using assms(2) by (simp add: local_header_def Let_def field_le)
  then show "(if field ?h 22 4 = zip64_marker then field (drop (30 + field ?h 26 2) ?h) 4 8 else field ?h 22 4) = ze_size e"
    unfolding n s by auto
qed

lemma read_central_header:
  assumes "length (ze_name e) < 65536" and "ze_size e < 2 ^ 64" and "off < 2 ^ 64"
  shows "read_central (central_header e off @ bs) =
    Some (\<lparr>cr_name = ze_name e, cr_size = ze_size e, cr_crc = unat (ze_crc e), cr_off = off\<rparr>, bs)"
proof -
  let ?z = "ze_size e \<ge> zip64_marker" and ?o = "off \<ge> zip64_marker"
  let ?x = "central_extra ?z ?o (ze_size e) off"
  let ?cs = "central_header e off @ bs"
  have xlen: "length ?x < 65536" using length_central_extra [of ?z ?o "ze_size e" off] by simp
  have crc: "unat (ze_crc e) mod 4294967296 = unat (ze_crc e)" using crc_lt by simp
  have f: "field ?cs 0 4 = zip_central_sig" "field ?cs 10 2 = 0" "field ?cs 16 4 = unat (ze_crc e)"
    "field ?cs 24 4 = (if ?z then zip64_marker else ze_size e)" "field ?cs 28 2 = length (ze_name e)"
    "field ?cs 30 2 = length ?x" "field ?cs 32 2 = 0" "field ?cs 42 4 = (if ?o then zip64_marker else off)"
    using assms(1) xlen by (simp_all add: central_header_def Let_def field_le crc zip_consts)
  have tail: "drop 46 ?cs = bytes_of (ze_name e) @ ?x @ bs"
    by (simp add: central_header_def Let_def)
  have tail': "drop (46 + length (ze_name e)) ?cs = ?x @ bs"
    by (simp add: central_header_def Let_def)
  have rest: "drop (46 + length (ze_name e) + length ?x) ?cs = bs"
  proof -
    have "46 + length (ze_name e) + length ?x = length (central_header e off)"
      by (simp add: central_header_def Let_def)
    then show ?thesis by simp
  qed
  have body: "?z \<Longrightarrow> field (drop 4 ?x) 0 8 = ze_size e"
    "?o \<Longrightarrow> field (drop 4 ?x) (if ?z then 16 else 0) 8 = off"
    and id: "?z \<or> ?o \<Longrightarrow> field ?x 0 2 = zip64_id"
    using assms(2,3) by (simp_all add: central_extra_def Let_def field_le field_le_last zip64_id_def)
  have big: "(if ?z then zip64_marker else ze_size e) = zip64_marker \<longleftrightarrow> ?z" "(if ?o then zip64_marker else off) = zip64_marker \<longleftrightarrow> ?o"
    by auto
  show ?thesis
    unfolding read_central_def Let_def f big using body id rest tail tail' by (cases ?z; cases ?o; simp)
qed

text \<open>Each file's header sits at its recorded offset, its contents right after.\<close>

lemma build_files_at:
  assumes "build_files i off es = (segs, offs, fin)" and "j < length es"
    and "\<forall>j<length es. ze_size (es ! j) = length (fs ! (i + j))"
  shows "off \<le> offs ! j \<and> offs ! j + length (local_header (es ! j)) + ze_size (es ! j) \<le> fin
    \<and> (\<exists>rest. drop (offs ! j - off) (concat (map (seg_bytes fs) segs)) = local_header (es ! j) @ fs ! (i + j) @ rest)"
  using assms
proof (induction i off es arbitrary: segs offs fin j rule: build_files.induct)
  case (2 i off e es)
  obtain segs' offs' fin' where b: "build_files (Suc i) (off + length (local_header e) + ze_size e) es = (segs', offs', fin')"
    by (cases "build_files (Suc i) (off + length (local_header e) + ze_size e) es") auto
  have eqs: "offs = off # offs'" "fin = fin'" "concat (map (seg_bytes fs) segs) =
      local_header e @ fs ! i @ concat (map (seg_bytes fs) segs')"
    using 2(2) b by (auto simp: Let_def seg_bytes_def)
  have sz: "ze_size e = length (fs ! i)" and szs: "\<forall>j<length es. ze_size (es ! j) = length (fs ! (Suc i + j))"
    using 2(4) by (force, auto dest: spec [of _ "Suc _"])
  have fin: "off + length (local_header e) + ze_size e \<le> fin"
    using build_files_laid_out [OF b szs] eqs by simp
  show ?case
  proof (cases j)
    case 0
    with fin eqs show ?thesis by auto
  next
    case (Suc j')
    with 2(3) have j': "j' < length es" by simp
    from 2(1) [OF refl b j' szs] obtain rest where
      r: "off + length (local_header e) + ze_size e \<le> offs' ! j'"
      "offs' ! j' + length (local_header (es ! j')) + ze_size (es ! j') \<le> fin"
      "drop (offs' ! j' - (off + length (local_header e) + ze_size e)) (concat (map (seg_bytes fs) segs')) =
         local_header (es ! j') @ fs ! (Suc i + j') @ rest"
      using eqs by auto
    have "drop (offs' ! j' - off) (concat (map (seg_bytes fs) segs)) =
        drop (offs' ! j' - (off + length (local_header e) + ze_size e)) (concat (map (seg_bytes fs) segs'))"
      using r(1) by (simp add: eqs sz)
    with r Suc eqs show ?thesis by auto
  qed
qed simp

lemma read_directory_central:
  assumes "length offs = length es" and "\<forall>e\<in>set es. length (ze_name e) < 65536 \<and> ze_size e < 2 ^ 64"
    and "\<forall>off\<in>set offs. off < 2 ^ 64"
  shows "read_directory (length es) (central_directory es offs @ bs) =
    Some (map (\<lambda>(e, off). \<lparr>cr_name = ze_name e, cr_size = ze_size e, cr_crc = unat (ze_crc e), cr_off = off\<rparr>) (zip es offs))"
  using assms
proof (induction es arbitrary: offs)
  case (Cons e es)
  then obtain off offs' where o: "offs = off # offs'" by (cases offs) auto
  with Cons show ?case by (simp add: central_directory_def read_central_header)
qed simp

lemma drop_end: "length ys = n \<Longrightarrow> drop (length (xs @ ys) - n) (xs @ ys) = ys"
  by simp

lemma read_end_records:
  assumes "entries < 65535" and "length body + length cd < 2 ^ 64"
  shows "read_end (body @ cd @ end_records entries (length cd) (length body)) = Some (length body, entries)"
proof -
  let ?z = "length body \<ge> zip64_marker \<or> length cd \<ge> zip64_marker"
  let ?E = "le32 zip_eocd_sig @ le16 0 @ le16 0 @ le16 entries @ le16 entries
      @ (if ?z then le32 zip64_marker @ le32 zip64_marker else le32 (length cd) @ le32 (length body)) @ le16 0"
  let ?L = "le32 zip64_loc_sig @ le32 0 @ le64 (length body + length cd) @ le32 1"
  let ?A = "le32 zip64_eocd_sig @ le64 44 @ le16 45 @ le16 45 @ le32 0 @ le32 0 @ le64 entries @ le64 entries
         @ le64 (length cd) @ le64 (length body)"
  let ?all = "body @ cd @ end_records entries (length cd) (length body)"
  have lens: "length ?E = 22" "length ?L = 20" "length ?A = 56" by simp_all
  have er: "end_records entries (length cd) (length body) = (if ?z then ?A @ ?L else []) @ ?E"
    using assms(1) by (simp add: end_records_def Let_def)
  have e: "drop (length ?all - 22) ?all = ?E"
  proof -
    have a: "?all = (body @ cd @ (if ?z then ?A @ ?L else [])) @ ?E" by (simp only: er append_assoc)
    show ?thesis unfolding a by (rule drop_end [OF lens(1)])
  qed
  have ef: "field ?E 0 4 = zip_eocd_sig" "field ?E 10 2 = entries"
    "\<not> ?z \<Longrightarrow> field ?E 16 4 = length body \<and> field ?E 12 4 = length cd"
    "?z \<Longrightarrow> field ?E 16 4 = zip64_marker"
    using assms(1) by (auto simp: field_le field_le_last zip_eocd_sig_def zip64_marker_def)
  show ?thesis
  proof (cases ?z)
    case False
    have "length body \<noteq> zip64_marker" "length cd \<noteq> zip64_marker" using False by auto
    with False show ?thesis unfolding read_end_def Let_def e using ef by simp
  next
    case True
    have all: "?all = (body @ cd @ ?A) @ ?L @ ?E" using True by (simp only: er append_assoc if_True)
    have l: "drop (length ?all - 42) ?all = ?L @ ?E"
      unfolding all by (rule drop_end) simp
    have r: "drop (length body + length cd) ?all = ?A @ ?L @ ?E"
      unfolding all by simp
    have lf: "field (?L @ ?E) 0 4 = zip64_loc_sig" "field (?L @ ?E) 8 8 = length body + length cd"
      using assms(2) by (simp_all add: field_le zip64_loc_sig_def)
    have rf: "field (?A @ ?L @ ?E) 0 4 = zip64_eocd_sig" "field (?A @ ?L @ ?E) 48 8 = length body"
      "field (?A @ ?L @ ?E) 32 8 = entries"
      using assms by (simp_all add: field_le zip64_eocd_sig_def)
    show ?thesis unfolding read_end_def Let_def e l using ef True lf r rf by simp
  qed
qed

lemma read_file_at:
  assumes "drop (cr_off r) bs = local_header e @ f @ rest" and "length (ze_name e) < 65536" and "cr_size r = length f"
    and "ze_size e < 2 ^ 64" and "cr_size r = ze_size e" and "cr_crc r = unat (ze_crc e)" and "cr_name r = ze_name e"
  shows "read_file bs r = Some (cr_name r, cr_crc r, f)"
proof -
  have "drop (30 + field (local_header e @ f @ rest) 26 2 + field (local_header e @ f @ rest) 28 2) (local_header e @ f @ rest) = f @ rest"
    unfolding local_header_fields(2) [OF assms(2)] by simp
  then show ?thesis
    unfolding read_file_def Let_def assms(1) local_header_agrees [OF assms(2,4)]
    using local_header_fields(1) [OF assms(2)] assms by simp
qed

section \<open>Properties\<close>

text \<open>
  C7: serving a range of a seekable zip is exact: whatever range of the archive is asked for, the
  bytes written are that slice of the archive the layout stands for, and the declared total is the
  archive's length.
\<close>

theorem zip_range_is_slice:
  assumes "map ze_size es = map length fs" and "st \<le> en" and "en < zl_total (build_zip_layout es)"
  shows "write_range (build_zip_layout es) st en (file_fetch fs) = (take (Suc en - st) (drop st (archive es fs)), True)
    \<and> length (take (Suc en - st) (drop st (archive es fs))) = Suc en - st"
proof -
  have l: "laid_out fs 0 (zl_segs (build_zip_layout es))" "zl_total (build_zip_layout es) = length (archive es fs)"
    using build_zip_laid_out [OF assms(1)] by auto
  show ?thesis
    using write_segs_slice [OF l(1), of st en] assms(2,3) l(2) by (simp add: write_range_def archive_def)
qed

definition sample_entries :: "zip_entry list" where
  "sample_entries = [\<lparr>ze_name = ''a.srt'', ze_size = 3, ze_crc = 7\<rparr>]"

theorem zip_range_is_slice_witness:
  "write_range (build_zip_layout sample_entries) 35 37 (file_fetch [[1, 2, 3]]) = ([1, 2, 3], True)"
proof -
  have a: "archive sample_entries [[1, 2, 3]] = local_header (hd sample_entries) @ [1, 2, 3]
      @ (central_header (hd sample_entries) 0 @ end_records 1 (length (central_header (hd sample_entries) 0))
           (length (local_header (hd sample_entries)) + 3))"
    by (simp add: archive_def build_zip_layout_def sample_entries_def central_directory_def seg_bytes_def Let_def)
  have h: "length (local_header (hd sample_entries)) = 35"
    by (simp add: length_local_header sample_entries_def zip64_marker_def)
  have "zl_total (build_zip_layout sample_entries) = length (archive sample_entries [[1, 2, 3]])"
    using build_zip_laid_out [of sample_entries "[[1, 2, 3]]"] by (simp add: sample_entries_def)
  then have "37 < zl_total (build_zip_layout sample_entries)" unfolding a by (simp add: h)
  moreover have "map ze_size sample_entries = map length [[1, 2, 3 :: byte]]" by (simp add: sample_entries_def)
  ultimately show ?thesis using zip_range_is_slice [of sample_entries "[[1, 2, 3]]" 35 37] by (simp add: a h)
qed

text \<open>
  C8: the archive is a valid zip: a reader that follows the end record, the central directory and
  the local headers gets back every file with its name, checksum and contents, also when sizes or
  offsets need the zip64 form; each local header agrees with the directory.
\<close>

theorem zip_roundtrip:
  assumes "map ze_size es = map length fs" and "\<forall>e\<in>set es. length (ze_name e) < 65536"
    and "length es < 65535" and "zl_total (build_zip_layout es) < 2 ^ 64"
  shows "unzip (archive es fs) = Some (map (\<lambda>(e, f). Some (ze_name e, unat (ze_crc e), f)) (zip es fs))"
proof -
  obtain segs offs fin where b: "build_files 0 0 es = (segs, offs, fin)"
    by (cases "build_files 0 0 es") auto
  let ?body = "concat (map (seg_bytes fs) segs)" and ?cd = "central_directory es offs"
  have len: "length es = length fs" using assms(1) by (metis length_map)
  have szs: "\<forall>j<length es. ze_size (es ! j) = length (fs ! (0 + j))"
    using assms(1) len by (metis add_0 nth_map)
  have laid: "laid_out fs 0 segs" "fin = length ?body" "length offs = length es"
    using build_files_laid_out [OF b szs] laid_out_length [of fs 0 segs] by auto
  have arc: "archive es fs = ?body @ ?cd @ end_records (length es) (length ?cd) (length ?body)"
    using laid by (simp add: archive_def build_zip_layout_def b Let_def seg_bytes_def)
  have tot: "length ?body + length ?cd < 2 ^ 64"
    using assms(4) build_zip_laid_out [OF assms(1)] arc by simp
  have at: "offs ! j + length (local_header (es ! j)) + ze_size (es ! j) \<le> length ?body
      \<and> (\<exists>rest. drop (offs ! j) (archive es fs) = local_header (es ! j) @ fs ! j @ rest)" if "j < length es" for j
    using build_files_at [OF b that szs] laid by (auto simp: arc)
  have small: "\<forall>e\<in>set es. length (ze_name e) < 65536 \<and> ze_size e < 2 ^ 64" "\<forall>off\<in>set offs. off < 2 ^ 64"
    using at assms(2) tot laid(3) by (fastforce simp: in_set_conv_nth)+
  have dir: "read_directory (length es) (drop (length ?body) (archive es fs)) = Some (map
      (\<lambda>(e, off). \<lparr>cr_name = ze_name e, cr_size = ze_size e, cr_crc = unat (ze_crc e), cr_off = off\<rparr>) (zip es offs))"
    unfolding arc using read_directory_central [OF laid(3) small] by simp
  have "map (read_file (archive es fs)) (map
      (\<lambda>(e, off). \<lparr>cr_name = ze_name e, cr_size = ze_size e, cr_crc = unat (ze_crc e), cr_off = off\<rparr>) (zip es offs))
      = map (\<lambda>(e, f). Some (ze_name e, unat (ze_crc e), f)) (zip es fs)"
  proof (rule nth_equalityI)
    fix j
    assume "j < length (map (read_file (archive es fs)) (map
      (\<lambda>(e, off). \<lparr>cr_name = ze_name e, cr_size = ze_size e, cr_crc = unat (ze_crc e), cr_off = off\<rparr>) (zip es offs)))"
    then have j: "j < length es" using laid(3) by simp
    from at [OF j] obtain rest where "drop (offs ! j) (archive es fs) = local_header (es ! j) @ fs ! j @ rest" by blast
    moreover have "length (ze_name (es ! j)) < 65536 \<and> length (fs ! j) < 2 ^ 64"
      using bspec [OF small(1) nth_mem [OF j]] szs j by simp
    ultimately show "map (read_file (archive es fs)) (map
      (\<lambda>(e, off). \<lparr>cr_name = ze_name e, cr_size = ze_size e, cr_crc = unat (ze_crc e), cr_off = off\<rparr>) (zip es offs)) ! j
      = map (\<lambda>(e, f). Some (ze_name e, unat (ze_crc e), f)) (zip es fs) ! j"
      using j laid(3) len szs by (simp add: read_file_at)
  qed (use laid(3) len in simp)
  then show ?thesis
    unfolding unzip_def using read_end_records [OF assms(3) tot] dir by (simp add: arc)
qed

theorem zip_roundtrip_witness:
  "unzip (archive sample_entries [[1, 2, 3]]) = Some [Some (''a.srt'', 7, [1, 2, 3])]"
proof -
  have "zl_total (build_zip_layout sample_entries) < 2 ^ 64"
    by (simp add: build_zip_layout_def sample_entries_def Let_def length_local_header central_directory_def
        central_header_def central_extra_def end_records_def zip64_marker_def)
  then show ?thesis using zip_roundtrip [of sample_entries "[[1, 2, 3]]"] by (simp add: sample_entries_def)
qed

text \<open>
  A range header that is accepted denotes a non-empty range inside the body, whatever its text.
\<close>

theorem parse_byte_range_in_bounds:
  assumes "parse_byte_range h sz = Some (st, en)" and "0 \<le> sz"
  shows "0 \<le> st \<and> st \<le> en \<and> en < sz"
  using assms by (auto simp: parse_byte_range_def Let_def split: option.splits if_splits prod.splits)

theorem parse_byte_range_in_bounds_witness:
  "parse_byte_range ''bytes=-5'' 3 = Some (0, 2) \<and> (0 :: int) \<le> 0 \<and> (0 :: int) \<le> 2 \<and> (2 :: int) < 3"
proof -
  have p: "parse_byte_range ''bytes=-5'' 3 = Some (0, 2)" by code_simp
  from parse_byte_range_in_bounds [OF p] p show ?thesis by simp
qed

end
