(* ===== verification/Reader_At.thy ===== *)
theory Reader_At
  imports Yenc
begin

text \<open>
  The random-access reader over the articles of one Usenet file
  (\<open>shared/usenet/download/readerat.go\<close>): a bounded cache of decoded segments, the search for the
  segment of an offset, zero padding for missing articles, and \<open>ReadAt\<close>. \<open>readMu\<close> serialises reads;
  the background prefetch only runs \<open>fetchSeg\<close> on later segments, and is a list of segments fetched
  after a read. Fetching and decoding segment \<open>i\<close> is the argument \<open>fetch i\<close>: an error text, or the
  decoded article.
\<close>

section \<open>State\<close>

record nzb_segment =
  seg_bytes_enc :: int
  message_id :: string

record chunk =
  ch_begin :: int
  ch_end :: int
  ch_data :: "byte list"
  ch_hole :: bool

record reader =
  rd_cache :: "nat \<Rightarrow> chunk option"
  rd_order :: "nat list"
  rd_typ :: int
  rd_size :: int
  rd_pad_total :: int
  rd_last_hole :: int
  rd_cur_run :: int

datatype read_error = ReadEOF | ReadTooManyHoles | ReadNotFound | ReadFail string

type_synonym fetch = "nat \<Rightarrow> string + yenc_result"

definition ra_cache_max :: nat where "ra_cache_max = 48"
definition prefetch_ahead :: nat where "prefetch_ahead = 16"
definition max_pad_run :: int where "max_pad_run = 4"
definition max_pad_total :: int where "max_pad_total = 64"

definition new_reader_at :: reader where
  "new_reader_at = \<lparr>rd_cache = Map.empty, rd_order = [], rd_typ = 0, rd_size = -1, rd_pad_total = 0,
     rd_last_hole = -1, rd_cur_run = 0\<rparr>"

definition is_article_missing :: "string \<Rightarrow> bool" where
  "is_article_missing e = (let s = to_lower e in
     contains_str s ''no such article'' \<or> contains_str s ''article not found''
     \<or> contains_str s ''430 '' \<or> contains_str s ''423 '')"

section \<open>Segments\<close>

definition store_chunk :: "nat \<Rightarrow> chunk \<Rightarrow> reader \<Rightarrow> reader" where
  "store_chunk i c r =
     (let cache = (rd_cache r)(i \<mapsto> c); ord = rd_order r @ [i] in
      if length ord > ra_cache_max
      then r\<lparr>rd_cache := cache(hd ord := None), rd_order := tl ord\<rparr>
      else r\<lparr>rd_cache := cache, rd_order := ord\<rparr>)"

definition chunk_of :: "yenc_result \<Rightarrow> chunk" where
  "chunk_of d = (let b = (if y_begin d - 1 < 0 then 0 else y_begin d - 1) in
     \<lparr>ch_begin = b, ch_end = b + int (length (y_data d)), ch_data = y_data d, ch_hole = False\<rparr>)"

definition fetch_seg :: "fetch \<Rightarrow> nat \<Rightarrow> reader \<Rightarrow> (string + chunk) \<times> reader" where
  "fetch_seg fetch i r =
     (case rd_cache r i of
        Some c \<Rightarrow> (Inr c, r)
      | None \<Rightarrow> (case fetch i of
          Inl e \<Rightarrow> (Inl e, r)
        | Inr d \<Rightarrow> let r1 = store_chunk i (chunk_of d) r in
            (Inr (chunk_of d), if i = 0 then r1\<lparr>rd_typ := int (length (y_data d))\<rparr> else r1)))"

text \<open>
  Padding a missing segment: as long as the first segment, or as the article's encoded size when that
  is unknown; it starts where the segment before it ends.
\<close>

definition pad_hole :: "nzb_segment list \<Rightarrow> nat \<Rightarrow> int \<Rightarrow> int \<Rightarrow> reader \<Rightarrow> (read_error + chunk) \<times> reader" where
  "pad_hole segs i sz b r =
     (let run = (if int i = rd_last_hole r + 1 then rd_cur_run r + 1 else 1);
          r1 = r\<lparr>rd_cur_run := run, rd_last_hole := int i, rd_pad_total := rd_pad_total r + 1\<rparr>
      in if run > max_pad_run \<or> rd_pad_total r1 > max_pad_total then (Inl ReadTooManyHoles, r1)
         else let c = \<lparr>ch_begin = b, ch_end = b + sz, ch_data = replicate (nat sz) 0, ch_hole = True\<rparr>
              in (Inr c, store_chunk i c r1))"

fun get_seg :: "fetch \<Rightarrow> nzb_segment list \<Rightarrow> nat \<Rightarrow> reader \<Rightarrow> (read_error + chunk) \<times> reader" where
  "get_seg fetch segs i r =
     (case fetch_seg fetch i r of
        (Inr c, r1) \<Rightarrow> (Inr c, r1)
      | (Inl e, r1) \<Rightarrow>
          if \<not> is_article_missing e then (Inl (ReadFail e), r1)
          else let sz = (if rd_typ r1 \<le> 0 then seg_bytes_enc (segs ! i) else rd_typ r1) in
            (if i = 0 then pad_hole segs i sz 0 r1
             else case get_seg fetch segs (i - 1) r1 of
                    (Inl e2, r2) \<Rightarrow> (Inl e2, r2)
                  | (Inr prev, r2) \<Rightarrow> pad_hole segs i sz (ch_end prev) r2))"

declare get_seg.simps [simp del]

text \<open>The search loop, at most \<open>n + 4\<close> rounds.\<close>

fun search_seg :: "fetch \<Rightarrow> nzb_segment list \<Rightarrow> int \<Rightarrow> nat \<Rightarrow> nat \<Rightarrow> reader \<Rightarrow> (read_error + chunk \<times> nat) \<times> reader" where
  "search_seg fetch segs off 0 guess r = (Inl ReadNotFound, r)"
| "search_seg fetch segs off (Suc rounds) guess r =
     (case get_seg fetch segs guess r of
        (Inl e, r1) \<Rightarrow> (Inl e, r1)
      | (Inr c, r1) \<Rightarrow>
          if off < ch_begin c then
            (if guess = 0 then (Inl ReadEOF, r1) else search_seg fetch segs off rounds (guess - 1) r1)
          else if off \<ge> ch_end c then
            (if Suc guess \<ge> length segs then (Inl ReadEOF, r1) else search_seg fetch segs off rounds (Suc guess) r1)
          else (Inr (c, guess), r1))"

definition seg_for_offset :: "fetch \<Rightarrow> nzb_segment list \<Rightarrow> int \<Rightarrow> reader \<Rightarrow> (read_error + chunk \<times> nat) \<times> reader" where
  "seg_for_offset fetch segs off r =
     (let n = length segs in
      case (if rd_typ r = 0 then (case get_seg fetch segs 0 r of (Inl e, r1) \<Rightarrow> (Some e, r1) | (Inr _, r1) \<Rightarrow> (None, r1))
            else (None, r)) of
        (Some e, r1) \<Rightarrow> (Inl e, r1)
      | (None, r1) \<Rightarrow>
          let t = rd_typ r1; g0 = (if t > 0 then nat (quot off t) else 0);
              guess = (if g0 \<ge> n then n - 1 else g0)
          in search_seg fetch segs off (n + 4) guess r1)"

section \<open>Reading\<close>

text \<open>
  The copy loop of \<open>ReadAt\<close>; every round copies at least a byte, so \<open>len\<close> rounds are enough and the
  fuel is never spent.
\<close>

fun read_loop :: "nat \<Rightarrow> fetch \<Rightarrow> nzb_segment list \<Rightarrow> nat \<Rightarrow> int \<Rightarrow> byte list \<Rightarrow> nat \<Rightarrow> reader
    \<Rightarrow> (byte list \<times> read_error option \<times> nat \<times> reader) option" where
  "read_loop 0 fetch segs len off acc lst r = None"
| "read_loop (Suc fuel) fetch segs len off acc lst r =
     (if length acc \<ge> len then Some (acc, None, lst, r)
      else case seg_for_offset fetch segs (off + int (length acc)) r of
        (Inl e, r1) \<Rightarrow> Some (acc, Some e, lst, r1)
      | (Inr (c, idx), r1) \<Rightarrow>
          read_loop fuel fetch segs len off
            (acc @ take (len - length acc) (drop (nat (off + int (length acc) - ch_begin c)) (ch_data c))) idx r1)"

text \<open>The prefetch: the segments whose fetch was started, among the next sixteen.\<close>

definition prefetch :: "fetch \<Rightarrow> nat \<Rightarrow> nat \<Rightarrow> nat list \<Rightarrow> reader \<Rightarrow> reader" where
  "prefetch fetch n from started r =
     fold (\<lambda>i r. snd (fetch_seg fetch i r))
       (filter (\<lambda>i. from \<le> i \<and> i < from + prefetch_ahead \<and> i < n) started) r"

definition read_at :: "fetch \<Rightarrow> nzb_segment list \<Rightarrow> nat list \<Rightarrow> nat \<Rightarrow> int \<Rightarrow> reader
    \<Rightarrow> (byte list \<times> read_error option) \<times> reader" where
  "read_at fetch segs started len off r =
     (case read_loop (Suc len) fetch segs len off [] 0 r of
        None \<Rightarrow> (([], None), r)
      | Some (bs, Some e, lst, r1) \<Rightarrow> ((bs, Some e), r1)
      | Some (bs, None, lst, r1) \<Rightarrow> ((bs, None), prefetch fetch (length segs) (Suc lst) started r1))"

definition reader_size :: "fetch \<Rightarrow> nzb_segment list \<Rightarrow> reader \<Rightarrow> (read_error + int) \<times> reader" where
  "reader_size fetch segs r =
     (if rd_size r \<ge> 0 then (Inr (rd_size r), r)
      else case get_seg fetch segs (length segs - 1) r of
        (Inl e, r1) \<Rightarrow> (Inl e, r1)
      | (Inr c, r1) \<Rightarrow> (Inr (ch_end c), r1\<lparr>rd_size := ch_end c\<rparr>))"

section \<open>A complete file\<close>

text \<open>
  A file whose articles are all there: segment \<open>i\<close> decodes to \<open>ds ! i\<close>, not empty, and starts where
  the segments before it end.
\<close>

definition seg_start :: "byte list list \<Rightarrow> nat \<Rightarrow> nat" where
  "seg_start ds i = length (concat (take i ds))"

definition parts_complete :: "fetch \<Rightarrow> nzb_segment list \<Rightarrow> byte list list \<Rightarrow> bool" where
  "parts_complete fetch segs ds \<longleftrightarrow> length ds = length segs \<and> ds \<noteq> []
     \<and> (\<forall>i<length ds. ds ! i \<noteq> [] \<and> (\<exists>d. fetch i = Inr d \<and> y_data d = ds ! i \<and> y_begin d = int (seg_start ds i) + 1))"

definition true_chunk :: "byte list list \<Rightarrow> nat \<Rightarrow> chunk" where
  "true_chunk ds i = \<lparr>ch_begin = int (seg_start ds i), ch_end = int (seg_start ds (Suc i)), ch_data = ds ! i, ch_hole = False\<rparr>"

definition cache_ok :: "byte list list \<Rightarrow> reader \<Rightarrow> bool" where
  "cache_ok ds r \<longleftrightarrow> (\<forall>i c. rd_cache r i = Some c \<longrightarrow> i < length ds \<and> c = true_chunk ds i)
     \<and> (rd_typ r = 0 \<and> rd_cache r 0 = None \<or> rd_typ r = int (length (ds ! 0)))
     \<and> (0 \<le> rd_size r \<longrightarrow> rd_size r = int (length (concat ds)))"

lemma new_reader_ok: "cache_ok ds new_reader_at"
  by (simp add: cache_ok_def new_reader_at_def)

lemma seg_start_Suc: "i < length ds \<Longrightarrow> seg_start ds (Suc i) = seg_start ds i + length (ds ! i)"
  by (simp add: seg_start_def take_Suc_conv_app_nth)

lemma seg_start_0 [simp]: "seg_start ds 0 = 0"
  by (simp add: seg_start_def)

lemma seg_start_end: "seg_start ds (length ds) = length (concat ds)"
  by (simp add: seg_start_def)

lemma seg_start_mono: "i \<le> j \<Longrightarrow> seg_start ds i \<le> seg_start ds j"
proof (induction j)
  case (Suc j)
  then show ?case
    by (cases "j < length ds") (auto simp: seg_start_Suc le_Suc_eq, simp add: seg_start_def)
qed simp

lemma concat_at:
  assumes "i < length ds"
  shows "take (length (ds ! i)) (drop (seg_start ds i) (concat ds)) = ds ! i"
proof -
  have "concat ds = concat (take i ds) @ ds ! i @ concat (drop (Suc i) ds)"
    using id_take_nth_drop [OF assms] by (metis concat.simps(2) concat_append)
  then show ?thesis by (simp add: seg_start_def)
qed

text \<open>The segment an offset falls into.\<close>

lemma offset_segment:
  assumes "off < length (concat ds)"
  shows "\<exists>k<length ds. seg_start ds k \<le> off \<and> off < seg_start ds (Suc k)"
  using assms
proof (induction ds rule: rev_induct)
  case (snoc d ds)
  show ?case
  proof (cases "off < length (concat ds)")
    case True
    with snoc.IH obtain k where "k < length ds" "seg_start ds k \<le> off" "off < seg_start ds (Suc k)" by blast
    then show ?thesis by (intro exI [of _ k]) (simp add: seg_start_def)
  next
    case False
    with snoc.prems show ?thesis by (intro exI [of _ "length ds"]) (simp add: seg_start_def)
  qed
qed simp

lemma store_ok:
  assumes "cache_ok ds r" and "i < length ds" and "i = 0 \<Longrightarrow> rd_typ r = int (length (ds ! 0))"
  shows "cache_ok ds (store_chunk i (true_chunk ds i) r)" and "rd_typ (store_chunk i c r) = rd_typ r"
  using assms by (auto simp: cache_ok_def store_chunk_def Let_def)

lemma fetch_seg_complete:
  assumes "parts_complete fetch segs ds" and "cache_ok ds r" and "i < length ds"
  shows "fst (fetch_seg fetch i r) = Inr (true_chunk ds i) \<and> cache_ok ds (snd (fetch_seg fetch i r))
    \<and> (i = 0 \<or> rd_typ r \<noteq> 0 \<longrightarrow> rd_typ (snd (fetch_seg fetch i r)) = int (length (ds ! 0)))"
proof (cases "rd_cache r i")
  case (Some c)
  with assms show ?thesis by (auto simp: fetch_seg_def cache_ok_def)
next
  case None
  obtain d where d: "fetch i = Inr d" "y_data d = ds ! i" "y_begin d = int (seg_start ds i) + 1"
    using assms(1,3) by (auto simp: parts_complete_def)
  then have c: "chunk_of d = true_chunk ds i"
    by (simp add: chunk_of_def true_chunk_def seg_start_Suc [OF assms(3)] Let_def)
  show ?thesis
  proof (cases "i = 0")
    case False
    with None d c show ?thesis using store_ok [OF assms(2,3)] assms(2) by (auto simp: fetch_seg_def cache_ok_def)
  next
    case True
    have swap: "(store_chunk 0 c r)\<lparr>rd_typ := t\<rparr> = store_chunk 0 c (r\<lparr>rd_typ := t\<rparr>)" for c t
      by (simp add: store_chunk_def Let_def)
    have "cache_ok ds (r\<lparr>rd_typ := int (length (ds ! 0))\<rparr>)" using assms(2) by (auto simp: cache_ok_def)
    from store_ok [OF this, of 0] True None d c assms(3) show ?thesis
      by (simp add: fetch_seg_def Let_def swap)
  qed
qed

lemma get_seg_complete:
  assumes "parts_complete fetch segs ds" and "cache_ok ds r" and "i < length ds"
  shows "\<exists>r1. get_seg fetch segs i r = (Inr (true_chunk ds i), r1) \<and> cache_ok ds r1
    \<and> (i = 0 \<or> rd_typ r \<noteq> 0 \<longrightarrow> rd_typ r1 = int (length (ds ! 0)))"
  using fetch_seg_complete [OF assms] by (cases "fetch_seg fetch i r") (auto simp: get_seg.simps)

text \<open>From any first guess the search walks straight to the segment of the offset.\<close>

lemma search_finds:
  assumes "parts_complete fetch segs ds" and "cache_ok ds r" and "guess < length ds" and "k < length ds"
    and "seg_start ds k \<le> off" and "off < seg_start ds (Suc k)"
    and "guess - k + (k - guess) < rounds"
  shows "\<exists>r1. search_seg fetch segs (int off) rounds guess r = (Inr (true_chunk ds k, k), r1) \<and> cache_ok ds r1"
  using assms
proof (induction rounds arbitrary: guess r)
  case (Suc rounds)
  obtain r1 where g: "get_seg fetch segs guess r = (Inr (true_chunk ds guess), r1)" and ok: "cache_ok ds r1"
    using get_seg_complete [OF Suc.prems(1,2,3)] by blast
  have len: "length segs = length ds" using Suc.prems(1) by (simp add: parts_complete_def)
  consider (less) "guess < k" | (eq) "guess = k" | (more) "k < guess" by linarith
  then show ?case
  proof cases
    case less
    then have "seg_start ds (Suc guess) \<le> off" "seg_start ds guess \<le> off"
      using seg_start_mono [of "Suc guess" k ds] seg_start_mono [of guess k ds] Suc.prems(5) by simp_all
    moreover have "Suc guess < length ds" using less Suc.prems(4) by simp
    ultimately have "search_seg fetch segs (int off) (Suc rounds) guess r = search_seg fetch segs (int off) rounds (Suc guess) r1"
      using g by (simp add: true_chunk_def len)
    moreover have "Suc guess - k + (k - Suc guess) < rounds" using less Suc.prems(7) by linarith
    ultimately show ?thesis
      using Suc.IH [OF Suc.prems(1) ok \<open>Suc guess < length ds\<close> Suc.prems(4-6)] by simp
  next
    case eq
    with g ok Suc.prems(5,6) show ?thesis by (auto simp: true_chunk_def)
  next
    case more
    then have "off < seg_start ds guess"
      using seg_start_mono [of "Suc k" guess ds] Suc.prems(6) by simp
    with more have "search_seg fetch segs (int off) (Suc rounds) guess r = search_seg fetch segs (int off) rounds (guess - 1) r1"
      using g by (simp add: true_chunk_def)
    moreover have "guess - 1 - k + (k - (guess - 1)) < rounds" using more Suc.prems(7) by linarith
    moreover have "guess - 1 < length ds" using Suc.prems(3) by simp
    ultimately show ?thesis using Suc.IH [OF Suc.prems(1) ok _ Suc.prems(4-6)] by simp
  qed
qed simp

lemma search_past_end:
  assumes "parts_complete fetch segs ds" and "cache_ok ds r" and "guess < length ds" and "length (concat ds) \<le> off"
    and "length ds - guess \<le> rounds"
  shows "\<exists>r1. search_seg fetch segs (int off) rounds guess r = (Inl ReadEOF, r1) \<and> cache_ok ds r1"
  using assms
proof (induction rounds arbitrary: guess r)
  case (Suc rounds)
  obtain r1 where g: "get_seg fetch segs guess r = (Inr (true_chunk ds guess), r1)" and ok: "cache_ok ds r1"
    using get_seg_complete [OF Suc.prems(1,2,3)] by blast
  have "seg_start ds guess \<le> off" "seg_start ds (Suc guess) \<le> off"
    using seg_start_mono [of guess "length ds" ds] seg_start_mono [of "Suc guess" "length ds" ds] Suc.prems(3,4)
    by (simp_all add: seg_start_end)
  moreover have "length segs = length ds" using Suc.prems(1) by (simp add: parts_complete_def)
  ultimately show ?case
    using g ok Suc.IH [OF Suc.prems(1) ok, of "Suc guess"] Suc.prems(3-5) by (auto simp: true_chunk_def)
qed simp

text \<open>What \<open>segForOffset\<close> answers on a complete file.\<close>

lemma seg_for_offset_complete:
  assumes c: "parts_complete fetch segs ds" and ok: "cache_ok ds r"
  shows "\<exists>res r1. seg_for_offset fetch segs (int off) r = (res, r1) \<and> cache_ok ds r1
    \<and> (if off < length (concat ds)
       then \<exists>k<length ds. seg_start ds k \<le> off \<and> off < seg_start ds (Suc k) \<and> res = Inr (true_chunk ds k, k)
       else res = Inl ReadEOF)"
proof -
  have n: "0 < length ds" "length segs = length ds" using c by (auto simp: parts_complete_def)
  obtain r0 where r0: "(if rd_typ r = 0 then (case get_seg fetch segs 0 r of (Inl e, r1) \<Rightarrow> (Some e, r1) | (Inr _, r1) \<Rightarrow> (None, r1))
            else (None, r)) = (None, r0)" and ok0: "cache_ok ds r0"
    using get_seg_complete [OF c ok n(1)] ok by (cases "rd_typ r = 0") auto
  let ?t = "rd_typ r0"
  define guess where "guess = (let g0 = (if ?t > 0 then nat (quot (int off) ?t) else 0) in if g0 \<ge> length ds then length ds - 1 else g0)"
  have g: "guess < length ds" using n by (simp add: guess_def Let_def)
  have s: "seg_for_offset fetch segs (int off) r = search_seg fetch segs (int off) (length ds + 4) guess r0"
    unfolding seg_for_offset_def Let_def r0 by (simp add: guess_def Let_def n)
  show ?thesis
  proof (cases "off < length (concat ds)")
    case True
    then obtain k where k: "k < length ds" "seg_start ds k \<le> off" "off < seg_start ds (Suc k)"
      using offset_segment by blast
    then have "guess - k + (k - guess) < length ds + 4" using g by linarith
    from search_finds [OF c ok0 g k this] s True k show ?thesis by auto
  next
    case False
    then show ?thesis using search_past_end [OF c ok0 g, of off "length ds + 4"] s by auto
  qed
qed

text \<open>The copy loop returns the bytes from the offset on, and \<open>EOF\<close> when the file ends first.\<close>

lemma read_loop_complete:
  assumes "parts_complete fetch segs ds" and "cache_ok ds r"
    and "acc = take (length acc) (drop off (concat ds))" and "length acc \<le> len" and "len - length acc < fuel"
  shows "\<exists>lst' r1. read_loop fuel fetch segs len (int off) acc lst r =
      Some (take len (drop off (concat ds)), if len = 0 \<or> off + len \<le> length (concat ds) then None else Some ReadEOF, lst', r1)
    \<and> cache_ok ds r1"
  using assms
proof (induction fuel arbitrary: acc lst r)
  case (Suc fuel)
  let ?all = "concat ds" and ?o = "off + length acc"
  have acc_le: "length acc \<le> length (concat ds) - off"
    using Suc.prems(3) by (metis length_drop length_take min.cobounded1)
  show ?case
  proof (cases "length acc \<ge> len")
    case True
    with Suc.prems(3,4) have "acc = take len (drop off ?all)" by simp
    moreover have "len = 0 \<or> off + len \<le> length ?all" using True Suc.prems(4) acc_le by linarith
    ultimately show ?thesis using True Suc.prems(2) by auto
  next
    case False
    obtain res r1 where s: "seg_for_offset fetch segs (int ?o) r = (res, r1)" and ok: "cache_ok ds r1"
      and res: "if ?o < length ?all
         then \<exists>k<length ds. seg_start ds k \<le> ?o \<and> ?o < seg_start ds (Suc k) \<and> res = Inr (true_chunk ds k, k)
         else res = Inl ReadEOF"
      using seg_for_offset_complete [OF Suc.prems(1,2), of ?o] by blast
    show ?thesis
    proof (cases "?o < length ?all")
      case True
      with res obtain k where k: "k < length ds" "seg_start ds k \<le> ?o" "?o < seg_start ds (Suc k)"
        and r: "res = Inr (true_chunk ds k, k)" by auto
      define new where "new = take (len - length acc) (drop (?o - seg_start ds k) (ds ! k))"
      have step: "read_loop (Suc fuel) fetch segs len (int off) acc lst r = read_loop fuel fetch segs len (int off) (acc @ new) k r1"
        using False s r k(2) by (simp add: true_chunk_def new_def nat_diff_distrib' nat_int_add)
      have d: "drop (?o - seg_start ds k) (ds ! k) = take (seg_start ds (Suc k) - ?o) (drop ?o ?all)"
      proof -
        have "drop (?o - seg_start ds k) (ds ! k) = drop (?o - seg_start ds k) (take (length (ds ! k)) (drop (seg_start ds k) ?all))"
          by (simp only: concat_at [OF k(1)])
        then show ?thesis using k by (simp add: drop_take seg_start_Suc add.commute)
      qed
      have new: "new = take (min (len - length acc) (seg_start ds (Suc k) - ?o)) (drop ?o ?all)"
        unfolding new_def d by (simp add: min.commute)
      have "seg_start ds (Suc k) \<le> length ?all"
        using seg_start_mono [of "Suc k" "length ds" ds] k(1) by (simp add: seg_start_end)
      then have len_new: "length new = min (len - length acc) (seg_start ds (Suc k) - ?o)" unfolding new by simp
      then have pos: "0 < length new" using False k(3) by simp
      have acc': "acc @ new = take (length (acc @ new)) (drop off ?all)"
      proof -
        have "take (length acc + length new) (drop off ?all) = take (length acc) (drop off ?all) @ take (length new) (drop ?o ?all)"
          by (simp add: take_add add.commute)
        moreover have "new = take (length new) (drop ?o ?all)" unfolding len_new by (rule new)
        ultimately show ?thesis using Suc.prems(3) by simp
      qed
      have "length (acc @ new) \<le> len" "len - length (acc @ new) < fuel"
        using len_new False Suc.prems(5) pos by auto
      from Suc.IH [OF Suc.prems(1) ok acc' this] show ?thesis unfolding step .
    next
      case False': False
      with acc_le have o: "?o = length ?all \<or> acc = [] \<and> length ?all \<le> off" 
        by (cases "length ?all \<le> off") auto
      have "acc = take len (drop off ?all)"
        using o Suc.prems(3,4) by auto
      moreover have "\<not> (len = 0 \<or> off + len \<le> length ?all)" using False False' by auto
      ultimately show ?thesis using False False' s res ok by simp
    qed
  qed
qed simp

lemma prefetch_complete:
  assumes "parts_complete fetch segs ds" and "cache_ok ds r"
  shows "cache_ok ds (prefetch fetch (length segs) from started r)"
proof -
  have "cache_ok ds (fold (\<lambda>i r. snd (fetch_seg fetch i r)) is r)" if "\<forall>i\<in>set is. i < length ds" for "is"
    using that assms(2)
  proof (induction "is" arbitrary: r)
    case (Cons i "is")
    then show ?case using fetch_seg_complete [OF assms(1) Cons.prems(2), of i] by simp
  qed simp
  then show ?thesis using assms(1) by (simp add: prefetch_def parts_complete_def)
qed

text \<open>The same read on any consistent cache.\<close>

lemma read_at_complete:
  assumes "parts_complete fetch segs ds" and "cache_ok ds r"
  shows "fst (read_at fetch segs started len (int off) r) = (take len (drop off (concat ds)),
      if len = 0 \<or> off + len \<le> length (concat ds) then None else Some ReadEOF)
    \<and> cache_ok ds (snd (read_at fetch segs started len (int off) r))"
proof -
  obtain lst r1 where "read_loop (Suc len) fetch segs len (int off) [] 0 r =
      Some (take len (drop off (concat ds)), if len = 0 \<or> off + len \<le> length (concat ds) then None else Some ReadEOF, lst, r1)"
    and "cache_ok ds r1"
    using read_loop_complete [OF assms, of "[]" off len "Suc len" 0] by auto
  then show ?thesis using prefetch_complete [OF assms(1)] by (auto simp: read_at_def)
qed

lemma reader_size_complete:
  assumes "parts_complete fetch segs ds" and "cache_ok ds r"
  shows "fst (reader_size fetch segs r) = Inr (int (length (concat ds))) \<and> cache_ok ds (snd (reader_size fetch segs r))"
proof (cases "rd_size r \<ge> 0")
  case True
  then show ?thesis using assms(2) by (auto simp: reader_size_def cache_ok_def)
next
  case False
  have "ds \<noteq> []" and len: "length segs = length ds" using assms(1) by (auto simp: parts_complete_def)
  then have n: "length ds - 1 < length ds" "length segs = length ds" by simp_all
  obtain r1 where "get_seg fetch segs (length ds - 1) r = (Inr (true_chunk ds (length ds - 1)), r1)" "cache_ok ds r1"
    using get_seg_complete [OF assms n(1)] by blast
  moreover have "ch_end (true_chunk ds (length ds - 1)) = int (length (concat ds))"
    using \<open>ds \<noteq> []\<close> seg_start_end [of ds] by (simp add: true_chunk_def)
  ultimately show ?thesis using False n(2) by (auto simp: reader_size_def cache_ok_def)
qed

section \<open>Properties\<close>

text \<open>A session: reads at any offsets, each with its own background prefetches.\<close>

fun read_session :: "fetch \<Rightarrow> nzb_segment list \<Rightarrow> (nat \<times> nat \<times> nat list) list \<Rightarrow> reader
    \<Rightarrow> (byte list \<times> read_error option) list" where
  "read_session fetch segs [] r = []"
| "read_session fetch segs ((len, off, started) # qs) r =
     (case read_at fetch segs started len (int off) r of (res, r1) \<Rightarrow> res # read_session fetch segs qs r1)"

text \<open>
  C9: reading a complete file is exact: in any sequence of reads at any offsets, whatever the cache
  has evicted and the prefetch has fetched in between, every read returns precisely the file's bytes
  at its offset, and \<open>EOF\<close> only when the file ends before the buffer is full.
\<close>

theorem usenet_reads_exact:
  assumes "parts_complete fetch segs ds"
  shows "read_session fetch segs qs new_reader_at = map (\<lambda>(len, off, started). (take len (drop off (concat ds)),
     if len = 0 \<or> off + len \<le> length (concat ds) then None else Some ReadEOF)) qs"
proof -
  have "read_session fetch segs qs r = map (\<lambda>(len, off, started). (take len (drop off (concat ds)),
     if len = 0 \<or> off + len \<le> length (concat ds) then None else Some ReadEOF)) qs" if "cache_ok ds r" for r
    using that
  proof (induction qs arbitrary: r)
    case (Cons q qs)
    obtain len off started where q: "q = (len, off, started)" by (cases q)
    obtain res r1 where ra: "read_at fetch segs started len (int off) r = (res, r1)" by fastforce
    from read_at_complete [OF assms Cons.prems, of started len off] ra Cons.IH [of r1]
    show ?case by (auto simp: q)
  qed simp
  then show ?thesis using new_reader_ok by blast
qed

definition two_articles :: fetch where
  "two_articles i = (if i = 0 then Inr (empty_yenc\<lparr>y_data := [1, 2, 3], y_begin := 1\<rparr>)
     else if i = 1 then Inr (empty_yenc\<lparr>y_data := [4, 5], y_begin := 4\<rparr>) else Inl ''430 no such article'')"

definition two_segments :: "nzb_segment list" where
  "two_segments = [\<lparr>seg_bytes_enc = 9, message_id = ''a''\<rparr>, \<lparr>seg_bytes_enc = 8, message_id = ''b''\<rparr>]"

lemma two_complete: "parts_complete two_articles two_segments [[1, 2, 3], [4, 5]]"
  by (auto simp: parts_complete_def two_articles_def two_segments_def seg_start_def less_Suc_eq empty_yenc_def)

theorem usenet_reads_exact_witness:
  "read_session two_articles two_segments [(2, 2, []), (9, 3, [1])] new_reader_at
     = [([3, 4], None), ([4, 5], Some ReadEOF)]"
  using usenet_reads_exact [OF two_complete, of "[(2, 2, []), (9, 3, [1])]"] by simp

text \<open>The segments made up for missing articles stay within the limit as long as reads succeed.\<close>

lemma holes_bounded:
  assumes "get_seg fetch segs i r = (Inr c, r1)" and "rd_pad_total r \<le> max_pad_total"
  shows "rd_pad_total r1 \<le> max_pad_total"
proof -
  have "rd_pad_total (snd (get_seg fetch segs i r)) \<le> max_pad_total" if "fst (get_seg fetch segs i r) = Inr c" "rd_pad_total r \<le> max_pad_total" for c
    using that
  proof (induction i arbitrary: r c rule: less_induct)
    case (less i)
    have fs: "rd_pad_total (snd (fetch_seg fetch i r)) = rd_pad_total r"
      by (auto simp: fetch_seg_def store_chunk_def Let_def split: option.splits sum.splits)
    have ph: "rd_pad_total (snd (pad_hole segs i sz b r')) \<le> max_pad_total" if "fst (pad_hole segs i sz b r') = Inr c'" for sz b r' c'
      using that by (auto simp: pad_hole_def store_chunk_def Let_def split: if_splits)
    show ?case
      using less.prems less.IH [of "i - 1"] fs ph
      by (subst get_seg.simps) (subst (asm) get_seg.simps, auto simp: Let_def split: prod.splits sum.splits if_splits)
  qed
  from this [of c] assms show ?thesis by simp
qed

end
