(* ===== verification/Usenet_Download.thy ===== *)
theory Usenet_Download
  imports Reader_At Eviction Blob_Store
begin

text \<open>
  The bulk downloader of \<open>shared/usenet/download/download.go\<close> and the releases of \<open>shared/usenet/nzb\<close>.
  A pass fetches the segments of a file by concurrent goroutines, each of which ends with one write at its
  own offset: a pass is given as the order in which they end, with what the network and the context do for
  each of them. Articles are decoded by \<open>decode\<close>.
\<close>

section \<open>Releases\<close>

record nzb_file =
  nf_subject :: string
  nf_filename :: string
  nf_groups :: "string list"
  nf_segments :: "nzb_segment list"

record nzb =
  nz_files :: "nzb_file list"
  nz_meta :: "string \<rightharpoonup> string"

definition nzb_file_size :: "nzb_file \<Rightarrow> int" where
  "nzb_file_size f = sum_list (map seg_bytes_enc (nf_segments f))"

definition total_size :: "nzb \<Rightarrow> int" where
  "total_size n = sum_list (map nzb_file_size (nz_files n))"

definition nzb_name :: "nzb \<Rightarrow> string" where
  "nzb_name n = (case nz_meta n ''name'' of Some s \<Rightarrow> s
     | None \<Rightarrow> (case nz_meta n ''title'' of Some s \<Rightarrow> s | None \<Rightarrow> []))"

definition nzb_file_name :: "nzb_file \<Rightarrow> string" where
  "nzb_file_name f = (if nf_filename f \<noteq> [] then nf_filename f else nf_subject f)"

definition is_optional :: "string \<Rightarrow> bool" where
  "is_optional name = (let l = to_lower name in
     has_suffix l ''.nfo'' \<or> has_suffix l ''.sfv'' \<or> has_suffix l ''.txt'' \<or> has_suffix l ''.jpg'' \<or> has_suffix l ''.png'')"

definition group_of :: "nzb_file \<Rightarrow> string" where
  "group_of f = (case nf_groups f of [] \<Rightarrow> [] | g # _ \<Rightarrow> g)"

section \<open>Fetching one segment\<close>

text \<open>
  One attempt on a provider: getting a connection, entering the group, asking for the body (the error of the
  command, or the error or the bytes of reading it).
\<close>

record attempt =
  at_conn :: "string option"
  at_group :: "string option"
  at_body :: "string + string + byte list"

definition seg_attempts :: nat where "seg_attempts = 3"

definition ctx_error :: string where "ctx_error = ''context canceled''"

definition interrupted :: string where "interrupted = ''download interrupted, please retry''"

text \<open>\<open>stop a\<close>: the context is cancelled before attempt \<open>a\<close>. The list holds the attempts left.\<close>

fun try_pool :: "(nat \<Rightarrow> bool) \<Rightarrow> (nat \<Rightarrow> attempt) \<Rightarrow> string \<Rightarrow> string \<Rightarrow> nat list \<Rightarrow> string \<Rightarrow> string + byte list" where
  "try_pool stop net grp msg [] er =
     Inl (''segment '' @ msg @ '' after '' @ show_nat seg_attempts @ '' attempts: '' @ er @ '': '' @ interrupted)"
| "try_pool stop net grp msg (a # as) er =
     (if stop a then Inl ctx_error
      else case at_conn (net a) of Some e \<Rightarrow> try_pool stop net grp msg as e
      | None \<Rightarrow> (case (if grp = [] then None else at_group (net a)) of
          Some e \<Rightarrow> try_pool stop net grp msg as e
        | None \<Rightarrow> (case at_body (net a) of
            Inl e \<Rightarrow> if is_article_missing e then Inl e else try_pool stop net grp msg as e
          | Inr (Inl e) \<Rightarrow> try_pool stop net grp msg as e
          | Inr (Inr bs) \<Rightarrow> Inr bs)))"

definition fetch_from_pool :: "(nat \<Rightarrow> bool) \<Rightarrow> (nat \<Rightarrow> attempt) \<Rightarrow> string \<Rightarrow> string \<Rightarrow> string + byte list" where
  "fetch_from_pool stop net grp msg = try_pool stop net grp msg [0..<seg_attempts] ''<nil>''"

text \<open>The providers in turn; the error is that of the last one. \<open>halt p\<close>: cancelled before provider \<open>p\<close>.\<close>

fun fetch_pools :: "(nat \<Rightarrow> bool) \<Rightarrow> (nat \<Rightarrow> nat \<Rightarrow> bool) \<Rightarrow> (nat \<Rightarrow> nat \<Rightarrow> attempt) \<Rightarrow> string \<Rightarrow> string \<Rightarrow> nat list \<Rightarrow> string \<Rightarrow> string + byte list" where
  "fetch_pools halt stop net grp msg [] er = Inl er"
| "fetch_pools halt stop net grp msg (p # ps) er =
     (if halt p then Inl ctx_error
      else case fetch_from_pool (stop p) (net p) grp msg of
        Inr bs \<Rightarrow> Inr bs
      | Inl e \<Rightarrow> fetch_pools halt stop net grp msg ps e)"

definition fetch_segment :: "nat \<Rightarrow> (nat \<Rightarrow> bool) \<Rightarrow> (nat \<Rightarrow> nat \<Rightarrow> bool) \<Rightarrow> (nat \<Rightarrow> nat \<Rightarrow> attempt) \<Rightarrow> string \<Rightarrow> string \<Rightarrow> string + byte list" where
  "fetch_segment pools halt stop net grp msg = fetch_pools halt stop net grp msg [0..<pools] interrupted"

section \<open>One pass over the segments\<close>

text \<open>The file being written: its bytes and the position of its descriptor, which only \<open>Write\<close> moves.\<close>

record part_file =
  pf_bytes :: "byte list"
  pf_pos :: nat

definition write_bytes_at :: "byte list \<Rightarrow> nat \<Rightarrow> byte list \<Rightarrow> byte list" where
  "write_bytes_at bs off d =
     (if d = [] then bs else take off (bs @ replicate (off - length bs) 0) @ d @ drop (off + length d) bs)"

text \<open>A failing write is not noticed: \<open>ok\<close> is whether it succeeds.\<close>

definition write_segment :: "bool \<Rightarrow> yenc_result \<Rightarrow> part_file \<Rightarrow> part_file" where
  "write_segment ok d f =
     (if \<not> ok then f
      else if 0 < y_begin d then f\<lparr>pf_bytes := write_bytes_at (pf_bytes f) (nat (y_begin d - 1)) (y_data d)\<rparr>
      else \<lparr>pf_bytes = write_bytes_at (pf_bytes f) (pf_pos f) (y_data d), pf_pos = pf_pos f + length (y_data d)\<rparr>)"

text \<open>
  What one goroutine meets: the context when it starts, before each provider and attempt, and when it looks at
  an error; the limiter's error, if it reports one for the article; whether its write succeeds.
\<close>

record seg_world =
  sw_start :: bool
  sw_halt :: "nat \<Rightarrow> bool"
  sw_stop :: "nat \<Rightarrow> nat \<Rightarrow> bool"
  sw_net :: "nat \<Rightarrow> nat \<Rightarrow> string \<Rightarrow> attempt"
  sw_limit :: "string option"
  sw_write :: bool
  sw_late :: bool

record pass_state =
  pa_file :: part_file
  pa_done :: int
  pa_missing :: int
  pa_failed :: "nzb_segment list"
  pa_fatal :: "string option"

definition set_fatal :: "string \<Rightarrow> pass_state \<Rightarrow> pass_state" where
  "set_fatal e s = (if pa_fatal s = None then s\<lparr>pa_fatal := Some e\<rparr> else s)"

definition bump :: "nzb_segment \<Rightarrow> pass_state \<Rightarrow> pass_state" where
  "bump seg s = s\<lparr>pa_done := pa_done s + seg_bytes_enc seg\<rparr>"

definition seg_failed :: "seg_world \<Rightarrow> nzb_segment \<Rightarrow> string \<Rightarrow> pass_state \<Rightarrow> pass_state" where
  "seg_failed w seg e s =
     (if sw_late w then set_fatal ctx_error s
      else if is_article_missing e then bump seg (s\<lparr>pa_missing := pa_missing s + seg_bytes_enc seg\<rparr>)
      else s\<lparr>pa_failed := pa_failed s @ [seg]\<rparr>)"

text \<open>The part and the two checksums in the text are left out: no \<open>430\<close> with a blank can come from them.\<close>

definition yenc_error_text :: "yenc_error \<Rightarrow> string" where
  "yenc_error_text e = (case e of NoYencData \<Rightarrow> ''no yenc data found''
     | ErrChecksumMismatch \<Rightarrow> ''yenc: checksum mismatch'')"

definition run_segment :: "nat \<Rightarrow> string \<Rightarrow> seg_world \<Rightarrow> nzb_segment \<Rightarrow> pass_state \<Rightarrow> pass_state" where
  "run_segment pools grp w seg s =
     (if sw_start w then s
      else case fetch_segment pools (sw_halt w) (sw_stop w) (\<lambda>p a. sw_net w p a (message_id seg)) grp (message_id seg) of
        Inl e \<Rightarrow> seg_failed w seg e s
      | Inr raw \<Rightarrow>
          (case sw_limit w of Some e \<Rightarrow> set_fatal e s
           | None \<Rightarrow> (case decode raw of
               Inl e \<Rightarrow> seg_failed w seg (yenc_error_text e) s
             | Inr d \<Rightarrow> bump seg (s\<lparr>pa_file := write_segment (sw_write w) d (pa_file s)\<rparr>))))"

text \<open>The goroutines of a pass in the order they end; \<open>None\<close> in place of the segments to retry is an error.\<close>

definition fetch_pass :: "nat \<Rightarrow> string \<Rightarrow> nat list \<Rightarrow> (nat \<Rightarrow> seg_world) \<Rightarrow> nzb_segment list \<Rightarrow> part_file \<Rightarrow> int
    \<Rightarrow> (string + nzb_segment list \<times> int) \<times> part_file \<times> int" where
  "fetch_pass pools grp order w segs f done0 =
     (let s = fold (\<lambda>i. run_segment pools grp (w i) (segs ! i)) order
        \<lparr>pa_file = f, pa_done = done0, pa_missing = 0, pa_failed = [], pa_fatal = None\<rparr>
      in ((case pa_fatal s of Some e \<Rightarrow> Inl e | None \<Rightarrow> Inr (pa_failed s, pa_missing s)), pa_file s, pa_done s))"

section \<open>Files and releases\<close>

definition retry_rounds :: nat where "retry_rounds = 2"

text \<open>What a file meets: per round, the order of its goroutines for a number of segments, their worlds, and the context in the wait after it.\<close>

record file_world =
  fw_order :: "nat \<Rightarrow> nat \<Rightarrow> nat list"
  fw_seg :: "nat \<Rightarrow> nat \<Rightarrow> seg_world"
  fw_stop :: "nat \<Rightarrow> bool"

text \<open>The rounds from \<open>r\<close> on, \<open>left\<close> of them after this one.\<close>

fun download_rounds :: "nat \<Rightarrow> string \<Rightarrow> file_world \<Rightarrow> nat \<Rightarrow> nat \<Rightarrow> nzb_segment list \<Rightarrow> int \<Rightarrow> part_file \<Rightarrow> int
    \<Rightarrow> (string + int) \<times> part_file \<times> int" where
  "download_rounds pools grp w left r pending missing f dn =
     (case fetch_pass pools grp (fw_order w r (length pending)) (fw_seg w r) pending f dn of
        (Inl e, f1, dn1) \<Rightarrow> (Inl e, f1, dn1)
      | (Inr (again, perm), f1, dn1) \<Rightarrow>
          if again = [] then (Inr (missing + perm), f1, dn1)
          else (case left of
              0 \<Rightarrow> (Inr (missing + perm + sum_list (map seg_bytes_enc again)), f1, dn1 + sum_list (map seg_bytes_enc again))
            | Suc l \<Rightarrow>
                if fw_stop w r then (Inl ctx_error, f1, dn1)
                else download_rounds pools grp w l (Suc r) again (missing + perm) f1 dn1))"

declare download_rounds.simps [simp del]

definition download_file :: "nat \<Rightarrow> string \<Rightarrow> file_world \<Rightarrow> nzb_file \<Rightarrow> int \<Rightarrow> (string + int) \<times> part_file \<times> int" where
  "download_file pools grp w nf dn =
     download_rounds pools grp w retry_rounds 0 (nf_segments nf) 0 \<lparr>pf_bytes = [], pf_pos = 0\<rparr> dn"

record dl_result =
  dr_name :: string
  dr_size :: int

type_synonym dl_disk = "string \<rightharpoonup> byte list"

text \<open>
  The calls on the disk of each file: creating its part file, renaming it, reading its size. The directory is
  flat: a name is the last element of the release's name.
\<close>

record rel_world =
  rw_file :: "nat \<Rightarrow> file_world"
  rw_create :: "nat \<Rightarrow> string option"
  rw_rename :: "nat \<Rightarrow> string option"
  rw_stat :: "nat \<Rightarrow> bool"

fun download_files :: "nat \<Rightarrow> rel_world \<Rightarrow> nat \<Rightarrow> nzb_file list \<Rightarrow> int \<Rightarrow> int \<Rightarrow> dl_result list \<Rightarrow> dl_disk
    \<Rightarrow> (string + dl_result list \<times> int) \<times> int \<times> dl_disk" where
  "download_files pools w i [] dn missing res d = (Inr (res, missing), dn, d)"
| "download_files pools w i (nf # nfs) dn missing res d =
     (let name = path_base (nzb_file_name nf); part = name @ ''.part'' in
      if is_optional name then download_files pools w (Suc i) nfs dn missing res d
      else case rw_create w i of Some e \<Rightarrow> (Inl e, dn, d)
      | None \<Rightarrow> (case download_file pools (group_of nf) (rw_file w i) nf dn of
          (Inl e, f, dn1) \<Rightarrow> (Inl e, dn1, d(part := None))
        | (Inr m, f, dn1) \<Rightarrow>
            (case rw_rename w i of Some e \<Rightarrow> (Inl e, dn1, d(part \<mapsto> pf_bytes f))
             | None \<Rightarrow> download_files pools w (Suc i) nfs dn1 (missing + m)
                 (res @ [\<lparr>dr_name = name, dr_size = (if rw_stat w i then int (length (pf_bytes f)) else 0)\<rparr>])
                 (d(part := None, name \<mapsto> pf_bytes f)))))"

definition download_release :: "nat \<Rightarrow> rel_world \<Rightarrow> nzb \<Rightarrow> dl_disk \<Rightarrow> (string + dl_result list \<times> int) \<times> int \<times> dl_disk" where
  "download_release pools w n d = download_files pools w 0 (nz_files n) 0 0 [] d"


section \<open>Partial images\<close>

text \<open>
  The truth: the offset and the bytes of each article. A provider may fail in any way, but an article that
  decodes is the one that was posted.
\<close>

type_synonym truth = "string \<Rightarrow> nat \<times> byte list"

definition truthful :: "truth \<Rightarrow> seg_world \<Rightarrow> bool" where
  "truthful T w \<longleftrightarrow> (\<forall>p a m bs r. at_body (sw_net w p a m) = Inr (Inr bs) \<longrightarrow> decode bs = Inr r
     \<longrightarrow> y_begin r = int (fst (T m)) + 1 \<and> y_data r = snd (T m))"

text \<open>
  The goroutines of a round end in some order and the articles are the posted ones; a run is undisturbed if
  moreover no goroutine finds the context cancelled when it starts and no write to the part file fails (the
  code notices neither).
\<close>

definition truthful_run :: "truth \<Rightarrow> file_world \<Rightarrow> bool" where
  "truthful_run T w \<longleftrightarrow> (\<forall>r n. mset (fw_order w r n) = mset [0..<n]) \<and> (\<forall>r i. truthful T (fw_seg w r i))"

definition undisturbed :: "file_world \<Rightarrow> bool" where
  "undisturbed w \<longleftrightarrow> (\<forall>r i. \<not> sw_start (fw_seg w r i) \<and> sw_write (fw_seg w r i))"

definition fair :: "truth \<Rightarrow> file_world \<Rightarrow> bool" where
  "fair T w \<longleftrightarrow> truthful_run T w \<and> undisturbed w"

definition seg_covers :: "truth \<Rightarrow> nzb_segment \<Rightarrow> nat \<Rightarrow> bool" where
  "seg_covers T seg k \<longleftrightarrow> fst (T (message_id seg)) \<le> k \<and> k < fst (T (message_id seg)) + length (snd (T (message_id seg)))"

definition part_of :: "truth \<Rightarrow> byte list \<Rightarrow> nzb_segment \<Rightarrow> bool" where
  "part_of T whole seg \<longleftrightarrow>
     fst (T (message_id seg)) + length (snd (T (message_id seg))) \<le> length whole
     \<and> snd (T (message_id seg)) = take (length (snd (T (message_id seg)))) (drop (fst (T (message_id seg))) whole)"

definition segs_laid_out :: "truth \<Rightarrow> nzb_file \<Rightarrow> byte list \<Rightarrow> bool" where
  "segs_laid_out T nf whole \<longleftrightarrow> (\<forall>seg\<in>set (nf_segments nf). part_of T whole seg \<and> 0 < seg_bytes_enc seg)
     \<and> (\<forall>k<length whole. \<exists>seg\<in>set (nf_segments nf). seg_covers T seg k)"

text \<open>The bytes with the articles of \<open>W\<close> in place and zeros elsewhere.\<close>

definition partial :: "truth \<Rightarrow> byte list \<Rightarrow> nzb_segment set \<Rightarrow> byte list \<Rightarrow> bool" where
  "partial T whole W bs \<longleftrightarrow> length bs \<le> length whole
     \<and> (\<forall>seg\<in>W. \<forall>k. seg_covers T seg k \<longrightarrow> k < length bs)
     \<and> (\<forall>k<length bs. bs ! k = (if \<exists>seg\<in>W. seg_covers T seg k then whole ! k else 0))"

lemma partial_empty: "partial T whole {} []"
  by (simp add: partial_def)

lemma length_write_bytes_at: "length (write_bytes_at bs off d) = (if d = [] then length bs else max (length bs) (off + length d))"
  by (auto simp: write_bytes_at_def)

lemma nth_write_bytes_at:
  assumes "d \<noteq> []" "k < max (length bs) (off + length d)"
  shows "write_bytes_at bs off d ! k = (if k < off then (if k < length bs then bs ! k else 0)
    else if k < off + length d then d ! (k - off) else bs ! k)"
proof -
  let ?p = "take off (bs @ replicate (off - length bs) 0)"
  have len: "length ?p = off" by simp
  have "write_bytes_at bs off d ! k = (?p @ d @ drop (off + length d) bs) ! k" using assms(1) by (simp add: write_bytes_at_def)
  also have "\<dots> = (if k < off then ?p ! k else if k < off + length d then d ! (k - off) else bs ! k)"
    unfolding nth_append len using assms(2) by auto
  finally show ?thesis by (simp add: nth_append)
qed

lemma partial_write:
  assumes "partial T whole W bs" "part_of T whole seg"
  shows "partial T whole (insert seg W) (write_bytes_at bs (fst (T (message_id seg))) (snd (T (message_id seg))))"
proof -
  define off d where od: "off = fst (T (message_id seg))" "d = snd (T (message_id seg))"
  have fit: "off + length d \<le> length whole" and slice: "d = take (length d) (drop off whole)"
    using assms(2) by (simp_all add: part_of_def od)
  have cov: "seg_covers T seg k \<longleftrightarrow> off \<le> k \<and> k < off + length d" for k by (simp add: seg_covers_def od)
  have byte: "d ! (k - off) = whole ! k" if "off \<le> k" "k < off + length d" for k
  proof -
    have "d ! (k - off) = take (length d) (drop off whole) ! (k - off)" using slice by simp
    also have "\<dots> = whole ! k" using that fit by (simp add: nth_drop)
    finally show ?thesis .
  qed
  show ?thesis
  proof (cases "d = []")
    case True
    then have "\<not> seg_covers T seg k" for k using cov by simp
    then show ?thesis using assms(1) True by (simp add: partial_def write_bytes_at_def od)
  next
    case False
    have len: "length (write_bytes_at bs off d) = max (length bs) (off + length d)"
      using False by (simp add: length_write_bytes_at)
    have W: "\<forall>s\<in>W. \<forall>k. seg_covers T s k \<longrightarrow> k < length bs"
      and old: "\<forall>k<length bs. bs ! k = (if \<exists>s\<in>W. seg_covers T s k then whole ! k else 0)"
      and short: "length bs \<le> length whole"
      using assms(1) by (simp_all add: partial_def)
    have "write_bytes_at bs off d ! k = (if \<exists>s\<in>insert seg W. seg_covers T s k then whole ! k else 0)"
      if k: "k < max (length bs) (off + length d)" for k
    proof (cases "off \<le> k \<and> k < off + length d")
      case True
      then show ?thesis using nth_write_bytes_at [OF False k] byte cov by auto
    next
      case out: False
      then show ?thesis
        using nth_write_bytes_at [OF False k] old W cov k by (cases "k < length bs") (auto simp: not_less dest: leD)
    qed
    then show ?thesis
      unfolding partial_def od [symmetric] len using W cov fit short by (auto simp: less_max_iff_disj)
  qed
qed

lemma partial_whole:
  assumes "segs_laid_out T nf whole" "partial T whole (set (nf_segments nf)) bs"
  shows "bs = whole"
proof (rule nth_equalityI)
  have "k < length bs" if "k < length whole" for k
    using assms that by (auto simp: segs_laid_out_def partial_def)
  then show len: "length bs = length whole" using assms(2) by (meson linorder_not_less nat_less_le order_antisym partial_def)
  show "bs ! k = whole ! k" if "k < length bs" for k
    using that assms len by (auto simp: segs_laid_out_def partial_def)
qed

section \<open>What a pass has done\<close>

text \<open>\<open>W\<close> written, \<open>G\<close> gone for good, the rest to retry.\<close>

definition pass_inv :: "truth \<Rightarrow> byte list \<Rightarrow> nzb_segment set \<Rightarrow> int \<Rightarrow> nzb_segment list \<Rightarrow> pass_state \<Rightarrow> bool" where
  "pass_inv T whole W0 dn segs s \<longleftrightarrow> (\<exists>W G. mset segs = mset W + mset G + mset (pa_failed s)
     \<and> pa_missing s = sum_list (map seg_bytes_enc G)
     \<and> pa_done s = dn + sum_list (map seg_bytes_enc W) + sum_list (map seg_bytes_enc G)
     \<and> partial T whole (W0 \<union> set W) (pf_bytes (pa_file s)))"

lemma set_fatal_none [simp]: "pa_fatal (set_fatal e s) \<noteq> None"
  by (auto simp: set_fatal_def)

lemma run_segment_fatal: "pa_fatal s \<noteq> None \<Longrightarrow> pa_fatal (run_segment pools grp w seg s) \<noteq> None"
  by (auto simp: run_segment_def seg_failed_def bump_def set_fatal_def split: sum.splits option.splits)

lemma fold_segments_fatal: "pa_fatal s \<noteq> None \<Longrightarrow> pa_fatal (fold (\<lambda>i. run_segment pools grp (w i) (segs ! i)) order s) \<noteq> None"
  by (induction order arbitrary: s) (use run_segment_fatal in auto)

lemma pass_gone: "pass_inv T whole W0 dn segs s
    \<Longrightarrow> pass_inv T whole W0 dn (segs @ [seg]) (bump seg (s\<lparr>pa_missing := pa_missing s + seg_bytes_enc seg\<rparr>))"
  unfolding pass_inv_def by (elim exE, rename_tac W G, rule_tac x = W in exI, rule_tac x = "G @ [seg]" in exI) (simp add: bump_def)

lemma pass_retry: "pass_inv T whole W0 dn segs s \<Longrightarrow> pass_inv T whole W0 dn (segs @ [seg]) (s\<lparr>pa_failed := pa_failed s @ [seg]\<rparr>)"
  unfolding pass_inv_def by (elim exE, rename_tac W G, rule_tac x = W in exI, rule_tac x = G in exI) simp

lemma pass_written:
  assumes "pass_inv T whole W0 dn segs s" "part_of T whole seg"
  shows "pass_inv T whole W0 dn (segs @ [seg]) (bump seg (s\<lparr>pa_file := (pa_file s)
    \<lparr>pf_bytes := write_bytes_at (pf_bytes (pa_file s)) (fst (T (message_id seg))) (snd (T (message_id seg)))\<rparr>\<rparr>))"
proof -
  obtain W G where "mset segs = mset W + mset G + mset (pa_failed s)" "pa_missing s = sum_list (map seg_bytes_enc G)"
    "pa_done s = dn + sum_list (map seg_bytes_enc W) + sum_list (map seg_bytes_enc G)"
    "partial T whole (W0 \<union> set W) (pf_bytes (pa_file s))"
    using assms(1) by (auto simp: pass_inv_def)
  with partial_write [OF this(4) assms(2)] show ?thesis
    unfolding pass_inv_def by (intro exI [of _ "W @ [seg]"] exI [of _ G]) (simp add: bump_def)
qed

lemma try_pool_delivers: "try_pool stop net grp msg as er = Inr bs \<Longrightarrow> \<exists>a. at_body (net a) = Inr (Inr bs)"
  by (induction as arbitrary: er) (auto split: if_splits option.splits sum.splits)

lemma fetch_pools_delivers: "fetch_pools halt stop net grp msg ps er = Inr bs \<Longrightarrow> \<exists>p a. at_body (net p a) = Inr (Inr bs)"
proof (induction ps arbitrary: er)
  case (Cons p ps)
  then show ?case
    by (auto simp: fetch_from_pool_def split: if_splits sum.splits) (use try_pool_delivers in blast)
qed simp

lemma run_segment_inv:
  assumes "pass_inv T whole W0 dn segs s" "part_of T whole seg" "\<not> sw_start w" "sw_write w" "truthful T w"
    and "pa_fatal (run_segment pools grp w seg s) = None"
  shows "pass_inv T whole W0 dn (segs @ [seg]) (run_segment pools grp w seg s)"
proof -
  have failed: "pass_inv T whole W0 dn (segs @ [seg]) (seg_failed w seg e s)" if "pa_fatal (seg_failed w seg e s) = None" for e
    using that pass_gone [OF assms(1)] pass_retry [OF assms(1)] by (auto simp: seg_failed_def split: if_splits)
  show ?thesis
  proof (cases "fetch_segment pools (sw_halt w) (sw_stop w) (\<lambda>p a. sw_net w p a (message_id seg)) grp (message_id seg)")
    case (Inl e)
    then show ?thesis using assms(3,6) failed by (simp add: run_segment_def)
  next
    case (Inr raw)
    then obtain p a where at: "at_body (sw_net w p a (message_id seg)) = Inr (Inr raw)"
      by (auto simp: fetch_segment_def dest: fetch_pools_delivers)
    show ?thesis
    proof (cases "decode raw")
      case (Inl e)
      then show ?thesis using Inr assms(3,6) failed by (auto simp: run_segment_def split: option.splits)
    next
      case (Inr r)
      have r: "y_begin r = int (fst (T (message_id seg))) + 1" "y_data r = snd (T (message_id seg))"
        using assms(5) at Inr by (auto simp: truthful_def)
      then have "run_segment pools grp w seg s = bump seg (s\<lparr>pa_file := (pa_file s)
          \<lparr>pf_bytes := write_bytes_at (pf_bytes (pa_file s)) (fst (T (message_id seg))) (snd (T (message_id seg)))\<rparr>\<rparr>)"
        using \<open>fetch_segment _ _ _ _ _ _ = _\<close> Inr assms(3,4,6)
        by (auto simp: run_segment_def write_segment_def split: option.splits)
      then show ?thesis using pass_written [OF assms(1,2)] by simp
    qed
  qed
qed

lemma fold_segments_inv:
  assumes "pass_inv T whole W0 dn segs0 s" "\<forall>i\<in>set order. part_of T whole (segs ! i)"
    and "\<forall>i. \<not> sw_start (w i) \<and> sw_write (w i) \<and> truthful T (w i)"
    and "pa_fatal (fold (\<lambda>i. run_segment pools grp (w i) (segs ! i)) order s) = None"
  shows "pass_inv T whole W0 dn (segs0 @ map ((!) segs) order) (fold (\<lambda>i. run_segment pools grp (w i) (segs ! i)) order s)"
  using assms
proof (induction order arbitrary: s segs0)
  case (Cons i order)
  let ?s = "run_segment pools grp (w i) (segs ! i) s"
  have ok: "pa_fatal ?s = None" using Cons.prems(4) fold_segments_fatal [of ?s pools grp w segs order] by (cases "pa_fatal ?s") auto
  have "pass_inv T whole W0 dn (segs0 @ [segs ! i]) ?s"
    using Cons.prems ok by (intro run_segment_inv) auto
  from Cons.IH [OF this] Cons.prems show ?case by simp
qed simp

lemma fetch_pass_inv:
  assumes "fetch_pass pools grp order w segs f dn = (Inr (again, perm), f1, dn1)" "mset order = mset [0..<length segs]"
    and "\<forall>seg\<in>set segs. part_of T whole seg" "\<forall>i. \<not> sw_start (w i) \<and> sw_write (w i) \<and> truthful T (w i)"
    and "partial T whole W0 (pf_bytes f)"
  shows "\<exists>W G. mset segs = mset W + mset G + mset again \<and> perm = sum_list (map seg_bytes_enc G)
    \<and> dn1 = dn + sum_list (map seg_bytes_enc W) + sum_list (map seg_bytes_enc G) \<and> partial T whole (W0 \<union> set W) (pf_bytes f1)"
proof -
  let ?init = "\<lparr>pa_file = f, pa_done = dn, pa_missing = 0, pa_failed = [], pa_fatal = None\<rparr>"
  let ?s = "fold (\<lambda>i. run_segment pools grp (w i) (segs ! i)) order ?init"
  have o: "set order = {0..<length segs}" using mset_eq_setD [OF assms(2)] by simp
  have s: "pa_fatal ?s = None" "again = pa_failed ?s" "perm = pa_missing ?s" "f1 = pa_file ?s" "dn1 = pa_done ?s"
    using assms(1) by (auto simp: fetch_pass_def Let_def split: option.splits)
  have "pass_inv T whole W0 dn [] ?init"
    using assms(5) by (auto simp: pass_inv_def intro!: exI [of _ "[]"])
  from fold_segments_inv [OF this _ assms(4) s(1)] o assms(3)
  have inv: "pass_inv T whole W0 dn (map ((!) segs) order) ?s" by simp
  have "mset (map ((!) segs) order) = image_mset ((!) segs) (mset [0..<length segs])" by (simp only: mset_map assms(2))
  also have "\<dots> = mset segs" by (simp only: mset_map [symmetric] map_nth)
  finally show ?thesis using inv unfolding pass_inv_def s by simp
qed

lemma download_rounds_inv:
  assumes "download_rounds pools grp w left r pending missing f dn = (Inr m, f1, dn1)" "fair T w"
    and "\<forall>seg\<in>set pending. part_of T whole seg" "partial T whole W0 (pf_bytes f)"
  shows "\<exists>W L. mset pending = mset W + mset L \<and> m = missing + sum_list (map seg_bytes_enc L)
    \<and> dn1 = dn + sum_list (map seg_bytes_enc pending) \<and> partial T whole (W0 \<union> set W) (pf_bytes f1)"
  using assms
proof (induction left arbitrary: r pending missing f dn W0)
  case (0 r pending missing f dn W0)
  obtain again perm f2 dn2 where p: "fetch_pass pools grp (fw_order w r (length pending)) (fw_seg w r) pending f dn = (Inr (again, perm), f2, dn2)"
    using 0(1) unfolding download_rounds.simps [of _ _ _ 0] by (auto split: prod.splits sum.splits if_splits)
  obtain W G where i: "mset pending = mset W + mset G + mset again" "perm = sum_list (map seg_bytes_enc G)"
    "dn2 = dn + sum_list (map seg_bytes_enc W) + sum_list (map seg_bytes_enc G)" "partial T whole (W0 \<union> set W) (pf_bytes f2)"
    using fetch_pass_inv [OF p _ 0(3) _ 0(4)] 0(2) by (auto simp: fair_def truthful_run_def undisturbed_def)
  have r: "m = missing + perm + sum_list (map seg_bytes_enc again)" "f1 = f2" "dn1 = dn2 + sum_list (map seg_bytes_enc again)"
    using 0(1) unfolding download_rounds.simps [of _ _ _ 0] p by (auto split: if_splits)
  have "sum_list (map seg_bytes_enc pending) = sum_mset (image_mset seg_bytes_enc (mset pending))" by (simp add: sum_mset_sum_list [symmetric])
  also have "\<dots> = sum_list (map seg_bytes_enc W) + sum_list (map seg_bytes_enc G) + sum_list (map seg_bytes_enc again)"
    unfolding i(1) by (simp add: sum_mset_sum_list [symmetric])
  finally show ?case using i r by (intro exI [of _ W] exI [of _ "G @ again"]) simp
next
  case (Suc l r pending missing f dn W0)
  obtain again perm f2 dn2 where p: "fetch_pass pools grp (fw_order w r (length pending)) (fw_seg w r) pending f dn = (Inr (again, perm), f2, dn2)"
    using Suc.prems(1) unfolding download_rounds.simps [of _ _ _ "Suc l"] by (auto split: prod.splits sum.splits if_splits)
  obtain W G where i: "mset pending = mset W + mset G + mset again" "perm = sum_list (map seg_bytes_enc G)"
    "dn2 = dn + sum_list (map seg_bytes_enc W) + sum_list (map seg_bytes_enc G)" "partial T whole (W0 \<union> set W) (pf_bytes f2)"
    using fetch_pass_inv [OF p _ Suc.prems(3) _ Suc.prems(4)] Suc.prems(2) by (auto simp: fair_def truthful_run_def undisturbed_def)
  have "sum_list (map seg_bytes_enc pending) = sum_mset (image_mset seg_bytes_enc (mset pending))" by (simp add: sum_mset_sum_list [symmetric])
  also have "\<dots> = sum_list (map seg_bytes_enc W) + sum_list (map seg_bytes_enc G) + sum_list (map seg_bytes_enc again)"
    unfolding i(1) by (simp add: sum_mset_sum_list [symmetric])
  finally have sum: "sum_list (map seg_bytes_enc pending) = \<dots>" .
  show ?case
  proof (cases "again = []")
    case True
    then have "m = missing + perm" "f1 = f2" "dn1 = dn2"
      using Suc.prems(1) unfolding download_rounds.simps [of _ _ _ "Suc l"] p by auto
    then show ?thesis using i True sum by (intro exI [of _ W] exI [of _ G]) simp
  next
    case False
    then have rec: "download_rounds pools grp w l (Suc r) again (missing + perm) f2 dn2 = (Inr m, f1, dn1)"
      using Suc.prems(1) unfolding download_rounds.simps [of _ _ _ "Suc l"] p by (auto split: if_splits)
    have "set again \<subseteq> set pending" using i(1) by (metis mset_subset_eq_add_right set_mset_mono set_mset_mset)
    then have "\<forall>seg\<in>set again. part_of T whole seg" using Suc.prems(3) by auto
    from Suc.IH [OF rec Suc.prems(2) this i(4)] obtain W2 L where
      j: "mset again = mset W2 + mset L" "m = missing + perm + sum_list (map seg_bytes_enc L)"
        "dn1 = dn2 + sum_list (map seg_bytes_enc again)" "partial T whole (W0 \<union> set W \<union> set W2) (pf_bytes f1)" by auto
    then show ?thesis using i sum
      by (intro exI [of _ "W @ W2"] exI [of _ "G @ L"]) (simp add: Un_assoc)
  qed
qed


lemma download_file_inv:
  assumes "download_file pools grp w nf dn = (Inr m, f1, dn1)" "fair T w" "segs_laid_out T nf whole"
  shows "dn1 = dn + nzb_file_size nf \<and> 0 \<le> m \<and> length (pf_bytes f1) \<le> length whole
    \<and> (\<forall>k<length (pf_bytes f1). pf_bytes f1 ! k \<in> {0, whole ! k}) \<and> (m = 0 \<longrightarrow> pf_bytes f1 = whole)"
proof -
  have parts: "\<forall>seg\<in>set (nf_segments nf). part_of T whole seg" and pos: "\<forall>seg\<in>set (nf_segments nf). 0 < seg_bytes_enc seg"
    using assms(3) by (auto simp: segs_laid_out_def)
  obtain W L where i: "mset (nf_segments nf) = mset W + mset L" "m = sum_list (map seg_bytes_enc L)"
    "dn1 = dn + nzb_file_size nf" "partial T whole (set W) (pf_bytes f1)"
    using download_rounds_inv [OF assms(1) [unfolded download_file_def] assms(2) parts, of "{}"]
    by (auto simp: partial_empty nzb_file_size_def)
  have sub: "set L \<subseteq> set (nf_segments nf)" using i(1) by (metis mset_subset_eq_add_right set_mset_mono set_mset_mset)
  then have nn: "\<forall>x\<in>set L. 0 < seg_bytes_enc x" using pos by blast
  have m0: "0 \<le> m" unfolding i(2) by (rule sum_list_nonneg) (use nn in \<open>auto intro: less_imp_le\<close>)
  have "pf_bytes f1 = whole" if "m = 0"
  proof -
    have "L = []" using nn i(2) that sum_list_nonneg [of "map seg_bytes_enc (tl L)"]
      by (cases L) (fastforce dest: bspec)+
    then have "set W = set (nf_segments nf)" using i(1) by (metis add.right_neutral mset.simps(1) set_mset_mset)
    then show ?thesis using partial_whole [OF assms(3)] i(4) by simp
  qed
  then show ?thesis using i m0 by (auto simp: partial_def)
qed

section \<open>What is right even in a disturbed run\<close>

text \<open>Bytes of the file or zeros, wherever the run lost track.\<close>

definition loose :: "byte list \<Rightarrow> byte list \<Rightarrow> bool" where
  "loose whole bs \<longleftrightarrow> length bs \<le> length whole \<and> (\<forall>k<length bs. bs ! k \<in> {0, whole ! k})"

lemma loose_write:
  assumes "loose whole bs" "part_of T whole seg"
  shows "loose whole (write_bytes_at bs (fst (T (message_id seg))) (snd (T (message_id seg))))"
proof -
  define off d where od: "off = fst (T (message_id seg))" "d = snd (T (message_id seg))"
  have fit: "off + length d \<le> length whole" and slice: "d = take (length d) (drop off whole)"
    using assms(2) by (simp_all add: part_of_def od)
  have byte: "d ! (k - off) = whole ! k" if "off \<le> k" "k < off + length d" for k
  proof -
    have "d ! (k - off) = take (length d) (drop off whole) ! (k - off)" using slice by simp
    also have "\<dots> = whole ! k" using that fit by (simp add: nth_drop)
    finally show ?thesis .
  qed
  show ?thesis
  proof (cases "d = []")
    case True
    then show ?thesis using assms(1) by (simp add: write_bytes_at_def od)
  next
    case False
    have "write_bytes_at bs off d ! k \<in> {0, whole ! k}" if k: "k < max (length bs) (off + length d)" for k
      using nth_write_bytes_at [OF False k] byte [of k] assms(1) k by (auto simp: loose_def)
    then show ?thesis
      using assms(1) fit False by (simp add: loose_def od [symmetric] length_write_bytes_at)
  qed
qed

definition loose_pass :: "byte list \<Rightarrow> nzb_segment list \<Rightarrow> pass_state \<Rightarrow> bool" where
  "loose_pass whole segs s \<longleftrightarrow> loose whole (pf_bytes (pa_file s)) \<and> 0 \<le> pa_missing s \<and> set (pa_failed s) \<subseteq> set segs"

lemma run_segment_loose:
  assumes "loose_pass whole segs s" "seg \<in> set segs" "part_of T whole seg" "0 < seg_bytes_enc seg" "truthful T w"
  shows "loose_pass whole segs (run_segment pools grp w seg s)"
proof -
  have failed: "loose_pass whole segs (seg_failed w seg e s)" for e
    using assms(1,2,4) by (auto simp: loose_pass_def seg_failed_def set_fatal_def bump_def)
  show ?thesis
  proof (cases "sw_start w")
    case False
    show ?thesis
    proof (cases "fetch_segment pools (sw_halt w) (sw_stop w) (\<lambda>p a. sw_net w p a (message_id seg)) grp (message_id seg)")
      case (Inl e)
      then show ?thesis using False failed by (simp add: run_segment_def)
    next
      case (Inr raw)
      then obtain p a where at: "at_body (sw_net w p a (message_id seg)) = Inr (Inr raw)"
        by (auto simp: fetch_segment_def dest: fetch_pools_delivers)
      have "loose_pass whole segs (bump seg (s\<lparr>pa_file := write_segment (sw_write w) r (pa_file s)\<rparr>))" if "decode raw = Inr r" for r
      proof -
        have "y_begin r = int (fst (T (message_id seg))) + 1" "y_data r = snd (T (message_id seg))"
          using assms(5) at that by (auto simp: truthful_def)
        then show ?thesis
          using assms(1) loose_write [OF _ assms(3)] by (auto simp: loose_pass_def bump_def write_segment_def)
      qed
      then show ?thesis using Inr False failed assms(1)
        by (auto simp: run_segment_def set_fatal_def loose_pass_def split: option.splits sum.splits)
    qed
  qed (use assms(1) in \<open>simp add: run_segment_def\<close>)
qed

lemma fetch_pass_loose:
  assumes "fetch_pass pools grp order w segs f dn = (Inr (again, perm), f1, dn1)" "mset order = mset [0..<length segs]"
    and "\<forall>seg\<in>set segs. part_of T whole seg \<and> 0 < seg_bytes_enc seg" "\<forall>i. truthful T (w i)" and "loose whole (pf_bytes f)"
  shows "loose whole (pf_bytes f1) \<and> 0 \<le> perm \<and> set again \<subseteq> set segs"
proof -
  let ?init = "\<lparr>pa_file = f, pa_done = dn, pa_missing = 0, pa_failed = [], pa_fatal = None\<rparr>"
  let ?s = "fold (\<lambda>i. run_segment pools grp (w i) (segs ! i)) order ?init"
  have o: "\<forall>i\<in>set order. i < length segs" using mset_eq_setD [OF assms(2)] by simp
  have run: "loose_pass whole segs s \<Longrightarrow> loose_pass whole segs (fold (\<lambda>i. run_segment pools grp (w i) (segs ! i)) os s)"
    if "\<forall>i\<in>set os. i < length segs" for os s
    using that
  proof (induction os arbitrary: s)
    case (Cons k os)
    have "loose_pass whole segs (run_segment pools grp (w k) (segs ! k) s)"
      using Cons.prems(1,2) assms(3,4) by (intro run_segment_loose [where T = T]) auto
    with Cons show ?case by simp
  qed simp
  have "loose_pass whole segs ?init" using assms(5) by (simp add: loose_pass_def)
  from run [OF o this] have "loose_pass whole segs ?s" .
  moreover have "again = pa_failed ?s" "perm = pa_missing ?s" "f1 = pa_file ?s"
    using assms(1) by (auto simp: fetch_pass_def Let_def split: option.splits)
  ultimately show ?thesis by (simp add: loose_pass_def)
qed

lemma download_rounds_loose:
  assumes "download_rounds pools grp w left r pending missing f dn = (Inr m, f1, dn1)" "truthful_run T w"
    and "\<forall>seg\<in>set pending. part_of T whole seg \<and> 0 < seg_bytes_enc seg" "loose whole (pf_bytes f)"
  shows "loose whole (pf_bytes f1) \<and> missing \<le> m"
  using assms
proof (induction left arbitrary: r pending missing f dn)
  case (0 r pending missing f dn)
  obtain again perm f2 dn2 where p: "fetch_pass pools grp (fw_order w r (length pending)) (fw_seg w r) pending f dn = (Inr (again, perm), f2, dn2)"
    using 0(1) unfolding download_rounds.simps [of _ _ _ 0] by (auto split: prod.splits sum.splits if_splits)
  have i: "loose whole (pf_bytes f2)" "0 \<le> perm" "set again \<subseteq> set pending"
    using fetch_pass_loose [OF p _ 0(3) _ 0(4)] 0(2) by (auto simp: truthful_run_def)
  have "f1 = f2" "m = missing + perm + sum_list (map seg_bytes_enc again)"
    using 0(1) unfolding download_rounds.simps [of _ _ _ 0] p by (auto split: if_splits)
  moreover have "0 \<le> sum_list (map seg_bytes_enc again)"
    by (rule sum_list_nonneg) (use i(3) 0(3) in \<open>auto intro: less_imp_le\<close>)
  ultimately show ?case using i by simp
next
  case (Suc l r pending missing f dn)
  obtain again perm f2 dn2 where p: "fetch_pass pools grp (fw_order w r (length pending)) (fw_seg w r) pending f dn = (Inr (again, perm), f2, dn2)"
    using Suc.prems(1) unfolding download_rounds.simps [of _ _ _ "Suc l"] by (auto split: prod.splits sum.splits if_splits)
  have i: "loose whole (pf_bytes f2)" "0 \<le> perm" "set again \<subseteq> set pending"
    using fetch_pass_loose [OF p _ Suc.prems(3) _ Suc.prems(4)] Suc.prems(2) by (auto simp: truthful_run_def)
  show ?case
  proof (cases "again = []")
    case True
    then have "m = missing + perm" "f1 = f2"
      using Suc.prems(1) unfolding download_rounds.simps [of _ _ _ "Suc l"] p by auto
    with i show ?thesis by simp
  next
    case False
    then have rec: "download_rounds pools grp w l (Suc r) again (missing + perm) f2 dn2 = (Inr m, f1, dn1)"
      using Suc.prems(1) unfolding download_rounds.simps [of _ _ _ "Suc l"] p by (auto split: if_splits)
    have "\<forall>seg\<in>set again. part_of T whole seg \<and> 0 < seg_bytes_enc seg" using Suc.prems(3) i(3) by blast
    from Suc.IH [OF rec Suc.prems(2) this i(1)] i(2) show ?thesis by simp
  qed
qed

lemma download_file_loose:
  assumes "download_file pools grp w nf dn = (Inr m, f1, dn1)" "truthful_run T w" "segs_laid_out T nf whole"
  shows "loose whole (pf_bytes f1) \<and> 0 \<le> m"
  using download_rounds_loose [OF assms(1) [unfolded download_file_def] assms(2)] assms(3)
  by (auto simp: segs_laid_out_def loose_def)

text \<open>The files that are downloaded, under their names.\<close>

definition kept_files :: "nzb \<Rightarrow> nzb_file list" where
  "kept_files n = filter (\<lambda>nf. \<not> is_optional (path_base (nzb_file_name nf))) (nz_files n)"

definition disk_name :: "nzb_file \<Rightarrow> string" where
  "disk_name nf = path_base (nzb_file_name nf)"

text \<open>No file of the list is another's name or part file.\<close>

definition no_clash :: "nzb_file list \<Rightarrow> bool" where
  "no_clash nfs \<longleftrightarrow> distinct (map disk_name nfs) \<and> (\<forall>a\<in>set nfs. \<forall>b\<in>set nfs. disk_name a \<noteq> disk_name b @ ''.part'')"

definition file_done :: "(nzb_file \<Rightarrow> byte list) \<Rightarrow> dl_disk \<Rightarrow> nzb_file \<Rightarrow> bool" where
  "file_done whole d nf \<longleftrightarrow> (\<exists>bs. d (disk_name nf) = Some bs \<and> length bs \<le> length (whole nf)
     \<and> (\<forall>k<length bs. bs ! k \<in> {0, whole nf ! k}))"

lemma download_files_inv:
  assumes "download_files pools w i nfs dn missing res d = (Inr (res1, m1), dn1, d1)"
    and "\<forall>i. fair T (rw_file w i)" "\<forall>nf\<in>set nfs. segs_laid_out T nf (whole nf)"
    and "no_clash (before @ filter (\<lambda>nf. \<not> is_optional (disk_name nf)) nfs)"
    and "map dr_name res = map disk_name before" "\<forall>nf\<in>set before. file_done whole d nf"
    and "missing = 0 \<longrightarrow> (\<forall>nf\<in>set before. d (disk_name nf) = Some (whole nf))" "0 \<le> missing"
  shows "map dr_name res1 = map disk_name (before @ filter (\<lambda>nf. \<not> is_optional (disk_name nf)) nfs)
    \<and> dn1 = dn + sum_list (map nzb_file_size (filter (\<lambda>nf. \<not> is_optional (disk_name nf)) nfs)) \<and> missing \<le> m1
    \<and> (\<forall>nf\<in>set (before @ filter (\<lambda>nf. \<not> is_optional (disk_name nf)) nfs). file_done whole d1 nf)
    \<and> (m1 = 0 \<longrightarrow> (\<forall>nf\<in>set (before @ filter (\<lambda>nf. \<not> is_optional (disk_name nf)) nfs). d1 (disk_name nf) = Some (whole nf)))"
  using assms
proof (induction nfs arbitrary: i dn missing res d before)
  case Nil
  then show ?case by auto
next
  case (Cons nf nfs)
  show ?case
  proof (cases "is_optional (disk_name nf)")
    case True
    have step: "download_files pools w (Suc i) nfs dn missing res d = (Inr (res1, m1), dn1, d1)"
      using Cons.prems(1) True by (simp add: disk_name_def Let_def)
    show ?thesis using Cons.IH [OF step Cons.prems(2) _ _ Cons.prems(5-8)] Cons.prems(3,4) True by simp
  next
    case False
    obtain m f dn2 where f: "download_file pools (group_of nf) (rw_file w i) nf dn = (Inr m, f, dn2)"
      and step: "download_files pools w (Suc i) nfs dn2 (missing + m)
        (res @ [\<lparr>dr_name = disk_name nf, dr_size = (if rw_stat w i then int (length (pf_bytes f)) else 0)\<rparr>])
        (d(disk_name nf @ ''.part'' := None, disk_name nf \<mapsto> pf_bytes f)) = (Inr (res1, m1), dn1, d1)"
      using Cons.prems(1) False
      by (auto simp: disk_name_def Let_def split: option.splits prod.splits sum.splits)
    have fi: "dn2 = dn + nzb_file_size nf" "0 \<le> m" "length (pf_bytes f) \<le> length (whole nf)"
      "\<forall>k<length (pf_bytes f). pf_bytes f ! k \<in> {0, whole nf ! k}" "m = 0 \<longrightarrow> pf_bytes f = whole nf"
      using download_file_inv [OF f] Cons.prems(2,3) by auto
    have nc: "no_clash ((before @ [nf]) @ filter (\<lambda>nf. \<not> is_optional (disk_name nf)) nfs)"
      using Cons.prems(4) False by simp
    define d2 where "d2 = d(disk_name nf @ ''.part'' := None, disk_name nf \<mapsto> pf_bytes f)"
    have new: "d2 (disk_name nf) = Some (pf_bytes f)" by (simp add: d2_def)
    have other: "d2 (disk_name b) = d (disk_name b)" if "b \<in> set before" for b
    proof -
      have "disk_name nf \<notin> disk_name ` set before" "disk_name b \<noteq> disk_name nf @ ''.part''"
        using nc that by (auto simp: no_clash_def)
      then show ?thesis using that by (auto simp: d2_def dest: notin_imageD)
    qed
    have "\<forall>b\<in>set (before @ [nf]). file_done whole d2 b"
      using Cons.prems(6) other new fi by (auto simp: file_done_def)
    moreover have "missing + m = 0 \<longrightarrow> (\<forall>b\<in>set (before @ [nf]). d2 (disk_name b) = Some (whole b))"
      using Cons.prems(7,8) fi(2,5) other new by auto
    ultimately show ?thesis
      using Cons.IH [OF step [folded d2_def] Cons.prems(2) _ nc] Cons.prems(3,5,8) False fi by simp
  qed
qed


text \<open>A file that arrives keeps its bytes while the others arrive.\<close>

lemma no_clash_keeps:
  assumes "no_clash (before @ nf # rest)" "b \<in> set before"
  shows "(d(disk_name nf @ ''.part'' := None, disk_name nf \<mapsto> bs)) (disk_name b) = d (disk_name b)"
proof -
  have "disk_name nf \<notin> disk_name ` set before" "disk_name b \<noteq> disk_name nf @ ''.part''"
    using assms by (auto simp: no_clash_def)
  then show ?thesis using assms(2) by (auto dest: notin_imageD)
qed

lemma download_files_loose:
  assumes "download_files pools w i nfs dn missing res d = (Inr (res1, m1), dn1, d1)"
    and "\<forall>i. truthful_run T (rw_file w i)" "\<forall>nf\<in>set nfs. segs_laid_out T nf (whole nf)"
    and "no_clash (before @ filter (\<lambda>nf. \<not> is_optional (disk_name nf)) nfs)"
    and "map dr_name res = map disk_name before" "\<forall>nf\<in>set before. file_done whole d nf"
  shows "map dr_name res1 = map disk_name (before @ filter (\<lambda>nf. \<not> is_optional (disk_name nf)) nfs) \<and> missing \<le> m1
    \<and> (\<forall>nf\<in>set (before @ filter (\<lambda>nf. \<not> is_optional (disk_name nf)) nfs). file_done whole d1 nf)"
  using assms
proof (induction nfs arbitrary: i dn missing res d before)
  case Nil
  then show ?case by auto
next
  case (Cons nf nfs)
  show ?case
  proof (cases "is_optional (disk_name nf)")
    case True
    have step: "download_files pools w (Suc i) nfs dn missing res d = (Inr (res1, m1), dn1, d1)"
      using Cons.prems(1) True by (simp add: disk_name_def Let_def)
    show ?thesis using Cons.IH [OF step Cons.prems(2) _ _ Cons.prems(5,6)] Cons.prems(3,4) True by simp
  next
    case False
    obtain m f dn2 where f: "download_file pools (group_of nf) (rw_file w i) nf dn = (Inr m, f, dn2)"
      and step: "download_files pools w (Suc i) nfs dn2 (missing + m)
        (res @ [\<lparr>dr_name = disk_name nf, dr_size = (if rw_stat w i then int (length (pf_bytes f)) else 0)\<rparr>])
        (d(disk_name nf @ ''.part'' := None, disk_name nf \<mapsto> pf_bytes f)) = (Inr (res1, m1), dn1, d1)"
      using Cons.prems(1) False
      by (auto simp: disk_name_def Let_def split: option.splits prod.splits sum.splits)
    have fi: "0 \<le> m" "loose (whole nf) (pf_bytes f)"
      using download_file_loose [OF f] Cons.prems(2,3) by auto
    have nc: "no_clash ((before @ [nf]) @ filter (\<lambda>nf. \<not> is_optional (disk_name nf)) nfs)"
      using Cons.prems(4) False by simp
    define d2 where "d2 = d(disk_name nf @ ''.part'' := None, disk_name nf \<mapsto> pf_bytes f)"
    have other: "d2 (disk_name b) = d (disk_name b)" if "b \<in> set before" for b
      unfolding d2_def using nc that by (intro no_clash_keeps) simp
    have new: "d2 (disk_name nf) = Some (pf_bytes f)" by (simp add: d2_def)
    have "\<forall>b\<in>set (before @ [nf]). file_done whole d2 b"
      using Cons.prems(6) other new fi(2) by (auto simp: file_done_def loose_def)
    with Cons.IH [OF step [folded d2_def] Cons.prems(2) _ nc] Cons.prems(3,5) False fi(1) show ?thesis by simp
  qed
qed

section \<open>Cancelled passes\<close>

lemma cancelled_segment: "sw_start w \<Longrightarrow> run_segment pools grp w seg s = s"
  by (simp add: run_segment_def)

lemma cancelled_file:
  assumes "\<forall>r i. sw_start (fw_seg w r i)"
  shows "download_file pools grp w nf dn = (Inr 0, \<lparr>pf_bytes = [], pf_pos = 0\<rparr>, dn)"
proof -
  have "fold (\<lambda>i. run_segment pools grp (fw_seg w r i) (segs ! i)) order s = s" for r segs order s
    by (induction order) (simp_all add: cancelled_segment assms)
  then show ?thesis
    unfolding download_file_def by (subst download_rounds.simps) (simp add: fetch_pass_def)
qed

lemma cancelled_files:
  assumes "\<forall>i. rw_create w i = None \<and> rw_rename w i = None" "\<forall>i r j. sw_start (fw_seg (rw_file w i) r j)"
    and "no_clash (before @ filter (\<lambda>nf. \<not> is_optional (disk_name nf)) nfs)"
    and "map dr_name res = map disk_name before" "\<forall>nf\<in>set before. d (disk_name nf) = Some []"
  shows "\<exists>res1 d1. download_files pools w i nfs dn missing res d = (Inr (res1, missing), dn, d1)
    \<and> map dr_name res1 = map disk_name (before @ filter (\<lambda>nf. \<not> is_optional (disk_name nf)) nfs)
    \<and> (\<forall>nf\<in>set (before @ filter (\<lambda>nf. \<not> is_optional (disk_name nf)) nfs). d1 (disk_name nf) = Some [])"
  using assms
proof (induction nfs arbitrary: i res d before)
  case Nil
  then show ?case by simp
next
  case (Cons nf nfs)
  show ?case
  proof (cases "is_optional (disk_name nf)")
    case True
    then show ?thesis using Cons.IH [OF Cons.prems(1,2) _ Cons.prems(4,5), of "Suc i"] Cons.prems(3)
      by (simp add: disk_name_def Let_def)
  next
    case False
    have f: "download_file pools (group_of nf) (rw_file w i) nf dn = (Inr 0, \<lparr>pf_bytes = [], pf_pos = 0\<rparr>, dn)"
      using Cons.prems(2) by (intro cancelled_file) simp
    have nc: "no_clash ((before @ [nf]) @ filter (\<lambda>nf. \<not> is_optional (disk_name nf)) nfs)"
      using Cons.prems(3) False by simp
    define d2 where "d2 = d(disk_name nf @ ''.part'' := None, disk_name nf \<mapsto> [])"
    have "d2 (disk_name b) = Some []" if "b \<in> set (before @ [nf])" for b
      using nc Cons.prems(5) that by (auto simp: no_clash_def d2_def)
    then have "\<forall>b\<in>set (before @ [nf]). d2 (disk_name b) = Some []" by blast
    from Cons.IH [where i = "Suc i" and res = "res @ [\<lparr>dr_name = disk_name nf, dr_size = 0\<rparr>]" and before = "before @ [nf]",
      OF Cons.prems(1,2) nc _ this] Cons.prems(4)
    have ih: "\<exists>res1 d1. download_files pools w (Suc i) nfs dn missing (res @ [\<lparr>dr_name = disk_name nf, dr_size = 0\<rparr>]) d2 = (Inr (res1, missing), dn, d1)
      \<and> map dr_name res1 = map disk_name ((before @ [nf]) @ filter (\<lambda>nf. \<not> is_optional (disk_name nf)) nfs)
      \<and> (\<forall>nf\<in>set ((before @ [nf]) @ filter (\<lambda>nf. \<not> is_optional (disk_name nf)) nfs). d1 (disk_name nf) = Some [])" by simp
    have "download_files pools w i (nf # nfs) dn missing res d
        = download_files pools w (Suc i) nfs dn missing (res @ [\<lparr>dr_name = disk_name nf, dr_size = 0\<rparr>]) d2"
      using Cons.prems(1) False f by (simp add: disk_name_def Let_def d2_def)
    then show ?thesis using ih False by simp
  qed
qed

section \<open>Properties\<close>

text \<open>
  C12: a Usenet download never shows a wrong byte, and is exact or counts what is missing unless it was
  disturbed. Whatever order the goroutines end in, whatever attempts fail and are retried and however the
  providers share the articles, a download that returns hands on one file for each file of the release but
  the optional ones, in order, and each holds posted bytes, or zeros where articles are missing. If moreover no
  goroutine found the context cancelled when it started and no write to a part file failed (the code passes
  over both, see \<open>cancelled_download_reports_success\<close>), every byte has been counted as done, and if nothing is reported missing,
  each file is the posted one. The articles are the posted ones wherever they decode, they tile the files,
  and the files have names apart from each other and from each other's part files.
\<close>

theorem usenet_download_exact:
  assumes "download_release pools w n d = (Inr (res, missing), dn, d1)"
    and "\<forall>i. truthful_run T (rw_file w i)" and "\<forall>nf\<in>set (nz_files n). segs_laid_out T nf (whole nf)"
    and "no_clash (kept_files n)"
  shows "map dr_name res = map disk_name (kept_files n) \<and> 0 \<le> missing
    \<and> (\<forall>nf\<in>set (kept_files n). \<exists>bs. d1 (disk_name nf) = Some bs \<and> length bs \<le> length (whole nf)
        \<and> (\<forall>k<length bs. bs ! k \<in> {0, whole nf ! k}))
    \<and> ((\<forall>i. undisturbed (rw_file w i)) \<longrightarrow> dn = sum_list (map nzb_file_size (kept_files n))
        \<and> (missing = 0 \<longrightarrow> (\<forall>nf\<in>set (kept_files n). d1 (disk_name nf) = Some (whole nf))))"
proof -
  note d = assms(1) [unfolded download_release_def]
  have nc: "no_clash ([] @ filter (\<lambda>nf. \<not> is_optional (disk_name nf)) (nz_files n))"
    using assms(4) by (simp add: kept_files_def disk_name_def)
  have k: "kept_files n = [] @ filter (\<lambda>nf. \<not> is_optional (disk_name nf)) (nz_files n)"
    by (simp add: kept_files_def disk_name_def)
  from download_files_loose [OF d assms(2,3) nc] download_files_inv [OF d _ assms(3) nc] assms(2)
  show ?thesis unfolding k by (simp add: fair_def file_done_def)
qed

text \<open>
  A cancelled download can report success. A goroutine that finds the context cancelled when it starts
  ends without a trace; when all of a release do, the download returns one empty file for each, and nothing
  missing.
\<close>

theorem cancelled_download_reports_success:
  assumes "\<forall>i. rw_create w i = None \<and> rw_rename w i = None" and "\<forall>i r j. sw_start (fw_seg (rw_file w i) r j)"
    and "no_clash (kept_files n)"
  shows "\<exists>res d1. download_release pools w n d = (Inr (res, 0), 0, d1) \<and> map dr_name res = map disk_name (kept_files n)
    \<and> (\<forall>nf\<in>set (kept_files n). d1 (disk_name nf) = Some [])"
  using cancelled_files [OF assms(1,2), of "[]" "nz_files n" "[]" d pools 0 0 0] assms(3)
  by (simp add: kept_files_def disk_name_def [symmetric] download_release_def)

text \<open>
  The last provider's answer decides. When the first provider cannot be reached and the second does not
  have the article, the segment is given up as missing in the first round; with the providers the other way
  round it is retried.
\<close>

theorem backup_miss_gives_up:
  assumes "\<not> sw_start w" and "\<not> sw_late w" and "\<forall>p. \<not> sw_halt w p" and "\<forall>p a. \<not> sw_stop w p a"
    and "\<forall>a. at_conn (sw_net w down a (message_id seg)) = Some e"
    and "\<forall>a. at_conn (sw_net w other a (message_id seg)) = None" and "\<forall>a. at_group (sw_net w other a (message_id seg)) = None"
    and "\<forall>a. at_body (sw_net w other a (message_id seg)) = Inl ''430 no such article''"
    and "\<not> is_article_missing (''segment '' @ message_id seg @ '' after '' @ show_nat seg_attempts @ '' attempts: '' @ e @ '': '' @ interrupted)"
  shows "(down = 0 \<and> other = 1 \<longrightarrow> run_segment 2 grp w seg s = bump seg (s\<lparr>pa_missing := pa_missing s + seg_bytes_enc seg\<rparr>))
    \<and> (down = 1 \<and> other = 0 \<longrightarrow> run_segment 2 grp w seg s = s\<lparr>pa_failed := pa_failed s @ [seg]\<rparr>)"
proof -
  have miss: "is_article_missing ''430 no such article''" by code_simp
  have d: "fetch_from_pool (sw_stop w down) (\<lambda>a. sw_net w down a (message_id seg)) grp (message_id seg)
      = Inl (''segment '' @ message_id seg @ '' after '' @ show_nat seg_attempts @ '' attempts: '' @ e @ '': '' @ interrupted)"
    using assms(4,5) by (simp add: fetch_from_pool_def seg_attempts_def upt_rec)
  have o: "fetch_from_pool (sw_stop w other) (\<lambda>a. sw_net w other a (message_id seg)) grp (message_id seg) = Inl ''430 no such article''"
    using assms(4,6-8) miss by (simp add: fetch_from_pool_def seg_attempts_def upt_rec)
  show ?thesis
    using assms(1-3,9) d o miss
    by (auto simp: run_segment_def fetch_segment_def upt_rec seg_failed_def)
qed

section \<open>Witnesses\<close>

definition sample_raw :: "byte list" where
  "sample_raw = article sample_escapes ''part=1 total=1 line=128 size=2 name=x'' (Some ''begin=1 end=2'') [[1, 2]] ''size=2''"

lemma decode_sample_raw: "decode sample_raw = Inr \<lparr>y_data = [1, 2], y_filename = ''x'', y_part = 1, y_total = 1,
    y_size = 2, y_begin = 1, y_end = 2\<rparr>"
proof -
  have h: "header_result ''part=1 total=1 line=128 size=2 name=x'' (Some ''begin=1 end=2'')
      = \<lparr>y_data = [], y_filename = ''x'', y_part = 1, y_total = 1, y_size = 2, y_begin = 1, y_end = 2\<rparr>"
    by code_simp
  have c: "yend_checksums (yend_line ''size=2'') = ([], [])" by code_simp
  have e: "valid_escapes sample_escapes" by (simp add: valid_escapes_def sample_escapes_def may_escape_def)
  show ?thesis
    unfolding sample_raw_def
    by (subst decode_article [OF e]) (simp_all add: h verify_checksum_def c no_newline_def Let_def)
qed

definition sample_nzb_file :: nzb_file where
  "sample_nzb_file = \<lparr>nf_subject = ''s'', nf_filename = ''a.mkv'', nf_groups = [],
     nf_segments = [\<lparr>seg_bytes_enc = 10, message_id = ''m1''\<rparr>]\<rparr>"

definition sample_nzb :: nzb where
  "sample_nzb = \<lparr>nz_files = [sample_nzb_file, sample_nzb_file\<lparr>nf_filename := ''a.nfo''\<rparr>], nz_meta = Map.empty\<rparr>"

definition sample_seg_world :: seg_world where
  "sample_seg_world = \<lparr>sw_start = False, sw_halt = (\<lambda>_. False), sw_stop = (\<lambda>_ _. False),
     sw_net = (\<lambda>p a m. if a = 0 then \<lparr>at_conn = Some ''reset'', at_group = None, at_body = Inl []\<rparr>
       else \<lparr>at_conn = None, at_group = None, at_body = Inr (Inr sample_raw)\<rparr>),
     sw_limit = None, sw_write = True, sw_late = False\<rparr>"

definition sample_rel_world :: rel_world where
  "sample_rel_world = \<lparr>rw_file = (\<lambda>_. \<lparr>fw_order = (\<lambda>_ n. rev [0..<n]), fw_seg = (\<lambda>_ _. sample_seg_world), fw_stop = (\<lambda>_. False)\<rparr>),
     rw_create = (\<lambda>_. None), rw_rename = (\<lambda>_. None), rw_stat = (\<lambda>_. True)\<rparr>"

lemma sample_names: "path_base (nzb_file_name sample_nzb_file) = ''a.mkv''" "\<not> is_optional ''a.mkv''"
  "path_base (nzb_file_name (sample_nzb_file\<lparr>nf_filename := ''a.nfo''\<rparr>)) = ''a.nfo''" "is_optional ''a.nfo''"
  by code_simp+

lemma sample_kept: "kept_files sample_nzb = [sample_nzb_file]"
  unfolding kept_files_def sample_nzb_def using sample_names by simp

lemma sample_fetch: "fetch_segment (Suc 0) (sw_halt sample_seg_world) (sw_stop sample_seg_world)
    (\<lambda>p a. sw_net sample_seg_world p a m) grp m = Inr sample_raw"
  by (simp add: fetch_segment_def fetch_from_pool_def seg_attempts_def upt_rec sample_seg_world_def)

lemma sample_segment: "run_segment (Suc 0) grp sample_seg_world seg s
    = bump seg (s\<lparr>pa_file := write_segment True \<lparr>y_data = [1, 2], y_filename = ''x'', y_part = 1, y_total = 1,
    y_size = 2, y_begin = 1, y_end = 2\<rparr> (pa_file s)\<rparr>)"
  using sample_fetch [of "message_id seg" grp] decode_sample_raw
  by (simp add: run_segment_def) (simp add: sample_seg_world_def)

theorem usenet_download_exact_witness:
  "\<exists>res d1. download_release (Suc 0) sample_rel_world sample_nzb Map.empty = (Inr (res, 0), 10, d1)
    \<and> map dr_name res = [''a.mkv''] \<and> d1 ''a.mkv'' = Some [1, 2]"
proof -
  have "download_file (Suc 0) grp (rw_file sample_rel_world 0) sample_nzb_file 0 = (Inr 0, \<lparr>pf_bytes = [1, 2], pf_pos = 0\<rparr>, 10)" for grp
    unfolding download_file_def
    by (subst download_rounds.simps) (simp add: fetch_pass_def sample_rel_world_def sample_nzb_file_def sample_segment bump_def
      write_segment_def write_bytes_at_def)
  then obtain res d1 where d: "download_release (Suc 0) sample_rel_world sample_nzb Map.empty = (Inr (res, 0), 10, d1)"
    using sample_names
    by (simp add: download_release_def sample_nzb_def Let_def) (simp add: sample_rel_world_def)
  have fair: "\<forall>i. fair (\<lambda>_. (0, [1, 2])) (rw_file sample_rel_world i)"
  proof -
    have "truthful (\<lambda>_. (0, [1, 2])) sample_seg_world"
      using decode_sample_raw by (auto simp: truthful_def sample_seg_world_def)
    then show ?thesis by (simp add: fair_def truthful_run_def undisturbed_def sample_rel_world_def) (simp add: sample_seg_world_def)
  qed
  have lay: "\<forall>nf\<in>set (nz_files sample_nzb). segs_laid_out (\<lambda>_. (0, [1, 2])) nf ((\<lambda>_. [1, 2]) nf)"
    by (simp add: segs_laid_out_def sample_nzb_def sample_nzb_file_def part_of_def seg_covers_def)
  have nc: "no_clash (kept_files sample_nzb)"
    unfolding sample_kept no_clash_def disk_name_def by (simp add: sample_names)
  from usenet_download_exact [OF d _ lay nc] fair d show ?thesis
    unfolding sample_kept by (simp add: disk_name_def sample_names fair_def)
qed

theorem cancelled_download_reports_success_witness:
  "\<exists>res d1. download_release (Suc 0) (sample_rel_world\<lparr>rw_file := \<lambda>_. \<lparr>fw_order = (\<lambda>_ n. [0..<n]),
      fw_seg = (\<lambda>_ _. sample_seg_world\<lparr>sw_start := True\<rparr>), fw_stop = (\<lambda>_. False)\<rparr>\<rparr>) sample_nzb Map.empty = (Inr (res, 0), 0, d1)
    \<and> map dr_name res = [''a.mkv''] \<and> d1 ''a.mkv'' = Some []"
proof -
  have nc: "no_clash (kept_files sample_nzb)"
    unfolding sample_kept no_clash_def disk_name_def by (simp add: sample_names)
  show ?thesis
    using cancelled_download_reports_success [OF _ _ nc, of "sample_rel_world\<lparr>rw_file := \<lambda>_. \<lparr>fw_order = (\<lambda>_ n. [0..<n]),
      fw_seg = (\<lambda>_ _. sample_seg_world\<lparr>sw_start := True\<rparr>), fw_stop = (\<lambda>_. False)\<rparr>\<rparr>" "Suc 0" Map.empty]
    unfolding sample_kept by (simp add: disk_name_def sample_names sample_rel_world_def)
qed

definition split_world :: "nat \<Rightarrow> seg_world" where
  "split_world down = sample_seg_world\<lparr>sw_net := \<lambda>p a m. if p = down
     then \<lparr>at_conn = Some ''reset'', at_group = None, at_body = Inl []\<rparr>
     else \<lparr>at_conn = None, at_group = None, at_body = Inl ''430 no such article''\<rparr>\<rparr>"

theorem backup_miss_gives_up_witness:
  "pa_failed (run_segment 2 [] (split_world 0) \<lparr>seg_bytes_enc = 10, message_id = ''m1''\<rparr>
      \<lparr>pa_file = \<lparr>pf_bytes = [], pf_pos = 0\<rparr>, pa_done = 0, pa_missing = 0, pa_failed = [], pa_fatal = None\<rparr>) = []
    \<and> pa_failed (run_segment 2 [] (split_world 1) \<lparr>seg_bytes_enc = 10, message_id = ''m1''\<rparr>
      \<lparr>pa_file = \<lparr>pf_bytes = [], pf_pos = 0\<rparr>, pa_done = 0, pa_missing = 0, pa_failed = [], pa_fatal = None\<rparr>)
      = [\<lparr>seg_bytes_enc = 10, message_id = ''m1''\<rparr>]"
proof -
  have t: "\<not> is_article_missing (''segment '' @ ''m1'' @ '' after '' @ show_nat seg_attempts @ '' attempts: '' @ ''reset'' @ '': '' @ interrupted)"
    by code_simp
  let ?seg = "\<lparr>seg_bytes_enc = 10, message_id = ''m1''\<rparr>"
  have "run_segment 2 [] (split_world 0) ?seg s = bump ?seg (s\<lparr>pa_missing := pa_missing s + seg_bytes_enc ?seg\<rparr>)" for s
    using backup_miss_gives_up [of "split_world 0" 0 ?seg "''reset''" 1 "[]" s] t
    by (simp add: split_world_def sample_seg_world_def)
  moreover have "run_segment 2 [] (split_world 1) ?seg s = s\<lparr>pa_failed := pa_failed s @ [?seg]\<rparr>" for s
    using backup_miss_gives_up [of "split_world 1" 1 ?seg "''reset''" 0 "[]" s] t
    by (simp add: split_world_def sample_seg_world_def)
  ultimately show ?thesis by (simp add: bump_def)
qed

end
