(* ===== verification/Rarfs.thy ===== *)
theory Rarfs
  imports Reader_At
begin

text \<open>
  Reading a file stored in a multi-volume RAR archive without unpacking it (\<open>shared/usenet/rarfs\<close>):
  the header walks of RAR 4 and RAR 5 collect the fragments of each entry, and \<open>ReadAt\<close> on an entry
  maps an offset to a fragment and reads the volume. A volume is what the code's interface says: a
  \<open>ReadAt\<close> and a \<open>Size\<close>, arguments of the definitions; the contract of \<open>io.ReaderAt\<close> is the locale
  \<open>volumes\<close>, which the Usenet reader of \<open>Reader_At\<close> meets.
\<close>

section \<open>Volumes and entries\<close>

type_synonym 'v vol_read = "'v \<Rightarrow> nat \<Rightarrow> int \<Rightarrow> byte list \<times> read_error option"
type_synonym 'v vol_size = "'v \<Rightarrow> read_error + int"

record frag =
  fr_vol :: nat
  fr_off :: int
  fr_len :: int

record rar_entry =
  re_name :: string
  re_size :: int
  re_streamable :: bool
  re_frags :: "frag list"

definition rar4_sig :: "byte list" where "rar4_sig = [0x52, 0x61, 0x72, 0x21, 0x1a, 0x07, 0x00]"
definition rar5_sig :: "byte list" where "rar5_sig = [0x52, 0x61, 0x72, 0x21, 0x1a, 0x07, 0x01, 0x00]"

datatype rar_error = RarNoVolumes | RarUnreadable | RarNotRar | RarVolume read_error

text \<open>\<open>readSlice\<close>: what could be read, or nothing.\<close>

definition read_slice :: "'v vol_read \<Rightarrow> 'v \<Rightarrow> int \<Rightarrow> nat \<Rightarrow> byte list option" where
  "read_slice rd v off n = (case rd v n off of (bs, _) \<Rightarrow> if bs \<noteq> [] then Some bs else None)"

text \<open>\<open>byName\<close> and \<open>order\<close> together: the entries in order of first appearance.\<close>

definition add_frag :: "string \<Rightarrow> int \<Rightarrow> bool \<Rightarrow> frag \<Rightarrow> rar_entry list \<Rightarrow> rar_entry list" where
  "add_frag name sz streamable f es =
     (let es1 = (if list_ex (\<lambda>e. re_name e = name) es then es
                 else es @ [\<lparr>re_name = name, re_size = sz, re_streamable = streamable, re_frags = []\<rparr>])
      in upd_where (\<lambda>e. re_name e = name)
           (\<lambda>e. e\<lparr>re_size := (if sz > re_size e then sz else re_size e), re_frags := re_frags e @ [f]\<rparr>) es1)"

text \<open>A RAR 5 variable-length integer: value, next position, success; bits beyond 64 are shifted out.\<close>

fun uvint_loop :: "nat \<Rightarrow> byte list \<Rightarrow> nat \<Rightarrow> nat \<Rightarrow> 64 word \<Rightarrow> (64 word \<times> nat) option" where
  "uvint_loop 0 b q sh val = None"
| "uvint_loop (Suc k) b q sh val =
     (if q \<ge> length b then None
      else let c = b ! q; val' = val OR push_bit sh (ucast (c AND 0x7f)) in
        if c AND 0x80 = 0 then Some (val', Suc q) else uvint_loop k b (Suc q) (sh + 7) val')"

definition uvint :: "byte list \<Rightarrow> nat \<Rightarrow> 64 word \<times> nat \<times> bool" where
  "uvint b pos = (case uvint_loop 10 b pos 0 0 of Some (v, q) \<Rightarrow> (v, q, True) | None \<Rightarrow> (0, pos, False))"

definition read_name :: "'v vol_read \<Rightarrow> 'v \<Rightarrow> byte list \<Rightarrow> nat \<Rightarrow> int \<Rightarrow> int \<Rightarrow> string" where
  "read_name rd v buf p block_pos name_len =
     (if name_len \<le> 0 \<or> name_len > 4096 then []
      else let n = nat name_len in
        if p + n \<le> length buf then string_of (take n (drop p buf))
        else case read_slice rd v (block_pos + int p) n of
               None \<Rightarrow> []
             | Some nb \<Rightarrow> if length nb < n then [] else string_of (take n nb))"

section \<open>RAR 5\<close>

definition parse_rar5_file :: "'v vol_read \<Rightarrow> 'v \<Rightarrow> nat \<Rightarrow> byte list \<Rightarrow> nat \<Rightarrow> int \<Rightarrow> int \<Rightarrow> int \<Rightarrow> rar_entry list \<Rightarrow> rar_entry list" where
  "parse_rar5_file rd v vi buf p0 block_pos data_start data_size es =
     (let (fflags, p1, ok1) = uvint buf p0 in if \<not> ok1 then es else
      let (unp_size, p2, ok2) = uvint buf p1 in if \<not> ok2 then es else
      let (_, p3, ok3) = uvint buf p2 in if \<not> ok3 then es else
      let p4 = (if fflags AND 0x2 \<noteq> 0 then p3 + 4 else p3);
          p5 = (if fflags AND 0x4 \<noteq> 0 then p4 + 4 else p4);
          (comp_info, p6, ok6) = uvint buf p5 in if \<not> ok6 then es else
      let (_, p7, ok7) = uvint buf p6 in if \<not> ok7 then es else
      let (name_len, p8, ok8) = uvint buf p7 in if \<not> ok8 then es else
      if fflags AND 0x1 \<noteq> 0 then es
      else let name = read_name rd v buf p8 block_pos (sint name_len) in
        if name = [] then es
        else add_frag name (sint unp_size)
               (drop_bit 7 comp_info AND 0x7 = 0 \<and> drop_bit 6 comp_info AND 0x1 = 0)
               \<lparr>fr_vol = vi, fr_off = data_start, fr_len = data_size\<rparr> es)"

text \<open>One block: the entries after it, and where the next one starts unless the walk stops.\<close>

definition rar5_block :: "'v vol_read \<Rightarrow> 'v \<Rightarrow> nat \<Rightarrow> int \<Rightarrow> rar_entry list \<Rightarrow> rar_entry list \<times> int option" where
  "rar5_block rd v vi pos es =
     (case read_slice rd v pos 4096 of None \<Rightarrow> (es, None)
      | Some buf \<Rightarrow>
        let (hsize, hdr_start, ok1) = uvint buf 4 in if \<not> ok1 \<or> hsize = 0 then (es, None) else
        let (htype, p2, ok2) = uvint buf hdr_start in if \<not> ok2 then (es, None) else
        let (hflags, p3, ok3) = uvint buf p2 in if \<not> ok3 then (es, None) else
        let p4 = (if hflags AND 0x1 \<noteq> 0 then fst (snd (uvint buf p3)) else p3);
            (data_size, p5) = (if hflags AND 0x2 \<noteq> 0 then (fst (uvint buf p4), fst (snd (uvint buf p4))) else (0, p4));
            data_start = wrap64 (pos + int hdr_start + sint hsize);
            nxt = wrap64 (data_start + sint data_size)
        in if htype = 5 then (es, None)
           else let es1 = (if htype = 2 \<and> data_size > 0
                    then parse_rar5_file rd v vi buf p5 pos data_start (sint data_size) es else es)
             in (es1, if nxt \<le> pos then None else Some nxt))"

text \<open>The loop of the walk: every round moves towards the end of the volume.\<close>

function walk_blocks :: "(int \<Rightarrow> rar_entry list \<Rightarrow> rar_entry list \<times> int option) \<Rightarrow> int \<Rightarrow> int \<Rightarrow> rar_entry list \<Rightarrow> rar_entry list" where
  "walk_blocks block lim pos es =
     (if pos \<ge> lim then es
      else case block pos es of (es1, None) \<Rightarrow> es1
        | (es1, Some nxt) \<Rightarrow> if nxt \<le> pos then es1 else walk_blocks block lim nxt es1)"
  by pat_completeness auto
termination
  by (relation "measure (\<lambda>(_, lim, pos, _). nat (lim - pos))") auto

definition walk_rar5 :: "'v vol_read \<Rightarrow> 'v vol_size \<Rightarrow> 'v \<Rightarrow> nat \<Rightarrow> rar_entry list \<Rightarrow> read_error + rar_entry list" where
  "walk_rar5 rd sz v vi es = (case sz v of Inl e \<Rightarrow> Inl e
     | Inr n \<Rightarrow> Inr (walk_blocks (rar5_block rd v vi) n 8 es))"

section \<open>RAR 4\<close>

definition u8_at :: "byte list \<Rightarrow> nat \<Rightarrow> nat" where "u8_at b i = unat (b ! i)"
definition u16_at :: "byte list \<Rightarrow> nat \<Rightarrow> nat" where "u16_at b i = unle (take 2 (drop i b))"
definition u32_at :: "byte list \<Rightarrow> nat \<Rightarrow> nat" where "u32_at b i = unle (take 4 (drop i b))"

text \<open>The data size is completed by the header of a large file, whatever becomes of the entry.\<close>

definition parse_rar4_file :: "'v vol_read \<Rightarrow> 'v \<Rightarrow> nat \<Rightarrow> byte list \<Rightarrow> nat \<Rightarrow> int \<Rightarrow> int \<Rightarrow> int \<Rightarrow> rar_entry list \<Rightarrow> int \<times> rar_entry list" where
  "parse_rar4_file rd v vi buf flags block_pos head_size data_size es =
     (if length buf < 32 then (data_size, es)
      else let large = flags AND 0x100 \<noteq> 0 in
      if large \<and> length buf < 40 then (data_size, es)
      else let unp0 = int (u32_at buf 11);
               ds = (if large then wrap64 (int (u32_at buf 32) * 2 ^ 32) + data_size else data_size);
               unp = (if large then wrap64 (int (u32_at buf 36) * 2 ^ 32) + unp0 else unp0);
               name_off = (if large then 40 else 32)
        in if flags AND 0xe0 = 0xe0 then (ds, es)
           else let name = read_name rd v buf name_off block_pos (int (u16_at buf 26)) in
             if name = [] then (ds, es)
             else (ds, add_frag name unp (u8_at buf 25 = 0x30 \<and> flags AND 0x04 = 0)
                         \<lparr>fr_vol = vi, fr_off = block_pos + head_size, fr_len = ds\<rparr> es))"

definition rar4_block :: "'v vol_read \<Rightarrow> 'v \<Rightarrow> nat \<Rightarrow> int \<Rightarrow> rar_entry list \<Rightarrow> rar_entry list \<times> int option" where
  "rar4_block rd v vi pos es =
     (case read_slice rd v pos 4096 of None \<Rightarrow> (es, None)
      | Some buf \<Rightarrow>
        if length buf < 11 then (es, None)
        else let flags = u16_at buf 3; head_size = int (u16_at buf 5) in
          if head_size < 7 then (es, None)
          else let ds0 = (if flags AND 0x8000 \<noteq> 0 then int (u32_at buf 7) else 0);
                   (ds, es1) = (if u8_at buf 2 = 0x74
                      then parse_rar4_file rd v vi buf flags pos head_size ds0 es else (ds0, es));
                   nxt = wrap64 (pos + head_size + ds)
               in (es1, if nxt \<le> pos then None else Some nxt))"

definition walk_rar4 :: "'v vol_read \<Rightarrow> 'v vol_size \<Rightarrow> 'v \<Rightarrow> nat \<Rightarrow> rar_entry list \<Rightarrow> read_error + rar_entry list" where
  "walk_rar4 rd sz v vi es = (case sz v of Inl e \<Rightarrow> Inl e
     | Inr n \<Rightarrow> Inr (walk_blocks (rar4_block rd v vi) (n - 10) 0 es))"

section \<open>Opening\<close>

fun walk_vols :: "('v \<Rightarrow> nat \<Rightarrow> rar_entry list \<Rightarrow> read_error + rar_entry list) \<Rightarrow> nat \<Rightarrow> 'v list \<Rightarrow> rar_entry list
    \<Rightarrow> rar_error + rar_entry list" where
  "walk_vols walk i [] es = Inr es"
| "walk_vols walk i (v # vs) es = (case walk v i es of Inl e \<Rightarrow> Inl (RarVolume e) | Inr es1 \<Rightarrow> walk_vols walk (Suc i) vs es1)"

definition open_archive :: "'v vol_read \<Rightarrow> 'v vol_size \<Rightarrow> 'v list \<Rightarrow> rar_error + rar_entry list" where
  "open_archive rd sz vols =
     (if vols = [] then Inl RarNoVolumes
      else case read_slice rd (hd vols) 0 8 of
        None \<Rightarrow> Inl RarUnreadable
      | Some head \<Rightarrow>
          if length head < 7 then Inl RarUnreadable
          else if length head \<ge> 8 \<and> take 8 head = rar5_sig then walk_vols (walk_rar5 rd sz) 0 vols []
          else if take 7 head = rar4_sig then walk_vols (walk_rar4 rd sz) 0 vols []
          else Inl RarNotRar)"

section \<open>Reading an entry\<close>

text \<open>The fragment an offset falls into, and the offset the fragment starts at.\<close>

fun find_frag :: "frag list \<Rightarrow> int \<Rightarrow> int \<Rightarrow> (frag \<times> int) option" where
  "find_frag [] base off = None"
| "find_frag (f # fs) base off = (if off < base + fr_len f then Some (f, base) else find_frag fs (base + fr_len f) off)"

text \<open>
  The loop need not make progress: a volume may return nothing and \<open>EOF\<close>, which the loop ignores. So
  it takes fuel; \<open>None\<close> is running out of it.
\<close>

fun entry_read_loop :: "nat \<Rightarrow> 'v vol_read \<Rightarrow> 'v list \<Rightarrow> frag list \<Rightarrow> nat \<Rightarrow> int \<Rightarrow> byte list
    \<Rightarrow> (byte list \<times> read_error option) option" where
  "entry_read_loop 0 rd vols fs len off acc = None"
| "entry_read_loop (Suc fuel) rd vols fs len off acc =
     (if length acc \<ge> len then Some (acc, None)
      else let o' = off + int (length acc) in
      (case find_frag fs 0 o' of
         None \<Rightarrow> Some (acc, Some ReadEOF)
       | Some (f, base) \<Rightarrow>
           let want = min (nat (base + fr_len f - o')) (len - length acc) in
           (case rd (vols ! fr_vol f) want (fr_off f + (o' - base)) of
              (bs, e) \<Rightarrow> if e \<noteq> None \<and> e \<noteq> Some ReadEOF then Some (acc @ bs, e)
                         else entry_read_loop fuel rd vols fs len off (acc @ bs))))"

definition entry_read_at :: "nat \<Rightarrow> 'v vol_read \<Rightarrow> 'v list \<Rightarrow> rar_entry \<Rightarrow> nat \<Rightarrow> int \<Rightarrow> (byte list \<times> read_error option) option" where
  "entry_read_at fuel rd vols e len off = entry_read_loop fuel rd vols (re_frags e) len off []"

text \<open>A fragment inside its volume, and the bytes it stands for.\<close>

definition frag_bytes :: "('v \<Rightarrow> byte list) \<Rightarrow> 'v list \<Rightarrow> frag \<Rightarrow> byte list" where
  "frag_bytes content vols f = take (nat (fr_len f)) (drop (nat (fr_off f)) (content (vols ! fr_vol f)))"

definition frag_inside :: "('v \<Rightarrow> byte list) \<Rightarrow> 'v list \<Rightarrow> frag \<Rightarrow> bool" where
  "frag_inside content vols f \<longleftrightarrow> fr_vol f < length vols \<and> 0 \<le> fr_off f \<and> 0 < fr_len f
     \<and> nat (fr_off f) + nat (fr_len f) \<le> length (content (vols ! fr_vol f))"

definition entry_content :: "('v \<Rightarrow> byte list) \<Rightarrow> 'v list \<Rightarrow> frag list \<Rightarrow> byte list" where
  "entry_content content vols fs = concat (map (frag_bytes content vols) fs)"

section \<open>The contract of a volume\<close>

text \<open>
  \<open>io.ReaderAt\<close> on a volume with given contents: a read returns the bytes that are there, and \<open>EOF\<close>
  exactly when they are fewer than asked for.
\<close>

locale volumes =
  fixes rd :: "'v vol_read" and sz :: "'v vol_size" and content :: "'v \<Rightarrow> byte list" and valid :: "'v \<Rightarrow> bool"
  assumes reads: "valid v \<Longrightarrow> 0 \<le> off \<Longrightarrow> rd v n off = (take n (drop (nat off) (content v)),
      if n = 0 \<or> nat off + n \<le> length (content v) then None else Some ReadEOF)"
    and sizes: "valid v \<Longrightarrow> sz v = Inr (int (length (content v)))"
begin

lemma frag_bytes_length: "frag_inside content vols f \<Longrightarrow> length (frag_bytes content vols f) = nat (fr_len f)"
  by (auto simp: frag_bytes_def frag_inside_def)

lemma find_frag_inside:
  assumes "\<forall>f\<in>set fs. frag_inside content vols f" and "base \<le> off"
  shows "if nat (off - base) < length (concat (map (frag_bytes content vols) fs))
    then \<exists>f b. find_frag fs base off = Some (f, b) \<and> f \<in> set fs \<and> base \<le> b \<and> b \<le> off \<and> off < b + fr_len f
      \<and> (\<forall>k\<le>nat (b + fr_len f - off). take k (drop (nat (off - base)) (concat (map (frag_bytes content vols) fs)))
           = take k (drop (nat (off - b)) (frag_bytes content vols f)))
    else find_frag fs base off = None"
  using assms
proof (induction fs arbitrary: base)
  case (Cons f fs)
  have f: "frag_inside content vols f" and fs: "\<forall>f\<in>set fs. frag_inside content vols f" using Cons.prems(1) by auto
  have len: "length (frag_bytes content vols f) = nat (fr_len f)" "0 < fr_len f"
    using frag_bytes_length [OF f] f by (auto simp: frag_inside_def)
  show ?case
  proof (cases "off < base + fr_len f")
    case True
    have "nat (off - base) < nat (fr_len f)" using True Cons.prems(2) by simp
    moreover have "take k (drop (nat (off - base)) (frag_bytes content vols f @ rest)) = take k (drop (nat (off - base)) (frag_bytes content vols f))"
      if "k \<le> nat (base + fr_len f - off)" for k rest
    proof -
      have "k \<le> length (drop (nat (off - base)) (frag_bytes content vols f))" using that True Cons.prems(2) len by simp
      then show ?thesis using len True Cons.prems(2) by simp
    qed
    ultimately show ?thesis using True Cons.prems(2) len by auto
  next
    case False
    let ?base = "base + fr_len f"
    have n: "nat (off - base) = nat (fr_len f) + nat (off - ?base)" using False len(2) by simp
    have d: "drop (nat (off - base)) (concat (map (frag_bytes content vols) (f # fs))) = drop (nat (off - ?base)) (concat (map (frag_bytes content vols) fs))"
      using len by (simp add: n)
    have l: "nat (off - base) < length (concat (map (frag_bytes content vols) (f # fs)))
        \<longleftrightarrow> nat (off - ?base) < length (concat (map (frag_bytes content vols) fs))"
      using len by (simp add: n)
    have ih: "if nat (off - ?base) < length (concat (map (frag_bytes content vols) fs))
      then \<exists>g b. find_frag fs ?base off = Some (g, b) \<and> g \<in> set fs \<and> ?base \<le> b \<and> b \<le> off \<and> off < b + fr_len g
        \<and> (\<forall>k\<le>nat (b + fr_len g - off). take k (drop (nat (off - ?base)) (concat (map (frag_bytes content vols) fs)))
             = take k (drop (nat (off - b)) (frag_bytes content vols g)))
      else find_frag fs ?base off = None"
      using Cons.IH [OF fs, of ?base] False by simp
    have step: "find_frag (f # fs) base off = find_frag fs ?base off" using False by simp
    show ?thesis
    proof (cases "nat (off - ?base) < length (concat (map (frag_bytes content vols) fs))")
      case True
      with ih obtain g b where g: "find_frag fs ?base off = Some (g, b)" "g \<in> set fs" "?base \<le> b" "b \<le> off" "off < b + fr_len g"
        "\<forall>k\<le>nat (b + fr_len g - off). take k (drop (nat (off - ?base)) (concat (map (frag_bytes content vols) fs)))
             = take k (drop (nat (off - b)) (frag_bytes content vols g))" by auto
      have "base \<le> b" using g(3) len(2) by simp
      with True g show ?thesis unfolding l step d by (intro if_P [THEN iffD2]) auto
    next
      case False
      with ih show ?thesis unfolding l step by simp
    qed
  qed
qed simp

text \<open>Reading an entry is slicing the concatenation of its fragments; \<open>len\<close> rounds are enough.\<close>

lemma entry_read_loop_exact:
  assumes "\<forall>v\<in>set vols. valid v" and "\<forall>f\<in>set fs. frag_inside content vols f"
    and "acc = take (length acc) (drop off (entry_content content vols fs))" and "length acc \<le> len" and "len - length acc < fuel"
  shows "entry_read_loop fuel rd vols fs len (int off) acc =
    Some (take len (drop off (entry_content content vols fs)),
          if len = 0 \<or> off + len \<le> length (entry_content content vols fs) then None else Some ReadEOF)"
  using assms
proof (induction fuel arbitrary: acc)
  case (Suc fuel)
  let ?all = "entry_content content vols fs" and ?o = "off + length acc"
  have acc_le: "length acc \<le> length ?all - off"
    using Suc.prems(3) by (metis length_drop length_take min.cobounded1)
  have ff: "if ?o < length ?all
    then \<exists>f b. find_frag fs 0 (int ?o) = Some (f, b) \<and> f \<in> set fs \<and> 0 \<le> b \<and> b \<le> int ?o \<and> int ?o < b + fr_len f
      \<and> (\<forall>k\<le>nat (b + fr_len f - int ?o). take k (drop ?o ?all) = take k (drop (nat (int ?o - b)) (frag_bytes content vols f)))
    else find_frag fs 0 (int ?o) = None"
  proof -
    have n: "nat (int ?o - 0) = ?o" by simp
    show ?thesis
      using find_frag_inside [OF Suc.prems(2), of 0 "int ?o", OF of_nat_0_le_iff] unfolding entry_content_def n .
  qed
  show ?case
  proof (cases "length acc \<ge> len")
    case True
    with Suc.prems(3,4) have "acc = take len (drop off ?all)" by simp
    moreover have "len = 0 \<or> off + len \<le> length ?all" using True Suc.prems(4) acc_le by linarith
    ultimately show ?thesis using True by auto
  next
    case False
    show ?thesis
    proof (cases "?o < length ?all")
      case True
      with ff obtain f b where f: "find_frag fs 0 (int ?o) = Some (f, b)" "f \<in> set fs" "0 \<le> b" "b \<le> int ?o" "int ?o < b + fr_len f"
        "\<forall>k\<le>nat (b + fr_len f - int ?o). take k (drop ?o ?all) = take k (drop (nat (int ?o - b)) (frag_bytes content vols f))"
        by auto
      have ins: "frag_inside content vols f" using f(2) Suc.prems(2) by blast
      have val: "valid (vols ! fr_vol f)" using ins Suc.prems(1) by (simp add: frag_inside_def)
      define want where "want = min (nat (b + fr_len f - int ?o)) (len - length acc)"
      define new where "new = take want (drop (nat (fr_off f + (int ?o - b))) (content (vols ! fr_vol f)))"
      have pos: "0 < want" using f(5) False by (simp add: want_def)
      have inside: "nat (fr_off f + (int ?o - b)) + want \<le> length (content (vols ! fr_vol f))"
        using ins f(3-5) by (auto simp: frag_inside_def want_def min_def)
      have read: "rd (vols ! fr_vol f) want (fr_off f + (int ?o - b)) = (new, None)"
        using reads [OF val, of "fr_off f + (int ?o - b)" want] ins f(4) inside
        by (simp add: new_def frag_inside_def)
      have len_new: "length new = want" using inside by (simp add: new_def)
      have step: "entry_read_loop (Suc fuel) rd vols fs len (int off) acc = entry_read_loop fuel rd vols fs len (int off) (acc @ new)"
        using False f(1) read by (simp add: Let_def want_def)
      have eq: "new = take want (drop ?o ?all)"
      proof -
        have "want \<le> nat (b + fr_len f - int ?o)" by (simp add: want_def)
        then have "take want (drop ?o ?all) = take want (drop (nat (int ?o - b)) (frag_bytes content vols f))" using f(6) by blast
        also have "\<dots> = new"
        proof -
          have "nat (fr_off f + (int ?o - b)) = nat (int ?o - b) + nat (fr_off f)"
            using ins f(4) by (simp add: frag_inside_def nat_add_distrib)
          moreover have "nat (fr_len f) - nat (int ?o - b) = nat (b + fr_len f - int ?o)" using f(3,4,5) by linarith
          ultimately show ?thesis
            using \<open>want \<le> nat (b + fr_len f - int ?o)\<close>
            by (simp add: new_def frag_bytes_def drop_take min.absorb1 add.commute)
        qed
        finally show ?thesis by simp
      qed
      have acc': "acc @ new = take (length (acc @ new)) (drop off ?all)"
      proof -
        have "take (length acc + want) (drop off ?all) = take (length acc) (drop off ?all) @ take want (drop ?o ?all)"
          using take_add [of "length acc" want "drop off ?all"] by (simp only: drop_drop add.commute [of off])
        then show ?thesis using Suc.prems(3) eq len_new by simp
      qed
      have "length (acc @ new) \<le> len" "len - length (acc @ new) < fuel"
        using len_new pos False Suc.prems(5) by (auto simp: want_def)
      from Suc.IH [OF Suc.prems(1,2) acc' this] show ?thesis unfolding step .
    next
      case False': False
      have "acc = take len (drop off ?all)"
        using acc_le False' Suc.prems(3,4) by (cases "length ?all \<le> off") auto
      moreover have "\<not> (len = 0 \<or> off + len \<le> length ?all)" using False False' by auto
      ultimately show ?thesis using False False' ff by simp
    qed
  qed
qed simp

end

section \<open>Usenet volumes\<close>

text \<open>
  The volumes the stream service uses: files of a release read through \<open>FileReaderAt\<close>. A reader with
  any consistent cache answers like a fresh one, so the volume's functions start from a fresh one.
\<close>

type_synonym usenet_file = "fetch \<times> nzb_segment list \<times> byte list list"

definition usenet_read :: "usenet_file vol_read" where
  "usenet_read v n off = (case v of (fetch, segs, ds) \<Rightarrow> fst (read_at fetch segs [] n off new_reader_at))"

definition usenet_size :: "usenet_file vol_size" where
  "usenet_size v = (case v of (fetch, segs, ds) \<Rightarrow> fst (reader_size fetch segs new_reader_at))"

definition usenet_content :: "usenet_file \<Rightarrow> byte list" where
  "usenet_content v = (case v of (fetch, segs, ds) \<Rightarrow> concat ds)"

definition usenet_complete :: "usenet_file \<Rightarrow> bool" where
  "usenet_complete v = (case v of (fetch, segs, ds) \<Rightarrow> parts_complete fetch segs ds)"

interpretation usenet: volumes usenet_read usenet_size usenet_content usenet_complete
proof
  fix v :: usenet_file and off :: int and n
  obtain fetch segs ds where v: "v = (fetch, segs, ds)" by (cases v)
  assume c: "usenet_complete v"
  then have c': "parts_complete fetch segs ds" by (simp add: usenet_complete_def v)
  show "0 \<le> off \<Longrightarrow> usenet_read v n off = (take n (drop (nat off) (usenet_content v)),
      if n = 0 \<or> nat off + n \<le> length (usenet_content v) then None else Some ReadEOF)"
    using read_at_complete [OF c' new_reader_ok, of "[]" n "nat off"]
    by (simp add: usenet_read_def usenet_content_def v)
  show "usenet_size v = Inr (int (length (usenet_content v)))"
    using reader_size_complete [OF c' new_reader_ok] by (simp add: usenet_size_def usenet_content_def v)
qed

section \<open>Properties\<close>

text \<open>
  C29: streaming out of an archive is exact: on complete volumes, reading an entry at any offset gives
  the bytes of its fragments in order, whichever volumes they lie in, and the loop of \<open>ReadAt\<close> ends
  within one round per byte of the buffer.
\<close>

theorem rar_entry_reads_exact:
  assumes "\<forall>v\<in>set vols. usenet_complete v" and "\<forall>f\<in>set (re_frags e). frag_inside usenet_content vols f"
  shows "entry_read_at (Suc len) usenet_read vols e len (int off) =
    Some (take len (drop off (entry_content usenet_content vols (re_frags e))),
          if len = 0 \<or> off + len \<le> length (entry_content usenet_content vols (re_frags e)) then None else Some ReadEOF)"
  unfolding entry_read_at_def by (rule usenet.entry_read_loop_exact) (use assms in simp_all)

definition sample_rar_entry :: rar_entry where
  "sample_rar_entry = \<lparr>re_name = ''film.mkv'', re_size = 4, re_streamable = True,
     re_frags = [\<lparr>fr_vol = 0, fr_off = 3, fr_len = 2\<rparr>, \<lparr>fr_vol = 1, fr_off = 1, fr_len = 2\<rparr>]\<rparr>"

definition sample_volume :: usenet_file where
  "sample_volume = (two_articles, two_segments, [[1, 2, 3], [4, 5]])"

lemma sample_volume_simps [simp]:
  "usenet_complete sample_volume" "usenet_content sample_volume = [1, 2, 3, 4, 5]"
  by (simp_all add: sample_volume_def usenet_complete_def two_complete usenet_content_def)

theorem rar_entry_reads_exact_witness:
  "entry_read_at 4 usenet_read [sample_volume, sample_volume] sample_rar_entry 3 1 = Some ([5, 2, 3], None)"
  using rar_entry_reads_exact [of "[sample_volume, sample_volume]" sample_rar_entry 3 1]
  by (simp add: sample_rar_entry_def frag_inside_def entry_content_def frag_bytes_def)

text \<open>
  A volume that is shorter than a header says makes the read spin: when the offset falls into a
  fragment whose bytes the volume does not have, \<open>EOF\<close> with no data is taken for progress and the
  loop never ends.
\<close>

theorem truncated_volume_read_diverges:
  assumes "\<forall>v\<in>set vols. usenet_complete v" and "find_frag (re_frags e) 0 (int off) = Some (f, b)"
    and "fr_vol f < length vols" and "0 \<le> fr_off f" and "b \<le> int off" and "0 < len"
    and "int (length (usenet_content (vols ! fr_vol f))) \<le> fr_off f + (int off - b)"
    and "int off < b + fr_len f"
  shows "entry_read_at fuel usenet_read vols e len (int off) = None"
  unfolding entry_read_at_def
proof (induction fuel)
  case (Suc fuel)
  let ?want = "min (nat (b + fr_len f - int off)) len"
  have "usenet_complete (vols ! fr_vol f)" using assms(1,3) by simp
  then have "usenet_read (vols ! fr_vol f) ?want (fr_off f + (int off - b)) = ([], Some ReadEOF)"
    using usenet.reads [of "vols ! fr_vol f" "fr_off f + (int off - b)" ?want] assms(4-8) by (auto simp: min_def)
  with Suc.IH assms(2,6) show ?case by (simp add: Let_def)
qed simp

theorem truncated_volume_read_diverges_witness:
  "entry_read_at 9 usenet_read [sample_volume]
     \<lparr>re_name = ''film.mkv'', re_size = 7, re_streamable = True, re_frags = [\<lparr>fr_vol = 0, fr_off = 3, fr_len = 7\<rparr>]\<rparr> 2 (int 4) = None"
  by (rule truncated_volume_read_diverges [where f = "\<lparr>fr_vol = 0, fr_off = 3, fr_len = 7\<rparr>" and b = 0]) simp_all

end
