(* ===== verification/Usenet_Volumes.thy ===== *)
theory Usenet_Volumes
  imports Usenet_Download Rarfs
begin

text \<open>
  What is streamed of a Usenet release: the classification of \<open>stream.go\<close> and \<open>stream_direct.go\<close>, the
  order of the archive volumes (\<open>order.go\<close>), the names in a PAR2 set (\<open>shared/usenet/par2\<close>), and the census
  of articles (\<open>census.go\<close>). MD5 is a parameter; a file is read through the reader of \<open>Reader_At\<close>, over
  the articles that \<open>fetch_of\<close> gives for it.
\<close>

section \<open>Kinds of files\<close>

definition is_rar_name :: "string \<Rightarrow> bool" where
  "is_rar_name n \<longleftrightarrow> has_suffix n ''.rar''
     \<or> (4 \<le> length n \<and> n ! (length n - 4) = CHR ''.'' \<and> n ! (length n - 3) = CHR ''r''
        \<and> is_digit (n ! (length n - 2)) \<and> is_digit (n ! (length n - 1)))"

definition is_archive :: "string \<Rightarrow> bool" where
  "is_archive n \<longleftrightarrow> has_suffix n ''.rar'' \<or> has_suffix n ''.7z'' \<or> has_suffix n ''.zip'' \<or> contains_str n ''.par2''
     \<or> (4 \<le> length n \<and> n ! (length n - 4) = CHR ''.'' \<and> is_digit (n ! (length n - 2)) \<and> is_digit (n ! (length n - 1))
        \<and> (n ! (length n - 3) = CHR ''r'' \<or> is_digit (n ! (length n - 3))))"

text \<open>The loop of \<open>Streamable\<close>: the last video seen and how many there were.\<close>

fun streamable_loop :: "nzb_file list \<Rightarrow> nzb_file option \<Rightarrow> nat \<Rightarrow> nzb_file option" where
  "streamable_loop [] vid found = (if found = 1 then vid else None)"
| "streamable_loop (f # fs) vid found =
     (let name = to_lower (nzb_file_name f) in
      if contains_str name ''.par2'' then streamable_loop fs vid found
      else if is_archive name then None
      else if is_optional name then streamable_loop fs vid found
      else if is_video name then streamable_loop fs (Some f) (Suc found)
      else streamable_loop fs vid found)"

definition streamable :: "nzb \<Rightarrow> nzb_file option" where
  "streamable n = streamable_loop (nz_files n) None 0"

datatype stream_kind = KindNone | KindDirect nzb_file | KindArchive

definition classify :: "nzb \<Rightarrow> stream_kind" where
  "classify n =
     (case streamable n of Some f \<Rightarrow> KindDirect f
      | None \<Rightarrow> if list_ex (\<lambda>f. let name = to_lower (nzb_file_name f) in is_rar_name name \<or> contains_str name ''.par2'') (nz_files n)
                then KindArchive else KindNone)"

section \<open>Names in a PAR2 set\<close>

definition par2_magic :: "byte list" where "par2_magic = bytes_of ''PAR2'' @ [0] @ bytes_of ''PKT''"

definition file_desc_type :: "byte list" where "file_desc_type = bytes_of ''PAR 2.0'' @ [0] @ bytes_of ''FileDesc''"

definition hex_bytes :: "byte list \<Rightarrow> string" where
  "hex_bytes bs = hex_encode (map unat bs)"

definition trim_zeros :: "byte list \<Rightarrow> byte list" where
  "trim_zeros bs = rev (dropWhile (\<lambda>b. b = 0) (rev bs))"

type_synonym names = "string \<rightharpoonup> string"

text \<open>
  The scan at position \<open>i\<close>. Lengths are 64-bit and their sum wraps, so a packet may say that the next one is
  before it: the slice of its body then panics, and if there is none to take, the scan goes back. \<open>None\<close>
  is running out of fuel.
\<close>

datatype scan = Panics | Names names

definition scan_packet :: "byte list \<Rightarrow> nat \<Rightarrow> names \<Rightarrow> scan + nat \<times> names" where
  "scan_packet data i out =
     (if length data < i + 64 then Inl (Names out)
      else if take 8 (drop i data) \<noteq> par2_magic then Inr (Suc i, out)
      else let len = unle (take 8 (drop (i + 8) data)); e = (i + len) mod 2 ^ 64 in
      if len < 64 \<or> length data < e then Inl (Names out)
      else if take 16 (drop (i + 48) data) \<noteq> file_desc_type then Inr (e, out)
      else if e < i + 64 then Inl Panics
      else let body = take (e - (i + 64)) (drop (i + 64) data); h = hex_bytes (take 16 (drop 32 body));
               name = string_of (trim_zeros (drop 56 body)) in
      Inr (e, if 56 \<le> length body \<and> name \<noteq> [] then out(h \<mapsto> path_base name) else out))"

fun scan_packets :: "nat \<Rightarrow> byte list \<Rightarrow> nat \<Rightarrow> names \<Rightarrow> scan option" where
  "scan_packets 0 data i out = None"
| "scan_packets (Suc fuel) data i out =
     (case scan_packet data i out of Inl r \<Rightarrow> Some r | Inr (j, out1) \<Rightarrow> scan_packets fuel data j out1)"

definition file_descs :: "nat \<Rightarrow> byte list \<Rightarrow> names \<Rightarrow> scan option" where
  "file_descs fuel data out = scan_packets fuel data 0 out"

definition hash16k :: "(byte list \<Rightarrow> byte list) \<Rightarrow> byte list \<Rightarrow> string" where
  "hash16k md5 data = hex_bytes (md5 (take 16384 data))"

definition is_par2 :: "byte list \<Rightarrow> bool" where
  "is_par2 data \<longleftrightarrow> 8 \<le> length data \<and> take 8 data = par2_magic"

section \<open>The order of volumes\<close>

definition digits_at :: "string \<Rightarrow> nat \<Rightarrow> int" where
  "digits_at s i = foldl (\<lambda>n c. wrap64 (n * 10 + int (digit_val c))) 0 (takeWhile is_digit (drop i s))"

definition rar_vol_num :: "string \<Rightarrow> int" where
  "rar_vol_num name =
     (let n = to_lower name in
      case last_index_of n ''.part'' of
        Some i \<Rightarrow> digits_at n (i + 5)
      | None \<Rightarrow>
          if has_suffix n ''.rar'' then 0
          else if 4 \<le> length n \<and> n ! (length n - 4) = CHR ''.'' \<and> n ! (length n - 3) = CHR ''r''
              \<and> is_digit (n ! (length n - 2)) \<and> is_digit (n ! (length n - 1))
          then 1 + int (digit_val (n ! (length n - 2))) * 10 + int (digit_val (n ! (length n - 1)))
          else 2 ^ 20)"

record vol_cand =
  vc_file :: nzb_file
  vc_name :: string

definition is_par2_file :: "nzb_file \<Rightarrow> bool" where
  "is_par2_file f \<longleftrightarrow> contains_str (to_lower (nzb_file_name f)) ''.par2''"

definition is_volume_file :: "nzb_file \<Rightarrow> bool" where
  "is_volume_file f \<longleftrightarrow> \<not> is_par2_file f
     \<and> \<not> (is_optional (to_lower (nzb_file_name f)) \<and> \<not> is_rar_name (to_lower (nzb_file_name f)))"

definition vol_cands :: "nzb \<Rightarrow> vol_cand list" where
  "vol_cands n = map (\<lambda>f. \<lparr>vc_file = f, vc_name = nzb_file_name f\<rparr>) (filter is_volume_file (nz_files n))"

definition needs_deobf :: "vol_cand list \<Rightarrow> bool" where
  "needs_deobf cs \<longleftrightarrow> \<not> list_ex (\<lambda>c. is_rar_name (to_lower (vc_name c))) cs"

fun smallest_file :: "nzb_file \<Rightarrow> nzb_file list \<Rightarrow> nzb_file" where
  "smallest_file small [] = small"
| "smallest_file small (f # fs) = smallest_file (if nzb_file_size f < nzb_file_size small then f else small) fs"

text \<open>The whole of a small file, as far as it can be read; nothing of one over 64 MB.\<close>

definition read_all :: "fetch \<Rightarrow> nzb_segment list \<Rightarrow> byte list" where
  "read_all fetch segs =
     (case reader_size fetch segs new_reader_at of
        (Inl e, r) \<Rightarrow> []
      | (Inr n, r) \<Rightarrow> if n \<le> 0 \<or> n > 64 * 1024 * 1024 then [] else fst (fst (read_at fetch segs [] (nat n) 0 r)))"

definition rename_cand :: "(byte list \<Rightarrow> byte list) \<Rightarrow> (nzb_file \<Rightarrow> fetch) \<Rightarrow> names \<Rightarrow> vol_cand \<Rightarrow> vol_cand" where
  "rename_cand md5 fetch_of names c =
     (let head = fst (fst (read_at (fetch_of (vc_file c)) (nf_segments (vc_file c)) [] (64 * 1024) 0 new_reader_at)) in
      case names (hash16k md5 head) of None \<Rightarrow> c
      | Some real \<Rightarrow> if real = [] then c else c\<lparr>vc_name := real\<rparr>)"

text \<open>\<open>None\<close>: the scan panics or does not end within the fuel.\<close>

definition deobfuscate :: "nat \<Rightarrow> (byte list \<Rightarrow> byte list) \<Rightarrow> (nzb_file \<Rightarrow> fetch) \<Rightarrow> vol_cand list \<Rightarrow> nzb_file list \<Rightarrow> vol_cand list option" where
  "deobfuscate fuel md5 fetch_of cs par2s =
     (let small = smallest_file (hd par2s) (tl par2s) in
      case file_descs fuel (read_all (fetch_of small) (nf_segments small)) Map.empty of
        Some (Names names) \<Rightarrow> Some (if names = Map.empty then cs else map (rename_cand md5 fetch_of names) cs)
      | _ \<Rightarrow> None)"

definition order_volumes :: "nat \<Rightarrow> (byte list \<Rightarrow> byte list) \<Rightarrow> (nzb_file \<Rightarrow> fetch) \<Rightarrow> nzb \<Rightarrow> (string + vol_cand list) option" where
  "order_volumes fuel md5 fetch_of n =
     (let cs = vol_cands n; par2s = filter is_par2_file (nz_files n) in
      if cs = [] then Some (Inl ''usenet: no archive volumes'')
      else map_option (\<lambda>cs1. Inr (sort_key (\<lambda>c. rar_vol_num (vc_name c)) cs1))
        (if needs_deobf cs \<and> par2s \<noteq> [] then deobfuscate fuel md5 fetch_of cs par2s else Some cs))"

section \<open>Opening a stream\<close>

text \<open>The largest streamable video of an archive, the first of equals.\<close>

fun pick_inner :: "rar_entry list \<Rightarrow> rar_entry option \<Rightarrow> rar_entry option" where
  "pick_inner [] best = best"
| "pick_inner (e # es) best =
     (if \<not> re_streamable e \<or> \<not> is_video (re_name e) then pick_inner es best
      else pick_inner es (case best of None \<Rightarrow> Some e | Some b \<Rightarrow> if re_size e > re_size b then Some e else best))"

definition volume_of :: "(nzb_file \<Rightarrow> fetch) \<Rightarrow> vol_cand \<Rightarrow> usenet_file" where
  "volume_of fetch_of c = (fetch_of (vc_file c), nf_segments (vc_file c), [])"

datatype stream_error = NotStreamable | NoVolumes | NoInnerVideo | ArchiveError rar_error | SizeError read_error

datatype opened_stream = OpenFile nzb_file int | OpenEntry "vol_cand list" rar_entry

definition open_stream :: "nat \<Rightarrow> (byte list \<Rightarrow> byte list) \<Rightarrow> (nzb_file \<Rightarrow> fetch) \<Rightarrow> nzb \<Rightarrow> (stream_error + opened_stream) option" where
  "open_stream fuel md5 fetch_of n =
     (case classify n of
        KindNone \<Rightarrow> Some (Inl NotStreamable)
      | KindDirect f \<Rightarrow> Some (case fst (reader_size (fetch_of f) (nf_segments f) new_reader_at) of
          Inl e \<Rightarrow> Inl (SizeError e) | Inr sz \<Rightarrow> Inr (OpenFile f sz))
      | KindArchive \<Rightarrow> map_option (\<lambda>r. case r of
          Inl _ \<Rightarrow> Inl NoVolumes
        | Inr cs \<Rightarrow> (case open_archive usenet_read usenet_size (map (volume_of fetch_of) cs) of
            Inl e \<Rightarrow> Inl (ArchiveError e)
          | Inr es \<Rightarrow> (case pick_inner es None of None \<Rightarrow> Inl NoInnerVideo | Some e \<Rightarrow> Inr (OpenEntry cs e))))
        (order_volumes fuel md5 fetch_of n))"

section \<open>The census of articles\<close>

datatype census_verdict = CensusClean | CensusDegraded | CensusUnstreamable

definition census_sample :: nat where "census_sample = 24"

definition census_step :: "nat \<Rightarrow> int \<Rightarrow> nat" where
  "census_step tot sample =
     (let sm = (if sample \<le> 0 \<or> sample > int tot then int tot else sample); st = tot div nat sm in if st < 1 then 1 else st)"

text \<open>The indexes asked for: every \<open>step\<close>-th below \<open>tot\<close>.\<close>

definition census_idxs :: "nat \<Rightarrow> int \<Rightarrow> nat list" where
  "census_idxs tot sample = map (\<lambda>k. k * census_step tot sample) [0..<(tot + census_step tot sample - 1) div census_step tot sample]"

text \<open>\<open>there i\<close>: segment \<open>i\<close> was found, before the context was cancelled.\<close>

definition census :: "(nat \<Rightarrow> bool) \<Rightarrow> nat \<Rightarrow> int \<Rightarrow> census_verdict" where
  "census there tot sample =
     (if tot = 0 then CensusUnstreamable
      else let idxs = census_idxs tot sample; missing = length (filter (\<lambda>i. \<not> there i) idxs) in
        if missing = 0 then CensusClean
        else if int (missing * tot div length idxs) > max_pad_total then CensusUnstreamable else CensusDegraded)"

text \<open>One provider: a connection, the group, the \<open>STAT\<close>; then the providers in turn, until the context ends.\<close>

definition stat_from_pool :: "string \<Rightarrow> attempt \<Rightarrow> bool \<Rightarrow> bool" where
  "stat_from_pool grp a found \<longleftrightarrow> at_conn a = None \<and> (grp = [] \<or> at_group a = None) \<and> found"

fun stat_segment :: "(nat \<Rightarrow> bool) \<Rightarrow> (nat \<Rightarrow> attempt) \<Rightarrow> (nat \<Rightarrow> bool) \<Rightarrow> string \<Rightarrow> nat list \<Rightarrow> bool" where
  "stat_segment halt net found grp [] = False"
| "stat_segment halt net found grp (p # ps) =
     (if halt p then False else if stat_from_pool grp (net p) (found p) then True else stat_segment halt net found grp ps)"

definition census_release :: "(nat \<Rightarrow> bool) \<Rightarrow> nzb \<Rightarrow> census_verdict" where
  "census_release there n =
     (case streamable n of None \<Rightarrow> CensusClean
      | Some f \<Rightarrow> census there (length (nf_segments f)) (int census_sample))"

section \<open>Reading a PAR2 set\<close>

text \<open>
  Packets as the format has them: the magic, the length of the whole packet, hash and set id, the type, the
  body; the body of a file description has the file's id and hash, the hash of its first 16 KB, its
  length, and its name, padded with zeros.
\<close>

datatype par2_part =
    PartDesc "byte list" "byte list" "byte list" "byte list" string nat
  | PartOther "byte list" "byte list" "byte list"

definition par2_packet :: "byte list \<Rightarrow> byte list \<Rightarrow> byte list \<Rightarrow> byte list" where
  "par2_packet ids ty body = par2_magic @ le64 (64 + length body) @ ids @ ty @ body"

fun part_bytes :: "par2_part \<Rightarrow> byte list" where
  "part_bytes (PartDesc ids fid h16 len name pad) =
     par2_packet ids file_desc_type (fid @ h16 @ len @ bytes_of name @ replicate pad 0)"
| "part_bytes (PartOther ids ty body) = par2_packet ids ty body"

fun par2_part_ok :: "par2_part \<Rightarrow> bool" where
  "par2_part_ok (PartDesc ids fid h16 len name pad) \<longleftrightarrow> length ids = 32 \<and> length fid = 32 \<and> length h16 = 16 \<and> length len = 8
     \<and> name \<noteq> [] \<and> code_of (last name) \<noteq> 0"
| "par2_part_ok (PartOther ids ty body) \<longleftrightarrow> length ids = 32 \<and> length ty = 16 \<and> ty \<noteq> file_desc_type"

fun part_names :: "par2_part \<Rightarrow> names \<Rightarrow> names" where
  "part_names (PartDesc ids fid h16 len name pad) out = out(hex_bytes h16 \<mapsto> path_base name)"
| "part_names (PartOther ids ty body) out = out"

lemma magic_lengths [simp]: "length par2_magic = 8" "length file_desc_type = 16"
  by (simp_all add: par2_magic_def file_desc_type_def)

lemma trim_zeros_name: "name \<noteq> [] \<Longrightarrow> code_of (last name) \<noteq> 0 \<Longrightarrow> trim_zeros (bytes_of name @ replicate pad 0) = bytes_of name"
proof -
  assume n: "name \<noteq> []" "code_of (last name) \<noteq> 0"
  have z: "dropWhile (\<lambda>b. b = 0) (replicate pad 0 @ ys) = dropWhile (\<lambda>b. b = (0 :: byte)) ys" for ys
    by (induction pad) simp_all
  have b0: "byte_of (last name) \<noteq> 0"
  proof
    assume z: "byte_of (last name) = 0"
    have "last name = char_of (unat (byte_of (last name)))" by simp
    also have "\<dots> = char_of (0 :: nat)" unfolding z by simp
    finally have "last name = char_of (0 :: nat)" .
    then show False using n(2) by (simp add: code_of_def)
  qed
  have "bytes_of name = bytes_of (butlast name) @ [byte_of (last name)]"
    using n(1) by (metis append_butlast_last_id bytes_of_append bytes_of_def list.simps(8,9))
  then have r: "rev (bytes_of name) = byte_of (last name) # rev (bytes_of (butlast name))" by simp
  have "dropWhile (\<lambda>b. b = 0) (rev (bytes_of name)) = rev (bytes_of name)" unfolding r using b0 by simp
  then show ?thesis by (simp add: trim_zeros_def z)
qed

lemma packet_fields:
  assumes "length ids = 32" "length ty = 16"
  shows "take 8 (par2_packet ids ty body @ rest) = par2_magic"
    and "take 8 (drop 8 (par2_packet ids ty body @ rest)) = le64 (64 + length body)"
    and "take 16 (drop 48 (par2_packet ids ty body @ rest)) = ty"
    and "take (length body) (drop 64 (par2_packet ids ty body @ rest)) = body"
    and "length (par2_packet ids ty body) = 64 + length body"
  using assms by (simp_all add: par2_packet_def)

lemma scan_packet_fields:
  assumes "take 8 (drop i data) = par2_magic" "unle (take 8 (drop (i + 8) data)) = 64 + lb"
    and "i + (64 + lb) < 2 ^ 64" "i + (64 + lb) \<le> length data"
  shows "scan_packet data i out =
    (if take 16 (drop (i + 48) data) \<noteq> file_desc_type then Inr (i + (64 + lb), out)
     else let body = take lb (drop (i + 64) data); h = hex_bytes (take 16 (drop 32 body));
              name = string_of (trim_zeros (drop 56 body)) in
     Inr (i + (64 + lb), if 56 \<le> length body \<and> name \<noteq> [] then out(h \<mapsto> path_base name) else out))"
proof -
  have e: "(i + (64 + lb)) mod 2 ^ 64 = i + (64 + lb)" "i + (64 + lb) - (i + 64) = lb" using assms(3) by simp_all
  show ?thesis unfolding scan_packet_def assms(1,2) e Let_def using assms(4) by simp
qed

lemma scan_packet_part:
  assumes "par2_part_ok p" "length (pre @ part_bytes p @ rest) < 2 ^ 64"
  shows "scan_packet (pre @ part_bytes p @ rest) (length pre) out = Inr (length (pre @ part_bytes p), part_names p out)"
proof -
  define data where "data = pre @ part_bytes p @ rest"
  have drops: "drop (length pre + k) data = drop k (part_bytes p @ rest)" for k by (simp add: data_def)
  have d0: "drop (length pre) data = part_bytes p @ rest" by (simp add: data_def)
  obtain ids ty body where pb: "part_bytes p = par2_packet ids ty body" and ok: "length ids = 32" "length ty = 16"
    and nm: "part_names p out = (if ty \<noteq> file_desc_type then out
      else if 56 \<le> length body \<and> string_of (trim_zeros (drop 56 body)) \<noteq> []
      then out(hex_bytes (take 16 (drop 32 body)) \<mapsto> path_base (string_of (trim_zeros (drop 56 body)))) else out)"
  proof (cases p)
    case (PartDesc ids fid h16 len name pad)
    then have ok: "length ids = 32" "length fid = 32" "length h16 = 16" "length len = 8" "name \<noteq> []" "code_of (last name) \<noteq> 0"
      using assms(1) by simp_all
    let ?body = "fid @ h16 @ len @ bytes_of name @ replicate pad 0"
    have "take 16 (drop 32 ?body) = h16" "drop 56 ?body = bytes_of name @ replicate pad 0" "56 \<le> length ?body"
      using ok by simp_all
    then show ?thesis using that [of ids file_desc_type ?body] PartDesc ok trim_zeros_name [OF ok(5,6), of pad] by simp
  next
    case (PartOther ids ty body)
    then show ?thesis using that [of ids ty body] assms(1) by simp
  qed
  have fl: "length (part_bytes p) = 64 + length body" unfolding pb by (rule packet_fields(5) [OF ok])
  note f = packet_fields(1-4) [OF ok, of body rest, folded pb]
  have ld: "length pre + (64 + length body) < 2 ^ 64" "length pre + (64 + length body) \<le> length data"
    using assms(2) fl by (simp_all add: data_def)
  have "take 8 (drop (length pre) data) = par2_magic" unfolding d0 by (rule f(1))
  moreover have "unle (take 8 (drop (length pre + 8) data)) = 64 + length body"
    unfolding drops f(2) using ld(1) by simp
  ultimately have "scan_packet data (length pre) out = Inr (length pre + (64 + length body), part_names p out)"
    by (subst scan_packet_fields [OF _ _ ld]) (simp_all add: drops f(3,4) nm Let_def del: drop_append)
  then show ?thesis by (simp add: data_def fl)
qed

definition par2_set :: "par2_part list \<Rightarrow> byte list" where
  "par2_set ps = concat (map part_bytes ps)"

lemma scan_parts:
  assumes "\<forall>p\<in>set ps. par2_part_ok p" "length (pre @ par2_set ps) < 2 ^ 64" "length ps < fuel"
  shows "scan_packets fuel (pre @ par2_set ps) (length pre) out = Some (Names (fold part_names ps out))"
  using assms
proof (induction ps arbitrary: pre fuel out)
  case Nil
  then obtain k where "fuel = Suc k" by (cases fuel) auto
  then show ?case by (simp add: par2_set_def scan_packet_def)
next
  case (Cons p ps)
  obtain k where k: "fuel = Suc k" "length ps < k" using Cons.prems(3) by (cases fuel) auto
  have "scan_packet (pre @ part_bytes p @ par2_set ps) (length pre) out = Inr (length (pre @ part_bytes p), part_names p out)"
    using Cons.prems by (intro scan_packet_part) (simp_all add: par2_set_def)
  moreover have "scan_packets k ((pre @ part_bytes p) @ par2_set ps) (length (pre @ part_bytes p)) (part_names p out)
      = Some (Names (fold part_names ps (part_names p out)))"
    using Cons.prems k(2) by (intro Cons.IH) (simp_all add: par2_set_def)
  ultimately show ?case by (simp add: k(1) par2_set_def)
qed

lemma file_descs_set:
  "\<forall>p\<in>set ps. par2_part_ok p \<Longrightarrow> length (par2_set ps) < 2 ^ 64 \<Longrightarrow> length ps < fuel
    \<Longrightarrow> file_descs fuel (par2_set ps) out = Some (Names (fold part_names ps out))"
  using scan_parts [of ps "[]"] by (simp add: file_descs_def)

section \<open>Part numbers\<close>

text \<open>The names of an archive's volumes: a base, the part number in any width, the extension.\<close>

definition part_number :: "string \<Rightarrow> nat \<Rightarrow> bool" where
  "part_number name k \<longleftrightarrow> (\<exists>base dg. name = base @ ''.part'' @ dg @ ''.rar'' \<and> all_digits dg \<and> dec_val dg = k \<and> k < 2 ^ 63)"

lemma last_index_of_skip: "c \<notin> set a \<Longrightarrow> last_index_of (a @ b) (c # cs) = map_option ((+) (length a)) (last_index_of b (c # cs))"
proof (induction a)
  case Nil
  then show ?case by (cases "last_index_of b (c # cs)") auto
next
  case (Cons x a)
  then show ?case by (cases "last_index_of b (c # cs)") (auto simp: has_prefix_def)
qed

lemma last_index_of_append: "last_index_of b sub = Some i \<Longrightarrow> last_index_of (a @ b) sub = Some (length a + i)"
  by (induction a) auto

lemma to_lower_digits: "all_digits dg \<Longrightarrow> to_lower dg = dg"
  by (induction dg) (auto simp: all_digits_def to_lower_def lower_char_def is_digit_def in_range_def)

lemma to_lower_append: "to_lower (a @ b) = to_lower a @ to_lower b"
  by (simp add: to_lower_def)

lemma dec_val_append: "dec_val (a @ b) = dec_val a * 10 ^ length b + dec_val b"
proof (induction b rule: rev_induct)
  case Nil
  then show ?case by (simp add: dec_val_def)
next
  case (snoc c b)
  have "dec_val (a @ b @ [c]) = dec_val (a @ b) * 10 + digit_val c" using dec_val_snoc [of "a @ b" c] by simp
  then show ?case using snoc dec_val_snoc [of b c] by (simp add: algebra_simps)
qed

lemma wrapped_digits: "dec_val dg < 2 ^ 63 \<Longrightarrow> foldl (\<lambda>n c. wrap64 (n * 10 + int (digit_val c))) 0 dg = int (dec_val dg)"
proof (induction dg rule: rev_induct)
  case Nil
  then show ?case by (simp add: dec_val_def)
next
  case (snoc c dg)
  have v: "dec_val (dg @ [c]) = dec_val dg * 10 + digit_val c" by (rule dec_val_snoc)
  then have "foldl (\<lambda>n c. wrap64 (n * 10 + int (digit_val c))) 0 dg = int (dec_val dg)" using snoc by simp
  moreover have "int (dec_val dg) * 10 + int (digit_val c) = int (dec_val (dg @ [c]))" using v by simp
  ultimately show ?case using snoc.prems by (simp add: in64_def)
qed

lemma rar_vol_num_part: "part_number name k \<Longrightarrow> rar_vol_num name = int k"
proof -
  assume "part_number name k"
  then obtain base dg where n: "name = base @ ''.part'' @ dg @ ''.rar''" "all_digits dg" "dec_val dg = k" "k < 2 ^ 63"
    by (auto simp: part_number_def)
  have low: "to_lower name = to_lower base @ ''.part'' @ dg @ ''.rar''"
  proof -
    have l: "to_lower ''.part'' = ''.part''" "to_lower ''.rar'' = ''.rar''" by code_simp+
    show ?thesis unfolding n(1) to_lower_append l to_lower_digits [OF n(2)] ..
  qed
  have digits: "c \<in> set dg \<Longrightarrow> is_digit c" for c using n(2) by (auto simp: all_digits_def list_all_iff)
  have "\<not> is_digit (CHR ''.'')" by code_simp
  then have nodot: "CHR ''.'' \<notin> set (''part'' @ dg)" using digits by auto
  have "last_index_of ''.rar'' ''.part'' = None" by code_simp
  then have "last_index_of (''part'' @ dg @ ''.rar'') ''.part'' = None"
    using last_index_of_skip [OF nodot, of "''.rar''" "''part''"] by simp
  then have "last_index_of (''.part'' @ dg @ ''.rar'') ''.part'' = Some 0" by (simp add: has_prefix_def)
  then have li: "last_index_of (to_lower name) ''.part'' = Some (length base)"
    unfolding low using last_index_of_append [of _ "''.part''" 0 "to_lower base"] by simp
  have "drop (length base + 5) (to_lower name) = dg @ ''.rar''" unfolding low by simp
  moreover have "takeWhile is_digit (dg @ ''.rar'') = dg"
  proof -
    have "\<not> is_digit (CHR ''.'')" by code_simp
    then show ?thesis using digits by (simp add: takeWhile_append)
  qed
  ultimately have "digits_at (to_lower name) (length base + 5) = int k"
    unfolding digits_at_def using wrapped_digits [of dg] n(3,4) by simp
  then show ?thesis unfolding rar_vol_num_def Let_def li by simp
qed

lemma sort_key_unique:
  assumes "mset xs = mset ys" "sorted (map f ys)" "distinct (map f ys)"
  shows "sort_key f xs = ys"
proof (rule properties_for_sort_key)
  show "mset ys = mset xs" using assms(1) ..
  show "sorted (map f ys)" by (fact assms(2))
  fix k assume k: "k \<in> set ys"
  have one: "filter (\<lambda>x. f k = f x) ys = [k]"
    using assms(3) k
  proof (induction ys)
    case (Cons y ys)
    then show ?case
      by (cases "k = y") (auto simp: filter_empty_conv image_iff)
  qed simp
  have "mset (filter (\<lambda>x. f k = f x) xs) = mset (filter (\<lambda>x. f k = f x) ys)" using assms(1) by (metis mset_filter)
  then have "mset (filter (\<lambda>x. f k = f x) xs) = {#k#}" unfolding one by simp
  then have "filter (\<lambda>x. f k = f x) xs = [k]" by (metis mset_single_iff_right mset.simps(1,2) add_mset_remove_trivial)
  then show "filter (\<lambda>x. f k = f x) ys = filter (\<lambda>x. f k = f x) xs" using one by simp
qed

lemma read_all_complete:
  assumes "parts_complete fetch segs ds" "length (concat ds) \<le> 64 * 1024 * 1024"
  shows "read_all fetch segs = concat ds"
proof -
  obtain r where s: "reader_size fetch segs new_reader_at = (Inr (int (length (concat ds))), r)" and r: "cache_ok ds r"
    using reader_size_complete [OF assms(1) new_reader_ok] by (cases "reader_size fetch segs new_reader_at") auto
  have "fst (read_at fetch segs [] (length (concat ds)) (int 0) r) = (take (length (concat ds)) (drop 0 (concat ds)), None)"
    using read_at_complete [OF assms(1) r, of "[]" "length (concat ds)" 0] by simp
  then have "fst (read_at fetch segs [] (length (concat ds)) 0 r) = (concat ds, None)" by simp
  then show ?thesis using assms(2) by (cases "concat ds = []") (simp_all add: read_all_def s)
qed

lemma rename_cand_complete:
  assumes "parts_complete (fetch_of (vc_file c)) (nf_segments (vc_file c)) ds" "names (hash16k md5 (concat ds)) = Some real" "real \<noteq> []"
  shows "rename_cand md5 fetch_of names c = c\<lparr>vc_name := real\<rparr>"
proof -
  have "fst (fst (read_at (fetch_of (vc_file c)) (nf_segments (vc_file c)) [] (64 * 1024) 0 new_reader_at)) = take (64 * 1024) (concat ds)"
    using read_at_complete [OF assms(1) new_reader_ok, of "[]" "64 * 1024" 0] by simp
  moreover have "hash16k md5 (take (64 * 1024) x) = hash16k md5 x" for x by (simp add: hash16k_def min_def)
  ultimately show ?thesis using assms(2,3) unfolding rename_cand_def Let_def by simp
qed

section \<open>Picking and sampling\<close>

definition entry_playable :: "rar_entry \<Rightarrow> bool" where
  "entry_playable e \<longleftrightarrow> re_streamable e \<and> is_video (re_name e)"

lemma pick_inner_best:
  "pick_inner es best = r \<Longrightarrow> (\<forall>b. best = Some b \<longrightarrow> entry_playable b) \<Longrightarrow>
    (case r of None \<Rightarrow> best = None \<and> (\<forall>e\<in>set es. \<not> entry_playable e)
     | Some e \<Rightarrow> entry_playable e \<and> e \<in> set es \<union> set_option best \<and> (\<forall>x\<in>set es \<union> set_option best. entry_playable x \<longrightarrow> re_size x \<le> re_size e))"
proof (induction es arbitrary: best)
  case Nil
  then show ?case by (auto split: option.splits)
next
  case (Cons x es)
  show ?case
  proof (cases "entry_playable x")
    case False
    then have "pick_inner es best = r" using Cons.prems(1) by (simp add: entry_playable_def split: if_splits)
    then show ?thesis using Cons.IH [of best] Cons.prems(2) False by (auto split: option.splits)
  next
    case True
    let ?b = "case best of None \<Rightarrow> Some x | Some b \<Rightarrow> if re_size x > re_size b then Some x else best"
    have p: "pick_inner es ?b = r" using Cons.prems(1) True by (simp add: entry_playable_def)
    have "\<forall>b. ?b = Some b \<longrightarrow> entry_playable b" using Cons.prems(2) True by (auto split: option.splits)
    from Cons.IH [OF p this] show ?thesis using True Cons.prems(2)
      by (cases best) (fastforce split: option.splits if_splits)+
  qed
qed

text \<open>The stream of an archive is its largest streamable video, if it has one.\<close>

theorem inner_is_largest:
  "(case pick_inner es None of None \<Rightarrow> \<forall>e\<in>set es. \<not> entry_playable e
    | Some e \<Rightarrow> e \<in> set es \<and> entry_playable e \<and> (\<forall>x\<in>set es. entry_playable x \<longrightarrow> re_size x \<le> re_size e))"
  using pick_inner_best [of es None "pick_inner es None"] by (auto split: option.splits)

lemma census_idxs_bounds:
  assumes "0 < tot" "0 < sample"
  shows "census_idxs tot (int sample) \<noteq> []" "\<forall>i\<in>set (census_idxs tot (int sample)). i < tot"
    and "distinct (census_idxs tot (int sample))" "length (census_idxs tot (int sample)) < 2 * sample"
proof -
  define st where "st = census_step tot (int sample)"
  define sm where "sm = (if sample > tot then tot else sample)"
  have sm: "0 < sm" "sm \<le> tot" "sm \<le> sample" using assms by (auto simp: sm_def)
  have st: "st = tot div sm"
  proof -
    have "1 \<le> tot div sm" using sm by (simp add: div_greater_zero_iff Suc_leI)
    moreover have "nat (if int sample \<le> 0 \<or> int sample > int tot then int tot else int sample) = sm"
      using assms by (simp add: sm_def)
    ultimately show ?thesis unfolding st_def census_step_def Let_def by (simp only:) simp
  qed
  have pos: "0 < st" unfolding st using sm by (simp add: div_greater_zero_iff)
  define c where "c = (tot + st - 1) div st"
  have idx: "census_idxs tot (int sample) = map (\<lambda>k. k * st) [0..<c]" by (simp add: census_idxs_def st_def c_def)
  have "1 * st \<le> tot + st - 1" using assms(1) pos by simp
  then have c0: "0 < c" unfolding c_def using pos by (simp add: div_greater_zero_iff)
  have last: "k * st < tot" if "k < c" for k
  proof -
    have "Suc k \<le> (tot + st - 1) div st" using that by (simp add: c_def)
    then have "Suc k * st \<le> tot + st - 1" using pos by (simp add: less_eq_div_iff_mult_less_eq)
    then show ?thesis using pos by simp
  qed
  have "tot < sm * Suc st" unfolding st using dividend_less_times_div [OF sm(1), of tot] by simp
  then have "tot < sm * st + sm" by simp
  moreover have "sm \<le> sm * st" using pos by simp
  ultimately have "tot < 2 * (sm * st)" by linarith
  moreover have "(c - 1) * st < tot" using last [of "c - 1"] c0 by simp
  ultimately have "(c - 1) * st < 2 * (sm * st)" by linarith
  then have c1: "c - 1 < 2 * sm" by (metis mult.assoc mult_less_cancel2)
  have "c \<noteq> 2 * sm"
  proof
    assume "c = 2 * sm"
    then have "(2 * sm - 1) * st < tot" using \<open>(c - 1) * st < tot\<close> by simp
    then have "(2 * sm - 1) * st < sm * st + sm" using \<open>tot < sm * st + sm\<close> by linarith
    moreover have "(2 * sm - 1) * st = sm * st + (sm - 1) * st"
      using sm(1) by (cases sm) (simp_all add: algebra_simps)
    ultimately have "(sm - 1) * st < sm" by linarith
    moreover have "sm - 1 \<le> (sm - 1) * st" using pos by simp
    ultimately have "(sm - 1) * st = sm - 1" by linarith
    then have "st = 1 \<or> sm = 1" using sm(1) by (metis One_nat_def Suc_pred mult_cancel1 nat_mult_1_right less_numeral_extra(3) diff_self_eq_0)
    then show False
    proof
      assume "st = 1"
      then have "c = tot" using assms(1) by (simp add: c_def)
      then show False using \<open>c = 2 * sm\<close> \<open>tot < sm * st + sm\<close> \<open>st = 1\<close> by simp
    next
      assume s1: "sm = 1"
      then have "st = tot" unfolding st by simp
      then have "c = 1"
      proof -
        have "(tot + tot - 1) div tot = 1" using assms(1) by (intro div_nat_eqI) auto
        then show ?thesis by (simp add: c_def \<open>st = tot\<close>)
      qed
      then show False using \<open>c = 2 * sm\<close> s1 by simp
    qed
  qed
  then have "c < 2 * sm" using c1 by linarith
  then show "length (census_idxs tot (int sample)) < 2 * sample" unfolding idx using sm(3) by simp
  show "census_idxs tot (int sample) \<noteq> []" unfolding idx using c0 by simp
  show "\<forall>i\<in>set (census_idxs tot (int sample)). i < tot" unfolding idx using last by auto
  show "distinct (census_idxs tot (int sample))" unfolding idx using pos by (simp add: distinct_map inj_on_def)
qed

section \<open>Properties\<close>

text \<open>
  C30: obfuscated archives are put in order. When no file of a release is named like an archive, the smallest
  PAR2 file names the volumes by the hash of their first bytes; if it can be read and its parts are
  numbered, the volumes are given their real names and come in the order of the parts, in whatever
  order the release lists them.
\<close>

theorem obfuscated_volumes_in_order:
  assumes "mset (filter is_volume_file (nz_files n)) = mset (map fst ordered)" and "ordered \<noteq> []"
    and "\<forall>f\<in>set (map fst ordered). \<not> is_rar_name (to_lower (nzb_file_name f))"
    and "filter is_par2_file (nz_files n) = p # ps" and "small = smallest_file p ps"
    and "parts_complete (fetch_of small) (nf_segments small) dsp" and "concat dsp = par2_set parts"
    and "\<forall>p\<in>set parts. par2_part_ok p" and "length (par2_set parts) \<le> 64 * 1024 * 1024" and "length parts < fuel"
    and "\<forall>i<length ordered. part_number (snd (ordered ! i)) (Suc i) \<and> (\<exists>ds. parts_complete (fetch_of (fst (ordered ! i))) (nf_segments (fst (ordered ! i))) ds
      \<and> fold part_names parts Map.empty (hash16k md5 (concat ds)) = Some (snd (ordered ! i)))"
  shows "order_volumes fuel md5 fetch_of n = Some (Inr (map (\<lambda>(f, name). \<lparr>vc_file = f, vc_name = name\<rparr>) ordered))"
proof -
  define names where "names = fold part_names parts Map.empty"
  let ?old = "\<lambda>f. \<lparr>vc_file = f, vc_name = nzb_file_name f\<rparr>" and ?new = "\<lambda>(f, name). \<lparr>vc_file = f, vc_name = name\<rparr>"
  have fs: "set (filter is_volume_file (nz_files n)) = set (map fst ordered)" using mset_eq_setD [OF assms(1)] .
  have cands: "mset (vol_cands n) = mset (map ?old (map fst ordered))"
    unfolding vol_cands_def mset_map assms(1) by simp
  have need: "needs_deobf (vol_cands n)"
    using assms(3) unfolding fs [symmetric] by (auto simp: needs_deobf_def vol_cands_def list_ex_iff)
  have ne: "vol_cands n \<noteq> []" using arg_cong [OF cands, of size] assms(2) by auto
  have "read_all (fetch_of small) (nf_segments small) = par2_set parts"
    using read_all_complete [OF assms(6)] assms(7,9) by simp
  then have scan: "file_descs fuel (read_all (fetch_of small) (nf_segments small)) Map.empty = Some (Names names)"
    using file_descs_set [of parts fuel] assms(8-10) by (simp add: names_def)
  have real: "rename_cand md5 fetch_of names (?old (fst x)) = ?new x" if x: "x \<in> set ordered" for x
  proof -
    obtain i where i: "i < length ordered" "ordered ! i = x" using x by (auto simp: in_set_conv_nth)
    then obtain ds where ds: "parts_complete (fetch_of (fst x)) (nf_segments (fst x)) ds" "names (hash16k md5 (concat ds)) = Some (snd x)"
      and "snd x \<noteq> []"
      using assms(11) by (auto simp: names_def part_number_def)
    then show ?thesis using rename_cand_complete [of fetch_of "?old (fst x)" ds names md5 "snd x"] by (simp add: case_prod_unfold)
  qed
  have "names \<noteq> Map.empty"
    using assms(2,11) by (force simp: names_def)
  then have deobf: "deobfuscate fuel md5 fetch_of (vol_cands n) (filter is_par2_file (nz_files n))
      = Some (map (rename_cand md5 fetch_of names) (vol_cands n))"
    unfolding deobfuscate_def assms(4) list.sel Let_def assms(5) [symmetric] scan by simp
  have "mset (map (rename_cand md5 fetch_of names) (vol_cands n)) = image_mset (rename_cand md5 fetch_of names) (mset (map ?old (map fst ordered)))"
    by (simp only: mset_map cands)
  also have "\<dots> = mset (map (\<lambda>x. rename_cand md5 fetch_of names (?old (fst x))) ordered)"
    by (simp add: image_mset.compositionality comp_def)
  also have "\<dots> = mset (map ?new ordered)" using real by (metis (no_types, lifting) map_eq_conv)
  finally have m: "mset (map (rename_cand md5 fetch_of names) (vol_cands n)) = mset (map ?new ordered)" .
  have keys: "map (\<lambda>c. rar_vol_num (vc_name c)) (map ?new ordered) = map (\<lambda>i. int (Suc i)) [0..<length ordered]"
    using assms(11) by (intro nth_equalityI) (auto simp: rar_vol_num_part case_prod_unfold)
  have "sort_key (\<lambda>c. rar_vol_num (vc_name c)) (map (rename_cand md5 fetch_of names) (vol_cands n)) = map ?new ordered"
    using m unfolding atomize_eq by (rule sort_key_unique) (unfold keys, auto simp: sorted_map distinct_map inj_on_def sorted_wrt_iff_nth_less)
  then show ?thesis unfolding order_volumes_def Let_def using ne need deobf assms(4) by simp
qed

text \<open>A packet that is no file description, whose length wraps around to the start of the file.\<close>

definition looping_set :: "byte list" where
  "looping_set = replicate 8 0 @ par2_magic @ [0xF8, 0xFF, 0xFF, 0xFF, 0xFF, 0xFF, 0xFF, 0xFF] @ replicate 48 0"

lemma looping_steps:
  "i < 8 \<Longrightarrow> scan_packet looping_set i out = Inr (Suc i, out)" "scan_packet looping_set 8 out = Inr (0, out)"
proof -
  have l: "length looping_set = 72" by (simp add: looping_set_def)
  have nz: "take 1 par2_magic = [80]" "take 1 file_desc_type = [80]" by code_simp+
  have at: "take 1 (take 8 (drop i looping_set)) = [0]" if "i < 8"
  proof -
    have "drop i looping_set = looping_set ! i # drop (Suc i) looping_set" using that by (simp add: Cons_nth_drop_Suc l)
    moreover have "looping_set ! i = 0" using that by (simp add: looping_set_def nth_append)
    ultimately show ?thesis by simp
  qed
  show "scan_packet looping_set i out = Inr (Suc i, out)" if "i < 8"
  proof -
    have "take 8 (drop i looping_set) \<noteq> par2_magic" using at [OF that] nz(1) by fastforce
    then show ?thesis using that by (simp add: scan_packet_def l)
  qed
  have z: "take 1 (take 16 (drop (8 + 48) looping_set)) = [0]" by (simp add: looping_set_def)
  have f: "take 16 (drop (8 + 48) looping_set) \<noteq> file_desc_type"
  proof
    assume "take 16 (drop (8 + 48) looping_set) = file_desc_type"
    then show False using z nz(2) by simp
  qed
  have m: "take 8 (drop 8 looping_set) = par2_magic" by (simp add: looping_set_def)
  have u: "unle (take 8 (drop (8 + 8) looping_set)) = 2 ^ 64 - 8" by (simp add: looping_set_def)
  have e: "(8 + (2 ^ 64 - 8)) mod 2 ^ 64 = (0 :: nat)" "\<not> (2 ^ 64 - 8 < (64 :: nat) \<or> length looping_set < 0)" by simp_all
  have n: "\<not> length looping_set < 8 + 64" using l by simp
  show "scan_packet looping_set 8 out = Inr (0, out)"
    unfolding scan_packet_def m u Let_def e if_not_P [OF n] using f e(2) by (simp only: simp_thms if_True if_False refl)
qed

text \<open>
  A crafted PAR2 file hangs the process that opens the release. The length of a packet is added to its
  position in 64 bits; one that wraps around to the start of the file sends the scan back for ever.
\<close>

theorem par2_scan_hangs: "file_descs fuel looping_set out = None"
proof -
  have "i \<le> 8 \<Longrightarrow> scan_packets fuel looping_set i out = None" for i
  proof (induction fuel arbitrary: i)
    case (Suc k)
    then show ?case using looping_steps by (cases "i = 8") simp_all
  qed simp
  then show ?thesis by (simp add: file_descs_def)
qed

section \<open>Witnesses\<close>


definition sample_vol :: "string \<Rightarrow> nzb_file" where
  "sample_vol name = \<lparr>nf_subject = [], nf_filename = name, nf_groups = [], nf_segments = [\<lparr>seg_bytes_enc = 1, message_id = name\<rparr>]\<rparr>"

definition sample_parts :: "par2_part list" where
  "sample_parts = [PartDesc (replicate 32 0) (replicate 32 0) (replicate 16 1) (replicate 8 0) ''a.part1.rar'' 1,
     PartDesc (replicate 32 0) (replicate 32 0) (replicate 16 2) (replicate 8 0) ''a.part2.rar'' 1]"

definition sample_content :: "nzb_file \<Rightarrow> byte list" where
  "sample_content f = (if nf_filename f = ''x'' then [1] else if nf_filename f = ''y'' then [2] else par2_set sample_parts)"

definition sample_fetch_of :: "nzb_file \<Rightarrow> fetch" where
  "sample_fetch_of f = (\<lambda>_. Inr (empty_yenc\<lparr>y_data := sample_content f, y_begin := 1\<rparr>))"

definition sample_release :: nzb where
  "sample_release = \<lparr>nz_files = [sample_vol ''y'', sample_vol ''z.par2'', sample_vol ''x''], nz_meta = Map.empty\<rparr>"

definition sample_md5 :: "byte list \<Rightarrow> byte list" where "sample_md5 bs = replicate 16 (hd bs)"

lemma sample_set_length: "length (par2_set sample_parts) = 264" "par2_set sample_parts \<noteq> []"
proof -
  show "length (par2_set sample_parts) = 264" by (simp add: par2_set_def sample_parts_def par2_packet_def)
  then show "par2_set sample_parts \<noteq> []" by force
qed

lemma sample_vol_complete: "parts_complete (sample_fetch_of (sample_vol name)) (nf_segments (sample_vol name)) [sample_content (sample_vol name)]"
  using sample_set_length(2) by (simp add: parts_complete_def sample_fetch_of_def sample_vol_def sample_content_def seg_start_def)

theorem obfuscated_volumes_in_order_witness:
  "order_volumes 3 sample_md5 sample_fetch_of sample_release = Some (Inr
     [\<lparr>vc_file = sample_vol ''x'', vc_name = ''a.part1.rar''\<rparr>, \<lparr>vc_file = sample_vol ''y'', vc_name = ''a.part2.rar''\<rparr>])"
proof -
  let ?ord = "[(sample_vol ''x'', ''a.part1.rar''), (sample_vol ''y'', ''a.part2.rar'')]"
  have kinds: "is_volume_file (sample_vol ''x'')" "is_volume_file (sample_vol ''y'')" "\<not> is_volume_file (sample_vol ''z.par2'')"
    "\<not> is_par2_file (sample_vol ''x'')" "\<not> is_par2_file (sample_vol ''y'')" "is_par2_file (sample_vol ''z.par2'')"
    "\<not> is_rar_name (to_lower (nzb_file_name (sample_vol ''x'')))" "\<not> is_rar_name (to_lower (nzb_file_name (sample_vol ''y'')))"
    by code_simp+
  have base: "path_base ''a.part1.rar'' = ''a.part1.rar''" "path_base ''a.part2.rar'' = ''a.part2.rar''" by code_simp+
  have ok: "\<forall>p\<in>set sample_parts. par2_part_ok p" by (simp add: sample_parts_def code_of_def)
  have pn: "part_number ''a.part1.rar'' 1" "part_number ''a.part2.rar'' 2"
  proof -
    have d: "all_digits ''1''" "dec_val ''1'' = 1" "all_digits ''2''" "dec_val ''2'' = 2" by code_simp+
    show "part_number ''a.part1.rar'' 1" unfolding part_number_def
      by (rule exI [of _ "''a''"], rule exI [of _ "''1''"]) (simp add: d)
    show "part_number ''a.part2.rar'' 2" unfolding part_number_def
      by (rule exI [of _ "''a''"], rule exI [of _ "''2''"]) (simp add: d)
  qed
  have hexne: "hex_bytes (replicate 16 1) \<noteq> hex_bytes (replicate 16 2)" by code_simp
  have names: "fold part_names sample_parts Map.empty (hash16k sample_md5 [1]) = Some ''a.part1.rar''"
    "fold part_names sample_parts Map.empty (hash16k sample_md5 [2]) = Some ''a.part2.rar''"
    using hexne by (simp_all add: sample_parts_def base hash16k_def sample_md5_def)
  have x: "sample_content (sample_vol ''x'') = [1]" "sample_content (sample_vol ''y'') = [2]"
    "sample_content (sample_vol ''z.par2'') = par2_set sample_parts"
    by (simp_all add: sample_content_def sample_vol_def)
  have "\<forall>i<length ?ord. part_number (snd (?ord ! i)) (Suc i) \<and>
      (\<exists>ds. parts_complete (sample_fetch_of (fst (?ord ! i))) (nf_segments (fst (?ord ! i))) ds
        \<and> fold part_names sample_parts Map.empty (hash16k sample_md5 (concat ds)) = Some (snd (?ord ! i)))"
  proof (intro allI impI)
    fix i assume "i < length ?ord"
    then consider "i = 0" | "i = 1" by fastforce
    then show "part_number (snd (?ord ! i)) (Suc i) \<and>
      (\<exists>ds. parts_complete (sample_fetch_of (fst (?ord ! i))) (nf_segments (fst (?ord ! i))) ds
        \<and> fold part_names sample_parts Map.empty (hash16k sample_md5 (concat ds)) = Some (snd (?ord ! i)))"
    proof cases
      case 1
      then show ?thesis using pn(1) names(1) sample_vol_complete [of "''x''"] x(1)
        by (auto intro!: exI [of _ "[[1]]"])
    next
      case 2
      then show ?thesis using pn(2) names(2) sample_vol_complete [of "''y''"] x(2)
        by (auto simp: numeral_2_eq_2 intro!: exI [of _ "[[2]]"])
    qed
  qed
  moreover have "parts_complete (sample_fetch_of (sample_vol ''z.par2'')) (nf_segments (sample_vol ''z.par2'')) [par2_set sample_parts]"
    using sample_vol_complete [of "''z.par2''"] unfolding x(3) .
  ultimately show ?thesis
    using obfuscated_volumes_in_order [of sample_release ?ord "sample_vol ''z.par2''" "[]" "sample_vol ''z.par2''" sample_fetch_of
      "[par2_set sample_parts]" sample_parts 3 sample_md5] kinds ok sample_set_length(1)
    by (simp add: sample_release_def) (simp add: sample_parts_def)
qed

end
