(* ===== verification/Usenet_Pool.thy ===== *)
theory Usenet_Pool
  imports Prelude
begin

text \<open>
  The shared connection pools of \<open>shared/usenet/download/pool.go\<close>: one pool per host and user, counted by its
  borrowers and closed some minutes after the last of them. Each function runs under one mutex and is one
  step; a timer that has gone off runs its function in a later step, when it gets the mutex, and stopping
  it then has no effect. The pools themselves are the library's.
\<close>

section \<open>Credentials\<close>

record credentials =
  cd_host :: string
  cd_port :: int
  cd_user :: string
  cd_ssl :: bool
  cd_max_conns :: int

record pool_config =
  pc_host :: string
  pc_port :: nat
  pc_user :: string
  pc_ssl :: bool
  pc_max_conns :: nat
  pc_max_errors :: nat

definition pool_config :: "credentials \<Rightarrow> nat \<Rightarrow> pool_config" where
  "pool_config c max_errors =
     (let m = nat (cd_max_conns c mod 2 ^ 32) in
      \<lparr>pc_host = cd_host c, pc_port = nat (cd_port c mod 2 ^ 32), pc_user = cd_user c, pc_ssl = cd_ssl c,
       pc_max_conns = (if m = 0 then 10 else m), pc_max_errors = max_errors\<rparr>)"

definition pool_key :: "credentials \<Rightarrow> string" where
  "pool_key c = cd_host c @ ''|'' @ cd_user c"

section \<open>Shared entries\<close>

record shared_entry =
  se_key :: string
  se_config :: pool_config
  se_refs :: int
  se_timer :: "nat option"
  se_closed :: bool

datatype timer_state = Armed | Fired

text \<open>
  The entries ever made, the table of those in it, the timers that have not run (number, entry, state), the
  next timer's number, and the entries handed out and not released.
\<close>

record pools =
  pl_heap :: "shared_entry list"
  pl_table :: "string \<rightharpoonup> nat"
  pl_timers :: "(nat \<times> nat \<times> timer_state) list"
  pl_next :: nat
  pl_held :: "nat list"

definition no_pools :: pools where
  "no_pools = \<lparr>pl_heap = [], pl_table = Map.empty, pl_timers = [], pl_next = 0, pl_held = []\<rparr>"

definition set_entry :: "nat \<Rightarrow> (shared_entry \<Rightarrow> shared_entry) \<Rightarrow> pools \<Rightarrow> pools" where
  "set_entry i f s = s\<lparr>pl_heap := (pl_heap s)[i := f (pl_heap s ! i)]\<rparr>"

text \<open>A timer that has gone off is not stopped any more.\<close>

definition stop_timer :: "nat option \<Rightarrow> pools \<Rightarrow> pools" where
  "stop_timer t s = (case t of None \<Rightarrow> s
     | Some n \<Rightarrow> s\<lparr>pl_timers := filter (\<lambda>(m, _, st). m \<noteq> n \<or> st = Fired) (pl_timers s)\<rparr>)"

text \<open>\<open>opens\<close>: whether a new pool can be made. The result is the entry whose pool is handed out.\<close>

definition borrow_entry :: "nat \<Rightarrow> pools \<Rightarrow> pools" where
  "borrow_entry i s =
     (let s1 = set_entry i (\<lambda>e. e\<lparr>se_timer := None, se_refs := se_refs e + 1\<rparr>) (stop_timer (se_timer (pl_heap s ! i)) s)
      in s1\<lparr>pl_held := i # pl_held s1\<rparr>)"

definition acquire_shared :: "bool \<Rightarrow> credentials \<Rightarrow> pools \<Rightarrow> nat option \<times> pools" where
  "acquire_shared opens c s =
     (case pl_table s (pool_key c) of
        Some i \<Rightarrow> (Some i, borrow_entry i s)
      | None \<Rightarrow>
          if \<not> opens then (None, s)
          else let i = length (pl_heap s) in
            (Some i, borrow_entry i (s\<lparr>pl_heap := pl_heap s @ [\<lparr>se_key = pool_key c, se_config = pool_config c 0,
                se_refs = 0, se_timer = None, se_closed = False\<rparr>], pl_table := (pl_table s)(pool_key c \<mapsto> i)\<rparr>)))"

definition release_shared :: "nat \<Rightarrow> pools \<Rightarrow> pools" where
  "release_shared i s =
     (let s1 = set_entry i (\<lambda>e. e\<lparr>se_refs := se_refs e - 1\<rparr>) (s\<lparr>pl_held := remove1 i (pl_held s)\<rparr>) in
      if se_refs (pl_heap s1 ! i) \<noteq> 0 then s1
      else let s2 = set_entry i (\<lambda>e. e\<lparr>se_timer := Some (pl_next s1)\<rparr>) s1
           in s2\<lparr>pl_timers := pl_timers s2 @ [(pl_next s1, i, Armed)], pl_next := Suc (pl_next s1)\<rparr>)"

text \<open>The timer's function: close the pool if nobody has it, and drop the key from the table.\<close>

definition linger_end :: "nat \<Rightarrow> pools \<Rightarrow> pools" where
  "linger_end i s =
     (if se_refs (pl_heap s ! i) = 0
      then set_entry i (\<lambda>e. e\<lparr>se_closed := True\<rparr>) (s\<lparr>pl_table := (pl_table s)(se_key (pl_heap s ! i) := None)\<rparr>)
      else s)"

text \<open>Providers that cannot be reached are skipped; the error is that none is left.\<close>

fun acquire_multi :: "(credentials \<times> bool) list \<Rightarrow> pools \<Rightarrow> nat list \<times> pools" where
  "acquire_multi [] s = ([], s)"
| "acquire_multi ((c, opens) # cs) s =
     (case acquire_shared opens c s of
        (None, s1) \<Rightarrow> acquire_multi cs s1
      | (Some i, s1) \<Rightarrow> (let (js, s2) = acquire_multi cs s1 in (i # js, s2)))"

definition acquire_shared_multi :: "(credentials \<times> bool) list \<Rightarrow> pools \<Rightarrow> nat list option \<times> pools" where
  "acquire_shared_multi cs s = (let (js, s1) = acquire_multi cs s in (if js = [] then None else Some js, s1))"

inductive pool_step :: "pools \<Rightarrow> pools \<Rightarrow> bool" where
  acquire_step: "pool_step s (snd (acquire_shared opens c s))"
| release_step: "i \<in> set (pl_held s) \<Longrightarrow> pool_step s (release_shared i s)"
| expire_step: "pl_timers s = xs @ (t, i, Armed) # ys \<Longrightarrow> pool_step s (s\<lparr>pl_timers := xs @ (t, i, Fired) # ys\<rparr>)"
| fire_step: "pl_timers s = xs @ (t, i, Fired) # ys \<Longrightarrow> pool_step s (linger_end i (s\<lparr>pl_timers := xs @ ys\<rparr>))"

inductive pool_reach :: "pools \<Rightarrow> bool" where
  pool_start: "pool_reach no_pools"
| pool_more: "pool_reach s \<Longrightarrow> pool_step s s' \<Longrightarrow> pool_reach s'"

section \<open>Invariant\<close>

definition pools_ok :: "pools \<Rightarrow> bool" where
  "pools_ok s \<longleftrightarrow>
     (\<forall>i<length (pl_heap s). se_refs (pl_heap s ! i) = int (count_list (pl_held s) i)
        \<and> (se_closed (pl_heap s ! i) \<longrightarrow> pl_table s (se_key (pl_heap s ! i)) \<noteq> Some i \<and> se_refs (pl_heap s ! i) = 0))
     \<and> (\<forall>i\<in>set (pl_held s). i < length (pl_heap s)) \<and> (\<forall>x\<in>set (pl_timers s). fst (snd x) < length (pl_heap s))
     \<and> (\<forall>k i. pl_table s k = Some i \<longrightarrow> i < length (pl_heap s) \<and> se_key (pl_heap s ! i) = k)"

lemma pools_okI:
  assumes "\<And>i. i < length (pl_heap s) \<Longrightarrow> se_refs (pl_heap s ! i) = int (count_list (pl_held s) i)"
    and "\<And>i. i < length (pl_heap s) \<Longrightarrow> se_closed (pl_heap s ! i)
      \<Longrightarrow> pl_table s (se_key (pl_heap s ! i)) \<noteq> Some i \<and> se_refs (pl_heap s ! i) = 0"
    and "\<And>i. i \<in> set (pl_held s) \<Longrightarrow> i < length (pl_heap s)" "\<And>x. x \<in> set (pl_timers s) \<Longrightarrow> fst (snd x) < length (pl_heap s)"
    and "\<And>k i. pl_table s k = Some i \<Longrightarrow> i < length (pl_heap s) \<and> se_key (pl_heap s ! i) = k"
  shows "pools_ok s"
  using assms by (auto simp: pools_ok_def)

lemma count_list_pos: "i \<in> set xs \<Longrightarrow> 0 < count_list xs i"
  by (metis count_list_0_iff neq0_conv)

lemma count_list_remove1: "count_list (remove1 a xs) b = count_list xs b - (if a = b then 1 else 0)"
  by (induction xs) (auto simp: count_list_0_iff)

lemma stop_timer_parts [simp]: "pl_heap (stop_timer t s) = pl_heap s" "pl_table (stop_timer t s) = pl_table s"
  "pl_held (stop_timer t s) = pl_held s" "pl_next (stop_timer t s) = pl_next s"
  by (auto simp: stop_timer_def split: option.splits)

lemma stop_timer_subset: "set (pl_timers (stop_timer t s)) \<subseteq> set (pl_timers s)"
  by (auto simp: stop_timer_def split: option.splits)

lemma borrow_entry_ok:
  assumes "pools_ok s" "i < length (pl_heap s)" "\<not> se_closed (pl_heap s ! i)"
  shows "pools_ok (borrow_entry i s)"
proof (rule pools_okI)
  show "fst (snd x) < length (pl_heap (borrow_entry i s))" if "x \<in> set (pl_timers (borrow_entry i s))" for x
  proof -
    have "x \<in> set (pl_timers s)"
      using that stop_timer_subset [of "se_timer (pl_heap s ! i)" s] by (auto simp: borrow_entry_def set_entry_def Let_def)
    then show ?thesis using assms(1) by (simp add: borrow_entry_def set_entry_def Let_def pools_ok_def)
  qed
qed (use assms in \<open>auto simp: pools_ok_def borrow_entry_def set_entry_def Let_def nth_list_update split: if_splits\<close>)

lemma acquire_shared_ok: "pools_ok s \<Longrightarrow> pools_ok (snd (acquire_shared opens c s))"
proof (cases "pl_table s (pool_key c)")
  case None
  assume ok: "pools_ok s"
  let ?s = "s\<lparr>pl_heap := pl_heap s @ [\<lparr>se_key = pool_key c, se_config = pool_config c 0, se_refs = 0, se_timer = None,
      se_closed = False\<rparr>], pl_table := (pl_table s)(pool_key c \<mapsto> length (pl_heap s))\<rparr>"
  have "count_list (pl_held s) (length (pl_heap s)) = 0" using ok by (auto simp: pools_ok_def count_list_0_iff)
  then have "pools_ok ?s" using ok by (auto simp: pools_ok_def nth_append less_Suc_eq)
  then show ?thesis using None ok borrow_entry_ok [of ?s "length (pl_heap s)"]
    by (simp add: acquire_shared_def Let_def)
next
  case (Some i)
  assume ok: "pools_ok s"
  have "i < length (pl_heap s)" "se_key (pl_heap s ! i) = pool_key c" using ok Some by (auto simp: pools_ok_def)
  then have "i < length (pl_heap s) \<and> \<not> se_closed (pl_heap s ! i)" using ok Some unfolding pools_ok_def by metis
  then show ?thesis using borrow_entry_ok [OF ok] Some by (simp add: acquire_shared_def)
qed

lemma release_shared_ok:
  assumes "pools_ok s" "i \<in> set (pl_held s)"
  shows "pools_ok (release_shared i s)"
proof -
  have i: "i < length (pl_heap s)" "0 < count_list (pl_held s) i"
    using assms count_list_pos by (auto simp: pools_ok_def)
  show ?thesis
    by (rule pools_okI)
      (use assms(1) i in \<open>auto simp: pools_ok_def release_shared_def set_entry_def Let_def nth_list_update count_list_remove1
        dest: notin_set_remove1 split: if_splits\<close>)
qed

lemma linger_end_ok:
  assumes "pools_ok s" "i < length (pl_heap s)"
  shows "pools_ok (linger_end i s)"
  by (rule pools_okI)
    (use assms in \<open>auto simp: pools_ok_def linger_end_def set_entry_def nth_list_update split: if_splits\<close>)

lemma pool_step_ok: "pool_step s s' \<Longrightarrow> pools_ok s \<Longrightarrow> pools_ok s'"
proof (induction rule: pool_step.induct)
  case (expire_step s xs t i ys)
  then show ?case by (auto simp: pools_ok_def)
next
  case (fire_step s xs t i ys)
  then have "pools_ok (s\<lparr>pl_timers := xs @ ys\<rparr>)" "i < length (pl_heap s)" by (auto simp: pools_ok_def)
  then show ?case by (intro linger_end_ok) simp_all
qed (simp_all add: acquire_shared_ok release_shared_ok)

lemma pool_reach_ok: "pool_reach s \<Longrightarrow> pools_ok s"
  by (induction rule: pool_reach.induct) (simp add: pools_ok_def no_pools_def, rule pool_step_ok)

section \<open>Properties\<close>

text \<open>
  A borrowed pool stays open. However acquisitions, releases and timers interleave, the pool of an entry
  that is handed out and not released has not been closed, and the references of an entry are its borrowers.
\<close>

theorem borrowed_pool_open:
  assumes "pool_reach s" and "i \<in> set (pl_held s)"
  shows "i < length (pl_heap s) \<and> \<not> se_closed (pl_heap s ! i) \<and> se_refs (pl_heap s ! i) = int (count_list (pl_held s) i)"
proof -
  have "i < length (pl_heap s)" "0 < count_list (pl_held s) i"
    using pool_reach_ok [OF assms(1)] assms(2) count_list_pos by (auto simp: pools_ok_def)
  then show ?thesis using pool_reach_ok [OF assms(1)] by (auto simp: pools_ok_def)
qed

text \<open>A borrowing and a return while the first timer waits for the mutex; then the two timers run late.\<close>

definition late_timer_run :: "credentials \<Rightarrow> pools" where
  "late_timer_run c =
     (let acq = \<lambda>s. snd (acquire_shared True c s);
          s1 = release_shared 0 (acq no_pools);
          s2 = acq (s1\<lparr>pl_timers := [(0, 0, Fired)]\<rparr>);
          s3 = release_shared 0 s2;
          s4 = acq (linger_end 0 (s3\<lparr>pl_timers := [(1, 0, Armed)]\<rparr>))
      in acq (linger_end 0 (s4\<lparr>pl_timers := []\<rparr>)))"


definition entry_at :: "credentials \<Rightarrow> int \<Rightarrow> nat option \<Rightarrow> bool \<Rightarrow> shared_entry" where
  "entry_at c n t cl = \<lparr>se_key = pool_key c, se_config = pool_config c 0, se_refs = n, se_timer = t, se_closed = cl\<rparr>"

lemma late_timer_states:
  defines "acq \<equiv> \<lambda>c s. snd (acquire_shared True c s)"
  shows "acq c no_pools = \<lparr>pl_heap = [entry_at c 1 None False], pl_table = [pool_key c \<mapsto> 0], pl_timers = [], pl_next = 0, pl_held = [0]\<rparr>"
    and "release_shared 0 \<lparr>pl_heap = [entry_at c 1 None False], pl_table = m, pl_timers = ts, pl_next = n, pl_held = [0]\<rparr>
      = \<lparr>pl_heap = [entry_at c 0 (Some n) False], pl_table = m, pl_timers = ts @ [(n, 0, Armed)], pl_next = Suc n, pl_held = []\<rparr>"
    and "acq c \<lparr>pl_heap = [entry_at c 0 (Some n) False], pl_table = [pool_key c \<mapsto> 0], pl_timers = [(n, 0, Fired)], pl_next = k, pl_held = []\<rparr>
      = \<lparr>pl_heap = [entry_at c 1 None False], pl_table = [pool_key c \<mapsto> 0], pl_timers = [(n, 0, Fired)], pl_next = k, pl_held = [0]\<rparr>"
    and "linger_end 0 \<lparr>pl_heap = entry_at c 0 t cl # es, pl_table = m, pl_timers = ts, pl_next = k, pl_held = hs\<rparr>
      = \<lparr>pl_heap = entry_at c 0 t True # es, pl_table = m(pool_key c := None), pl_timers = ts, pl_next = k, pl_held = hs\<rparr>"
    and "acq c \<lparr>pl_heap = es, pl_table = Map.empty, pl_timers = ts, pl_next = k, pl_held = hs\<rparr>
      = \<lparr>pl_heap = es @ [entry_at c 1 None False], pl_table = [pool_key c \<mapsto> length es], pl_timers = ts, pl_next = k, pl_held = length es # hs\<rparr>"
  by (simp_all add: acq_def acquire_shared_def borrow_entry_def set_entry_def stop_timer_def release_shared_def no_pools_def Let_def
      linger_end_def entry_at_def)

lemma late_timer_run_eq: "late_timer_run c = \<lparr>pl_heap = [entry_at c 0 (Some 1) True, entry_at c 1 None False, entry_at c 1 None False],
    pl_table = [pool_key c \<mapsto> 2], pl_timers = [], pl_next = 2, pl_held = [2, 1]\<rparr>"
  by (simp add: late_timer_run_def Let_def late_timer_states numeral_2_eq_2)

lemma late_timer_reachable: "pool_reach (late_timer_run c)"
proof -
  let ?acq = "\<lambda>s. snd (acquire_shared True c s)"
  define s1 where "s1 = release_shared 0 (?acq no_pools)"
  define s2 where "s2 = ?acq (s1\<lparr>pl_timers := [(0, 0, Fired)]\<rparr>)"
  define s3 where "s3 = release_shared 0 s2"
  define s4 where "s4 = ?acq (linger_end 0 (s3\<lparr>pl_timers := [(1, 0, Armed)]\<rparr>))"
  have t1: "pl_timers s1 = [(0, 0, Armed)]" and h0: "0 \<in> set (pl_held (?acq no_pools))"
    by (simp_all add: s1_def late_timer_states)
  have t2: "h2 \<in> set (pl_held s2) \<longleftrightarrow> h2 = 0" for h2 by (simp add: s2_def s1_def late_timer_states)
  have t3: "pl_timers s3 = [(0, 0, Fired), (1, 0, Armed)]" by (simp add: s3_def s2_def s1_def late_timer_states)
  have t4: "pl_timers s4 = [(1, 0, Armed)]" by (simp add: s4_def s3_def s2_def s1_def late_timer_states)
  have "pool_reach (?acq no_pools)" by (rule pool_more [OF pool_start acquire_step])
  then have "pool_reach s1" unfolding s1_def by (rule pool_more) (rule release_step [OF h0])
  then have "pool_reach (s1\<lparr>pl_timers := [(0, 0, Fired)]\<rparr>)"
    by (rule pool_more) (use expire_step [of s1 "[]" 0 0 "[]"] t1 in simp)
  then have "pool_reach s2" unfolding s2_def by (rule pool_more) (rule acquire_step)
  then have "pool_reach s3" unfolding s3_def by (rule pool_more) (rule release_step, simp add: t2)
  then have "pool_reach (linger_end 0 (s3\<lparr>pl_timers := [(1, 0, Armed)]\<rparr>))"
    by (rule pool_more) (use fire_step [of s3 "[]" 0 0 "[(1, 0, Armed)]"] t3 in simp)
  then have "pool_reach s4" unfolding s4_def by (rule pool_more) (rule acquire_step)
  then have "pool_reach (s4\<lparr>pl_timers := [(1, 0, Fired)]\<rparr>)"
    by (rule pool_more) (use expire_step [of s4 "[]" 1 0 "[]"] t4 in simp)
  then have "pool_reach (linger_end 0 (s4\<lparr>pl_timers := []\<rparr>))"
    by (rule pool_more) (use fire_step [of "s4\<lparr>pl_timers := [(1, 0, Fired)]\<rparr>" "[]" 1 0 "[]"] in simp)
  then have "pool_reach (?acq (linger_end 0 (s4\<lparr>pl_timers := []\<rparr>)))" by (rule pool_more) (rule acquire_step)
  then show ?thesis unfolding late_timer_run_def Let_def s4_def s3_def s2_def s1_def .
qed

text \<open>
  A late timer opens a second pool for one provider. A timer that went off while its entry was being
  borrowed again closes the pool at once when the entry is returned; the timer armed then drops the next
  entry of the key from the table while it is borrowed, and the next borrower is given another pool.
\<close>

theorem late_timer_second_pool:
  "\<exists>s. pool_reach s \<and> pl_held s = [2, 1] \<and> (\<forall>i\<in>{1, 2}. \<not> se_closed (pl_heap s ! i) \<and> se_key (pl_heap s ! i) = pool_key c)"
proof (intro exI conjI)
  show "pool_reach (late_timer_run c)" by (rule late_timer_reachable)
qed (simp_all add: late_timer_run_eq entry_at_def)

section \<open>Witnesses\<close>

definition sample_credentials :: credentials where
  "sample_credentials = \<lparr>cd_host = ''news'', cd_port = 563, cd_user = ''u'', cd_ssl = True, cd_max_conns = 8\<rparr>"

theorem borrowed_pool_open_witness:
  "se_refs (pl_heap (snd (acquire_shared True sample_credentials no_pools)) ! 0) = 1
    \<and> \<not> se_closed (pl_heap (snd (acquire_shared True sample_credentials no_pools)) ! 0)"
proof -
  have r: "pool_reach (snd (acquire_shared True sample_credentials no_pools))"
    by (rule pool_more [OF pool_start acquire_step])
  have h: "pl_held (snd (acquire_shared True sample_credentials no_pools)) = [0]"
    by (simp add: acquire_shared_def borrow_entry_def set_entry_def stop_timer_def no_pools_def Let_def)
  from borrowed_pool_open [OF r, of 0] h show ?thesis by simp
qed

end
