(* ===== verification/Spec2Isabelle.thy ===== *)
theory Spec2Isabelle
  imports Debrid Api_Gate Pay_Checkout Signed_Links Cairn_Reader Keyed_Lock Zip_Layout Usenet_Volumes Usenet_Pool
begin

text \<open>
  Torrin: a verification development

  Torrin is a seedbox service. The \<open>api\<close> admits jobs into a PostgreSQL table, one row per user and
  content hash; \<open>ingest\<close> workers download the content, store it as blobs and keep the rows current;
  the \<open>evictor\<close> reclaims disk space from blobs nobody references; \<open>stream\<close> serves stored content,
  zip archives and Usenet releases; \<open>shared/auth\<close> and \<open>shared/billing\<close> keep accounts, plans and
  wallets. The processes share no memory: they meet in the database, so the model of the database
  rows is the core of the development, and the operations of each process are functions on it.

  Conventions. A Go function is an Isabelle function of the same name in snake case. A struct is
  a record; a nullable column is an option; an error result is \<open>Inl\<close> of an error value. A call
  to PostgreSQL, NNTP or the disk may fail: the calls of an operation are numbered in program
  order, and a set or function of faults says which of them return an error. A transaction either
  returns its new table or, when one of its statements fails, the table it began with
  (\<open>in_tx\<close>). Times are integers: nanoseconds on the rows of jobs, blobs and objects and on the clocks
  compared with them, whole seconds for accounts, sessions and links. Sizes are integers where the source does not rely on
  wrap-around, and words where it does (CRC-32, the byte arithmetic of yEnc).

  Theories and the files under \<open>src/\<close> they model:

  \<^item> \<open>Prelude\<close>: results, faults, transactions, byte-range arithmetic of lists, stable insertion;
    \<open>Go_Strings\<close>: the functions of Go's \<open>strings\<close>, \<open>strconv\<close> and string ordering used below;
    \<open>Bytes\<close>: bytes, little-endian fields and CRC-32.
  \<^item> \<open>Jobs\<close>: \<open>shared/jobs\<close> data model: the job row, its states, identity, upsert and row updates.
    \<open>Job_Queue\<close>: admission, readmission and promotion of the waiting queue. \<open>queue_step\<close> is one
    transaction of the API, or a worker's write that claims no slot anew, \<open>queue_reach\<close> the tables such steps
    reach. A worker can also write back a row it read before its slot was given away; \<open>queue_run\<close> has these
    writes as counted steps. The invariant \<open>queue_within\<close> is that no account holds more slots than its limit, and
    no hash is downloaded twice, but for one slot per counted write, and promotion respects the order of the queue.
    \<open>Job_Blobs\<close>: blob rows, references, eviction candidates.
  \<^item> \<open>Eviction\<close>: \<open>shared/eviction\<close>: garbage collection, reconciliation with the disk, budget and
    staleness passes. \<open>run_gc\<close> is a loop with fuel: when rows can be deleted, one round more than
    the number of blobs is enough (\<open>gc_terminates\<close>); when they cannot, no fuel is enough
    (\<open>gc_diverges_on_row_errors\<close>). \<open>Evict_Nodes\<close>: the evictor process around it, and what evicting a
    hash on one node does to the copy on another.
  \<^item> \<open>Cluster\<close>: \<open>shared/cluster\<close>, \<open>nodestatus\<close>, \<open>env\<close>: the nodes, their reports and the choice of a node.
    \<open>Scheduler\<close>: the API's dispatch of queued jobs (\<open>api/cmd/workers.go\<close>, \<open>handlers\<close>): one pass over
    the candidates, with steps of others between its statements that keep the limits (with any slack for
    stale writes) and leave a row just promoted its slot.
  \<^item> \<open>Blob_Store\<close>: content keys, uploads, manifests. \<open>Publish\<close>: \<open>ingest/internal/publish\<close>, \<open>jobrun\<close> and
    \<open>shared/failure\<close>: from a finished download to the completed rows. \<open>worker_refines_queue\<close> is the
    refinement: whatever fails, a worker's writes are steps of \<open>queue_step\<close> as long as the others leave the
    row its slot; \<open>published_content_safe\<close> joins it with the collector of \<open>Eviction\<close>, over the sequences
    of \<open>store_step\<close> that may follow a publication (\<open>gc_race_loses_published_blob\<close> is what a collector already
    at work can do).
  \<^item> \<open>Go_Url\<close>: the escaping of \<open>net/url\<close>. \<open>Magnet\<close>: \<open>shared/magnet\<close>, the forms of an info hash.
    \<open>Torrent_File\<close>: the size test of \<open>shared/torrentfile\<close>. \<open>Submit\<close>: the API's submissions, retries and
    rechecks (\<open>api/internal/handlers\<close>); \<open>submissions_refine_queue\<close> is the refinement of \<open>queue_step\<close> on
    the API's side. \<open>Torrent_Runner\<close>: \<open>ingest/internal/torrent\<close>, the poll of a download, seeding, orphans
    and cross-seeds over an engine whose answers are a parameter. \<open>Job_Control\<close>: deletions, from the
    handler to the ingest node's response. \<open>Ingest_Node\<close>: \<open>ingest/cmd\<close>, the workers of a node and what
    they hold as a step relation, the dispatch of a job to the runners, and the recovery of stranded jobs.
    \<open>Debrid\<close>: the debrid and hoster runners, over the downloads of \<open>Http_Download\<close>.
  \<^item> \<open>Http_Download\<close>: the resumable and the parallel download of \<open>shared/providers\<close>, over a server that
    is a parameter with the laws of RFC 9110 as hypotheses (\<open>serves\<close>, \<open>serves_chunks\<close>).
  \<^item> \<open>Signed_Links\<close>: \<open>shared/storage/sign.go\<close>, \<open>shared/cairn/path.go\<close> and \<open>serve\<close> of \<open>stream\<close>: what a signed
    link opens. HMAC is a parameter: 32 bytes, and no second message with the code of the issued one.
  \<^item> \<open>Object_Store\<close>: the disk back end of \<open>shared/storage\<close>. \<open>Encrypted_Stream\<close>: \<open>shared/crypto/stream.go\<close> and the
    handlers of stored objects, over the locale \<open>ranged_source\<close> and the documented laws of the DARE
    format; \<open>Cairn_Reader\<close>: \<open>shared/usenet/reader.go\<close>, the reader of archived releases. The locale is
    interpreted on the disk and on the archived release.
  \<^item> \<open>Plans\<close>: \<open>shared/plans\<close>: the offers, their prices and the links of a product.
    \<open>Wallet\<close>: the ledger of \<open>shared/auth/wallet.go\<close>, \<open>wallet_reach\<close> its histories.
    \<open>Billing\<close>: accounts, pauses, referrals (\<open>shared/auth\<close>) and the sales of \<open>shared/billing\<close>.
    \<open>Go_Json\<close>, \<open>Pay_Checkout\<close>: the card and crypto checkouts and their callbacks; an order carries its plan
    through the provider and back. \<open>Reseller\<close>: sale codes, partners and the sliding window limiter, with
    redemptions as interleaved statements.
  \<^item> \<open>Sign_In\<close>: \<open>shared/auth\<close> sessions, challenges, passwords, one-time and backup codes, API keys and the login
    handlers; HMAC, bcrypt and TOTP are parameters. \<open>Api_Gate\<close>: \<open>api/internal/middleware\<close>, what a request passes
    before its handler, and the account handlers. \<open>Go_Base64\<close>, \<open>Field_Cipher\<close>: \<open>shared/crypto/crypto.go\<close>, stored
    credentials sealed by a cipher whose opening of its own boxes is the hypothesis.
  \<^item> \<open>Guards\<close>: the four counting guards of \<open>stream\<close>, \<open>ingest\<close> and \<open>shared/providers\<close>, over the locales
    \<open>counting\<close>, \<open>limited\<close> and \<open>pooled\<close>, each guard an interpretation.
    \<open>Keyed_Lock\<close>: \<open>shared/keyed\<close>, a step relation of goroutines entering and leaving a critical
    section per key.
  \<^item> \<open>Zip_Layout\<close>: the seekable zip of \<open>stream\<close>: any range of the virtual archive, and a reader that
    recovers the files from its bytes.
  \<^item> \<open>Yenc\<close>, \<open>Reader_At\<close>, \<open>Rarfs\<close>: \<open>shared/usenet\<close>: the article decoder, the random-access reader with
    its cache and prefetch, and the entries of RAR volumes. \<open>Rarfs\<close> states what it needs of a volume
    as the locale \<open>volumes\<close> and interprets it on the reader of \<open>Reader_At\<close>. The loops
    \<open>entry_read_loop\<close> and \<open>read_loop\<close> carry fuel; one unit more than the bytes asked for is enough on
    complete files, and the properties prove that.
  \<^item> \<open>Usenet_Download\<close>: \<open>shared/usenet/download/download.go\<close>, the bulk downloader, a pass of goroutines being
    the order in which they end; a download never shows a wrong byte, and is exact or counts what is missing
    unless it was disturbed (\<open>undisturbed\<close>). \<open>Usenet_Pool\<close>: \<open>pool.go\<close>,
    the shared connection pools and their timers as a step relation. \<open>Usenet_Volumes\<close>: which file or archive
    of a release is streamed, the order of its volumes, the names in its PAR2 set and the census. The scan of
    a PAR2 set carries fuel: one unit more than its packets is enough for a well-formed set, and no fuel is
    enough for \<open>looping_set\<close> (\<open>par2_scan_hangs\<close>).

  Not modelled: the remaining HTTP handlers (lists, settings, pages) and the protocol fronts over them, the
  clients of external services and the processes around them (input and output over code that is not in
  the repository), posting to and post-processing from Usenet (a third-party encoder, par2, unrar and 7z
  processes), name and feed heuristics over regular expressions, the WebDAV, Telegram and Stremio
  servers, the text of the SQL schema beyond the columns and constraints the operations rely on, and
  the cryptography of the standard library.
\<close>

end
